(* ===== verification/Prelude.thy ===== *)
theory Prelude
  imports Main "HOL-Library.Word"
begin

text \<open>
  Shared vocabulary of the development: the C types the components use, error numbers and the
  outcome of a call that may block or crash, memory blocks updated by \<^verbatim>\<open>memcpy\<close>, C strings,
  linked chains on an explicit store, and the lemma collections the component proofs draw on.
\<close>

section \<open>C types\<close>

type_synonym byte = "8 word"
type_synonym u32 = "32 word"
type_synonym u64 = "64 word"

text \<open>
  \<^verbatim>\<open>pthread_t\<close> values and heap addresses are numbers; the thread id 0 is the one the code
  treats as "no thread". A pointer is an \<open>addr option\<close>, \<open>None\<close> being \<^verbatim>\<open>NULL\<close>.
\<close>

type_synonym tid = nat
type_synonym addr = nat

datatype errno = EINVAL | EPIPE | ETIMEDOUT | EINTR | EBADF | ENOMEM | ESRCH | ENOENT | ENOTDIR | EACCES

text \<open>
  A system-call style result: the value returned, and the value stored in \<^verbatim>\<open>errno\<close> if the
  call stores one.
\<close>

type_synonym 'a sysret = "'a \<times> errno option"

text \<open>
  The outcome of a call: it returns with a result and a new state, it is still blocked when the
  given schedule of wake-ups is used up, or it dereferences a null pointer.
\<close>

datatype ('r, 's) exec = Returns 'r 's | Blocked 's | Crash

record timespec =
  tv_sec :: int
  tv_nsec :: int

text \<open>Nanoseconds since the clock's origin.\<close>

definition ts_ns :: "timespec \<Rightarrow> int" where
  "ts_ns t = tv_sec t * 1000000000 + tv_nsec t"

definition ts_normal :: "timespec \<Rightarrow> bool" where
  "ts_normal t \<longleftrightarrow> 0 \<le> tv_nsec t \<and> tv_nsec t < 1000000000"

text \<open>C's division and remainder on signed integers truncate towards zero.\<close>

definition c_div :: "int \<Rightarrow> int \<Rightarrow> int" where
  "c_div a b = sgn a * sgn b * (\<bar>a\<bar> div \<bar>b\<bar>)"

definition c_mod :: "int \<Rightarrow> int \<Rightarrow> int" where
  "c_mod a b = a - b * c_div a b"

lemma c_div_nonneg: "0 \<le> a \<Longrightarrow> 0 < b \<Longrightarrow> c_div a b = a div b"
  by (cases "a = 0") (auto simp: c_div_def)

lemma c_mod_nonneg: "0 \<le> a \<Longrightarrow> 0 < b \<Longrightarrow> c_mod a b = a mod b"
  by (simp add: c_mod_def c_div_nonneg minus_mult_div_eq_mod)

text \<open>The implicit conversion of an \<^verbatim>\<open>int\<close> to \<^verbatim>\<open>size_t\<close>.\<close>

definition size_t_of_int :: "int \<Rightarrow> nat" where
  "size_t_of_int n = (if 0 \<le> n then nat n else nat (n + 2 ^ 64))"

lemma size_t_of_int_nonneg [simp]: "0 \<le> n \<Longrightarrow> size_t_of_int n = nat n"
  by (simp add: size_t_of_int_def)

section \<open>Memory blocks\<close>

text \<open>\<^verbatim>\<open>memcpy(dst + off, src, length src)\<close> on a block held as a list.\<close>

definition blit :: "'a list \<Rightarrow> nat \<Rightarrow> 'a list \<Rightarrow> 'a list" where
  "blit dst off src = take off dst @ src @ drop (off + length src) dst"

lemma length_blit [simp]:
  "off + length src \<le> length dst \<Longrightarrow> length (blit dst off src) = length dst"
  by (simp add: blit_def)

lemma blit_Nil [simp]: "off \<le> length dst \<Longrightarrow> blit dst off [] = dst"
  by (simp add: blit_def)

lemma nth_blit:
  "off + length src \<le> length dst \<Longrightarrow> i < length dst \<Longrightarrow>
   blit dst off src ! i =
     (if off \<le> i \<and> i < off + length src then src ! (i - off) else dst ! i)"
  by (auto simp: blit_def nth_append not_less less_diff_conv2)

section \<open>Counting\<close>

lemma int_card_remove: "finite A \<Longrightarrow> a \<in> A \<Longrightarrow> int (card (A - {a})) = int (card A) - 1"
  by (simp add: of_nat_diff card_gt_0_iff Suc_leI) (metis One_nat_def Suc_leI card_gt_0_iff empty_iff of_nat_1 of_nat_diff)

section \<open>Linked chains on a store\<close>

text \<open>
  The nodes reached from a pointer by following one link field until \<^verbatim>\<open>NULL\<close>. The store maps
  addresses to nodes; an address it does not map has been freed.
\<close>

fun chain :: "('a \<rightharpoonup> 'n) \<Rightarrow> ('n \<Rightarrow> 'a option) \<Rightarrow> 'a option \<Rightarrow> 'a list \<Rightarrow> bool" where
  "chain h nx p [] \<longleftrightarrow> p = None"
| "chain h nx p (a # as) \<longleftrightarrow> p = Some a \<and> (\<exists>n. h a = Some n \<and> chain h nx (nx n) as)"

lemma chain_None [simp]: "chain h nx None as \<longleftrightarrow> as = []"
  by (cases as) auto

lemma chain_Some:
  "chain h nx (Some a) as \<longleftrightarrow> (\<exists>n bs. as = a # bs \<and> h a = Some n \<and> chain h nx (nx n) bs)"
  by (cases as) auto

lemma chain_unique: "chain h nx p as \<Longrightarrow> chain h nx p bs \<Longrightarrow> as = bs"
proof (induction as arbitrary: p bs)
  case Nil
  then show ?case by simp
next
  case (Cons a as)
  then show ?case by (cases bs) auto
qed

lemma chain_in_dom: "chain h nx p as \<Longrightarrow> set as \<subseteq> dom h"
  by (induction as arbitrary: p) auto

lemma chain_cong:
  "chain h nx p as \<Longrightarrow> (\<And>a. a \<in> set as \<Longrightarrow> map_option nx (h' a) = map_option nx (h a)) \<Longrightarrow>
   chain h' nx p as"
proof (induction as arbitrary: p)
  case Nil
  then show ?case by simp
next
  case (Cons a as)
  from Cons.prems(1) obtain n where n: "p = Some a" "h a = Some n" "chain h nx (nx n) as"
    by auto
  from Cons.prems(2)[of a] n obtain n' where n': "h' a = Some n'" "nx n' = nx n"
    by auto
  have "chain h' nx (nx n) as" using Cons.IH [OF n(3)] Cons.prems(2) by simp
  with n n' show ?case by simp
qed

lemma chain_upd_other [simp]:
  "x \<notin> set as \<Longrightarrow> chain (h(x := v)) nx p as \<longleftrightarrow> chain h nx p as"
  by (auto elim!: chain_cong)

lemma chain_appendD:
  "chain h nx p (as @ bs) \<Longrightarrow> \<exists>q. chain h nx q bs"
  by (induction as arbitrary: p) auto

lemma chain_distinct: "chain h nx p as \<Longrightarrow> distinct as"
proof (induction as arbitrary: p)
  case Nil
  then show ?case by simp
next
  case (Cons a as)
  have "a \<notin> set as"
  proof
    assume "a \<in> set as"
    then obtain xs ys where split: "as = xs @ a # ys" by (auto simp: in_set_conv_decomp)
    with Cons.prems obtain q where "chain h nx q (a # ys)" by (fastforce dest: chain_appendD)
    with Cons.prems have "chain h nx p (a # ys)" by auto
    with Cons.prems have "a # ys = a # as" by (rule chain_unique [rotated])
    with split show False by simp
  qed
  with Cons show ?case by auto
qed

text \<open>
  The loop \<^verbatim>\<open>while (p != NULL) { if (P(p)) return p; p = p->next; }\<close>: it returns the first
  node that satisfies the condition, or \<^verbatim>\<open>NULL\<close>. \<open>None\<close> means that it follows a freed
  pointer or never ends (a cyclic chain).
\<close>

partial_function (option) chain_find ::
  "('a \<rightharpoonup> 'n) \<Rightarrow> ('n \<Rightarrow> 'a option) \<Rightarrow> ('n \<Rightarrow> bool) \<Rightarrow> 'a option \<Rightarrow> 'a option option" where
  "chain_find h nx P p =
     (case p of None \<Rightarrow> Some None
      | Some a \<Rightarrow> (case h a of None \<Rightarrow> None
                   | Some n \<Rightarrow> if P n then Some (Some a) else chain_find h nx P (nx n)))"

lemma chain_find_eq:
  "chain h nx p as \<Longrightarrow> chain_find h nx P p = Some (find (\<lambda>a. P (the (h a))) as)"
proof (induction as arbitrary: p)
  case Nil
  then show ?case by (simp add: chain_find.simps)
next
  case (Cons a as)
  then obtain n where "p = Some a" "h a = Some n" "chain h nx (nx n) as" by auto
  with Cons.IH show ?case by (simp add: chain_find.simps [of h nx P "Some a"])
qed

text \<open>
  The loop over a pointer to a link, \<^verbatim>\<open>while (*l != NULL) { if (*l == x) break; l = &(*l)->next; }\<close>:
  the link that points to \<open>x\<close>, the head or the link field of a node.
\<close>

datatype 'a link = HeadLink | NextOf 'a

partial_function (option) find_link ::
  "('a \<rightharpoonup> 'n) \<Rightarrow> ('n \<Rightarrow> 'a option) \<Rightarrow> 'a \<Rightarrow> 'a link \<Rightarrow> 'a option \<Rightarrow> 'a link option option" where
  "find_link h nx x l p =
     (case p of None \<Rightarrow> Some None
      | Some a \<Rightarrow> if a = x then Some (Some l)
                   else (case h a of None \<Rightarrow> None
                         | Some n \<Rightarrow> find_link h nx x (NextOf a) (nx n)))"

lemma find_link_eq:
  "chain h nx p as \<Longrightarrow> find_link h nx x l p =
     Some (if x \<in> set as then
             Some (case takeWhile (\<lambda>a. a \<noteq> x) as of [] \<Rightarrow> l | b # bs \<Rightarrow> NextOf (last (b # bs)))
           else None)"
proof (induction as arbitrary: p l)
  case Nil
  then show ?case by (simp add: find_link.simps)
next
  case (Cons a as)
  then obtain n where n: "p = Some a" "h a = Some n" "chain h nx (nx n) as" by auto
  with Cons.IH [OF n(3), of "NextOf a"] show ?case
    by (auto simp: find_link.simps [of h nx x l "Some a"] split: list.splits)
qed

text \<open>Unlinking a node behind its predecessor.\<close>

lemma chain_unlink:
  assumes "chain h nx p (zs @ b # a # ys)" and "h a = Some c" and "nx n' = nx c"
  shows "chain (h(b \<mapsto> n')) nx p (zs @ b # ys)"
  using assms(1)
proof (induction zs arbitrary: p)
  case Nil
  have "b \<notin> set ys" using chain_distinct [OF Nil] by simp
  moreover have p: "p = Some b" "chain h nx (nx n') ys" using Nil assms(2,3) by auto
  ultimately have "chain (h(b \<mapsto> n')) nx (nx n') ys" by simp
  with p(1) show ?case by (simp del: fun_upd_apply add: fun_upd_same)
next
  case (Cons z zs)
  then have "z \<noteq> b" using chain_distinct [OF Cons.prems] by auto
  with Cons show ?case by (auto simp del: fun_upd_apply simp: fun_upd_other)
qed

lemma find_unique:
  assumes "x \<in> set as" and "P x" and "\<And>y. y \<in> set as \<Longrightarrow> P y \<Longrightarrow> y = x"
  shows "find P as = Some x"
proof -
  from assms(1,2) obtain y where y: "find P as = Some y" by (cases "find P as") (auto simp: find_None_iff)
  then have "y \<in> set as" "P y" by (auto simp: find_Some_iff)
  with assms(3) y show ?thesis by simp
qed

section \<open>Ring buffers as rotated blocks\<close>

lemma mod_wrap: "x < 2 * (n::nat) \<Longrightarrow> x mod n = (if x < n then x else x - n)"
  by (auto simp: mod_if)

lemma rotate_split: "h < length xs \<Longrightarrow> rotate h xs = drop h xs @ take h xs"
  by (simp add: rotate_drop_take)

lemma take_rotate_shift:
  assumes "n \<le> m" "m \<le> length xs"
  shows "take (m - n) (rotate ((h + n) mod length xs) xs) = drop n (take m (rotate h xs))"
proof (rule nth_equalityI)
  show "length (take (m - n) (rotate ((h + n) mod length xs) xs)) =
        length (drop n (take m (rotate h xs)))"
    using assms by simp
next
  fix i assume i: "i < length (take (m - n) (rotate ((h + n) mod length xs) xs))"
  with assms have "i < length xs" "n + i < length xs" "n + i < m" by auto
  then show "take (m - n) (rotate ((h + n) mod length xs) xs) ! i = drop n (take m (rotate h xs)) ! i"
    using i by (simp add: nth_rotate mod_add_left_eq add.assoc)
qed

text \<open>A block written at a position of a ring, wrapping around at its end.\<close>

definition ring_put :: "'a list \<Rightarrow> nat \<Rightarrow> 'a list \<Rightarrow> 'a list" where
  "ring_put buf t xs =
     (let f = min (length xs) (length buf - t) in blit (blit buf t (take f xs)) 0 (drop f xs))"

lemma nth_ring_put:
  assumes "t < length buf" "length xs \<le> length buf" "i < length buf"
  shows "ring_put buf t xs ! i =
    (let k = (if t \<le> i then i - t else i + length buf - t)
     in if k < length xs then xs ! k else buf ! i)"
  using assms by (auto simp: ring_put_def Let_def nth_blit min_def not_le not_less add.commute)

lemma length_ring_put [simp]:
  "t < length buf \<Longrightarrow> length xs \<le> length buf \<Longrightarrow> length (ring_put buf t xs) = length buf"
  by (auto simp: ring_put_def Let_def min_def)

lemma take_rotate_put:
  assumes h: "h < length buf" and n: "a + length xs \<le> length buf" and t: "t = (h + a) mod length buf"
    and a: "a < length buf"
  shows "take (a + length xs) (rotate h (ring_put buf t xs)) = take a (rotate h buf) @ xs"
proof (rule nth_equalityI)
  have pos: "0 < length buf" using h by linarith
  then have t': "t < length buf" using t by simp
  show "length (take (a + length xs) (rotate h (ring_put buf t xs))) =
        length (take a (rotate h buf) @ xs)"
    using n t' by simp
  fix i assume "i < length (take (a + length xs) (rotate h (ring_put buf t xs)))"
  with n t' have i: "i < a + length xs" "i < length buf" by auto
  let ?j = "(h + i) mod length buf"
  have j: "?j < length buf" using pos by simp
  have k: "(if t \<le> ?j then ?j - t else ?j + length buf - t) = (if i < a then i + length buf - a else i - a)"
    using h i a n mod_wrap [of "h + i" "length buf"] mod_wrap [of "h + a" "length buf"]
    unfolding t by auto
  have "take (a + length xs) (rotate h (ring_put buf t xs)) ! i = ring_put buf t xs ! ?j"
    using i n t' by (simp add: nth_rotate)
  also have "\<dots> = (if i < a then buf ! ?j else xs ! (i - a))"
    using nth_ring_put [OF t' _ j, of xs] n i k by (auto simp: Let_def)
  also have "\<dots> = (take a (rotate h buf) @ xs) ! i"
    using i n by (auto simp: nth_append nth_rotate)
  finally show "take (a + length xs) (rotate h (ring_put buf t xs)) ! i = \<dots>" .
qed

section \<open>Static arrays\<close>

text \<open>Reading and writing a C array at a signed index; outside the array is a fault.\<close>

definition get_at :: "'a list \<Rightarrow> int \<Rightarrow> 'a option" where
  "get_at xs i = (if 0 \<le> i \<and> i < int (length xs) then Some (xs ! nat i) else None)"

definition set_at :: "'a list \<Rightarrow> int \<Rightarrow> 'a \<Rightarrow> 'a list option" where
  "set_at xs i v = (if 0 \<le> i \<and> i < int (length xs) then Some (xs[nat i := v]) else None)"

lemma get_at_in [simp]: "0 \<le> i \<Longrightarrow> i < int (length xs) \<Longrightarrow> get_at xs i = Some (xs ! nat i)"
  by (simp add: get_at_def)

lemma set_at_in [simp]: "0 \<le> i \<Longrightarrow> i < int (length xs) \<Longrightarrow> set_at xs i v = Some (xs[nat i := v])"
  by (simp add: set_at_def)

section \<open>Busy waiting\<close>

text \<open>
  A loop that polls a condition: every entry of the schedule is what the other threads do between
  two evaluations. The rest of the schedule is returned for the waits that follow. \<open>None\<close> for
  the condition is a fault while evaluating it.
\<close>

fun spin_until :: "('s \<Rightarrow> bool option) \<Rightarrow> ('s \<Rightarrow> 's) list \<Rightarrow> 's \<Rightarrow> (('s \<Rightarrow> 's) list, 's) exec" where
  "spin_until cond ws s =
     (case cond s of
        None \<Rightarrow> Crash
      | Some True \<Rightarrow> Returns ws s
      | Some False \<Rightarrow> (case ws of [] \<Rightarrow> Blocked s | w # ws' \<Rightarrow> spin_until cond ws' (w s)))"

declare spin_until.simps [simp del]

lemma spin_until_done: "cond s = Some True \<Longrightarrow> spin_until cond ws s = Returns ws s"
  by (simp add: spin_until.simps)

lemma spin_until_step: "cond s = Some False \<Longrightarrow> spin_until cond (w # ws) s = spin_until cond ws (w s)"
  by (simp add: spin_until.simps)

lemma spin_until_Nil: "cond s = Some False \<Longrightarrow> spin_until cond [] s = Blocked s"
  by (simp add: spin_until.simps)

lemmas spin_simps = spin_until_done spin_until_step spin_until_Nil

text \<open>The loop stops at the first state of the schedule that satisfies the condition.\<close>

lemma spin_until_first:
  assumes "\<forall>i < k. cond (fold (\<lambda>w. w) (take i ws) s) = Some False"
    and "k \<le> length ws" and "cond (fold (\<lambda>w. w) (take k ws) s) = Some True"
  shows "spin_until cond ws s = Returns (drop k ws) (fold (\<lambda>w. w) (take k ws) s)"
  using assms
proof (induction k arbitrary: ws s)
  case 0
  then show ?case by (simp add: spin_until_done)
next
  case (Suc k)
  then obtain w ws' where ws: "ws = w # ws'" by (cases ws) auto
  have "cond s = Some False" using Suc.prems(1) by (auto dest: spec [of _ 0])
  moreover have "spin_until cond ws' (w s) = Returns (drop k ws') (fold (\<lambda>w. w) (take k ws') (w s))"
  proof (rule Suc.IH)
    show "\<forall>i < k. cond (fold (\<lambda>w. w) (take i ws') (w s)) = Some False"
      using Suc.prems(1) ws by (auto dest: spec [of _ "Suc i" for i])
  qed (use Suc.prems ws in simp_all)
  ultimately show ?case by (simp add: ws spin_until_step)
qed

lemma spin_until_never:
  "\<forall>i \<le> length ws. cond (fold (\<lambda>w. w) (take i ws) s) = Some False \<Longrightarrow>
   spin_until cond ws s = Blocked (fold (\<lambda>w. w) ws s)"
proof (induction ws arbitrary: s)
  case Nil
  then show ?case by (simp add: spin_until_Nil)
next
  case (Cons w ws)
  have "cond s = Some False" using Cons.prems by (auto dest: spec [of _ 0])
  moreover have "\<forall>i \<le> length ws. cond (fold (\<lambda>w. w) (take i ws) (w s)) = Some False"
    using Cons.prems by (auto dest: spec [of _ "Suc i" for i])
  ultimately show ?case using Cons.IH [of "w s"] by (simp add: spin_until_step)
qed

end
