(* ===== verification/Interfaces.thy ===== *)
theory Interfaces
  imports Prelude
begin

text \<open>
  The interfaces between the components, as locales: a bounded channel (the pipe's ring, the
  worker queues), a pool of identifiers (process ids, interpreter slots) and an environment
  store, with the lemmas their clients rely on. Each locale is interpreted on the model of the
  code in the theory of the component that provides it.
\<close>

section \<open>Bounded channels\<close>

text \<open>
  The interface of a bounded first-in first-out channel: \<open>put\<close> accepts as many of the offered
  elements as there is room for, \<open>get\<close> hands out at most the number asked for.
\<close>

locale bounded_channel =
  fixes inv :: "'s \<Rightarrow> bool"
    and contents :: "'s \<Rightarrow> 'a list"
    and room :: "'s \<Rightarrow> nat"
    and put :: "'s \<Rightarrow> 'a list \<Rightarrow> nat \<times> 's"
    and get :: "'s \<Rightarrow> nat \<Rightarrow> 'a list \<times> 's"
  assumes put_inv: "inv s \<Longrightarrow> inv (snd (put s xs))"
    and put_count: "inv s \<Longrightarrow> fst (put s xs) = min (length xs) (room s)"
    and put_contents: "inv s \<Longrightarrow> contents (snd (put s xs)) = contents s @ take (room s) xs"
    and put_room: "inv s \<Longrightarrow> room (snd (put s xs)) = room s - length xs"
    and get_inv: "inv s \<Longrightarrow> inv (snd (get s n))"
    and get_elems: "inv s \<Longrightarrow> fst (get s n) = take n (contents s)"
    and get_contents: "inv s \<Longrightarrow> contents (snd (get s n)) = drop n (contents s)"
    and get_room: "inv s \<Longrightarrow> room (snd (get s n)) = room s + min n (length (contents s))"

text \<open>A sequence of transfers: what was accepted, what was handed out, and the final state.\<close>

datatype 'a xfer = Put "'a list" | Get nat

fun channel_run ::
  "('s \<Rightarrow> 'a list \<Rightarrow> nat \<times> 's) \<Rightarrow> ('s \<Rightarrow> nat \<Rightarrow> 'a list \<times> 's) \<Rightarrow> 's \<Rightarrow> 'a xfer list \<Rightarrow>
   'a list \<times> 'a list \<times> 's" where
  "channel_run put get s [] = ([], [], s)"
| "channel_run put get s (Put xs # ops) =
     (let (n, s') = put s xs; (i, out, s'') = channel_run put get s' ops in (take n xs @ i, out, s''))"
| "channel_run put get s (Get n # ops) =
     (let (xs, s') = get s n; (i, out, s'') = channel_run put get s' ops in (i, xs @ out, s''))"

context bounded_channel
begin

text \<open>Whatever the order of the transfers, what comes out is what went in, in order.\<close>

lemma run_stream:
  "inv s \<Longrightarrow> channel_run put get s ops = (i, out, s') \<Longrightarrow>
   contents s @ i = out @ contents s' \<and> inv s'"
proof (induction ops arbitrary: s i out)
  case Nil
  then show ?case by simp
next
  case (Cons op ops)
  show ?case
  proof (cases op)
    case (Put xs)
    obtain i' where i': "channel_run put get (snd (put s xs)) ops = (i', out, s')"
      "i = take (fst (put s xs)) xs @ i'"
      using Cons.prems(2) Put by (auto split: prod.splits)
    from Cons.IH [OF put_inv [OF Cons.prems(1)] i'(1)] Cons.prems(1) show ?thesis
      by (cases "length xs \<le> room s") (simp_all add: put_contents put_count i'(2) min_def)
  next
    case (Get n)
    obtain out' where o': "channel_run put get (snd (get s n)) ops = (i, out', s')"
      "out = fst (get s n) @ out'"
      using Cons.prems(2) Get by (auto split: prod.splits)
    from Cons.IH [OF get_inv [OF Cons.prems(1)] o'(1)] Cons.prems(1) show ?thesis
      by (simp add: get_contents get_elems o'(2)) (metis append_assoc append_take_drop_id)
  qed
qed

text \<open>The room left and the elements held always add up to the same number.\<close>

lemma run_capacity:
  "inv s \<Longrightarrow> channel_run put get s ops = (i, out, s') \<Longrightarrow>
   room s' + length (contents s') = room s + length (contents s)"
proof (induction ops arbitrary: s i out)
  case Nil
  then show ?case by simp
next
  case (Cons op ops)
  show ?case
  proof (cases op)
    case (Put xs)
    then obtain i' where "channel_run put get (snd (put s xs)) ops = (i', out, s')"
      using Cons.prems(2) by (auto split: prod.splits)
    from Cons.IH [OF put_inv [OF Cons.prems(1)] this] Cons.prems(1) show ?thesis
      by (simp add: put_contents put_room min_def split: if_splits)
  next
    case (Get n)
    then obtain out' where "channel_run put get (snd (get s n)) ops = (i, out', s')"
      using Cons.prems(2) by (auto split: prod.splits)
    from Cons.IH [OF get_inv [OF Cons.prems(1)] this] Cons.prems(1) show ?thesis
      by (simp add: get_contents get_room min_def split: if_splits)
  qed
qed

end

section \<open>Bounded queues\<close>

text \<open>
  The interface of a bounded queue that takes and hands out one element at a time. It gives a
  bounded channel by repetition.
\<close>

locale bounded_queue =
  fixes inv :: "'s \<Rightarrow> bool"
    and contents :: "'s \<Rightarrow> 'a list"
    and room :: "'s \<Rightarrow> nat"
    and enq :: "'s \<Rightarrow> 'a \<Rightarrow> 's option"
    and deq :: "'s \<Rightarrow> ('a \<times> 's) option"
  assumes enq_full: "inv s \<Longrightarrow> room s = 0 \<Longrightarrow> enq s x = None"
    and enq_room: "inv s \<Longrightarrow> 0 < room s \<Longrightarrow>
      \<exists>s'. enq s x = Some s' \<and> inv s' \<and> contents s' = contents s @ [x] \<and> room s' = room s - 1"
    and deq_empty: "inv s \<Longrightarrow> contents s = [] \<Longrightarrow> deq s = None"
    and deq_front: "inv s \<Longrightarrow> contents s = x # xs \<Longrightarrow>
      \<exists>s'. deq s = Some (x, s') \<and> inv s' \<and> contents s' = xs \<and> room s' = room s + 1"

fun enq_list :: "('s \<Rightarrow> 'a \<Rightarrow> 's option) \<Rightarrow> 's \<Rightarrow> 'a list \<Rightarrow> nat \<times> 's" where
  "enq_list enq s [] = (0, s)"
| "enq_list enq s (x # xs) =
     (case enq s x of None \<Rightarrow> (0, s) | Some s' \<Rightarrow> let (n, s'') = enq_list enq s' xs in (Suc n, s''))"

fun deq_list :: "('s \<Rightarrow> ('a \<times> 's) option) \<Rightarrow> 's \<Rightarrow> nat \<Rightarrow> 'a list \<times> 's" where
  "deq_list deq s 0 = ([], s)"
| "deq_list deq s (Suc n) =
     (case deq s of None \<Rightarrow> ([], s) | Some (x, s') \<Rightarrow> let (xs, s'') = deq_list deq s' n in (x # xs, s''))"

context bounded_queue
begin

lemma enq_list_spec:
  "inv s \<Longrightarrow> inv (snd (enq_list enq s xs)) \<and> fst (enq_list enq s xs) = min (length xs) (room s) \<and>
   contents (snd (enq_list enq s xs)) = contents s @ take (room s) xs \<and>
   room (snd (enq_list enq s xs)) = room s - length xs"
proof (induction xs arbitrary: s)
  case Nil
  then show ?case by simp
next
  case (Cons x xs)
  show ?case
  proof (cases "room s")
    case 0
    with Cons.prems enq_full show ?thesis by simp
  next
    case (Suc r)
    with enq_room [OF Cons.prems, of x] obtain s' where s': "enq s x = Some s'" "inv s'"
      "contents s' = contents s @ [x]" "room s' = r" by auto
    from Cons.IH [OF s'(2)] s' Suc show ?thesis by (simp add: split_beta)
  qed
qed

lemma deq_list_spec:
  "inv s \<Longrightarrow> inv (snd (deq_list deq s n)) \<and> fst (deq_list deq s n) = take n (contents s) \<and>
   contents (snd (deq_list deq s n)) = drop n (contents s) \<and>
   room (snd (deq_list deq s n)) = room s + min n (length (contents s))"
proof (induction n arbitrary: s)
  case 0
  then show ?case by simp
next
  case (Suc n)
  show ?case
  proof (cases "contents s")
    case Nil
    with Suc.prems deq_empty show ?thesis by simp
  next
    case (Cons x xs)
    with deq_front [OF Suc.prems Cons] obtain s' where s': "deq s = Some (x, s')" "inv s'"
      "contents s' = xs" "room s' = room s + 1" by auto
    from Suc.IH [OF s'(2)] s' Cons show ?thesis by (simp add: split_beta)
  qed
qed

end

sublocale bounded_queue \<subseteq> channel: bounded_channel inv contents room "enq_list enq" "deq_list deq"
  by unfold_locales (use enq_list_spec deq_list_spec in blast)+

section \<open>Pools of identifiers\<close>

text \<open>
  The interface of a pool that hands out identifiers (process ids, interpreter slots): an
  acquired identifier was not live, and only its own release ends its life. Both operations are
  relations, since the provider may choose among several free identifiers.
\<close>

locale id_pool =
  fixes inv :: "'s \<Rightarrow> bool"
    and live :: "'s \<Rightarrow> 'id set"
    and acquire :: "'s \<Rightarrow> 'id \<Rightarrow> 's \<Rightarrow> bool"
    and release :: "'s \<Rightarrow> 'id \<Rightarrow> 's \<Rightarrow> bool"
  assumes acquire_fresh: "inv s \<Longrightarrow> acquire s i s' \<Longrightarrow> i \<notin> live s"
    and acquire_live: "inv s \<Longrightarrow> acquire s i s' \<Longrightarrow> live s' = insert i (live s)"
    and acquire_inv: "inv s \<Longrightarrow> acquire s i s' \<Longrightarrow> inv s'"
    and release_live: "inv s \<Longrightarrow> i \<in> live s \<Longrightarrow> release s i s' \<Longrightarrow> live s' = live s - {i}"
    and release_inv: "inv s \<Longrightarrow> i \<in> live s \<Longrightarrow> release s i s' \<Longrightarrow> inv s'"

text \<open>
  A history of a pool with the identifiers its clients hold; only a held identifier is released.
\<close>

inductive pool_run ::
  "('s \<Rightarrow> 'id \<Rightarrow> 's \<Rightarrow> bool) \<Rightarrow> ('s \<Rightarrow> 'id \<Rightarrow> 's \<Rightarrow> bool) \<Rightarrow> 's \<Rightarrow> 'id list \<Rightarrow> 's \<Rightarrow> 'id list \<Rightarrow> bool"
  for acquire release where
  pool_start: "pool_run acquire release s held s held"
| pool_acquire: "pool_run acquire release s held s' held' \<Longrightarrow> acquire s' i s'' \<Longrightarrow>
    pool_run acquire release s held s'' (i # held')"
| pool_release: "pool_run acquire release s held s' held' \<Longrightarrow> i \<in> set held' \<Longrightarrow> release s' i s'' \<Longrightarrow>
    pool_run acquire release s held s'' (remove1 i held')"

context id_pool
begin

text \<open>No identifier is ever held twice, and exactly the held ones are live.\<close>

lemma run_exclusive:
  assumes "pool_run acquire release s held s' held'"
    and "inv s" and "distinct held" and "set held = live s"
  shows "inv s' \<and> distinct held' \<and> set held' = live s'"
  using assms
proof (induction rule: pool_run.induct)
  case (pool_start s held)
  then show ?case by simp
next
  case (pool_acquire s held s' held' i s'')
  then have "inv s'" "distinct held'" "set held' = live s'" by auto
  with acquire_fresh [OF this(1) pool_acquire(2)] acquire_live [OF this(1) pool_acquire(2)]
    acquire_inv [OF this(1) pool_acquire(2)]
  show ?case by simp
next
  case (pool_release s held s' held' i s'')
  then have "inv s'" "distinct held'" "set held' = live s'" by auto
  with pool_release(2) release_live [OF this(1) _ pool_release(3)]
    release_inv [OF this(1) _ pool_release(3)]
  show ?case by (simp add: set_remove1_eq)
qed

end

section \<open>Environment stores\<close>

text \<open>
  The interface of an environment: what a lookup returns after a variable is set or unset, for
  the names the store accepts.
\<close>

locale env_store =
  fixes ok_name :: "'n \<Rightarrow> bool"
    and inv :: "'s \<Rightarrow> bool"
    and get :: "'s \<Rightarrow> 'n \<Rightarrow> 'v option"
    and put :: "'s \<Rightarrow> 'n \<Rightarrow> 'v \<Rightarrow> 's"
    and del :: "'s \<Rightarrow> 'n \<Rightarrow> 's"
  assumes put_inv: "inv s \<Longrightarrow> ok_name n \<Longrightarrow> inv (put s n v)"
    and del_inv: "inv s \<Longrightarrow> ok_name n \<Longrightarrow> inv (del s n)"
    and get_put: "inv s \<Longrightarrow> ok_name n \<Longrightarrow> ok_name m \<Longrightarrow>
      get (put s n v) m = (if m = n then Some v else get s m)"
    and get_del: "inv s \<Longrightarrow> ok_name n \<Longrightarrow> ok_name m \<Longrightarrow>
      get (del s n) m = (if m = n then None else get s m)"

text \<open>A sequence of updates, on a store and on a finite map.\<close>

datatype ('n, 'v) env_op = Assign 'n 'v | Delete 'n

fun op_name :: "('n, 'v) env_op \<Rightarrow> 'n" where
  "op_name (Assign n v) = n"
| "op_name (Delete n) = n"

fun env_run :: "('s \<Rightarrow> 'n \<Rightarrow> 'v \<Rightarrow> 's) \<Rightarrow> ('s \<Rightarrow> 'n \<Rightarrow> 's) \<Rightarrow> ('n, 'v) env_op list \<Rightarrow> 's \<Rightarrow> 's" where
  "env_run put del [] s = s"
| "env_run put del (Assign n v # ops) s = env_run put del ops (put s n v)"
| "env_run put del (Delete n # ops) s = env_run put del ops (del s n)"

fun map_run :: "('n, 'v) env_op list \<Rightarrow> ('n \<rightharpoonup> 'v) \<Rightarrow> ('n \<rightharpoonup> 'v)" where
  "map_run [] m = m"
| "map_run (Assign n v # ops) m = map_run ops (m(n \<mapsto> v))"
| "map_run (Delete n # ops) m = map_run ops (m(n := None))"

lemma map_run_cong: "m x = m' x \<Longrightarrow> map_run ops m x = map_run ops m' x"
proof (induction ops arbitrary: m m')
  case Nil
  then show ?case by simp
next
  case (Cons u ops)
  show ?case
  proof (cases u)
    case (Assign n v)
    have "map_run ops (m(n \<mapsto> v)) x = map_run ops (m'(n \<mapsto> v)) x"
      by (rule Cons.IH) (use Cons.prems in simp)
    with Assign show ?thesis by (simp only: map_run.simps)
  next
    case (Delete n)
    have "map_run ops (m(n := None)) x = map_run ops (m'(n := None)) x"
      by (rule Cons.IH) (use Cons.prems in simp)
    with Delete show ?thesis by (simp only: map_run.simps)
  qed
qed

context env_store
begin

text \<open>The store refines a finite map, on the names it accepts.\<close>

lemma run_refines_map:
  "inv s \<Longrightarrow> \<forall>u \<in> set ops. ok_name (op_name u) \<Longrightarrow> ok_name m \<Longrightarrow>
   inv (env_run put del ops s) \<and> get (env_run put del ops s) m = map_run ops (get s) m"
proof (induction ops arbitrary: s)
  case Nil
  then show ?case by simp
next
  case (Cons u ops)
  show ?case
  proof (cases u)
    case (Assign n v)
    then have n: "inv (put s n v)" "ok_name n" using Cons.prems by (simp_all add: put_inv)
    have "map_run ops (get (put s n v)) m = map_run ops ((get s)(n \<mapsto> v)) m"
      by (rule map_run_cong) (use n Cons.prems in \<open>simp add: get_put\<close>)
    with Cons.IH [OF n(1)] Cons.prems Assign show ?thesis by (simp del: fun_upd_apply)
  next
    case (Delete n)
    then have n: "inv (del s n)" "ok_name n" using Cons.prems by (simp_all add: del_inv)
    have "map_run ops (get (del s n)) m = map_run ops ((get s)(n := None)) m"
      by (rule map_run_cong) (use n Cons.prems in \<open>simp add: get_del\<close>)
    with Cons.IH [OF n(1)] Cons.prems Delete show ?thesis by (simp del: fun_upd_apply)
  qed
qed

end

section \<open>Shared objects with reference counts\<close>

text \<open>
  The interface of objects that several clients share: acquiring an object counts one reference more, releasing a counted
  one a reference less, other operations leave the counts alone, and an object with references is not freed.
\<close>

locale ref_pool =
  fixes inv :: "'s \<Rightarrow> bool"
    and refs :: "'s \<Rightarrow> 'a \<Rightarrow> nat"
    and live :: "'s \<Rightarrow> 'a set"
    and acquire :: "'s \<Rightarrow> 'a \<Rightarrow> 's \<Rightarrow> bool"
    and release :: "'s \<Rightarrow> 'a \<Rightarrow> 's \<Rightarrow> bool"
    and other :: "'s \<Rightarrow> 's \<Rightarrow> bool"
  assumes acquire_counts: "inv s \<Longrightarrow> acquire s a s' \<Longrightarrow> inv s' \<and> refs s' = (refs s)(a := refs s a + 1)"
    and release_counts: "inv s \<Longrightarrow> 0 < refs s a \<Longrightarrow> release s a s' \<Longrightarrow> inv s' \<and> refs s' = (refs s)(a := refs s a - 1)"
    and other_counts: "inv s \<Longrightarrow> other s s' \<Longrightarrow> inv s' \<and> refs s' = refs s"
    and counted_live: "inv s \<Longrightarrow> 0 < refs s a \<Longrightarrow> a \<in> live s"

text \<open>A history with the references the clients hold; a client only releases what it holds.\<close>

inductive ref_run ::
  "('s \<Rightarrow> 'a \<Rightarrow> 's \<Rightarrow> bool) \<Rightarrow> ('s \<Rightarrow> 'a \<Rightarrow> 's \<Rightarrow> bool) \<Rightarrow> ('s \<Rightarrow> 's \<Rightarrow> bool) \<Rightarrow> 's \<Rightarrow> 's \<Rightarrow> 'a list \<Rightarrow> bool"
  for acquire release other s where
  ref_start: "ref_run acquire release other s s []"
| ref_acquire: "ref_run acquire release other s s' held \<Longrightarrow> acquire s' a s'' \<Longrightarrow>
    ref_run acquire release other s s'' (a # held)"
| ref_release: "ref_run acquire release other s s' held \<Longrightarrow> a \<in> set held \<Longrightarrow> release s' a s'' \<Longrightarrow>
    ref_run acquire release other s s'' (remove1 a held)"
| ref_other: "ref_run acquire release other s s' held \<Longrightarrow> other s' s'' \<Longrightarrow>
    ref_run acquire release other s s'' held"

lemma count_list_remove1: "count_list (remove1 a xs) b = (if a = b then count_list xs b - 1 else count_list xs b)"
  by (induction xs) auto

context ref_pool
begin

text \<open>The counts are exact: as many references as are held; and what is held is alive.\<close>

lemma run_counts:
  assumes "ref_run acquire release other s s' held" and "inv s" and "\<forall>a. refs s a = 0"
  shows "inv s' \<and> (\<forall>a. refs s' a = count_list held a) \<and> set held \<subseteq> live s'"
proof -
  have "inv s' \<and> (\<forall>a. refs s' a = count_list held a)"
    using assms
  proof (induction rule: ref_run.induct)
    case ref_start
    then show ?case by simp
  next
    case (ref_acquire s' held a s'')
    then show ?case using acquire_counts [of s' a s''] by simp
  next
    case (ref_release s' held a s'')
    then have "0 < refs s' a" by (simp add: count_list_0_iff neq0_conv [symmetric])
    with ref_release show ?case using release_counts [of s' a s''] by (simp add: count_list_remove1)
  next
    case (ref_other s' held s'')
    then show ?case using other_counts [of s' s''] by simp
  qed
  moreover from this have "set held \<subseteq> live s'" using counted_live by (metis count_list_0_iff neq0_conv subsetI)
  ultimately show ?thesis by simp
qed

end

end
