(* ===== verification/Buffered_Pipe.thy ===== *)
theory Buffered_Pipe
  imports Interfaces
begin

text \<open>
  The ring-buffer pipe of \<^verbatim>\<open>ios_buffered_pipe.c\<close>: the record of the pipe, the ring
  operations, the blocking read and write loops, closing, polling, statistics, flushing and the
  stdio callbacks.

  Every loop of the source runs with \<^verbatim>\<open>pipe->mutex\<close> held and gives it up only inside
  \<^verbatim>\<open>wait_with_timeout\<close> (or around \<^verbatim>\<open>usleep\<close> in \<^verbatim>\<open>ios_pipe_flush\<close>). A call therefore takes
  a schedule, a list with one entry per wait: what the wait returned and what the other threads
  did to the pipe meanwhile. A call that waits more often than the schedule has entries is
  \<open>Blocked\<close>. Setting one of the two close flags outside the mutex commutes with the critical
  sections, so it is placed at a wait or before the call.

  \<^verbatim>\<open>size_t\<close> values are natural numbers; the lemma \<open>ring_index_fits\<close> shows that no sum
  the ring operations form reaches \<open>2 ^ 64\<close> for a block that \<^verbatim>\<open>malloc\<close> can return.
\<close>

section \<open>State\<close>

definition DEFAULT_BUFFER_SIZE :: nat where
  "DEFAULT_BUFFER_SIZE = 64 * 1024"

definition DEFAULT_TIMEOUT_MS :: int where
  "DEFAULT_TIMEOUT_MS = - 1"

record ios_pipe_config =
  cfg_buffer_size :: nat
  cfg_read_timeout_ms :: int
  cfg_write_timeout_ms :: int
  cfg_suppress_sigpipe :: bool

record ios_buffered_pipe =
  bp_buffer :: "byte list"
  bp_capacity :: nat
  bp_head :: nat
  bp_tail :: nat
  bp_write_closed :: bool
  bp_read_closed :: bool
  bp_suppress_sigpipe :: bool
  bp_read_timeout_ms :: int
  bp_write_timeout_ms :: int
  bp_total_written :: u64
  bp_total_read :: u64
  bp_writer_waits :: u32
  bp_reader_waits :: u32

record ios_pipe_stats =
  st_bytes_written :: u64
  st_bytes_read :: u64
  st_buffer_used :: nat
  st_buffer_size :: nat
  st_writer_waits :: u32
  st_reader_waits :: u32
  st_is_closed :: bool
  st_is_eof :: bool

section \<open>Ring operations\<close>

definition ring_buffer_available :: "ios_buffered_pipe \<Rightarrow> nat" where
  "ring_buffer_available p =
     (let h = bp_head p; t = bp_tail p
      in if t \<ge> h then t - h else (bp_capacity p - h) + t)"

definition ring_buffer_space :: "ios_buffered_pipe \<Rightarrow> nat" where
  "ring_buffer_space p = bp_capacity p - ring_buffer_available p - 1"

definition ring_buffer_write :: "ios_buffered_pipe \<Rightarrow> byte list \<Rightarrow> nat \<times> ios_buffered_pipe" where
  "ring_buffer_write p data =
     (let space = ring_buffer_space p;
          to_write = (if length data < space then length data else space)
      in if to_write = 0 then (0, p)
         else let t = bp_tail p;
                  first_part = (if bp_capacity p - t > to_write then to_write
                                else bp_capacity p - t);
                  buf1 = blit (bp_buffer p) t (take first_part data);
                  buf2 = (if to_write > first_part
                          then blit buf1 0 (take (to_write - first_part) (drop first_part data))
                          else buf1)
              in (to_write, p\<lparr>bp_buffer := buf2, bp_tail := (t + to_write) mod bp_capacity p\<rparr>))"

text \<open>The bytes copied to the caller's buffer are returned; their number is the return value.\<close>

definition ring_buffer_read :: "ios_buffered_pipe \<Rightarrow> nat \<Rightarrow> byte list \<times> ios_buffered_pipe" where
  "ring_buffer_read p sz =
     (let available = ring_buffer_available p;
          to_read = (if sz < available then sz else available)
      in if to_read = 0 then ([], p)
         else let h = bp_head p;
                  first_part = (if bp_capacity p - h > to_read then to_read
                                else bp_capacity p - h);
                  dest1 = take first_part (drop h (bp_buffer p));
                  dest2 = (if to_read > first_part
                           then dest1 @ take (to_read - first_part) (bp_buffer p)
                           else dest1)
              in (dest2, p\<lparr>bp_head := (h + to_read) mod bp_capacity p\<rparr>))"

section \<open>Waiting\<close>

text \<open>The absolute time a timed wait ends at, from the clock reading \<open>now\<close>.\<close>

definition wait_deadline :: "timespec \<Rightarrow> int \<Rightarrow> timespec" where
  "wait_deadline now timeout_ms =
     (let ts = now\<lparr>tv_sec := tv_sec now + c_div timeout_ms 1000,
                   tv_nsec := tv_nsec now + c_mod timeout_ms 1000 * 1000000\<rparr>
      in if tv_nsec ts \<ge> 1000000000
         then ts\<lparr>tv_sec := tv_sec ts + 1, tv_nsec := tv_nsec ts - 1000000000\<rparr> else ts)"

text \<open>
  One wake-up: the clock when the wait starts, what \<^verbatim>\<open>pthread_cond_wait\<close> (\<open>None\<close>) or
  \<^verbatim>\<open>pthread_cond_timedwait\<close> (\<open>Some\<close> deadline) returns, and the other threads' effect.
\<close>

record wake =
  wk_now :: timespec
  wk_rc :: "timespec option \<Rightarrow> errno option"
  wk_others :: "ios_buffered_pipe \<Rightarrow> ios_buffered_pipe"

definition wait_with_timeout ::
  "int \<Rightarrow> wake list \<Rightarrow> ios_buffered_pipe \<Rightarrow>
   (errno option \<times> wake list, ios_buffered_pipe) exec" where
  "wait_with_timeout timeout_ms ws p =
     (if timeout_ms < 0 then
        (case ws of [] \<Rightarrow> Blocked p
         | w # ws' \<Rightarrow> Returns (wk_rc w None, ws') (wk_others w p))
      else if timeout_ms = 0 then Returns (Some ETIMEDOUT, ws) p
      else
        (case ws of [] \<Rightarrow> Blocked p
         | w # ws' \<Rightarrow> Returns (wk_rc w (Some (wait_deadline (wk_now w) timeout_ms)), ws')
                              (wk_others w p)))"

section \<open>Creation\<close>

text \<open>
  \<open>alloc\<close> is the allocator: the block \<^verbatim>\<open>malloc\<close> returns for a size, with whatever it holds.
  \<open>ok\<close> tells whether the \<^verbatim>\<open>calloc\<close> of the pipe structure succeeds.
\<close>

definition ios_pipe_create ::
  "bool \<Rightarrow> (nat \<Rightarrow> byte list option) \<Rightarrow> ios_pipe_config \<Rightarrow> ios_buffered_pipe option" where
  "ios_pipe_create ok alloc config =
     (if \<not> ok then None
      else let cap = (if cfg_buffer_size config > 0 then cfg_buffer_size config
                      else DEFAULT_BUFFER_SIZE)
           in case alloc cap of
                None \<Rightarrow> None
              | Some buf \<Rightarrow>
                  Some \<lparr>bp_buffer = buf, bp_capacity = cap, bp_head = 0, bp_tail = 0,
                        bp_write_closed = False, bp_read_closed = False,
                        bp_suppress_sigpipe = cfg_suppress_sigpipe config,
                        bp_read_timeout_ms = cfg_read_timeout_ms config,
                        bp_write_timeout_ms = cfg_write_timeout_ms config,
                        bp_total_written = 0, bp_total_read = 0,
                        bp_writer_waits = 0, bp_reader_waits = 0\<rparr>)"

definition ios_pipe_create_default ::
  "bool \<Rightarrow> (nat \<Rightarrow> byte list option) \<Rightarrow> ios_buffered_pipe option" where
  "ios_pipe_create_default ok alloc =
     ios_pipe_create ok alloc
       \<lparr>cfg_buffer_size = DEFAULT_BUFFER_SIZE, cfg_read_timeout_ms = DEFAULT_TIMEOUT_MS,
        cfg_write_timeout_ms = DEFAULT_TIMEOUT_MS, cfg_suppress_sigpipe = True\<rparr>"

section \<open>Writing\<close>

text \<open>
  One pass of a blocking loop under the mutex ends the call with a result, or goes on to wait
  with the number of bytes transferred so far.
\<close>

datatype ('r, 'c) pass = Done 'r | Wait 'c

definition write_pass ::
  "byte list \<Rightarrow> nat \<Rightarrow> ios_buffered_pipe \<Rightarrow> (int sysret, nat) pass \<times> ios_buffered_pipe" where
  "write_pass data total_written p =
     (if total_written < length data then
        if bp_read_closed p then
          (Done (if total_written > 0 then int total_written else - 1, Some EPIPE), p)
        else
          let (written, p1) = ring_buffer_write p (drop total_written data);
              now_written = total_written + written;
              p2 = (if written > 0
                    then p1\<lparr>bp_total_written := bp_total_written p1 + of_nat written\<rparr> else p1)
          in if written > 0 \<and> now_written \<ge> length data then (Done (int now_written, None), p2)
             else (Wait now_written, p2\<lparr>bp_writer_waits := bp_writer_waits p2 + 1\<rparr>)
      else (Done (int total_written, None), p))"

lemma wait_with_timeout_shorter:
  "wait_with_timeout t ws p = Returns (rc, ws') p' \<Longrightarrow> rc \<noteq> Some ETIMEDOUT \<Longrightarrow>
   length ws' < length ws"
  by (auto simp: wait_with_timeout_def split: if_splits list.splits)

function (sequential) write_loop ::
  "int \<Rightarrow> byte list \<Rightarrow> nat \<Rightarrow> wake list \<Rightarrow> ios_buffered_pipe \<Rightarrow>
   (int sysret, ios_buffered_pipe) exec" where
  "write_loop timeout_ms data sent ws p =
     (case write_pass data sent p of
        (Done r, p') \<Rightarrow> Returns r p'
      | (Wait sent', p') \<Rightarrow>
          (case wait_with_timeout timeout_ms ws p' of
             Returns (wait_result, ws') p'' \<Rightarrow>
               if wait_result = Some ETIMEDOUT
               then Returns (if sent' > 0 then int sent' else - 1, Some ETIMEDOUT) p''
               else write_loop timeout_ms data sent' ws' p''
           | Blocked p'' \<Rightarrow> Blocked p''
           | Crash \<Rightarrow> Crash))"
  by pat_completeness auto
termination
  by (relation "measure (\<lambda>(t, d, n, ws, p). length ws)") (auto dest: wait_with_timeout_shorter)

declare write_loop.simps [simp del]

definition ios_pipe_write_timeout ::
  "wake list \<Rightarrow> ios_buffered_pipe option \<Rightarrow> byte list option \<Rightarrow> int \<Rightarrow>
   (int sysret, ios_buffered_pipe option) exec" where
  "ios_pipe_write_timeout ws pipe data timeout_ms =
     (case (pipe, data) of
        (Some p, Some d) \<Rightarrow>
          if bp_write_closed p then Returns (- 1, Some EPIPE) (Some p)
          else if bp_read_closed p then Returns (0, Some EPIPE) (Some p)
          else (case write_loop timeout_ms d 0 ws p of
                  Returns r p' \<Rightarrow> Returns r (Some p')
                | Blocked p' \<Rightarrow> Blocked (Some p')
                | Crash \<Rightarrow> Crash)
      | _ \<Rightarrow> Returns (- 1, Some EINVAL) pipe)"

text \<open>\<open>pipe->write_timeout_ms\<close> is read before any null check.\<close>

definition ios_pipe_write ::
  "wake list \<Rightarrow> ios_buffered_pipe option \<Rightarrow> byte list option \<Rightarrow>
   (int sysret, ios_buffered_pipe option) exec" where
  "ios_pipe_write ws pipe data =
     (case pipe of None \<Rightarrow> Crash
      | Some p \<Rightarrow> ios_pipe_write_timeout ws pipe data (bp_write_timeout_ms p))"

section \<open>Reading\<close>

text \<open>
  The result carries the bytes stored in the caller's buffer. \<open>has_buf\<close> is false for a null
  buffer pointer. The loop leaves with \<^verbatim>\<open>break\<close> as soon as one byte has been read, so
  \<^verbatim>\<open>total_read\<close> is 0 whenever it waits.
\<close>

definition read_pass ::
  "nat \<Rightarrow> ios_buffered_pipe \<Rightarrow>
   ((int sysret \<times> byte list), unit) pass \<times> ios_buffered_pipe" where
  "read_pass sz p =
     (if 0 < sz then
        let (bytes, p1) = ring_buffer_read p sz
        in if length bytes > 0 then
             (Done ((int (length bytes), None), bytes),
              p1\<lparr>bp_total_read := bp_total_read p1 + of_nat (length bytes)\<rparr>)
           else if bp_write_closed p1 then (Done ((0, None), []), p1)
           else (Wait (), p1\<lparr>bp_reader_waits := bp_reader_waits p1 + 1\<rparr>)
      else (Done ((0, None), []), p))"

function (sequential) read_loop ::
  "int \<Rightarrow> nat \<Rightarrow> wake list \<Rightarrow> ios_buffered_pipe \<Rightarrow>
   (int sysret \<times> byte list, ios_buffered_pipe) exec" where
  "read_loop timeout_ms sz ws p =
     (case read_pass sz p of
        (Done r, p') \<Rightarrow> Returns r p'
      | (Wait _, p') \<Rightarrow>
          (case wait_with_timeout timeout_ms ws p' of
             Returns (wait_result, ws') p'' \<Rightarrow>
               if wait_result = Some ETIMEDOUT then Returns ((- 1, Some ETIMEDOUT), []) p''
               else read_loop timeout_ms sz ws' p''
           | Blocked p'' \<Rightarrow> Blocked p''
           | Crash \<Rightarrow> Crash))"
  by pat_completeness auto
termination
  by (relation "measure (\<lambda>(t, n, ws, p). length ws)") (auto dest: wait_with_timeout_shorter)

declare read_loop.simps [simp del]

definition ios_pipe_read_timeout ::
  "wake list \<Rightarrow> ios_buffered_pipe option \<Rightarrow> bool \<Rightarrow> nat \<Rightarrow> int \<Rightarrow>
   (int sysret \<times> byte list, ios_buffered_pipe option) exec" where
  "ios_pipe_read_timeout ws pipe has_buf sz timeout_ms =
     (case pipe of
        None \<Rightarrow> Returns ((- 1, Some EINVAL), []) None
      | Some p \<Rightarrow>
          if \<not> has_buf then Returns ((- 1, Some EINVAL), []) pipe
          else if bp_read_closed p then Returns ((0, None), []) pipe
          else (case read_loop timeout_ms sz ws p of
                  Returns r p' \<Rightarrow> Returns r (Some p')
                | Blocked p' \<Rightarrow> Blocked (Some p')
                | Crash \<Rightarrow> Crash))"

definition ios_pipe_read ::
  "wake list \<Rightarrow> ios_buffered_pipe option \<Rightarrow> bool \<Rightarrow> nat \<Rightarrow>
   (int sysret \<times> byte list, ios_buffered_pipe option) exec" where
  "ios_pipe_read ws pipe has_buf sz =
     (case pipe of None \<Rightarrow> Crash
      | Some p \<Rightarrow> ios_pipe_read_timeout ws pipe has_buf sz (bp_read_timeout_ms p))"

section \<open>Closing, polling, statistics\<close>

definition ios_pipe_close_write ::
  "ios_buffered_pipe option \<Rightarrow> int sysret \<times> ios_buffered_pipe option" where
  "ios_pipe_close_write pipe =
     (case pipe of None \<Rightarrow> ((- 1, Some EINVAL), None)
      | Some p \<Rightarrow> ((0, None), Some (p\<lparr>bp_write_closed := True\<rparr>)))"

definition ios_pipe_close_read ::
  "ios_buffered_pipe option \<Rightarrow> int sysret \<times> ios_buffered_pipe option" where
  "ios_pipe_close_read pipe =
     (case pipe of None \<Rightarrow> ((- 1, Some EINVAL), None)
      | Some p \<Rightarrow> ((0, None), Some (p\<lparr>bp_read_closed := True\<rparr>)))"

text \<open>
  The pipe as it is freed (both ends closed, which wakes every blocked reader and writer), and
  the pipe afterwards, which no longer exists.
\<close>

definition ios_pipe_destroy ::
  "ios_buffered_pipe option \<Rightarrow> ios_buffered_pipe option \<times> ios_buffered_pipe option" where
  "ios_pipe_destroy pipe =
     (case pipe of None \<Rightarrow> (None, None)
      | Some p \<Rightarrow> (snd (ios_pipe_close_read (snd (ios_pipe_close_write (Some p)))), None))"

definition ios_pipe_poll_readable :: "ios_buffered_pipe option \<Rightarrow> bool" where
  "ios_pipe_poll_readable pipe =
     (case pipe of None \<Rightarrow> False
      | Some p \<Rightarrow> ring_buffer_available p > 0 \<or> bp_write_closed p)"

definition ios_pipe_poll_writable :: "ios_buffered_pipe option \<Rightarrow> bool" where
  "ios_pipe_poll_writable pipe =
     (case pipe of None \<Rightarrow> False
      | Some p \<Rightarrow> ring_buffer_space p > 0 \<and> \<not> bp_write_closed p \<and> \<not> bp_read_closed p)"

text \<open>\<open>has_stats\<close> is false for a null \<^verbatim>\<open>stats\<close> pointer.\<close>

definition ios_pipe_get_stats ::
  "ios_buffered_pipe option \<Rightarrow> bool \<Rightarrow> int sysret \<times> ios_pipe_stats option" where
  "ios_pipe_get_stats pipe has_stats =
     (case pipe of None \<Rightarrow> ((- 1, Some EINVAL), None)
      | Some p \<Rightarrow>
          if \<not> has_stats then ((- 1, Some EINVAL), None)
          else ((0, None),
                Some \<lparr>st_bytes_written = bp_total_written p, st_bytes_read = bp_total_read p,
                      st_buffer_used = ring_buffer_available p, st_buffer_size = bp_capacity p,
                      st_writer_waits = bp_writer_waits p, st_reader_waits = bp_reader_waits p,
                      st_is_closed = bp_write_closed p,
                      st_is_eof = (bp_write_closed p \<and> ring_buffer_available p = 0)\<rparr>))"

definition ios_pipe_available :: "ios_buffered_pipe option \<Rightarrow> nat" where
  "ios_pipe_available pipe = (case pipe of None \<Rightarrow> 0 | Some p \<Rightarrow> ring_buffer_available p)"

definition ios_pipe_space_available :: "ios_buffered_pipe option \<Rightarrow> nat" where
  "ios_pipe_space_available pipe = (case pipe of None \<Rightarrow> 0 | Some p \<Rightarrow> ring_buffer_space p)"

definition ios_pipe_get_read_fd :: "ios_buffered_pipe option \<Rightarrow> int" where
  "ios_pipe_get_read_fd pipe = - 1"

definition ios_pipe_get_write_fd :: "ios_buffered_pipe option \<Rightarrow> int" where
  "ios_pipe_get_write_fd pipe = - 1"

section \<open>Flushing\<close>

text \<open>
  A tick of the polling loop: the monotonic clock read at the timeout check, then what the other
  threads do during the millisecond sleep with the mutex released.
\<close>

record tick =
  tk_now :: timespec
  tk_others :: "ios_buffered_pipe \<Rightarrow> ios_buffered_pipe"

definition elapsed_ms :: "timespec \<Rightarrow> timespec \<Rightarrow> int" where
  "elapsed_ms start now =
     (tv_sec now - tv_sec start) * 1000 + c_div (tv_nsec now - tv_nsec start) 1000000"

fun flush_loop ::
  "timespec \<Rightarrow> int \<Rightarrow> tick list \<Rightarrow> ios_buffered_pipe \<Rightarrow>
   (int sysret, ios_buffered_pipe) exec" where
  "flush_loop start timeout_ms [] p =
     (if ring_buffer_available p > 0 then Blocked p else Returns (0, None) p)"
| "flush_loop start timeout_ms (k # ks) p =
     (if ring_buffer_available p > 0 then
        if timeout_ms \<ge> 0 \<and> elapsed_ms start (tk_now k) \<ge> timeout_ms
        then Returns (- 1, Some ETIMEDOUT) p
        else flush_loop start timeout_ms ks (tk_others k p)
      else Returns (0, None) p)"

definition ios_pipe_flush ::
  "timespec \<Rightarrow> tick list \<Rightarrow> ios_buffered_pipe option \<Rightarrow> int \<Rightarrow>
   (int sysret, ios_buffered_pipe option) exec" where
  "ios_pipe_flush start ks pipe timeout_ms =
     (case pipe of None \<Rightarrow> Returns (- 1, Some EINVAL) None
      | Some p \<Rightarrow>
          (case flush_loop start timeout_ms ks p of
             Returns r p' \<Rightarrow> Returns r (Some p')
           | Blocked p' \<Rightarrow> Blocked (Some p')
           | Crash \<Rightarrow> Crash))"

section \<open>Stdio callbacks\<close>

definition pipe_read_fn ::
  "wake list \<Rightarrow> ios_buffered_pipe option \<Rightarrow> int \<Rightarrow>
   (int \<times> byte list, ios_buffered_pipe option) exec" where
  "pipe_read_fn ws cookie sz =
     (case ios_pipe_read ws cookie True (size_t_of_int sz) of
        Returns ((result, _), bytes) c \<Rightarrow>
          if result < 0 then Returns (- 1, bytes) c else Returns (result, bytes) c
      | Blocked c \<Rightarrow> Blocked c
      | Crash \<Rightarrow> Crash)"

definition pipe_write_fn ::
  "wake list \<Rightarrow> ios_buffered_pipe option \<Rightarrow> byte list \<Rightarrow>
   (int, ios_buffered_pipe option) exec" where
  "pipe_write_fn ws cookie buf =
     (case ios_pipe_write ws cookie (Some buf) of
        Returns (result, _) c \<Rightarrow> if result < 0 then Returns (- 1) c else Returns result c
      | Blocked c \<Rightarrow> Blocked c
      | Crash \<Rightarrow> Crash)"

definition pipe_close_read_fn ::
  "ios_buffered_pipe option \<Rightarrow> int \<times> ios_buffered_pipe option" where
  "pipe_close_read_fn cookie =
     (case ios_pipe_close_read cookie of ((r, _), c) \<Rightarrow> (r, c))"

definition pipe_close_write_fn ::
  "ios_buffered_pipe option \<Rightarrow> int \<times> ios_buffered_pipe option" where
  "pipe_close_write_fn cookie =
     (case ios_pipe_close_write cookie of ((r, _), c) \<Rightarrow> (r, c))"

text \<open>
  A stream made by \<^verbatim>\<open>funopen\<close>: which callbacks it has and whether stdio buffers it.
  \<open>funopen_ok\<close> tells whether \<^verbatim>\<open>funopen\<close> succeeds.
\<close>

record pipe_stream =
  ps_readable :: bool
  ps_writable :: bool
  ps_closes_read_end :: bool
  ps_buffered :: bool

definition ios_pipe_fdopen_read ::
  "bool \<Rightarrow> ios_buffered_pipe option \<Rightarrow> pipe_stream option sysret" where
  "ios_pipe_fdopen_read funopen_ok pipe =
     (if pipe = None then (None, Some EINVAL)
      else if \<not> funopen_ok then (None, None)
      else (Some \<lparr>ps_readable = True, ps_writable = False, ps_closes_read_end = True,
                  ps_buffered = False\<rparr>, None))"

definition ios_pipe_fdopen_write ::
  "bool \<Rightarrow> ios_buffered_pipe option \<Rightarrow> pipe_stream option sysret" where
  "ios_pipe_fdopen_write funopen_ok pipe =
     (if pipe = None then (None, Some EINVAL)
      else if \<not> funopen_ok then (None, None)
      else (Some \<lparr>ps_readable = False, ps_writable = True, ps_closes_read_end = False,
                  ps_buffered = False\<rparr>, None))"

section \<open>Invariant and contents\<close>

definition pipe_inv :: "ios_buffered_pipe \<Rightarrow> bool" where
  "pipe_inv p \<longleftrightarrow> 0 < bp_capacity p \<and> length (bp_buffer p) = bp_capacity p \<and>
     bp_head p < bp_capacity p \<and> bp_tail p < bp_capacity p"

definition pipe_contents :: "ios_buffered_pipe \<Rightarrow> byte list" where
  "pipe_contents p = take (ring_buffer_available p) (rotate (bp_head p) (bp_buffer p))"

lemma available_less: "pipe_inv p \<Longrightarrow> ring_buffer_available p < bp_capacity p"
  by (auto simp: pipe_inv_def ring_buffer_available_def Let_def)

lemma tail_available: "pipe_inv p \<Longrightarrow> bp_tail p = (bp_head p + ring_buffer_available p) mod bp_capacity p"
  by (auto simp: pipe_inv_def ring_buffer_available_def Let_def mod_wrap)

lemma length_contents [simp]: "pipe_inv p \<Longrightarrow> length (pipe_contents p) = ring_buffer_available p"
  using available_less [of p] by (auto simp: pipe_contents_def pipe_inv_def)

lemma available_unique:
  "pipe_inv p \<Longrightarrow> n < bp_capacity p \<Longrightarrow> bp_tail p = (bp_head p + n) mod bp_capacity p \<Longrightarrow>
   ring_buffer_available p = n"
  by (auto simp: pipe_inv_def ring_buffer_available_def Let_def mod_wrap split: if_splits)

lemma ring_buffer_read_bytes:
  assumes "pipe_inv p"
  shows "fst (ring_buffer_read p n) = take n (pipe_contents p)"
proof -
  let ?a = "ring_buffer_available p"
  have len: "length (bp_buffer p) = bp_capacity p" "bp_head p < bp_capacity p"
    using assms by (simp_all add: pipe_inv_def)
  define m where "m = min n ?a"
  have r: "(if n < ?a then n else ?a) = m" by (simp add: m_def)
  have "take n (pipe_contents p) =
      take m (drop (bp_head p) (bp_buffer p) @ take (bp_head p) (bp_buffer p))"
    using rotate_split [of "bp_head p" "bp_buffer p"] len
    by (simp only: pipe_contents_def take_take m_def)
  moreover have "m < bp_capacity p" using available_less [OF assms] by (simp add: m_def)
  ultimately show ?thesis
    unfolding ring_buffer_read_def Let_def r using len by auto
qed

lemma ring_buffer_read_state:
  assumes "pipe_inv p"
  shows "snd (ring_buffer_read p n) =
    p\<lparr>bp_head := (bp_head p + min n (ring_buffer_available p)) mod bp_capacity p\<rparr>"
  using assms by (auto simp: ring_buffer_read_def Let_def pipe_inv_def min_def not_less)

lemma ring_buffer_read_inv: "pipe_inv p \<Longrightarrow> pipe_inv (snd (ring_buffer_read p n))"
  by (simp add: ring_buffer_read_state) (simp add: pipe_inv_def)

lemma ring_buffer_read_available:
  assumes "pipe_inv p"
  shows "ring_buffer_available (snd (ring_buffer_read p n)) = ring_buffer_available p - n"
proof (rule available_unique)
  show "pipe_inv (snd (ring_buffer_read p n))" by (rule ring_buffer_read_inv [OF assms])
  show "ring_buffer_available p - n < bp_capacity (snd (ring_buffer_read p n))"
    using available_less [OF assms] by (simp add: ring_buffer_read_state [OF assms])
  have "min n (ring_buffer_available p) + (ring_buffer_available p - n) = ring_buffer_available p"
    by simp
  then show "bp_tail (snd (ring_buffer_read p n)) = (bp_head (snd (ring_buffer_read p n)) +
      (ring_buffer_available p - n)) mod bp_capacity (snd (ring_buffer_read p n))"
    by (simp add: ring_buffer_read_state [OF assms] tail_available [OF assms] mod_add_left_eq add.assoc)
qed

lemma ring_buffer_read_contents:
  assumes "pipe_inv p"
  shows "pipe_contents (snd (ring_buffer_read p n)) = drop n (pipe_contents p)"
proof -
  let ?m = "ring_buffer_available p" and ?k = "min n (ring_buffer_available p)"
  have len: "length (bp_buffer p) = bp_capacity p" using assms by (simp add: pipe_inv_def)
  have "take (?m - ?k) (rotate ((bp_head p + ?k) mod bp_capacity p) (bp_buffer p)) =
        drop ?k (take ?m (rotate (bp_head p) (bp_buffer p)))"
    using take_rotate_shift [of ?k ?m "bp_buffer p" "bp_head p"] available_less [OF assms] len by simp
  then show ?thesis
    unfolding pipe_contents_def ring_buffer_read_available [OF assms]
    by (simp add: ring_buffer_read_state [OF assms] min_def split: if_splits)
qed

lemma ring_buffer_write_count:
  "fst (ring_buffer_write p d) = min (length d) (ring_buffer_space p)"
  by (simp add: ring_buffer_write_def Let_def)


lemma ring_buffer_write_state:
  assumes "pipe_inv p" "n = min (length d) (ring_buffer_space p)"
  shows "snd (ring_buffer_write p d) =
    p\<lparr>bp_buffer := ring_put (bp_buffer p) (bp_tail p) (take n d),
      bp_tail := (bp_tail p + n) mod bp_capacity p\<rparr>"
proof -
  have len: "length (bp_buffer p) = bp_capacity p" "bp_tail p < bp_capacity p"
    using assms by (simp_all add: pipe_inv_def)
  have n: "(if length d < ring_buffer_space p then length d else ring_buffer_space p) = n"
    using assms(2) by simp
  have nd: "length (take n d) = n" using assms(2) by simp
  show ?thesis
    unfolding ring_buffer_write_def Let_def n
    using len nd
    by (simp add: ring_put_def Let_def min_def drop_take)
qed

lemma space_eq: "pipe_inv p \<Longrightarrow> ring_buffer_space p + ring_buffer_available p + 1 = bp_capacity p"
  using available_less [of p] by (simp add: ring_buffer_space_def)

lemma ring_buffer_write_inv: 
  assumes "pipe_inv p" shows "pipe_inv (snd (ring_buffer_write p d))"
  using assms space_eq [OF assms]
  by (simp add: ring_buffer_write_state [OF assms refl]) (simp add: pipe_inv_def)

lemma ring_buffer_write_available:
  assumes p: "pipe_inv p"
  shows "ring_buffer_available (snd (ring_buffer_write p d)) =
         ring_buffer_available p + min (length d) (ring_buffer_space p)"
proof (rule available_unique)
  show "pipe_inv (snd (ring_buffer_write p d))" by (rule ring_buffer_write_inv [OF p])
qed (use space_eq [OF p] in \<open>simp_all add: ring_buffer_write_state [OF p refl] tail_available [OF p]
      mod_add_left_eq add.assoc\<close>)

lemma ring_buffer_write_contents:
  assumes p: "pipe_inv p"
  shows "pipe_contents (snd (ring_buffer_write p d)) =
         pipe_contents p @ take (ring_buffer_space p) d"
proof -
  let ?n = "min (length d) (ring_buffer_space p)" and ?a = "ring_buffer_available p"
  have len: "length (bp_buffer p) = bp_capacity p" and h: "bp_head p < bp_capacity p"
    using p by (simp_all add: pipe_inv_def)
  have "take (?a + length (take ?n d)) (rotate (bp_head p) (ring_put (bp_buffer p) (bp_tail p) (take ?n d)))
      = take ?a (rotate (bp_head p) (bp_buffer p)) @ take ?n d"
    by (rule take_rotate_put)
      (use space_eq [OF p] tail_available [OF p] in \<open>simp_all add: len h min_def\<close>)
  moreover have "take ?n d = take (ring_buffer_space p) d" by (simp add: min_def)
  ultimately show ?thesis
    unfolding pipe_contents_def ring_buffer_write_available [OF p]
    by (simp add: ring_buffer_write_state [OF p refl])
qed


lemma pipe_frame [simp]:
  "ring_buffer_available (p\<lparr>bp_total_written := a\<rparr>) = ring_buffer_available p"
  "ring_buffer_available (p\<lparr>bp_total_read := b\<rparr>) = ring_buffer_available p"
  "ring_buffer_available (p\<lparr>bp_writer_waits := c\<rparr>) = ring_buffer_available p"
  "ring_buffer_available (p\<lparr>bp_reader_waits := e\<rparr>) = ring_buffer_available p"
  "ring_buffer_available (p\<lparr>bp_write_closed := f\<rparr>) = ring_buffer_available p"
  "ring_buffer_available (p\<lparr>bp_read_closed := g\<rparr>) = ring_buffer_available p"
  by (simp_all add: ring_buffer_available_def Let_def)

lemma pipe_frame_space [simp]:
  "ring_buffer_space (p\<lparr>bp_total_written := a\<rparr>) = ring_buffer_space p"
  "ring_buffer_space (p\<lparr>bp_total_read := b\<rparr>) = ring_buffer_space p"
  "ring_buffer_space (p\<lparr>bp_writer_waits := c\<rparr>) = ring_buffer_space p"
  "ring_buffer_space (p\<lparr>bp_reader_waits := e\<rparr>) = ring_buffer_space p"
  "ring_buffer_space (p\<lparr>bp_write_closed := f\<rparr>) = ring_buffer_space p"
  "ring_buffer_space (p\<lparr>bp_read_closed := g\<rparr>) = ring_buffer_space p"
  by (simp_all add: ring_buffer_space_def)

lemma pipe_frame_contents [simp]:
  "pipe_contents (p\<lparr>bp_total_written := a\<rparr>) = pipe_contents p"
  "pipe_contents (p\<lparr>bp_total_read := b\<rparr>) = pipe_contents p"
  "pipe_contents (p\<lparr>bp_writer_waits := c\<rparr>) = pipe_contents p"
  "pipe_contents (p\<lparr>bp_reader_waits := e\<rparr>) = pipe_contents p"
  "pipe_contents (p\<lparr>bp_write_closed := f\<rparr>) = pipe_contents p"
  "pipe_contents (p\<lparr>bp_read_closed := g\<rparr>) = pipe_contents p"
  by (simp_all add: pipe_contents_def)

lemma pipe_frame_inv [simp]:
  "pipe_inv (p\<lparr>bp_total_written := a\<rparr>) = pipe_inv p"
  "pipe_inv (p\<lparr>bp_total_read := b\<rparr>) = pipe_inv p"
  "pipe_inv (p\<lparr>bp_writer_waits := c\<rparr>) = pipe_inv p"
  "pipe_inv (p\<lparr>bp_reader_waits := e\<rparr>) = pipe_inv p"
  "pipe_inv (p\<lparr>bp_write_closed := f\<rparr>) = pipe_inv p"
  "pipe_inv (p\<lparr>bp_read_closed := g\<rparr>) = pipe_inv p"
  by (simp_all add: pipe_inv_def)

text \<open>The ring write as one fact: the shape every client of it uses.\<close>

lemma ring_buffer_writeE:
  assumes p: "pipe_inv p"
  obtains q where "ring_buffer_write p d = (min (length d) (ring_buffer_space p), q)"
    "pipe_inv q" "pipe_contents q = pipe_contents p @ take (ring_buffer_space p) d"
    "ring_buffer_space q = ring_buffer_space p - length d"
    "bp_read_closed q = bp_read_closed p" "bp_write_closed q = bp_write_closed p"
    "bp_total_written q = bp_total_written p" "bp_total_read q = bp_total_read p"
    "bp_capacity q = bp_capacity p"
proof
  let ?q = "snd (ring_buffer_write p d)"
  show "ring_buffer_write p d = (min (length d) (ring_buffer_space p), ?q)"
    by (simp add: prod_eq_iff ring_buffer_write_count)
  show "pipe_inv ?q" by (rule ring_buffer_write_inv [OF p])
  show "pipe_contents ?q = pipe_contents p @ take (ring_buffer_space p) d"
    by (rule ring_buffer_write_contents [OF p])
  show "ring_buffer_space ?q = ring_buffer_space p - length d"
    using space_eq [OF p] space_eq [OF ring_buffer_write_inv [OF p], of d]
      ring_buffer_write_available [OF p, of d]
    by (simp add: ring_buffer_write_state [OF p refl] min_def split: if_splits)
qed (simp_all add: ring_buffer_write_state [OF p refl])

lemma write_pass_cases:
  assumes p: "pipe_inv p" and n: "n < length d" and c: "\<not> bp_read_closed p"
  obtains (all) q where "write_pass d n p = (Done (int (length d), None), q)" "pipe_inv q"
      "length d - n \<le> ring_buffer_space p"
      "pipe_contents q = pipe_contents p @ drop n d"
      "bp_read_closed q = bp_read_closed p" "bp_write_closed q = bp_write_closed p"
      "bp_total_written q = bp_total_written p + of_nat (length d - n)"
      "bp_total_read q = bp_total_read p"
  | (part) q where "write_pass d n p = (Wait (n + ring_buffer_space p), q)" "pipe_inv q"
      "ring_buffer_space p < length d - n" "ring_buffer_space q = 0"
      "pipe_contents q = pipe_contents p @ take (ring_buffer_space p) (drop n d)"
      "bp_read_closed q = bp_read_closed p" "bp_write_closed q = bp_write_closed p"
      "bp_total_written q = bp_total_written p + of_nat (ring_buffer_space p)"
      "bp_total_read q = bp_total_read p"
proof -
  obtain q where q: "ring_buffer_write p (drop n d) = (min (length (drop n d)) (ring_buffer_space p), q)"
    "pipe_inv q" "pipe_contents q = pipe_contents p @ take (ring_buffer_space p) (drop n d)"
    "ring_buffer_space q = ring_buffer_space p - length (drop n d)"
    "bp_read_closed q = bp_read_closed p" "bp_write_closed q = bp_write_closed p"
    "bp_total_written q = bp_total_written p" "bp_total_read q = bp_total_read p"
    by (rule ring_buffer_writeE [OF p])
  show thesis
  proof (cases "length d - n \<le> ring_buffer_space p")
    case True
    with q n c show thesis
      by (intro all [where q = "q\<lparr>bp_total_written := bp_total_written q + of_nat (length d - n)\<rparr>"])
        (simp_all add: write_pass_def Let_def min_def)
  next
    case False
    then have "\<not> length d \<le> n + ring_buffer_space p" by simp
    with False q n c show thesis
      by (intro part [where q = "(if ring_buffer_space p > 0
              then q\<lparr>bp_total_written := bp_total_written q + of_nat (ring_buffer_space p)\<rparr> else q)
            \<lparr>bp_writer_waits := bp_writer_waits q + 1\<rparr>"])
        (simp_all add: write_pass_def Let_def min_def)
  qed
qed

lemma ring_buffer_read_space:
  assumes p: "pipe_inv p"
  shows "ring_buffer_space (snd (ring_buffer_read p n)) =
    ring_buffer_space p + min n (ring_buffer_available p)"
  using space_eq [OF p] space_eq [OF ring_buffer_read_inv [OF p], of n]
    ring_buffer_read_available [OF p, of n]
  by (simp add: ring_buffer_read_state [OF p] min_def split: if_splits)

interpretation ring: bounded_channel pipe_inv pipe_contents ring_buffer_space
  ring_buffer_write ring_buffer_read
proof unfold_locales
  fix s xs n
  assume p: "pipe_inv s"
  show "pipe_inv (snd (ring_buffer_write s xs))" by (rule ring_buffer_write_inv [OF p])
  show "fst (ring_buffer_write s xs) = min (length xs) (ring_buffer_space s)"
    by (rule ring_buffer_write_count)
  show "pipe_contents (snd (ring_buffer_write s xs)) =
      pipe_contents s @ take (ring_buffer_space s) xs"
    by (rule ring_buffer_write_contents [OF p])
  show "ring_buffer_space (snd (ring_buffer_write s xs)) = ring_buffer_space s - length xs"
    using ring_buffer_writeE [OF p, of xs] by fastforce
  show "pipe_inv (snd (ring_buffer_read s n))" by (rule ring_buffer_read_inv [OF p])
  show "fst (ring_buffer_read s n) = take n (pipe_contents s)"
    by (rule ring_buffer_read_bytes [OF p])
  show "pipe_contents (snd (ring_buffer_read s n)) = drop n (pipe_contents s)"
    by (rule ring_buffer_read_contents [OF p])
  show "ring_buffer_space (snd (ring_buffer_read s n)) =
      ring_buffer_space s + min n (length (pipe_contents s))"
    by (simp add: ring_buffer_read_space [OF p] p)
qed

section \<open>The write loop under any interleaving with readers\<close>

text \<open>
  What the other threads may do during a wait: take bytes from the front, which the counter of read bytes counts, and close an end. The read passes
  do so, see \<open>read_pass_reader_only\<close>.
\<close>

definition reader_only :: "wake \<Rightarrow> bool" where
  "reader_only w \<longleftrightarrow>
     (\<forall>p. pipe_inv p \<longrightarrow> pipe_inv (wk_others w p) \<and> bp_total_written (wk_others w p) = bp_total_written p \<and>
        (\<exists>taken. pipe_contents p = taken @ pipe_contents (wk_others w p) \<and>
           bp_total_read (wk_others w p) = bp_total_read p + of_nat (length taken)))"

lemma wait_ReturnsE:
  assumes "wait_with_timeout t ws p = Returns (rc, ws') q"
  obtains (now) "rc = Some ETIMEDOUT" "ws' = ws" "q = p"
  | (woken) w where "ws = w # ws'" "q = wk_others w p"
  using assms by (auto simp: wait_with_timeout_def split: if_splits list.splits)

lemma wait_not_Crash [simp]: "wait_with_timeout t ws p \<noteq> Crash"
  by (simp add: wait_with_timeout_def split: list.splits)

lemma reader_wait:
  assumes "wait_with_timeout t ws p = Returns (rc, ws') q" and "pipe_inv p" and "\<forall>w \<in> set ws. reader_only w"
  obtains taken where "pipe_inv q" and "pipe_contents p = taken @ pipe_contents q"
    and "bp_total_read q = bp_total_read p + of_nat (length taken)" and "bp_total_written q = bp_total_written p"
    and "\<forall>w \<in> set ws'. reader_only w"
  using assms(1)
proof (cases rule: wait_ReturnsE)
  case now
  with assms(2,3) show thesis by (intro that [of "[]"]) simp_all
next
  case (woken w)
  with assms(2,3) that show thesis unfolding reader_only_def by auto
qed

lemma write_loop_stream:
  "write_loop t d n ws p = Returns (r, e) p' \<Longrightarrow> pipe_inv p \<Longrightarrow> \<forall>w \<in> set ws. reader_only w \<Longrightarrow>
   n \<le> length d \<Longrightarrow>
   \<exists>m taken. n \<le> m \<and> m \<le> length d \<and> pipe_inv p' \<and>
     pipe_contents p @ take (m - n) (drop n d) = taken @ pipe_contents p' \<and>
     bp_total_read p' = bp_total_read p + of_nat (length taken) \<and>
     bp_total_written p' = bp_total_written p + of_nat (m - n) \<and>
     r = (if m = 0 \<and> e \<noteq> None then - 1 else int m) \<and> (m < length d \<longrightarrow> e \<noteq> None)"
proof (induction t d n ws p rule: write_loop.induct)
  case (1 t d n ws p)
  note ret = "1.prems"(1) and p = "1.prems"(2) and ro = "1.prems"(3) and n = "1.prems"(4)
  show ?case
  proof (cases "n < length d \<and> \<not> bp_read_closed p")
    case False
    with ret n p show ?thesis
      by - (rule exI [of _ n], rule exI [of _ "[]"],
          auto simp: write_loop.simps [of t d n] write_pass_def split: if_splits)
  next
    case True
    then have n': "n < length d" and open': "\<not> bp_read_closed p" by auto
    from p n' open' show ?thesis
    proof (cases rule: write_pass_cases)
      case (all q)
      with ret n' show ?thesis
        by - (rule exI [of _ "length d"], rule exI [of _ "[]"], auto simp: write_loop.simps [of t d n])
    next
      case (part q)
      let ?m = "n + ring_buffer_space p"
      from ret part(1) obtain rc ws' q' where w: "wait_with_timeout t ws q = Returns (rc, ws') q'"
        by (auto simp: write_loop.simps [of t d n] split: exec.splits)
      obtain l where k: "pipe_inv q'" "pipe_contents q = l @ pipe_contents q'" "bp_total_read q' = bp_total_read q + of_nat (length l)"
        "bp_total_written q' = bp_total_written q" "\<forall>w \<in> set ws'. reader_only w"
        by (rule reader_wait [OF w part(2) ro])
      show ?thesis
      proof (cases "rc = Some ETIMEDOUT")
        case to: True
        have "r = (if ?m > 0 then int ?m else - 1)" "e = Some ETIMEDOUT" "p' = q'"
          using ret part(1) w to by (auto simp: write_loop.simps [of t d n])
        moreover have "?m \<le> length d" using part(3) by simp
        ultimately show ?thesis
          using k part(5,8,9) by - (rule exI [of _ ?m], rule exI [of _ l], auto)
      next
        case nto: False
        have rec: "write_loop t d ?m ws' q' = Returns (r, e) p'"
          using ret part(1) w nto by (simp add: write_loop.simps [of t d n])
        have le: "?m \<le> length d" using part(3) by simp
        obtain m l' where m: "?m \<le> m" "m \<le> length d" "pipe_inv p'"
          "pipe_contents q' @ take (m - ?m) (drop ?m d) = l' @ pipe_contents p'"
          "bp_total_read p' = bp_total_read q' + of_nat (length l')"
          "bp_total_written p' = bp_total_written q' + of_nat (m - ?m)"
          "r = (if m = 0 \<and> e \<noteq> None then - 1 else int m)" "m < length d \<longrightarrow> e \<noteq> None"
          using "1.IH" [OF part(1) [symmetric] refl w refl nto rec k(1,5) le] by blast
        have "take (m - n) (drop n d) = take (ring_buffer_space p) (drop n d) @ take (m - ?m) (drop ?m d)"
          using take_add [of "ring_buffer_space p" "m - ?m" "drop n d"] m(1)
          by (simp add: add.commute)
        then have "pipe_contents p @ take (m - n) (drop n d) = (l @ l') @ pipe_contents p'"
          using m(4) k(2) part(5) by (metis append.assoc)
        moreover have "bp_total_read p' = bp_total_read p + of_nat (length (l @ l'))"
          using m(5) k(3) part(9) by (simp add: add.assoc)
        moreover have "bp_total_written p' = bp_total_written p + of_nat (m - n)"
        proof -
          have "m - n = ring_buffer_space p + (m - ?m)" using m(1) by simp
          then show ?thesis using m(6) k(4) part(8) by (simp only: of_nat_add add.assoc)
        qed
        moreover have "n \<le> m" using m(1) by simp
        ultimately show ?thesis using m(2,3,7,8) by blast
      qed
    qed
  qed
qed


section \<open>Progress of the write loop\<close>

text \<open>A wake-up that follows a read: the wait was not timed out and there is room again.\<close>

definition frees_room :: "wake \<Rightarrow> bool" where
  "frees_room w \<longleftrightarrow>
     (\<forall>x. wk_rc w x \<noteq> Some ETIMEDOUT) \<and>
     (\<forall>p. pipe_inv p \<and> \<not> bp_read_closed p \<and> 0 < ring_buffer_available p \<longrightarrow>
        pipe_inv (wk_others w p) \<and> \<not> bp_read_closed (wk_others w p) \<and>
        bp_capacity (wk_others w p) = bp_capacity p \<and> 0 < ring_buffer_space (wk_others w p))"

lemma write_pass_capacity:
  assumes "pipe_inv p"
  shows "bp_capacity (snd (write_pass d n p)) = bp_capacity p"
proof -
  obtain c q where "ring_buffer_write p (drop n d) = (c, q)" "bp_capacity q = bp_capacity p"
    using ring_buffer_writeE [OF assms, of "drop n d"] by metis
  then show ?thesis by (simp add: write_pass_def Let_def)
qed

lemma write_loop_full: "write_loop t d (length d) ws p = Returns (int (length d), None) p"
  by (simp add: write_loop.simps write_pass_def)

lemma write_loop_completes:
  "pipe_inv p \<Longrightarrow> \<not> bp_read_closed p \<Longrightarrow> 2 \<le> bp_capacity p \<Longrightarrow> t \<noteq> 0 \<Longrightarrow>
   \<forall>w \<in> set ws. frees_room w \<Longrightarrow> n \<le> length d \<Longrightarrow>
   length d - n \<le> length ws + (if ring_buffer_space p = 0 then 0 else 1) \<Longrightarrow>
   \<exists>p'. write_loop t d n ws p = Returns (int (length d), None) p'"
proof (induction ws arbitrary: n p)
  case Nil
  show ?case
  proof (cases "n < length d")
    case True
    from Nil.prems(1) True Nil.prems(2) show ?thesis
      by (cases rule: write_pass_cases)
        (use True Nil.prems(7) in \<open>auto simp: write_loop.simps [of t d n] split: if_splits\<close>)
  qed (use Nil.prems(6) write_loop_full in auto)
next
  case (Cons w ws)
  show ?case
  proof (cases "n < length d")
    case True
    from Cons.prems(1) True Cons.prems(2) show ?thesis
    proof (cases rule: write_pass_cases)
      case (all q)
      then show ?thesis by (simp add: write_loop.simps [of t d n])
    next
      case (part q)
      let ?q = "wk_others w q" and ?m = "n + ring_buffer_space p"
      have cap: "bp_capacity q = bp_capacity p"
        using write_pass_capacity [OF Cons.prems(1), of d n] part(1) by simp
      have "0 < ring_buffer_available q"
        using space_eq [OF part(2)] part(4) cap Cons.prems(3) by simp
      then have q: "pipe_inv ?q" "\<not> bp_read_closed ?q" "bp_capacity ?q = bp_capacity q"
        "0 < ring_buffer_space ?q" "\<forall>x. wk_rc w x \<noteq> Some ETIMEDOUT"
        using Cons.prems(2,5) part(2,6) unfolding frees_room_def by auto
      have "\<exists>p'. write_loop t d ?m ws ?q = Returns (int (length d), None) p'"
        using Cons.IH [of ?q ?m] q cap Cons.prems part(3) by (auto split: if_splits)
      then show ?thesis
        using part(1) q(5) Cons.prems(4)
        by (auto simp: write_loop.simps [of t d n] wait_with_timeout_def)
    qed
  qed (use Cons.prems(6) write_loop_full in auto)
qed

section \<open>The read loop\<close>

definition writer_only :: "wake \<Rightarrow> bool" where
  "writer_only w \<longleftrightarrow>
     (\<forall>p. pipe_inv p \<longrightarrow> pipe_inv (wk_others w p) \<and>
        (\<exists>xs. pipe_contents (wk_others w p) = pipe_contents p @ xs))"

lemma read_pass_cases:
  assumes p: "pipe_inv p" and n: "0 < n"
  obtains (data) q where "read_pass n p =
      (Done ((int (length (take n (pipe_contents p))), None), take n (pipe_contents p)), q)"
      "pipe_contents p \<noteq> []" "pipe_inv q" "pipe_contents q = drop n (pipe_contents p)"
      "bp_write_closed q = bp_write_closed p" "bp_read_closed q = bp_read_closed p"
      "bp_capacity q = bp_capacity p" "bp_total_written q = bp_total_written p"
      "bp_total_read q = bp_total_read p + of_nat (length (take n (pipe_contents p)))"
  | (eof) "read_pass n p = (Done ((0, None), []), p)" "pipe_contents p = []" "bp_write_closed p"
  | (wait) "read_pass n p = (Wait (), p\<lparr>bp_reader_waits := bp_reader_waits p + 1\<rparr>)"
      "pipe_contents p = []" "\<not> bp_write_closed p"
proof -
  obtain q where r: "ring_buffer_read p n = (take n (pipe_contents p), q)"
    and q: "pipe_inv q" "pipe_contents q = drop n (pipe_contents p)"
      "q = p\<lparr>bp_head := (bp_head p + min n (ring_buffer_available p)) mod bp_capacity p\<rparr>"
    using ring_buffer_read_bytes [OF p, of n] ring_buffer_read_inv [OF p, of n]
      ring_buffer_read_contents [OF p, of n] ring_buffer_read_state [OF p, of n]
    by (cases "ring_buffer_read p n") simp
  show thesis
  proof (cases "pipe_contents p = []")
    case True
    then have "ring_buffer_available p = 0" using p by (metis length_contents list.size(3))
    then have e: "ring_buffer_read p n = ([], p)" by (simp add: ring_buffer_read_def)
    show thesis
    proof (cases "bp_write_closed p")
      case True
      with e n \<open>pipe_contents p = []\<close> show thesis by (intro eof) (simp_all add: read_pass_def)
    next
      case False
      with e n \<open>pipe_contents p = []\<close> show thesis by (intro wait) (simp_all add: read_pass_def)
    qed
  next
    case False
    let ?q = "q\<lparr>bp_total_read := bp_total_read q + of_nat (length (take n (pipe_contents p)))\<rparr>"
    have "read_pass n p =
      (Done ((int (length (take n (pipe_contents p))), None), take n (pipe_contents p)), ?q)"
      unfolding read_pass_def r using n False by simp
    then show thesis
      using False by (rule data) (simp_all add: q(1,2), simp_all add: q(3))
  qed
qed

lemma writer_wait:
  assumes "wait_with_timeout t ws p = Returns (rc, ws') q" and "pipe_inv p" and "\<forall>w \<in> set ws. writer_only w"
  obtains xs where "pipe_inv q" and "pipe_contents q = pipe_contents p @ xs" and "\<forall>w \<in> set ws'. writer_only w"
  using assms(1)
proof (cases rule: wait_ReturnsE)
  case now
  with assms(2,3) show thesis by (intro that [of "[]"]) simp_all
next
  case (woken w)
  with assms(2,3) that show thesis unfolding writer_only_def by auto
qed

lemma read_loop_stream:
  "read_loop t n ws p = Returns ((r, e), bytes) p' \<Longrightarrow> pipe_inv p \<Longrightarrow>
   \<forall>w \<in> set ws. writer_only w \<Longrightarrow> 0 < n \<Longrightarrow>
   \<exists>xs. pipe_contents p @ xs = bytes @ pipe_contents p' \<and> pipe_inv p' \<and> length bytes \<le> n \<and>
     r = (if e = None then int (length bytes) else - 1) \<and> (e \<noteq> None \<longrightarrow> bytes = []) \<and>
     (r = 0 \<longrightarrow> bp_write_closed p' \<and> pipe_contents p' = [])"
proof (induction t n ws p rule: read_loop.induct)
  case (1 t n ws p)
  note ret = "1.prems"(1) and p = "1.prems"(2) and wo = "1.prems"(3) and n = "1.prems"(4)
  from p n show ?case
  proof (cases rule: read_pass_cases)
    case (data q)
    then have "r = int (length bytes)" "e = None" "bytes = take n (pipe_contents p)" "p' = q"
      using ret by (auto simp: read_loop.simps [of t n])
    moreover have "bytes \<noteq> []" using data(2) n calculation(3) by simp
    ultimately show ?thesis using data(3,4) by (intro exI [of _ "[]"]) (simp add: min_def)
  next
    case eof
    with ret p show ?thesis by (auto simp: read_loop.simps [of t n])
  next
    case wait
    let ?q = "p\<lparr>bp_reader_waits := bp_reader_waits p + 1\<rparr>"
    from ret wait(1) obtain rc ws' q' where w: "wait_with_timeout t ws ?q = Returns (rc, ws') q'"
      by (auto simp: read_loop.simps [of t n] split: exec.splits)
    have q: "pipe_inv ?q" "pipe_contents ?q = pipe_contents p" using p by simp_all
    obtain xs where xs: "pipe_inv q'" "pipe_contents q' = pipe_contents p @ xs" "\<forall>w \<in> set ws'. writer_only w"
      by (rule writer_wait [OF w q(1) wo, unfolded q(2)])
    show ?thesis
    proof (cases "rc = Some ETIMEDOUT")
      case True
      then have "r = - 1" "e = Some ETIMEDOUT" "bytes = []" "p' = q'"
        using ret wait(1) w by (auto simp: read_loop.simps [of t n])
      with xs show ?thesis by auto
    next
      case False
      have rec: "read_loop t n ws' q' = Returns ((r, e), bytes) p'"
        using ret wait(1) w False by (simp add: read_loop.simps [of t n])
      from "1.IH" [OF wait(1) [symmetric] refl w refl False rec xs(1,3) n] obtain ys where
        ys: "pipe_contents q' @ ys = bytes @ pipe_contents p'" and
        rest: "pipe_inv p' \<and> length bytes \<le> n \<and>
         r = (if e = None then int (length bytes) else - 1) \<and> (e \<noteq> None \<longrightarrow> bytes = []) \<and>
         (r = 0 \<longrightarrow> bp_write_closed p' \<and> pipe_contents p' = [])"
        by blast
      show ?thesis by (rule exI [of _ "xs @ ys"]) (use ys rest xs(2) in simp)
    qed
  qed
qed

section \<open>A pipe shared by a writer and a reader\<close>

text \<open>
  The shared pipe with two ghost streams: the bytes accepted from writers and the bytes handed
  to readers. A step is one pass of a blocking loop or one of the close operations.
\<close>

record pipe_sys =
  sy_pipe :: ios_buffered_pipe
  sy_sent :: "byte list"
  sy_recv :: "byte list"

inductive pipe_step :: "pipe_sys \<Rightarrow> pipe_sys \<Rightarrow> bool" where
  write_done: "write_pass d n (sy_pipe s) = (Done (r, None), p') \<Longrightarrow> n < length d \<Longrightarrow>
    pipe_step s (s\<lparr>sy_pipe := p', sy_sent := sy_sent s @ drop n d\<rparr>)"
| write_wait: "write_pass d n (sy_pipe s) = (Wait n', p') \<Longrightarrow>
    pipe_step s (s\<lparr>sy_pipe := p', sy_sent := sy_sent s @ take (n' - n) (drop n d)\<rparr>)"
| write_closed: "write_pass d n (sy_pipe s) = (Done (r, Some e), p') \<Longrightarrow>
    pipe_step s (s\<lparr>sy_pipe := p'\<rparr>)"
| read_done: "read_pass n (sy_pipe s) = (Done (r, bytes), p') \<Longrightarrow>
    pipe_step s (s\<lparr>sy_pipe := p', sy_recv := sy_recv s @ bytes\<rparr>)"
| read_wait: "read_pass n (sy_pipe s) = (Wait u, p') \<Longrightarrow> pipe_step s (s\<lparr>sy_pipe := p'\<rparr>)"
| close_write: "ios_pipe_close_write (Some (sy_pipe s)) = (r, Some p') \<Longrightarrow>
    pipe_step s (s\<lparr>sy_pipe := p'\<rparr>)"
| close_read: "ios_pipe_close_read (Some (sy_pipe s)) = (r, Some p') \<Longrightarrow>
    pipe_step s (s\<lparr>sy_pipe := p'\<rparr>)"

definition pipe_start :: "ios_buffered_pipe \<Rightarrow> pipe_sys" where
  "pipe_start p = \<lparr>sy_pipe = p, sy_sent = [], sy_recv = []\<rparr>"

definition pipe_sys_inv :: "pipe_sys \<Rightarrow> bool" where
  "pipe_sys_inv s \<longleftrightarrow> pipe_inv (sy_pipe s) \<and>
     sy_sent s = sy_recv s @ pipe_contents (sy_pipe s) \<and>
     bp_total_written (sy_pipe s) = of_nat (length (sy_sent s)) \<and>
     bp_total_read (sy_pipe s) = of_nat (length (sy_recv s))"

lemma write_pass_read_closed:
  "bp_read_closed p \<or> length d \<le> n \<Longrightarrow> write_pass d n p = (r, p') \<Longrightarrow>
   p' = p \<and> (\<exists>x. r = Done x \<and> (snd x = None \<longrightarrow> length d \<le> n))"
  by (auto simp: write_pass_def split: if_splits)

lemma pipe_step_inv: "pipe_step s t \<Longrightarrow> pipe_sys_inv s \<Longrightarrow> pipe_sys_inv t"
proof (induction rule: pipe_step.induct)
  case (write_done d n s r p')
  then have p: "pipe_inv (sy_pipe s)" by (simp add: pipe_sys_inv_def)
  have c: "\<not> bp_read_closed (sy_pipe s)"
    using write_pass_read_closed [of "sy_pipe s" d n] write_done by fastforce
  from p write_done(2) c show ?case
    by (cases rule: write_pass_cases) (use write_done in \<open>auto simp: pipe_sys_inv_def\<close>)
next
  case (write_wait d n s n' p')
  then have p: "pipe_inv (sy_pipe s)" by (simp add: pipe_sys_inv_def)
  have c: "\<not> bp_read_closed (sy_pipe s)" "n < length d"
    using write_pass_read_closed [of "sy_pipe s" d n] write_wait by fastforce+
  from p c(2,1) show ?case
    by (cases rule: write_pass_cases)
      (use write_wait in \<open>auto simp: pipe_sys_inv_def min_def\<close>)
next
  case (write_closed d n s r e p')
  then have p: "pipe_inv (sy_pipe s)" by (simp add: pipe_sys_inv_def)
  have "p' = sy_pipe s"
  proof (cases "n < length d \<and> \<not> bp_read_closed (sy_pipe s)")
    case True
    then have "n < length d" "\<not> bp_read_closed (sy_pipe s)" by auto
    with p show ?thesis by (cases rule: write_pass_cases) (use write_closed(1) in auto)
  next
    case False
    then have "bp_read_closed (sy_pipe s) \<or> length d \<le> n" by auto
    from write_pass_read_closed [OF this write_closed(1)] show ?thesis by blast
  qed
  with write_closed(2) show ?case by (simp add: pipe_sys_inv_def)
next
  case (read_done n s r bytes p')
  then have p: "pipe_inv (sy_pipe s)" by (simp add: pipe_sys_inv_def)
  show ?case
  proof (cases "0 < n")
    case True
    with p show ?thesis
      by (cases rule: read_pass_cases) (use read_done in \<open>auto simp: pipe_sys_inv_def\<close>)
  qed (use read_done in \<open>auto simp: pipe_sys_inv_def read_pass_def\<close>)
next
  case (read_wait n s u p')
  then have p: "pipe_inv (sy_pipe s)" by (simp add: pipe_sys_inv_def)
  from read_wait(1) have "0 < n" by (auto simp: read_pass_def split: if_splits)
  with p show ?case
    by (cases rule: read_pass_cases) (use read_wait in \<open>auto simp: pipe_sys_inv_def\<close>)
qed (auto simp: pipe_sys_inv_def ios_pipe_close_write_def ios_pipe_close_read_def)

lemma pipe_steps_inv: "pipe_step\<^sup>*\<^sup>* s t \<Longrightarrow> pipe_sys_inv s \<Longrightarrow> pipe_sys_inv t"
  by (induction rule: rtranclp_induct) (auto intro: pipe_step_inv)

lemma pipe_create_inv:
  "(\<And>n b. alloc n = Some b \<Longrightarrow> length b = n) \<Longrightarrow> ios_pipe_create ok alloc c = Some p \<Longrightarrow>
   pipe_inv p \<and> pipe_contents p = [] \<and> bp_total_written p = 0 \<and> bp_total_read p = 0 \<and>
   \<not> bp_write_closed p \<and> \<not> bp_read_closed p"
  by (auto simp: ios_pipe_create_def pipe_inv_def pipe_contents_def ring_buffer_available_def
      DEFAULT_BUFFER_SIZE_def Let_def split: if_splits option.splits)

section \<open>Properties\<close>

text \<open>
  C1: End-to-end delivery. In every state that any interleaving of write passes, read passes and
  close calls reaches from a freshly created pipe, the bytes accepted from writers are the bytes
  handed to readers followed by the bytes still in the ring, in order; none is lost, duplicated
  or reordered. The two 64-bit counters count these streams modulo \<open>2 ^ 64\<close>.
\<close>

theorem pipe_delivers_in_order:
  assumes "\<And>n b. alloc n = Some b \<Longrightarrow> length b = n"
    and "ios_pipe_create ok alloc c = Some p"
    and "pipe_step\<^sup>*\<^sup>* (pipe_start p) s"
  shows "sy_sent s = sy_recv s @ pipe_contents (sy_pipe s) \<and>
    bp_total_written (sy_pipe s) = of_nat (length (sy_sent s)) \<and>
    bp_total_read (sy_pipe s) = of_nat (length (sy_recv s))"
proof -
  have "pipe_sys_inv (pipe_start p)"
    using pipe_create_inv [OF assms(1,2)] by (simp add: pipe_sys_inv_def pipe_start_def)
  with assms(3) have "pipe_sys_inv s" by (rule pipe_steps_inv)
  then show ?thesis by (simp add: pipe_sys_inv_def)
qed

text \<open>
  C19: A blocking write accepts exactly the prefix it reports. Whatever readers and closers do
  during its waits, when \<^verbatim>\<open>ios_pipe_write_timeout\<close> returns \<open>r\<close>, the bytes the ring held before followed
  by the first \<open>r\<close> bytes of the data (none for \<open>-1\<close>) are the bytes that readers took meanwhile, as many as the counter
  of read bytes has grown by, followed by what the ring holds now: nothing is lost, doubled or reordered. The counter of written bytes
  has grown by \<open>r\<close>, and a short count always comes with an error number.
\<close>

theorem pipe_write_accepts_reported_prefix:
  assumes "pipe_inv p" and "\<not> bp_write_closed p" and "\<not> bp_read_closed p"
    and "\<forall>w \<in> set ws. reader_only w"
    and "ios_pipe_write_timeout ws (Some p) (Some d) t = Returns (r, e) q"
  shows "\<exists>p' taken. q = Some p' \<and> pipe_inv p' \<and> - 1 \<le> r \<and> r \<le> int (length d) \<and>
    pipe_contents p @ take (nat r) d = taken @ pipe_contents p' \<and>
    bp_total_read p' = bp_total_read p + of_nat (length taken) \<and>
    bp_total_written p' = bp_total_written p + of_nat (nat r) \<and>
    (r < int (length d) \<longrightarrow> e \<noteq> None)"
proof -
  from assms obtain p' where q: "q = Some p'" and w: "write_loop t d 0 ws p = Returns (r, e) p'"
    by (auto simp: ios_pipe_write_timeout_def split: exec.splits)
  from write_loop_stream [OF w assms(1,4)] obtain m taken where m:
    "m \<le> length d" "pipe_inv p'" "pipe_contents p @ take m d = taken @ pipe_contents p'"
    "bp_total_read p' = bp_total_read p + of_nat (length taken)" "bp_total_written p' = bp_total_written p + of_nat m"
    "r = (if m = 0 \<and> e \<noteq> None then - 1 else int m)" "m < length d \<longrightarrow> e \<noteq> None"
    by auto
  then have "nat r = m" by auto
  with q m show ?thesis by (intro exI [of _ p'] exI [of _ taken]) auto
qed

text \<open>
  C39: Backpressure does not lose a write. If every wait of a blocking write ends because a
  reader made room, the write returns the full size with no error as soon as there have been as
  many wake-ups as bytes; so with a live reader \<^verbatim>\<open>ios_pipe_write_timeout\<close> terminates.
\<close>

theorem pipe_write_completes:
  assumes "pipe_inv p" and "\<not> bp_write_closed p" and "\<not> bp_read_closed p"
    and "2 \<le> bp_capacity p" and "t \<noteq> 0"
    and "\<forall>w \<in> set ws. frees_room w" and "length d \<le> length ws"
  shows "\<exists>p'. ios_pipe_write_timeout ws (Some p) (Some d) t =
    Returns (int (length d), None) (Some p')"
proof -
  obtain p' where "write_loop t d 0 ws p = Returns (int (length d), None) p'"
    using write_loop_completes [OF assms(1,3,4,5,6), of 0 d] assms(7) by auto
  with assms show ?thesis by (simp add: ios_pipe_write_timeout_def)
qed

text \<open>Flushing succeeds only on an empty ring, and without a timeout never fails.\<close>

lemma flush_loop_empty:
  "flush_loop start t ks p = Returns (r, e) p' \<Longrightarrow>
   (r = 0 \<longrightarrow> ring_buffer_available p' = 0) \<and> (r \<noteq> 0 \<longrightarrow> r = - 1 \<and> e = Some ETIMEDOUT \<and> 0 \<le> t)"
  by (induction start t ks p rule: flush_loop.induct) (auto split: if_splits)

text \<open>A small open pipe used by the witnesses below.\<close>

definition demo_config :: ios_pipe_config where
  "demo_config = \<lparr>cfg_buffer_size = 4, cfg_read_timeout_ms = - 1, cfg_write_timeout_ms = - 1,
     cfg_suppress_sigpipe = True\<rparr>"

definition demo_alloc :: "nat \<Rightarrow> byte list option" where
  "demo_alloc n = Some (replicate n 0)"

definition demo_pipe :: ios_buffered_pipe where
  "demo_pipe = \<lparr>bp_buffer = [0, 0, 0, 0], bp_capacity = 4, bp_head = 0, bp_tail = 0,
     bp_write_closed = False, bp_read_closed = False, bp_suppress_sigpipe = True,
     bp_read_timeout_ms = - 1, bp_write_timeout_ms = - 1,
     bp_total_written = 0, bp_total_read = 0, bp_writer_waits = 0, bp_reader_waits = 0\<rparr>"

text \<open>A wake-up after a reader took one byte.\<close>

definition demo_reader_wake :: wake where
  "demo_reader_wake = \<lparr>wk_now = \<lparr>tv_sec = 0, tv_nsec = 0\<rparr>, wk_rc = (\<lambda>_. None),
     wk_others = (\<lambda>p. snd (read_pass 1 p))\<rparr>"

lemma demo_pipe_created: "ios_pipe_create True demo_alloc demo_config = Some demo_pipe"
  by (simp add: ios_pipe_create_def demo_config_def demo_alloc_def demo_pipe_def
      numeral_eq_Suc)

lemma demo_pipe_inv: "pipe_inv demo_pipe" "pipe_contents demo_pipe = []"
  by (simp_all add: pipe_inv_def demo_pipe_def pipe_contents_def ring_buffer_available_def)

lemma demo_pipe_open [simp]: "\<not> bp_write_closed demo_pipe" "\<not> bp_read_closed demo_pipe"
  "bp_capacity demo_pipe = 4"
  by (simp_all add: demo_pipe_def)

lemma read_pass_reader_effect:
  assumes "pipe_inv p"
  shows "pipe_inv (snd (read_pass n p)) \<and> bp_read_closed (snd (read_pass n p)) = bp_read_closed p \<and>
    bp_capacity (snd (read_pass n p)) = bp_capacity p \<and>
    pipe_contents (snd (read_pass n p)) = drop n (pipe_contents p) \<and>
    bp_total_written (snd (read_pass n p)) = bp_total_written p \<and>
    bp_total_read (snd (read_pass n p)) = bp_total_read p + of_nat (length (take n (pipe_contents p)))"
proof (cases "0 < n")
  case True
  with assms show ?thesis by (cases rule: read_pass_cases) (use assms in auto)
qed (use assms in \<open>simp add: read_pass_def\<close>)

text \<open>A wait during which a reader makes one pass.\<close>

lemma read_pass_reader_only: "wk_others w = (\<lambda>p. snd (read_pass n p)) \<Longrightarrow> reader_only w"
  unfolding reader_only_def using read_pass_reader_effect by (metis append_take_drop_id)

lemma demo_reader_only: "reader_only demo_reader_wake"
  by (rule read_pass_reader_only [of _ 1]) (simp add: demo_reader_wake_def)

lemma demo_frees_room: "frees_room demo_reader_wake"
proof -
  have "0 < ring_buffer_space (snd (read_pass 1 p))"
    if p: "pipe_inv p" and a: "0 < ring_buffer_available p" for p
  proof -
    have q: "pipe_inv (snd (read_pass 1 p))"
      "bp_capacity (snd (read_pass 1 p)) = bp_capacity p"
      "ring_buffer_available (snd (read_pass 1 p)) = ring_buffer_available p - 1"
      using read_pass_reader_effect [OF p, of 1] length_contents [OF p]
        length_contents [of "snd (read_pass 1 p)"] by auto
    then show ?thesis
      using space_eq [OF p] space_eq [OF q(1)] a by linarith
  qed
  then show ?thesis
    using read_pass_reader_effect by (auto simp: frees_room_def demo_reader_wake_def)
qed

lemma demo_write: "write_pass [1, 2, 3] 0 demo_pipe =
    (Done (3, None), demo_pipe\<lparr>bp_buffer := [1, 2, 3, 0], bp_tail := 3, bp_total_written := 3\<rparr>)"
  by code_simp

definition demo_sys :: pipe_sys where
  "demo_sys = \<lparr>sy_pipe = demo_pipe\<lparr>bp_buffer := [1, 2, 3, 0], bp_tail := 3, bp_total_written := 3\<rparr>,
     sy_sent = [1, 2, 3], sy_recv = []\<rparr>"

lemma demo_sys_reached: "pipe_step\<^sup>*\<^sup>* (pipe_start demo_pipe) demo_sys"
proof -
  have "pipe_step (pipe_start demo_pipe) demo_sys"
    using pipe_step.write_done [of "[1, 2, 3]" 0 "pipe_start demo_pipe"] demo_write
    by (simp add: pipe_start_def demo_sys_def)
  then show ?thesis by blast
qed

theorem pipe_delivers_in_order_witness:
  "sy_sent demo_sys = [1, 2, 3] \<and>
   sy_sent demo_sys = sy_recv demo_sys @ pipe_contents (sy_pipe demo_sys)"
proof -
  have "\<And>n b. demo_alloc n = Some b \<Longrightarrow> length b = n" by (auto simp: demo_alloc_def)
  from pipe_delivers_in_order [OF this demo_pipe_created demo_sys_reached] show ?thesis
    by (simp add: demo_sys_def)
qed

theorem pipe_write_accepts_reported_prefix_witness:
  "\<exists>r e q p' taken. ios_pipe_write_timeout [demo_reader_wake] (Some demo_pipe) (Some [1, 2, 3, 4]) 5 =
     Returns (r, e) q \<and> q = Some p' \<and> take (nat r) [1, 2, 3, 4] = taken @ pipe_contents p' \<and>
     bp_total_read p' = of_nat (length taken)"
proof -
  have "ios_pipe_write_timeout [demo_reader_wake] (Some demo_pipe) (Some [1, 2, 3, 4]) 5 =
      Returns (4, None) (Some (demo_pipe\<lparr>bp_buffer := [1, 2, 3, 4], bp_head := 1, bp_tail := 0,
        bp_total_written := 4, bp_total_read := 1, bp_writer_waits := 1\<rparr>))"
    by code_simp
  moreover note pipe_write_accepts_reported_prefix [OF demo_pipe_inv(1) demo_pipe_open(1,2) _ this]
  moreover have "bp_total_read demo_pipe = 0" by (simp add: demo_pipe_def)
  ultimately show ?thesis using demo_reader_only demo_pipe_inv(2) by fastforce
qed

theorem pipe_write_completes_witness:
  "\<exists>p'. ios_pipe_write_timeout (replicate 6 demo_reader_wake) (Some demo_pipe)
     (Some [1, 2, 3, 4, 5, 6]) (- 1) = Returns (6, None) (Some p')"
  using pipe_write_completes [OF demo_pipe_inv(1) demo_pipe_open(1,2),
      of "- 1" "replicate 6 demo_reader_wake" "[1, 2, 3, 4, 5, 6]"] demo_frees_room
  by simp


text \<open>
  A read returns the front of the stream, and end of file is never early. Whatever writers
  and closers do during the waits, the bytes \<^verbatim>\<open>ios_pipe_read_timeout\<close> stores are the first
  bytes of the ring contents extended by what was written meanwhile, at most as many as asked
  for; a return of 0 means that the write end is closed and the ring is empty.
\<close>

theorem pipe_read_returns_front:
  assumes "pipe_inv p" and "\<not> bp_read_closed p" and "0 < n"
    and "\<forall>w \<in> set ws. writer_only w"
    and "ios_pipe_read_timeout ws (Some p) True n t = Returns ((r, e), bytes) q"
  shows "\<exists>p' xs. q = Some p' \<and> pipe_inv p' \<and> pipe_contents p @ xs = bytes @ pipe_contents p' \<and>
    length bytes \<le> n \<and> r = (if e = None then int (length bytes) else - 1) \<and>
    (r = 0 \<longrightarrow> bp_write_closed p' \<and> pipe_contents p' = [])"
proof -
  from assms obtain p' where q: "q = Some p'" and l: "read_loop t n ws p = Returns ((r, e), bytes) p'"
    by (auto simp: ios_pipe_read_timeout_def split: exec.splits)
  from read_loop_stream [OF l assms(1,4,3)] q show ?thesis by blast
qed

definition demo_writer_wake :: wake where
  "demo_writer_wake = \<lparr>wk_now = \<lparr>tv_sec = 0, tv_nsec = 0\<rparr>, wk_rc = (\<lambda>_. None),
     wk_others = (\<lambda>p. snd (ring_buffer_write p [7, 8]))\<rparr>"

lemma demo_writer_only: "writer_only demo_writer_wake"
  by (auto simp: writer_only_def demo_writer_wake_def ring_buffer_write_inv
      ring_buffer_write_contents)

theorem pipe_read_returns_front_witness:
  "\<exists>r e bytes q. ios_pipe_read_timeout [demo_writer_wake] (Some demo_pipe) True 1 (- 1) =
     Returns ((r, e), bytes) q \<and> bytes = [7] \<and> r = int (length bytes)"
proof -
  have "ios_pipe_read_timeout [demo_writer_wake] (Some demo_pipe) True 1 (- 1) =
      Returns ((1, None), [7]) (Some (demo_pipe\<lparr>bp_buffer := [7, 8, 0, 0], bp_head := 1,
        bp_tail := 2, bp_total_read := 1, bp_reader_waits := 1\<rparr>))"
    by code_simp
  moreover note pipe_read_returns_front [OF demo_pipe_inv(1) demo_pipe_open(2) _ _ this]
  ultimately show ?thesis using demo_writer_only by fastforce
qed

text \<open>
  The non-blocking write in closed form. With timeout 0, an open pipe takes as many bytes as
  it has room for and at once returns their number, or \<open>-1\<close> when there is no room, with
  \<^verbatim>\<open>ETIMEDOUT\<close> whenever it is short; the accepted bytes are appended to the contents.
\<close>

theorem pipe_write_nonblocking:
  assumes "pipe_inv p" and "\<not> bp_write_closed p" and "\<not> bp_read_closed p" and "d \<noteq> []"
  shows "\<exists>p'. ios_pipe_write_timeout ws (Some p) (Some d) 0 =
      Returns (if length d \<le> ring_buffer_space p then (int (length d), None)
               else if ring_buffer_space p = 0 then (- 1, Some ETIMEDOUT)
               else (int (ring_buffer_space p), Some ETIMEDOUT)) (Some p') \<and>
    pipe_inv p' \<and> pipe_contents p' = pipe_contents p @ take (ring_buffer_space p) d"
proof -
  have n: "0 < length d" using assms(4) by simp
  from assms(1) n assms(3) show ?thesis
    by (cases rule: write_pass_cases)
      (auto simp: ios_pipe_write_timeout_def write_loop.simps [of 0 d 0] wait_with_timeout_def assms)
qed

theorem pipe_write_nonblocking_witness:
  "\<exists>p'. ios_pipe_write_timeout [] (Some demo_pipe) (Some [9, 8, 7, 6, 5]) 0 =
     Returns (3, Some ETIMEDOUT) (Some p') \<and> pipe_contents p' = [9, 8, 7]"
proof -
  have s: "ring_buffer_space demo_pipe = 3"
    by (simp add: demo_pipe_def ring_buffer_space_def ring_buffer_available_def)
  have "[9, 8, 7, 6, 5] \<noteq> ([] :: byte list)" by simp
  from pipe_write_nonblocking [OF demo_pipe_inv(1) demo_pipe_open(1,2) this, of "[]"]
  show ?thesis using demo_pipe_inv(2) s by (auto simp: numeral_eq_Suc)
qed

text \<open>
  Polling tells exactly when a call would block. On a pipe whose read end is open,
  \<^verbatim>\<open>ios_pipe_poll_readable\<close> holds iff a read without timeout returns at once; on a pipe with
  both ends open, \<^verbatim>\<open>ios_pipe_poll_writable\<close> holds iff a one-byte write returns at once.
\<close>

theorem pipe_poll_exact:
  assumes "pipe_inv p" and "\<not> bp_read_closed p" and "0 < n" and "\<not> bp_write_closed p'"
    and "\<not> bp_read_closed p'" and "pipe_inv p'"
  shows "(ios_pipe_poll_readable (Some p) \<longleftrightarrow>
      (\<nexists>q. ios_pipe_read_timeout [] (Some p) True n (- 1) = Blocked q)) \<and>
    (ios_pipe_poll_writable (Some p') \<longleftrightarrow>
      (\<nexists>q. ios_pipe_write_timeout [] (Some p') (Some [b]) (- 1) = Blocked q))"
proof
  have len: "ring_buffer_available p = length (pipe_contents p)" using assms(1) by simp
  from assms(1,3) show "ios_pipe_poll_readable (Some p) \<longleftrightarrow>
      (\<nexists>q. ios_pipe_read_timeout [] (Some p) True n (- 1) = Blocked q)"
    by (cases rule: read_pass_cases)
      (auto simp: ios_pipe_poll_readable_def ios_pipe_read_timeout_def read_loop.simps [of "- 1" n]
        wait_with_timeout_def len assms(2))
  have one: "0 < length [b]" by simp
  from assms(6) one assms(5) show "ios_pipe_poll_writable (Some p') \<longleftrightarrow>
      (\<nexists>q. ios_pipe_write_timeout [] (Some p') (Some [b]) (- 1) = Blocked q)"
    by (cases rule: write_pass_cases)
      (auto simp: ios_pipe_poll_writable_def ios_pipe_write_timeout_def
        write_loop.simps [of "- 1" "[b]" 0] wait_with_timeout_def assms)
qed

theorem pipe_poll_exact_witness:
  "\<not> ios_pipe_poll_readable (Some demo_pipe) \<and> ios_pipe_poll_writable (Some demo_pipe) \<and>
   (\<exists>q. ios_pipe_read_timeout [] (Some demo_pipe) True 1 (- 1) = Blocked q)"
proof -
  have "\<not> ios_pipe_poll_readable (Some demo_pipe)" "ios_pipe_poll_writable (Some demo_pipe)"
    by code_simp+
  with pipe_poll_exact [OF demo_pipe_inv(1) demo_pipe_open(2) zero_less_one demo_pipe_open(1,2)
      demo_pipe_inv(1), of 0]
  show ?thesis by blast
qed

text \<open>
  The deadline of a timed wait is exact and normalised: for a normalised clock reading and a
  positive timeout, the \<^verbatim>\<open>timespec\<close> handed to \<^verbatim>\<open>pthread_cond_timedwait\<close> lies the timeout
  after the reading, to the nanosecond, and its \<^verbatim>\<open>tv_nsec\<close> is below one second.
\<close>

theorem wait_deadline_exact:
  assumes "ts_normal now" and "0 < timeout_ms"
  shows "ts_normal (wait_deadline now timeout_ms) \<and>
    ts_ns (wait_deadline now timeout_ms) = ts_ns now + timeout_ms * 1000000"
proof -
  define q r where "q = timeout_ms div 1000" and "r = timeout_ms mod 1000"
  have "c_div timeout_ms 1000 = q" "c_mod timeout_ms 1000 = r"
    using assms(2) by (simp_all add: c_div_nonneg c_mod_nonneg q_def r_def)
  moreover have "timeout_ms = q * 1000 + r" "0 \<le> r" "r < 1000"
    by (simp_all add: q_def r_def)
  ultimately show ?thesis
    using assms(1) by (auto simp: wait_deadline_def ts_normal_def ts_ns_def Let_def)
qed

theorem wait_deadline_exact_witness:
  "wait_deadline \<lparr>tv_sec = 10, tv_nsec = 999000000\<rparr> 1500 = \<lparr>tv_sec = 12, tv_nsec = 499000000\<rparr> \<and>
   ts_normal (wait_deadline \<lparr>tv_sec = 10, tv_nsec = 999000000\<rparr> 1500)"
proof -
  have "ts_normal \<lparr>tv_sec = 10, tv_nsec = 999000000\<rparr>" by (simp add: ts_normal_def)
  from wait_deadline_exact [OF this, of 1500] show ?thesis
    by (simp add: wait_deadline_def c_mod_def c_div_def)
qed

text \<open>
  No sum the ring operations form overflows a 64-bit \<^verbatim>\<open>size_t\<close>, for every block up to
  \<open>2 ^ 63\<close> bytes, so modelling positions by natural numbers loses nothing.
\<close>

theorem ring_index_fits:
  assumes "pipe_inv p" and "bp_capacity p \<le> 2 ^ 63"
  shows "bp_tail p + fst (ring_buffer_write p d) < 2 ^ 64 \<and>
    bp_head p + length (fst (ring_buffer_read p n)) < 2 ^ 64 \<and>
    bp_capacity p - bp_head p + bp_tail p < 2 ^ 64 \<and>
    ring_buffer_available p + 1 \<le> bp_capacity p"
proof -
  have "bp_head p < bp_capacity p" "bp_tail p < bp_capacity p"
    using assms(1) by (simp_all add: pipe_inv_def)
  moreover have "ring_buffer_available p < bp_capacity p" by (rule available_less [OF assms(1)])
  moreover have "fst (ring_buffer_write p d) < bp_capacity p"
    using space_eq [OF assms(1)] by (simp add: ring_buffer_write_count)
  moreover have "length (fst (ring_buffer_read p n)) \<le> ring_buffer_available p"
    using assms(1) by (simp add: ring_buffer_read_bytes)
  ultimately show ?thesis using assms(2) by simp
qed

theorem ring_index_fits_witness:
  "bp_tail demo_pipe + fst (ring_buffer_write demo_pipe [1, 2, 3, 4, 5]) < 2 ^ 64"
  using ring_index_fits [OF demo_pipe_inv(1), of "[1, 2, 3, 4, 5]"] by simp

text \<open>
  A pipe created with \<^verbatim>\<open>buffer_size\<close> 1 can never carry a byte: one slot of the ring stays
  free to tell full from empty, so a blocking write of any data waits for ever, whatever readers
  do, as long as they do not close their end.
\<close>

theorem one_byte_pipe_never_writes:
  assumes "pipe_inv p" and "bp_capacity p = 1" and "\<not> bp_write_closed p" and "\<not> bp_read_closed p"
    and "d \<noteq> []" and "t < 0"
    and "\<forall>w \<in> set ws. \<forall>q. pipe_inv q \<and> bp_capacity q = 1 \<and> \<not> bp_read_closed q \<longrightarrow>
      wk_rc w None = None \<and> pipe_inv (wk_others w q) \<and> bp_capacity (wk_others w q) = 1 \<and>
      \<not> bp_read_closed (wk_others w q)"
  shows "\<exists>q. ios_pipe_write_timeout ws (Some p) (Some d) t = Blocked (Some q)"
proof -
  have n: "0 < length d" using assms(5) by simp
  have "\<exists>q. write_loop t d 0 ws p = Blocked q"
    using assms(1,2,4,7)
  proof (induction ws arbitrary: p)
    case Nil
    have "ring_buffer_space p = 0" using space_eq [OF Nil(1)] Nil(2) by simp
    from Nil(1) n Nil(3) show ?case
      by (cases rule: write_pass_cases)
        (use n assms(6) \<open>ring_buffer_space p = 0\<close> in
          \<open>auto simp: write_loop.simps [of t d 0] wait_with_timeout_def\<close>)
  next
    case (Cons w ws)
    have s: "ring_buffer_space p = 0" using space_eq [OF Cons.prems(1)] Cons.prems(2) by simp
    from Cons.prems(1) n Cons.prems(3) show ?case
    proof (cases rule: write_pass_cases)
      case (all q)
      with s n show ?thesis by simp
    next
      case (part q)
      have cap: "bp_capacity q = 1"
        using write_pass_capacity [OF Cons.prems(1), of d 0] part(1) Cons.prems(2) by simp
      with Cons.prems(3,4) part(2,6) have w: "wk_rc w None = None" "pipe_inv (wk_others w q)"
        "bp_capacity (wk_others w q) = 1" "\<not> bp_read_closed (wk_others w q)"
        by auto
      from Cons.IH [OF w(2,3,4)] Cons.prems(4) obtain q' where
        "write_loop t d 0 ws (wk_others w q) = Blocked q'" by auto
      with part(1) s w(1) assms(6) show ?thesis
        by (auto simp: write_loop.simps [of t d 0 "w # ws"] wait_with_timeout_def)
    qed
  qed
  then show ?thesis using assms(3,4) by (auto simp: ios_pipe_write_timeout_def)
qed

theorem one_byte_pipe_never_writes_witness:
  "\<exists>p q. ios_pipe_create True demo_alloc (demo_config\<lparr>cfg_buffer_size := 1\<rparr>) = Some p \<and>
     ios_pipe_write_timeout [demo_reader_wake] (Some p) (Some [1]) (- 1) = Blocked (Some q)"
proof -
  obtain p where p: "ios_pipe_create True demo_alloc (demo_config\<lparr>cfg_buffer_size := 1\<rparr>) = Some p"
    "bp_capacity p = 1"
    by (simp add: ios_pipe_create_def demo_alloc_def demo_config_def)
  have q: "pipe_inv p" "\<not> bp_write_closed p" "\<not> bp_read_closed p"
    using pipe_create_inv [OF _ p(1)] by (auto simp: demo_alloc_def)
  have "\<forall>w \<in> set [demo_reader_wake]. \<forall>q. pipe_inv q \<and> bp_capacity q = 1 \<and> \<not> bp_read_closed q \<longrightarrow>
      wk_rc w None = None \<and> pipe_inv (wk_others w q) \<and> bp_capacity (wk_others w q) = 1 \<and>
      \<not> bp_read_closed (wk_others w q)"
    using read_pass_reader_effect by (simp add: demo_reader_wake_def)
  from one_byte_pipe_never_writes [OF q(1) p(2) q(2,3) _ _ this, of "[1]" "- 1"] p(1)
  show ?thesis by auto
qed

end
