(* ===== verification/Pid_Allocator.thy ===== *)
theory Pid_Allocator
  imports Interfaces "HOL-Library.Monad_Syntax"
begin

text \<open>
  The dynamic process-id allocator of \<^verbatim>\<open>ios_pid_allocator.c\<close>: contexts on an explicit store, a
  hash table of 256 bucket chains linked through \<^verbatim>\<open>next_in_bucket\<close>, a free list linked through
  \<^verbatim>\<open>next_free\<close>, reference counts, and the cleanup counter that holds allocations back.

  An operation that follows a freed pointer is a fault, the value \<open>None\<close> (\<open>Crash\<close> for the
  operations that may also block). The chains are walked with \<open>chain_find\<close> and \<open>find_link\<close>,
  so a walk of a cyclic chain, which never ends, is \<open>None\<close> as well. The bucket locks make an
  insertion, a removal or a lookup one step. The free list is lock-free: its pop and push take a
  list of interferences, what the other threads do between the read of the head and the
  compare-and-swap of each attempt; an empty list is the undisturbed operation.

  \<^verbatim>\<open>pid_t\<close> is a 32-bit word, as \<^verbatim>\<open>next_pid\<close> wraps around; counters and reference counts are
  integers. Diagnostics printed to \<^verbatim>\<open>stderr\<close> are left out.
\<close>

section \<open>State\<close>

type_synonym pid_t = u32

definition INITIAL_PID :: pid_t where
  "INITIAL_PID = 100"

definition PID_HASH_TABLE_SIZE :: nat where
  "PID_HASH_TABLE_SIZE = 256"

definition MAXPATHLEN :: nat where
  "MAXPATHLEN = 1024"

record ios_pid_context =
  pc_pid :: pid_t
  pc_thread_id :: tid
  pc_environment :: "string list option"
  pc_copy_environment :: "string list option"
  pc_num_variables_set :: int
  pc_previous_directory :: string
  pc_parent_pid :: pid_t
  pc_next_free :: "addr option"
  pc_next_in_bucket :: "addr option"
  pc_ref_count :: int
  pc_is_allocated :: bool

type_synonym pid_heap = "addr \<rightharpoonup> ios_pid_context"

record pid_allocator =
  pa_heap :: pid_heap
  pa_buckets :: "nat \<Rightarrow> addr option"
  pa_free_head :: "addr option"
  pa_free_size :: int
  pa_next_pid :: pid_t
  pa_total_allocated :: int
  pa_currently_active :: int
  pa_once_done :: bool
  pa_initialized :: bool
  pa_cleanup_counter :: int

text \<open>The zero-initialised global before the first call.\<close>

definition g_pid_allocator :: pid_allocator where
  "g_pid_allocator = \<lparr>pa_heap = Map.empty, pa_buckets = (\<lambda>_. None), pa_free_head = None,
     pa_free_size = 0, pa_next_pid = 0, pa_total_allocated = 0, pa_currently_active = 0,
     pa_once_done = False, pa_initialized = False, pa_cleanup_counter = 0\<rparr>"

definition hash_pid :: "pid_t \<Rightarrow> nat" where
  "hash_pid pid = unat pid mod PID_HASH_TABLE_SIZE"

section \<open>Initialisation\<close>

definition pid_allocator_init_once :: "pid_allocator \<Rightarrow> pid_allocator" where
  "pid_allocator_init_once s =
     (if pa_initialized s then s
      else s\<lparr>pa_buckets := (\<lambda>i. if i < PID_HASH_TABLE_SIZE then None else pa_buckets s i),
             pa_free_head := None, pa_free_size := 0,
             pa_next_pid := INITIAL_PID, pa_total_allocated := 0, pa_currently_active := 0,
             pa_cleanup_counter := 0, pa_initialized := True\<rparr>)"

text \<open>\<^verbatim>\<open>pthread_once\<close> runs its routine on the first call only, also after a shutdown.\<close>

definition ios_pid_allocator_init :: "pid_allocator \<Rightarrow> pid_allocator" where
  "ios_pid_allocator_init s =
     (if pa_once_done s then s else (pid_allocator_init_once s)\<lparr>pa_once_done := True\<rparr>)"

definition new_context :: "pid_t \<Rightarrow> ios_pid_context" where
  "new_context pid = \<lparr>pc_pid = pid, pc_thread_id = 0, pc_environment = None,
     pc_copy_environment = None, pc_num_variables_set = 0, pc_previous_directory = '''',
     pc_parent_pid = 0, pc_next_free = None, pc_next_in_bucket = None, pc_ref_count = 1,
     pc_is_allocated = True\<rparr>"

text \<open>\<open>mem\<close> is the address \<^verbatim>\<open>calloc\<close> returns, \<open>None\<close> when it fails.\<close>

definition pid_allocator_create_context ::
  "addr option \<Rightarrow> pid_t \<Rightarrow> pid_heap \<Rightarrow> addr option \<times> pid_heap" where
  "pid_allocator_create_context mem pid h =
     (case mem of None \<Rightarrow> (None, h) | Some a \<Rightarrow> (Some a, h(a \<mapsto> new_context pid)))"

section \<open>The table of active contexts\<close>

definition upd_ctx ::
  "addr \<Rightarrow> (ios_pid_context \<Rightarrow> ios_pid_context) \<Rightarrow> pid_allocator \<Rightarrow> pid_allocator option" where
  "upd_ctx a f s =
     (case pa_heap s a of None \<Rightarrow> None
      | Some c \<Rightarrow> Some (s\<lparr>pa_heap := (pa_heap s)(a \<mapsto> f c)\<rparr>))"

definition pid_allocator_insert_active :: "addr \<Rightarrow> pid_allocator \<Rightarrow> pid_allocator option" where
  "pid_allocator_insert_active a s =
     do { c \<leftarrow> pa_heap s a;
          let i = hash_pid (pc_pid c);
          s1 \<leftarrow> upd_ctx a (\<lambda>c. c\<lparr>pc_next_in_bucket := pa_buckets s i\<rparr>) s;
          Some (s1\<lparr>pa_buckets := (pa_buckets s1)(i := Some a)\<rparr>) }"

definition pid_allocator_remove_active :: "addr \<Rightarrow> pid_allocator \<Rightarrow> pid_allocator option" where
  "pid_allocator_remove_active a s =
     do { c \<leftarrow> pa_heap s a;
          let i = hash_pid (pc_pid c);
          found \<leftarrow> find_link (pa_heap s) pc_next_in_bucket a HeadLink (pa_buckets s i);
          (case found of
             None \<Rightarrow> Some s
           | Some entry_ptr \<Rightarrow>
               do { s1 \<leftarrow> (case entry_ptr of
                             HeadLink \<Rightarrow> Some (s\<lparr>pa_buckets := (pa_buckets s)(i := pc_next_in_bucket c)\<rparr>)
                           | NextOf b \<Rightarrow>
                               upd_ctx b (\<lambda>n. n\<lparr>pc_next_in_bucket := pc_next_in_bucket c\<rparr>) s);
                    upd_ctx a (\<lambda>n. n\<lparr>pc_next_in_bucket := None\<rparr>) s1 }) }"

section \<open>The lock-free free list\<close>

text \<open>What a successful compare-and-swap of the pop installs, and the stores after it.\<close>

definition pop_commit :: "addr \<Rightarrow> addr option \<Rightarrow> pid_allocator \<Rightarrow> (addr option \<times> pid_allocator) option" where
  "pop_commit a next s =
     do { s1 \<leftarrow> upd_ctx a (\<lambda>c. c\<lparr>pc_next_free := None, pc_is_allocated := True, pc_ref_count := 1\<rparr>)
                 (s\<lparr>pa_free_head := next, pa_free_size := pa_free_size s - 1\<rparr>);
          Some (Some a, s1) }"

fun pid_allocator_pop_free_list ::
  "(pid_allocator \<Rightarrow> pid_allocator) list \<Rightarrow> pid_allocator \<Rightarrow> (addr option \<times> pid_allocator) option" where
  "pid_allocator_pop_free_list [] s =
     (case pa_free_head s of None \<Rightarrow> Some (None, s)
      | Some a \<Rightarrow> do { c \<leftarrow> pa_heap s a; pop_commit a (pc_next_free c) s })"
| "pid_allocator_pop_free_list (f # fs) s =
     (case pa_free_head s of None \<Rightarrow> Some (None, s)
      | Some a \<Rightarrow>
          do { c \<leftarrow> pa_heap s a;
               let s1 = f s;
               if pa_free_head s1 = Some a then pop_commit a (pc_next_free c) s1
               else pid_allocator_pop_free_list fs s1 })"

definition push_clean :: "ios_pid_context \<Rightarrow> ios_pid_context" where
  "push_clean c = c\<lparr>pc_environment := None, pc_copy_environment := None,
     pc_num_variables_set := 0, pc_thread_id := 0, pc_is_allocated := False\<rparr>"

text \<open>
  The compare-and-swap loop of the push: link the context to the head seen, then install it if
  the head is still the same.
\<close>

fun push_loop ::
  "(pid_allocator \<Rightarrow> pid_allocator) list \<Rightarrow> addr \<Rightarrow> pid_allocator \<Rightarrow> pid_allocator option" where
  "push_loop [] a s =
     do { s1 \<leftarrow> upd_ctx a (\<lambda>c. c\<lparr>pc_next_free := pa_free_head s\<rparr>) s;
          Some (s1\<lparr>pa_free_head := Some a, pa_free_size := pa_free_size s1 + 1\<rparr>) }"
| "push_loop (f # fs) a s =
     do { s1 \<leftarrow> upd_ctx a (\<lambda>c. c\<lparr>pc_next_free := pa_free_head s\<rparr>) s;
          let s2 = f s1;
          if pa_free_head s2 = pa_free_head s
          then Some (s2\<lparr>pa_free_head := Some a, pa_free_size := pa_free_size s2 + 1\<rparr>)
          else push_loop fs a s2 }"

definition pid_allocator_push_free_list ::
  "(pid_allocator \<Rightarrow> pid_allocator) list \<Rightarrow> addr \<Rightarrow> pid_allocator \<Rightarrow> pid_allocator option" where
  "pid_allocator_push_free_list fs a s = do { s1 \<leftarrow> upd_ctx a push_clean s; push_loop fs a s1 }"

section \<open>Cleanup synchronisation\<close>

definition ios_pid_begin_cleanup :: "pid_allocator \<Rightarrow> pid_allocator" where
  "ios_pid_begin_cleanup s = s\<lparr>pa_cleanup_counter := pa_cleanup_counter s + 1\<rparr>"

text \<open>The flag tells whether the waiting threads are woken.\<close>

definition ios_pid_end_cleanup :: "pid_allocator \<Rightarrow> bool \<times> pid_allocator" where
  "ios_pid_end_cleanup s =
     (pa_cleanup_counter s = 1, s\<lparr>pa_cleanup_counter := pa_cleanup_counter s - 1\<rparr>)"

text \<open>Each entry of the schedule is what the other threads do during one wait.\<close>

fun ios_pid_wait_for_cleanup ::
  "(pid_allocator \<Rightarrow> pid_allocator) list \<Rightarrow> pid_allocator \<Rightarrow> (unit, pid_allocator) exec" where
  "ios_pid_wait_for_cleanup [] s =
     (if pa_cleanup_counter s > 0 then Blocked s else Returns () s)"
| "ios_pid_wait_for_cleanup (w # ws) s =
     (if pa_cleanup_counter s > 0 then ios_pid_wait_for_cleanup ws (w s) else Returns () s)"

section \<open>Allocation, release, lookup\<close>

definition pid_allocate_body ::
  "(pid_allocator \<Rightarrow> pid_allocator) list \<Rightarrow> addr option \<Rightarrow> pid_allocator \<Rightarrow>
   (addr option \<times> pid_allocator) option" where
  "pid_allocate_body fs mem s =
     do { (ctx, s1) \<leftarrow> pid_allocator_pop_free_list fs s;
          (case ctx of
             Some a \<Rightarrow>
               do { s2 \<leftarrow> pid_allocator_insert_active a s1;
                    Some (Some a, s2\<lparr>pa_currently_active := pa_currently_active s2 + 1\<rparr>) }
           | None \<Rightarrow>
               let new_pid = pa_next_pid s1;
                   s2 = s1\<lparr>pa_next_pid := pa_next_pid s1 + 1\<rparr>;
                   (created, h) = pid_allocator_create_context mem new_pid (pa_heap s2)
               in case created of
                    None \<Rightarrow> Some (None, s2)
                  | Some a \<Rightarrow>
                      do { s3 \<leftarrow> pid_allocator_insert_active a
                                   (s2\<lparr>pa_heap := h, pa_total_allocated := pa_total_allocated s2 + 1\<rparr>);
                           Some (Some a, s3\<lparr>pa_currently_active := pa_currently_active s3 + 1\<rparr>) }) }"

text \<open>
  \<open>ws\<close> schedules the wait for cleanups, \<open>fs\<close> the attempts of the pop, \<open>mem\<close> is the
  allocator's answer.
\<close>

definition ios_pid_allocate ::
  "(pid_allocator \<Rightarrow> pid_allocator) list \<Rightarrow> (pid_allocator \<Rightarrow> pid_allocator) list \<Rightarrow> addr option \<Rightarrow>
   pid_allocator \<Rightarrow> (addr option, pid_allocator) exec" where
  "ios_pid_allocate ws fs mem s =
     (case ios_pid_wait_for_cleanup ws (ios_pid_allocator_init s) of
        Blocked s1 \<Rightarrow> Blocked s1
      | Crash \<Rightarrow> Crash
      | Returns _ s1 \<Rightarrow>
          (case pid_allocate_body fs mem s1 of
             None \<Rightarrow> Crash
           | Some (ctx, s2) \<Rightarrow> Returns ctx s2))"

definition ios_pid_release ::
  "(pid_allocator \<Rightarrow> pid_allocator) list \<Rightarrow> addr option \<Rightarrow> pid_allocator \<Rightarrow> pid_allocator option" where
  "ios_pid_release fs ctx s =
     (case ctx of None \<Rightarrow> Some s
      | Some a \<Rightarrow>
          do { c \<leftarrow> pa_heap s a;
               let prev_count = pc_ref_count c;
               s1 \<leftarrow> upd_ctx a (\<lambda>c. c\<lparr>pc_ref_count := pc_ref_count c - 1\<rparr>) s;
               if prev_count > 1 then Some s1
               else do { s2 \<leftarrow> pid_allocator_remove_active a s1;
                         pid_allocator_push_free_list fs a
                           (s2\<lparr>pa_currently_active := pa_currently_active s2 - 1\<rparr>) } })"

definition ios_pid_lookup :: "pid_t \<Rightarrow> pid_allocator \<Rightarrow> (addr option \<times> pid_allocator) option" where
  "ios_pid_lookup pid s0 =
     (let s = ios_pid_allocator_init s0; i = hash_pid pid in
      do { found \<leftarrow> chain_find (pa_heap s) pc_next_in_bucket
                      (\<lambda>c. pc_pid c = pid \<and> pc_is_allocated c) (pa_buckets s i);
           (case found of
              None \<Rightarrow> Some (None, s)
            | Some a \<Rightarrow> do { s1 \<leftarrow> upd_ctx a (\<lambda>c. c\<lparr>pc_ref_count := pc_ref_count c + 1\<rparr>) s;
                             Some (Some a, s1) }) })"

text \<open>The scan over the buckets \<open>i, i + 1, \<dots>\<close>; \<open>n\<close> of them are left.\<close>

fun lookup_by_thread_from ::
  "nat \<Rightarrow> nat \<Rightarrow> tid \<Rightarrow> pid_allocator \<Rightarrow> (addr option \<times> pid_allocator) option" where
  "lookup_by_thread_from 0 i thread s = Some (None, s)"
| "lookup_by_thread_from (Suc n) i thread s =
     do { found \<leftarrow> chain_find (pa_heap s) pc_next_in_bucket
                      (\<lambda>c. pc_thread_id c = thread \<and> pc_is_allocated c) (pa_buckets s i);
          (case found of
             None \<Rightarrow> lookup_by_thread_from n (Suc i) thread s
           | Some a \<Rightarrow> do { s1 \<leftarrow> upd_ctx a (\<lambda>c. c\<lparr>pc_ref_count := pc_ref_count c + 1\<rparr>) s;
                            Some (Some a, s1) }) }"

definition ios_pid_lookup_by_thread ::
  "tid \<Rightarrow> pid_allocator \<Rightarrow> (addr option \<times> pid_allocator) option" where
  "ios_pid_lookup_by_thread thread s =
     lookup_by_thread_from PID_HASH_TABLE_SIZE 0 thread (ios_pid_allocator_init s)"

section \<open>Accessors\<close>

definition get_field :: "'a \<Rightarrow> (ios_pid_context \<Rightarrow> 'a) \<Rightarrow> addr option \<Rightarrow> pid_allocator \<Rightarrow> 'a option" where
  "get_field null_value sel ctx s =
     (case ctx of None \<Rightarrow> Some null_value | Some a \<Rightarrow> map_option sel (pa_heap s a))"

definition set_field ::
  "(ios_pid_context \<Rightarrow> ios_pid_context) \<Rightarrow> addr option \<Rightarrow> pid_allocator \<Rightarrow> pid_allocator option" where
  "set_field f ctx s = (case ctx of None \<Rightarrow> Some s | Some a \<Rightarrow> upd_ctx a f s)"

definition ios_pid_get_id :: "addr option \<Rightarrow> pid_allocator \<Rightarrow> pid_t option" where
  "ios_pid_get_id = get_field (- 1) pc_pid"

definition ios_pid_set_thread :: "addr option \<Rightarrow> tid \<Rightarrow> pid_allocator \<Rightarrow> pid_allocator option" where
  "ios_pid_set_thread ctx thread = set_field (\<lambda>c. c\<lparr>pc_thread_id := thread\<rparr>) ctx"

definition ios_pid_get_thread :: "addr option \<Rightarrow> pid_allocator \<Rightarrow> tid option" where
  "ios_pid_get_thread = get_field 0 pc_thread_id"

definition ios_pid_get_environment :: "addr option \<Rightarrow> pid_allocator \<Rightarrow> string list option option" where
  "ios_pid_get_environment = get_field None pc_environment"

definition ios_pid_set_environment ::
  "addr option \<Rightarrow> string list option \<Rightarrow> pid_allocator \<Rightarrow> pid_allocator option" where
  "ios_pid_set_environment ctx env = set_field (\<lambda>c. c\<lparr>pc_environment := env\<rparr>) ctx"

definition ios_pid_get_env_count :: "addr option \<Rightarrow> pid_allocator \<Rightarrow> int option" where
  "ios_pid_get_env_count = get_field 0 pc_num_variables_set"

definition ios_pid_set_env_count :: "addr option \<Rightarrow> int \<Rightarrow> pid_allocator \<Rightarrow> pid_allocator option" where
  "ios_pid_set_env_count ctx count = set_field (\<lambda>c. c\<lparr>pc_num_variables_set := count\<rparr>) ctx"

definition ios_pid_get_previous_dir :: "addr option \<Rightarrow> pid_allocator \<Rightarrow> string option option" where
  "ios_pid_get_previous_dir = get_field None (\<lambda>c. Some (pc_previous_directory c))"

text \<open>\<^verbatim>\<open>strncpy\<close> keeps at most \<open>MAXPATHLEN - 1\<close> characters; a null \<open>dir\<close> changes nothing.\<close>

definition ios_pid_set_previous_dir ::
  "addr option \<Rightarrow> string option \<Rightarrow> pid_allocator \<Rightarrow> pid_allocator option" where
  "ios_pid_set_previous_dir ctx dir s =
     (case dir of None \<Rightarrow> Some s
      | Some d \<Rightarrow> set_field (\<lambda>c. c\<lparr>pc_previous_directory := take (MAXPATHLEN - 1) d\<rparr>) ctx s)"

definition ios_pid_get_parent :: "addr option \<Rightarrow> pid_allocator \<Rightarrow> pid_t option" where
  "ios_pid_get_parent = get_field (- 1) pc_parent_pid"

definition ios_pid_set_parent :: "addr option \<Rightarrow> pid_t \<Rightarrow> pid_allocator \<Rightarrow> pid_allocator option" where
  "ios_pid_set_parent ctx parent = set_field (\<lambda>c. c\<lparr>pc_parent_pid := parent\<rparr>) ctx"

text \<open>Total allocated, currently active, size of the free list.\<close>

definition ios_pid_get_stats :: "pid_allocator \<Rightarrow> int \<times> int \<times> int" where
  "ios_pid_get_stats s = (pa_total_allocated s, pa_currently_active s, pa_free_size s)"

section \<open>Shutdown\<close>

text \<open>Freeing a chain: each node's link is read, then the node is freed.\<close>

partial_function (option) free_chain ::
  "(ios_pid_context \<Rightarrow> addr option) \<Rightarrow> addr option \<Rightarrow> pid_heap \<Rightarrow> pid_heap option" where
  "free_chain nx p h =
     (case p of None \<Rightarrow> Some h
      | Some a \<Rightarrow> (case h a of None \<Rightarrow> None
                   | Some c \<Rightarrow> free_chain nx (nx c) (h(a := None))))"

fun free_buckets :: "nat \<Rightarrow> nat \<Rightarrow> pid_allocator \<Rightarrow> pid_allocator option" where
  "free_buckets 0 i s = Some s"
| "free_buckets (Suc n) i s =
     do { h \<leftarrow> free_chain pc_next_in_bucket (pa_buckets s i) (pa_heap s);
          free_buckets n (Suc i) (s\<lparr>pa_heap := h, pa_buckets := (pa_buckets s)(i := None)\<rparr>) }"

text \<open>The head of the free list is left as it is, and the once-flag stays set.\<close>

definition ios_pid_allocator_shutdown :: "pid_allocator \<Rightarrow> pid_allocator option" where
  "ios_pid_allocator_shutdown s =
     (if \<not> pa_initialized s then Some s
      else do { s1 \<leftarrow> free_buckets PID_HASH_TABLE_SIZE 0 s;
                h \<leftarrow> free_chain pc_next_free (pa_free_head s1) (pa_heap s1);
                Some (s1\<lparr>pa_heap := h, pa_initialized := False\<rparr>) })"

section \<open>Invariant\<close>

definition active :: "pid_allocator \<Rightarrow> addr set" where
  "active s = {a. \<exists>c. pa_heap s a = Some c \<and> pc_is_allocated c}"

definition idle :: "pid_allocator \<Rightarrow> addr set" where
  "idle s = {a. \<exists>c. pa_heap s a = Some c \<and> \<not> pc_is_allocated c}"

definition ctx_at :: "pid_allocator \<Rightarrow> addr \<Rightarrow> ios_pid_context" where
  "ctx_at s a = the (pa_heap s a)"

text \<open>Every bucket chain holds exactly the active contexts whose process id hashes to it.\<close>

definition buckets_ok :: "pid_allocator \<Rightarrow> bool" where
  "buckets_ok s \<longleftrightarrow> (\<forall>i < PID_HASH_TABLE_SIZE. \<exists>as.
     chain (pa_heap s) pc_next_in_bucket (pa_buckets s i) as \<and>
     set as = {a \<in> active s. hash_pid (pc_pid (ctx_at s a)) = i})"

text \<open>The free list holds exactly the contexts that are not allocated.\<close>

definition free_list_ok :: "pid_allocator \<Rightarrow> bool" where
  "free_list_ok s \<longleftrightarrow>
     (\<exists>as. chain (pa_heap s) pc_next_free (pa_free_head s) as \<and> set as = idle s)"

definition pids_ok :: "pid_allocator \<Rightarrow> bool" where
  "pids_ok s \<longleftrightarrow> inj_on (\<lambda>a. pc_pid (ctx_at s a)) (dom (pa_heap s)) \<and>
     (\<forall>a \<in> dom (pa_heap s). pc_pid (ctx_at s a) - INITIAL_PID < pa_next_pid s - INITIAL_PID)"

definition counts_ok :: "pid_allocator \<Rightarrow> bool" where
  "counts_ok s \<longleftrightarrow> finite (dom (pa_heap s)) \<and>
     pa_currently_active s = int (card (active s)) \<and> pa_free_size s = int (card (idle s)) \<and>
     pa_total_allocated s = int (card (dom (pa_heap s)))"

definition refs_ok :: "pid_allocator \<Rightarrow> bool" where
  "refs_ok s \<longleftrightarrow> (\<forall>a c. pa_heap s a = Some c \<and> pc_is_allocated c \<longrightarrow> 1 \<le> pc_ref_count c)"

definition pa_inv :: "pid_allocator \<Rightarrow> bool" where
  "pa_inv s \<longleftrightarrow> pa_once_done s \<and> buckets_ok s \<and> free_list_ok s \<and> pids_ok s \<and> counts_ok s \<and> refs_ok s"

text \<open>Frames: what the views of the state do not depend on.\<close>

lemma active_frame [simp]:
  "active (s\<lparr>pa_currently_active := n\<rparr>) = active s" "idle (s\<lparr>pa_currently_active := n\<rparr>) = idle s"
  "active (s\<lparr>pa_next_pid := p\<rparr>) = active s" "idle (s\<lparr>pa_next_pid := p\<rparr>) = idle s"
  "ctx_at (s\<lparr>pa_currently_active := n\<rparr>) = ctx_at s" "ctx_at (s\<lparr>pa_next_pid := p\<rparr>) = ctx_at s"
  by (simp_all add: active_def idle_def ctx_at_def fun_eq_iff)

lemma buckets_ok_frame [simp]:
  "buckets_ok (s\<lparr>pa_currently_active := n\<rparr>) = buckets_ok s"
  "buckets_ok (s\<lparr>pa_next_pid := p\<rparr>) = buckets_ok s"
  by (simp_all add: buckets_ok_def)

lemma pa_invD:
  assumes "pa_inv s"
  shows "pa_once_done s" "buckets_ok s" "free_list_ok s" "pids_ok s" "counts_ok s" "refs_ok s"
  using assms by (simp_all add: pa_inv_def)

lemma active_idle: "active s \<inter> idle s = {}" "active s \<union> idle s = dom (pa_heap s)"
  by (auto simp: active_def idle_def)

lemma counts_finite:
  assumes "counts_ok s"
  shows "finite (active s)" "finite (idle s)"
  using assms active_idle(2) [of s] unfolding counts_ok_def by (metis finite_Un)+

lemma hash_pid_less [simp]: "hash_pid p < PID_HASH_TABLE_SIZE"
  by (simp add: hash_pid_def PID_HASH_TABLE_SIZE_def)

lemma upd_ctx_Some: "pa_heap s a = Some c \<Longrightarrow>
    upd_ctx a f s = Some (s\<lparr>pa_heap := (pa_heap s)(a \<mapsto> f c)\<rparr>)"
  by (simp add: upd_ctx_def)

lemma pa_inv_init: "pa_inv (ios_pid_allocator_init g_pid_allocator)"
  by (simp add: pa_inv_def buckets_ok_def free_list_ok_def pids_ok_def counts_ok_def refs_ok_def
      ios_pid_allocator_init_def pid_allocator_init_once_def g_pid_allocator_def active_def idle_def)

lemma init_idem [simp]: "pa_once_done s \<Longrightarrow> ios_pid_allocator_init s = s"
  by (simp add: ios_pid_allocator_init_def)

text \<open>
  Changing one context without touching its links, its process id or its allocation flag keeps
  the invariant, as long as an active context keeps a positive reference count.
\<close>

lemma pa_inv_upd:
  assumes s: "pa_inv s" and c: "pa_heap s a = Some c"
    and f: "pc_pid (f c) = pc_pid c" "pc_is_allocated (f c) = pc_is_allocated c"
      "pc_next_free (f c) = pc_next_free c" "pc_next_in_bucket (f c) = pc_next_in_bucket c"
      "pc_is_allocated c \<Longrightarrow> 1 \<le> pc_ref_count (f c)"
    and t: "t = s\<lparr>pa_heap := (pa_heap s)(a \<mapsto> f c)\<rparr>"
  shows "pa_inv t \<and> active t = active s \<and> idle t = idle s"
proof -
  have act: "active t = active s" "idle t = idle s" "dom (pa_heap t) = dom (pa_heap s)"
    using c f t by (auto simp: active_def idle_def)
  have pid: "pc_pid (ctx_at t x) = pc_pid (ctx_at s x)" for x
    using c f t by (simp add: ctx_at_def)
  have ch: "chain (pa_heap t) pc_next_in_bucket p as" if "chain (pa_heap s) pc_next_in_bucket p as" for p as
    using that by (rule chain_cong) (use c f t in simp)
  have ch': "chain (pa_heap t) pc_next_free p as" if "chain (pa_heap s) pc_next_free p as" for p as
    using that by (rule chain_cong) (use c f t in simp)
  have "buckets_ok t"
    using pa_invD(2) [OF s] ch t unfolding buckets_ok_def act(1) pid by fastforce
  moreover have "free_list_ok t"
    using pa_invD(3) [OF s] ch' t unfolding free_list_ok_def act(2) by fastforce
  moreover have "pids_ok t" using pa_invD(4) [OF s] t unfolding pids_ok_def act(3) pid by simp
  moreover have "counts_ok t" using pa_invD(5) [OF s] t unfolding counts_ok_def act by simp
  moreover have "refs_ok t"
    using pa_invD(6) [OF s] c f t by (auto simp: refs_ok_def)
  moreover have "pa_once_done t" using pa_invD(1) [OF s] t by simp
  ultimately show ?thesis using act by (simp add: pa_inv_def)
qed

text \<open>The undisturbed pop takes the head of the free list.\<close>

lemma pop_spec:
  assumes "pa_inv s"
  shows "(idle s = {} \<and> pid_allocator_pop_free_list [] s = Some (None, s)) \<or>
    (\<exists>a c. a \<in> idle s \<and> pa_heap s a = Some c \<and> pa_free_head s = Some a \<and>
      pid_allocator_pop_free_list [] s = Some (Some a,
        s\<lparr>pa_free_head := pc_next_free c, pa_free_size := pa_free_size s - 1,
          pa_heap := (pa_heap s)(a \<mapsto> c\<lparr>pc_next_free := None, pc_is_allocated := True, pc_ref_count := 1\<rparr>)\<rparr>))"
proof -
  from pa_invD(3) [OF assms] obtain as where
    as: "chain (pa_heap s) pc_next_free (pa_free_head s) as" "set as = idle s"
    by (auto simp: free_list_ok_def)
  show ?thesis
  proof (cases as)
    case Nil
    with as show ?thesis by simp
  next
    case (Cons a bs)
    with as show ?thesis by (auto simp: pop_commit_def upd_ctx_def)
  qed
qed

lemma insert_active_spec:
  assumes b: "buckets_ok s" and a: "a \<notin> active s" and c: "pc_is_allocated c"
    and s1: "pa_heap s1 = (pa_heap s)(a \<mapsto> c)" "pa_buckets s1 = pa_buckets s"
    and i: "i = hash_pid (pc_pid c)"
    and s2: "s2 = s1\<lparr>pa_heap := (pa_heap s)(a \<mapsto> c\<lparr>pc_next_in_bucket := pa_buckets s i\<rparr>),
      pa_buckets := (pa_buckets s)(i := Some a)\<rparr>"
  shows "pid_allocator_insert_active a s1 = Some s2 \<and> buckets_ok s2 \<and>
    active s2 = insert a (active s) \<and> idle s2 = idle s - {a}"
proof (intro conjI)
  show "pid_allocator_insert_active a s1 = Some s2"
    using s1 i s2 by (simp add: pid_allocator_insert_active_def upd_ctx_def Let_def)
  show act: "active s2 = insert a (active s)" using c s2 by (auto simp: active_def)
  show "idle s2 = idle s - {a}" using c s2 by (auto simp: idle_def)
  show "buckets_ok s2"
    unfolding buckets_ok_def
  proof (intro allI impI)
    fix j assume "j < PID_HASH_TABLE_SIZE"
    with b obtain as where as: "chain (pa_heap s) pc_next_in_bucket (pa_buckets s j) as"
      "set as = {x \<in> active s. hash_pid (pc_pid (ctx_at s x)) = j}"
      by (auto simp: buckets_ok_def)
    have na: "a \<notin> set as" using as(2) a by auto
    have other: "\<forall>x \<in> active s. ctx_at s2 x = ctx_at s x" using a s2 by (auto simp: ctx_at_def)
    have self: "pc_pid (ctx_at s2 a) = pc_pid c" using s2 by (simp add: ctx_at_def)
    show "\<exists>as. chain (pa_heap s2) pc_next_in_bucket (pa_buckets s2 j) as \<and>
        set as = {x \<in> active s2. hash_pid (pc_pid (ctx_at s2 x)) = j}"
    proof (cases "j = i")
      case True
      then have "chain (pa_heap s2) pc_next_in_bucket (pa_buckets s2 j) (a # as)"
        using as(1) na s2 by simp
      moreover have "set (a # as) = {x \<in> active s2. hash_pid (pc_pid (ctx_at s2 x)) = j}"
        using as(2) act self i True other a by auto
      ultimately show ?thesis by blast
    next
      case False
      then have "chain (pa_heap s2) pc_next_in_bucket (pa_buckets s2 j) as"
        using as(1) na s2 by simp
      moreover have "set as = {x \<in> active s2. hash_pid (pc_pid (ctx_at s2 x)) = j}"
        using as(2) act self i False other a by auto
      ultimately show ?thesis by blast
    qed
  qed
qed

lemma pid_fresh_next:
  assumes "n + 1 \<noteq> INITIAL_PID"
  shows "n - INITIAL_PID < n + 1 - INITIAL_PID"
proof -
  have "n + 1 - INITIAL_PID \<noteq> 0" using assms by simp
  then have "unat (1 + (n - INITIAL_PID)) = Suc (unat (n - INITIAL_PID))"
    using unatSuc [of "n - INITIAL_PID"] by (simp add: algebra_simps)
  then show ?thesis by (simp add: word_less_nat_alt algebra_simps)
qed

lemma pid_fresh_step:
  "x < n - INITIAL_PID \<Longrightarrow> n + 1 \<noteq> INITIAL_PID \<Longrightarrow> x < n + 1 - INITIAL_PID"
  using pid_fresh_next less_trans by blast

lemma new_context_simps [simp]: "pc_pid (new_context p) = p" "pc_is_allocated (new_context p)"
  "pc_ref_count (new_context p) = 1" "pc_thread_id (new_context p) = 0"
  by (simp_all add: new_context_def)

text \<open>Allocation: a recycled context, or a new one with the next process id.\<close>

text \<open>The states an allocation ends in: with the context \<open>c\<close> from the free list, or with a new one.\<close>

definition recycled_state :: "addr \<Rightarrow> ios_pid_context \<Rightarrow> pid_allocator \<Rightarrow> pid_allocator" where
  "recycled_state a c s = s\<lparr>pa_free_head := pc_next_free c, pa_free_size := pa_free_size s - 1,
     pa_heap := (pa_heap s)(a \<mapsto> c\<lparr>pc_next_free := None, pc_is_allocated := True, pc_ref_count := 1,
       pc_next_in_bucket := pa_buckets s (hash_pid (pc_pid c))\<rparr>),
     pa_buckets := (pa_buckets s)(hash_pid (pc_pid c) := Some a),
     pa_currently_active := pa_currently_active s + 1\<rparr>"

definition created_state :: "addr \<Rightarrow> pid_allocator \<Rightarrow> pid_allocator" where
  "created_state a s = s\<lparr>pa_next_pid := pa_next_pid s + 1, pa_total_allocated := pa_total_allocated s + 1,
     pa_heap := (pa_heap s)(a \<mapsto> (new_context (pa_next_pid s))
       \<lparr>pc_next_in_bucket := pa_buckets s (hash_pid (pa_next_pid s))\<rparr>),
     pa_buckets := (pa_buckets s)(hash_pid (pa_next_pid s) := Some a),
     pa_currently_active := pa_currently_active s + 1\<rparr>"

lemma recycled_state_spec:
  assumes s: "pa_inv s" and a: "a \<in> idle s" and c: "pa_heap s a = Some c" and hd: "pa_free_head s = Some a"
    and pop: "pid_allocator_pop_free_list [] s = Some (Some a, s\<lparr>pa_free_head := pc_next_free c, pa_free_size := pa_free_size s - 1,
      pa_heap := (pa_heap s)(a \<mapsto> c\<lparr>pc_next_free := None, pc_is_allocated := True, pc_ref_count := 1\<rparr>)\<rparr>)"
  shows "pid_allocate_body [] mem s = Some (Some a, recycled_state a c s)" and "pa_inv (recycled_state a c s)"
    and "active (recycled_state a c s) = insert a (active s)" and "idle (recycled_state a c s) = idle s - {a}"
proof -
  note inv = pa_invD [OF s]
  let ?c = "c\<lparr>pc_next_free := None, pc_is_allocated := True, pc_ref_count := 1\<rparr>"
  let ?s1 = "s\<lparr>pa_free_head := pc_next_free c, pa_free_size := pa_free_size s - 1, pa_heap := (pa_heap s)(a \<mapsto> ?c)\<rparr>"
  let ?i = "hash_pid (pc_pid c)"
  let ?s2 = "?s1\<lparr>pa_heap := (pa_heap s)(a \<mapsto> ?c\<lparr>pc_next_in_bucket := pa_buckets s ?i\<rparr>),
    pa_buckets := (pa_buckets s)(?i := Some a)\<rparr>"
  let ?s3 = "recycled_state a c s"
  have na: "a \<notin> active s" using a active_idle(1) [of s] by auto
  have ins: "pid_allocator_insert_active a ?s1 = Some ?s2 \<and> buckets_ok ?s2 \<and>
      active ?s2 = insert a (active s) \<and> idle ?s2 = idle s - {a}"
    by (rule insert_active_spec [OF inv(2) na, of ?c]) simp_all
  have s3: "?s3 = ?s2\<lparr>pa_currently_active := pa_currently_active ?s2 + 1\<rparr>" by (simp add: recycled_state_def)
  show body: "pid_allocate_body [] mem s = Some (Some a, ?s3)"
    using pop ins by (simp add: pid_allocate_body_def recycled_state_def)
  show act: "active ?s3 = insert a (active s)" "idle ?s3 = idle s - {a}"
    unfolding s3 using ins by (simp_all only: active_frame)
  have dom: "dom (pa_heap ?s3) = dom (pa_heap s)" using c by (auto simp: recycled_state_def)
  have "buckets_ok ?s3" unfolding s3 using ins by (simp only: buckets_ok_frame)
  moreover from inv(3) obtain as where as: "chain (pa_heap s) pc_next_free (pa_free_head s) as" "set as = idle s"
    by (auto simp: free_list_ok_def)
  then obtain bs where bs: "as = a # bs" "chain (pa_heap s) pc_next_free (pc_next_free c) bs"
    using hd c by (auto simp: chain_Some)
  moreover have "a \<notin> set bs" using chain_distinct [OF as(1)] bs(1) by simp
  ultimately have "buckets_ok ?s3" "chain (pa_heap ?s3) pc_next_free (pa_free_head ?s3) bs" "set bs = idle s - {a}"
    using as(2) by (auto simp: recycled_state_def)
  then have "free_list_ok ?s3" unfolding free_list_ok_def act(2) by blast
  moreover have pid: "pc_pid (ctx_at ?s3 x) = pc_pid (ctx_at s x)" for x
    using c by (simp add: ctx_at_def recycled_state_def)
  have "pids_ok ?s3" using inv(4) unfolding pids_ok_def dom pid by (simp add: recycled_state_def)
  moreover have "counts_ok ?s3"
    using inv(5) na counts_finite [OF inv(5)] int_card_remove [OF counts_finite(2) [OF inv(5)] a] dom
    unfolding counts_ok_def act by (simp add: recycled_state_def)
  moreover have "refs_ok ?s3" using inv(6) by (auto simp: refs_ok_def recycled_state_def)
  ultimately show "pa_inv ?s3" using inv(1) \<open>buckets_ok ?s3\<close> by (simp add: pa_inv_def recycled_state_def)
qed

lemma created_state_spec:
  assumes s: "pa_inv s" and a: "pa_heap s a = None" and idle: "idle s = {}"
    and wrap: "pa_next_pid s + 1 \<noteq> INITIAL_PID" and pop: "pid_allocator_pop_free_list [] s = Some (None, s)"
  shows "pid_allocate_body [] (Some a) s = Some (Some a, created_state a s)" and "pa_inv (created_state a s)"
    and "active (created_state a s) = insert a (active s)" and "idle (created_state a s) = {}"
proof -
  note inv = pa_invD [OF s]
  let ?c = "new_context (pa_next_pid s)"
  let ?s1 = "s\<lparr>pa_next_pid := pa_next_pid s + 1, pa_heap := (pa_heap s)(a \<mapsto> ?c),
    pa_total_allocated := pa_total_allocated s + 1\<rparr>"
  let ?i = "hash_pid (pa_next_pid s)"
  let ?s2 = "?s1\<lparr>pa_heap := (pa_heap s)(a \<mapsto> ?c\<lparr>pc_next_in_bucket := pa_buckets s ?i\<rparr>),
    pa_buckets := (pa_buckets s)(?i := Some a)\<rparr>"
  let ?s3 = "created_state a s"
  have na: "a \<notin> active s" "a \<notin> dom (pa_heap s)" using a by (auto simp: active_def)
  have ins: "pid_allocator_insert_active a ?s1 = Some ?s2 \<and> buckets_ok ?s2 \<and>
      active ?s2 = insert a (active s) \<and> idle ?s2 = idle s - {a}"
    by (rule insert_active_spec [OF inv(2) na(1), of ?c]) simp_all
  have s3: "?s3 = ?s2\<lparr>pa_currently_active := pa_currently_active ?s2 + 1\<rparr>" by (simp add: created_state_def)
  show "pid_allocate_body [] (Some a) s = Some (Some a, ?s3)"
    using pop ins by (simp add: pid_allocate_body_def pid_allocator_create_context_def created_state_def)
  show act: "active ?s3 = insert a (active s)" "idle ?s3 = {}"
    unfolding s3 using ins idle by (simp_all only: active_frame) simp
  have dom: "dom (pa_heap ?s3) = insert a (dom (pa_heap s))" by (simp add: created_state_def)
  have pid: "pc_pid (ctx_at ?s3 x) = (if x = a then pa_next_pid s else pc_pid (ctx_at s x))" for x
    by (simp add: ctx_at_def created_state_def)
  have "buckets_ok ?s3" unfolding s3 using ins by (simp only: buckets_ok_frame)
  moreover have "pa_free_head s = None" using inv(3) idle by (auto simp: free_list_ok_def)
  then have "free_list_ok ?s3" using act(2) by (simp add: free_list_ok_def created_state_def)
  moreover from inv(4) have "\<forall>x \<in> dom (pa_heap s). pc_pid (ctx_at s x) \<noteq> pa_next_pid s"
    unfolding pids_ok_def by (metis less_irrefl)
  then have "pids_ok ?s3"
    using inv(4) na(2) pid_fresh_next [OF wrap] pid_fresh_step [OF _ wrap]
    unfolding pids_ok_def dom pid by (auto simp: inj_on_def created_state_def)
  moreover have "counts_ok ?s3"
    using inv(5) na idle counts_finite [OF inv(5)] unfolding counts_ok_def act by (simp add: created_state_def)
  moreover have "refs_ok ?s3" using inv(6) by (auto simp: refs_ok_def created_state_def)
  ultimately show "pa_inv ?s3" using inv(1) by (simp add: pa_inv_def created_state_def)
qed

lemma allocate_body_spec:
  assumes s: "pa_inv s" and mem: "\<And>a. mem = Some a \<Longrightarrow> pa_heap s a = None"
    and wrap: "pa_next_pid s + 1 \<noteq> INITIAL_PID"
  obtains (recycled) a s' where "pid_allocate_body [] mem s = Some (Some a, s')" "a \<in> idle s"
      "pa_free_head s = Some a" "pa_inv s'"
      "active s' = insert a (active s)" "pc_pid (ctx_at s' a) = pc_pid (ctx_at s a)"
      "\<forall>b \<in> active s. pc_pid (ctx_at s' b) = pc_pid (ctx_at s b)"
      "pc_ref_count (ctx_at s' a) = 1"
      "pc_previous_directory (ctx_at s' a) = pc_previous_directory (ctx_at s a)"
      "pc_parent_pid (ctx_at s' a) = pc_parent_pid (ctx_at s a)"
      "pa_cleanup_counter s' = pa_cleanup_counter s" "\<forall>x. x \<noteq> a \<longrightarrow> pa_heap s' x = pa_heap s x"
      "pa_free_head s' = pc_next_free (ctx_at s a)" "pa_next_pid s' = pa_next_pid s"
  | (created) a s' where "pid_allocate_body [] mem s = Some (Some a, s')" "idle s = {}"
      "mem = Some a" "pa_inv s'" "active s' = insert a (active s)" "a \<notin> dom (pa_heap s)"
      "pc_pid (ctx_at s' a) = pa_next_pid s"
      "\<forall>b \<in> active s. pc_pid (ctx_at s' b) = pc_pid (ctx_at s b)"
      "pc_ref_count (ctx_at s' a) = 1"
      "pa_cleanup_counter s' = pa_cleanup_counter s" "\<forall>x. x \<noteq> a \<longrightarrow> pa_heap s' x = pa_heap s x"
      "pa_free_head s' = pa_free_head s" "idle s' = {}" "pa_next_pid s' = pa_next_pid s + 1"
      "pa_initialized s' = pa_initialized s"
  | (failed) s' where "pid_allocate_body [] mem s = Some (None, s')" "idle s = {}" "mem = None"
      "pa_inv s'" "active s' = active s" "\<forall>b \<in> active s. pc_pid (ctx_at s' b) = pc_pid (ctx_at s b)"
      "pa_cleanup_counter s' = pa_cleanup_counter s"
proof -
  note inv = pa_invD [OF s]
  from pop_spec [OF s] show thesis
  proof (elim disjE conjE exE)
    fix a c
    assume a: "a \<in> idle s" and c: "pa_heap s a = Some c" and hd: "pa_free_head s = Some a"
      and pop: "pid_allocator_pop_free_list [] s = Some (Some a, s\<lparr>pa_free_head := pc_next_free c,
        pa_free_size := pa_free_size s - 1,
        pa_heap := (pa_heap s)(a \<mapsto> c\<lparr>pc_next_free := None, pc_is_allocated := True, pc_ref_count := 1\<rparr>)\<rparr>)"
    have "a \<notin> active s" using a active_idle(1) [of s] by auto
    with recycled_state_spec [OF s a c hd pop] a hd c show thesis
      by (intro recycled [of a "recycled_state a c s"]) (auto simp: ctx_at_def recycled_state_def)
  next
    assume idle: "idle s = {}" and pop: "pid_allocator_pop_free_list [] s = Some (None, s)"
    show thesis
    proof (cases mem)
      case None
      let ?s = "s\<lparr>pa_next_pid := pa_next_pid s + 1\<rparr>"
      have "pa_inv ?s"
        using inv pid_fresh_step [OF _ wrap]
        by (auto simp: pa_inv_def free_list_ok_def pids_ok_def counts_ok_def refs_ok_def)
      then show thesis
        using failed [of ?s] None idle pop
        by (simp add: pid_allocate_body_def pid_allocator_create_context_def active_def)
    next
      case (Some a)
      with created_state_spec [OF s mem [OF Some] idle wrap pop] mem [OF Some] idle show thesis
        by (intro created [of a "created_state a s"]) (auto simp: ctx_at_def created_state_def active_def)
    qed
  qed
qed

lemma active_pid_inj:
  "pids_ok s \<Longrightarrow> a \<in> active s \<Longrightarrow> b \<in> active s \<Longrightarrow> pc_pid (ctx_at s a) = pc_pid (ctx_at s b) \<Longrightarrow> a = b"
  unfolding pids_ok_def inj_on_def active_def by blast

lemma lookup_spec:
  assumes s: "pa_inv s"
  shows "a \<in> active s \<Longrightarrow> pc_pid (ctx_at s a) = pid \<Longrightarrow>
      ios_pid_lookup pid s = Some (Some a, s\<lparr>pa_heap := (pa_heap s)
        (a \<mapsto> (ctx_at s a)\<lparr>pc_ref_count := pc_ref_count (ctx_at s a) + 1\<rparr>)\<rparr>)"
    and "\<forall>a \<in> active s. pc_pid (ctx_at s a) \<noteq> pid \<Longrightarrow> ios_pid_lookup pid s = Some (None, s)"
proof -
  note inv = pa_invD [OF s]
  from inv(2) obtain as where
    as: "chain (pa_heap s) pc_next_in_bucket (pa_buckets s (hash_pid pid)) as"
      "set as = {a \<in> active s. hash_pid (pc_pid (ctx_at s a)) = hash_pid pid}"
    unfolding buckets_ok_def by (meson hash_pid_less)
  { assume a: "a \<in> active s" "pc_pid (ctx_at s a) = pid"
    have "find (\<lambda>a. pc_pid (the (pa_heap s a)) = pid \<and> pc_is_allocated (the (pa_heap s a))) as = Some a"
    proof (rule find_unique)
      show "a \<in> set as" using as(2) a by simp
      show "pc_pid (the (pa_heap s a)) = pid \<and> pc_is_allocated (the (pa_heap s a))"
        using a by (auto simp: active_def ctx_at_def)
      fix y assume "y \<in> set as" "pc_pid (the (pa_heap s y)) = pid \<and> pc_is_allocated (the (pa_heap s y))"
      then have "y \<in> active s" "pc_pid (ctx_at s y) = pc_pid (ctx_at s a)"
        using as(2) a by (auto simp: ctx_at_def)
      then show "y = a" using active_pid_inj [OF inv(4)] a(1) by simp
    qed
    with chain_find_eq [OF as(1)] a show "ios_pid_lookup pid s = Some (Some a, s\<lparr>pa_heap := (pa_heap s)
        (a \<mapsto> (ctx_at s a)\<lparr>pc_ref_count := pc_ref_count (ctx_at s a) + 1\<rparr>)\<rparr>)"
      by (auto simp: ios_pid_lookup_def inv(1) active_def upd_ctx_def ctx_at_def) }
  { assume "\<forall>a \<in> active s. pc_pid (ctx_at s a) \<noteq> pid"
    then have "find (\<lambda>a. pc_pid (the (pa_heap s a)) = pid \<and> pc_is_allocated (the (pa_heap s a))) as = None"
      using as(2) by (auto simp: find_None_iff ctx_at_def)
    with chain_find_eq [OF as(1)] show "ios_pid_lookup pid s = Some (None, s)"
      by (simp add: ios_pid_lookup_def inv(1)) }
qed


definition strip_link :: "ios_pid_context \<Rightarrow> ios_pid_context" where
  "strip_link c = c\<lparr>pc_next_in_bucket := None\<rparr>"

lemma strip_link_upd [simp]:
  "strip_link (c\<lparr>pc_next_in_bucket := n\<rparr>) = strip_link c"
  by (simp add: strip_link_def)

lemma strip_linkD:
  assumes "map_option strip_link u = Some (strip_link c)"
  obtains n where "u = Some (c\<lparr>pc_next_in_bucket := n\<rparr>)"
proof -
  from assms obtain d where "u = Some d" "strip_link d = strip_link c" by auto
  then have "u = Some (c\<lparr>pc_next_in_bucket := pc_next_in_bucket d\<rparr>)"
    by (cases c; cases d) (simp add: strip_link_def)
  then show thesis by (rule that)
qed

lemma strip_link_field:
  assumes "map_option strip_link u = map_option strip_link v" and "\<And>c. g (strip_link c) = g c"
  shows "map_option g u = map_option g v"
  using assms by (cases u; cases v) (auto, metis)

lemma strip_link_simps [simp]:
  "pc_pid (strip_link c) = pc_pid c" "pc_is_allocated (strip_link c) = pc_is_allocated c"
  "pc_next_free (strip_link c) = pc_next_free c" "pc_ref_count (strip_link c) = pc_ref_count c"
  by (simp_all add: strip_link_def)

lemma active_iff: "x \<in> active s \<longleftrightarrow> map_option pc_is_allocated (pa_heap s x) = Some True"
  by (auto simp: active_def)

lemma idle_iff: "x \<in> idle s \<longleftrightarrow> map_option pc_is_allocated (pa_heap s x) = Some False"
  by (auto simp: idle_def)

lemma buckets_ok_upd:
  assumes b: "buckets_ok s" and c: "pa_heap s a = Some c"
    and f: "pc_pid (f c) = pc_pid c" "pc_is_allocated (f c) = pc_is_allocated c"
      "pc_next_in_bucket (f c) = pc_next_in_bucket c"
    and t: "t = s\<lparr>pa_heap := (pa_heap s)(a \<mapsto> f c)\<rparr>"
  shows "buckets_ok t \<and> active t = active s"
proof -
  have act: "active t = active s" using c f t by (auto simp: active_def)
  have pid: "pc_pid (ctx_at t x) = pc_pid (ctx_at s x)" for x
    using c f t by (simp add: ctx_at_def)
  have ch: "chain (pa_heap t) pc_next_in_bucket p as" if "chain (pa_heap s) pc_next_in_bucket p as" for p as
    using that by (rule chain_cong) (use c f t in simp)
  show ?thesis using b ch t act unfolding buckets_ok_def act pid by fastforce
qed

text \<open>The addresses on the chain of one bucket.\<close>

definition bucket_chain :: "pid_allocator \<Rightarrow> nat \<Rightarrow> addr list \<Rightarrow> bool" where
  "bucket_chain s j as \<longleftrightarrow> chain (pa_heap s) pc_next_in_bucket (pa_buckets s j) as \<and>
     set as = {x \<in> active s. hash_pid (pc_pid (ctx_at s x)) = j}"

lemma buckets_ok_chain: "buckets_ok s \<longleftrightarrow> (\<forall>j < PID_HASH_TABLE_SIZE. \<exists>as. bucket_chain s j as)"
  by (simp add: buckets_ok_def bucket_chain_def)

text \<open>When only contexts of one bucket change, the chains of the other buckets stay.\<close>

lemma chains_without:
  assumes b: "buckets_ok s" and as: "bucket_chain s i as" and a: "a \<in> set as"
    and h: "\<And>x. x \<notin> set as \<Longrightarrow> h x = pa_heap s x" and bs: "\<And>j. j \<noteq> i \<Longrightarrow> bs j = pa_buckets s j"
    and ch: "chain h pc_next_in_bucket (bs i) as'" and as': "set as' = set as - {a}"
  shows "\<forall>j < PID_HASH_TABLE_SIZE. \<exists>as. chain h pc_next_in_bucket (bs j) as \<and>
    set as = {x \<in> active s - {a}. hash_pid (pc_pid (ctx_at s x)) = j}"
proof (intro allI impI)
  fix j assume "j < PID_HASH_TABLE_SIZE"
  with b obtain cs where cs: "bucket_chain s j cs" by (auto simp: buckets_ok_chain)
  show "\<exists>as. chain h pc_next_in_bucket (bs j) as \<and>
    set as = {x \<in> active s - {a}. hash_pid (pc_pid (ctx_at s x)) = j}"
  proof (cases "j = i")
    case True
    have "set as' = {x \<in> active s - {a}. hash_pid (pc_pid (ctx_at s x)) = i}"
      using as as' by (auto simp: bucket_chain_def)
    with ch True show ?thesis by blast
  next
    case False
    then have disj: "set cs \<inter> set as = {}" using as cs by (auto simp: bucket_chain_def)
    have "chain (pa_heap s) pc_next_in_bucket (bs j) cs" using cs bs [OF False] by (simp add: bucket_chain_def)
    moreover have "h x = pa_heap s x" if "x \<in> set cs" for x using h disj that by blast
    ultimately have "chain h pc_next_in_bucket (bs j) cs" by (auto elim: chain_cong)
    moreover have "set cs = {x \<in> active s - {a}. hash_pid (pc_pid (ctx_at s x)) = j}"
      using cs disj a by (auto simp: bucket_chain_def)
    ultimately show ?thesis by blast
  qed
qed

lemma remove_active_spec:
  assumes b: "buckets_ok s" and a: "a \<in> active s"
  obtains h bs where "pid_allocator_remove_active a s = Some (s\<lparr>pa_heap := h, pa_buckets := bs\<rparr>)"
    "\<forall>x. map_option strip_link (h x) = map_option strip_link (pa_heap s x)"
    "\<forall>j < PID_HASH_TABLE_SIZE. \<exists>as. chain h pc_next_in_bucket (bs j) as \<and>
       set as = {x \<in> active s - {a}. hash_pid (pc_pid (ctx_at s x)) = j}"
proof -
  from a obtain c where c: "pa_heap s a = Some c" by (auto simp: active_def)
  let ?i = "hash_pid (pc_pid c)"
  obtain as where as: "bucket_chain s ?i as" using b hash_pid_less by (metis buckets_ok_chain)
  have mem: "a \<in> set as" using as a c by (simp add: bucket_chain_def ctx_at_def)
  have ch: "chain (pa_heap s) pc_next_in_bucket (pa_buckets s ?i) as" using as by (simp add: bucket_chain_def)
  from mem obtain xs ys where split: "as = xs @ a # ys" "a \<notin> set xs" by (meson split_list_first)
  have dist: "distinct as" using ch by (rule chain_distinct)
  have tw: "takeWhile (\<lambda>x. x \<noteq> a) as = xs" using split by (simp add: takeWhile_tail) (metis append.right_neutral takeWhile_append2 takeWhile.simps)
  note find = find_link_eq [of "pa_heap s" pc_next_in_bucket "pa_buckets s ?i" as a HeadLink]
  show thesis
  proof (cases xs rule: rev_cases)
    case Nil
    let ?h = "(pa_heap s)(a \<mapsto> c\<lparr>pc_next_in_bucket := None\<rparr>)"
    let ?bs = "(pa_buckets s)(?i := pc_next_in_bucket c)"
    have "chain ?h pc_next_in_bucket (?bs ?i) ys" "set ys = set as - {a}"
      using ch c dist Nil split(1) by auto
    then have "\<forall>j < PID_HASH_TABLE_SIZE. \<exists>as. chain ?h pc_next_in_bucket (?bs j) as \<and>
      set as = {x \<in> active s - {a}. hash_pid (pc_pid (ctx_at s x)) = j}"
      using chains_without [OF b as mem, of ?h ?bs ys] mem by fastforce
    moreover have "pid_allocator_remove_active a s = Some (s\<lparr>pa_heap := ?h, pa_buckets := ?bs\<rparr>)"
      using c mem tw Nil find ch by (simp add: pid_allocator_remove_active_def upd_ctx_def)
    ultimately show thesis using c by (intro that [of ?bs ?h]) simp_all
  next
    case (snoc zs b')
    have "b' \<in> dom (pa_heap s)" using ch split(1) snoc chain_in_dom by fastforce
    then obtain n where n: "pa_heap s b' = Some n" by blast
    have ab: "a \<noteq> b'" using split(2) snoc by simp
    let ?h1 = "(pa_heap s)(b' \<mapsto> n\<lparr>pc_next_in_bucket := pc_next_in_bucket c\<rparr>)"
    let ?h = "?h1(a \<mapsto> c\<lparr>pc_next_in_bucket := None\<rparr>)"
    have "chain ?h1 pc_next_in_bucket (pa_buckets s ?i) (zs @ b' # ys)"
      by (rule chain_unlink [where a = a and c = c]) (use ch split(1) snoc c n in simp_all)
    then have "chain ?h pc_next_in_bucket (pa_buckets s ?i) (zs @ b' # ys)" "set (zs @ b' # ys) = set as - {a}"
      using dist split(1) snoc by auto
    then have "\<forall>j < PID_HASH_TABLE_SIZE. \<exists>as. chain ?h pc_next_in_bucket (pa_buckets s j) as \<and>
      set as = {x \<in> active s - {a}. hash_pid (pc_pid (ctx_at s x)) = j}"
    proof (intro chains_without [OF b as mem])
      show "?h x = pa_heap s x" if "x \<notin> set as" for x using that split(1) snoc by auto
    qed (rule refl)
    moreover have "(case xs of [] \<Rightarrow> HeadLink | y # ys \<Rightarrow> NextOf (last (y # ys))) = NextOf b'"
      unfolding snoc by (cases zs) simp_all
    then have "pid_allocator_remove_active a s = Some (s\<lparr>pa_heap := ?h, pa_buckets := pa_buckets s\<rparr>)"
      using c n ab mem tw find ch by (simp add: pid_allocator_remove_active_def upd_ctx_def)
    ultimately show thesis using c n by (intro that [of "pa_buckets s" ?h]) simp_all
  qed
qed

text \<open>
  Releasing a reference: with others left only the count drops; the last one moves the context
  from its bucket to the head of the free list.
\<close>

lemma release_shared:
  assumes s: "pa_inv s" and c: "pa_heap s a = Some c" and alloc: "pc_is_allocated c"
    and n: "1 < pc_ref_count c"
    and t: "t = s\<lparr>pa_heap := (pa_heap s)(a \<mapsto> c\<lparr>pc_ref_count := pc_ref_count c - 1\<rparr>)\<rparr>"
  shows "ios_pid_release fs (Some a) s = Some t" "pa_inv t" "active t = active s"
  using pa_inv_upd [OF s c, of "\<lambda>c. c\<lparr>pc_ref_count := pc_ref_count c - 1\<rparr>" t] c n t
  by (simp_all add: ios_pid_release_def upd_ctx_def)

text \<open>
  The state after the context \<open>a\<close> was unlinked from its bucket (heap \<open>h\<close>, bucket heads \<open>bs\<close>) and pushed
  on the free list as \<open>d\<close>.
\<close>

definition retired_state :: "addr \<Rightarrow> ios_pid_context \<Rightarrow> (addr \<rightharpoonup> ios_pid_context) \<Rightarrow> (nat \<Rightarrow> addr option) \<Rightarrow> pid_allocator \<Rightarrow> pid_allocator" where
  "retired_state a d h bs s = s\<lparr>pa_heap := h(a \<mapsto> d), pa_buckets := bs, pa_currently_active := pa_currently_active s - 1,
     pa_free_head := Some a, pa_free_size := pa_free_size s + 1\<rparr>"

lemma retired_state_views:
  assumes c: "pa_heap s a = Some c" and d: "pc_pid d = pc_pid c" "\<not> pc_is_allocated d"
    and h: "\<forall>x. x \<noteq> a \<longrightarrow> map_option strip_link (h x) = map_option strip_link (pa_heap s x)"
    and t: "t = retired_state a d h bs s"
  shows "dom (pa_heap t) = dom (pa_heap s)" and "active t = active s - {a}" and "idle t = insert a (idle s)"
    and "\<And>x. x \<in> dom (pa_heap s) \<Longrightarrow> pc_pid (ctx_at t x) = pc_pid (ctx_at s x)"
proof -
  note fields = strip_link_field [OF mp [OF spec [OF h]]]
  have heap: "pa_heap t x = (if x = a then Some d else h x)" for x by (simp add: t retired_state_def)
  have "x \<in> dom (pa_heap t) \<longleftrightarrow> x \<in> dom (pa_heap s)" for x
    using fields [of x "\<lambda>_. ()"] c heap [of x] by (cases "x = a"; cases "h x"; cases "pa_heap s x") auto
  then show dom: "dom (pa_heap t) = dom (pa_heap s)" by blast
  have "(x \<in> active t \<longleftrightarrow> x \<in> active s - {a}) \<and> (x \<in> idle t \<longleftrightarrow> x \<in> insert a (idle s))" for x
    using fields [of x pc_is_allocated] c d heap [of x] by (cases "x = a") (simp_all add: active_iff idle_iff)
  then show "active t = active s - {a}" "idle t = insert a (idle s)" by blast+
  show "pc_pid (ctx_at t x) = pc_pid (ctx_at s x)" if "x \<in> dom (pa_heap s)" for x
    using fields [of x pc_pid] c d that heap [of x] by (cases "x = a") (auto simp: ctx_at_def)
qed

lemma retired_state_inv:
  assumes s: "pa_inv s" and a: "a \<in> active s" and c: "pa_heap s a = Some c"
    and d: "pc_pid d = pc_pid c" "\<not> pc_is_allocated d" "pc_next_free d = pa_free_head s"
    and h: "\<forall>x. x \<noteq> a \<longrightarrow> map_option strip_link (h x) = map_option strip_link (pa_heap s x)"
    and ch: "\<forall>j < PID_HASH_TABLE_SIZE. \<exists>as. chain h pc_next_in_bucket (bs j) as \<and>
       set as = {x \<in> active s - {a}. hash_pid (pc_pid (ctx_at s x)) = j}"
    and t: "t = retired_state a d h bs s"
  shows "pa_inv t"
proof -
  note inv = pa_invD [OF s]
  note views = retired_state_views [OF c d(1,2) h t]
  note fields = strip_link_field [OF mp [OF spec [OF h]]]
  have act_pid: "pc_pid (ctx_at t x) = pc_pid (ctx_at s x)" if "x \<in> active s" for x
    using that by (intro views(4)) (auto simp: active_def)
  have "\<exists>as. bucket_chain t j as" if "j < PID_HASH_TABLE_SIZE" for j
  proof -
    from ch that obtain as where as: "chain h pc_next_in_bucket (bs j) as"
      "set as = {x \<in> active s - {a}. hash_pid (pc_pid (ctx_at s x)) = j}" by blast
    have "set as = {x \<in> active t. hash_pid (pc_pid (ctx_at t x)) = j}"
      unfolding views(2) as(2) by (rule Collect_cong) (metis DiffD1 act_pid)
    moreover have "a \<notin> set as" unfolding as(2) by simp
    then have "chain (pa_heap t) pc_next_in_bucket (pa_buckets t j) as" using as(1) by (simp add: t retired_state_def)
    ultimately show ?thesis unfolding bucket_chain_def by blast
  qed
  then have "buckets_ok t" by (simp add: buckets_ok_chain)
  moreover from inv(3) obtain as where as: "chain (pa_heap s) pc_next_free (pa_free_head s) as" "set as = idle s"
    by (auto simp: free_list_ok_def)
  have "a \<notin> set as" using as(2) a active_idle(1) [of s] by auto
  then have "chain (pa_heap t) pc_next_free (pa_free_head s) as"
    using as(1) by (intro chain_cong [OF as(1)]) (use fields [of _ pc_next_free] in \<open>auto simp: t retired_state_def\<close>)
  then have "chain (pa_heap t) pc_next_free (pa_free_head t) (a # as)" using d(3) by (simp add: t retired_state_def)
  then have "free_list_ok t" using as(2) unfolding free_list_ok_def views(3) by (metis list.simps(15))
  moreover have "pids_ok t" using inv(4) views(4) unfolding pids_ok_def views(1) inj_on_def by (simp add: t retired_state_def)
  moreover have "counts_ok t"
    using inv(5) a counts_finite [OF inv(5)] int_card_remove [OF counts_finite(1) [OF inv(5)] a] active_idle(1) [of s]
    unfolding counts_ok_def views(1-3) by (auto simp: card_insert_if t retired_state_def)
  moreover have "1 \<le> pc_ref_count e" if "pa_heap t x = Some e" "pc_is_allocated e" for x e
    using that inv(6) d(2) fields [of x pc_ref_count] fields [of x pc_is_allocated]
    by (cases "x = a"; cases "pa_heap s x") (auto simp: refs_ok_def t retired_state_def)
  then have "refs_ok t" unfolding refs_ok_def by blast
  ultimately show ?thesis using inv(1) by (simp add: pa_inv_def t retired_state_def)
qed

lemma release_last:
  assumes s: "pa_inv s" and a: "a \<in> active s" and n: "pc_ref_count (ctx_at s a) = 1"
  obtains t where "ios_pid_release [] (Some a) s = Some t" "pa_inv t"
    "active t = active s - {a}" "idle t = insert a (idle s)" "pa_free_head t = Some a"
    "\<And>x. x \<in> dom (pa_heap s) \<Longrightarrow> pc_pid (ctx_at t x) = pc_pid (ctx_at s x)"
    "\<And>x. x \<noteq> a \<Longrightarrow> map_option strip_link (pa_heap t x) = map_option strip_link (pa_heap s x)"
    "pc_environment (ctx_at t a) = None" "pc_thread_id (ctx_at t a) = 0"
    "pc_previous_directory (ctx_at t a) = pc_previous_directory (ctx_at s a)"
    "pc_parent_pid (ctx_at t a) = pc_parent_pid (ctx_at s a)" "pa_next_pid t = pa_next_pid s"
    "pa_cleanup_counter t = pa_cleanup_counter s" "pc_next_free (ctx_at t a) = pa_free_head s"
    "pa_initialized t = pa_initialized s"
proof -
  from a obtain c where c: "pa_heap s a = Some c" by (auto simp: active_def)
  let ?c0 = "c\<lparr>pc_ref_count := 0\<rparr>"
  let ?s0 = "s\<lparr>pa_heap := (pa_heap s)(a \<mapsto> ?c0)\<rparr>"
  have b0: "buckets_ok ?s0" "active ?s0 = active s"
    using buckets_ok_upd [OF pa_invD(2) [OF s] c, of "\<lambda>c. c\<lparr>pc_ref_count := 0\<rparr>"] by simp_all
  have pid0: "pc_pid (ctx_at ?s0 x) = pc_pid (ctx_at s x)" for x using c by (simp add: ctx_at_def)
  obtain bs h where r: "pid_allocator_remove_active a ?s0 = Some (?s0\<lparr>pa_heap := h, pa_buckets := bs\<rparr>)"
    and h: "\<forall>x. map_option strip_link (h x) = map_option strip_link (pa_heap ?s0 x)"
    and ch: "\<forall>j < PID_HASH_TABLE_SIZE. \<exists>as. chain h pc_next_in_bucket (bs j) as \<and>
       set as = {x \<in> active s - {a}. hash_pid (pc_pid (ctx_at s x)) = j}"
    by (rule remove_active_spec [OF b0(1), unfolded b0(2) pid0, OF a])
  obtain ln where ha: "h a = Some (?c0\<lparr>pc_next_in_bucket := ln\<rparr>)"
    using strip_linkD [of "h a" ?c0] spec [OF h, of a] by auto
  let ?d = "(push_clean (?c0\<lparr>pc_next_in_bucket := ln\<rparr>))\<lparr>pc_next_free := pa_free_head s\<rparr>"
  let ?t = "retired_state a ?d h bs s"
  have rel: "ios_pid_release [] (Some a) s = Some ?t"
    using c n r ha by (simp add: ios_pid_release_def upd_ctx_def ctx_at_def pid_allocator_push_free_list_def retired_state_def)
  have d: "pc_pid ?d = pc_pid c" "\<not> pc_is_allocated ?d" "pc_next_free ?d = pa_free_head s"
    by (simp_all add: push_clean_def)
  have hx: "\<forall>x. x \<noteq> a \<longrightarrow> map_option strip_link (h x) = map_option strip_link (pa_heap s x)" using h by simp
  note views = retired_state_views [OF c d(1,2) hx refl]
  note inv = retired_state_inv [OF s a c d hx ch refl]
  show thesis
    by (rule that [OF rel inv views(2,3) _ views(4)])
      (use c hx in \<open>simp_all add: ctx_at_def push_clean_def retired_state_def\<close>)
qed

lemma allocate_no_cleanup:
  assumes "pa_inv s" and "pa_cleanup_counter s \<le> 0"
  shows "ios_pid_allocate ws fs mem s =
    (case pid_allocate_body fs mem s of None \<Rightarrow> Crash | Some (ctx, s2) \<Rightarrow> Returns ctx s2)"
  using assms pa_invD(1) [OF assms(1)] by (cases ws) (simp_all add: ios_pid_allocate_def)

definition active_pids :: "pid_allocator \<Rightarrow> pid_t set" where
  "active_pids s = (\<lambda>a. pc_pid (ctx_at s a)) ` active s"

lemma idle_pid_fresh:
  assumes "pa_inv s" and "a \<in> idle s"
  shows "pc_pid (ctx_at s a) \<notin> active_pids s"
proof
  assume "pc_pid (ctx_at s a) \<in> active_pids s"
  then obtain b where b: "b \<in> active s" "pc_pid (ctx_at s a) = pc_pid (ctx_at s b)"
    by (auto simp: active_pids_def)
  moreover have "a \<in> dom (pa_heap s)" "b \<in> dom (pa_heap s)"
    using assms(2) b(1) active_idle(2) [of s] by blast+
  ultimately have "a = b" using pa_invD(4) [OF assms(1)] unfolding pids_ok_def inj_on_def by blast
  with assms(2) b(1) active_idle(1) [of s] show False by blast
qed

lemma next_pid_fresh:
  assumes "pa_inv s"
  shows "pa_next_pid s \<notin> active_pids s"
  using pa_invD(4) [OF assms] active_idle(2) [of s]
  unfolding pids_ok_def active_pids_def by (force dest: bspec)

lemma active_pids_insert:
  "active s' = insert a (active s) \<Longrightarrow> \<forall>b \<in> active s. pc_pid (ctx_at s' b) = pc_pid (ctx_at s b) \<Longrightarrow>
   active_pids s' = insert (pc_pid (ctx_at s' a)) (active_pids s)"
  by (auto simp: active_pids_def)

lemma active_pids_remove:
  assumes "pa_inv s" and "a \<in> active s" and "active t = active s - {a}"
    and "\<And>x. x \<in> dom (pa_heap s) \<Longrightarrow> pc_pid (ctx_at t x) = pc_pid (ctx_at s x)"
  shows "active_pids t = active_pids s - {pc_pid (ctx_at s a)}"
proof -
  have "active_pids t = (\<lambda>x. pc_pid (ctx_at s x)) ` (active s - {a})"
    unfolding active_pids_def assms(3)
    by (rule image_cong) (use assms(4) active_idle(2) [of s] in blast)+
  also have "\<dots> = active_pids s - {pc_pid (ctx_at s a)}"
    unfolding active_pids_def
    using active_pid_inj [OF pa_invD(4) [OF assms(1)]] assms(2) by (auto simp: image_iff)
  finally show ?thesis .
qed

lemma active_ref_count: "pa_inv s \<Longrightarrow> a \<in> active s \<Longrightarrow> 1 \<le> pc_ref_count (ctx_at s a)"
  using pa_invD(6) [of s] by (auto simp: refs_ok_def active_def ctx_at_def)

text \<open>
  With no cleanup in progress an allocation returns, keeps the invariant, and hands out a
  context that was not active under a process id no active context has, with one reference, a
  recycled context when the free list has one and a new one otherwise; without memory it returns
  \<^verbatim>\<open>NULL\<close> and no context becomes active.
\<close>

theorem allocate_hands_out_fresh_pid:
  assumes "pa_inv s" and "pa_cleanup_counter s \<le> 0" and "pa_next_pid s + 1 \<noteq> INITIAL_PID"
    and "\<forall>a. mem = Some a \<longrightarrow> pa_heap s a = None"
  shows "\<exists>ctx s'. ios_pid_allocate ws [] mem s = Returns ctx s' \<and> pa_inv s' \<and>
    (case ctx of
       None \<Rightarrow> mem = None \<and> idle s = {} \<and> active_pids s' = active_pids s
     | Some a \<Rightarrow> a \<in> (if idle s = {} then set_option mem else idle s) \<and>
         active s' = insert a (active s) \<and> pc_pid (ctx_at s' a) \<notin> active_pids s \<and>
         active_pids s' = insert (pc_pid (ctx_at s' a)) (active_pids s) \<and>
         pc_ref_count (ctx_at s' a) = 1)"
proof -
  have mem: "mem = Some a \<Longrightarrow> pa_heap s a = None" for a using assms(4) by simp
  show ?thesis
  proof (rule allocate_body_spec [OF assms(1) _ assms(3), of mem], goal_cases)
    case (1 a)
    then show ?case by (rule mem)
  next
    case (2 a s')
    then show ?case
      using idle_pid_fresh [OF assms(1)] active_pids_insert [of s' a s] allocate_no_cleanup [OF assms(1,2)]
      by auto
  next
    case (3 a s')
    then show ?case
      using next_pid_fresh [OF assms(1)] active_pids_insert [of s' a s] allocate_no_cleanup [OF assms(1,2)]
      by auto
  next
    case (4 s')
    then show ?case
      using allocate_no_cleanup [OF assms(1,2)] by (auto simp: active_pids_def)
  qed
qed

text \<open>
  A lookup never fails on a well-formed table: it returns the one active context with the
  process id asked for, with one more reference, and \<^verbatim>\<open>NULL\<close> exactly when no active context has
  it; the invariant and the set of active contexts are kept.
\<close>

theorem lookup_finds_exactly_the_active:
  assumes "pa_inv s"
  shows "\<exists>r s'. ios_pid_lookup pid s = Some (r, s') \<and> pa_inv s' \<and> active s' = active s \<and>
    (case r of None \<Rightarrow> pid \<notin> active_pids s \<and> s' = s
     | Some a \<Rightarrow> a \<in> active s \<and> pc_pid (ctx_at s a) = pid \<and>
         pc_ref_count (ctx_at s' a) = pc_ref_count (ctx_at s a) + 1)"
proof (cases "\<exists>a \<in> active s. pc_pid (ctx_at s a) = pid")
  case True
  then obtain a where a: "a \<in> active s" "pc_pid (ctx_at s a) = pid" by blast
  then have c: "pa_heap s a = Some (ctx_at s a)" "pc_is_allocated (ctx_at s a)"
    by (auto simp: active_def ctx_at_def)
  have "1 \<le> pc_ref_count (ctx_at s a)" using c pa_invD(6) [OF assms] by (simp add: refs_ok_def)
  then have "pa_inv (s\<lparr>pa_heap := (pa_heap s)(a \<mapsto> (ctx_at s a)\<lparr>pc_ref_count := pc_ref_count (ctx_at s a) + 1\<rparr>)\<rparr>) \<and>
    active (s\<lparr>pa_heap := (pa_heap s)(a \<mapsto> (ctx_at s a)\<lparr>pc_ref_count := pc_ref_count (ctx_at s a) + 1\<rparr>)\<rparr>) = active s"
    using pa_inv_upd [OF assms c(1), of "\<lambda>c. c\<lparr>pc_ref_count := pc_ref_count c + 1\<rparr>"] by simp
  with lookup_spec(1) [OF assms a] a show ?thesis
    by (simp add: ctx_at_def [of "s\<lparr>pa_heap := _\<rparr>"])
next
  case False
  with lookup_spec(2) [OF assms] assms show ?thesis by (auto simp: active_pids_def)
qed

text \<open>
  Releasing a reference of an active context never fails and keeps the invariant. While other
  references are left only the count drops; the last release takes exactly this context out of
  the active ones, drops its environment and thread, and puts it at the head of the free list.
\<close>

theorem release_drops_one_reference:
  assumes "pa_inv s" and "a \<in> active s"
  shows "\<exists>s'. ios_pid_release [] (Some a) s = Some s' \<and> pa_inv s' \<and>
    (if pc_ref_count (ctx_at s a) > 1
     then active s' = active s \<and> pc_ref_count (ctx_at s' a) = pc_ref_count (ctx_at s a) - 1
     else active s' = active s - {a} \<and> active_pids s' = active_pids s - {pc_pid (ctx_at s a)} \<and>
       pa_free_head s' = Some a \<and> pc_environment (ctx_at s' a) = None \<and> pc_thread_id (ctx_at s' a) = 0)"
proof -
  from assms(2) have c: "pa_heap s a = Some (ctx_at s a)" "pc_is_allocated (ctx_at s a)"
    by (auto simp: active_def ctx_at_def)
  show ?thesis
  proof (cases "pc_ref_count (ctx_at s a) > 1")
    case True
    with release_shared(1) [OF assms(1) c True refl, of "[]"] release_shared(2,3) [OF assms(1) c True refl]
    show ?thesis
      by (simp add: ctx_at_def [of "s\<lparr>pa_heap := _\<rparr>"])
  next
    case False
    with active_ref_count [OF assms] have n: "pc_ref_count (ctx_at s a) = 1" by simp
    show ?thesis
    proof (rule release_last [OF assms n], goal_cases)
      case (1 t)
      then show ?case using False active_pids_remove [OF assms, of t] by (intro exI [of _ t]) simp
    qed
  qed
qed

section \<open>The pool of process ids\<close>

text \<open>
  What a client of the pool sees: an undisturbed allocation that returns a context with the
  process id, and the release of the last reference to the context of a process id.
\<close>

definition pid_acquire :: "pid_allocator \<Rightarrow> pid_t \<Rightarrow> pid_allocator \<Rightarrow> bool" where
  "pid_acquire s p s' \<longleftrightarrow> (\<exists>ws mem a. pa_cleanup_counter s \<le> 0 \<and> pa_next_pid s + 1 \<noteq> INITIAL_PID \<and>
     (\<forall>x. mem = Some x \<longrightarrow> pa_heap s x = None) \<and>
     ios_pid_allocate ws [] mem s = Returns (Some a) s' \<and> ios_pid_get_id (Some a) s' = Some p)"

definition pid_retire :: "pid_allocator \<Rightarrow> pid_t \<Rightarrow> pid_allocator \<Rightarrow> bool" where
  "pid_retire s p s' \<longleftrightarrow> (\<exists>a. a \<in> active s \<and> ios_pid_get_id (Some a) s = Some p \<and>
     pc_ref_count (ctx_at s a) = 1 \<and> ios_pid_release [] (Some a) s = Some s')"

lemma get_id_active: "a \<in> active s \<Longrightarrow> ios_pid_get_id (Some a) s = Some (pc_pid (ctx_at s a))"
  by (auto simp: active_def ios_pid_get_id_def get_field_def ctx_at_def)

lemma pid_acquire_spec:
  assumes s: "pa_inv s" and acq: "pid_acquire s p s'"
  shows "p \<notin> active_pids s \<and> active_pids s' = insert p (active_pids s) \<and> pa_inv s'"
proof -
  from acq obtain ws mem a where r: "pa_cleanup_counter s \<le> 0" "pa_next_pid s + 1 \<noteq> INITIAL_PID"
    "\<And>x. mem = Some x \<Longrightarrow> pa_heap s x = None"
    "ios_pid_allocate ws [] mem s = Returns (Some a) s'" "ios_pid_get_id (Some a) s' = Some p"
    by (auto simp: pid_acquire_def)
  note alloc = allocate_no_cleanup [OF s r(1), of ws "[]" mem]
  show ?thesis
  proof (rule allocate_body_spec [OF s _ r(2), of mem], goal_cases)
    case (1 a)
    then show ?case by (rule r(3))
  next
    case (2 b t)
    then show ?case
      using r(4,5) alloc idle_pid_fresh [OF s, of b] active_pids_insert [of t b s] get_id_active [of b t] by auto
  next
    case (3 b t)
    then show ?case
      using r(4,5) alloc next_pid_fresh [OF s] active_pids_insert [of t b s] get_id_active [of b t] by auto
  next
    case (4 t)
    then show ?case using r(4) alloc by simp
  qed
qed

lemma pid_retire_spec:
  assumes s: "pa_inv s" and rel: "pid_retire s p s'"
  shows "active_pids s' = active_pids s - {p} \<and> pa_inv s'"
proof -
  from rel obtain a where a: "a \<in> active s" "pc_pid (ctx_at s a) = p" "pc_ref_count (ctx_at s a) = 1"
    "ios_pid_release [] (Some a) s = Some s'"
    by (auto simp: pid_retire_def get_id_active)
  show ?thesis
    by (rule release_last [OF s a(1,3)]) (use a active_pids_remove [OF s a(1)] in auto)
qed

interpretation pids: id_pool pa_inv active_pids pid_acquire pid_retire
  by unfold_locales (use pid_acquire_spec pid_retire_spec in blast)+

text \<open>
  C2: in every sequence of undisturbed allocations and last releases from the initialised
  allocator, no process id is held twice, and the ids held are exactly those of the active
  contexts.
\<close>

theorem pids_never_shared:
  assumes "pool_run pid_acquire pid_retire (ios_pid_allocator_init g_pid_allocator) [] s held"
  shows "distinct held \<and> set held = active_pids s \<and> pa_inv s"
  using pids.run_exclusive [OF assms pa_inv_init]
  by (simp add: active_pids_def active_def ios_pid_allocator_init_def pid_allocator_init_once_def
      g_pid_allocator_def)

lemma active_ctx: "a \<in> active s \<Longrightarrow> pa_heap s a = Some (ctx_at s a)"
  by (auto simp: active_def ctx_at_def)

lemma idle_ctx: "a \<in> idle s \<Longrightarrow> pa_heap s a = Some (ctx_at s a)"
  by (auto simp: idle_def ctx_at_def)

section \<open>Shutdown\<close>

lemma free_chain_eq:
  "chain h nx p as \<Longrightarrow> free_chain nx p h = Some (h |` (- set as))"
proof (induction as arbitrary: p h)
  case Nil
  then show ?case by (simp add: free_chain.simps)
next
  case (Cons a as)
  then obtain c where c: "p = Some a" "h a = Some c" "chain h nx (nx c) as" by auto
  have "a \<notin> set as" using chain_distinct [OF Cons.prems] by simp
  with c(3) have "chain (h(a := None)) nx (nx c) as" by simp
  note IH = Cons.IH [OF this]
  have step: "free_chain nx p h = free_chain nx (nx c) (h(a := None))"
    using c(1,2) by (subst free_chain.simps) simp
  have "(h(a := None)) |` (- set as) = h |` (- set (a # as))"
    by (auto simp: restrict_map_def fun_eq_iff)
  with IH step show ?case by (simp only:)
qed

text \<open>Freeing the chains \<open>i, \<dots>, i + n - 1\<close> frees the contexts whose bucket is one of them.\<close>

lemma free_buckets_eq:
  assumes "\<And>j. i \<le> j \<Longrightarrow> j < i + n \<Longrightarrow> \<exists>as. chain (pa_heap s) pc_next_in_bucket (pa_buckets s j) as \<and>
       set as = {x \<in> A. f x = j}"
  shows "\<exists>b. free_buckets n i s =
    Some (s\<lparr>pa_heap := pa_heap s |` (- {x \<in> A. i \<le> f x \<and> f x < i + n}), pa_buckets := b\<rparr>)"
  using assms
proof (induction n arbitrary: i s)
  case 0
  have "s\<lparr>pa_heap := pa_heap s |` UNIV, pa_buckets := pa_buckets s\<rparr> = s"
    by (cases s) (simp add: restrict_map_def)
  then show ?case by (intro exI [of _ "pa_buckets s"]) auto
next
  case (Suc n)
  from Suc.prems [of i] obtain as where
    as: "chain (pa_heap s) pc_next_in_bucket (pa_buckets s i) as" "set as = {x \<in> A. f x = i}" by auto
  let ?s = "s\<lparr>pa_heap := pa_heap s |` (- {x \<in> A. f x = i}), pa_buckets := (pa_buckets s)(i := None)\<rparr>"
  have ch: "\<exists>as. chain (pa_heap ?s) pc_next_in_bucket (pa_buckets ?s j) as \<and> set as = {x \<in> A. f x = j}"
    if "Suc i \<le> j" "j < Suc i + n" for j
  proof -
    from Suc.prems [of j] that obtain bs where
      bs: "chain (pa_heap s) pc_next_in_bucket (pa_buckets s j) bs" "set bs = {x \<in> A. f x = j}" by auto
    have "chain (pa_heap ?s) pc_next_in_bucket (pa_buckets s j) bs"
      using bs(1) by (rule chain_cong) (use bs(2) that in \<open>auto simp: restrict_map_def\<close>)
    with bs(2) that show ?thesis by (intro exI [of _ bs]) simp
  qed
  from Suc.IH [OF ch] obtain b where b: "free_buckets n (Suc i) ?s =
    Some (?s\<lparr>pa_heap := pa_heap ?s |` (- {x \<in> A. Suc i \<le> f x \<and> f x < Suc i + n}), pa_buckets := b\<rparr>)" by blast
  have eq: "(- {x \<in> A. f x = i}) \<inter> (- {x \<in> A. Suc i \<le> f x \<and> f x < Suc i + n}) =
    - {x \<in> A. i \<le> f x \<and> f x < i + Suc n}" by auto
  show ?case
    using b free_chain_eq [OF as(1)] as(2) unfolding eq [symmetric]
    by (intro exI [of _ b]) (simp add: restrict_map_insert)
qed

lemma shutdown_frees_all:
  assumes s: "pa_inv s" and "pa_initialized s"
  shows "\<exists>b. ios_pid_allocator_shutdown s =
    Some (s\<lparr>pa_heap := Map.empty, pa_buckets := b, pa_initialized := False\<rparr>)"
proof -
  note inv = pa_invD [OF s]
  let ?h = "pa_heap s |` (- active s)"
  have "\<exists>b. free_buckets PID_HASH_TABLE_SIZE 0 s = Some (s\<lparr>pa_heap := pa_heap s |`
      (- {x \<in> active s. 0 \<le> hash_pid (pc_pid (ctx_at s x)) \<and> hash_pid (pc_pid (ctx_at s x)) < 0 + PID_HASH_TABLE_SIZE}),
      pa_buckets := b\<rparr>)"
    by (rule free_buckets_eq) (use inv(2) in \<open>auto simp: buckets_ok_def\<close>)
  then obtain b where b: "free_buckets PID_HASH_TABLE_SIZE 0 s = Some (s\<lparr>pa_heap := ?h, pa_buckets := b\<rparr>)"
    by auto
  from inv(3) obtain as where as: "chain (pa_heap s) pc_next_free (pa_free_head s) as" "set as = idle s"
    by (auto simp: free_list_ok_def)
  have "chain ?h pc_next_free (pa_free_head s) as"
    using as(1) by (rule chain_cong) (use as(2) active_idle(1) [of s] in \<open>auto simp: restrict_map_def\<close>)
  from free_chain_eq [OF this] have "free_chain pc_next_free (pa_free_head s) ?h = Some (?h |` (- idle s))"
    using as(2) by simp
  moreover have "?h |` (- idle s) = Map.empty"
    using active_idle(2) [of s] by (auto simp: restrict_map_def fun_eq_iff)
  ultimately show ?thesis
    using assms(2) b by (intro exI [of _ b]) (simp add: ios_pid_allocator_shutdown_def)
qed

text \<open>
  The shutdown of a well-formed allocator follows no freed pointer and frees every context.
  The head of the free list and the once-flag survive it, so when a context was idle the next
  allocation follows the head into freed memory instead of starting afresh.
\<close>

theorem shutdown_leaves_dangling_free_list:
  assumes "pa_inv s" and "pa_initialized s"
  shows "\<exists>t. ios_pid_allocator_shutdown s = Some t \<and> pa_heap t = Map.empty \<and>
    (idle s \<noteq> {} \<and> pa_cleanup_counter s \<le> 0 \<longrightarrow> ios_pid_allocate ws [] mem t = Crash)"
proof -
  from shutdown_frees_all [OF assms] obtain b where
    b: "ios_pid_allocator_shutdown s = Some (s\<lparr>pa_heap := Map.empty, pa_buckets := b, pa_initialized := False\<rparr>)"
    by blast
  have "pa_free_head s \<noteq> None" if "idle s \<noteq> {}"
    using that pa_invD(3) [OF assms(1)] by (auto simp: free_list_ok_def)
  moreover have "pid_allocate_body [] mem t = None" if "pa_heap t = Map.empty" "pa_free_head t \<noteq> None" for t
    using that by (auto simp: pid_allocate_body_def)
  ultimately show ?thesis
    using b pa_invD(1) [OF assms(1)] by (cases ws) (simp_all add: ios_pid_allocate_def)
qed

text \<open>
  An allocation does not get past a cleanup in progress: it blocks as long as the counter is
  positive, and goes on as soon as the other threads' last \<^verbatim>\<open>ios_pid_end_cleanup\<close> brings it to zero.
\<close>

theorem allocate_waits_for_cleanup:
  assumes "pa_once_done s" and "pa_cleanup_counter s = int n"
  shows "ios_pid_allocate (replicate k (snd \<circ> ios_pid_end_cleanup)) fs mem s =
    (if k < n then Blocked (s\<lparr>pa_cleanup_counter := int (n - k)\<rparr>)
     else ios_pid_allocate [] fs mem (s\<lparr>pa_cleanup_counter := 0\<rparr>))"
proof -
  have "ios_pid_wait_for_cleanup (replicate k (snd \<circ> ios_pid_end_cleanup)) s =
    (if k < n then Blocked (s\<lparr>pa_cleanup_counter := int (n - k)\<rparr>)
     else Returns () (s\<lparr>pa_cleanup_counter := 0\<rparr>))"
    using assms(2)
  proof (induction k arbitrary: s n)
    case 0
    then show ?case by (cases n) (auto intro: pid_allocator.equality)
  next
    case (Suc k)
    show ?case
    proof (cases n)
      case 0
      with Suc.prems show ?thesis by (simp add: pid_allocator.equality)
    next
      case (Suc m)
      have "pa_cleanup_counter (snd (ios_pid_end_cleanup s)) = int m"
        using Suc.prems Suc by (simp add: ios_pid_end_cleanup_def)
      from Suc.IH [OF this] Suc.prems Suc show ?thesis
        by (auto simp: ios_pid_end_cleanup_def)
    qed
  qed
  then show ?thesis using assms by (simp add: ios_pid_allocate_def)
qed

text \<open>
  A recycled context comes back under its old process id with the previous directory and the
  parent process id of its former owner: the clean-up before recycling resets neither.
\<close>

theorem recycled_context_keeps_directory_and_parent:
  assumes "pa_inv s" and "a \<in> active s" and "pc_ref_count (ctx_at s a) = 1"
    and "pa_cleanup_counter s \<le> 0" and "pa_next_pid s + 1 \<noteq> INITIAL_PID"
  shows "\<exists>t u. ios_pid_release [] (Some a) s = Some t \<and>
    ios_pid_allocate [] [] None t = Returns (Some a) u \<and>
    ios_pid_get_id (Some a) u = ios_pid_get_id (Some a) s \<and>
    ios_pid_get_previous_dir (Some a) u = ios_pid_get_previous_dir (Some a) s \<and>
    ios_pid_get_parent (Some a) u = ios_pid_get_parent (Some a) s"
proof (rule release_last [OF assms(1-3)], goal_cases)
  case (1 t)
  have wrap: "pa_next_pid t + 1 \<noteq> INITIAL_PID" and cleanup: "pa_cleanup_counter t \<le> 0"
    using 1 assms by simp_all
  have dom: "a \<in> dom (pa_heap s)" using assms(2) active_idle(2) [of s] by blast
  show ?case
  proof (rule allocate_body_spec [OF 1(2) _ wrap, of None], goal_cases)
    case (2 b u)
    moreover have "b = a" using 2 1 by simp
    moreover have "a \<in> active u" using 2 \<open>b = a\<close> by simp
    moreover note active_ctx [OF assms(2)] active_ctx [OF \<open>a \<in> active u\<close>]
    ultimately show ?thesis
      using 1 dom allocate_no_cleanup [OF 1(2) cleanup, of "[]" "[]" None]
      by (intro exI [of _ t] exI [of _ u])
        (simp add: ios_pid_get_id_def ios_pid_get_previous_dir_def ios_pid_get_parent_def get_field_def)
  qed (use 1 in simp_all)
qed


section \<open>Concurrent pops of the free list\<close>

definition after_allocate :: "addr option \<Rightarrow> pid_allocator \<Rightarrow> pid_allocator" where
  "after_allocate mem s = (case ios_pid_allocate [] [] mem s of Returns _ s' \<Rightarrow> s' | _ \<Rightarrow> s)"

definition after_release :: "addr \<Rightarrow> pid_allocator \<Rightarrow> pid_allocator" where
  "after_release a s = (case ios_pid_release [] (Some a) s of Some s' \<Rightarrow> s' | None \<Rightarrow> s)"

text \<open>One undisturbed allocation with a context on the free list.\<close>

lemma after_allocate_recycled:
  assumes s: "pa_inv s" "pa_cleanup_counter s \<le> 0" "pa_next_pid s + 1 \<noteq> INITIAL_PID"
    and hd: "pa_free_head s = Some a"
  shows "pa_inv (after_allocate None s)" "pa_cleanup_counter (after_allocate None s) \<le> 0"
    "pa_next_pid (after_allocate None s) + 1 \<noteq> INITIAL_PID"
    "pa_free_head (after_allocate None s) = pc_next_free (ctx_at s a)"
    "active (after_allocate None s) = insert a (active s)"
    "pc_ref_count (ctx_at (after_allocate None s) a) = 1"
    "\<forall>x. x \<noteq> a \<longrightarrow> pa_heap (after_allocate None s) x = pa_heap s x"
proof (atomize (full), rule allocate_body_spec [OF s(1) _ s(3), of None], goal_cases)
  case (2 b t)
  then have "after_allocate None s = t"
    using allocate_no_cleanup [OF s(1,2), of "[]" "[]" None] by (simp add: after_allocate_def)
  with 2 s hd show ?case by simp
next
  case (4 t)
  have "pa_free_head s = None" using 4(2) pa_invD(3) [OF s(1)] by (auto simp: free_list_ok_def)
  with hd show ?case by simp
qed simp_all

text \<open>
  The compare-and-swap of the pop only looks at the head, so it misses a change that puts the
  same head back. When, between the read of the head and the swap, another thread allocates the
  first two contexts of the free list and releases the first one again, the swap succeeds with
  the stale successor: the second context, in use by the other thread, becomes the head of the
  free list although it is active, and the next allocation hands it out a second time.
\<close>

theorem pop_misses_changed_successor:
  assumes s: "pa_inv s" "pa_cleanup_counter s \<le> 0" "pa_next_pid s + 1 \<noteq> INITIAL_PID"
    and hd: "pa_free_head s = Some a" "pa_heap s a = Some c" "pc_next_free c = Some b"
    and other: "other = after_release a \<circ> after_allocate None \<circ> after_allocate None"
  shows "\<exists>u. ios_pid_allocate ws [other] None s = Returns (Some a) u \<and> pa_free_head u = Some b \<and>
    b \<in> active u \<and> (\<exists>v. ios_pid_allocate ws [] None u = Returns (Some b) v)"
proof -
  define s1 where "s1 = after_allocate None s"
  define s2 where "s2 = after_allocate None s1"
  note f1 = after_allocate_recycled [OF s hd(1), folded s1_def]
  have ctx: "ctx_at s a = c" using hd(2) by (simp add: ctx_at_def)
  have ab: "a \<noteq> b"
  proof -
    from pa_invD(3) [OF s(1)] obtain as where "chain (pa_heap s) pc_next_free (Some a) as"
      by (auto simp: free_list_ok_def hd(1))
    then have "chain (pa_heap s) pc_next_free (Some a) (a # b # tl (tl as))"
      using hd(2,3) by (auto simp: chain_Some)
    from chain_distinct [OF this] show ?thesis by simp
  qed
  have hd1: "pa_free_head s1 = Some b" using f1(4) ctx hd(3) by simp
  note f2 = after_allocate_recycled [OF f1(1-3) hd1, folded s2_def]
  have a2: "a \<in> active s2" using f1(5) f2(5) by simp
  have n2: "pc_ref_count (ctx_at s2 a) = 1" using f2(7) f1(6) ab by (simp add: ctx_at_def)
  obtain t where t: "ios_pid_release [] (Some a) s2 = Some t" "active t = active s2 - {a}"
    "pa_free_head t = Some a" "a \<in> idle t" "pa_cleanup_counter t = pa_cleanup_counter s2" "pa_once_done t"
    by (rule release_last [OF f2(1) a2 n2]) (auto dest: pa_invD(1))
  have o: "other s = t" using t(1) other by (simp add: after_release_def s1_def s2_def)
  obtain d where d: "pa_heap t a = Some d" "\<not> pc_is_allocated d" using t(4) by (auto simp: idle_def)
  have "b \<in> active t" using t(2) f2(5) ab by simp
  then obtain e where e: "pa_heap t b = Some e" "pc_is_allocated e" by (auto simp: active_def)
  let ?d = "d\<lparr>pc_next_free := None, pc_is_allocated := True, pc_ref_count := 1\<rparr>"
  let ?i = "hash_pid (pc_pid d)"
  let ?u = "t\<lparr>pa_free_head := Some b, pa_free_size := pa_free_size t - 1,
    pa_heap := (pa_heap t)(a \<mapsto> ?d\<lparr>pc_next_in_bucket := pa_buckets t ?i\<rparr>),
    pa_buckets := (pa_buckets t)(?i := Some a), pa_currently_active := pa_currently_active t + 1\<rparr>"
  have "ios_pid_allocate ws [other] None s = Returns (Some a) ?u"
    using hd d o t(3) unfolding allocate_no_cleanup [OF s(1,2)]
    by (simp add: pid_allocate_body_def pop_commit_def upd_ctx_def pid_allocator_insert_active_def Let_def)
  moreover have "b \<in> active ?u" using e ab by (simp add: active_def)
  moreover have "\<exists>v. ios_pid_allocate ws [] None ?u = Returns (Some b) v"
    using t(5,6) f2(2) e ab
    by (cases ws) (simp_all add: ios_pid_allocate_def pid_allocate_body_def pop_commit_def upd_ctx_def
      pid_allocator_insert_active_def Let_def)
  ultimately show ?thesis by (intro exI [of _ ?u]) simp
qed


section \<open>Concrete states\<close>

definition one_active :: pid_allocator where
  "one_active = after_allocate (Some 1) (ios_pid_allocator_init g_pid_allocator)"

definition two_active :: pid_allocator where
  "two_active = after_allocate (Some 2) one_active"

definition two_idle :: pid_allocator where
  "two_idle = after_release 1 (after_release 2 two_active)"

lemma after_allocate_created:
  assumes s: "pa_inv s" "pa_cleanup_counter s \<le> 0" "pa_next_pid s + 1 \<noteq> INITIAL_PID"
    and "idle s = {}" "pa_heap s a = None" and t: "t = after_allocate (Some a) s"
  shows "pa_inv t \<and> active t = insert a (active s) \<and> idle t = {} \<and> pc_ref_count (ctx_at t a) = 1 \<and>
    pa_cleanup_counter t = pa_cleanup_counter s \<and> pa_next_pid t = pa_next_pid s + 1 \<and>
    pa_free_head t = pa_free_head s \<and> pa_initialized t = pa_initialized s \<and>
    (\<forall>x. x \<noteq> a \<longrightarrow> pa_heap t x = pa_heap s x)"
proof (rule allocate_body_spec [OF s(1) _ s(3), of "Some a"], goal_cases)
  case (3 b u)
  then have "t = u"
    using allocate_no_cleanup [OF s(1,2), of "[]" "[]" "Some a"] t by (simp add: after_allocate_def)
  with 3 show ?case by simp
qed (use assms in simp_all)

lemma after_release_last:
  assumes "pa_inv s" and "a \<in> active s" and "pc_ref_count (ctx_at s a) = 1" and t: "t = after_release a s"
  shows "pa_inv t \<and> active t = active s - {a} \<and> idle t = insert a (idle s) \<and> pa_free_head t = Some a \<and>
    pc_next_free (ctx_at t a) = pa_free_head s \<and> pa_next_pid t = pa_next_pid s \<and>
    pa_cleanup_counter t = pa_cleanup_counter s \<and> pa_initialized t = pa_initialized s \<and>
    (\<forall>x. x \<noteq> a \<longrightarrow> map_option strip_link (pa_heap t x) = map_option strip_link (pa_heap s x))"
  by (rule release_last [OF assms(1-3)]) (use t in \<open>auto simp: after_release_def\<close>)

lemma one_active_facts:
  "pa_inv one_active" "active one_active = {1}" "idle one_active = {}" "pc_ref_count (ctx_at one_active 1) = 1"
  "pa_cleanup_counter one_active = 0" "pa_next_pid one_active = 101" "pa_free_head one_active = None"
  "pa_initialized one_active" "pa_heap one_active 2 = None"
proof (atomize (full), goal_cases)
  case 1
  let ?s = "ios_pid_allocator_init g_pid_allocator"
  have "pa_cleanup_counter ?s = 0" "pa_next_pid ?s = 100" "idle ?s = {}" "active ?s = {}"
    "pa_heap ?s = Map.empty" "pa_free_head ?s = None" "pa_initialized ?s"
    by (simp_all add: idle_def active_def ios_pid_allocator_init_def pid_allocator_init_once_def
      g_pid_allocator_def INITIAL_PID_def)
  then show ?case
    using after_allocate_created [OF pa_inv_init, of 1 one_active]
    by (simp add: one_active_def INITIAL_PID_def)
qed

lemma two_active_facts:
  "pa_inv two_active" "active two_active = {1, 2}" "idle two_active = {}"
  "pc_ref_count (ctx_at two_active 1) = 1" "pc_ref_count (ctx_at two_active 2) = 1"
  "pa_cleanup_counter two_active = 0" "pa_next_pid two_active = 102" "pa_free_head two_active = None"
  "pa_initialized two_active"
  using after_allocate_created [OF one_active_facts(1), of 2 two_active] one_active_facts
  by (simp_all add: two_active_def INITIAL_PID_def ctx_at_def insert_commute)

lemma two_idle_facts:
  "pa_inv two_idle" "active two_idle = {}" "idle two_idle = {1, 2}" "pa_free_head two_idle = Some 1"
  "pc_next_free (ctx_at two_idle 1) = Some 2" "pa_cleanup_counter two_idle = 0"
  "pa_next_pid two_idle = 102" "pa_initialized two_idle"
proof (atomize (full), goal_cases)
  case 1
  define m where "m = after_release 2 two_active"
  have m: "pa_inv m \<and> active m = {1} \<and> idle m = {2} \<and> pa_free_head m = Some 2 \<and>
    pa_next_pid m = 102 \<and> pa_cleanup_counter m = 0 \<and> pa_initialized m \<and>
    map_option strip_link (pa_heap m 1) = map_option strip_link (pa_heap two_active 1)"
    using after_release_last [OF two_active_facts(1), of 2 m] two_active_facts m_def by auto
  have "map_option pc_ref_count (pa_heap m 1) = map_option pc_ref_count (pa_heap two_active 1)"
    using m by (auto intro: strip_link_field)
  then have "pc_ref_count (ctx_at m 1) = 1"
    using two_active_facts(2,4) active_ctx [of 1 m] active_ctx [of 1 two_active] m by simp
  then show ?case
    using m after_release_last [of m 1 two_idle] by (simp add: two_idle_def m_def)
qed


lemma one_active_acquired: "pid_acquire (ios_pid_allocator_init g_pid_allocator) 100 one_active"
proof -
  let ?s = "ios_pid_allocator_init g_pid_allocator"
  have s: "pa_cleanup_counter ?s = 0" "pa_next_pid ?s = 100" "idle ?s = {}" "pa_heap ?s = Map.empty"
    by (simp_all add: idle_def ios_pid_allocator_init_def pid_allocator_init_once_def
      g_pid_allocator_def INITIAL_PID_def)
  show ?thesis
  proof (rule allocate_body_spec [OF pa_inv_init, of "Some 1"], goal_cases)
    case (4 a u)
    then have r: "ios_pid_allocate [] [] (Some 1) ?s = Returns (Some 1) u"
      using s allocate_no_cleanup [OF pa_inv_init, of "[]" "[]" "Some 1"] by simp
    moreover have "u = one_active" using r by (simp add: one_active_def after_allocate_def)
    moreover have "ios_pid_get_id (Some 1) u = Some 100" using 4 s get_id_active [of 1 u] by simp
    ultimately show ?thesis using s unfolding pid_acquire_def
      by (intro exI [of _ "[]"] exI [of _ "Some 1"] exI [of _ 1]) (simp add: INITIAL_PID_def)
  qed (use s in \<open>simp_all add: INITIAL_PID_def\<close>)
qed

theorem allocate_hands_out_fresh_pid_witness:
  "pa_inv two_active \<and> (\<exists>ctx s'. ios_pid_allocate [] [] (Some 3) two_active = Returns ctx s' \<and> pa_inv s' \<and>
    (\<exists>a. ctx = Some a \<and> a = 3 \<and> pc_pid (ctx_at s' a) \<notin> active_pids two_active))"
proof -
  have "3 \<notin> dom (pa_heap two_active)"
    unfolding active_idle(2) [symmetric] two_active_facts(2,3) by simp
  then have "pa_heap two_active 3 = None" by blast
  then show ?thesis
    using allocate_hands_out_fresh_pid [of two_active "Some 3" "[]"] two_active_facts
    by (auto simp: INITIAL_PID_def split: option.splits)
qed

theorem lookup_finds_exactly_the_active_witness:
  "pa_inv two_active \<and> (\<exists>r s'. ios_pid_lookup 7 two_active = Some (r, s') \<and> pa_inv s' \<and>
     active s' = active two_active)"
  using lookup_finds_exactly_the_active [OF two_active_facts(1), of 7] two_active_facts(1) by blast

theorem release_drops_one_reference_witness:
  "pa_inv one_active \<and> 1 \<in> active one_active \<and>
   (\<exists>s'. ios_pid_release [] (Some 1) one_active = Some s' \<and> active s' = {} \<and> pa_free_head s' = Some 1)"
  using release_drops_one_reference [OF one_active_facts(1), of 1] one_active_facts by auto

theorem pids_never_shared_witness:
  "pool_run pid_acquire pid_retire (ios_pid_allocator_init g_pid_allocator) [] one_active [100] \<and>
   active_pids one_active = {100}"
proof -
  have "pool_run pid_acquire pid_retire (ios_pid_allocator_init g_pid_allocator) [] one_active [100]"
    by (rule pool_acquire [where s' = "ios_pid_allocator_init g_pid_allocator"])
      (rule pool_start, rule one_active_acquired)
  with pids_never_shared [OF this] show ?thesis by simp
qed

theorem shutdown_leaves_dangling_free_list_witness:
  "pa_inv two_idle \<and> pa_initialized two_idle \<and>
   (\<exists>t. ios_pid_allocator_shutdown two_idle = Some t \<and> pa_heap t = Map.empty \<and>
      ios_pid_allocate [] [] (Some 3) t = Crash)"
  using shutdown_leaves_dangling_free_list [OF two_idle_facts(1,8), of "[]" "Some 3"] two_idle_facts by auto

theorem allocate_waits_for_cleanup_witness:
  "ios_pid_allocate [snd \<circ> ios_pid_end_cleanup] [] (Some 1)
     (ios_pid_begin_cleanup (ios_pid_begin_cleanup (ios_pid_allocator_init g_pid_allocator))) =
   Blocked (ios_pid_begin_cleanup (ios_pid_allocator_init g_pid_allocator))"
  using allocate_waits_for_cleanup
    [of "ios_pid_begin_cleanup (ios_pid_begin_cleanup (ios_pid_allocator_init g_pid_allocator))" 2 1 "[]" "Some 1"]
  by (simp add: ios_pid_begin_cleanup_def ios_pid_allocator_init_def pid_allocator_init_once_def
      g_pid_allocator_def)

theorem recycled_context_keeps_directory_and_parent_witness:
  "\<exists>t u. ios_pid_release [] (Some 1) one_active = Some t \<and>
    ios_pid_allocate [] [] None t = Returns (Some 1) u \<and>
    ios_pid_get_parent (Some 1) u = ios_pid_get_parent (Some 1) one_active"
  using recycled_context_keeps_directory_and_parent [OF one_active_facts(1), of 1] one_active_facts
  by (auto simp: INITIAL_PID_def)

theorem pop_misses_changed_successor_witness:
  "\<exists>u. ios_pid_allocate [] [after_release 1 \<circ> after_allocate None \<circ> after_allocate None] None two_idle =
      Returns (Some 1) u \<and> pa_free_head u = Some 2 \<and> 2 \<in> active u"
proof -
  have "pa_heap two_idle 1 = Some (ctx_at two_idle 1)"
    using two_idle_facts(3) idle_ctx [of 1 two_idle] by simp
  from pop_misses_changed_successor [OF two_idle_facts(1) _ _ two_idle_facts(4) this two_idle_facts(5) refl, of "[]"]
  show ?thesis using two_idle_facts by (auto simp: INITIAL_PID_def)
qed

end
