(* ===== verification/Interpreter_Pool.thy ===== *)
theory Interpreter_Pool
  imports Interfaces
begin

unbundle bit_operations_syntax

text \<open>
  The interpreter slots of \<^verbatim>\<open>ios_interpreter_pool.c\<close>: per interpreter type a 32-bit map of the
  slots in use, updated by compare-and-swap, and a counting semaphore that lets at most
  \<^verbatim>\<open>max_slots\<close> threads through to the map.

  The atomic operations are steps. A compare-and-swap loop takes a list of interferences, what
  the other threads do to the pool between the read and the swap of each attempt (for the weak
  compare-and-swap also whether it fails spuriously); with the list used up the operation is
  undisturbed. The semaphore is its count; waiting takes a schedule of wake-ups. Locking a
  destroyed mutex and shifting a 32-bit word by 32 are undefined: \<open>Crash\<close> and \<open>None\<close>.
\<close>

section \<open>State\<close>

type_synonym ios_interpreter_type = nat

definition IOS_INTERP_MAX :: ios_interpreter_type where
  "IOS_INTERP_MAX = 6"

definition MAX_SLOTS_PER_TYPE :: nat where
  "MAX_SLOTS_PER_TYPE = 32"

record interpreter_pool =
  ip_max_slots :: nat
  ip_slot_bitmap :: u32
  ip_semaphore :: "int option"
  ip_wait_count :: int
  ip_config_mutex :: bool
  ip_initialized :: bool

record ios_interp_slot_handle =
  sh_type :: ios_interpreter_type
  sh_slot_number :: nat

record interp_manager =
  im_pools :: "ios_interpreter_type \<Rightarrow> interpreter_pool"
  im_once_done :: bool
  im_manager_initialized :: bool

type_synonym disturb = "interpreter_pool \<Rightarrow> interpreter_pool"

definition get_default_pool_size :: "ios_interpreter_type \<Rightarrow> nat" where
  "get_default_pool_size ty =
     (if ty = 0 then 6 else if ty = 1 then 4 else if ty = 2 then 2 else if ty = 3 then 6
      else if ty = 4 then 2 else if ty = 5 then 1 else 1)"

definition ios_interp_type_name :: "ios_interpreter_type \<Rightarrow> string" where
  "ios_interp_type_name ty =
     (if ty = 0 then ''Python'' else if ty = 1 then ''Perl'' else if ty = 2 then ''TeX''
      else if ty = 3 then ''Dash'' else if ty = 4 then ''SSH'' else if ty = 5 then ''Curl''
      else ''Unknown'')"

section \<open>Initialisation and shutdown\<close>

definition empty_pool :: interpreter_pool where
  "empty_pool = \<lparr>ip_max_slots = 0, ip_slot_bitmap = 0, ip_semaphore = None, ip_wait_count = 0,
     ip_config_mutex = True, ip_initialized = False\<rparr>"

definition interp_pool_init_once :: "interp_manager \<Rightarrow> interp_manager" where
  "interp_pool_init_once g =
     g\<lparr>im_pools := (\<lambda>i. if i < IOS_INTERP_MAX then empty_pool else im_pools g i),
       im_manager_initialized := True\<rparr>"

definition ios_interp_pool_init :: "interp_manager \<Rightarrow> interp_manager" where
  "ios_interp_pool_init g =
     (if im_once_done g then g else (interp_pool_init_once g)\<lparr>im_once_done := True\<rparr>)"

definition set_pool :: "ios_interpreter_type \<Rightarrow> interpreter_pool \<Rightarrow> interp_manager \<Rightarrow> interp_manager" where
  "set_pool ty p g = g\<lparr>im_pools := (im_pools g)(ty := p)\<rparr>"

text \<open>\<open>sem_ok\<close> tells whether \<^verbatim>\<open>dispatch_semaphore_create\<close> succeeds.\<close>

definition interp_pool_init_type ::
  "bool \<Rightarrow> ios_interpreter_type \<Rightarrow> int \<Rightarrow> interp_manager \<Rightarrow> (int, interp_manager) exec" where
  "interp_pool_init_type sem_ok ty max_slots g =
     (if ty \<ge> IOS_INTERP_MAX \<or> max_slots \<le> 0 \<or> max_slots > int MAX_SLOTS_PER_TYPE then Returns (- 1) g
      else let p = im_pools g ty in
           if \<not> ip_config_mutex p then Crash
           else if ip_initialized p then Returns 0 g
           else let p1 = p\<lparr>ip_max_slots := nat max_slots, ip_slot_bitmap := 0,
                           ip_semaphore := (if sem_ok then Some max_slots else None)\<rparr>
                in if \<not> sem_ok then Returns (- 1) (set_pool ty p1 g)
                   else Returns 0 (set_pool ty (p1\<lparr>ip_initialized := True\<rparr>) g))"

definition shutdown_pool :: "interpreter_pool \<Rightarrow> interpreter_pool" where
  "shutdown_pool p =
     (let p1 = (if ip_semaphore p \<noteq> None then p\<lparr>ip_initialized := False\<rparr> else p)
      in p1\<lparr>ip_config_mutex := False\<rparr>)"

definition ios_interp_pool_shutdown :: "interp_manager \<Rightarrow> (unit, interp_manager) exec" where
  "ios_interp_pool_shutdown g =
     (if \<not> im_manager_initialized g then Returns () g
      else if \<exists>i < IOS_INTERP_MAX. \<not> ip_config_mutex (im_pools g i) then Crash
      else Returns ()
        (g\<lparr>im_pools := (\<lambda>i. if i < IOS_INTERP_MAX then shutdown_pool (im_pools g i) else im_pools g i),
           im_manager_initialized := False\<rparr>))"

definition ios_interp_pool_configure ::
  "bool \<Rightarrow> ios_interpreter_type \<Rightarrow> int \<Rightarrow> interp_manager \<Rightarrow> (int, interp_manager) exec" where
  "ios_interp_pool_configure sem_ok ty max_slots g0 =
     (let g = ios_interp_pool_init g0 in
      if ty \<ge> IOS_INTERP_MAX then Returns (- 1) g
      else if ip_initialized (im_pools g ty) then Returns (- 1) g
      else interp_pool_init_type sem_ok ty max_slots g)"

section \<open>The slot map\<close>

definition slot_mask :: "nat \<Rightarrow> u32" where
  "slot_mask slot = push_bit slot 1"

text \<open>The scan of a snapshot of the map, from \<open>slot\<close> with \<open>k\<close> slots left.\<close>

fun first_free :: "nat \<Rightarrow> nat \<Rightarrow> u32 \<Rightarrow> nat option" where
  "first_free 0 slot bitmap = None"
| "first_free (Suc k) slot bitmap =
     (if bitmap AND slot_mask slot = 0 then Some slot else first_free k (Suc slot) bitmap)"

fun interp_pool_find_free_slot ::
  "disturb list \<Rightarrow> interpreter_pool \<Rightarrow> int \<times> interpreter_pool" where
  "interp_pool_find_free_slot [] p =
     (case first_free (ip_max_slots p) 0 (ip_slot_bitmap p) of
        None \<Rightarrow> (- 1, p)
      | Some slot \<Rightarrow> (int slot, p\<lparr>ip_slot_bitmap := ip_slot_bitmap p OR slot_mask slot\<rparr>))"
| "interp_pool_find_free_slot (f # fs) p =
     (case first_free (ip_max_slots p) 0 (ip_slot_bitmap p) of
        None \<Rightarrow> (- 1, p)
      | Some slot \<Rightarrow>
          let p' = f p
          in if ip_slot_bitmap p' = ip_slot_bitmap p
             then (int slot, p'\<lparr>ip_slot_bitmap := ip_slot_bitmap p OR slot_mask slot\<rparr>)
             else interp_pool_find_free_slot fs p')"

text \<open>
  The retry loop of a weak compare-and-swap: the other threads act, then the swap fails
  spuriously or because the map has changed, and the expected value is reloaded.
\<close>

fun try_acquire_loop :: "(bool \<times> disturb) list \<Rightarrow> u32 \<Rightarrow> u32 \<Rightarrow> interpreter_pool \<Rightarrow> bool \<times> interpreter_pool" where
  "try_acquire_loop [] msk old p =
     (if old AND msk \<noteq> 0 then (False, p)
      else if ip_slot_bitmap p = old then (True, p\<lparr>ip_slot_bitmap := old OR msk\<rparr>)
      else if ip_slot_bitmap p AND msk \<noteq> 0 then (False, p)
      else (True, p\<lparr>ip_slot_bitmap := ip_slot_bitmap p OR msk\<rparr>))"
| "try_acquire_loop ((spurious, f) # fs) msk old p =
     (if old AND msk \<noteq> 0 then (False, p)
      else let p' = f p
           in if ip_slot_bitmap p' = old \<and> \<not> spurious then (True, p'\<lparr>ip_slot_bitmap := old OR msk\<rparr>)
              else try_acquire_loop fs msk (ip_slot_bitmap p') p')"

definition interp_pool_try_acquire_slot_internal ::
  "(bool \<times> disturb) list \<Rightarrow> int \<Rightarrow> interpreter_pool \<Rightarrow> bool \<times> interpreter_pool" where
  "interp_pool_try_acquire_slot_internal fs slot_num p =
     (if slot_num < 0 \<or> slot_num \<ge> int (ip_max_slots p) then (False, p)
      else try_acquire_loop fs (slot_mask (nat slot_num)) (ip_slot_bitmap p) p)"

fun clear_loop :: "(bool \<times> disturb) list \<Rightarrow> u32 \<Rightarrow> u32 \<Rightarrow> interpreter_pool \<Rightarrow> interpreter_pool" where
  "clear_loop [] msk old p =
     (if ip_slot_bitmap p = old then p\<lparr>ip_slot_bitmap := old AND NOT msk\<rparr>
      else p\<lparr>ip_slot_bitmap := ip_slot_bitmap p AND NOT msk\<rparr>)"
| "clear_loop ((spurious, f) # fs) msk old p =
     (let p' = f p
      in if ip_slot_bitmap p' = old \<and> \<not> spurious then p'\<lparr>ip_slot_bitmap := old AND NOT msk\<rparr>
         else clear_loop fs msk (ip_slot_bitmap p') p')"

section \<open>The semaphore\<close>

definition sem_signal :: "interpreter_pool \<Rightarrow> interpreter_pool" where
  "sem_signal p = p\<lparr>ip_semaphore := map_option (\<lambda>v. v + 1) (ip_semaphore p)\<rparr>"

text \<open>
  \<^verbatim>\<open>dispatch_semaphore_wait\<close>: true when the count could be decremented. Each entry of the
  schedule is one wake-up: whether the time is up (never, for an infinite timeout) and what the
  other threads have done. A null semaphore is a fault.
\<close>

fun sem_wait :: "int \<Rightarrow> (bool \<times> disturb) list \<Rightarrow> interpreter_pool \<Rightarrow> (bool, interpreter_pool) exec" where
  "sem_wait timeout_ms [] p =
     (case ip_semaphore p of None \<Rightarrow> Crash
      | Some v \<Rightarrow> if v > 0 then Returns True (p\<lparr>ip_semaphore := Some (v - 1)\<rparr>)
                  else if timeout_ms = 0 then Returns False p else Blocked p)"
| "sem_wait timeout_ms ((up, f) # ws) p =
     (case ip_semaphore p of None \<Rightarrow> Crash
      | Some v \<Rightarrow> if v > 0 then Returns True (p\<lparr>ip_semaphore := Some (v - 1)\<rparr>)
                  else if timeout_ms = 0 then Returns False p
                  else if timeout_ms > 0 \<and> up then Returns False (f p)
                  else sem_wait timeout_ms ws (f p))"

section \<open>Acquiring and releasing\<close>

text \<open>The part of \<^verbatim>\<open>ios_interp_acquire\<close> after the pool is known to be initialised.\<close>

definition acquire_slot ::
  "int \<Rightarrow> (bool \<times> disturb) list \<Rightarrow> disturb list \<Rightarrow> interpreter_pool \<Rightarrow> (int, interpreter_pool) exec" where
  "acquire_slot timeout_ms ws fs p =
     (case sem_wait timeout_ms ws (p\<lparr>ip_wait_count := ip_wait_count p + 1\<rparr>) of
        Blocked p1 \<Rightarrow> Blocked p1
      | Crash \<Rightarrow> Crash
      | Returns ok p1 \<Rightarrow>
          let p2 = p1\<lparr>ip_wait_count := ip_wait_count p1 - 1\<rparr>
          in if \<not> ok then Returns (- 1) p2
             else let (slot, p3) = interp_pool_find_free_slot fs p2
                  in if slot < 0 then Returns (- 1) (sem_signal p3) else Returns slot p3)"

definition lazy_init ::
  "bool \<Rightarrow> ios_interpreter_type \<Rightarrow> interp_manager \<Rightarrow> (int, interp_manager) exec" where
  "lazy_init sem_ok ty g =
     (if \<not> ip_initialized (im_pools g ty)
      then interp_pool_init_type sem_ok ty (int (get_default_pool_size ty)) g else Returns 0 g)"

text \<open>The handle is null (\<open>None\<close>) on an unknown type, a failed initialisation or a timeout.\<close>

definition ios_interp_acquire ::
  "bool \<Rightarrow> (bool \<times> disturb) list \<Rightarrow> disturb list \<Rightarrow> ios_interpreter_type \<Rightarrow> int \<Rightarrow> interp_manager \<Rightarrow>
   (ios_interp_slot_handle option, interp_manager) exec" where
  "ios_interp_acquire sem_ok ws fs ty timeout_ms g0 =
     (let g = ios_interp_pool_init g0 in
      if ty \<ge> IOS_INTERP_MAX then Returns None g
      else case lazy_init sem_ok ty g of
        Blocked g1 \<Rightarrow> Blocked g1
      | Crash \<Rightarrow> Crash
      | Returns rc g1 \<Rightarrow>
          if rc \<noteq> 0 then Returns None g1
          else case acquire_slot timeout_ms ws fs (im_pools g1 ty) of
            Blocked p \<Rightarrow> Blocked (set_pool ty p g1)
          | Crash \<Rightarrow> Crash
          | Returns slot p \<Rightarrow>
              Returns (if slot < 0 then None else Some \<lparr>sh_type = ty, sh_slot_number = nat slot\<rparr>)
                (set_pool ty p g1))"

definition try_acquire_slot ::
  "(bool \<times> disturb) list \<Rightarrow> int \<Rightarrow> interpreter_pool \<Rightarrow> (bool, interpreter_pool) exec" where
  "try_acquire_slot fs slot_number p =
     (case sem_wait 0 [] p of
        Blocked p1 \<Rightarrow> Blocked p1
      | Crash \<Rightarrow> Crash
      | Returns ok p1 \<Rightarrow>
          if \<not> ok then Returns False p1
          else let (got, p2) = interp_pool_try_acquire_slot_internal fs slot_number p1
               in if \<not> got then Returns False (sem_signal p2) else Returns True p2)"

definition ios_interp_try_acquire_slot ::
  "bool \<Rightarrow> (bool \<times> disturb) list \<Rightarrow> ios_interpreter_type \<Rightarrow> int \<Rightarrow> interp_manager \<Rightarrow>
   (ios_interp_slot_handle option, interp_manager) exec" where
  "ios_interp_try_acquire_slot sem_ok fs ty slot_number g0 =
     (let g = ios_interp_pool_init g0 in
      if ty \<ge> IOS_INTERP_MAX then Returns None g
      else case lazy_init sem_ok ty g of
        Blocked g1 \<Rightarrow> Blocked g1
      | Crash \<Rightarrow> Crash
      | Returns rc g1 \<Rightarrow>
          if rc \<noteq> 0 then Returns None g1
          else case try_acquire_slot fs slot_number (im_pools g1 ty) of
            Blocked p \<Rightarrow> Blocked (set_pool ty p g1)
          | Crash \<Rightarrow> Crash
          | Returns got p \<Rightarrow>
              Returns (if got then Some \<lparr>sh_type = ty, sh_slot_number = nat slot_number\<rparr> else None)
                (set_pool ty p g1))"

definition release_slot :: "(bool \<times> disturb) list \<Rightarrow> nat \<Rightarrow> interpreter_pool \<Rightarrow> interpreter_pool" where
  "release_slot fs slot p = sem_signal (clear_loop fs (slot_mask slot) (ip_slot_bitmap p) p)"

definition ios_interp_release ::
  "(bool \<times> disturb) list \<Rightarrow> ios_interp_slot_handle option \<Rightarrow> interp_manager \<Rightarrow> interp_manager" where
  "ios_interp_release fs handle g =
     (case handle of None \<Rightarrow> g
      | Some h \<Rightarrow>
          let p = im_pools g (sh_type h)
          in if \<not> ip_initialized p then g
             else set_pool (sh_type h) (release_slot fs (sh_slot_number h) p) g)"

section \<open>Queries\<close>

definition ios_interp_get_slot_number :: "ios_interp_slot_handle option \<Rightarrow> int" where
  "ios_interp_get_slot_number handle = (case handle of None \<Rightarrow> - 1 | Some h \<Rightarrow> int (sh_slot_number h))"

definition ios_interp_get_type :: "ios_interp_slot_handle option \<Rightarrow> ios_interpreter_type" where
  "ios_interp_get_type handle = (case handle of None \<Rightarrow> IOS_INTERP_MAX | Some h \<Rightarrow> sh_type h)"

text \<open>\<^verbatim>\<open>1U << n\<close>, undefined for a count that is not below the width.\<close>

definition shift_one :: "nat \<Rightarrow> u32 option" where
  "shift_one n = (if n < 32 then Some (push_bit n 1) else None)"

definition ios_interp_has_available_slot :: "ios_interpreter_type \<Rightarrow> interp_manager \<Rightarrow> bool option" where
  "ios_interp_has_available_slot ty g =
     (if ty \<ge> IOS_INTERP_MAX then Some False
      else let p = im_pools g ty in
           if \<not> ip_initialized p then Some True
           else map_option (\<lambda>m. ip_slot_bitmap p \<noteq> m - 1) (shift_one (ip_max_slots p)))"

definition popcount :: "u32 \<Rightarrow> nat" where
  "popcount w = length (filter (bit w) [0..<32])"

text \<open>Return code, total slots, used slots and waiting threads; \<open>None\<close> is the return code \<open>-1\<close>.\<close>

definition ios_interp_get_stats :: "ios_interpreter_type \<Rightarrow> interp_manager \<Rightarrow> (int \<times> nat \<times> nat \<times> int) option" where
  "ios_interp_get_stats ty g =
     (if ty \<ge> IOS_INTERP_MAX then None
      else let p = im_pools g ty
           in Some (0, if ip_initialized p then ip_max_slots p else 0,
                    if ip_initialized p then popcount (ip_slot_bitmap p) else 0, ip_wait_count p))"

definition ios_interp_force_release_all :: "ios_interpreter_type \<Rightarrow> interp_manager \<Rightarrow> interp_manager" where
  "ios_interp_force_release_all ty g =
     (if ty \<ge> IOS_INTERP_MAX then g
      else let p = im_pools g ty in
           if \<not> ip_initialized p then g
           else set_pool ty ((sem_signal ^^ ip_max_slots p) (p\<lparr>ip_slot_bitmap := 0\<rparr>)) g)"

section \<open>Bits and slots\<close>

definition used :: "interpreter_pool \<Rightarrow> nat set" where
  "used p = {i. bit (ip_slot_bitmap p) i}"

definition has_free :: "interpreter_pool \<Rightarrow> bool" where
  "has_free p \<longleftrightarrow> (\<exists>i < ip_max_slots p. i \<notin> used p)"

lemma mask_test: "w AND slot_mask s = 0 \<longleftrightarrow> \<not> bit w s"
  unfolding slot_mask_def push_bit_of_1 by (rule and_exp_eq_0_iff_not_bit)

lemma bit_or_mask: "s < 32 \<Longrightarrow> bit (w OR slot_mask s) i \<longleftrightarrow> bit w i \<or> i = s"
  by (auto simp: slot_mask_def bit_simps)

lemma bit_clear_mask: "bit (w AND NOT (slot_mask s)) i \<longleftrightarrow> bit w i \<and> i \<noteq> s"
  by (auto simp: slot_mask_def bit_simps dest: bit_imp_le_length)

lemma used_less: "i \<in> used p \<Longrightarrow> i < 32"
  by (auto simp: used_def dest: bit_imp_le_length)

lemma finite_used [simp]: "finite (used p)"
  by (rule finite_subset [of _ "{..<32}"]) (auto dest: used_less)

lemma used_frames [simp]:
  "used (p\<lparr>ip_semaphore := v\<rparr>) = used p" "used (p\<lparr>ip_wait_count := n\<rparr>) = used p"
  "used (sem_signal p) = used p"
  by (simp_all add: used_def sem_signal_def)

lemma used_set: "s < 32 \<Longrightarrow> used (p\<lparr>ip_slot_bitmap := ip_slot_bitmap q OR slot_mask s\<rparr>) = insert s (used q)"
  by (auto simp: used_def bit_or_mask)

lemma used_clear: "used (p\<lparr>ip_slot_bitmap := ip_slot_bitmap q AND NOT (slot_mask s)\<rparr>) = used q - {s}"
  by (auto simp: used_def bit_clear_mask)

lemma first_free_Some:
  "first_free k s w = Some j \<Longrightarrow> s \<le> j \<and> j < s + k \<and> \<not> bit w j \<and> (\<forall>i. s \<le> i \<and> i < j \<longrightarrow> bit w i)"
proof (induction k arbitrary: s)
  case 0
  then show ?case by simp
next
  case (Suc k)
  show ?case
  proof (cases "bit w s")
    case False
    with Suc.prems show ?thesis by (auto simp: mask_test)
  next
    case True
    with Suc.prems have "first_free k (Suc s) w = Some j" by (simp add: mask_test)
    from Suc.IH [OF this] have j: "Suc s \<le> j" "j < Suc s + k" "\<not> bit w j"
      "\<And>i. Suc s \<le> i \<Longrightarrow> i < j \<Longrightarrow> bit w i" by auto
    have "bit w i" if "s \<le> i" "i < j" for i using True j(4) [of i] that by (cases "i = s") auto
    with j show ?thesis by auto
  qed
qed

lemma first_free_None: "first_free k s w = None \<longleftrightarrow> (\<forall>i. s \<le> i \<and> i < s + k \<longrightarrow> bit w i)"
proof (induction k arbitrary: s)
  case 0
  then show ?case by auto
next
  case (Suc k)
  show ?case
  proof
    assume "first_free (Suc k) s w = None"
    then have "bit w s" "first_free k (Suc s) w = None" by (simp_all add: mask_test split: if_splits)
    moreover have "bit w i" if "Suc s \<le> i" "i < Suc s + k" for i using calculation Suc.IH that by blast
    ultimately show "\<forall>i. s \<le> i \<and> i < s + Suc k \<longrightarrow> bit w i"
      by (metis Suc_leI add_Suc add_Suc_right le_neq_implies_less)
  next
    assume "\<forall>i. s \<le> i \<and> i < s + Suc k \<longrightarrow> bit w i"
    with Suc.IH show "first_free (Suc k) s w = None" by (simp add: mask_test)
  qed
qed

lemma first_free_has_free: "first_free (ip_max_slots p) 0 (ip_slot_bitmap p) \<noteq> None \<longleftrightarrow> has_free p"
  by (auto simp: first_free_None has_free_def used_def)

definition least_free :: "interpreter_pool \<Rightarrow> nat" where
  "least_free p = the (first_free (ip_max_slots p) 0 (ip_slot_bitmap p))"

lemma least_free:
  assumes "has_free p"
  shows "first_free (ip_max_slots p) 0 (ip_slot_bitmap p) = Some (least_free p)"
    "least_free p < ip_max_slots p" "least_free p \<notin> used p" "\<forall>i < least_free p. i \<in> used p"
  using assms first_free_Some [of "ip_max_slots p" 0 "ip_slot_bitmap p"] first_free_has_free [of p]
  by (auto simp: least_free_def used_def)

section \<open>Invariant\<close>

definition pool_inv :: "interpreter_pool \<Rightarrow> bool" where
  "pool_inv p \<longleftrightarrow> ip_initialized p \<and> 0 < ip_max_slots p \<and> ip_max_slots p \<le> 32 \<and>
     used p \<subseteq> {..<ip_max_slots p} \<and> ip_semaphore p = Some (int (ip_max_slots p) - int (card (used p)))"

lemma card_used_le: "used p \<subseteq> {..<ip_max_slots p} \<Longrightarrow> card (used p) \<le> ip_max_slots p"
  using card_mono [of "{..<ip_max_slots p}" "used p"] by simp

lemma has_free_card:
  "used p \<subseteq> {..<ip_max_slots p} \<Longrightarrow> has_free p \<longleftrightarrow> card (used p) < ip_max_slots p"
proof
  assume u: "used p \<subseteq> {..<ip_max_slots p}" and "has_free p"
  then obtain i where "i < ip_max_slots p" "i \<notin> used p" by (auto simp: has_free_def)
  with u have "used p \<subset> {..<ip_max_slots p}" by auto
  then show "card (used p) < ip_max_slots p" using psubset_card_mono [of "{..<ip_max_slots p}"] by simp
next
  assume u: "used p \<subseteq> {..<ip_max_slots p}" and c: "card (used p) < ip_max_slots p"
  then have "used p \<noteq> {..<ip_max_slots p}" by auto
  with u show "has_free p" by (auto simp: has_free_def)
qed

text \<open>The undisturbed acquisition in closed form.\<close>

lemma acquire_slot_closed:
  assumes "pool_inv p"
  shows "acquire_slot timeout_ms [] [] p =
    (if has_free p
     then Returns (int (least_free p))
       (p\<lparr>ip_semaphore := Some (int (ip_max_slots p) - int (card (used p)) - 1),
          ip_slot_bitmap := ip_slot_bitmap p OR slot_mask (least_free p)\<rparr>)
     else if timeout_ms = 0 then Returns (- 1) p
     else Blocked (p\<lparr>ip_wait_count := ip_wait_count p + 1\<rparr>))"
proof -
  have sem: "ip_semaphore p = Some (int (ip_max_slots p) - int (card (used p)))"
    and u: "used p \<subseteq> {..<ip_max_slots p}" using assms by (simp_all add: pool_inv_def)
  show ?thesis
  proof (cases "has_free p")
    case True
    then have "card (used p) < ip_max_slots p" using has_free_card [OF u] by simp
    with True sem least_free(1) [OF True] show ?thesis
      by (simp add: acquire_slot_def)
  next
    case False
    then have "card (used p) = ip_max_slots p" using has_free_card [OF u] card_used_le [OF u] by simp
    with False sem show ?thesis by (simp add: acquire_slot_def)
  qed
qed

lemma acquire_slot_inv:
  assumes p: "pool_inv p" and h: "has_free p"
    and q: "q = p\<lparr>ip_semaphore := Some (int (ip_max_slots p) - int (card (used p)) - 1),
          ip_slot_bitmap := ip_slot_bitmap p OR slot_mask (least_free p)\<rparr>"
  shows "pool_inv q \<and> used q = insert (least_free p) (used p)"
proof -
  have l: "least_free p < 32" using least_free(2) [OF h] p by (simp add: pool_inv_def)
  have u: "used q = insert (least_free p) (used p)"
    using q l by (auto simp: used_def bit_or_mask)
  then show ?thesis using p q least_free(2,3) [OF h] by (simp add: pool_inv_def)
qed

lemma release_slot_inv:
  assumes p: "pool_inv p" and s: "s \<in> used p"
  shows "pool_inv (release_slot [] s p) \<and> used (release_slot [] s p) = used p - {s}"
proof -
  have u: "used (release_slot [] s p) = used p - {s}"
    using used_clear [of p s p] by (simp add: release_slot_def)
  moreover have "int (card (used p - {s})) = int (card (used p)) - 1"
    by (rule int_card_remove [OF finite_used s])
  ultimately show ?thesis using p by (auto simp: pool_inv_def release_slot_def sem_signal_def)
qed

section \<open>The pool of slots\<close>

definition slot_acquire :: "interpreter_pool \<Rightarrow> nat \<Rightarrow> interpreter_pool \<Rightarrow> bool" where
  "slot_acquire p slot p' \<longleftrightarrow> (\<exists>timeout_ms. acquire_slot timeout_ms [] [] p = Returns (int slot) p')"

definition slot_release :: "interpreter_pool \<Rightarrow> nat \<Rightarrow> interpreter_pool \<Rightarrow> bool" where
  "slot_release p slot p' \<longleftrightarrow> p' = release_slot [] slot p"

interpretation slots: id_pool pool_inv used slot_acquire slot_release
proof
  fix p i p' assume p: "pool_inv p"
  { assume "slot_acquire p i p'"
    then obtain t where "acquire_slot t [] [] p = Returns (int i) p'" by (auto simp: slot_acquire_def)
    then have h: "has_free p" "i = least_free p"
      "p' = p\<lparr>ip_semaphore := Some (int (ip_max_slots p) - int (card (used p)) - 1),
          ip_slot_bitmap := ip_slot_bitmap p OR slot_mask (least_free p)\<rparr>"
      unfolding acquire_slot_closed [OF p] by (auto split: if_splits)
    then show "i \<notin> used p" "used p' = insert i (used p)" "pool_inv p'"
      using least_free(3) acquire_slot_inv [OF p h(1,3)] by simp_all }
  { assume "i \<in> used p" "slot_release p i p'"
    then show "used p' = used p - {i}" "pool_inv p'"
      using release_slot_inv [OF p] by (simp_all add: slot_release_def) }
qed


text \<open>
  In every sequence of undisturbed acquisitions and releases from a pool with no slot in use,
  no slot is held twice, the slots held are exactly those marked in the map, and the semaphore
  counts the free ones.
\<close>

theorem slots_never_shared:
  assumes "pool_inv p" and "used p = {}" and "pool_run slot_acquire slot_release p [] p' held"
  shows "distinct held \<and> set held = used p' \<and> length held \<le> ip_max_slots p' \<and>
    ip_semaphore p' = Some (int (ip_max_slots p') - int (length held))"
proof -
  have r: "pool_inv p'" "distinct held" "set held = used p'"
    using slots.run_exclusive [OF assms(3,1)] assms(2) by auto
  then have "length held = card (used p')" by (metis distinct_card)
  with r show ?thesis using card_used_le [of p'] by (simp add: pool_inv_def)
qed

text \<open>
  The undisturbed \<^verbatim>\<open>ios_interp_acquire\<close> in closed form, for an initialised pool: it takes the
  lowest free slot; without one it returns null at once when the timeout is 0 and waits otherwise.
\<close>

theorem acquire_takes_lowest_free_slot:
  assumes "im_once_done g" and "ty < IOS_INTERP_MAX" and "pool_inv (im_pools g ty)"
  shows "\<exists>p'. (if has_free (im_pools g ty)
      then \<exists>slot. ios_interp_acquire sem_ok [] [] ty timeout_ms g =
          Returns (Some \<lparr>sh_type = ty, sh_slot_number = slot\<rparr>) (set_pool ty p' g) \<and>
        pool_inv p' \<and> slot < ip_max_slots p' \<and> slot \<notin> used (im_pools g ty) \<and>
        (\<forall>i < slot. i \<in> used (im_pools g ty)) \<and> used p' = insert slot (used (im_pools g ty))
      else ios_interp_acquire sem_ok [] [] ty timeout_ms g =
          (if timeout_ms = 0 then Returns None (set_pool ty p' g) else Blocked (set_pool ty p' g)) \<and>
        pool_inv p' \<and> used p' = used (im_pools g ty))"
proof -
  let ?p = "im_pools g ty"
  have i: "ip_initialized ?p" using assms(3) by (simp add: pool_inv_def)
  have eq: "ios_interp_acquire sem_ok [] [] ty timeout_ms g =
    (case acquire_slot timeout_ms [] [] ?p of
            Blocked p \<Rightarrow> Blocked (set_pool ty p g)
          | Crash \<Rightarrow> Crash
          | Returns slot p \<Rightarrow>
              Returns (if slot < 0 then None else Some \<lparr>sh_type = ty, sh_slot_number = nat slot\<rparr>)
                (set_pool ty p g))"
    using assms(1,2) i by (simp add: ios_interp_acquire_def ios_interp_pool_init_def lazy_init_def)
  show ?thesis
  proof (cases "has_free ?p")
    case True
    let ?q = "?p\<lparr>ip_semaphore := Some (int (ip_max_slots ?p) - int (card (used ?p)) - 1),
          ip_slot_bitmap := ip_slot_bitmap ?p OR slot_mask (least_free ?p)\<rparr>"
    from True acquire_slot_closed [OF assms(3)] acquire_slot_inv [OF assms(3) True refl] least_free [OF True] eq
    show ?thesis by (intro exI [of _ ?q]) (simp add: exI [of _ "least_free ?p"])
  next
    case False
    with acquire_slot_closed [OF assms(3), of timeout_ms] eq assms(3) show ?thesis
      by (intro exI [of _ "if timeout_ms = 0 then ?p else ?p\<lparr>ip_wait_count := ip_wait_count ?p + 1\<rparr>"])
        (simp add: pool_inv_def)
  qed
qed

section \<open>The lock-free search\<close>

text \<open>
  The lock-free search succeeds whatever the other threads do, as long as they leave a slot
  free: each failed compare-and-swap restarts it on the new map, it never gives up, and the slot
  it returns was free in the state the swap replaced.
\<close>

theorem find_free_slot_survives_races:
  assumes "has_free p" and "\<forall>f \<in> set fs. \<forall>q. has_free q \<longrightarrow> has_free (f q)"
  shows "\<exists>slot q. interp_pool_find_free_slot fs p =
      (int slot, q\<lparr>ip_slot_bitmap := ip_slot_bitmap q OR slot_mask slot\<rparr>) \<and>
    slot \<notin> used q \<and> (q = p \<or> (\<exists>f \<in> set fs. \<exists>q0. q = f q0))"
  using assms
proof (induction fs arbitrary: p)
  case Nil
  then show ?case using least_free [of p] by auto
next
  case (Cons f fs)
  note l = least_free [OF Cons.prems(1)]
  show ?case
  proof (cases "ip_slot_bitmap (f p) = ip_slot_bitmap p")
    case True
    with l show ?thesis
      by (intro exI [of _ "least_free p"] exI [of _ "f p"]) (auto simp: used_def Let_def)
  next
    case False
    have "has_free (f p)" using Cons.prems by simp
    from Cons.IH [OF this] Cons.prems(2) False l show ?thesis by (fastforce simp: Let_def)
  qed
qed

section \<open>Queries, forced release and shutdown\<close>

lemma full_mask_iff:
  assumes "n < 32"
  shows "w = push_bit n (1 :: u32) - 1 \<longleftrightarrow> (\<forall>i < 32. bit w i \<longleftrightarrow> i < n)"
proof -
  have m: "push_bit n (1 :: u32) - 1 = mask n" by (simp add: mask_eq_exp_minus_1 push_bit_of_1)
  have "w = mask n \<longleftrightarrow> (\<forall>i < 32. bit w i \<longleftrightarrow> bit (mask n :: u32) i)"
    by (auto intro: bit_word_eqI)
  then show ?thesis unfolding m by (simp add: bit_mask_iff)
qed

text \<open>
  \<^verbatim>\<open>ios_interp_has_available_slot\<close> tells exactly whether a slot is free, for pools of at most
  31 slots; for a pool of 32 slots, which the configuration accepts, it shifts a 32-bit word by
  32, which is undefined.
\<close>

theorem has_available_slot_exact:
  assumes "ty < IOS_INTERP_MAX" and "pool_inv (im_pools g ty)"
  shows "ios_interp_has_available_slot ty g =
    (if ip_max_slots (im_pools g ty) < 32 then Some (has_free (im_pools g ty)) else None)"
proof -
  let ?p = "im_pools g ty"
  have p: "ip_initialized ?p" "used ?p \<subseteq> {..<ip_max_slots ?p}" using assms(2) by (simp_all add: pool_inv_def)
  have "(ip_slot_bitmap ?p = push_bit (ip_max_slots ?p) 1 - 1) \<longleftrightarrow> \<not> has_free ?p" if "ip_max_slots ?p < 32"
    unfolding full_mask_iff [OF that] has_free_def using p(2) that by (auto simp: used_def)
  then show ?thesis
    using assms(1) p(1) by (auto simp: ios_interp_has_available_slot_def shift_one_def)
qed

lemma sem_signal_pow:
  "ip_semaphore p = Some v \<Longrightarrow> ip_semaphore ((sem_signal ^^ n) p) = Some (v + int n) \<and>
   used ((sem_signal ^^ n) p) = used p \<and> ip_max_slots ((sem_signal ^^ n) p) = ip_max_slots p"
  by (induction n) (auto simp: sem_signal_def used_def)

fun acquire_n :: "nat \<Rightarrow> interpreter_pool \<Rightarrow> interpreter_pool" where
  "acquire_n 0 p = p"
| "acquire_n (Suc n) p =
     (case acquire_slot (- 1) [] [] p of Returns _ q \<Rightarrow> acquire_n n q | _ \<Rightarrow> p)"

lemma acquire_n_fills:
  "used p = {..<k} \<Longrightarrow> k + n \<le> ip_max_slots p \<Longrightarrow> ip_max_slots p \<le> 32 \<Longrightarrow>
   ip_semaphore p = Some v \<Longrightarrow> int n \<le> v \<Longrightarrow>
   used (acquire_n n p) = {..<k + n} \<and> ip_semaphore (acquire_n n p) = Some (v - int n) \<and>
   ip_max_slots (acquire_n n p) = ip_max_slots p"
proof (induction n arbitrary: p k v)
  case 0
  then show ?case by simp
next
  case (Suc n)
  have "k < ip_max_slots p" "k \<notin> used p" using Suc.prems(1,2) by simp_all
  then have h: "has_free p" unfolding has_free_def by blast
  have l: "least_free p = k"
  proof (rule antisym)
    show "least_free p \<le> k" using least_free(4) [OF h] Suc.prems(1) by (auto simp: not_less [symmetric])
    show "k \<le> least_free p" using least_free(3) [OF h] Suc.prems(1) by simp
  qed
  define q where "q = p\<lparr>ip_semaphore := Some (v - 1), ip_slot_bitmap := ip_slot_bitmap p OR slot_mask k\<rparr>"
  have "acquire_slot (- 1) [] [] p = Returns (int k) q"
    using Suc.prems least_free(1) [OF h] l by (simp add: acquire_slot_def q_def)
  then have step: "acquire_n (Suc n) p = acquire_n n q" by simp
  have "k < 32" using Suc.prems(2,3) by simp
  then have "used q = insert k (used p)" by (auto simp: q_def used_def bit_or_mask)
  then have u: "used q = {..<Suc k}" using Suc.prems(1) by (simp add: lessThan_Suc)
  have "ip_max_slots q = ip_max_slots p" "ip_semaphore q = Some (v - 1)" by (simp_all add: q_def)
  with Suc.IH [OF u, of "v - 1"] Suc.prems step show ?case by simp
qed

text \<open>
  A forced release that finds slots free breaks the semaphore. It adds \<^verbatim>\<open>max_slots\<close> to the
  count whatever the number of slots in use, so once all slots are taken again the count is
  still positive, and an acquisition without timeout gets a null handle instead of waiting.
\<close>

theorem force_release_breaks_waiting:
  assumes "ty < IOS_INTERP_MAX" and "pool_inv (im_pools g ty)" and "has_free (im_pools g ty)"
    and "p = im_pools (ios_interp_force_release_all ty g) ty"
    and "full = acquire_n (ip_max_slots p) p"
  shows "used p = {} \<and> used full = {..<ip_max_slots full} \<and> acquire_slot (- 1) [] [] full = Returns (- 1) full"
proof -
  let ?p = "im_pools g ty" let ?q = "(im_pools g ty)\<lparr>ip_slot_bitmap := 0\<rparr>"
  let ?v = "int (ip_max_slots ?p) - int (card (used ?p))"
  have inv: "ip_initialized ?p" "ip_max_slots ?p \<le> 32" "used ?p \<subseteq> {..<ip_max_slots ?p}" "ip_semaphore ?p = Some ?v"
    using assms(2) by (simp_all add: pool_inv_def)
  have c: "card (used ?p) < ip_max_slots ?p" using assms(3) has_free_card [OF inv(3)] by simp
  have p: "p = (sem_signal ^^ ip_max_slots ?p) ?q"
    using assms(1,4) inv(1) by (simp add: ios_interp_force_release_all_def set_pool_def Let_def)
  have q: "ip_semaphore p = Some (?v + int (ip_max_slots ?p))" "used p = {}" "ip_max_slots p = ip_max_slots ?p"
    using sem_signal_pow [of ?q ?v "ip_max_slots ?p"] inv(4) p by (simp_all add: used_def)
  have f: "used full = {..<ip_max_slots full}" "ip_semaphore full = Some ?v" "ip_max_slots full = ip_max_slots ?p"
    using acquire_n_fills [of p 0 "ip_max_slots p"] q inv(2) c assms(5) by auto
  have "\<not> has_free full" using f(1) by (auto simp: has_free_def)
  then have "first_free (ip_max_slots full) 0 (ip_slot_bitmap full) = None"
    using first_free_has_free [of full] by blast
  with f c have "acquire_slot (- 1) [] [] full = Returns (- 1) full"
    by (simp add: acquire_slot_def sem_signal_def)
  with f(1) q(2) show ?thesis by simp
qed

text \<open>
  The pools cannot be used after a shutdown: it destroys the configuration mutexes, and the
  once-guard does not create them again, so every later acquisition, of any type, locks a
  destroyed mutex.
\<close>

theorem pools_do_not_restart:
  assumes "im_once_done g" and "im_manager_initialized g" and "\<forall>i. ip_config_mutex (im_pools g i)"
    and "\<forall>i. ip_initialized (im_pools g i) \<longrightarrow> ip_semaphore (im_pools g i) \<noteq> None" and "ty < IOS_INTERP_MAX"
  shows "\<exists>g'. ios_interp_pool_shutdown g = Returns () g' \<and>
    ios_interp_acquire sem_ok ws fs ty timeout_ms g' = Crash \<and>
    ios_interp_try_acquire_slot sem_ok fs' ty slot g' = Crash"
proof -
  let ?g = "g\<lparr>im_pools := (\<lambda>i. if i < IOS_INTERP_MAX then shutdown_pool (im_pools g i) else im_pools g i),
           im_manager_initialized := False\<rparr>"
  have "ios_interp_pool_shutdown g = Returns () ?g" using assms(2,3) by (simp add: ios_interp_pool_shutdown_def)
  moreover have "lazy_init sem_ok ty ?g = Crash"
    using assms(4,5) by (auto simp: lazy_init_def interp_pool_init_type_def shutdown_pool_def Let_def
        get_default_pool_size_def MAX_SLOTS_PER_TYPE_def IOS_INTERP_MAX_def)
  ultimately show ?thesis
    using assms(1,5) by (simp add: ios_interp_acquire_def ios_interp_try_acquire_slot_def ios_interp_pool_init_def)
qed

text \<open>
  An undisturbed request for one particular slot gets it exactly when it exists, is free and
  the pool has a free slot at all, and otherwise leaves the pool as it was.
\<close>

theorem try_acquire_slot_exact:
  assumes "pool_inv p"
  shows "\<exists>p'. try_acquire_slot [] slot p = Returns (0 \<le> slot \<and> slot < int (ip_max_slots p) \<and> nat slot \<notin> used p) p' \<and>
    pool_inv p' \<and> used p' = (if 0 \<le> slot \<and> slot < int (ip_max_slots p) then insert (nat slot) (used p) else used p)"
proof -
  let ?v = "int (ip_max_slots p) - int (card (used p))"
  have inv: "ip_max_slots p \<le> 32" "used p \<subseteq> {..<ip_max_slots p}" "ip_semaphore p = Some ?v" "ip_initialized p"
    "0 < ip_max_slots p"
    using assms by (simp_all add: pool_inv_def)
  show ?thesis
  proof (cases "0 \<le> slot \<and> slot < int (ip_max_slots p) \<and> nat slot \<notin> used p")
    case True
    then have "has_free p" by (auto simp: has_free_def intro!: exI [of _ "nat slot"])
    then have c: "card (used p) < ip_max_slots p" using has_free_card [OF inv(2)] by simp
    let ?q = "p\<lparr>ip_semaphore := Some (?v - 1), ip_slot_bitmap := ip_slot_bitmap p OR slot_mask (nat slot)\<rparr>"
    have "nat slot < 32" using True inv(1) by (simp add: nat_less_iff)
    then have u: "used ?q = insert (nat slot) (used p)" by (auto simp: used_def bit_or_mask)
    then have "pool_inv ?q" using assms True by (auto simp: pool_inv_def)
    moreover have "try_acquire_slot [] slot p = Returns True ?q"
      using True inv(3) c by (simp add: try_acquire_slot_def interp_pool_try_acquire_slot_internal_def mask_test used_def)
    ultimately show ?thesis using u True by (intro exI [of _ ?q]) simp
  next
    case False
    have "try_acquire_slot [] slot p = Returns False p"
    proof (cases "has_free p")
      case True
      then have "card (used p) < ip_max_slots p" using has_free_card [OF inv(2)] by simp
      with False inv(3) show ?thesis
        by (auto simp: try_acquire_slot_def interp_pool_try_acquire_slot_internal_def mask_test used_def sem_signal_def)
    next
      case False
      then have "card (used p) = ip_max_slots p" using has_free_card [OF inv(2)] card_used_le [OF inv(2)] by simp
      with inv(3) show ?thesis by (simp add: try_acquire_slot_def)
    qed
    with False assms show ?thesis by (intro exI [of _ p]) auto
  qed
qed

section \<open>Concrete states\<close>

definition demo_pool :: interpreter_pool where
  "demo_pool = \<lparr>ip_max_slots = 2, ip_slot_bitmap = 0, ip_semaphore = Some 2, ip_wait_count = 0,
     ip_config_mutex = True, ip_initialized = True\<rparr>"

definition demo_manager :: interp_manager where
  "demo_manager = \<lparr>im_pools = (\<lambda>_. demo_pool), im_once_done = True, im_manager_initialized = True\<rparr>"

lemma demo_pool_facts: "pool_inv demo_pool" "used demo_pool = {}" "has_free demo_pool"
  by (auto simp: pool_inv_def demo_pool_def used_def has_free_def intro!: exI [of _ 0])

theorem slots_never_shared_witness:
  "pool_inv demo_pool \<and> pool_run slot_acquire slot_release demo_pool [] (acquire_n 1 demo_pool) [0] \<and>
   used (acquire_n 1 demo_pool) = {0}"
proof -
  have "acquire_slot (- 1) [] [] demo_pool = Returns (int 0) (acquire_n 1 demo_pool)" by code_simp
  then have "slot_acquire demo_pool 0 (acquire_n 1 demo_pool)" unfolding slot_acquire_def by blast
  then have r: "pool_run slot_acquire slot_release demo_pool [] (acquire_n 1 demo_pool) [0]"
    by (rule pool_acquire [rotated]) (rule pool_start)
  from slots_never_shared [OF demo_pool_facts(1,2) r] r demo_pool_facts(1) show ?thesis by simp
qed

theorem acquire_takes_lowest_free_slot_witness:
  "\<exists>p' slot. ios_interp_acquire True [] [] 0 5 demo_manager =
      Returns (Some \<lparr>sh_type = 0, sh_slot_number = slot\<rparr>) (set_pool 0 p' demo_manager) \<and> used p' = {slot}"
  using acquire_takes_lowest_free_slot [of demo_manager 0 True 5] demo_pool_facts
  by (auto simp: demo_manager_def IOS_INTERP_MAX_def)

theorem find_free_slot_survives_races_witness:
  "\<exists>slot q. interp_pool_find_free_slot [\<lambda>p. p\<lparr>ip_slot_bitmap := 0\<rparr>] (demo_pool\<lparr>ip_slot_bitmap := 1\<rparr>) =
    (int slot, q\<lparr>ip_slot_bitmap := ip_slot_bitmap q OR slot_mask slot\<rparr>) \<and> slot \<notin> used q"
proof -
  have "has_free (demo_pool\<lparr>ip_slot_bitmap := 1\<rparr>)"
    by (auto simp: has_free_def used_def demo_pool_def intro!: exI [of _ 1])
  moreover have "has_free (q\<lparr>ip_slot_bitmap := 0\<rparr>)" if "has_free q" for q
    using that by (auto simp: has_free_def used_def)
  ultimately show ?thesis
    using find_free_slot_survives_races [of "demo_pool\<lparr>ip_slot_bitmap := 1\<rparr>" "[\<lambda>p. p\<lparr>ip_slot_bitmap := 0\<rparr>]"]
    by (simp del: interp_pool_find_free_slot.simps) blast
qed

theorem has_available_slot_exact_witness:
  "ios_interp_has_available_slot 0 demo_manager = Some True"
  using has_available_slot_exact [of 0 demo_manager] demo_pool_facts
  by (simp add: demo_manager_def IOS_INTERP_MAX_def demo_pool_def)

theorem force_release_breaks_waiting_witness:
  "acquire_slot (- 1) [] [] (acquire_n 2 (im_pools (ios_interp_force_release_all 0 demo_manager) 0)) =
   Returns (- 1) (acquire_n 2 (im_pools (ios_interp_force_release_all 0 demo_manager) 0))"
proof -
  have "ip_max_slots (im_pools (ios_interp_force_release_all 0 demo_manager) 0) = 2" by code_simp
  then show ?thesis
    using force_release_breaks_waiting [of 0 demo_manager, OF _ _ _ refl refl] demo_pool_facts
    by (simp add: demo_manager_def IOS_INTERP_MAX_def)
qed

theorem pools_do_not_restart_witness:
  "\<exists>g'. ios_interp_pool_shutdown demo_manager = Returns () g' \<and> ios_interp_acquire True [] [] 0 0 g' = Crash"
  using pools_do_not_restart [of demo_manager 0 True "[]" "[]" 0 "[]" 0]
  by (auto simp: demo_manager_def demo_pool_def IOS_INTERP_MAX_def)

theorem try_acquire_slot_exact_witness:
  "\<exists>p'. try_acquire_slot [] 1 demo_pool = Returns True p' \<and> used p' = {1}"
  using try_acquire_slot_exact [OF demo_pool_facts(1), of 1] demo_pool_facts(2) by (auto simp: demo_pool_def)

end
