(* ===== verification/Interpreter_Threads.thy ===== *)
theory Interpreter_Threads
  imports Interpreter_Pool
begin

unbundle bit_operations_syntax

text \<open>
  Any number of threads that use one interpreter pool of \<^verbatim>\<open>ios_interpreter_pool.c\<close> at the same time, with every access to
  the semaphore, to the slot map and to the wait count a step of its own. Each thread stands at a
  stage of \<^verbatim>\<open>ios_interp_acquire\<close>, \<^verbatim>\<open>ios_interp_try_acquire_slot\<close> or \<^verbatim>\<open>ios_interp_release\<close>; the operations of \<open>Interpreter_Pool\<close>
  are what one thread does from stage to stage while others interfere.
\<close>

section \<open>Stages\<close>

text \<open>
  Where a thread is in a call: what it is about to do, and the local variables it still needs (the
  timeout, the slot, the map as it was last loaded).
\<close>

datatype stage =
    Idle
  | Waiting int
  | Passed
  | Timed_out
  | Loading
  | Searching u32
  | No_slot
  | Trying int
  | Try_loading nat
  | Try_swapping nat u32
  | Giving_back
  | Holding nat
  | Releasing nat
  | Clearing nat u32
  | Signalling

datatype pool_call = Acquire int | Try_acquire int | Release

fun begin_call :: "pool_call \<Rightarrow> interpreter_pool \<Rightarrow> stage \<Rightarrow> (interpreter_pool \<times> stage) option" where
  "begin_call (Acquire timeout_ms) p Idle = Some (p\<lparr>ip_wait_count := ip_wait_count p + 1\<rparr>, Waiting timeout_ms)"
| "begin_call (Try_acquire slot) p Idle = Some (p, Trying slot)"
| "begin_call Release p (Holding slot) = Some (p, Releasing slot)"
| "begin_call _ p _ = None"

text \<open>
  The next step of a thread. The flag tells that the time is up, for a thread at the semaphore, or that
  a weak compare-and-swap fails without reason. \<open>None\<close>: the thread cannot go on.
\<close>

fun advance :: "bool \<Rightarrow> interpreter_pool \<Rightarrow> stage \<Rightarrow> (interpreter_pool \<times> stage) option" where
  "advance x p (Waiting timeout_ms) =
     (case sem_wait timeout_ms (if x then [(True, id)] else []) p of
        Returns ok q \<Rightarrow> Some (q, if ok then Passed else Timed_out)
      | _ \<Rightarrow> None)"
| "advance x p Passed = Some (p\<lparr>ip_wait_count := ip_wait_count p - 1\<rparr>, Loading)"
| "advance x p Timed_out = Some (p\<lparr>ip_wait_count := ip_wait_count p - 1\<rparr>, Idle)"
| "advance x p Loading = Some (p, Searching (ip_slot_bitmap p))"
| "advance x p (Searching bitmap) =
     (case first_free (ip_max_slots p) 0 bitmap of
        None \<Rightarrow> Some (p, No_slot)
      | Some slot \<Rightarrow>
          if ip_slot_bitmap p = bitmap then Some (p\<lparr>ip_slot_bitmap := bitmap OR slot_mask slot\<rparr>, Holding slot)
          else Some (p, Loading))"
| "advance x p No_slot = Some (sem_signal p, Idle)"
| "advance x p (Trying slot) =
     (case sem_wait 0 [] p of
        Returns ok q \<Rightarrow>
          Some (q, if \<not> ok then Idle
                   else if slot < 0 \<or> slot \<ge> int (ip_max_slots q) then Giving_back else Try_loading (nat slot))
      | _ \<Rightarrow> None)"
| "advance x p (Try_loading slot) = Some (p, Try_swapping slot (ip_slot_bitmap p))"
| "advance x p (Try_swapping slot old) =
     (if old AND slot_mask slot \<noteq> 0 then Some (p, Giving_back)
      else if ip_slot_bitmap p = old \<and> \<not> x then Some (p\<lparr>ip_slot_bitmap := old OR slot_mask slot\<rparr>, Holding slot)
      else Some (p, Try_swapping slot (ip_slot_bitmap p)))"
| "advance x p Giving_back = Some (sem_signal p, Idle)"
| "advance x p (Releasing slot) = Some (p, Clearing slot (ip_slot_bitmap p))"
| "advance x p (Clearing slot old) =
     (if ip_slot_bitmap p = old \<and> \<not> x then Some (p\<lparr>ip_slot_bitmap := old AND NOT (slot_mask slot)\<rparr>, Signalling)
      else Some (p, Clearing slot (ip_slot_bitmap p)))"
| "advance x p Signalling = Some (sem_signal p, Idle)"
| "advance x p Idle = None"
| "advance x p (Holding slot) = None"

section \<open>The operations go through the stages\<close>

text \<open>One thread takes a step, or another one changes the pool in one of the given ways.\<close>

definition turn :: "disturb set \<Rightarrow> interpreter_pool \<times> stage \<Rightarrow> interpreter_pool \<times> stage \<Rightarrow> bool" where
  "turn D = (\<lambda>(p, t) (p', t'). (\<exists>x. advance x p t = Some (p', t')) \<or> (\<exists>f \<in> D. p' = f p \<and> t' = t))"

lemma turn_own: "advance x p t = Some s \<Longrightarrow> (turn D)\<^sup>*\<^sup>* s s' \<Longrightarrow> (turn D)\<^sup>*\<^sup>* (p, t) s'"
  by (rule converse_rtranclp_into_rtranclp) (auto simp: turn_def)

lemma turn_other: "f \<in> D \<Longrightarrow> (turn D)\<^sup>*\<^sup>* (f p, t) s' \<Longrightarrow> (turn D)\<^sup>*\<^sup>* (p, t) s'"
  by (rule converse_rtranclp_into_rtranclp) (auto simp: turn_def)

lemmas turn_last = turn_own [OF _ rtranclp.rtrancl_refl]

text \<open>The number of slots never changes once the pool is initialised.\<close>

definition keep_size :: "disturb set \<Rightarrow> bool" where
  "keep_size D \<longleftrightarrow> (\<forall>f \<in> D. \<forall>p. ip_max_slots (f p) = ip_max_slots p)"

lemma find_free_slot_by_stages:
  assumes "interp_pool_find_free_slot fs p = (r, q)" and "set fs \<subseteq> D" and "keep_size D"
  shows "(turn D)\<^sup>*\<^sup>* (p, Loading) (q, if r < 0 then No_slot else Holding (nat r))"
  using assms
proof (induction fs arbitrary: p)
  case Nil
  then have "advance False p (Searching (ip_slot_bitmap p)) = Some (q, if r < 0 then No_slot else Holding (nat r))"
    by (auto split: option.splits)
  then show ?case by (rule turn_own [OF advance.simps(4) turn_last])
next
  case (Cons f fs)
  have f: "f \<in> D" "ip_max_slots (f p) = ip_max_slots p" using Cons.prems(2,3) by (auto simp: keep_size_def)
  show ?case
  proof (cases "first_free (ip_max_slots p) 0 (ip_slot_bitmap p)")
    case None
    then have "advance False p (Searching (ip_slot_bitmap p)) = Some (q, if r < 0 then No_slot else Holding (nat r))"
      using Cons.prems(1) by auto
    then show ?thesis by (rule turn_own [OF advance.simps(4) turn_last])
  next
    case (Some slot)
    show ?thesis
    proof (cases "ip_slot_bitmap (f p) = ip_slot_bitmap p")
      case True
      then have "advance False (f p) (Searching (ip_slot_bitmap p)) = Some (q, if r < 0 then No_slot else Holding (nat r))"
        using Cons.prems(1) Some f(2) by (auto simp: Let_def)
      then show ?thesis by (rule turn_own [OF advance.simps(4) turn_other [OF f(1) turn_last]])
    next
      case False
      then have "advance False (f p) (Searching (ip_slot_bitmap p)) = Some (f p, Loading)" using Some f(2) by simp
      moreover have "(turn D)\<^sup>*\<^sup>* (f p, Loading) (q, if r < 0 then No_slot else Holding (nat r))"
        using Cons.prems Some False by (intro Cons.IH) (auto simp: Let_def)
      ultimately show ?thesis by (rule turn_own [OF advance.simps(4) turn_other [OF f(1) turn_own]])
    qed
  qed
qed

lemma sem_wait_by_stages:
  assumes "sem_wait timeout_ms ws p = Returns ok q" and "snd ` set ws \<subseteq> D"
  shows "(turn D)\<^sup>*\<^sup>* (p, Waiting timeout_ms) (q, if ok then Passed else Timed_out)"
  using assms
proof (induction ws arbitrary: p)
  case Nil
  then have "advance False p (Waiting timeout_ms) = Some (q, if ok then Passed else Timed_out)"
    by (auto split: option.splits)
  then show ?case by (rule turn_last)
next
  case (Cons w ws)
  obtain up f where w: "w = (up, f)" by force
  obtain v where v: "ip_semaphore p = Some v" using Cons.prems(1) w by (cases "ip_semaphore p") auto
  have f: "f \<in> D" using Cons.prems(2) w by simp
  consider "0 < v \<or> timeout_ms = 0" | "\<not> (0 < v \<or> timeout_ms = 0)" "0 < timeout_ms \<and> up" | "\<not> (0 < v \<or> timeout_ms = 0)" "\<not> (0 < timeout_ms \<and> up)"
    by blast
  then show ?case
  proof cases
    case 1
    then have "advance False p (Waiting timeout_ms) = Some (q, if ok then Passed else Timed_out)"
      using Cons.prems(1) v w by (auto split: if_splits)
    then show ?thesis by (rule turn_last)
  next
    case 2
    then have out: "advance True p (Waiting timeout_ms) = Some (p, Timed_out)" and q: "q = f p" "\<not> ok"
      using Cons.prems(1) v w by auto
    from turn_own [OF out turn_other [OF f rtranclp.rtrancl_refl]] q show ?thesis by simp
  next
    case 3
    then have "sem_wait timeout_ms ws (f p) = Returns ok q" using Cons.prems(1) v w by auto
    then show ?thesis using Cons by (intro turn_other [OF f Cons.IH]) auto
  qed
qed

text \<open>\<^verbatim>\<open>ios_interp_acquire\<close>, \<^verbatim>\<open>ios_interp_try_acquire_slot\<close> and \<^verbatim>\<open>ios_interp_release\<close> on an initialised pool.\<close>

theorem acquire_slot_by_stages:
  assumes "acquire_slot timeout_ms ws fs p = Returns r q" and "snd ` set ws \<union> set fs \<subseteq> D" and "keep_size D"
    and "begin_call (Acquire timeout_ms) p Idle = Some s"
  shows "(turn D)\<^sup>*\<^sup>* s (q, if r < 0 then Idle else Holding (nat r))"
proof -
  have s: "s = (p\<lparr>ip_wait_count := ip_wait_count p + 1\<rparr>, Waiting timeout_ms)" using assms(4) by simp
  obtain ok p1 where w: "sem_wait timeout_ms ws (p\<lparr>ip_wait_count := ip_wait_count p + 1\<rparr>) = Returns ok p1"
    using assms(1) by (auto simp: acquire_slot_def split: exec.splits)
  let ?p2 = "p1\<lparr>ip_wait_count := ip_wait_count p1 - 1\<rparr>"
  have wait: "(turn D)\<^sup>*\<^sup>* s (p1, if ok then Passed else Timed_out)" unfolding s using sem_wait_by_stages [OF w] assms(2) by simp
  show ?thesis
  proof (cases ok)
    case False
    with assms(1) w have "q = ?p2" "r = - 1" by (auto simp: acquire_slot_def)
    with wait False show ?thesis using turn_last [OF advance.simps(3) [of False p1], of D] by auto
  next
    case True
    obtain slot p3 where ff: "interp_pool_find_free_slot fs ?p2 = (slot, p3)" by force
    have r: "Returns r q = (if slot < 0 then Returns (- 1) (sem_signal p3) else Returns slot p3)"
      using assms(1) w True ff by (simp add: acquire_slot_def)
    have "(turn D)\<^sup>*\<^sup>* (?p2, Loading) (p3, if slot < 0 then No_slot else Holding (nat slot))"
      using find_free_slot_by_stages [OF ff _ assms(3)] assms(2) by simp
    then have "(turn D)\<^sup>*\<^sup>* (p1, Passed) (p3, if slot < 0 then No_slot else Holding (nat slot))"
      by (rule turn_own [OF advance.simps(2)])
    moreover have "(turn D)\<^sup>*\<^sup>* (p3, No_slot) (sem_signal p3, Idle)" by (rule turn_last [OF advance.simps(6) [of False]])
    ultimately show ?thesis using wait True r by (cases "slot < 0") auto
  qed
qed

lemma try_swapping_by_stages:
  assumes "try_acquire_loop fs (slot_mask slot) old p = (got, q)" and "snd ` set fs \<subseteq> D"
  shows "(turn D)\<^sup>*\<^sup>* (p, Try_swapping slot old) (q, if got then Holding slot else Giving_back)"
  using assms
proof (induction fs arbitrary: old p)
  case Nil
  show ?case
  proof (cases "old AND slot_mask slot \<noteq> 0 \<or> ip_slot_bitmap p = old")
    case True
    then have "advance False p (Try_swapping slot old) = Some (q, if got then Holding slot else Giving_back)"
      using Nil by (auto split: if_splits)
    then show ?thesis by (rule turn_last)
  next
    case False
    then have "advance False p (Try_swapping slot old) = Some (p, Try_swapping slot (ip_slot_bitmap p))" by simp
    moreover have "advance False p (Try_swapping slot (ip_slot_bitmap p)) = Some (q, if got then Holding slot else Giving_back)"
      using Nil False by (auto split: if_splits)
    ultimately show ?thesis by (rule turn_own [OF _ turn_last])
  qed
next
  case (Cons w fs)
  obtain x f where w: "w = (x, f)" by force
  have f: "f \<in> D" using Cons.prems(2) w by simp
  show ?case
  proof (cases "old AND slot_mask slot \<noteq> 0")
    case True
    then have "advance False p (Try_swapping slot old) = Some (q, if got then Holding slot else Giving_back)"
      using Cons.prems w by auto
    then show ?thesis by (rule turn_last)
  next
    case False
    show ?thesis
    proof (cases "ip_slot_bitmap (f p) = old \<and> \<not> x")
      case True
      then have "advance False (f p) (Try_swapping slot old) = Some (q, if got then Holding slot else Giving_back)"
        using Cons.prems w False by (auto simp: Let_def)
      then show ?thesis by (rule turn_other [OF f turn_last])
    next
      case no: False
      then have "advance x (f p) (Try_swapping slot old) = Some (f p, Try_swapping slot (ip_slot_bitmap (f p)))"
        using False by auto
      moreover have "try_acquire_loop fs (slot_mask slot) (ip_slot_bitmap (f p)) (f p) = (got, q)"
        using Cons.prems(1) w False no by (auto simp: Let_def)
      ultimately show ?thesis using Cons.IH Cons.prems(2) by (intro turn_other [OF f turn_own]) auto
    qed
  qed
qed

theorem try_acquire_slot_by_stages:
  assumes "try_acquire_slot fs slot p = Returns got q" and "snd ` set fs \<subseteq> D" and "begin_call (Try_acquire slot) p Idle = Some s"
  shows "(turn D)\<^sup>*\<^sup>* s (q, if got then Holding (nat slot) else Idle)"
proof -
  have s: "s = (p, Trying slot)" using assms(3) by simp
  obtain ok p1 where w: "sem_wait 0 [] p = Returns ok p1" using assms(1) by (auto simp: try_acquire_slot_def split: exec.splits)
  show ?thesis
  proof (cases ok)
    case False
    then have "advance False p (Trying slot) = Some (q, if got then Holding (nat slot) else Idle)"
      using assms(1) w by (simp add: try_acquire_slot_def)
    then show ?thesis unfolding s by (rule turn_last)
  next
    case True
    obtain got' p2 where t: "interp_pool_try_acquire_slot_internal fs slot p1 = (got', p2)" by force
    have q: "Returns got q = (if \<not> got' then Returns False (sem_signal p2) else Returns True p2)"
      using assms(1) w True t by (simp add: try_acquire_slot_def)
    have gives: "(turn D)\<^sup>*\<^sup>* (p2, Giving_back) (sem_signal p2, Idle)" by (rule turn_last [OF advance.simps(10) [of False]])
    show ?thesis
    proof (cases "slot < 0 \<or> slot \<ge> int (ip_max_slots p1)")
      case out: True
      then have "advance False p (Trying slot) = Some (p2, Giving_back)" "\<not> got'"
        using w True t by (auto simp: interp_pool_try_acquire_slot_internal_def)
      with gives q show ?thesis unfolding s using turn_own [OF _ gives] by simp
    next
      case False
      then have "advance False p (Trying slot) = Some (p1, Try_loading (nat slot))" using w True by auto
      moreover have "try_acquire_loop fs (slot_mask (nat slot)) (ip_slot_bitmap p1) p1 = (got', p2)"
        using False t by (auto simp: interp_pool_try_acquire_slot_internal_def)
      then have "(turn D)\<^sup>*\<^sup>* (p1, Try_swapping (nat slot) (ip_slot_bitmap p1)) (p2, if got' then Holding (nat slot) else Giving_back)"
        using try_swapping_by_stages assms(2) by blast
      ultimately have "(turn D)\<^sup>*\<^sup>* s (p2, if got' then Holding (nat slot) else Giving_back)"
        unfolding s by (rule turn_own [OF _ turn_own [OF advance.simps(8)]])
      with gives q show ?thesis by (cases got') auto
    qed
  qed
qed

lemma clear_by_stages:
  assumes "snd ` set fs \<subseteq> D"
  shows "(turn D)\<^sup>*\<^sup>* (p, Clearing slot old) (clear_loop fs (slot_mask slot) old p, Signalling)"
  using assms
proof (induction fs arbitrary: old p)
  case Nil
  show ?case
  proof (cases "ip_slot_bitmap p = old")
    case True
    then show ?thesis using turn_last [of False p "Clearing slot old"] by simp
  next
    case False
    then show ?thesis
      using turn_own [of False p "Clearing slot old"] turn_last [of False p "Clearing slot (ip_slot_bitmap p)"] by simp
  qed
next
  case (Cons w fs)
  obtain x f where w: "w = (x, f)" by force
  have f: "f \<in> D" and IH: "(turn D)\<^sup>*\<^sup>* (f p, Clearing slot (ip_slot_bitmap (f p)))
      (clear_loop fs (slot_mask slot) (ip_slot_bitmap (f p)) (f p), Signalling)"
    using Cons w by auto
  show ?case
  proof (cases "ip_slot_bitmap (f p) = old \<and> \<not> x")
    case True
    then show ?thesis using w turn_last [of False "f p" "Clearing slot old"] by (simp add: Let_def turn_other [OF f])
  next
    case False
    then have "advance x (f p) (Clearing slot old) = Some (f p, Clearing slot (ip_slot_bitmap (f p)))" by auto
    from turn_other [OF f turn_own [OF this IH]] False w show ?thesis by (auto simp: Let_def)
  qed
qed

theorem release_slot_by_stages:
  assumes "snd ` set fs \<subseteq> D" and "begin_call Release p (Holding slot) = Some s"
  shows "(turn D)\<^sup>*\<^sup>* s (release_slot fs slot p, Idle)"
proof -
  have "(turn D)\<^sup>*\<^sup>* s (clear_loop fs (slot_mask slot) (ip_slot_bitmap p) p, Signalling)"
    using assms(2) turn_own [OF advance.simps(11) clear_by_stages [OF assms(1)]] by auto
  also have "(turn D)\<^sup>*\<^sup>* (clear_loop fs (slot_mask slot) (ip_slot_bitmap p) p, Signalling) (release_slot fs slot p, Idle)"
    unfolding release_slot_def by (rule turn_last [OF advance.simps(13) [of False]])
  finally show ?thesis .
qed

section \<open>All interleavings\<close>

text \<open>
  \<open>n\<close> threads and one pool. A step is the start of a call or the next step of a call, of any thread; a
  thread releases only a slot it holds, and only once.
\<close>

inductive pool_threads :: "nat \<Rightarrow> interpreter_pool \<Rightarrow> interpreter_pool \<Rightarrow> stage list \<Rightarrow> bool"
  for n :: nat and p0 :: interpreter_pool where
  all_idle: "pool_threads n p0 p0 (replicate n Idle)"
| new_call: "pool_threads n p0 p (ts @ t # us) \<Longrightarrow> begin_call c p t = Some (p', t') \<Longrightarrow> pool_threads n p0 p' (ts @ t' # us)"
| next_step: "pool_threads n p0 p (ts @ t # us) \<Longrightarrow> advance x p t = Some (p', t') \<Longrightarrow> pool_threads n p0 p' (ts @ t' # us)"

text \<open>The slot a thread has, and whether it has taken one from the semaphore for which no bit is set.\<close>

fun held_slot :: "stage \<Rightarrow> nat list" where
  "held_slot (Holding slot) = [slot]"
| "held_slot (Releasing slot) = [slot]"
| "held_slot (Clearing slot old) = [slot]"
| "held_slot _ = []"

fun in_transit :: "stage \<Rightarrow> nat" where
  "in_transit Idle = 0"
| "in_transit (Waiting t) = 0"
| "in_transit Timed_out = 0"
| "in_transit (Trying slot) = 0"
| "in_transit (Holding slot) = 0"
| "in_transit (Releasing slot) = 0"
| "in_transit (Clearing slot old) = 0"
| "in_transit _ = 1"

definition held_slots :: "stage list \<Rightarrow> nat list" where
  "held_slots ts = concat (map held_slot ts)"

definition transits :: "stage list \<Rightarrow> nat" where
  "transits ts = sum_list (map in_transit ts)"

lemma held_slots_append [simp]: "held_slots (ts @ t # us) = held_slots ts @ held_slot t @ held_slots us"
  by (simp add: held_slots_def)

lemma transits_append [simp]: "transits (ts @ t # us) = transits ts + in_transit t + transits us"
  by (simp add: transits_def)

text \<open>What a thread knows: the map it has loaded showed a free slot.\<close>

fun stage_ok :: "nat \<Rightarrow> stage \<Rightarrow> bool" where
  "stage_ok n (Searching bitmap) \<longleftrightarrow> first_free n 0 bitmap \<noteq> None"
| "stage_ok n No_slot \<longleftrightarrow> False"
| "stage_ok n (Try_loading slot) \<longleftrightarrow> slot < n"
| "stage_ok n (Try_swapping slot old) \<longleftrightarrow> slot < n"
| "stage_ok n _ \<longleftrightarrow> True"

definition threads_inv :: "interpreter_pool \<Rightarrow> stage list \<Rightarrow> bool" where
  "threads_inv p ts \<longleftrightarrow> ip_max_slots p \<le> 32 \<and> distinct (held_slots ts) \<and> set (held_slots ts) = used p \<and>
     used p \<subseteq> {..<ip_max_slots p} \<and> card (used p) + transits ts \<le> ip_max_slots p \<and>
     ip_semaphore p = Some (int (ip_max_slots p) - int (card (used p)) - int (transits ts)) \<and>
     list_all (stage_ok (ip_max_slots p)) ts"

lemma begin_call_inv:
  assumes "threads_inv p (ts @ t # us)" and "begin_call c p t = Some (p', t')"
  shows "threads_inv p' (ts @ t' # us)"
  using assms by (cases c; cases t) (auto simp: threads_inv_def)

text \<open>A step that leaves the map, the semaphore and the slots of the thread alone.\<close>

lemma quiet_inv:
  assumes "threads_inv p (ts @ t # us)" and "ip_slot_bitmap p' = ip_slot_bitmap p" and "ip_semaphore p' = ip_semaphore p"
    and "ip_max_slots p' = ip_max_slots p" and "held_slot t' = held_slot t" and "in_transit t' = in_transit t"
    and "stage_ok (ip_max_slots p) t'"
  shows "threads_inv p' (ts @ t' # us)"
  using assms by (auto simp: threads_inv_def used_def)

lemma pass_inv:
  assumes "threads_inv p (ts @ t # us)" and "ip_semaphore p = Some v" and "0 < v" and "held_slot t = []" and "in_transit t = 0"
    and "held_slot t' = []" and "in_transit t' = 1" and "stage_ok (ip_max_slots p) t'"
  shows "threads_inv (p\<lparr>ip_semaphore := Some (v - 1)\<rparr>) (ts @ t' # us)"
  using assms by (auto simp: threads_inv_def)

lemma take_inv:
  assumes "threads_inv p (ts @ t # us)" and "slot < ip_max_slots p" and "slot \<notin> used p" and "held_slot t = []" and "in_transit t = 1"
  shows "threads_inv (p\<lparr>ip_slot_bitmap := ip_slot_bitmap p OR slot_mask slot\<rparr>) (ts @ Holding slot # us)"
proof -
  have "slot < 32" using assms(1,2) by (simp add: threads_inv_def)
  then show ?thesis using assms by (auto simp: threads_inv_def used_set)
qed

lemma clear_inv:
  assumes "threads_inv p (ts @ t # us)" and "held_slot t = [slot]" and "in_transit t = 0"
  shows "threads_inv (p\<lparr>ip_slot_bitmap := ip_slot_bitmap p AND NOT (slot_mask slot)\<rparr>) (ts @ Signalling # us)"
proof -
  have "slot \<in> used p" using assms(1,2) by (auto simp: threads_inv_def)
  moreover from this have "int (card (used p - {slot})) = int (card (used p)) - 1" "0 < card (used p)"
    using int_card_remove [of "used p" slot] by (auto simp: card_gt_0_iff)
  ultimately show ?thesis using assms by (auto simp: threads_inv_def used_clear)
qed

lemma signal_inv:
  assumes "threads_inv p (ts @ t # us)" and "held_slot t = []" and "in_transit t = 1"
  shows "threads_inv (sem_signal p) (ts @ Idle # us)"
  using assms by (auto simp: threads_inv_def sem_signal_def used_def)

lemma searching_ok:
  assumes "threads_inv p (ts @ t # us)" and "in_transit t = 1"
  shows "first_free (ip_max_slots p) 0 (ip_slot_bitmap p) \<noteq> None"
  using assms has_free_card [of p] first_free_has_free [of p] by (auto simp: threads_inv_def)

lemma advance_inv:
  assumes "threads_inv p (ts @ t # us)" and "advance x p t = Some (p', t')"
  shows "threads_inv p' (ts @ t' # us)"
proof -
  have ok: "stage_ok (ip_max_slots p) t" using assms(1) by (simp add: threads_inv_def)
  obtain v where v: "ip_semaphore p = Some v" using assms(1) by (auto simp: threads_inv_def)
  show ?thesis
  proof (cases t)
    case (Waiting timeout)
    with assms v show ?thesis
      by (auto split: if_splits intro: pass_inv [OF assms(1) v] quiet_inv [OF assms(1)])
  next
    case (Searching bitmap)
    then obtain slot where slot: "first_free (ip_max_slots p) 0 bitmap = Some slot" using ok by auto
    then have free: "slot < ip_max_slots p" "\<not> bit bitmap slot" using first_free_Some by force+
    show ?thesis
    proof (cases "ip_slot_bitmap p = bitmap")
      case True
      with Searching slot free assms(2) take_inv [OF assms(1) free(1)] show ?thesis by (simp add: used_def)
    next
      case False
      with Searching slot assms(2) show ?thesis by (auto intro: quiet_inv [OF assms(1)])
    qed
  next
    case (Trying slot)
    with assms v show ?thesis
      by (auto split: if_splits simp: nat_less_iff intro: pass_inv [OF assms(1) v] quiet_inv [OF assms(1)])
  next
    case (Try_swapping slot old)
    then have "slot < ip_max_slots p" using ok by simp
    with Try_swapping assms(2) take_inv [OF assms(1)] show ?thesis
      by (auto simp: mask_test used_def split: if_splits intro: quiet_inv [OF assms(1)])
  next
    case (Clearing slot old)
    with assms(2) clear_inv [OF assms(1)] show ?thesis by (auto split: if_splits intro: quiet_inv [OF assms(1)])
  qed (use assms ok searching_ok [OF assms(1)] signal_inv [OF assms(1)] in \<open>auto intro: quiet_inv [OF assms(1)]\<close>)
qed

lemma pool_threads_inv:
  assumes "pool_threads n p0 p ts" and "pool_inv p0" and "used p0 = {}"
  shows "threads_inv p ts"
  using assms(1)
proof induction
  case all_idle
  have "held_slots (replicate n Idle) = []" "transits (replicate n Idle) = 0" "list_all (stage_ok k) (replicate n Idle)" for k
    by (induction n) (simp_all add: held_slots_def transits_def)
  with assms(2,3) show ?case by (simp add: threads_inv_def pool_inv_def)
qed (auto intro: begin_call_inv advance_inv)

text \<open>
  C13: the semaphore guarantees a slot. Any number of threads acquire any slot (with any timeout) or one slot,
  and release what they hold, with every load, compare-and-swap, wait and signal interleaved
  in any way. No thread is ever at the branch the code calls impossible, through the semaphore
  without a free slot; no two threads hold the same slot, the map has exactly the bits of the slots that are held,
  and the semaphore counts the slots that are neither held nor on the way between semaphore and map.
\<close>

theorem semaphore_guarantees_slot:
  assumes "pool_inv p0" and "used p0 = {}" and "pool_threads n p0 p ts"
  shows "No_slot \<notin> set ts \<and> distinct (held_slots ts) \<and> set (held_slots ts) = used p \<and>
    ip_semaphore p = Some (int (ip_max_slots p) - int (length (held_slots ts)) - int (transits ts))"
proof -
  have inv: "threads_inv p ts" by (rule pool_threads_inv [OF assms(3,1,2)])
  then have "card (used p) = length (held_slots ts)" by (auto simp: threads_inv_def distinct_card [symmetric])
  moreover have "No_slot \<notin> set ts" using inv by (auto simp: threads_inv_def list_all_iff)
  ultimately show ?thesis using inv by (simp add: threads_inv_def)
qed

text \<open>Playing a given interleaving: which thread starts which call, or takes its next step.\<close>

fun play :: "(nat \<times> (pool_call + bool)) list \<Rightarrow> interpreter_pool \<Rightarrow> stage list \<Rightarrow> (interpreter_pool \<times> stage list) option" where
  "play [] p ts = Some (p, ts)"
| "play ((i, a) # as) p ts =
     (if length ts \<le> i then None
      else case (case a of Inl c \<Rightarrow> begin_call c p (ts ! i) | Inr x \<Rightarrow> advance x p (ts ! i)) of
        None \<Rightarrow> None
      | Some (p', t') \<Rightarrow> play as p' (ts[i := t']))"

lemma play_reaches:
  "play as p ts = Some (p', ts') \<Longrightarrow> pool_threads n p0 p ts \<Longrightarrow> pool_threads n p0 p' ts'"
proof (induction as p ts rule: play.induct)
  case (2 i a as p ts)
  then have i: "i < length ts" by (auto split: if_splits)
  obtain q t' where q: "(case a of Inl c \<Rightarrow> begin_call c p (ts ! i) | Inr x \<Rightarrow> advance x p (ts ! i)) = Some (q, t')"
    using "2.prems"(1) by (auto split: if_splits option.splits)
  have split: "pool_threads n p0 p (take i ts @ ts ! i # drop (Suc i) ts)"
    using "2.prems"(2) id_take_nth_drop [OF i] by simp
  have "pool_threads n p0 q (take i ts @ t' # drop (Suc i) ts)"
    using q pool_threads.new_call [OF split] pool_threads.next_step [OF split] by (cases a) auto
  then have "pool_threads n p0 q (ts[i := t'])" by (simp add: upd_conv_take_nth_drop [OF i])
  with "2.IH" [OF _ q refl] "2.prems"(1) i q show ?case by simp
qed simp

text \<open>
  Three threads and two slots: two pass the semaphore together and load the same map, so that the second
  compare-and-swap fails and is repeated; the third thread waits.
\<close>

definition race :: "(nat \<times> (pool_call + bool)) list" where
  "race = [(0, Inl (Acquire (- 1))), (1, Inl (Acquire 100)), (0, Inr False), (1, Inr False), (0, Inr False), (1, Inr False),
     (0, Inr False), (1, Inr False), (1, Inr False), (0, Inr False), (2, Inl (Acquire (- 1))), (0, Inr False), (0, Inr False)]"

definition full_pool :: interpreter_pool where
  "full_pool = demo_pool\<lparr>ip_semaphore := Some 0, ip_slot_bitmap := 3, ip_wait_count := 1\<rparr>"

lemma race_played: "play race demo_pool (replicate 3 Idle) = Some (full_pool, [Holding 1, Holding 0, Waiting (- 1)])"
  by code_simp

theorem semaphore_guarantees_slot_witness:
  "pool_threads 3 demo_pool full_pool [Holding 1, Holding 0, Waiting (- 1)] \<and> used full_pool = {0, 1}"
proof -
  have r: "pool_threads 3 demo_pool full_pool [Holding 1, Holding 0, Waiting (- 1)]"
    by (rule play_reaches [OF race_played pool_threads.all_idle])
  from semaphore_guarantees_slot [OF demo_pool_facts(1,2) r] r show ?thesis by (auto simp: held_slots_def)
qed

end
