(* ===== verification/Thread_Pool.thy ===== *)
theory Thread_Pool
  imports Interfaces "HOL-Library.Monad_Syntax" "HOL-Library.Multiset"
begin

text \<open>
  The worker pool of \<^verbatim>\<open>ios_thread_pool.c\<close>: reference-counted work items on a store, four
  circular queues by priority, submission with backpressure, the worker loop, waiting, cancelling,
  draining, shutdown.

  A critical section under \<^verbatim>\<open>queue_mutex\<close> or an item's mutex is one step; the worker loop is cut
  at its unlocked points into the stages take, begin, end, publish and notify. A blocking call
  takes a schedule, what the other threads do during each wait. \<open>None\<close> and \<open>Crash\<close> are faults:
  a freed item or an index out of bounds. The parallel arrays \<^verbatim>\<open>queue_head[4]\<close>,
  \<^verbatim>\<open>queue_tail[4]\<close>, \<^verbatim>\<open>queue_count[4]\<close>, \<^verbatim>\<open>queue_capacity[4]\<close> and the four slot arrays are one
  record per priority. Work functions are opaque: the stage \<open>worker_end\<close> is given the result; the
  functions and callbacks run are recorded in a trace. Every operation on a pool returns at once
  with an error when the pool handle is null; the model starts from a handle that is not.
\<close>

section \<open>State\<close>

datatype work_state = WORK_PENDING | WORK_EXECUTING | WORK_COMPLETED | WORK_CANCELLED

type_synonym ptr = "addr option"

record ios_work_item =
  wi_work_fn :: nat
  wi_arg :: ptr
  wi_result :: ptr
  wi_priority :: nat
  wi_callback :: "nat option"
  wi_user_data :: ptr
  wi_state :: work_state
  wi_ref_count :: int

record work_queue =
  wq_slots :: "addr option list"
  wq_head :: nat
  wq_tail :: nat
  wq_count :: nat
  wq_capacity :: nat

datatype pool_event = RanWork nat ptr | CalledBack nat ptr ptr

record ios_thread_pool =
  tp_items :: "addr \<rightharpoonup> ios_work_item"
  tp_num_threads :: int
  tp_max_queue_size :: int
  tp_enable_priorities :: bool
  tp_name :: string
  tp_queues :: "nat \<Rightarrow> work_queue"
  tp_shutdown :: bool
  tp_draining :: bool
  tp_active_workers :: int
  tp_total_submitted :: u64
  tp_total_completed :: u64
  tp_total_dropped :: u64
  tp_trace :: "pool_event list"

record ios_thread_pool_config =
  tc_num_threads :: int
  tc_max_queue_size :: int
  tc_enable_priorities :: bool
  tc_name :: "string option"

record ios_thread_pool_stats =
  ts_num_threads :: int
  ts_active_threads :: int
  ts_idle_threads :: int
  ts_queue_size :: nat
  ts_max_queue_size :: int
  ts_total_submitted :: u64
  ts_total_completed :: u64
  ts_total_dropped :: u64

definition DEFAULT_MAX_QUEUE_SIZE :: int where
  "DEFAULT_MAX_QUEUE_SIZE = 256"

definition DEFAULT_THREAD_NAME :: string where
  "DEFAULT_THREAD_NAME = ''ios_worker''"

definition IOS_PRIORITY_LOW :: nat where "IOS_PRIORITY_LOW = 0"
definition IOS_PRIORITY_NORMAL :: nat where "IOS_PRIORITY_NORMAL = 1"
definition IOS_PRIORITY_HIGH :: nat where "IOS_PRIORITY_HIGH = 2"
definition IOS_PRIORITY_URGENT :: nat where "IOS_PRIORITY_URGENT = 3"

text \<open>\<open>sysctl\<close> is the number \<^verbatim>\<open>sysctlbyname\<close> stores, \<open>None\<close> when it fails.\<close>

definition get_cpu_count :: "int option \<Rightarrow> int" where
  "get_cpu_count sysctl = (case sysctl of Some n \<Rightarrow> n | None \<Rightarrow> 4)"

section \<open>Work items\<close>

type_synonym item_store = "addr \<rightharpoonup> ios_work_item"

definition new_item :: "nat \<Rightarrow> ptr \<Rightarrow> nat \<Rightarrow> ios_work_item" where
  "new_item fn arg priority =
     \<lparr>wi_work_fn = fn, wi_arg = arg, wi_result = None, wi_priority = priority, wi_callback = None,
      wi_user_data = None, wi_state = WORK_PENDING, wi_ref_count = 1\<rparr>"

definition work_item_create ::
  "addr option \<Rightarrow> nat \<Rightarrow> ptr \<Rightarrow> nat \<Rightarrow> ios_thread_pool \<Rightarrow> addr option \<times> ios_thread_pool" where
  "work_item_create mem fn arg priority pool =
     (case mem of None \<Rightarrow> (None, pool)
      | Some a \<Rightarrow> (Some a, pool\<lparr>tp_items := (tp_items pool)(a \<mapsto> new_item fn arg priority)\<rparr>))"

definition upd_item ::
  "addr \<Rightarrow> (ios_work_item \<Rightarrow> ios_work_item) \<Rightarrow> ios_thread_pool \<Rightarrow> ios_thread_pool option" where
  "upd_item a f pool =
     (case tp_items pool a of None \<Rightarrow> None
      | Some it \<Rightarrow> Some (pool\<lparr>tp_items := (tp_items pool)(a \<mapsto> f it)\<rparr>))"

definition work_item_retain :: "ptr \<Rightarrow> ios_thread_pool \<Rightarrow> ios_thread_pool option" where
  "work_item_retain item pool =
     (case item of None \<Rightarrow> Some pool
      | Some a \<Rightarrow> upd_item a (\<lambda>it. it\<lparr>wi_ref_count := wi_ref_count it + 1\<rparr>) pool)"

definition work_item_release_internal :: "ptr \<Rightarrow> ios_thread_pool \<Rightarrow> ios_thread_pool option" where
  "work_item_release_internal item pool =
     (case item of None \<Rightarrow> Some pool
      | Some a \<Rightarrow>
          (case tp_items pool a of None \<Rightarrow> None
           | Some it \<Rightarrow>
               if wi_ref_count it = 1 then Some (pool\<lparr>tp_items := (tp_items pool)(a := None)\<rparr>)
               else upd_item a (\<lambda>it. it\<lparr>wi_ref_count := wi_ref_count it - 1\<rparr>) pool))"

definition ios_work_release :: "ptr \<Rightarrow> ios_thread_pool \<Rightarrow> ios_thread_pool option" where
  "ios_work_release item = work_item_release_internal item"

section \<open>The queues\<close>

definition dequeue_from :: "work_queue \<Rightarrow> (addr option \<times> work_queue) option" where
  "dequeue_from q =
     (if wq_head q < length (wq_slots q) \<and> wq_capacity q > 0
      then Some (wq_slots q ! wq_head q,
             q\<lparr>wq_slots := (wq_slots q)[wq_head q := None], wq_head := (wq_head q + 1) mod wq_capacity q,
               wq_count := wq_count q - 1\<rparr>)
      else None)"

text \<open>The loop over the priorities \<open>p - 1, \<dots>, 0\<close>.\<close>

fun dequeue_below :: "nat \<Rightarrow> ios_thread_pool \<Rightarrow> (addr option \<times> ios_thread_pool) option" where
  "dequeue_below 0 pool = Some (None, pool)"
| "dequeue_below (Suc p) pool =
     (if wq_count (tp_queues pool p) > 0
      then do { (item, q) \<leftarrow> dequeue_from (tp_queues pool p);
                Some (item, pool\<lparr>tp_queues := (tp_queues pool)(p := q)\<rparr>) }
      else dequeue_below p pool)"

definition dequeue_work :: "ios_thread_pool \<Rightarrow> (addr option \<times> ios_thread_pool) option" where
  "dequeue_work pool = dequeue_below (IOS_PRIORITY_URGENT + 1) pool"

definition enqueue_into :: "addr \<Rightarrow> work_queue \<Rightarrow> work_queue option" where
  "enqueue_into a q =
     (if wq_tail q < length (wq_slots q)
      then Some (q\<lparr>wq_slots := (wq_slots q)[wq_tail q := Some a],
                   wq_tail := (wq_tail q + 1) mod wq_capacity q, wq_count := wq_count q + 1\<rparr>)
      else None)"

text \<open>The counts are indexed by the priority before it is checked.\<close>

definition enqueue_work :: "addr \<Rightarrow> ios_thread_pool \<Rightarrow> (int \<times> ios_thread_pool) option" where
  "enqueue_work a pool =
     do { it \<leftarrow> tp_items pool a;
          let p = wi_priority it;
          if p > IOS_PRIORITY_URGENT then None
          else if wq_count (tp_queues pool p) \<ge> wq_capacity (tp_queues pool p) then Some (- 1, pool)
          else do { q \<leftarrow> enqueue_into a (tp_queues pool p);
                    pool1 \<leftarrow> work_item_retain (Some a) (pool\<lparr>tp_queues := (tp_queues pool)(p := q)\<rparr>);
                    Some (0, pool1) } }"

section \<open>Creation\<close>

definition empty_queue :: "nat \<Rightarrow> work_queue" where
  "empty_queue n = \<lparr>wq_slots = replicate n None, wq_head = 0, wq_tail = 0, wq_count = 0, wq_capacity = n\<rparr>"

text \<open>
  \<open>pool_ok\<close>, \<open>arrays_ok\<close> and \<open>workers_ok\<close> tell whether the allocations succeed, \<open>spawn i\<close>
  whether the \<open>i\<close>-th thread can be created.
\<close>

definition ios_thread_pool_create ::
  "int option \<Rightarrow> bool \<Rightarrow> bool \<Rightarrow> bool \<Rightarrow> (nat \<Rightarrow> bool) \<Rightarrow> ios_thread_pool_config \<Rightarrow> ios_thread_pool option" where
  "ios_thread_pool_create sysctl pool_ok arrays_ok workers_ok spawn config =
     (if \<not> pool_ok then None
      else let n = (if tc_num_threads config \<le> 0 then get_cpu_count sysctl else tc_num_threads config);
               mq = (if tc_max_queue_size config > 0 then tc_max_queue_size config else DEFAULT_MAX_QUEUE_SIZE);
               urgent_cap = nat (mq div 8); high_cap = nat (mq div 4);
               normal_cap = nat (mq div 2); low_cap = nat (mq div 8)
           in if \<not> arrays_ok then None
              else if \<not> workers_ok then None
              else if \<exists>i \<in> {0..<nat n}. \<not> spawn i then None
              else Some \<lparr>tp_items = Map.empty, tp_num_threads = n, tp_max_queue_size = mq,
                tp_enable_priorities = tc_enable_priorities config,
                tp_name = take 63 (case tc_name config of Some s \<Rightarrow> s | None \<Rightarrow> DEFAULT_THREAD_NAME),
                tp_queues = (\<lambda>p. if p = IOS_PRIORITY_URGENT then empty_queue urgent_cap
                                 else if p = IOS_PRIORITY_HIGH then empty_queue high_cap
                                 else if p = IOS_PRIORITY_NORMAL then empty_queue normal_cap
                                 else empty_queue low_cap),
                tp_shutdown = False, tp_draining = False, tp_active_workers = 0,
                tp_total_submitted = 0, tp_total_completed = 0, tp_total_dropped = 0, tp_trace = []\<rparr>)"

definition ios_thread_pool_create_default ::
  "int option \<Rightarrow> bool \<Rightarrow> bool \<Rightarrow> bool \<Rightarrow> (nat \<Rightarrow> bool) \<Rightarrow> ios_thread_pool option" where
  "ios_thread_pool_create_default sysctl pool_ok arrays_ok workers_ok spawn =
     ios_thread_pool_create sysctl pool_ok arrays_ok workers_ok spawn
       \<lparr>tc_num_threads = 0, tc_max_queue_size = DEFAULT_MAX_QUEUE_SIZE, tc_enable_priorities = True,
        tc_name = Some DEFAULT_THREAD_NAME\<rparr>"

section \<open>Submission\<close>

text \<open>The part of a submission after the wait, under the mutex.\<close>

definition submit_locked ::
  "addr \<Rightarrow> ios_thread_pool \<Rightarrow> (addr option \<times> ios_thread_pool) option" where
  "submit_locked a pool =
     do { (rc, pool1) \<leftarrow> enqueue_work a pool;
          if rc \<noteq> 0
          then do { pool2 \<leftarrow> work_item_release_internal (Some a)
                               (pool1\<lparr>tp_total_dropped := tp_total_dropped pool1 + 1\<rparr>);
                    Some (None, pool2) }
          else Some (Some a, pool1\<lparr>tp_total_submitted := tp_total_submitted pool1 + 1\<rparr>) }"

fun submit_wait ::
  "nat \<Rightarrow> (ios_thread_pool \<Rightarrow> ios_thread_pool) list \<Rightarrow> ios_thread_pool \<Rightarrow> (unit, ios_thread_pool) exec" where
  "submit_wait p [] pool =
     (if wq_count (tp_queues pool p) \<ge> wq_capacity (tp_queues pool p) \<and> \<not> tp_shutdown pool
      then Blocked pool else Returns () pool)"
| "submit_wait p (w # ws) pool =
     (if wq_count (tp_queues pool p) \<ge> wq_capacity (tp_queues pool p) \<and> \<not> tp_shutdown pool
      then submit_wait p ws (w pool) else Returns () pool)"

definition ios_thread_pool_submit ::
  "(ios_thread_pool \<Rightarrow> ios_thread_pool) list \<Rightarrow> addr option \<Rightarrow> nat option \<Rightarrow> ptr \<Rightarrow> nat \<Rightarrow> ios_thread_pool \<Rightarrow>
   (addr option, ios_thread_pool) exec" where
  "ios_thread_pool_submit ws mem work_fn arg priority pool =
     (case work_fn of None \<Rightarrow> Returns None pool
      | Some fn \<Rightarrow>
          if tp_shutdown pool then Returns None pool
          else (case work_item_create mem fn arg priority pool of
                  (None, pool1) \<Rightarrow> Returns None pool1
                | (Some a, pool1) \<Rightarrow>
                    if priority > IOS_PRIORITY_URGENT then Crash
                    else (case submit_wait priority ws pool1 of
                            Blocked pool2 \<Rightarrow> Blocked pool2
                          | Crash \<Rightarrow> Crash
                          | Returns _ pool2 \<Rightarrow>
                              if tp_shutdown pool2
                              then (case work_item_release_internal (Some a) pool2 of
                                      None \<Rightarrow> Crash | Some pool3 \<Rightarrow> Returns None pool3)
                              else (case submit_locked a pool2 of
                                      None \<Rightarrow> Crash | Some (r, pool3) \<Rightarrow> Returns r pool3))))"

definition ios_thread_pool_try_submit ::
  "addr option \<Rightarrow> nat option \<Rightarrow> ptr \<Rightarrow> nat \<Rightarrow> ios_thread_pool \<Rightarrow> (addr option \<times> ios_thread_pool) option" where
  "ios_thread_pool_try_submit mem work_fn arg priority pool =
     (case work_fn of None \<Rightarrow> Some (None, pool)
      | Some fn \<Rightarrow>
          if tp_shutdown pool then Some (None, pool)
          else (case work_item_create mem fn arg priority pool of
                  (None, pool1) \<Rightarrow> Some (None, pool1)
                | (Some a, pool1) \<Rightarrow> submit_locked a pool1))"

text \<open>
  The callback is stored after the submission has returned; \<open>f\<close> is what the other threads, the
  workers included, do in between.
\<close>

definition ios_thread_pool_submit_with_callback ::
  "(ios_thread_pool \<Rightarrow> ios_thread_pool) list \<Rightarrow> (ios_thread_pool \<Rightarrow> ios_thread_pool) \<Rightarrow> addr option \<Rightarrow> nat option \<Rightarrow>
   ptr \<Rightarrow> nat \<Rightarrow> nat option \<Rightarrow> ptr \<Rightarrow> ios_thread_pool \<Rightarrow> (addr option, ios_thread_pool) exec" where
  "ios_thread_pool_submit_with_callback ws f mem work_fn arg priority callback user_data pool =
     (case ios_thread_pool_submit ws mem work_fn arg priority pool of
        Returns (Some a) pool1 \<Rightarrow>
          (case upd_item a (\<lambda>it. it\<lparr>wi_callback := callback, wi_user_data := user_data\<rparr>) (f pool1) of
             None \<Rightarrow> Crash | Some pool2 \<Rightarrow> Returns (Some a) pool2)
      | r \<Rightarrow> r)"

section \<open>The worker loop\<close>

datatype take_result = Exits | Sleeps | Takes addr

text \<open>One pass of the wait loop under \<^verbatim>\<open>queue_mutex\<close>.\<close>

definition worker_take :: "ios_thread_pool \<Rightarrow> (take_result \<times> ios_thread_pool) option" where
  "worker_take pool =
     (if tp_shutdown pool then Some (Exits, pool)
      else do { (item, pool1) \<leftarrow> dequeue_work pool;
                Some (case item of None \<Rightarrow> Sleeps | Some a \<Rightarrow> Takes a, pool1) })"

definition worker_begin :: "addr \<Rightarrow> ios_thread_pool \<Rightarrow> ios_thread_pool option" where
  "worker_begin a pool =
     do { it \<leftarrow> tp_items pool a;
          pool1 \<leftarrow> upd_item a (\<lambda>it. it\<lparr>wi_state := WORK_EXECUTING\<rparr>)
                     (pool\<lparr>tp_active_workers := tp_active_workers pool + 1\<rparr>);
          Some (pool1\<lparr>tp_trace := tp_trace pool1 @ [RanWork (wi_work_fn it) (wi_arg it)]\<rparr>) }"

definition worker_end :: "ios_thread_pool \<Rightarrow> ios_thread_pool" where
  "worker_end pool = pool\<lparr>tp_active_workers := tp_active_workers pool - 1\<rparr>"

definition worker_publish :: "addr \<Rightarrow> ptr \<Rightarrow> ios_thread_pool \<Rightarrow> ios_thread_pool option" where
  "worker_publish a result pool =
     upd_item a (\<lambda>it. it\<lparr>wi_result := result, wi_state := WORK_COMPLETED\<rparr>) pool"

definition worker_notify :: "addr \<Rightarrow> ptr \<Rightarrow> ios_thread_pool \<Rightarrow> ios_thread_pool option" where
  "worker_notify a result pool =
     do { it \<leftarrow> tp_items pool a;
          let pool1 = (case wi_callback it of None \<Rightarrow> pool
                       | Some cb \<Rightarrow> pool\<lparr>tp_trace := tp_trace pool @ [CalledBack cb result (wi_user_data it)]\<rparr>);
          work_item_release_internal (Some a)
            (pool1\<lparr>tp_total_completed := tp_total_completed pool1 + 1\<rparr>) }"

text \<open>All stages of one item without interruption.\<close>

definition worker_run :: "addr \<Rightarrow> ptr \<Rightarrow> ios_thread_pool \<Rightarrow> ios_thread_pool option" where
  "worker_run a result pool =
     do { pool1 \<leftarrow> worker_begin a pool;
          pool2 \<leftarrow> worker_publish a result (worker_end pool1);
          worker_notify a result pool2 }"

section \<open>Waiting, completing, cancelling\<close>

fun wait_loop ::
  "(ios_thread_pool \<Rightarrow> ios_thread_pool) list \<Rightarrow> addr \<Rightarrow> ios_thread_pool \<Rightarrow> (int \<times> ptr, ios_thread_pool) exec" where
  "wait_loop ws a pool =
     (case tp_items pool a of None \<Rightarrow> Crash
      | Some it \<Rightarrow>
          if wi_state it \<noteq> WORK_COMPLETED \<and> wi_state it \<noteq> WORK_CANCELLED
          then (case ws of [] \<Rightarrow> Blocked pool | w # ws' \<Rightarrow> wait_loop ws' a (w pool))
          else Returns (if wi_state it = WORK_COMPLETED then 0 else - 1, wi_result it) pool)"

text \<open>The return code and the result stored through the pointer.\<close>

definition ios_work_wait ::
  "(ios_thread_pool \<Rightarrow> ios_thread_pool) list \<Rightarrow> ptr \<Rightarrow> ios_thread_pool \<Rightarrow> (int \<times> ptr, ios_thread_pool) exec" where
  "ios_work_wait ws item pool =
     (case item of None \<Rightarrow> Returns (- 1, None) pool | Some a \<Rightarrow> wait_loop ws a pool)"

definition ios_work_is_complete :: "ptr \<Rightarrow> ios_thread_pool \<Rightarrow> bool option" where
  "ios_work_is_complete item pool =
     (case item of None \<Rightarrow> Some False
      | Some a \<Rightarrow> map_option (\<lambda>it. wi_state it = WORK_COMPLETED \<or> wi_state it = WORK_CANCELLED) (tp_items pool a))"

definition ios_work_complete :: "ptr \<Rightarrow> ptr \<Rightarrow> ios_thread_pool \<Rightarrow> ios_thread_pool option" where
  "ios_work_complete item result pool =
     (case item of None \<Rightarrow> Some pool
      | Some a \<Rightarrow>
          upd_item a (\<lambda>it. if wi_state it = WORK_EXECUTING
                           then it\<lparr>wi_result := result, wi_state := WORK_COMPLETED\<rparr> else it) pool)"

definition ios_work_cancel :: "ptr \<Rightarrow> ios_thread_pool \<Rightarrow> (bool \<times> ios_thread_pool) option" where
  "ios_work_cancel item pool =
     (case item of None \<Rightarrow> Some (False, pool)
      | Some a \<Rightarrow>
          do { it \<leftarrow> tp_items pool a;
               if wi_state it = WORK_PENDING
               then do { pool1 \<leftarrow> upd_item a (\<lambda>it. it\<lparr>wi_state := WORK_CANCELLED\<rparr>) pool; Some (True, pool1) }
               else Some (False, pool) })"

section \<open>Shutdown, draining, statistics\<close>

text \<open>
  The flag is set, the workers are woken and joined; \<open>join\<close> is what they do until they exit.
  The timeout is not used.
\<close>

definition ios_thread_pool_shutdown ::
  "(ios_thread_pool \<Rightarrow> ios_thread_pool) \<Rightarrow> int \<Rightarrow> ios_thread_pool \<Rightarrow> int \<times> ios_thread_pool" where
  "ios_thread_pool_shutdown join timeout_ms pool = (0, join (pool\<lparr>tp_shutdown := True\<rparr>))"

text \<open>The pool, its queues and its workers are freed; the items that are left stay allocated.\<close>

definition ios_thread_pool_destroy ::
  "(ios_thread_pool \<Rightarrow> ios_thread_pool) \<Rightarrow> ios_thread_pool option \<Rightarrow> item_store option" where
  "ios_thread_pool_destroy join pool =
     (case pool of None \<Rightarrow> None | Some p \<Rightarrow> Some (tp_items (snd (ios_thread_pool_shutdown join (- 1) p))))"

definition total_queued :: "ios_thread_pool \<Rightarrow> nat" where
  "total_queued pool = wq_count (tp_queues pool 0) + wq_count (tp_queues pool 1) +
     wq_count (tp_queues pool 2) + wq_count (tp_queues pool 3)"

definition ios_thread_pool_get_stats :: "ios_thread_pool \<Rightarrow> ios_thread_pool_stats" where
  "ios_thread_pool_get_stats pool =
     \<lparr>ts_num_threads = tp_num_threads pool, ts_active_threads = tp_active_workers pool,
      ts_idle_threads = tp_num_threads pool - tp_active_workers pool, ts_queue_size = total_queued pool,
      ts_max_queue_size = tp_max_queue_size pool, ts_total_submitted = tp_total_submitted pool,
      ts_total_completed = tp_total_completed pool, ts_total_dropped = tp_total_dropped pool\<rparr>"

text \<open>Each entry of the schedule is what the others do during one sleep of the polling loop.\<close>

fun drain_loop :: "(ios_thread_pool \<Rightarrow> ios_thread_pool) list \<Rightarrow> ios_thread_pool \<Rightarrow> (unit, ios_thread_pool) exec" where
  "drain_loop [] pool =
     (if total_queued pool = 0 \<and> tp_active_workers pool = 0 then Returns () pool else Blocked pool)"
| "drain_loop (w # ws) pool =
     (if total_queued pool = 0 \<and> tp_active_workers pool = 0 then Returns () pool else drain_loop ws (w pool))"

definition ios_thread_pool_drain ::
  "(ios_thread_pool \<Rightarrow> ios_thread_pool) list \<Rightarrow> int \<Rightarrow> ios_thread_pool \<Rightarrow> (int, ios_thread_pool) exec" where
  "ios_thread_pool_drain ws timeout_ms pool =
     (case drain_loop ws (pool\<lparr>tp_draining := True\<rparr>) of
        Returns _ pool1 \<Rightarrow> Returns 0 (pool1\<lparr>tp_draining := False\<rparr>)
      | Blocked pool1 \<Rightarrow> Blocked pool1
      | Crash \<Rightarrow> Crash)"

definition ios_thread_pool_resize :: "int \<Rightarrow> ios_thread_pool \<Rightarrow> int" where
  "ios_thread_pool_resize new_size pool = - 1"

section \<open>One queue\<close>

definition wq_inv :: "work_queue \<Rightarrow> bool" where
  "wq_inv q \<longleftrightarrow> length (wq_slots q) = wq_capacity q \<and> wq_count q \<le> wq_capacity q \<and>
     (0 < wq_capacity q \<longrightarrow> wq_head q < wq_capacity q \<and>
        wq_tail q = (wq_head q + wq_count q) mod wq_capacity q) \<and>
     (\<forall>i < wq_count q. wq_slots q ! ((wq_head q + i) mod wq_capacity q) \<noteq> None)"

definition wq_contents :: "work_queue \<Rightarrow> addr list" where
  "wq_contents q = map (\<lambda>i. the (wq_slots q ! ((wq_head q + i) mod wq_capacity q))) [0..<wq_count q]"

definition wq_room :: "work_queue \<Rightarrow> nat" where
  "wq_room q = wq_capacity q - wq_count q"

lemma length_wq_contents [simp]: "length (wq_contents q) = wq_count q"
  by (simp add: wq_contents_def)

lemma mod_add_inj:
  "i < n \<Longrightarrow> j < n \<Longrightarrow> h < n \<Longrightarrow> (h + i) mod n = (h + j) mod n \<longleftrightarrow> i = (j :: nat)"
  by (auto simp: mod_wrap split: if_splits)

lemma enqueue_into_spec:
  assumes q: "wq_inv q" and room: "wq_count q < wq_capacity q"
  shows "\<exists>q'. enqueue_into a q = Some q' \<and> wq_inv q' \<and> wq_contents q' = wq_contents q @ [a] \<and>
    wq_capacity q' = wq_capacity q \<and> wq_count q' = wq_count q + 1"
proof -
  let ?c = "wq_capacity q" let ?h = "wq_head q" let ?n = "wq_count q"
  let ?q = "q\<lparr>wq_slots := (wq_slots q)[wq_tail q := Some a], wq_tail := (wq_tail q + 1) mod ?c, wq_count := ?n + 1\<rparr>"
  have inv: "length (wq_slots q) = ?c" "?h < ?c" "wq_tail q = (?h + ?n) mod ?c"
    "\<And>i. i < ?n \<Longrightarrow> wq_slots q ! ((?h + i) mod ?c) \<noteq> None"
    using q room by (auto simp: wq_inv_def)
  have t: "wq_tail q < ?c" using inv(3) room by simp
  have nth: "wq_slots ?q ! ((?h + i) mod ?c) = (if i = ?n then Some a else wq_slots q ! ((?h + i) mod ?c))"
    if "i \<le> ?n" for i
    using that room inv mod_add_inj [of i ?c ?n ?h] by (auto simp: nth_list_update)
  have "wq_inv ?q"
    unfolding wq_inv_def
  proof (intro conjI)
    show "\<forall>i < wq_count ?q. wq_slots ?q ! ((wq_head ?q + i) mod wq_capacity ?q) \<noteq> None"
    proof (intro allI impI)
      fix i assume "i < wq_count ?q"
      then have "i \<le> ?n" by simp
      from nth [OF this] inv(4) [of i] \<open>i \<le> ?n\<close> show "wq_slots ?q ! ((wq_head ?q + i) mod wq_capacity ?q) \<noteq> None"
        by (cases "i = ?n") simp_all
    qed
  qed (use inv room in \<open>simp_all add: mod_simps\<close>)
  moreover have "wq_contents ?q = wq_contents q @ [a]"
  proof -
    have "wq_contents ?q = map (\<lambda>i. the (wq_slots ?q ! ((?h + i) mod ?c))) [0..<?n] @
      [the (wq_slots ?q ! ((?h + ?n) mod ?c))]" by (simp add: wq_contents_def)
    also have "map (\<lambda>i. the (wq_slots ?q ! ((?h + i) mod ?c))) [0..<?n] = wq_contents q"
      unfolding wq_contents_def by (rule map_cong) (use nth in auto)
    also have "the (wq_slots ?q ! ((?h + ?n) mod ?c)) = a" using nth [of ?n] by simp
    finally show ?thesis .
  qed
  ultimately show ?thesis using t inv(1) by (intro exI [of _ ?q]) (simp add: enqueue_into_def)
qed

lemma dequeue_from_spec:
  assumes q: "wq_inv q" and c: "wq_contents q = a # as"
  shows "\<exists>q'. dequeue_from q = Some (Some a, q') \<and> wq_inv q' \<and> wq_contents q' = as \<and>
    wq_capacity q' = wq_capacity q \<and> wq_count q' = wq_count q - 1"
proof -
  let ?c = "wq_capacity q" let ?h = "wq_head q" let ?n = "wq_count q"
  let ?q = "q\<lparr>wq_slots := (wq_slots q)[?h := None], wq_head := (?h + 1) mod ?c, wq_count := ?n - 1\<rparr>"
  have n: "0 < ?n" using c length_wq_contents [of q] by simp
  have inv: "length (wq_slots q) = ?c" "?n \<le> ?c" "?h < ?c" "wq_tail q = (?h + ?n) mod ?c"
    "\<And>i. i < ?n \<Longrightarrow> wq_slots q ! ((?h + i) mod ?c) \<noteq> None"
    using q n by (auto simp: wq_inv_def)
  have nth: "wq_slots ?q ! ((wq_head ?q + i) mod ?c) = wq_slots q ! ((?h + Suc i) mod ?c)"
    if "Suc i < ?n" for i
    using that inv mod_add_inj [of "Suc i" ?c 0 ?h] by (auto simp: mod_simps nth_list_update)
  have "wq_inv ?q"
    unfolding wq_inv_def
  proof (intro conjI)
    show "\<forall>i < wq_count ?q. wq_slots ?q ! ((wq_head ?q + i) mod wq_capacity ?q) \<noteq> None"
    proof (intro allI impI)
      fix i assume "i < wq_count ?q"
      then have "Suc i < ?n" by simp
      from nth [OF this] inv(5) [OF this] show "wq_slots ?q ! ((wq_head ?q + i) mod wq_capacity ?q) \<noteq> None"
        by simp
    qed
  next
    have "((?h + 1) mod ?c + (?n - 1)) mod ?c = (?h + 1 + (?n - 1)) mod ?c" by (rule mod_add_left_eq)
    then show "0 < wq_capacity ?q \<longrightarrow> wq_head ?q < wq_capacity ?q \<and>
        wq_tail ?q = (wq_head ?q + wq_count ?q) mod wq_capacity ?q"
      using inv n by simp
  qed (use inv n in simp_all)
  moreover have up: "[0..<?n] = 0 # map Suc [0..<?n - 1]" using n by (simp add: upt_conv_Cons map_Suc_upt)
  have "wq_contents ?q = map (\<lambda>i. the (wq_slots q ! ((?h + Suc i) mod ?c))) [0..<?n - 1]"
    unfolding wq_contents_def by (rule map_cong) (use nth in auto)
  moreover have "wq_contents q = the (wq_slots q ! ?h) # map (\<lambda>i. the (wq_slots q ! ((?h + Suc i) mod ?c))) [0..<?n - 1]"
    unfolding wq_contents_def up using inv(3) by (simp add: comp_def)
  ultimately have "wq_inv ?q" "wq_contents ?q = as" "the (wq_slots q ! ?h) = a" using c by simp_all
  moreover have "wq_slots q ! ?h \<noteq> None" using inv(5) [of 0] n inv(3) by simp
  ultimately show ?thesis using inv n
    by (intro exI [of _ ?q]) (auto simp: dequeue_from_def)
qed

definition wq_enq :: "work_queue \<Rightarrow> addr \<Rightarrow> work_queue option" where
  "wq_enq q a = (if wq_count q \<ge> wq_capacity q then None else enqueue_into a q)"

definition wq_deq :: "work_queue \<Rightarrow> (addr \<times> work_queue) option" where
  "wq_deq q = (if wq_count q > 0
     then (case dequeue_from q of Some (Some a, q') \<Rightarrow> Some (a, q') | _ \<Rightarrow> None) else None)"

interpretation wq: bounded_queue wq_inv wq_contents wq_room wq_enq wq_deq
proof
  fix q a assume q: "wq_inv q"
  { assume "wq_room q = 0"
    then show "wq_enq q a = None" by (simp add: wq_enq_def wq_room_def) }
  { assume "0 < wq_room q"
    then show "\<exists>q'. wq_enq q a = Some q' \<and> wq_inv q' \<and> wq_contents q' = wq_contents q @ [a] \<and>
      wq_room q' = wq_room q - 1"
      using enqueue_into_spec [OF q, of a] by (auto simp: wq_enq_def wq_room_def) }
  { assume "wq_contents q = []"
    then have "wq_count q = 0" using length_wq_contents [of q] by simp
    then show "wq_deq q = None" by (simp add: wq_deq_def) }
  { fix as assume c: "wq_contents q = a # as"
    have "0 < wq_count q" "wq_count q \<le> wq_capacity q"
      using c length_wq_contents [of q] q by (auto simp: wq_inv_def)
    then show "\<exists>q'. wq_deq q = Some (a, q') \<and> wq_inv q' \<and> wq_contents q' = as \<and> wq_room q' = wq_room q + 1"
      using dequeue_from_spec [OF q c] by (auto simp: wq_deq_def wq_room_def) }
qed

section \<open>The four queues\<close>

definition queues_ok :: "ios_thread_pool \<Rightarrow> bool" where
  "queues_ok pool \<longleftrightarrow> (\<forall>p < 4. wq_inv (tp_queues pool p))"

abbreviation queue_of :: "ios_thread_pool \<Rightarrow> nat \<Rightarrow> addr list" where
  "queue_of pool p \<equiv> wq_contents (tp_queues pool p)"

definition queued :: "ios_thread_pool \<Rightarrow> addr multiset" where
  "queued pool = mset (queue_of pool 0) + mset (queue_of pool 1) + mset (queue_of pool 2) + mset (queue_of pool 3)"

lemma queued_upd_add:
  "p < 4 \<Longrightarrow> wq_contents q = queue_of pool p @ [a] \<Longrightarrow>
   queued (pool\<lparr>tp_queues := (tp_queues pool)(p := q)\<rparr>) = add_mset a (queued pool)"
  by (auto simp: queued_def less_Suc_eq numeral_eq_Suc)

lemma queued_upd_remove:
  "p < 4 \<Longrightarrow> queue_of pool p = a # wq_contents q \<Longrightarrow>
   queued pool = add_mset a (queued (pool\<lparr>tp_queues := (tp_queues pool)(p := q)\<rparr>))"
  by (auto simp: queued_def less_Suc_eq numeral_eq_Suc)

lemma queue_frames [simp]:
  "queued (pool\<lparr>tp_items := m\<rparr>) = queued pool" "queues_ok (pool\<lparr>tp_items := m\<rparr>) = queues_ok pool"
  "queued (pool\<lparr>tp_active_workers := n\<rparr>) = queued pool" "queues_ok (pool\<lparr>tp_active_workers := n\<rparr>) = queues_ok pool"
  "queued (pool\<lparr>tp_trace := tr\<rparr>) = queued pool" "queues_ok (pool\<lparr>tp_trace := tr\<rparr>) = queues_ok pool"
  "queued (pool\<lparr>tp_total_submitted := x\<rparr>) = queued pool" "queues_ok (pool\<lparr>tp_total_submitted := x\<rparr>) = queues_ok pool"
  "queued (pool\<lparr>tp_total_completed := x\<rparr>) = queued pool" "queues_ok (pool\<lparr>tp_total_completed := x\<rparr>) = queues_ok pool"
  "queued (pool\<lparr>tp_total_dropped := x\<rparr>) = queued pool" "queues_ok (pool\<lparr>tp_total_dropped := x\<rparr>) = queues_ok pool"
  "queued (pool\<lparr>tp_shutdown := b\<rparr>) = queued pool" "queues_ok (pool\<lparr>tp_shutdown := b\<rparr>) = queues_ok pool"
  "queued (pool\<lparr>tp_draining := b\<rparr>) = queued pool" "queues_ok (pool\<lparr>tp_draining := b\<rparr>) = queues_ok pool"
  by (simp_all add: queued_def queues_ok_def)

lemma queues_ok_upd: "queues_ok pool \<Longrightarrow> wq_inv q \<Longrightarrow> queues_ok (pool\<lparr>tp_queues := (tp_queues pool)(p := q)\<rparr>)"
  by (simp add: queues_ok_def)

lemma dequeue_below_spec:
  assumes "queues_ok pool" and "n \<le> 4"
  shows "(\<forall>p < n. queue_of pool p = []) \<and> dequeue_below n pool = Some (None, pool) \<or>
    (\<exists>p a q. p < n \<and> (\<forall>r. p < r \<and> r < n \<longrightarrow> queue_of pool r = []) \<and> queue_of pool p = a # wq_contents q \<and>
       wq_inv q \<and> dequeue_below n pool = Some (Some a, pool\<lparr>tp_queues := (tp_queues pool)(p := q)\<rparr>))"
  using assms(2)
proof (induction n)
  case 0
  then show ?case by simp
next
  case (Suc n)
  show ?case
  proof (cases "queue_of pool n")
    case Nil
    then have c: "wq_count (tp_queues pool n) = 0" using length_wq_contents [of "tp_queues pool n"] by simp
    have "(\<forall>p < n. queue_of pool p = []) \<and> dequeue_below n pool = Some (None, pool) \<or>
      (\<exists>p a q. p < n \<and> (\<forall>r. p < r \<and> r < n \<longrightarrow> queue_of pool r = []) \<and> queue_of pool p = a # wq_contents q \<and>
       wq_inv q \<and> dequeue_below n pool = Some (Some a, pool\<lparr>tp_queues := (tp_queues pool)(p := q)\<rparr>))"
      using Suc.IH Suc.prems by (simp del: fun_upd_apply)
    then show ?thesis
    proof (elim disjE conjE exE)
      assume "\<forall>p < n. queue_of pool p = []" "dequeue_below n pool = Some (None, pool)"
      with c Nil show ?thesis by (simp add: less_Suc_eq)
    next
      fix p a q
      assume "p < n" "\<forall>r. p < r \<and> r < n \<longrightarrow> queue_of pool r = []" "queue_of pool p = a # wq_contents q" "wq_inv q"
        "dequeue_below n pool = Some (Some a, pool\<lparr>tp_queues := (tp_queues pool)(p := q)\<rparr>)"
      with c Nil show ?thesis
        by - (rule disjI2, rule exI [of _ p], rule exI [of _ a], rule exI [of _ q],
            auto simp: less_Suc_eq simp del: fun_upd_apply)
    qed
  next
    case (Cons a as)
    have inv: "wq_inv (tp_queues pool n)" using assms(1) Suc.prems by (simp add: queues_ok_def)
    have c: "0 < wq_count (tp_queues pool n)" using Cons length_wq_contents [of "tp_queues pool n"] by simp
    from dequeue_from_spec [OF inv Cons] obtain q where
      "dequeue_from (tp_queues pool n) = Some (Some a, q)" "wq_inv q" "wq_contents q = as" by blast
    with c Cons show ?thesis
      by - (rule disjI2, rule exI [of _ n], rule exI [of _ a], rule exI [of _ q],
          auto simp del: fun_upd_apply)
  qed
qed

lemma enqueue_work_spec:
  assumes "queues_ok pool" and it: "tp_items pool a = Some it" and p: "wi_priority it = p" "p < 4"
  shows "if wq_count (tp_queues pool p) \<ge> wq_capacity (tp_queues pool p)
    then enqueue_work a pool = Some (- 1, pool)
    else \<exists>q. enqueue_work a pool = Some (0, pool\<lparr>tp_queues := (tp_queues pool)(p := q),
        tp_items := (tp_items pool)(a \<mapsto> it\<lparr>wi_ref_count := wi_ref_count it + 1\<rparr>)\<rparr>) \<and>
      wq_inv q \<and> wq_contents q = queue_of pool p @ [a]"
proof (cases "wq_count (tp_queues pool p) \<ge> wq_capacity (tp_queues pool p)")
  case True
  with it p show ?thesis by (simp add: enqueue_work_def IOS_PRIORITY_URGENT_def)
next
  case False
  then have room: "wq_count (tp_queues pool p) < wq_capacity (tp_queues pool p)" by simp
  have "wq_inv (tp_queues pool p)" using assms(1) p(2) by (simp add: queues_ok_def)
  from enqueue_into_spec [OF this room, of a] obtain q where
    "enqueue_into a (tp_queues pool p) = Some q" "wq_inv q" "wq_contents q = queue_of pool p @ [a]" by blast
  with False it p show ?thesis
    by (simp add: exI [of _ q] enqueue_work_def IOS_PRIORITY_URGENT_def work_item_retain_def upd_item_def)
qed

section \<open>Reference counts\<close>

definition ref_entry :: "ios_work_item option \<Rightarrow> nat \<Rightarrow> bool" where
  "ref_entry x n \<longleftrightarrow> (case x of None \<Rightarrow> n = 0
     | Some it \<Rightarrow> wi_ref_count it = int n \<and> 0 < n \<and> wi_priority it < 4)"

definition ref_ok :: "item_store \<Rightarrow> (addr \<Rightarrow> nat) \<Rightarrow> bool" where
  "ref_ok m r \<longleftrightarrow> (\<forall>a. ref_entry (m a) (r a))"

lemma ref_entry_simps [simp]:
  "ref_entry None n \<longleftrightarrow> n = 0"
  "ref_entry (Some it) n \<longleftrightarrow> wi_ref_count it = int n \<and> 0 < n \<and> wi_priority it < 4"
  by (simp_all add: ref_entry_def)

lemma ref_ok_at: "ref_ok m r \<Longrightarrow> ref_entry (m a) (r a)"
  by (simp add: ref_ok_def)

lemma ref_ok_held: "ref_ok m r \<Longrightarrow> 0 < r a \<Longrightarrow> \<exists>it. m a = Some it \<and> wi_ref_count it = int (r a) \<and> wi_priority it < 4"
  using ref_ok_at [of m r a] by (cases "m a") auto

lemma ref_ok_change: "ref_ok m r \<Longrightarrow> ref_entry x n \<Longrightarrow> ref_ok (m(a := x)) (r(a := n))"
  unfolding ref_ok_def by simp

lemma ref_ok_same:
  assumes "ref_ok m r" and "m a = Some it" and "wi_ref_count it' = wi_ref_count it" and "wi_priority it' = wi_priority it"
  shows "ref_ok (m(a \<mapsto> it')) r"
  using ref_ok_change [OF assms(1), of "Some it'" "r a" a] ref_ok_at [OF assms(1), of a] assms(2-) by simp

lemma release_ref_ok:
  assumes "ref_ok (tp_items pool) r" and "0 < r a"
  shows "\<exists>m. work_item_release_internal (Some a) pool = Some (pool\<lparr>tp_items := m\<rparr>) \<and> ref_ok m (r(a := r a - 1))"
proof -
  obtain it where it: "tp_items pool a = Some it" "wi_ref_count it = int (r a)" "wi_priority it < 4"
    using ref_ok_held [OF assms] by blast
  show ?thesis
  proof (cases "r a = 1")
    case True
    with it ref_ok_change [OF assms(1), of None 0 a] show ?thesis
      by (intro exI [of _ "(tp_items pool)(a := None)"]) (simp add: work_item_release_internal_def)
  next
    case False
    let ?it = "it\<lparr>wi_ref_count := wi_ref_count it - 1\<rparr>"
    have "ref_ok ((tp_items pool)(a \<mapsto> ?it)) (r(a := r a - 1))"
      by (rule ref_ok_change [OF assms(1)]) (use it False assms(2) in \<open>simp add: of_nat_diff\<close>)
    with it False assms(2) show ?thesis
      by (intro exI [of _ "(tp_items pool)(a \<mapsto> ?it)"]) (simp add: work_item_release_internal_def upd_item_def)
  qed
qed

text \<open>
  The pool with \<open>r a\<close> references to item \<open>a\<close> from outside the queues: the reference count of every
  live item is the number of its references, and only live items are referenced.
\<close>

definition pool_ok :: "ios_thread_pool \<Rightarrow> (addr \<Rightarrow> nat) \<Rightarrow> bool" where
  "pool_ok pool r \<longleftrightarrow> queues_ok pool \<and> ref_ok (tp_items pool) (\<lambda>a. count (queued pool) a + r a)"

lemma pool_ok_held: "pool_ok pool r \<Longrightarrow> 0 < r a \<Longrightarrow> \<exists>it. tp_items pool a = Some it \<and> wi_priority it < 4"
  using ref_ok_held [of "tp_items pool" "\<lambda>a. count (queued pool) a + r a" a] by (auto simp: pool_ok_def)

lemma pool_ok_frame:
  "tp_items pool' = tp_items pool \<Longrightarrow> tp_queues pool' = tp_queues pool \<Longrightarrow> pool_ok pool' r = pool_ok pool r"
  by (simp add: pool_ok_def queues_ok_def queued_def)

lemma pool_ok_cong: "pool_ok pool r \<Longrightarrow> r = r' \<Longrightarrow> pool_ok pool r'"
  by simp

lemma upd_item_ok:
  assumes ok: "pool_ok pool r" and a: "0 < r a"
    and f: "\<And>it. wi_ref_count (f it) = wi_ref_count it" "\<And>it. wi_priority (f it) = wi_priority it"
  shows "\<exists>pool'. upd_item a f pool = Some pool' \<and> pool_ok pool' r \<and> tp_queues pool' = tp_queues pool"
proof -
  obtain it where it: "tp_items pool a = Some it" using pool_ok_held [OF ok a] by blast
  have "ref_ok ((tp_items pool)(a \<mapsto> f it)) (\<lambda>a. count (queued pool) a + r a)"
    by (rule ref_ok_same [where it = it]) (use ok it f in \<open>simp_all add: pool_ok_def\<close>)
  with ok it show ?thesis by (simp add: upd_item_def pool_ok_def queues_ok_def)
qed

lemma release_ok:
  assumes ok: "pool_ok pool r" and a: "0 < r a"
  shows "\<exists>pool'. work_item_release_internal (Some a) pool = Some pool' \<and> pool_ok pool' (r(a := r a - 1))"
proof -
  let ?R = "\<lambda>a. count (queued pool) a + r a"
  have "ref_ok (tp_items pool) ?R" "0 < ?R a" using ok a by (simp_all add: pool_ok_def)
  from release_ref_ok [OF this] obtain m where
    m: "work_item_release_internal (Some a) pool = Some (pool\<lparr>tp_items := m\<rparr>)" "ref_ok m (?R(a := ?R a - 1))" by blast
  have "?R(a := ?R a - 1) = (\<lambda>x. count (queued pool) x + (r(a := r a - 1)) x)" using a by auto
  with m ok show ?thesis by (auto simp: pool_ok_def queues_ok_def)
qed

lemma worker_take_ok:
  assumes ok: "pool_ok pool r"
  shows "\<exists>t pool'. worker_take pool = Some (t, pool') \<and>
    (case t of Takes a \<Rightarrow> pool_ok pool' (r(a := r a + 1)) | _ \<Rightarrow> pool' = pool)"
proof (cases "tp_shutdown pool")
  case True
  then show ?thesis by (simp add: worker_take_def)
next
  case False
  have q: "queues_ok pool" using ok by (simp add: pool_ok_def)
  from dequeue_below_spec [OF q order_refl] show ?thesis
  proof (elim disjE conjE exE)
    assume "dequeue_below 4 pool = Some (None, pool)"
    with False show ?thesis by (simp add: worker_take_def dequeue_work_def IOS_PRIORITY_URGENT_def)
  next
    fix p a q'
    assume p: "p < 4" "queue_of pool p = a # wq_contents q'" "wq_inv q'"
      and d: "dequeue_below 4 pool = Some (Some a, pool\<lparr>tp_queues := (tp_queues pool)(p := q')\<rparr>)"
    let ?p = "pool\<lparr>tp_queues := (tp_queues pool)(p := q')\<rparr>"
    have "(\<lambda>x. count (queued pool) x + r x) = (\<lambda>x. count (queued ?p) x + (r(a := r a + 1)) x)"
      unfolding queued_upd_remove [OF p(1,2)] by auto
    with ok queues_ok_upd [OF q p(3)] have "pool_ok ?p (r(a := r a + 1))" by (simp add: pool_ok_def)
    with False d show ?thesis by (simp add: worker_take_def dequeue_work_def IOS_PRIORITY_URGENT_def)
  qed
qed

lemma worker_begin_ok:
  assumes ok: "pool_ok pool r" and a: "0 < r a"
  shows "\<exists>pool'. worker_begin a pool = Some pool' \<and> pool_ok pool' r"
proof -
  have "pool_ok (pool\<lparr>tp_active_workers := tp_active_workers pool + 1\<rparr>) r"
    using ok pool_ok_frame [of "pool\<lparr>tp_active_workers := tp_active_workers pool + 1\<rparr>" pool r] by simp
  from upd_item_ok [OF this a, of "\<lambda>it. it\<lparr>wi_state := WORK_EXECUTING\<rparr>"] obtain p1 where
    p1: "upd_item a (\<lambda>it. it\<lparr>wi_state := WORK_EXECUTING\<rparr>) (pool\<lparr>tp_active_workers := tp_active_workers pool + 1\<rparr>) = Some p1"
      "pool_ok p1 r" by auto
  obtain it where "tp_items pool a = Some it" using pool_ok_held [OF ok a] by blast
  with p1 pool_ok_frame [of "p1\<lparr>tp_trace := _\<rparr>" p1 r] show ?thesis by (simp add: worker_begin_def)
qed

lemma worker_end_ok: "pool_ok (worker_end pool) r = pool_ok pool r"
  by (rule pool_ok_frame) (simp_all add: worker_end_def)

lemma worker_publish_ok:
  assumes "pool_ok pool r" and "0 < r a"
  shows "\<exists>pool'. worker_publish a res pool = Some pool' \<and> pool_ok pool' r"
  using upd_item_ok [OF assms, of "\<lambda>it. it\<lparr>wi_result := res, wi_state := WORK_COMPLETED\<rparr>"]
  by (auto simp: worker_publish_def)

lemma worker_notify_ok:
  assumes ok: "pool_ok pool r" and a: "0 < r a"
  shows "\<exists>pool'. worker_notify a res pool = Some pool' \<and> pool_ok pool' (r(a := r a - 1))"
proof -
  obtain it where it: "tp_items pool a = Some it" using pool_ok_held [OF ok a] by blast
  define p1 where "p1 = (case wi_callback it of None \<Rightarrow> pool
     | Some cb \<Rightarrow> pool\<lparr>tp_trace := tp_trace pool @ [CalledBack cb res (wi_user_data it)]\<rparr>)"
  have "pool_ok (p1\<lparr>tp_total_completed := tp_total_completed p1 + 1\<rparr>) r"
    using ok pool_ok_frame [of "p1\<lparr>tp_total_completed := tp_total_completed p1 + 1\<rparr>" pool r]
    by (simp add: p1_def split: option.splits)
  from release_ok [OF this a] it show ?thesis by (simp add: worker_notify_def p1_def [symmetric])
qed

lemma submit_locked_ok:
  assumes ok: "pool_ok pool r" and a: "tp_items pool a = None" and p: "priority < 4"
  shows "\<exists>res pool'. submit_locked a (pool\<lparr>tp_items := (tp_items pool)(a \<mapsto> new_item fn arg priority)\<rparr>) = Some (res, pool') \<and>
    (case res of None \<Rightarrow> pool_ok pool' r | Some b \<Rightarrow> b = a \<and> pool_ok pool' (r(a := 1)))"
proof -
  let ?it = "new_item fn arg priority"
  let ?p = "pool\<lparr>tp_items := (tp_items pool)(a \<mapsto> ?it)\<rparr>"
  have z: "count (queued pool) a = 0" "r a = 0"
    using ok a ref_ok_at [of "tp_items pool" _ a] by (auto simp: pool_ok_def)
  have q: "queues_ok ?p" using ok by (simp add: pool_ok_def queues_ok_def)
  have it: "tp_items ?p a = Some ?it" "wi_priority ?it = priority" by (simp_all add: new_item_def)
  have ref: "ref_ok ((tp_items pool)(a := x)) ((\<lambda>x. count (queued pool) x + r x)(a := n))" if "ref_entry x n" for x n
    by (rule ref_ok_change [OF _ that]) (use ok in \<open>simp add: pool_ok_def\<close>)
  have cnt: "(\<lambda>x. count (queued pool) x + r x)(a := n) = (\<lambda>x. count (queued pool) x + (r(a := n)) x)" for n
    using z by auto
  show ?thesis
  proof (cases "wq_count (tp_queues ?p priority) \<ge> wq_capacity (tp_queues ?p priority)")
    case True
    then have "enqueue_work a ?p = Some (- 1, ?p)" using enqueue_work_spec [OF q it p] by simp
    moreover have "pool_ok pool r" by (rule ok)
    moreover have "pool\<lparr>tp_items := tp_items pool, tp_total_dropped := n\<rparr> = pool\<lparr>tp_total_dropped := n\<rparr>" for n
      by simp
    moreover have "(tp_items pool)(a := None) = tp_items pool" using a by auto
    ultimately show ?thesis
      using pool_ok_frame [of "pool\<lparr>tp_total_dropped := tp_total_dropped pool + 1\<rparr>" pool r]
      by (simp add: submit_locked_def work_item_release_internal_def new_item_def)
  next
    case False
    then obtain q' where q': "enqueue_work a ?p = Some (0, ?p\<lparr>tp_queues := (tp_queues ?p)(priority := q'),
        tp_items := (tp_items ?p)(a \<mapsto> ?it\<lparr>wi_ref_count := wi_ref_count ?it + 1\<rparr>)\<rparr>)"
      "wq_inv q'" "wq_contents q' = queue_of pool priority @ [a]"
      using enqueue_work_spec [OF q it p] by auto
    let ?f = "pool\<lparr>tp_items := (tp_items pool)(a \<mapsto> ?it\<lparr>wi_ref_count := 2\<rparr>),
       tp_queues := (tp_queues pool)(priority := q'), tp_total_submitted := tp_total_submitted pool + 1\<rparr>"
    have s: "submit_locked a ?p = Some (Some a, ?f)"
      using q'(1) by (simp add: submit_locked_def new_item_def)
    have qd: "queued ?f = add_mset a (queued pool)"
      using queued_upd_add [OF p, of q' pool a] q'(3) by (simp add: queued_def)
    have "(\<lambda>x. count (queued pool) x + r x)(a := 2) = (\<lambda>x. count (queued ?f) x + (r(a := 1)) x)"
      unfolding qd using z by auto
    with ref [of "Some (?it\<lparr>wi_ref_count := 2\<rparr>)" 2] p
    have "ref_ok (tp_items ?f) (\<lambda>x. count (queued ?f) x + (r(a := 1)) x)" by (simp add: new_item_def)
    moreover have "queues_ok ?f" using q q'(2) by (simp add: queues_ok_def)
    ultimately have "pool_ok ?f (r(a := 1))" unfolding pool_ok_def by blast
    with s show ?thesis by simp
  qed
qed

lemma cancel_ok:
  assumes ok: "pool_ok pool r" and a: "0 < r a"
  shows "\<exists>b pool'. ios_work_cancel (Some a) pool = Some (b, pool') \<and> pool_ok pool' r"
proof -
  obtain it where "tp_items pool a = Some it" using pool_ok_held [OF ok a] by blast
  with ok upd_item_ok [OF ok a, of "\<lambda>it. it\<lparr>wi_state := WORK_CANCELLED\<rparr>"] show ?thesis
    by (cases "wi_state it = WORK_PENDING") (auto simp: ios_work_cancel_def)
qed

lemma complete_ok:
  assumes "pool_ok pool r" and "0 < r a"
  shows "\<exists>pool'. ios_work_complete (Some a) res pool = Some pool' \<and> pool_ok pool' r"
proof -
  have "\<exists>pool'. upd_item a (\<lambda>it. if wi_state it = WORK_EXECUTING
      then it\<lparr>wi_result := res, wi_state := WORK_COMPLETED\<rparr> else it) pool = Some pool' \<and> pool_ok pool' r \<and>
      tp_queues pool' = tp_queues pool"
    by (rule upd_item_ok [OF assms]) simp_all
  then show ?thesis by (auto simp: ios_work_complete_def)
qed

lemma try_submit_ok:
  assumes ok: "pool_ok pool r" and mem: "\<forall>a. mem = Some a \<longrightarrow> tp_items pool a = None" and p: "priority < 4"
  shows "\<exists>res pool'. ios_thread_pool_try_submit mem fn arg priority pool = Some (res, pool') \<and>
    (case res of None \<Rightarrow> pool_ok pool' r | Some a \<Rightarrow> mem = Some a \<and> r a = 0 \<and> pool_ok pool' (r(a := 1)))"
proof (cases "fn = None \<or> tp_shutdown pool \<or> mem = None")
  case True
  with ok show ?thesis
    by (auto simp: ios_thread_pool_try_submit_def work_item_create_def split: option.splits)
next
  case False
  then obtain f a where fa: "fn = Some f" "mem = Some a" "\<not> tp_shutdown pool" by auto
  then have a: "tp_items pool a = None" using mem by simp
  have "r a = 0" using ok a ref_ok_at [of "tp_items pool" "\<lambda>a. count (queued pool) a + r a" a]
    by (simp add: pool_ok_def)
  moreover obtain res pool' where
    s: "submit_locked a (pool\<lparr>tp_items := (tp_items pool)(a \<mapsto> new_item f arg priority)\<rparr>) = Some (res, pool')"
      "case res of None \<Rightarrow> pool_ok pool' r | Some b \<Rightarrow> b = a \<and> pool_ok pool' (r(a := 1))"
    using submit_locked_ok [OF ok a p, of f arg] by blast
  moreover have "ios_thread_pool_try_submit mem fn arg priority pool = Some (res, pool')"
    using fa s(1) by (simp add: ios_thread_pool_try_submit_def work_item_create_def)
  ultimately show ?thesis
    using fa by (intro exI [of _ res] exI [of _ pool']) (auto split: option.splits)
qed

section \<open>Histories of a pool\<close>

text \<open>
  Where a worker is in its loop, and the whole system: the pool, its workers and the handles its
  clients hold (with multiplicity).
\<close>

datatype stage = Waiting | Taken addr | Working addr | Worked addr ptr | Published addr ptr | Exited

text \<open>
  The thread-local variable \<^verbatim>\<open>current_work_item\<close> is set exactly while the work function runs, so it is
  a function of the stage of the calling worker.
\<close>

definition ios_work_get_current :: "stage \<Rightarrow> ptr" where
  "ios_work_get_current st = (case st of Working a \<Rightarrow> Some a | _ \<Rightarrow> None)"

fun holds :: "addr \<Rightarrow> stage \<Rightarrow> bool" where
  "holds a (Taken b) = (a = b)"
| "holds a (Working b) = (a = b)"
| "holds a (Worked b r) = (a = b)"
| "holds a (Published b r) = (a = b)"
| "holds a _ = False"

record pool_sys =
  sy_pool :: ios_thread_pool
  sy_workers :: "stage list"
  sy_handles :: "addr multiset"

abbreviation stage_step :: "pool_sys \<Rightarrow> nat \<Rightarrow> ios_thread_pool \<Rightarrow> stage \<Rightarrow> pool_sys" where
  "stage_step s i pool st \<equiv> s\<lparr>sy_pool := pool, sy_workers := (sy_workers s)[i := st]\<rparr>"

inductive pool_step :: "pool_sys \<Rightarrow> pool_sys \<Rightarrow> bool" where
  step_take: "i < length (sy_workers s) \<Longrightarrow> sy_workers s ! i = Waiting \<Longrightarrow>
    worker_take (sy_pool s) = Some (Takes a, pool) \<Longrightarrow> pool_step s (stage_step s i pool (Taken a))"
| step_exit: "i < length (sy_workers s) \<Longrightarrow> sy_workers s ! i = Waiting \<Longrightarrow>
    worker_take (sy_pool s) = Some (Exits, pool) \<Longrightarrow> pool_step s (stage_step s i pool Exited)"
| step_begin: "i < length (sy_workers s) \<Longrightarrow> sy_workers s ! i = Taken a \<Longrightarrow>
    worker_begin a (sy_pool s) = Some pool \<Longrightarrow> pool_step s (stage_step s i pool (Working a))"
| step_end: "i < length (sy_workers s) \<Longrightarrow> sy_workers s ! i = Working a \<Longrightarrow>
    pool_step s (stage_step s i (worker_end (sy_pool s)) (Worked a res))"
| step_publish: "i < length (sy_workers s) \<Longrightarrow> sy_workers s ! i = Worked a res \<Longrightarrow>
    worker_publish a res (sy_pool s) = Some pool \<Longrightarrow> pool_step s (stage_step s i pool (Published a res))"
| step_notify: "i < length (sy_workers s) \<Longrightarrow> sy_workers s ! i = Published a res \<Longrightarrow>
    worker_notify a res (sy_pool s) = Some pool \<Longrightarrow> pool_step s (stage_step s i pool Waiting)"
| step_submit: "priority \<le> IOS_PRIORITY_URGENT \<Longrightarrow> (\<forall>a. mem = Some a \<longrightarrow> tp_items (sy_pool s) a = None) \<Longrightarrow>
    ios_thread_pool_try_submit mem fn arg priority (sy_pool s) = Some (res, pool) \<Longrightarrow>
    pool_step s (s\<lparr>sy_pool := pool, sy_handles := sy_handles s + (case res of None \<Rightarrow> {#} | Some a \<Rightarrow> {#a#})\<rparr>)"
| step_cancel: "a \<in># sy_handles s \<Longrightarrow> ios_work_cancel (Some a) (sy_pool s) = Some (b, pool) \<Longrightarrow>
    pool_step s (s\<lparr>sy_pool := pool\<rparr>)"
| step_complete: "i < length (sy_workers s) \<Longrightarrow> sy_workers s ! i = Working a \<Longrightarrow>
    ios_work_complete (Some a) res (sy_pool s) = Some pool \<Longrightarrow> pool_step s (s\<lparr>sy_pool := pool\<rparr>)"
| step_release: "a \<in># sy_handles s \<Longrightarrow> ios_work_release (Some a) (sy_pool s) = Some pool \<Longrightarrow>
    pool_step s (s\<lparr>sy_pool := pool, sy_handles := sy_handles s - {#a#}\<rparr>)"
| step_shutdown: "pool_step s (s\<lparr>sy_pool := snd (ios_thread_pool_shutdown id timeout_ms (sy_pool s))\<rparr>)"

definition outside :: "pool_sys \<Rightarrow> addr \<Rightarrow> nat" where
  "outside s a = length (filter (holds a) (sy_workers s)) + count (sy_handles s) a"

definition pool_sys_ok :: "pool_sys \<Rightarrow> bool" where
  "pool_sys_ok s \<longleftrightarrow> pool_ok (sy_pool s) (outside s)"

lemma outside_pool [simp]: "outside (s\<lparr>sy_pool := p\<rparr>) = outside s"
  by (simp add: outside_def fun_eq_iff)

lemma filter_list_update:
  "i < length xs \<Longrightarrow> length (filter P (xs[i := x])) + of_bool (P (xs ! i)) = length (filter P xs) + of_bool (P x)"
proof (induction xs arbitrary: i)
  case Nil
  then show ?case by simp
next
  case (Cons y ys)
  then show ?case by (cases i) auto
qed

lemma outside_stage:
  assumes "i < length (sy_workers s)"
  shows "outside (stage_step s i pool st) a + of_bool (holds a (sy_workers s ! i)) = outside s a + of_bool (holds a st)"
  using filter_list_update [OF assms, of "holds a" st] by (simp add: outside_def)

lemma holds_positive: "i < length (sy_workers s) \<Longrightarrow> holds a (sy_workers s ! i) \<Longrightarrow> 0 < outside s a"
  by (auto simp: outside_def filter_empty_conv intro!: nth_mem)

lemma handle_positive: "a \<in># sy_handles s \<Longrightarrow> 0 < outside s a"
  by (simp add: outside_def)

lemma outside_same:
  assumes i: "i < length (sy_workers s)" and "\<And>b. holds b st = holds b (sy_workers s ! i)"
  shows "outside (stage_step s i pool st) = outside s"
proof
  fix b show "outside (stage_step s i pool st) b = outside s b" using outside_stage [OF i, where pool = pool and st = st and a = b] assms(2) by simp
qed

lemma pool_step_ok: "pool_step s s' \<Longrightarrow> pool_sys_ok s \<Longrightarrow> pool_sys_ok s'"
proof (induction rule: pool_step.induct)
  case (step_take i s a pool)
  have "outside (stage_step s i pool (Taken a)) = (outside s)(a := outside s a + 1)"
  proof
    fix b show "outside (stage_step s i pool (Taken a)) b = ((outside s)(a := outside s a + 1)) b"
      using outside_stage [OF step_take(1), where pool = pool and st = "Taken a" and a = b] step_take(2) by (cases "b = a") simp_all
  qed
  with step_take worker_take_ok [of "sy_pool s" "outside s"] show ?case by (auto simp: pool_sys_ok_def)
next
  case (step_exit i s pool)
  have "outside (stage_step s i pool Exited) = outside s" by (rule outside_same) (use step_exit in simp_all)
  with step_exit worker_take_ok [of "sy_pool s" "outside s"] show ?case by (auto simp: pool_sys_ok_def)
next
  case (step_begin i s a pool)
  have "outside (stage_step s i pool (Working a)) = outside s" by (rule outside_same) (use step_begin in simp_all)
  with step_begin worker_begin_ok [of "sy_pool s" "outside s" a] holds_positive [of i s a] show ?case
    by (auto simp: pool_sys_ok_def)
next
  case (step_end i s a res)
  have "outside (stage_step s i (worker_end (sy_pool s)) (Worked a res)) = outside s"
    by (rule outside_same) (use step_end in simp_all)
  with step_end show ?case by (simp add: pool_sys_ok_def worker_end_ok)
next
  case (step_publish i s a res pool)
  have "outside (stage_step s i pool (Published a res)) = outside s" by (rule outside_same) (use step_publish in simp_all)
  with step_publish worker_publish_ok [of "sy_pool s" "outside s" a res] holds_positive [of i s a] show ?case
    by (auto simp: pool_sys_ok_def)
next
  case (step_notify i s a res pool)
  have pos: "0 < outside s a" using holds_positive [of i s a] step_notify by simp
  have "outside (stage_step s i pool Waiting) = (outside s)(a := outside s a - 1)"
  proof
    fix b show "outside (stage_step s i pool Waiting) b = ((outside s)(a := outside s a - 1)) b"
      using outside_stage [OF step_notify(1), where pool = pool and st = Waiting and a = b] step_notify(2) by (cases "b = a") simp_all
  qed
  with step_notify worker_notify_ok [of "sy_pool s" "outside s" a res] pos show ?case by (auto simp: pool_sys_ok_def)
next
  case (step_submit priority mem s fn arg res pool)
  have ok: "pool_ok (sy_pool s) (outside s)" using step_submit by (simp add: pool_sys_ok_def)
  have p: "priority < 4" using step_submit(1) by (simp add: IOS_PRIORITY_URGENT_def)
  from try_submit_ok [OF ok step_submit(2) p, of fn arg] step_submit(3)
  have r: "case res of None \<Rightarrow> pool_ok pool (outside s)
    | Some a \<Rightarrow> mem = Some a \<and> outside s a = 0 \<and> pool_ok pool ((outside s)(a := 1))" by auto
  show ?case
  proof (cases res)
    case None
    with r show ?thesis by (simp add: pool_sys_ok_def)
  next
    case (Some a)
    with r have "outside (s\<lparr>sy_pool := pool, sy_handles := sy_handles s + {#a#}\<rparr>) = (outside s)(a := 1)"
      by (auto simp: outside_def fun_eq_iff)
    with r Some show ?thesis by (simp add: pool_sys_ok_def)
  qed
next
  case (step_cancel a s b pool)
  then show ?case
    using cancel_ok [of "sy_pool s" "outside s" a] handle_positive [of a s] by (auto simp: pool_sys_ok_def)
next
  case (step_complete i s a res pool)
  then show ?case
    using complete_ok [of "sy_pool s" "outside s" a res] holds_positive [of i s a]
    by (auto simp: pool_sys_ok_def)
next
  case (step_release a s pool)
  have "outside (s\<lparr>sy_pool := pool, sy_handles := sy_handles s - {#a#}\<rparr>) = (outside s)(a := outside s a - 1)"
    using step_release(1) by (auto simp: outside_def fun_eq_iff)
  with step_release release_ok [of "sy_pool s" "outside s" a] handle_positive [of a s] show ?case
    by (auto simp: pool_sys_ok_def ios_work_release_def)
next
  case (step_shutdown s timeout_ms)
  then show ?case
    using pool_ok_frame [of "(sy_pool s)\<lparr>tp_shutdown := True\<rparr>" "sy_pool s" "outside s"]
    by (simp add: pool_sys_ok_def ios_thread_pool_shutdown_def)
qed

section \<open>Properties\<close>

definition pool_start :: "ios_thread_pool \<Rightarrow> nat \<Rightarrow> pool_sys" where
  "pool_start pool n = \<lparr>sy_pool = pool, sy_workers = replicate n Waiting, sy_handles = {#}\<rparr>"

lemma empty_queue_ok [simp]: "wq_inv (empty_queue n)" "wq_contents (empty_queue n) = []"
  by (simp_all add: empty_queue_def wq_inv_def wq_contents_def)

lemma created_pool_ok:
  assumes "ios_thread_pool_create sysctl a b c spawn config = Some pool"
  shows "pool_sys_ok (pool_start pool n)"
proof -
  have "tp_items pool = Map.empty" "queues_ok pool" "queued pool = {#}"
    using assms by (auto simp: ios_thread_pool_create_def Let_def queues_ok_def queued_def split: if_splits)
  then show ?thesis
    by (simp add: pool_sys_ok_def pool_start_def pool_ok_def outside_def ref_ok_def filter_empty_conv)
qed

lemma pool_steps_ok: "pool_step\<^sup>*\<^sup>* s s' \<Longrightarrow> pool_sys_ok s \<Longrightarrow> pool_sys_ok s'"
  by (induction rule: rtranclp_induct) (auto intro: pool_step_ok)

text \<open>
  C5: no work item is used after it is freed, and none is leaked. In every state that workers,
  submitters, cancelling and releasing clients reach from a new pool, an item is live exactly
  when a queue, a worker or a client refers to it, its reference count is the number of these
  references, and no stage of a worker follows a freed pointer.
\<close>

theorem reference_counts_exact:
  assumes "ios_thread_pool_create sysctl ok1 ok2 ok3 spawn config = Some pool"
    and "pool_step\<^sup>*\<^sup>* (pool_start pool n) s"
  shows "(case tp_items (sy_pool s) a of
      None \<Rightarrow> count (queued (sy_pool s)) a + outside s a = 0
    | Some it \<Rightarrow> wi_ref_count it = int (count (queued (sy_pool s)) a + outside s a) \<and> 0 < wi_ref_count it) \<and>
    worker_take (sy_pool s) \<noteq> None \<and>
    (\<forall>i < length (sy_workers s). case sy_workers s ! i of
        Taken b \<Rightarrow> worker_begin b (sy_pool s) \<noteq> None
      | Worked b r \<Rightarrow> worker_publish b r (sy_pool s) \<noteq> None
      | Published b r \<Rightarrow> worker_notify b r (sy_pool s) \<noteq> None
      | _ \<Rightarrow> True)"
proof -
  have ok: "pool_ok (sy_pool s) (outside s)"
    using pool_steps_ok [OF assms(2) created_pool_ok [OF assms(1)]] by (simp add: pool_sys_ok_def)
  define refs where "refs = count (queued (sy_pool s)) a + outside s a"
  have "ref_entry (tp_items (sy_pool s) a) refs"
    using ok by (simp add: pool_ok_def ref_ok_def refs_def)
  moreover have "worker_take (sy_pool s) \<noteq> None" using worker_take_ok [OF ok] by auto
  moreover have "case sy_workers s ! i of
        Taken b \<Rightarrow> worker_begin b (sy_pool s) \<noteq> None
      | Worked b r \<Rightarrow> worker_publish b r (sy_pool s) \<noteq> None
      | Published b r \<Rightarrow> worker_notify b r (sy_pool s) \<noteq> None
      | _ \<Rightarrow> True" if "i < length (sy_workers s)" for i
  proof (cases "sy_workers s ! i")
    case (Taken b)
    with that holds_positive [of i s b] worker_begin_ok [OF ok, of b] show ?thesis by auto
  next
    case (Worked b r)
    with that holds_positive [of i s b] worker_publish_ok [OF ok, of b r] show ?thesis by auto
  next
    case (Published b r)
    with that holds_positive [of i s b] worker_notify_ok [OF ok, of b r] show ?thesis by auto
  qed simp_all
  ultimately show ?thesis unfolding refs_def [symmetric] by (auto split: option.splits)
qed

text \<open>
  A worker gets the oldest item of the highest non-empty priority, and only that item leaves
  the queues; it goes to sleep exactly when all queues are empty.
\<close>

theorem worker_takes_oldest_of_highest_priority:
  assumes "queues_ok pool" and "\<not> tp_shutdown pool"
  shows "\<exists>t pool'. worker_take pool = Some (t, pool') \<and>
    (case t of
       Takes a \<Rightarrow> \<exists>p < 4. queue_of pool p = a # queue_of pool' p \<and> queues_ok pool' \<and>
         (\<forall>r. p < r \<and> r < 4 \<longrightarrow> queue_of pool r = []) \<and> (\<forall>r. r \<noteq> p \<longrightarrow> tp_queues pool' r = tp_queues pool r)
     | Sleeps \<Rightarrow> queued pool = {#} \<and> pool' = pool
     | Exits \<Rightarrow> False)"
  using dequeue_below_spec [OF assms(1) order_refl]
proof (elim disjE conjE exE)
  assume "\<forall>p < 4. queue_of pool p = []" "dequeue_below 4 pool = Some (None, pool)"
  with assms(2) show ?thesis by (simp add: worker_take_def dequeue_work_def IOS_PRIORITY_URGENT_def queued_def)
next
  fix p a q
  assume p: "p < 4" "\<forall>r. p < r \<and> r < 4 \<longrightarrow> queue_of pool r = []" "queue_of pool p = a # wq_contents q" "wq_inv q"
    "dequeue_below 4 pool = Some (Some a, pool\<lparr>tp_queues := (tp_queues pool)(p := q)\<rparr>)"
  let ?p = "pool\<lparr>tp_queues := (tp_queues pool)(p := q)\<rparr>"
  have "worker_take pool = Some (Takes a, ?p)"
    using p(5) assms(2) by (simp add: worker_take_def dequeue_work_def IOS_PRIORITY_URGENT_def)
  moreover have "queues_ok ?p" by (rule queues_ok_upd [OF assms(1) p(4)])
  ultimately show ?thesis
    using p by (intro exI [of _ "Takes a"] exI [of _ ?p]) (auto intro!: exI [of _ p])
qed

text \<open>
  Each queue is first-in first-out: over any sequence of submissions and takes, what is taken
  is what was accepted, in order, and nothing is lost.
\<close>

theorem work_queue_is_fifo:
  assumes "wq_inv q" and "channel_run (enq_list wq_enq) (deq_list wq_deq) q ops = (accepted, taken, q')"
  shows "wq_contents q @ accepted = taken @ wq_contents q' \<and>
    wq_room q' + wq_count q' = wq_room q + wq_count q"
  using wq.channel.run_stream [OF assms] wq.channel.run_capacity [OF assms] by simp

text \<open>
  Cancelling does not stop the work. \<^verbatim>\<open>ios_work_cancel\<close> reports success for a pending item,
  but the worker that takes it from the queue does not look at its state: it runs the function
  and marks the item completed, so a later wait reports success.
\<close>

theorem cancelled_item_still_runs:
  assumes "tp_items pool a = Some it" and "wi_state it = WORK_PENDING" and "2 \<le> wi_ref_count it"
  shows "\<exists>pool1 pool2. ios_work_cancel (Some a) pool = Some (True, pool1) \<and>
    ios_work_is_complete (Some a) pool1 = Some True \<and> worker_run a res pool1 = Some pool2 \<and>
    RanWork (wi_work_fn it) (wi_arg it) \<in> set (tp_trace pool2) \<and>
    ios_work_wait [] (Some a) pool2 = Returns (0, res) pool2"
proof -
  let ?p1 = "pool\<lparr>tp_items := (tp_items pool)(a \<mapsto> it\<lparr>wi_state := WORK_CANCELLED\<rparr>)\<rparr>"
  have c: "ios_work_cancel (Some a) pool = Some (True, ?p1)"
    using assms by (simp add: ios_work_cancel_def upd_item_def)
  have "\<exists>pool2. worker_run a res ?p1 = Some pool2 \<and> RanWork (wi_work_fn it) (wi_arg it) \<in> set (tp_trace pool2) \<and>
    tp_items pool2 a = Some (it\<lparr>wi_state := WORK_COMPLETED, wi_result := res, wi_ref_count := wi_ref_count it - 1\<rparr>)"
    using assms
    by (cases "wi_callback it")
      (simp_all add: worker_run_def worker_begin_def worker_publish_def worker_notify_def worker_end_def upd_item_def
        work_item_release_internal_def)
  then obtain pool2 where "worker_run a res ?p1 = Some pool2" "RanWork (wi_work_fn it) (wi_arg it) \<in> set (tp_trace pool2)"
    "tp_items pool2 a = Some (it\<lparr>wi_state := WORK_COMPLETED, wi_result := res, wi_ref_count := wi_ref_count it - 1\<rparr>)"
    by blast
  with c show ?thesis
    by (intro exI [of _ ?p1] exI [of _ pool2]) (simp add: ios_work_is_complete_def ios_work_wait_def)
qed

text \<open>
  A shutdown abandons the queued work. Once the flag is set every worker leaves its loop
  without looking at the queues, whatever the timeout, so the items queued stay there pending
  and a thread that waits for one of them waits for ever; destroying the pool frees none of them.
\<close>

theorem shutdown_abandons_queued_work:
  assumes "pool1 = snd (ios_thread_pool_shutdown id timeout_ms pool)"
    and "tp_items pool a = Some it" and "wi_state it = WORK_PENDING"
  shows "queued pool1 = queued pool \<and> ios_thread_pool_destroy id (Some pool) = Some (tp_items pool) \<and> worker_take pool1 = Some (Exits, pool1) \<and>
    ios_work_wait (replicate k (\<lambda>p. snd (the (worker_take p)))) (Some a) pool1 = Blocked pool1"
proof -
  have p1: "pool1 = pool\<lparr>tp_shutdown := True\<rparr>" using assms(1) by (simp add: ios_thread_pool_shutdown_def)
  then have t: "worker_take pool1 = Some (Exits, pool1)" by (simp add: worker_take_def)
  have "wait_loop (replicate k (\<lambda>p. snd (the (worker_take p)))) a pool1 = Blocked pool1"
    using assms(2,3) p1 t by (induction k) simp_all
  with p1 t show ?thesis by (simp add: ios_work_wait_def ios_thread_pool_destroy_def ios_thread_pool_shutdown_def)
qed

text \<open>
  A pool configured with fewer than eight queue places has no place at all for urgent and
  low-priority work: a non-blocking submission is always dropped, and a blocking one waits until
  a shutdown, whatever the workers do.
\<close>

theorem small_queue_never_accepts_urgent:
  assumes "ios_thread_pool_create sysctl ok1 ok2 ok3 spawn config = Some pool"
    and "0 < tc_max_queue_size config" and "tc_max_queue_size config < 8"
    and "p = IOS_PRIORITY_URGENT \<or> p = IOS_PRIORITY_LOW"
    and "\<forall>w \<in> set ws. \<forall>q. tp_shutdown (w q) = tp_shutdown q \<and>
      wq_capacity (tp_queues (w q) p) = wq_capacity (tp_queues q p)"
  shows "(\<exists>pool'. ios_thread_pool_try_submit (Some a) (Some fn) arg p pool = Some (None, pool') \<and>
      tp_total_dropped pool' = tp_total_dropped pool + 1) \<and>
    (\<exists>pool'. ios_thread_pool_submit ws (Some a) (Some fn) arg p pool = Blocked pool')"
proof -
  have z: "tc_max_queue_size config div 8 = 0" using assms(2,3) by simp
  have pool: "wq_capacity (tp_queues pool p) = 0" "\<not> tp_shutdown pool"
    using assms(1-4) z by (auto simp: ios_thread_pool_create_def Let_def empty_queue_def
        IOS_PRIORITY_URGENT_def IOS_PRIORITY_LOW_def IOS_PRIORITY_HIGH_def IOS_PRIORITY_NORMAL_def split: if_splits)
  have p: "p \<le> IOS_PRIORITY_URGENT" using assms(4) by (auto simp: IOS_PRIORITY_URGENT_def IOS_PRIORITY_LOW_def)
  have "\<exists>pool'. submit_wait p ws q = Blocked pool'"
    if "wq_capacity (tp_queues q p) = 0" "\<not> tp_shutdown q" for q
    using that assms(5) by (induction ws arbitrary: q) simp_all
  from this [of "pool\<lparr>tp_items := (tp_items pool)(a \<mapsto> new_item fn arg p)\<rparr>"] pool p show ?thesis
    by (auto simp: ios_thread_pool_submit_def ios_thread_pool_try_submit_def work_item_create_def submit_locked_def
        enqueue_work_def new_item_def work_item_release_internal_def)
qed

text \<open>
  A drain can return before the work is done. Between the moment a worker has taken the last
  item out of the queue and the moment it counts itself as active, the queues are empty and no
  worker is active, and the drain reports that all work is complete.
\<close>

theorem drain_misses_item_in_flight:
  assumes "worker_take pool = Some (Takes a, pool1)" and "total_queued pool1 = 0"
    and "tp_active_workers pool = 0" and "tp_items pool a = Some it" and "wi_state it = WORK_PENDING"
    and "queues_ok pool"
  shows "\<exists>pool2. ios_thread_pool_drain ws timeout_ms pool1 = Returns 0 pool2 \<and>
    ios_work_is_complete (Some a) pool2 = Some False"
proof -
  have s: "\<not> tp_shutdown pool" using assms(1) by (auto simp: worker_take_def split: if_splits)
  from dequeue_below_spec [OF assms(6) order_refl] assms(1) s
  have p1: "tp_items pool1 = tp_items pool" "tp_active_workers pool1 = tp_active_workers pool"
    by (auto simp: worker_take_def dequeue_work_def IOS_PRIORITY_URGENT_def)
  have "total_queued (pool1\<lparr>tp_draining := True\<rparr>) = 0" using assms(2) by (simp add: total_queued_def)
  then have "drain_loop ws (pool1\<lparr>tp_draining := True\<rparr>) = Returns () (pool1\<lparr>tp_draining := True\<rparr>)"
    using p1 assms(3) by (cases ws) simp_all
  then show ?thesis
    using p1 assms(4,5) by (simp add: ios_thread_pool_drain_def ios_work_is_complete_def)
qed


section \<open>Concrete states\<close>

definition tiny_config :: "int \<Rightarrow> ios_thread_pool_config" where
  "tiny_config n = \<lparr>tc_num_threads = 1, tc_max_queue_size = n, tc_enable_priorities = True, tc_name = None\<rparr>"

definition demo_tp :: "int \<Rightarrow> ios_thread_pool" where
  "demo_tp n = the (ios_thread_pool_create None True True True (\<lambda>_. True) (tiny_config n))"

lemma demo_tp_created: "ios_thread_pool_create None True True True (\<lambda>_. True) (tiny_config n) = Some (demo_tp n)"
  by (simp add: demo_tp_def ios_thread_pool_create_def tiny_config_def Let_def)

text \<open>Item 5 submitted at normal priority, and what a worker does that takes and finishes an item.\<close>

definition demo_submitted :: ios_thread_pool where
  "demo_submitted = snd (the (ios_thread_pool_try_submit (Some 5) (Some 7) None IOS_PRIORITY_NORMAL (demo_tp 8)))"

definition run_next :: "ios_thread_pool \<Rightarrow> ios_thread_pool" where
  "run_next pool = (case worker_take pool of Some (Takes a, pool1) \<Rightarrow> the (worker_run a (Some 9) pool1) | _ \<Rightarrow> pool)"

text \<open>The fields of the demo states, from which the witnesses are evaluated.\<close>

lemma demo_tp_fields:
  "tp_items (demo_tp 8) = Map.empty" "\<not> tp_shutdown (demo_tp 8)" "tp_active_workers (demo_tp 8) = 0"
  "tp_queues (demo_tp 8) 0 = empty_queue 1" "tp_queues (demo_tp 8) (Suc 0) = empty_queue 4"
  "tp_queues (demo_tp 8) (Suc (Suc 0)) = empty_queue 2" "tp_queues (demo_tp 8) (Suc (Suc (Suc 0))) = empty_queue 1"
  "tp_trace (demo_tp 8) = []" "tp_total_completed (demo_tp 8) = 0"
  by (simp_all add: demo_tp_def ios_thread_pool_create_def tiny_config_def Let_def
      IOS_PRIORITY_URGENT_def IOS_PRIORITY_NORMAL_def IOS_PRIORITY_HIGH_def)

definition demo_queue :: work_queue where
  "demo_queue = \<lparr>wq_slots = [Some 5, None, None, None], wq_head = 0, wq_tail = 1, wq_count = 1, wq_capacity = 4\<rparr>"

definition demo_item :: ios_work_item where
  "demo_item = (new_item 7 None IOS_PRIORITY_NORMAL)\<lparr>wi_ref_count := 2\<rparr>"

lemma wq_counts_empty: "wq_count (empty_queue n) = 0" "wq_capacity (empty_queue n) = n"
  by (simp_all add: empty_queue_def)

lemma demo_enqueue_into: "enqueue_into 5 (empty_queue 4) = Some demo_queue"
  by code_simp

lemma demo_enqueue:
  "submit_locked 5 ((demo_tp 8)\<lparr>tp_items := [5 \<mapsto> new_item 7 None IOS_PRIORITY_NORMAL]\<rparr>) =
     Some (Some 5, (demo_tp 8)\<lparr>tp_items := [5 \<mapsto> demo_item], tp_queues := (tp_queues (demo_tp 8))(Suc 0 := demo_queue),
        tp_total_submitted := tp_total_submitted (demo_tp 8) + 1\<rparr>)"
  by (simp add: submit_locked_def enqueue_work_def work_item_retain_def upd_item_def Let_def
      demo_tp_fields demo_enqueue_into demo_item_def new_item_def IOS_PRIORITY_NORMAL_def IOS_PRIORITY_URGENT_def
      wq_counts_empty)

lemma demo_submit:
  "ios_thread_pool_try_submit (Some 5) (Some 7) None IOS_PRIORITY_NORMAL (demo_tp 8) = Some (Some 5, demo_submitted)"
  by (simp add: demo_submitted_def ios_thread_pool_try_submit_def work_item_create_def demo_tp_fields demo_enqueue)

lemma demo_submitted_eq:
  "demo_submitted = (demo_tp 8)\<lparr>tp_items := [5 \<mapsto> demo_item], tp_queues := (tp_queues (demo_tp 8))(Suc 0 := demo_queue),
     tp_total_submitted := tp_total_submitted (demo_tp 8) + 1\<rparr>"
  by (simp add: demo_submitted_def ios_thread_pool_try_submit_def work_item_create_def demo_tp_fields demo_enqueue)

lemma demo_take:
  "worker_take demo_submitted =
     Some (Takes 5, demo_submitted\<lparr>tp_queues := (tp_queues (demo_tp 8))(Suc 0 := demo_queue\<lparr>wq_slots := replicate 4 None,
        wq_head := 1, wq_count := 0\<rparr>)\<rparr>)"
proof -
  have "worker_take demo_submitted = do { (item, pool1) \<leftarrow> dequeue_below (Suc (Suc (Suc (Suc 0)))) demo_submitted;
      Some (case item of None \<Rightarrow> Sleeps | Some a \<Rightarrow> Takes a, pool1) }"
    by (simp add: worker_take_def dequeue_work_def IOS_PRIORITY_URGENT_def demo_submitted_eq demo_tp_fields
        numeral_eq_Suc del: dequeue_below.simps)
  moreover have "dequeue_from demo_queue = Some (Some 5, demo_queue\<lparr>wq_slots := replicate 4 None, wq_head := 1, wq_count := 0\<rparr>)"
    by code_simp
  moreover have "wq_count demo_queue = 1" by (simp add: demo_queue_def)
  ultimately show ?thesis
    by (simp add: demo_submitted_eq demo_tp_fields wq_counts_empty)
qed

lemma demo_submitted_facts:
  "tp_items demo_submitted 5 = Some demo_item" "queues_ok demo_submitted" "tp_active_workers demo_submitted = 0"
  "\<not> tp_shutdown demo_submitted"
proof -
  have "queues_ok (demo_tp 8)"
    using created_pool_ok [OF demo_tp_created, of 8 0] by (simp add: pool_sys_ok_def pool_ok_def pool_start_def)
  moreover have "wq_inv demo_queue" by (simp add: wq_inv_def demo_queue_def)
  ultimately have "queues_ok ((demo_tp 8)\<lparr>tp_queues := (tp_queues (demo_tp 8))(Suc 0 := demo_queue)\<rparr>)"
    by (rule queues_ok_upd)
  then show "queues_ok demo_submitted" by (simp add: demo_submitted_eq queues_ok_def)
qed (simp_all add: demo_submitted_eq demo_tp_fields)

theorem reference_counts_exact_witness:
  "pool_step\<^sup>*\<^sup>* (pool_start (demo_tp 8) 1) ((pool_start (demo_tp 8) 1)\<lparr>sy_pool := demo_submitted, sy_handles := {#5#}\<rparr>) \<and>
   count (queued demo_submitted) 5 + 1 = 2"
proof -
  let ?s = "pool_start (demo_tp 8) 1" let ?t = "?s\<lparr>sy_pool := demo_submitted, sy_handles := {#5#}\<rparr>"
  have "tp_items (demo_tp 8) 5 = None" by (simp add: demo_tp_fields)
  then have "pool_step ?s ?t"
    using step_submit [of IOS_PRIORITY_NORMAL "Some 5" ?s "Some 7" None "Some 5" demo_submitted] demo_submit
    by (simp add: pool_start_def IOS_PRIORITY_NORMAL_def IOS_PRIORITY_URGENT_def)
  then have r: "pool_step\<^sup>*\<^sup>* ?s ?t" by blast
  from reference_counts_exact [OF demo_tp_created r, of 5] demo_submitted_facts(1) r show ?thesis
    by (simp add: outside_def pool_start_def demo_item_def)
qed

theorem worker_takes_oldest_of_highest_priority_witness:
  "queues_ok demo_submitted \<and> (\<exists>t pool'. worker_take demo_submitted = Some (t, pool') \<and> t \<noteq> Exits)"
proof -
  from worker_takes_oldest_of_highest_priority [OF demo_submitted_facts(2,4)]
  obtain t pool' where "worker_take demo_submitted = Some (t, pool')" "t \<noteq> Exits" by fastforce
  with demo_submitted_facts(2) show ?thesis by blast
qed

theorem work_queue_is_fifo_witness:
  "(case channel_run (enq_list wq_enq) (deq_list wq_deq) (empty_queue 2) [Put [7, 8, 9], Get 1, Put [3]] of
      (accepted, taken, q) \<Rightarrow> accepted = taken @ wq_contents q)"
  using work_queue_is_fifo [of "empty_queue 2" "[Put [7, 8, 9], Get 1, Put [3]]"]
  by (simp add: split_beta del: channel_run.simps)

theorem cancelled_item_still_runs_witness:
  "\<exists>pool1 pool2. ios_work_cancel (Some 5) demo_submitted = Some (True, pool1) \<and>
     worker_run 5 (Some 9) pool1 = Some pool2 \<and> ios_work_wait [] (Some 5) pool2 = Returns (0, Some 9) pool2"
  using cancelled_item_still_runs [OF demo_submitted_facts(1), of "Some 9"] by (auto simp: demo_item_def new_item_def)

theorem shutdown_abandons_queued_work_witness:
  "ios_work_wait (replicate 3 (\<lambda>p. snd (the (worker_take p)))) (Some 5)
     (snd (ios_thread_pool_shutdown id 1000 demo_submitted)) =
   Blocked (snd (ios_thread_pool_shutdown id 1000 demo_submitted))"
  using shutdown_abandons_queued_work [OF refl demo_submitted_facts(1), of 1000 3] by (simp add: demo_item_def new_item_def)

theorem small_queue_never_accepts_urgent_witness:
  "\<exists>pool'. ios_thread_pool_submit [id] (Some 5) (Some 7) None IOS_PRIORITY_URGENT (demo_tp 7) = Blocked pool'"
  using small_queue_never_accepts_urgent [OF demo_tp_created [of 7], of IOS_PRIORITY_URGENT "[id]" 5 7 None]
  by (simp add: tiny_config_def)

theorem drain_misses_item_in_flight_witness:
  "\<exists>pool1 pool2. worker_take demo_submitted = Some (Takes 5, pool1) \<and>
     ios_thread_pool_drain [] 0 pool1 = Returns 0 pool2 \<and> ios_work_is_complete (Some 5) pool2 = Some False"
proof -
  let ?pool1 = "snd (the (worker_take demo_submitted))"
  have p: "worker_take demo_submitted = Some (Takes 5, ?pool1)" by (simp add: demo_take)
  have "total_queued ?pool1 = 0"
    by (simp add: demo_take total_queued_def demo_tp_fields empty_queue_def numeral_eq_Suc)
  from drain_misses_item_in_flight [OF p this demo_submitted_facts(3,1) _ demo_submitted_facts(2), of "[]" 0] p
  show ?thesis by (auto simp: demo_item_def new_item_def)
qed

text \<open>
  A callback can be lost. \<^verbatim>\<open>ios_thread_pool_submit_with_callback\<close> stores the callback after the
  submission has returned, so a worker that takes and finishes the item in between completes it
  without calling back, and nobody calls back later.
\<close>

theorem callback_can_be_lost:
  "(case ios_thread_pool_submit_with_callback [] run_next (Some 5) (Some 7) None IOS_PRIORITY_NORMAL (Some 2) None (demo_tp 8) of
      Returns item pool \<Rightarrow> item = Some 5 \<and> ios_work_is_complete item pool = Some True \<and>
        tp_total_completed pool = 1 \<and> tp_trace pool = [RanWork 7 None] \<and> total_queued pool = 0
    | _ \<Rightarrow> False)"
proof -
  have "\<not> IOS_PRIORITY_NORMAL > IOS_PRIORITY_URGENT" "tp_queues (demo_tp 8) IOS_PRIORITY_NORMAL = empty_queue 4"
    using demo_tp_fields(5) by (simp_all add: IOS_PRIORITY_NORMAL_def IOS_PRIORITY_URGENT_def)
  then have s: "ios_thread_pool_submit [] (Some 5) (Some 7) None IOS_PRIORITY_NORMAL (demo_tp 8) = Returns (Some 5) demo_submitted"
    by (simp add: ios_thread_pool_submit_def work_item_create_def demo_tp_fields demo_enqueue demo_submitted_eq wq_counts_empty)
  let ?pool1 = "demo_submitted\<lparr>tp_queues := (tp_queues (demo_tp 8))(Suc 0 := demo_queue\<lparr>wq_slots := replicate 4 None,
        wq_head := 1, wq_count := 0\<rparr>)\<rparr>"
  have "run_next demo_submitted = the (worker_run 5 (Some 9) ?pool1)" by (simp add: run_next_def demo_take)
  also have "\<dots> = ?pool1\<lparr>tp_items := [5 \<mapsto> demo_item\<lparr>wi_state := WORK_COMPLETED, wi_result := Some 9, wi_ref_count := 1\<rparr>],
      tp_trace := [RanWork 7 None], tp_total_completed := 1\<rparr>"
    by (simp add: worker_run_def worker_begin_def worker_end_def worker_publish_def worker_notify_def
        work_item_release_internal_def upd_item_def demo_submitted_eq demo_tp_fields demo_item_def new_item_def)
  finally show ?thesis using s
    by (simp add: ios_thread_pool_submit_with_callback_def upd_item_def ios_work_is_complete_def total_queued_def
        demo_tp_fields demo_tp_fields [folded numeral_2_eq_2 numeral_3_eq_3] wq_counts_empty)
qed

end
