(* ===== verification/Environ_List.thy ===== *)
theory Environ_List
  imports Interfaces "HOL-Library.Sublist"
begin

text \<open>
  Environments as lists of \<^verbatim>\<open>NAME=VALUE\<close> strings: the matching test the C code performs, the
  list operations it amounts to, and their laws, shared by the environment manager, the
  per-process environments and the process environment of the C library.
\<close>

section \<open>Entries\<close>

definition eq_char :: char where
  "eq_char = CHR ''=''"

text \<open>\<^verbatim>\<open>strncmp(entry, name, strlen(name)) == 0 && entry[strlen(name)] == '='\<close>\<close>

definition var_matches :: "string \<Rightarrow> string \<Rightarrow> bool" where
  "var_matches name entry \<longleftrightarrow> take (length name) entry = name \<and>
     length name < length entry \<and> entry ! length name = eq_char"

text \<open>The string \<^verbatim>\<open>snprintf(\<dots>, "%s=%s", name, value)\<close> writes.\<close>

definition env_entry :: "string \<Rightarrow> string \<Rightarrow> string" where
  "env_entry name v = name @ eq_char # v"

definition entry_value :: "string \<Rightarrow> string \<Rightarrow> string" where
  "entry_value name entry = drop (length name + 1) entry"

definition valid_name :: "string \<Rightarrow> bool" where
  "valid_name name \<longleftrightarrow> name \<noteq> [] \<and> eq_char \<notin> set name"

lemma var_matches_iff: "var_matches name entry \<longleftrightarrow> (\<exists>v. entry = env_entry name v)"
proof
  assume "var_matches name entry"
  then have m: "take (length name) entry = name" "length name < length entry" "entry ! length name = eq_char"
    by (simp_all add: var_matches_def)
  from id_take_nth_drop [OF m(2)] show "\<exists>v. entry = env_entry name v"
    unfolding m(1,3) env_entry_def by blast
next
  assume "\<exists>v. entry = env_entry name v"
  then show "var_matches name entry" by (auto simp: var_matches_def env_entry_def)
qed

lemma entry_value_env_entry [simp]: "entry_value name (env_entry name v) = v"
  by (simp add: entry_value_def env_entry_def)

lemma var_matches_entry [simp]:
  "valid_name n \<Longrightarrow> valid_name m \<Longrightarrow> var_matches n (env_entry m v) \<longleftrightarrow> n = m"
  by (auto simp: var_matches_iff env_entry_def valid_name_def append_eq_append_conv2 Cons_eq_append_conv
      append_eq_Cons_conv)

lemma var_matches_unique:
  "valid_name n \<Longrightarrow> valid_name m \<Longrightarrow> var_matches n s \<Longrightarrow> var_matches m s \<Longrightarrow> n = m"
  using var_matches_iff [of m s] by auto

section \<open>Lists of entries\<close>

fun lookup_var :: "string \<Rightarrow> string list \<Rightarrow> string option" where
  "lookup_var name [] = None"
| "lookup_var name (s # ss) =
     (if var_matches name s then Some (entry_value name s) else lookup_var name ss)"

fun index_var :: "string \<Rightarrow> string list \<Rightarrow> nat option" where
  "index_var name [] = None"
| "index_var name (s # ss) = (if var_matches name s then Some 0 else map_option Suc (index_var name ss))"

fun assign_var :: "string \<Rightarrow> string \<Rightarrow> string list \<Rightarrow> string list" where
  "assign_var name v [] = [env_entry name v]"
| "assign_var name v (s # ss) =
     (if var_matches name s then env_entry name v # ss else s # assign_var name v ss)"

text \<open>Removes the first entry of the variable only.\<close>

fun remove_var :: "string \<Rightarrow> string list \<Rightarrow> string list" where
  "remove_var name [] = []"
| "remove_var name (s # ss) = (if var_matches name s then ss else s # remove_var name ss)"

text \<open>No variable has two entries.\<close>

definition env_distinct :: "string list \<Rightarrow> bool" where
  "env_distinct ss \<longleftrightarrow> (\<forall>n. valid_name n \<longrightarrow> length (filter (var_matches n) ss) \<le> 1)"

lemma lookup_var_None: "lookup_var n ss = None \<longleftrightarrow> filter (var_matches n) ss = []"
  by (induction ss) auto

lemma lookup_var_index:
  "lookup_var n ss = map_option (\<lambda>i. entry_value n (ss ! i)) (index_var n ss)"
  by (induction ss) (auto simp: option.map_comp comp_def)

lemma index_var_Some: "index_var n ss = Some i \<Longrightarrow> i < length ss \<and> var_matches n (ss ! i)"
  by (induction ss arbitrary: i) (auto split: if_splits)

lemma assign_var_index:
  "assign_var n v ss =
     (case index_var n ss of None \<Rightarrow> ss @ [env_entry n v] | Some i \<Rightarrow> ss[i := env_entry n v])"
  by (induction ss) (auto split: option.splits)

lemma remove_var_index:
  "remove_var n ss = (case index_var n ss of None \<Rightarrow> ss | Some i \<Rightarrow> take i ss @ drop (Suc i) ss)"
  by (induction ss) (auto split: option.splits)

lemma lookup_assign:
  "valid_name n \<Longrightarrow> valid_name m \<Longrightarrow>
   lookup_var m (assign_var n v ss) = (if m = n then Some v else lookup_var m ss)"
  by (induction ss) (auto dest: var_matches_unique)

lemma filter_assign_other:
  "valid_name n \<Longrightarrow> valid_name m \<Longrightarrow> m \<noteq> n \<Longrightarrow>
   filter (var_matches m) (assign_var n v ss) = filter (var_matches m) ss"
  by (induction ss) (auto dest: var_matches_unique)

lemma filter_assign_same:
  "valid_name n \<Longrightarrow> length (filter (var_matches n) (assign_var n v ss)) =
     max 1 (length (filter (var_matches n) ss))"
  by (induction ss) auto

lemma env_distinct_assign:
  assumes "env_distinct ss" and "valid_name n"
  shows "env_distinct (assign_var n v ss)"
  unfolding env_distinct_def
proof (intro allI impI)
  fix m assume m: "valid_name m"
  show "length (filter (var_matches m) (assign_var n v ss)) \<le> 1"
    using assms m filter_assign_same [OF assms(2), of v ss] filter_assign_other [OF assms(2) m, of v ss]
    unfolding env_distinct_def by (cases "m = n") auto
qed

lemma filter_remove_other:
  "valid_name n \<Longrightarrow> valid_name m \<Longrightarrow> m \<noteq> n \<Longrightarrow>
   filter (var_matches m) (remove_var n ss) = filter (var_matches m) ss"
  by (induction ss) (auto dest: var_matches_unique)

lemma filter_remove_same: "filter (var_matches n) (remove_var n ss) = tl (filter (var_matches n) ss)"
  by (induction ss) auto

lemma env_distinct_remove:
  assumes "env_distinct ss" and "valid_name n"
  shows "env_distinct (remove_var n ss)"
  unfolding env_distinct_def
proof (intro allI impI)
  fix m assume m: "valid_name m"
  have "length (filter (var_matches m) ss) \<le> 1" using assms(1) m unfolding env_distinct_def by blast
  then show "length (filter (var_matches m) (remove_var n ss)) \<le> 1"
    using filter_remove_same [of n ss] filter_remove_other [OF assms(2) m] by (cases "m = n") auto
qed

lemma lookup_remove_other:
  "valid_name n \<Longrightarrow> valid_name m \<Longrightarrow> m \<noteq> n \<Longrightarrow> lookup_var m (remove_var n ss) = lookup_var m ss"
  by (induction ss) (auto dest: var_matches_unique)

lemma lookup_remove:
  assumes "env_distinct ss" and "valid_name n" and "valid_name m"
  shows "lookup_var m (remove_var n ss) = (if m = n then None else lookup_var m ss)"
proof -
  have "length (filter (var_matches n) ss) \<le> 1" using assms(1,2) unfolding env_distinct_def by blast
  then have "lookup_var n (remove_var n ss) = None"
    unfolding lookup_var_None filter_remove_same by (cases "filter (var_matches n) ss") auto
  then show ?thesis using lookup_remove_other [OF assms(2,3)] by simp
qed

interpretation env_list: env_store valid_name env_distinct "\<lambda>ss n. lookup_var n ss"
  "\<lambda>ss n v. assign_var n v ss" "\<lambda>ss n. remove_var n ss"
  by unfold_locales (simp_all add: env_distinct_assign env_distinct_remove lookup_assign lookup_remove)

end
