(* ===== verification/Env_Manager.thy ===== *)
theory Env_Manager
  imports Environ_List "HOL-Library.Monad_Syntax"
begin

text \<open>
  The per-thread environments of \<^verbatim>\<open>ios_env_manager.c\<close>. The \<^verbatim>\<open>thread_env_t\<close> structures live on
  a store, because the thread-specific value and the hash table share them; the entries of the
  hash table are private to their bucket, so a bucket is the list of its entries in chain order.

  The per-environment and the table locks make each operation one step. A result \<open>None\<close> is a
  fault: a null, freed, uninitialised or out-of-bounds access. The allocations the code checks,
  and the ones whose failure it would trip over, are parameters; the copies of single strings
  always succeed. \<open>self\<close> is the calling thread.
\<close>

section \<open>State\<close>

text \<open>What a slot of an array of strings holds; memory new from \<^verbatim>\<open>realloc\<close> is uninitialised.\<close>

datatype slot = Uninit | Null | Str string

record thread_env =
  te_thread_id :: tid
  te_environ_array :: "slot list option"
  te_num_vars :: nat
  te_capacity :: nat
  te_is_copy_on_write :: bool

definition ENV_HASH_SIZE :: nat where
  "ENV_HASH_SIZE = 128"

text \<open>
  The globals: the environments, the value of \<^verbatim>\<open>env_key\<close> in every thread, the buckets, the
  counter and flags, whether the key exists, and the process environment \<^verbatim>\<open>environ\<close>.
\<close>

record env_manager =
  em_heap :: "addr \<rightharpoonup> thread_env"
  em_specific :: "tid \<Rightarrow> addr option"
  em_hash_table :: "nat \<Rightarrow> (tid \<times> addr) list"
  em_total_thread_envs :: int
  em_once_done :: bool
  em_initialized :: bool
  em_key_exists :: bool
  em_environ :: "string list option"

text \<open>
  What the allocator answers: the address for a \<^verbatim>\<open>thread_env_t\<close>, whether the array, its
  \<^verbatim>\<open>realloc\<close> and the hash entry can be had.
\<close>

record env_mem =
  mm_env :: "addr option"
  mm_array :: bool
  mm_grow :: bool
  mm_entry :: bool

definition hash_tid :: "tid \<Rightarrow> nat" where
  "hash_tid t = t mod ENV_HASH_SIZE"

section \<open>Initialisation\<close>

text \<open>\<open>rc\<close> is the result of \<^verbatim>\<open>pthread_key_create\<close>.\<close>

definition env_manager_init_once :: "int \<Rightarrow> env_manager \<Rightarrow> env_manager" where
  "env_manager_init_once rc m =
     (if rc \<noteq> 0 then m
      else m\<lparr>em_key_exists := True, em_specific := (\<lambda>_. None),
             em_hash_table := (\<lambda>i. if i < ENV_HASH_SIZE then [] else em_hash_table m i),
             em_total_thread_envs := 0, em_initialized := True\<rparr>)"

definition ios_env_manager_init :: "int \<Rightarrow> env_manager \<Rightarrow> env_manager" where
  "ios_env_manager_init rc m =
     (if em_once_done m then m else (env_manager_init_once rc m)\<lparr>em_once_done := True\<rparr>)"

definition env_get_current :: "tid \<Rightarrow> env_manager \<Rightarrow> addr option" where
  "env_get_current self m = (if \<not> em_initialized m then None else em_specific m self)"

definition env_create_empty :: "tid \<Rightarrow> env_mem \<Rightarrow> env_manager \<Rightarrow> addr option \<times> env_manager" where
  "env_create_empty self mem m =
     (case mm_env mem of
        None \<Rightarrow> (None, m)
      | Some a \<Rightarrow>
          if \<not> mm_array mem then (None, m)
          else (Some a,
            m\<lparr>em_heap := (em_heap m)(a \<mapsto>
                 \<lparr>te_thread_id = self, te_environ_array = Some (replicate 17 Null), te_num_vars = 0,
                  te_capacity = 16, te_is_copy_on_write = False\<rparr>),
              em_total_thread_envs := em_total_thread_envs m + 1\<rparr>))"

text \<open>The loop frees the first \<open>num_vars\<close> strings: each must be a string or null.\<close>

definition strings_freeable :: "thread_env \<Rightarrow> bool" where
  "strings_freeable e \<longleftrightarrow>
     (case te_environ_array e of None \<Rightarrow> True
      | Some arr \<Rightarrow> te_num_vars e \<le> length arr \<and> Uninit \<notin> set (take (te_num_vars e) arr))"

definition env_free :: "addr option \<Rightarrow> env_manager \<Rightarrow> env_manager option" where
  "env_free p m =
     (case p of None \<Rightarrow> Some m
      | Some a \<Rightarrow>
          (case em_heap m a of None \<Rightarrow> None
           | Some e \<Rightarrow>
               if strings_freeable e
               then Some (m\<lparr>em_heap := (em_heap m)(a := None),
                            em_total_thread_envs := em_total_thread_envs m - 1\<rparr>)
               else None))"

section \<open>The hash table\<close>

definition env_hash_insert :: "bool \<Rightarrow> addr \<Rightarrow> env_manager \<Rightarrow> env_manager option" where
  "env_hash_insert entry_ok a m =
     (case em_heap m a of None \<Rightarrow> None
      | Some e \<Rightarrow>
          if \<not> entry_ok then None
          else let i = hash_tid (te_thread_id e)
               in Some (m\<lparr>em_hash_table :=
                    (em_hash_table m)(i := (te_thread_id e, a) # em_hash_table m i)\<rparr>))"

fun remove_entry :: "tid \<Rightarrow> (tid \<times> addr) list \<Rightarrow> (tid \<times> addr) list" where
  "remove_entry t [] = []"
| "remove_entry t (x # xs) = (if fst x = t then xs else x # remove_entry t xs)"

definition env_hash_remove :: "tid \<Rightarrow> env_manager \<Rightarrow> env_manager" where
  "env_hash_remove t m =
     (let i = hash_tid t
      in m\<lparr>em_hash_table := (em_hash_table m)(i := remove_entry t (em_hash_table m i))\<rparr>)"

definition env_lookup_by_tid :: "tid \<Rightarrow> env_manager \<Rightarrow> addr option" where
  "env_lookup_by_tid t m = map_of (em_hash_table m (hash_tid t)) t"

definition env_thread_destructor :: "tid \<Rightarrow> addr option \<Rightarrow> env_manager \<Rightarrow> env_manager option" where
  "env_thread_destructor self arg m =
     (case arg of None \<Rightarrow> Some m | Some a \<Rightarrow> env_free (Some a) (env_hash_remove self m))"

text \<open>
  A thread exits: the runtime clears a non-null thread-specific value, then calls the destructor
  with it. (Behaviour of \<^verbatim>\<open>pthread_key_create\<close>, not code of the library.)
\<close>

definition thread_exit :: "tid \<Rightarrow> env_manager \<Rightarrow> env_manager option" where
  "thread_exit self m =
     (if em_key_exists m \<and> em_specific m self \<noteq> None
      then env_thread_destructor self (em_specific m self)
             (m\<lparr>em_specific := (em_specific m)(self := None)\<rparr>)
      else Some m)"

fun free_entries :: "(tid \<times> addr) list \<Rightarrow> env_manager \<Rightarrow> env_manager option" where
  "free_entries [] m = Some m"
| "free_entries (x # xs) m = do { m1 \<leftarrow> env_free (Some (snd x)) m; free_entries xs m1 }"

fun free_table :: "nat \<Rightarrow> nat \<Rightarrow> env_manager \<Rightarrow> env_manager option" where
  "free_table 0 i m = Some m"
| "free_table (Suc n) i m =
     do { m1 \<leftarrow> free_entries (em_hash_table m i) m;
          free_table n (Suc i) (m1\<lparr>em_hash_table := (em_hash_table m1)(i := [])\<rparr>) }"

definition ios_env_manager_shutdown :: "env_manager \<Rightarrow> env_manager option" where
  "ios_env_manager_shutdown m =
     (if \<not> em_initialized m then Some m
      else do { m1 \<leftarrow> free_table ENV_HASH_SIZE 0 m;
                Some (m1\<lparr>em_key_exists := False, em_initialized := False\<rparr>) })"

section \<open>Arrays of variables\<close>

definition slot_at :: "slot list option \<Rightarrow> nat \<Rightarrow> slot option" where
  "slot_at arr i = (case arr of None \<Rightarrow> None | Some xs \<Rightarrow> if i < length xs then Some (xs ! i) else None)"

definition set_slot :: "slot list option \<Rightarrow> nat \<Rightarrow> slot \<Rightarrow> slot list option" where
  "set_slot arr i v =
     (case arr of None \<Rightarrow> None | Some xs \<Rightarrow> if i < length xs then Some (xs[i := v]) else None)"

text \<open>\<^verbatim>\<open>realloc(arr, n * sizeof(char*))\<close>, when it succeeds.\<close>

definition realloc_slots :: "slot list option \<Rightarrow> nat \<Rightarrow> slot list" where
  "realloc_slots arr n =
     (case arr of None \<Rightarrow> replicate n Uninit
      | Some xs \<Rightarrow> take n xs @ replicate (n - length xs) Uninit)"

text \<open>The loop of \<^verbatim>\<open>env_find_var\<close> from index \<open>i\<close>, with \<open>k\<close> variables left.\<close>

fun find_var_from :: "slot list option \<Rightarrow> string \<Rightarrow> nat \<Rightarrow> nat \<Rightarrow> int option" where
  "find_var_from arr name i 0 = Some (- 1)"
| "find_var_from arr name i (Suc k) =
     (case slot_at arr i of
        Some (Str s) \<Rightarrow> if var_matches name s then Some (int i) else find_var_from arr name (Suc i) k
      | _ \<Rightarrow> None)"

definition env_find_var :: "thread_env \<Rightarrow> string \<Rightarrow> int option" where
  "env_find_var e name = find_var_from (te_environ_array e) name 0 (te_num_vars e)"

text \<open>\<^verbatim>\<open>for (i \<dots>) dst[i] = strdup(src[i])\<close>, from index \<open>i\<close> with \<open>k\<close> strings left.\<close>

fun strdup_from :: "slot list option \<Rightarrow> nat \<Rightarrow> nat \<Rightarrow> slot list option \<Rightarrow> slot list option" where
  "strdup_from src i 0 dst = dst"
| "strdup_from src i (Suc k) dst =
     (case slot_at src i of
        Some (Str s) \<Rightarrow>
          (case set_slot dst i (Str s) of None \<Rightarrow> None
           | Some d \<Rightarrow> strdup_from src (Suc i) k (Some d))
      | _ \<Rightarrow> None)"

text \<open>
  Growing the array for \<open>n\<close> variables, copying them and the terminator: the common part of
  \<^verbatim>\<open>ios_env_init_thread\<close> and \<^verbatim>\<open>ios_env_copy_from_thread\<close>.
\<close>

definition copy_vars :: "bool \<Rightarrow> slot list option \<Rightarrow> nat \<Rightarrow> thread_env \<Rightarrow> thread_env option" where
  "copy_vars grow_ok src n e =
     (let e1 = (if n > te_capacity e
                then e\<lparr>te_capacity := n + 8,
                       te_environ_array := (if grow_ok then Some (realloc_slots (te_environ_array e) (n + 8 + 1)) else None)\<rparr>
                else e)
      in do { arr \<leftarrow> strdup_from src 0 n (te_environ_array e1);
              arr' \<leftarrow> set_slot (Some arr) n Null;
              Some (e1\<lparr>te_environ_array := Some arr', te_num_vars := n\<rparr>) })"

text \<open>
  The variables a new environment starts with: the parent's, or those of the process. The environment of the parent is looked up under the lock of the table, which
  is given back before the environment is locked; \<open>others\<close> is what other threads do in between.
\<close>

definition inherit_env ::
  "(env_manager \<Rightarrow> env_manager) \<Rightarrow> bool \<Rightarrow> tid \<Rightarrow> env_manager \<Rightarrow> thread_env \<Rightarrow> (thread_env \<times> env_manager) option" where
  "inherit_env others grow_ok parent_tid m e =
     (if parent_tid \<noteq> 0 then
        (case env_lookup_by_tid parent_tid m of
           None \<Rightarrow> Some (e, m)
         | Some p \<Rightarrow>
             do { pe \<leftarrow> em_heap (others m) p;
                  e2 \<leftarrow> copy_vars grow_ok (te_environ_array pe) (te_num_vars pe) e;
                  Some (e2\<lparr>te_is_copy_on_write := True\<rparr>, others m) })
      else
        (case em_environ m of
           None \<Rightarrow> Some (e, m)
         | Some ss \<Rightarrow> map_option (\<lambda>e2. (e2, m)) (copy_vars grow_ok (Some (map Str ss)) (length ss) e)))"

definition ios_env_init_thread_with ::
  "(env_manager \<Rightarrow> env_manager) \<Rightarrow> tid \<Rightarrow> int \<Rightarrow> env_mem \<Rightarrow> tid \<Rightarrow> env_manager \<Rightarrow> env_manager option" where
  "ios_env_init_thread_with others self rc mem parent_tid m0 =
     (let m = ios_env_manager_init rc m0 in
      if env_get_current self m \<noteq> None then Some m
      else case env_create_empty self mem m of
        (None, m1) \<Rightarrow> Some m1
      | (Some a, m1) \<Rightarrow>
          do { e \<leftarrow> em_heap m1 a;
               (e', m2) \<leftarrow> inherit_env others (mm_grow mem) parent_tid m1 e;
               let m3 = m2\<lparr>em_heap := (em_heap m2)(a \<mapsto> e')\<rparr>;
               let m4 = (if em_key_exists m3 then m3\<lparr>em_specific := (em_specific m3)(self := Some a)\<rparr> else m3);
               env_hash_insert (mm_entry mem) a m4 })"

definition ios_env_init_thread ::
  "tid \<Rightarrow> int \<Rightarrow> env_mem \<Rightarrow> tid \<Rightarrow> env_manager \<Rightarrow> env_manager option" where
  "ios_env_init_thread self rc mem parent_tid m = ios_env_init_thread_with (\<lambda>m. m) self rc mem parent_tid m"

definition ios_env_cleanup_thread :: "tid \<Rightarrow> env_manager \<Rightarrow> env_manager" where
  "ios_env_cleanup_thread self m =
     (if env_get_current self m \<noteq> None
      then m\<lparr>em_specific := (em_specific m)(self := None)\<rparr> else m)"

section \<open>The process environment of the C library\<close>

definition posix_getenv :: "string list option \<Rightarrow> string \<Rightarrow> string option" where
  "posix_getenv env name = (case env of None \<Rightarrow> None | Some ss \<Rightarrow> lookup_var name ss)"

definition posix_setenv :: "string list option \<Rightarrow> string \<Rightarrow> string \<Rightarrow> bool \<Rightarrow> string list option" where
  "posix_setenv env name v overwrite =
     (let ss = (case env of None \<Rightarrow> [] | Some ss \<Rightarrow> ss)
      in if index_var name ss \<noteq> None \<and> \<not> overwrite then env else Some (assign_var name v ss))"

definition posix_unsetenv :: "string list option \<Rightarrow> string \<Rightarrow> string list option" where
  "posix_unsetenv env name = map_option (filter (\<lambda>s. \<not> var_matches name s)) env"

section \<open>Variables of the calling thread\<close>

text \<open>A null pointer for the name or the value is \<open>None\<close>; the result is the value found.\<close>

definition ios_env_getenv :: "tid \<Rightarrow> string option \<Rightarrow> env_manager \<Rightarrow> string option option" where
  "ios_env_getenv self name m =
     (case name of
        None \<Rightarrow> Some None
      | Some [] \<Rightarrow> Some None
      | Some n \<Rightarrow>
          (case env_get_current self m of
             None \<Rightarrow> Some (posix_getenv (em_environ m) n)
           | Some a \<Rightarrow>
               do { e \<leftarrow> em_heap m a;
                    idx \<leftarrow> env_find_var e n;
                    if idx \<ge> 0
                    then (case slot_at (te_environ_array e) (nat idx) of
                            Some (Str s) \<Rightarrow> Some (Some (entry_value n s))
                          | _ \<Rightarrow> None)
                    else Some None }))"

definition bad_name :: "string option \<Rightarrow> bool" where
  "bad_name name \<longleftrightarrow> (case name of None \<Rightarrow> True | Some n \<Rightarrow> n = [] \<or> eq_char \<in> set n)"

text \<open>The update of one environment; the flag tells whether it succeeded (\<^verbatim>\<open>realloc\<close> did).\<close>

definition setenv_thread ::
  "bool \<Rightarrow> string \<Rightarrow> string \<Rightarrow> bool \<Rightarrow> thread_env \<Rightarrow> (bool \<times> thread_env) option" where
  "setenv_thread grow_ok n v overwrite e =
     do { idx \<leftarrow> env_find_var e n;
          if idx \<ge> 0 then
            if \<not> overwrite then Some (True, e)
            else do { arr \<leftarrow> set_slot (te_environ_array e) (nat idx) (Str (env_entry n v));
                      Some (True, e\<lparr>te_environ_array := Some arr, te_is_copy_on_write := False\<rparr>) }
          else if te_num_vars e \<ge> te_capacity e \<and> \<not> grow_ok then
            Some (False, e\<lparr>te_capacity := te_capacity e * 2, te_environ_array := None\<rparr>)
          else
            let e1 = (if te_num_vars e \<ge> te_capacity e
                      then e\<lparr>te_capacity := te_capacity e * 2,
                             te_environ_array := Some (realloc_slots (te_environ_array e) (te_capacity e * 2 + 1))\<rparr>
                      else e)
            in do { arr \<leftarrow> set_slot (te_environ_array e1) (te_num_vars e1) (Str (env_entry n v));
                    arr' \<leftarrow> set_slot (Some arr) (te_num_vars e1 + 1) Null;
                    Some (True, e1\<lparr>te_environ_array := Some arr', te_num_vars := te_num_vars e1 + 1,
                                   te_is_copy_on_write := False\<rparr>) } }"

definition ios_env_setenv ::
  "tid \<Rightarrow> bool \<Rightarrow> string option \<Rightarrow> string option \<Rightarrow> bool \<Rightarrow> env_manager \<Rightarrow> (int sysret \<times> env_manager) option" where
  "ios_env_setenv self grow_ok name val overwrite m =
     (if bad_name name then Some ((- 1, Some EINVAL), m)
      else let n = the name; v = (case val of None \<Rightarrow> '''' | Some v \<Rightarrow> v)
      in case env_get_current self m of
           None \<Rightarrow> Some ((0, None), m\<lparr>em_environ := posix_setenv (em_environ m) n v overwrite\<rparr>)
         | Some a \<Rightarrow>
             do { e \<leftarrow> em_heap m a;
                  (ok, e') \<leftarrow> setenv_thread grow_ok n v overwrite e;
                  Some (if ok then (0, None) else (- 1, Some ENOMEM),
                        m\<lparr>em_heap := (em_heap m)(a \<mapsto> e')\<rparr>) })"

text \<open>The shift loop from index \<open>i\<close>, with \<open>k\<close> moves left.\<close>

fun shift_down :: "nat \<Rightarrow> nat \<Rightarrow> slot list option \<Rightarrow> slot list option" where
  "shift_down i 0 arr = arr"
| "shift_down i (Suc k) arr =
     (case slot_at arr (Suc i) of None \<Rightarrow> None
      | Some x \<Rightarrow> (case set_slot arr i x of None \<Rightarrow> None | Some a \<Rightarrow> shift_down (Suc i) k (Some a)))"

definition unsetenv_thread :: "string \<Rightarrow> thread_env \<Rightarrow> thread_env option" where
  "unsetenv_thread n e =
     do { idx \<leftarrow> env_find_var e n;
          if idx \<ge> 0 then
            do { arr \<leftarrow> shift_down (nat idx) (te_num_vars e - 1 - nat idx) (te_environ_array e);
                 arr' \<leftarrow> set_slot (Some arr) (te_num_vars e - 1) Null;
                 Some (e\<lparr>te_environ_array := Some arr', te_num_vars := te_num_vars e - 1,
                         te_is_copy_on_write := False\<rparr>) }
          else Some e }"

definition ios_env_unsetenv ::
  "tid \<Rightarrow> string option \<Rightarrow> env_manager \<Rightarrow> (int sysret \<times> env_manager) option" where
  "ios_env_unsetenv self name m =
     (if bad_name name then Some ((- 1, Some EINVAL), m)
      else let n = the name
      in case env_get_current self m of
           None \<Rightarrow> Some ((0, None), m\<lparr>em_environ := posix_unsetenv (em_environ m) n\<rparr>)
         | Some a \<Rightarrow>
             do { e \<leftarrow> em_heap m a;
                  e' \<leftarrow> unsetenv_thread n e;
                  Some ((0, None), m\<lparr>em_heap := (em_heap m)(a \<mapsto> e')\<rparr>) })"

definition ios_env_get_environ :: "tid \<Rightarrow> env_manager \<Rightarrow> slot list option option" where
  "ios_env_get_environ self m =
     (case env_get_current self m of
        None \<Rightarrow> Some (map_option (\<lambda>ss. map Str ss @ [Null]) (em_environ m))
      | Some a \<Rightarrow> map_option te_environ_array (em_heap m a))"

section \<open>Copying and statistics\<close>

text \<open>
  The read lock on the source is held when the write lock on the destination is requested, so
  a copy of an environment to itself waits for its own read lock.
\<close>

text \<open>Here too \<open>others\<close> is what other threads do between the lookups and the locks of the environments.\<close>

definition ios_env_copy_from_thread_with ::
  "(env_manager \<Rightarrow> env_manager) \<Rightarrow> bool \<Rightarrow> tid \<Rightarrow> tid \<Rightarrow> env_manager \<Rightarrow> (int sysret, env_manager) exec" where
  "ios_env_copy_from_thread_with others grow_ok source_tid dest_tid m0 =
     (case (env_lookup_by_tid source_tid m0, env_lookup_by_tid dest_tid m0) of
        (Some sa, Some da) \<Rightarrow>
          let m = others m0 in
          (case (em_heap m sa, em_heap m da) of
             (Some se, Some de) \<Rightarrow>
               if sa = da then Blocked m
               else if \<not> strings_freeable de \<or> (te_environ_array de = None \<and> te_num_vars de > 0) then Crash
               else (case copy_vars grow_ok (te_environ_array se) (te_num_vars se) de of
                       None \<Rightarrow> Crash
                     | Some de' \<Rightarrow>
                         Returns (0, None)
                           (m\<lparr>em_heap := (em_heap m)(da \<mapsto> de'\<lparr>te_is_copy_on_write := True\<rparr>)\<rparr>))
           | _ \<Rightarrow> Crash)
      | _ \<Rightarrow> Returns (- 1, Some ESRCH) m0)"

definition ios_env_copy_from_thread ::
  "bool \<Rightarrow> tid \<Rightarrow> tid \<Rightarrow> env_manager \<Rightarrow> (int sysret, env_manager) exec" where
  "ios_env_copy_from_thread grow_ok source_tid dest_tid m = ios_env_copy_from_thread_with (\<lambda>m. m) grow_ok source_tid dest_tid m"

fun count_entries :: "(tid \<times> addr) list \<Rightarrow> env_manager \<Rightarrow> nat option" where
  "count_entries [] m = Some 0"
| "count_entries (x # xs) m =
     do { e \<leftarrow> em_heap m (snd x); n \<leftarrow> count_entries xs m; Some (te_num_vars e + n) }"

fun count_table :: "nat \<Rightarrow> nat \<Rightarrow> env_manager \<Rightarrow> nat option" where
  "count_table 0 i m = Some 0"
| "count_table (Suc k) i m =
     do { n \<leftarrow> count_entries (em_hash_table m i) m; r \<leftarrow> count_table k (Suc i) m; Some (n + r) }"

definition ios_env_get_stats :: "env_manager \<Rightarrow> (int \<times> nat) option" where
  "ios_env_get_stats m = do { n \<leftarrow> count_table ENV_HASH_SIZE 0 m; Some (em_total_thread_envs m, n) }"

lemmas init_alone = ios_env_init_thread_def ios_env_init_thread_with_def
lemmas copy_alone = ios_env_copy_from_thread_def ios_env_copy_from_thread_with_def

section \<open>One environment\<close>

text \<open>
  The array holds the strings \<open>ss\<close> and a null terminator and has room for \<open>capacity\<close> strings.
\<close>

definition env_rep :: "thread_env \<Rightarrow> string list \<Rightarrow> bool" where
  "env_rep e ss \<longleftrightarrow> te_num_vars e = length ss \<and> 0 < te_capacity e \<and>
     (\<exists>rest. te_environ_array e = Some (map Str ss @ Null # rest) \<and>
        length ss + length rest = te_capacity e)"

lemma find_var_from_eq:
  "find_var_from (Some (map Str (pre @ ss) @ rest)) n (length pre) (length ss) =
     Some (case index_var n ss of None \<Rightarrow> - 1 | Some i \<Rightarrow> int (length pre + i))"
proof (induction ss arbitrary: pre)
  case Nil
  then show ?case by simp
next
  case (Cons s ss)
  from Cons.IH [of "pre @ [s]"] show ?case
    by (auto simp: slot_at_def nth_append split: option.splits)
qed

lemma env_find_var_eq:
  "env_rep e ss \<Longrightarrow>
   env_find_var e n = Some (case index_var n ss of None \<Rightarrow> - 1 | Some i \<Rightarrow> int i)"
  using find_var_from_eq [of "[]" ss _ n] by (auto simp: env_rep_def env_find_var_def split: option.splits)

lemma replicate_set_0: "0 < n \<Longrightarrow> (replicate n x)[0 := y] = y # replicate (n - 1) x"
  by (cases n) simp_all

lemma setenv_thread_spec:
  assumes e: "env_rep e ss" and room: "grow_ok \<or> length ss < te_capacity e"
  shows "\<exists>e'. setenv_thread grow_ok n v overwrite e = Some (True, e') \<and>
    env_rep e' (if index_var n ss = None \<or> overwrite then assign_var n v ss else ss) \<and>
    te_thread_id e' = te_thread_id e"
proof (cases "index_var n ss")
  case (Some i)
  with e index_var_Some [OF Some] show ?thesis
    by (auto simp: setenv_thread_def env_find_var_eq [OF e] env_rep_def set_slot_def assign_var_index
        list_update_append map_update)
next
  case None
  obtain rest where r: "te_environ_array e = Some (map Str ss @ Null # rest)"
    "length ss + length rest = te_capacity e" "te_num_vars e = length ss" "0 < te_capacity e"
    using e by (auto simp: env_rep_def)
  show ?thesis
  proof (cases "length ss < te_capacity e")
    case True
    then obtain x xs where "rest = x # xs" using r(2) by (cases rest) auto
    with None r True show ?thesis
      by (auto simp: setenv_thread_def env_find_var_eq [OF e] env_rep_def set_slot_def assign_var_index
          list_update_append)
  next
    case False
    with r have "length rest = 0" by linarith
    then have "rest = []" by simp
    with None r False room show ?thesis
      by (auto simp: setenv_thread_def env_find_var_eq [OF e] env_rep_def set_slot_def assign_var_index
          list_update_append realloc_slots_def nth_append replicate_set_0)
  qed
qed

lemma shift_down_eq:
  "i + k < length arr \<Longrightarrow>
   shift_down i k (Some arr) = Some (take i arr @ take k (drop (Suc i) arr) @ drop (i + k) arr)"
proof (induction k arbitrary: i arr)
  case 0
  then show ?case by simp
next
  case (Suc k)
  let ?arr = "arr[i := arr ! Suc i]"
  have "shift_down i (Suc k) (Some arr) = shift_down (Suc i) k (Some ?arr)"
    using Suc.prems by (simp add: slot_at_def set_slot_def)
  also have "\<dots> = Some (take (Suc i) ?arr @ take k (drop (Suc (Suc i)) ?arr) @ drop (Suc i + k) ?arr)"
    by (rule Suc.IH) (use Suc.prems in simp)
  finally have s: "shift_down i (Suc k) (Some arr) = \<dots>" .
  have "take (Suc i) ?arr = take i arr @ [arr ! Suc i]"
    using Suc.prems by (simp add: take_Suc_conv_app_nth)
  moreover have "drop (Suc i) arr = arr ! Suc i # drop (Suc (Suc i)) arr"
    using Suc.prems by (simp add: Cons_nth_drop_Suc)
  ultimately show ?case unfolding s by simp
qed

lemma unsetenv_thread_spec:
  assumes e: "env_rep e ss"
  shows "\<exists>e'. unsetenv_thread n e = Some e' \<and> env_rep e' (remove_var n ss) \<and>
    te_thread_id e' = te_thread_id e"
proof (cases "index_var n ss")
  case None
  with e show ?thesis by (auto simp: unsetenv_thread_def env_find_var_eq [OF e] remove_var_index)
next
  case (Some i)
  obtain rest where r: "te_environ_array e = Some (map Str ss @ Null # rest)"
    "length ss + length rest = te_capacity e" "te_num_vars e = length ss" "0 < te_capacity e"
    using e by (auto simp: env_rep_def)
  have i: "i < length ss" using index_var_Some [OF Some] by simp
  let ?k = "length ss - 1 - i"
  have ik: "i + ?k = length ss - 1" using i by simp
  have sh: "shift_down i ?k (Some (map Str ss @ Null # rest)) =
    Some (map Str (take i ss @ drop (Suc i) ss) @ Str (ss ! (length ss - 1)) # Null # rest)"
  proof -
    have "drop (length ss - 1) (map Str ss @ Null # rest) = Str (ss ! (length ss - 1)) # Null # rest"
      using i by (cases ss rule: rev_cases) (simp_all add: drop_map)
    then show ?thesis
      using i shift_down_eq [of i ?k "map Str ss @ Null # rest"] unfolding ik
      by (simp add: take_map drop_map)
  qed
  have "unsetenv_thread n e = Some (e\<lparr>te_environ_array :=
      Some (map Str (take i ss @ drop (Suc i) ss) @ Null # Null # rest), te_num_vars := length ss - 1,
      te_is_copy_on_write := False\<rparr>)"
    using r Some sh i by (simp add: unsetenv_thread_def env_find_var_eq [OF e] set_slot_def list_update_append)
  then show ?thesis using r i Some by (simp add: env_rep_def remove_var_index)
qed

lemma strdup_from_eq:
  "length pre + length ss \<le> length dst \<Longrightarrow>
   strdup_from (Some (map Str (pre @ ss) @ rest)) (length pre) (length ss) (Some dst) =
     Some (take (length pre) dst @ map Str ss @ drop (length pre + length ss) dst)"
proof (induction ss arbitrary: pre dst)
  case Nil
  then show ?case by simp
next
  case (Cons s ss)
  from Cons.IH [of "pre @ [s]" "dst[length pre := Str s]"] Cons.prems show ?case
    by (simp add: slot_at_def set_slot_def nth_append take_Suc_conv_app_nth)
qed

lemma copy_vars_spec:
  assumes e: "env_rep e ss0" and src: "src = Some (map Str ss @ tail)"
  shows "\<exists>e'. copy_vars True src (length ss) e = Some e' \<and> env_rep e' ss \<and>
    te_thread_id e' = te_thread_id e \<and> te_is_copy_on_write e' = te_is_copy_on_write e"
proof -
  define e1 where "e1 = (if length ss > te_capacity e
                then e\<lparr>te_capacity := length ss + 8,
                       te_environ_array := Some (realloc_slots (te_environ_array e) (length ss + 8 + 1))\<rparr>
                else e)"
  have eq: "copy_vars True src (length ss) e =
    do { arr \<leftarrow> strdup_from src 0 (length ss) (te_environ_array e1);
         arr' \<leftarrow> set_slot (Some arr) (length ss) Null;
         Some (e1\<lparr>te_environ_array := Some arr', te_num_vars := length ss\<rparr>) }"
    unfolding copy_vars_def e1_def Let_def by simp
  have cap: "length ss \<le> te_capacity e1" "0 < te_capacity e1"
    using e by (auto simp: e1_def env_rep_def)
  obtain arr where arr: "te_environ_array e1 = Some arr" "length arr = te_capacity e1 + 1"
    using e by (cases "length ss > te_capacity e") (auto simp: e1_def env_rep_def realloc_slots_def)
  have "strdup_from src 0 (length ss) (Some arr) = Some (map Str ss @ drop (length ss) arr)"
    using strdup_from_eq [of "[]" ss arr tail] arr cap src by simp
  moreover obtain x xs where xs: "drop (length ss) arr = x # xs" "length xs = te_capacity e1 - length ss"
  proof -
    have "length (drop (length ss) arr) = Suc (te_capacity e1 - length ss)" using arr cap by simp
    then show thesis using that by (cases "drop (length ss) arr") auto
  qed
  ultimately have "copy_vars True src (length ss) e = Some (e1\<lparr>te_environ_array := Some (map Str ss @ Null # xs),
      te_num_vars := length ss\<rparr>)"
    using arr eq by (simp add: set_slot_def list_update_append)
  then show ?thesis using cap xs(2) by (auto simp: env_rep_def e1_def)
qed

text \<open>The strings of an environment, and that it is well formed.\<close>

definition env_strings :: "thread_env \<Rightarrow> string list" where
  "env_strings e = map (\<lambda>x. case x of Str s \<Rightarrow> s | _ \<Rightarrow> '''') (take (te_num_vars e) (the (te_environ_array e)))"

abbreviation env_ok :: "thread_env \<Rightarrow> bool" where
  "env_ok e \<equiv> env_rep e (env_strings e)"

lemma env_rep_strings: "env_rep e ss \<Longrightarrow> env_strings e = ss"
  by (auto simp: env_rep_def env_strings_def comp_def)

lemma env_rep_ok: "env_rep e ss \<Longrightarrow> env_ok e"
  using env_rep_strings by simp

lemma env_rep_cow [simp]: "env_rep (e\<lparr>te_is_copy_on_write := b\<rparr>) ss = env_rep e ss"
  "env_strings (e\<lparr>te_is_copy_on_write := b\<rparr>) = env_strings e"
  by (simp_all add: env_rep_def env_strings_def)

lemma env_ok_freeable: "env_ok e \<Longrightarrow> strings_freeable e \<and> te_environ_array e \<noteq> None"
  by (auto simp: env_rep_def strings_freeable_def)

section \<open>The manager\<close>

definition table_ok :: "env_manager \<Rightarrow> bool" where
  "table_ok m \<longleftrightarrow> (\<forall>i < ENV_HASH_SIZE. distinct (map snd (em_hash_table m i)) \<and>
     (\<forall>t a. (t, a) \<in> set (em_hash_table m i) \<longrightarrow>
        hash_tid t = i \<and> map_option te_thread_id (em_heap m a) = Some t))"

definition table_addrs :: "env_manager \<Rightarrow> addr set" where
  "table_addrs m = {a. \<exists>i t. i < ENV_HASH_SIZE \<and> (t, a) \<in> set (em_hash_table m i)}"

definition em_inv :: "env_manager \<Rightarrow> bool" where
  "em_inv m \<longleftrightarrow> em_initialized m \<and> em_once_done m \<and> em_key_exists m \<and> table_ok m \<and>
     dom (em_heap m) = table_addrs m \<and> finite (dom (em_heap m)) \<and>
     (\<forall>a e. em_heap m a = Some e \<longrightarrow> env_ok e) \<and>
     (\<forall>t a. em_specific m t = Some a \<longrightarrow> env_lookup_by_tid t m = Some a) \<and>
     em_total_thread_envs m = int (card (dom (em_heap m)))"

lemma em_invD:
  assumes "em_inv m"
  shows "em_initialized m" "em_once_done m" "em_key_exists m" "table_ok m"
    "dom (em_heap m) = table_addrs m" "finite (dom (em_heap m))"
    "\<And>a e. em_heap m a = Some e \<Longrightarrow> env_ok e"
    "\<And>t a. em_specific m t = Some a \<Longrightarrow> env_lookup_by_tid t m = Some a"
    "em_total_thread_envs m = int (card (dom (em_heap m)))"
  using assms unfolding em_inv_def by blast+

lemma hash_tid_less [simp]: "hash_tid t < ENV_HASH_SIZE"
  by (simp add: hash_tid_def ENV_HASH_SIZE_def)

lemma lookup_heap:
  assumes "em_inv m" and "env_lookup_by_tid t m = Some a"
  obtains e where "em_heap m a = Some e" "te_thread_id e = t" "env_ok e"
proof -
  have "(t, a) \<in> set (em_hash_table m (hash_tid t))"
    using assms(2) by (auto simp: env_lookup_by_tid_def dest: map_of_SomeD)
  with em_invD(4) [OF assms(1)] have "map_option te_thread_id (em_heap m a) = Some t"
    unfolding table_ok_def by (metis hash_tid_less)
  with em_invD(7) [OF assms(1), of a] show thesis by (auto intro: that)
qed

lemma specific_heap:
  assumes "em_inv m" and "em_specific m t = Some a"
  obtains e where "em_heap m a = Some e" "te_thread_id e = t" "env_ok e"
  using lookup_heap [OF assms(1) em_invD(8) [OF assms]] that by blast

lemma specific_inj:
  "em_inv m \<Longrightarrow> em_specific m t = Some a \<Longrightarrow> em_specific m u = Some a \<Longrightarrow> t = u"
  by (metis option.inject specific_heap)

text \<open>Changing one environment in place.\<close>

lemma em_inv_upd:
  assumes m: "em_inv m" and e: "em_heap m a = Some e"
    and e': "env_ok e'" "te_thread_id e' = te_thread_id e"
  shows "em_inv (m\<lparr>em_heap := (em_heap m)(a \<mapsto> e')\<rparr>)"
proof -
  let ?m = "m\<lparr>em_heap := (em_heap m)(a \<mapsto> e')\<rparr>"
  have dom: "dom (em_heap ?m) = dom (em_heap m)" using e by auto
  have ta: "table_addrs ?m = table_addrs m" by (simp add: table_addrs_def)
  have "map_option te_thread_id (em_heap ?m x) = map_option te_thread_id (em_heap m x)" for x
    using e e'(2) by simp
  then have "table_ok ?m" using em_invD(4) [OF m] unfolding table_ok_def by simp
  then show ?thesis
    using em_invD [OF m] e'(1) unfolding em_inv_def dom ta by (simp add: env_lookup_by_tid_def)
qed

text \<open>The environment of a thread as a list of strings.\<close>

definition thread_vars :: "env_manager \<Rightarrow> tid \<Rightarrow> string list option" where
  "thread_vars m t = (case em_specific m t of None \<Rightarrow> None
     | Some a \<Rightarrow> map_option env_strings (em_heap m a))"

lemma thread_varsE:
  assumes "em_inv m" and "thread_vars m t = Some ss"
  obtains a e where "em_specific m t = Some a" "em_heap m a = Some e" "env_rep e ss" "te_thread_id e = t"
    "env_get_current t m = Some a"
proof -
  from assms(2) obtain a e where a: "em_specific m t = Some a" "em_heap m a = Some e" "env_strings e = ss"
    by (auto simp: thread_vars_def split: option.splits)
  obtain e' where "em_heap m a = Some e'" "te_thread_id e' = t" "env_ok e'"
    by (rule specific_heap [OF assms(1) a(1)])
  with a have "env_rep e ss" "te_thread_id e = t" by auto
  moreover have "env_get_current t m = Some a" using a(1) em_invD(1) [OF assms(1)] by (simp add: env_get_current_def)
  ultimately show thesis using that a(1,2) by blast
qed

lemma thread_vars_upd:
  assumes m: "em_inv m" and a: "em_specific m t = Some a" "em_heap m a = Some e"
    and e': "env_rep e' ss'"
  shows "thread_vars (m\<lparr>em_heap := (em_heap m)(a \<mapsto> e')\<rparr>) = (thread_vars m)(t \<mapsto> ss')"
proof
  fix u
  show "thread_vars (m\<lparr>em_heap := (em_heap m)(a \<mapsto> e')\<rparr>) u = ((thread_vars m)(t \<mapsto> ss')) u"
  proof (cases "u = t")
    case True
    with a env_rep_strings [OF e'] show ?thesis by (simp add: thread_vars_def)
  next
    case False
    then have "em_specific m u \<noteq> Some a" using specific_inj [OF m a(1)] by blast
    with False show ?thesis by (auto simp: thread_vars_def split: option.splits)
  qed
qed

text \<open>What the operations do to the environment of the calling thread.\<close>

lemma getenv_spec:
  assumes "em_inv m" and "thread_vars m self = Some ss" and "n \<noteq> []"
  shows "ios_env_getenv self (Some n) m = Some (lookup_var n ss)"
proof -
  obtain a e where a: "em_specific m self = Some a" "em_heap m a = Some e" "env_rep e ss" "te_thread_id e = self"
    "env_get_current self m = Some a"
    using thread_varsE [OF assms(1,2)] by blast
  obtain rest where arr: "te_environ_array e = Some (map Str ss @ rest)" using a(3) by (auto simp: env_rep_def)
  show ?thesis
  proof (cases "index_var n ss")
    case None
    with assms(3) a show ?thesis
      by (cases n) (auto simp: ios_env_getenv_def env_find_var_eq lookup_var_index)
  next
    case (Some i)
    with assms(3) a arr index_var_Some [OF Some] show ?thesis
      by (cases n) (auto simp: ios_env_getenv_def env_find_var_eq lookup_var_index slot_at_def nth_append)
  qed
qed

lemma setenv_spec:
  assumes m: "em_inv m" and "thread_vars m self = Some ss" and "valid_name n"
  shows "\<exists>m'. ios_env_setenv self True (Some n) (Some v) overwrite m = Some ((0, None), m') \<and> em_inv m' \<and>
    thread_vars m' = (thread_vars m)(self \<mapsto>
      (if index_var n ss = None \<or> overwrite then assign_var n v ss else ss)) \<and>
    em_environ m' = em_environ m"
proof -
  obtain a e where a: "em_specific m self = Some a" "em_heap m a = Some e" "env_rep e ss" "te_thread_id e = self"
    "env_get_current self m = Some a"
    using thread_varsE [OF assms(1,2)] by blast
  from setenv_thread_spec [OF a(3), of True n v overwrite] obtain e' where
    e': "setenv_thread True n v overwrite e = Some (True, e')" 
      "env_rep e' (if index_var n ss = None \<or> overwrite then assign_var n v ss else ss)"
      "te_thread_id e' = te_thread_id e" by blast
  show ?thesis
    using a e'(1) assms(3) em_inv_upd [OF m a(2) env_rep_ok [OF e'(2)] e'(3)] thread_vars_upd [OF m a(1,2) e'(2)]
    by (intro exI [of _ "m\<lparr>em_heap := (em_heap m)(a \<mapsto> e')\<rparr>"])
      (simp add: ios_env_setenv_def bad_name_def valid_name_def)
qed

lemma unsetenv_spec:
  assumes m: "em_inv m" and "thread_vars m self = Some ss" and "valid_name n"
  shows "\<exists>m'. ios_env_unsetenv self (Some n) m = Some ((0, None), m') \<and> em_inv m' \<and>
    thread_vars m' = (thread_vars m)(self \<mapsto> remove_var n ss) \<and> em_environ m' = em_environ m"
proof -
  obtain a e where a: "em_specific m self = Some a" "em_heap m a = Some e" "env_rep e ss" "te_thread_id e = self"
    "env_get_current self m = Some a"
    using thread_varsE [OF assms(1,2)] by blast
  from unsetenv_thread_spec [OF a(3), of n] obtain e' where
    e': "unsetenv_thread n e = Some e'" "env_rep e' (remove_var n ss)"
      "te_thread_id e' = te_thread_id e" by blast
  show ?thesis
    using a e'(1) assms(3) em_inv_upd [OF m a(2) env_rep_ok [OF e'(2)] e'(3)] thread_vars_upd [OF m a(1,2) e'(2)]
    by (intro exI [of _ "m\<lparr>em_heap := (em_heap m)(a \<mapsto> e')\<rparr>"])
      (simp add: ios_env_unsetenv_def bad_name_def valid_name_def)
qed

section \<open>Threads come and go\<close>

lemma table_okD:
  assumes "table_ok m" and "i < ENV_HASH_SIZE"
  shows "distinct (map snd (em_hash_table m i))"
    and "\<And>t a. (t, a) \<in> set (em_hash_table m i) \<Longrightarrow>
      hash_tid t = i \<and> map_option te_thread_id (em_heap m a) = Some t"
  using assms unfolding table_ok_def by blast+

text \<open>A new environment for a thread that has none.\<close>

lemma em_inv_insert:
  assumes m: "em_inv m" and a: "em_heap m a = None" and s: "em_specific m self = None"
    and e: "env_rep e ss" "te_thread_id e = self"
    and m': "m' = m\<lparr>em_heap := (em_heap m)(a \<mapsto> e), em_specific := (em_specific m)(self := Some a),
      em_hash_table := (em_hash_table m)(hash_tid self := (self, a) # em_hash_table m (hash_tid self)),
      em_total_thread_envs := em_total_thread_envs m + 1\<rparr>"
  shows "em_inv m' \<and> thread_vars m' = (thread_vars m)(self \<mapsto> ss)"
proof -
  note inv = em_invD [OF m]
  have na: "a \<notin> table_addrs m" using a inv(5) by blast
  have dom: "dom (em_heap m') = insert a (dom (em_heap m))" using m' by simp
  have ta: "table_addrs m' = insert a (table_addrs m)"
  proof -
    have "(t, x) \<in> set (em_hash_table m' i) \<longleftrightarrow>
        (t, x) \<in> set (em_hash_table m i) \<or> i = hash_tid self \<and> t = self \<and> x = a" for t x i
      using m' by auto
    then show ?thesis using hash_tid_less [of self] unfolding table_addrs_def by blast
  qed
  have tok: "table_ok m'"
    unfolding table_ok_def
  proof (intro allI impI)
    fix i assume i: "i < ENV_HASH_SIZE"
    with na have "a \<notin> snd ` set (em_hash_table m i)" by (auto simp: table_addrs_def)
    with table_okD [OF inv(4) i] e(2) m' show "distinct (map snd (em_hash_table m' i)) \<and>
      (\<forall>t x. (t, x) \<in> set (em_hash_table m' i) \<longrightarrow>
        hash_tid t = i \<and> map_option te_thread_id (em_heap m' x) = Some t)"
      by (auto simp: image_iff)
  qed
  have lk: "env_lookup_by_tid t m' = (if t = self then Some a else env_lookup_by_tid t m)" for t
    using m' by (auto simp: env_lookup_by_tid_def)
  have "env_ok e" using e(1) by (rule env_rep_ok)
  then have "em_inv m'"
    using inv tok lk a m' unfolding em_inv_def dom ta by (auto simp: card_insert_if)
  moreover have "em_specific m t \<noteq> Some a" for t
    using specific_heap [OF m, of t a] a by auto
  then have "thread_vars m' t = ((thread_vars m)(self \<mapsto> ss)) t" for t
    using m' env_rep_strings [OF e(1)] by (auto simp: thread_vars_def split: option.splits)
  ultimately show ?thesis by blast
qed

definition inherited_vars :: "tid \<Rightarrow> env_manager \<Rightarrow> string list" where
  "inherited_vars parent m =
     (if parent \<noteq> 0 then (case env_lookup_by_tid parent m of None \<Rightarrow> []
        | Some p \<Rightarrow> (case em_heap m p of None \<Rightarrow> [] | Some e \<Rightarrow> env_strings e))
      else (case em_environ m of None \<Rightarrow> [] | Some ss \<Rightarrow> ss))"

definition mem_ok :: "env_mem \<Rightarrow> env_manager \<Rightarrow> bool" where
  "mem_ok mem m \<longleftrightarrow> (\<exists>a. mm_env mem = Some a \<and> em_heap m a = None) \<and> mm_array mem \<and> mm_grow mem \<and> mm_entry mem"

lemma inherit_env_spec:
  assumes m: "em_inv m" and a: "em_heap m a = None" and e0: "env_rep e0 []"
    and m1: "m1 = m\<lparr>em_heap := (em_heap m)(a \<mapsto> e0), em_total_thread_envs := n\<rparr>"
  shows "\<exists>e. inherit_env (\<lambda>m. m) True parent m1 e0 = Some (e, m1) \<and> env_rep e (inherited_vars parent m) \<and>
    te_thread_id e = te_thread_id e0"
proof (cases "parent = 0")
  case True
  with e0 m1 copy_vars_spec [OF e0, of _ _ "[]"] show ?thesis
    by (auto simp: inherit_env_def inherited_vars_def split: option.splits)
next
  case False
  show ?thesis
  proof (cases "env_lookup_by_tid parent m")
    case None
    with False e0 m1 show ?thesis by (auto simp: inherit_env_def inherited_vars_def env_lookup_by_tid_def)
  next
    case (Some p)
    obtain pe where pe: "em_heap m p = Some pe" "env_ok pe" using lookup_heap [OF m Some] by blast
    then obtain rest where "te_environ_array pe = Some (map Str (env_strings pe) @ rest)"
      "te_num_vars pe = length (env_strings pe)" by (auto simp: env_rep_def)
    moreover have "em_heap m1 p = Some pe" using pe(1) a m1 by auto
    moreover have "env_lookup_by_tid parent m1 = Some p" using Some m1 by (simp add: env_lookup_by_tid_def)
    ultimately show ?thesis
      using False Some pe(1) copy_vars_spec [OF e0, of "te_environ_array pe" "env_strings pe" rest]
      by (auto simp: inherit_env_def inherited_vars_def)
  qed
qed

lemma init_thread_spec:
  assumes m: "em_inv m" and s: "em_specific m self = None" and mem: "mem_ok mem m"
  shows "\<exists>m'. ios_env_init_thread self rc mem parent m = Some m' \<and> em_inv m' \<and>
    thread_vars m' = (thread_vars m)(self \<mapsto> inherited_vars parent m) \<and> em_environ m' = em_environ m"
proof -
  note inv = em_invD [OF m]
  obtain a where a: "mm_env mem = Some a" "em_heap m a = None" "mm_array mem" "mm_grow mem" "mm_entry mem"
    using mem by (auto simp: mem_ok_def)
  define e0 where "e0 = \<lparr>te_thread_id = self, te_environ_array = Some (replicate 17 Null), te_num_vars = 0,
                  te_capacity = 16, te_is_copy_on_write = False\<rparr>"
  define m1 where "m1 = m\<lparr>em_heap := (em_heap m)(a \<mapsto> e0), em_total_thread_envs := em_total_thread_envs m + 1\<rparr>"
  have rep0: "env_rep e0 []" by (simp add: env_rep_def e0_def numeral_eq_Suc)
  have cur: "env_get_current self m = None" using s by (simp add: env_get_current_def)
  have new: "env_create_empty self mem m = (Some a, m1)" using a by (simp add: env_create_empty_def m1_def e0_def)
  obtain e where e: "inherit_env (\<lambda>m. m) True parent m1 e0 = Some (e, m1)" "env_rep e (inherited_vars parent m)"
      "te_thread_id e = self"
    using inherit_env_spec [OF m a(2) rep0 m1_def, of parent] by (auto simp: e0_def)
  have "ios_env_init_thread self rc mem parent m =
    Some (m\<lparr>em_heap := (em_heap m)(a \<mapsto> e), em_specific := (em_specific m)(self := Some a),
      em_hash_table := (em_hash_table m)(hash_tid self := (self, a) # em_hash_table m (hash_tid self)),
      em_total_thread_envs := em_total_thread_envs m + 1\<rparr>)"
    using e(1,3) a inv(2,3) cur
    unfolding init_alone ios_env_manager_init_def
    by (simp add: new Let_def env_hash_insert_def m1_def)
  then show ?thesis using em_inv_insert [OF m a(2) s e(2,3) refl] by auto
qed

lemma remove_entry_split:
  "map_of xs t = Some a \<Longrightarrow> \<exists>ys zs. xs = ys @ (t, a) # zs \<and> t \<notin> fst ` set ys \<and> remove_entry t xs = ys @ zs"
proof (induction xs)
  case Nil
  then show ?case by simp
next
  case (Cons x xs)
  show ?case
  proof (cases "fst x = t")
    case True
    with Cons.prems show ?thesis by (intro exI [of _ "[]"] exI [of _ xs]) (cases x, simp)
  next
    case False
    with Cons obtain ys zs where "xs = ys @ (t, a) # zs" "t \<notin> fst ` set ys" "remove_entry t xs = ys @ zs"
      by (cases x) auto
    with False show ?thesis by (intro exI [of _ "x # ys"] exI [of _ zs]) auto
  qed
qed

lemma thread_exit_spec:
  assumes m: "em_inv m" and s: "em_specific m self = Some a"
  shows "\<exists>m'. thread_exit self m = Some m' \<and> em_inv m' \<and> thread_vars m' = (thread_vars m)(self := None) \<and>
    dom (em_heap m') = dom (em_heap m) - {a} \<and> em_environ m' = em_environ m"
proof -
  note inv = em_invD [OF m]
  obtain e where e: "em_heap m a = Some e" "te_thread_id e = self" "env_ok e" by (rule specific_heap [OF m s])
  let ?i = "hash_tid self"
  obtain ys zs where xs: "em_hash_table m ?i = ys @ (self, a) # zs" "self \<notin> fst ` set ys"
    "remove_entry self (em_hash_table m ?i) = ys @ zs"
    using remove_entry_split inv(8) [OF s] unfolding env_lookup_by_tid_def by blast
  define m' where "m' = m\<lparr>em_specific := (em_specific m)(self := None),
    em_hash_table := (em_hash_table m)(?i := ys @ zs),
    em_heap := (em_heap m)(a := None), em_total_thread_envs := em_total_thread_envs m - 1\<rparr>"
  have run: "thread_exit self m = Some m'"
    using s e inv(3) xs(3) env_ok_freeable [OF e(3)]
    by (simp add: thread_exit_def env_thread_destructor_def env_free_def env_hash_remove_def m'_def Let_def)
  have dist: "distinct (map snd (em_hash_table m ?i))" using inv(4) hash_tid_less unfolding table_ok_def by blast
  have na: "a \<notin> snd ` set (ys @ zs)" using dist xs(1) by (auto simp: image_iff)
  have dom: "dom (em_heap m') = dom (em_heap m) - {a}" by (auto simp: m'_def)
  have sub: "set (em_hash_table m' j) \<subseteq> set (em_hash_table m j)" for j using xs(1) by (auto simp: m'_def)
  have gone: "(t, a) \<notin> set (em_hash_table m' j)" if "j < ENV_HASH_SIZE" for t j
  proof (cases "j = ?i")
    case True
    with na show ?thesis by (force simp: m'_def)
  next
    case False
    then show ?thesis using table_okD(2) [OF inv(4) that, of t a] e(1,2) by (auto simp: m'_def)
  qed
  have tok: "table_ok m'"
    unfolding table_ok_def
  proof (intro allI impI)
    fix i assume i: "i < ENV_HASH_SIZE"
    have "distinct (map snd (em_hash_table m' i))"
      using table_okD(1) [OF inv(4) i] xs(1) by (cases "i = ?i") (simp_all add: m'_def)
    then show "distinct (map snd (em_hash_table m' i)) \<and> (\<forall>t x. (t, x) \<in> set (em_hash_table m' i) \<longrightarrow>
        hash_tid t = i \<and> map_option te_thread_id (em_heap m' x) = Some t)"
      using table_okD(2) [OF inv(4) i] sub [of i] gone [OF i] by (auto simp: m'_def)
  qed
  have ta: "table_addrs m' = table_addrs m - {a}"
  proof -
    have "(t, x) \<in> set (em_hash_table m' i) \<longleftrightarrow> (t, x) \<in> set (em_hash_table m i) \<and> x \<noteq> a"
      if "i < ENV_HASH_SIZE" for t x i
      using gone [OF that, of t] sub [of i] xs(1) by (auto simp: m'_def split: if_splits)
    then show ?thesis unfolding table_addrs_def by blast
  qed
  have lk: "env_lookup_by_tid t m' = env_lookup_by_tid t m" if "t \<noteq> self" for t
    using that xs(1) by (auto simp: env_lookup_by_tid_def m'_def map_add_def split: option.splits)
  have "a \<in> dom (em_heap m)" using e(1) by blast
  note card = int_card_remove [OF inv(6) this]
  then have "em_inv m'"
    using inv tok lk unfolding em_inv_def dom ta by (auto simp: m'_def)
  moreover have "thread_vars m' t = ((thread_vars m)(self := None)) t" for t
    using specific_inj [OF m s, of t] by (auto simp: thread_vars_def m'_def split: option.splits)
  ultimately show ?thesis using run dom by (intro exI [of _ m']) (auto simp: m'_def)
qed

lemma copy_spec:
  assumes m: "em_inv m" and sa: "env_lookup_by_tid s m = Some sa" and da: "env_lookup_by_tid d m = Some da"
    and ne: "s \<noteq> d"
  shows "\<exists>e. ios_env_copy_from_thread True s d m = Returns (0, None) (m\<lparr>em_heap := (em_heap m)(da \<mapsto> e)\<rparr>) \<and>
    em_inv (m\<lparr>em_heap := (em_heap m)(da \<mapsto> e)\<rparr>) \<and> sa \<noteq> da \<and>
    env_strings e = env_strings (the (em_heap m sa)) \<and> te_is_copy_on_write e"
proof -
  obtain se where se: "em_heap m sa = Some se" "te_thread_id se = s" "env_ok se" by (rule lookup_heap [OF m sa])
  obtain de where de: "em_heap m da = Some de" "te_thread_id de = d" "env_ok de" by (rule lookup_heap [OF m da])
  have ad: "sa \<noteq> da" using se de ne by auto
  obtain rest where src: "te_environ_array se = Some (map Str (env_strings se) @ rest)"
    "te_num_vars se = length (env_strings se)" using se(3) by (auto simp: env_rep_def)
  obtain e where e: "copy_vars True (te_environ_array se) (te_num_vars se) de = Some e"
    "env_rep e (env_strings se)" "te_thread_id e = te_thread_id de"
    using copy_vars_spec [OF de(3) src(1)] src(2) by auto
  let ?e = "e\<lparr>te_is_copy_on_write := True\<rparr>"
  have "em_inv (m\<lparr>em_heap := (em_heap m)(da \<mapsto> ?e)\<rparr>)"
    by (rule em_inv_upd [OF m de(1)]) (use env_rep_ok [OF e(2)] e(3) in simp_all)
  then show ?thesis
    using sa da se(1) de(1) ad e env_ok_freeable [OF de(3)] env_rep_strings [OF e(2)]
    by (intro exI [of _ ?e]) (auto simp: copy_alone)
qed

lemma cleanup_inv:
  assumes m: "em_inv m"
  shows "em_inv (ios_env_cleanup_thread self m)"
    "thread_vars (ios_env_cleanup_thread self m) = (thread_vars m)(self := None)"
proof -
  have "em_inv (m\<lparr>em_specific := (em_specific m)(self := None)\<rparr>)"
    using em_invD [OF m] unfolding em_inv_def
    by (simp add: table_ok_def table_addrs_def env_lookup_by_tid_def)
  then show "em_inv (ios_env_cleanup_thread self m)" using m by (simp add: ios_env_cleanup_thread_def)
  show "thread_vars (ios_env_cleanup_thread self m) = (thread_vars m)(self := None)"
    using em_invD(1) [OF m]
    by (auto simp: fun_eq_iff thread_vars_def ios_env_cleanup_thread_def env_get_current_def split: option.splits)
qed

lemma free_entries_eq:
  "distinct (map snd xs) \<Longrightarrow> \<forall>a \<in> snd ` set xs. \<exists>e. em_heap m a = Some e \<and> strings_freeable e \<Longrightarrow>
   free_entries xs m = Some (m\<lparr>em_heap := em_heap m |` (- snd ` set xs),
     em_total_thread_envs := em_total_thread_envs m - int (length xs)\<rparr>)"
proof (induction xs arbitrary: m)
  case Nil
  then show ?case by (simp add: restrict_map_def)
next
  case (Cons x xs)
  let ?m = "m\<lparr>em_heap := (em_heap m)(snd x := None), em_total_thread_envs := em_total_thread_envs m - 1\<rparr>"
  have "env_free (Some (snd x)) m = Some ?m" using Cons.prems(2) by (auto simp: env_free_def)
  moreover have "free_entries xs ?m = Some (?m\<lparr>em_heap := em_heap ?m |` (- snd ` set xs),
     em_total_thread_envs := em_total_thread_envs ?m - int (length xs)\<rparr>)"
    by (rule Cons.IH) (use Cons.prems in \<open>auto simp: image_iff\<close>)
  moreover have "(em_heap m)(snd x := None) |` (- snd ` set xs) = em_heap m |` (- snd ` set (x # xs))"
    by (auto simp: restrict_map_def fun_eq_iff)
  ultimately show ?case by simp
qed

lemma free_table_eq:
  assumes "\<And>j. i \<le> j \<Longrightarrow> j < i + n \<Longrightarrow> distinct (map snd (em_hash_table m j)) \<and>
      (\<forall>a \<in> snd ` set (em_hash_table m j). \<exists>e. em_heap m a = Some e \<and> strings_freeable e)"
    and "\<And>j k. i \<le> j \<Longrightarrow> j < k \<Longrightarrow> k < i + n \<Longrightarrow>
      snd ` set (em_hash_table m j) \<inter> snd ` set (em_hash_table m k) = {}"
  shows "\<exists>tab c. free_table n i m = Some (m\<lparr>em_heap := em_heap m |`
      (- (\<Union>j \<in> {i..<i + n}. snd ` set (em_hash_table m j))),
      em_hash_table := tab, em_total_thread_envs := c\<rparr>)"
  using assms
proof (induction n arbitrary: i m)
  case 0
  have "m\<lparr>em_heap := em_heap m |` UNIV, em_hash_table := em_hash_table m, em_total_thread_envs := em_total_thread_envs m\<rparr> = m"
    by (simp add: restrict_map_def)
  then show ?case by (intro exI [of _ "em_hash_table m"] exI [of _ "em_total_thread_envs m"]) simp
next
  case (Suc n)
  have fe: "free_entries (em_hash_table m i) m = Some (m\<lparr>em_heap := em_heap m |` (- snd ` set (em_hash_table m i)),
     em_total_thread_envs := em_total_thread_envs m - int (length (em_hash_table m i))\<rparr>)"
    by (rule free_entries_eq) (use Suc.prems(1) [of i] in auto)
  define m1 where "m1 = m\<lparr>em_heap := em_heap m |` (- snd ` set (em_hash_table m i)),
     em_total_thread_envs := em_total_thread_envs m - int (length (em_hash_table m i)),
     em_hash_table := (em_hash_table m)(i := [])\<rparr>"
  have "\<exists>tab c. free_table n (Suc i) m1 = Some (m1\<lparr>em_heap := em_heap m1 |`
      (- (\<Union>j \<in> {Suc i..<Suc i + n}. snd ` set (em_hash_table m1 j))),
      em_hash_table := tab, em_total_thread_envs := c\<rparr>)"
  proof (rule Suc.IH)
    fix j assume j: "Suc i \<le> j" "j < Suc i + n"
    have "a \<notin> snd ` set (em_hash_table m i)" if "a \<in> snd ` set (em_hash_table m j)" for a
      using Suc.prems(2) [of i j] j that by auto
    with Suc.prems(1) [of j] j show "distinct (map snd (em_hash_table m1 j)) \<and>
      (\<forall>a \<in> snd ` set (em_hash_table m1 j). \<exists>e. em_heap m1 a = Some e \<and> strings_freeable e)"
      by (auto simp: m1_def restrict_map_def)
  next
    fix j k assume "Suc i \<le> j" "j < k" "k < Suc i + n"
    with Suc.prems(2) [of j k] show "snd ` set (em_hash_table m1 j) \<inter> snd ` set (em_hash_table m1 k) = {}"
      by (simp add: m1_def)
  qed
  then obtain tab c where ft: "free_table n (Suc i) m1 = Some (m1\<lparr>em_heap := em_heap m1 |`
      (- (\<Union>j \<in> {Suc i..<Suc i + n}. snd ` set (em_hash_table m1 j))),
      em_hash_table := tab, em_total_thread_envs := c\<rparr>)" by blast
  have "{i..<i + Suc n} = insert i {Suc i..<Suc i + n}" by auto
  then have "em_heap m1 |` (- (\<Union>j \<in> {Suc i..<Suc i + n}. snd ` set (em_hash_table m1 j))) =
    em_heap m |` (- (\<Union>j \<in> {i..<i + Suc n}. snd ` set (em_hash_table m j)))"
    by (simp add: m1_def restrict_restrict)
  with ft fe show ?case by (intro exI [of _ tab] exI [of _ c]) (simp add: m1_def)
qed


lemma shutdown_spec:
  assumes m: "em_inv m"
  shows "\<exists>tab c. ios_env_manager_shutdown m = Some (m\<lparr>em_heap := Map.empty, em_hash_table := tab,
    em_total_thread_envs := c, em_key_exists := False, em_initialized := False\<rparr>)"
proof -
  note inv = em_invD [OF m]
  have "\<exists>tab c. free_table ENV_HASH_SIZE 0 m = Some (m\<lparr>em_heap := em_heap m |`
      (- (\<Union>j \<in> {0..<0 + ENV_HASH_SIZE}. snd ` set (em_hash_table m j))),
      em_hash_table := tab, em_total_thread_envs := c\<rparr>)"
  proof (rule free_table_eq, goal_cases)
    case (1 j)
    then have j: "j < ENV_HASH_SIZE" by simp
    have "\<exists>e. em_heap m a = Some e \<and> strings_freeable e" if "a \<in> snd ` set (em_hash_table m j)" for a
    proof -
      have "a \<in> dom (em_heap m)" using that j unfolding inv(5) table_addrs_def by - (rule CollectI, rule exI [of _ j], auto)
      then obtain e where "em_heap m a = Some e" by blast
      with inv(7) [OF this] env_ok_freeable show ?thesis by blast
    qed
    with table_okD(1) [OF inv(4) j] show ?case by blast
  next
    case (2 j k)
    then have jk: "j < ENV_HASH_SIZE" "k < ENV_HASH_SIZE" by simp_all
    show ?case
    proof (rule ccontr)
      assume "\<not> ?case"
      then obtain a t u where "(t, a) \<in> set (em_hash_table m j)" "(u, a) \<in> set (em_hash_table m k)" by auto
      with table_okD(2) [OF inv(4) jk(1)] table_okD(2) [OF inv(4) jk(2)] have "j = k" by fastforce
      with 2 show False by simp
    qed
  qed
  moreover have "em_heap m |` (- (\<Union>j \<in> {0..<0 + ENV_HASH_SIZE}. snd ` set (em_hash_table m j))) = Map.empty"
  proof -
    have "dom (em_heap m) \<subseteq> (\<Union>j \<in> {0..<0 + ENV_HASH_SIZE}. snd ` set (em_hash_table m j))"
      unfolding inv(5) table_addrs_def by force
    then show ?thesis by (auto simp: restrict_map_def fun_eq_iff)
  qed
  ultimately obtain tab c where "free_table ENV_HASH_SIZE 0 m =
      Some (m\<lparr>em_heap := Map.empty, em_hash_table := tab, em_total_thread_envs := c\<rparr>)" by auto
  then show ?thesis using inv(1)
    by (intro exI [of _ tab] exI [of _ c]) (simp add: ios_env_manager_shutdown_def)
qed


section \<open>Histories of the manager\<close>

text \<open>The globals before the first call, with a process environment.\<close>

definition env_globals :: "string list option \<Rightarrow> env_manager" where
  "env_globals env = \<lparr>em_heap = Map.empty, em_specific = (\<lambda>_. None), em_hash_table = (\<lambda>_. []),
     em_total_thread_envs = 0, em_once_done = False, em_initialized = False, em_key_exists = False,
     em_environ = env\<rparr>"

text \<open>
  A new environment is private until it is in the table: \<open>with_block\<close> is the state with the block in it. While a thread looks up the environment of another one and
  then locks it, other threads may lead the manager from one reachable state to another, as long as the threads that were looked up do not exit.
\<close>

definition with_block :: "addr \<Rightarrow> tid \<Rightarrow> env_manager \<Rightarrow> env_manager" where
  "with_block a self m = m\<lparr>em_heap := (em_heap m)(a \<mapsto>
       \<lparr>te_thread_id = self, te_environ_array = Some (replicate 17 Null), te_num_vars = 0, te_capacity = 16, te_is_copy_on_write = False\<rparr>),
     em_total_thread_envs := em_total_thread_envs m + 1\<rparr>"

inductive env_reach :: "env_manager \<Rightarrow> bool" where
  reach_start: "env_reach (ios_env_manager_init 0 (env_globals env))"
| reach_init: "env_reach m \<Longrightarrow> mem_ok mem m \<Longrightarrow> env_reach m1 \<Longrightarrow> mm_env mem = Some a \<Longrightarrow> em_heap m1 a = None \<Longrightarrow>
    em_specific m1 self = em_specific m self \<Longrightarrow> env_lookup_by_tid parent m1 = env_lookup_by_tid parent m \<Longrightarrow>
    ios_env_init_thread_with (\<lambda>_. with_block a self m1) self rc mem parent m = Some m' \<Longrightarrow> env_reach m'"
| reach_setenv: "env_reach m \<Longrightarrow> ios_env_setenv self True name val overwrite m = Some (r, m') \<Longrightarrow> env_reach m'"
| reach_unsetenv: "env_reach m \<Longrightarrow> ios_env_unsetenv self name m = Some (r, m') \<Longrightarrow> env_reach m'"
| reach_cleanup: "env_reach m \<Longrightarrow> env_reach (ios_env_cleanup_thread self m)"
| reach_exit: "env_reach m \<Longrightarrow> thread_exit self m = Some m' \<Longrightarrow> env_reach m'"
| reach_copy: "env_reach m \<Longrightarrow> env_reach m1 \<Longrightarrow>
    env_lookup_by_tid s m1 = env_lookup_by_tid s m \<Longrightarrow> env_lookup_by_tid d m1 = env_lookup_by_tid d m \<Longrightarrow>
    ios_env_copy_from_thread_with (\<lambda>_. m1) True s d m = Returns r m' \<Longrightarrow> env_reach m'"

lemma em_inv_environ [simp]: "em_inv (m\<lparr>em_environ := x\<rparr>) = em_inv m"
  by (simp add: em_inv_def table_ok_def table_addrs_def env_lookup_by_tid_def)

lemma em_inv_start: "em_inv (ios_env_manager_init 0 (env_globals env))"
  by (simp add: em_inv_def table_ok_def table_addrs_def ios_env_manager_init_def env_manager_init_once_def
      env_globals_def)

lemma current_vars:
  assumes "em_inv m" and "env_get_current self m = Some a"
  obtains ss where "thread_vars m self = Some ss"
proof -
  have "em_specific m self = Some a" using assms by (simp add: env_get_current_def em_invD(1))
  with specific_heap [OF assms(1) this] that show thesis by (auto simp: thread_vars_def)
qed

lemma setenv_total:
  assumes m: "em_inv m"
  shows "\<exists>r m'. ios_env_setenv self True name val overwrite m = Some (r, m') \<and> em_inv m'"
proof (cases "bad_name name \<or> env_get_current self m = None")
  case True
  with m show ?thesis by (auto simp: ios_env_setenv_def)
next
  case False
  then obtain n a where n: "name = Some n" "valid_name n" "env_get_current self m = Some a"
    by (auto simp: bad_name_def valid_name_def split: option.splits)
  obtain ss where ss: "thread_vars m self = Some ss" by (rule current_vars [OF m n(3)])
  have "ios_env_setenv self True name val overwrite m =
    ios_env_setenv self True (Some n) (Some (case val of None \<Rightarrow> '''' | Some v \<Rightarrow> v)) overwrite m"
    using n(1) by (simp add: ios_env_setenv_def)
  with setenv_spec [OF m ss n(2)] show ?thesis by metis
qed

lemma unsetenv_total:
  assumes m: "em_inv m"
  shows "\<exists>r m'. ios_env_unsetenv self name m = Some (r, m') \<and> em_inv m'"
proof (cases "bad_name name \<or> env_get_current self m = None")
  case True
  with m show ?thesis by (auto simp: ios_env_unsetenv_def)
next
  case False
  then obtain n a where n: "name = Some n" "valid_name n" "env_get_current self m = Some a"
    by (auto simp: bad_name_def valid_name_def split: option.splits)
  obtain ss where ss: "thread_vars m self = Some ss" by (rule current_vars [OF m n(3)])
  from unsetenv_spec [OF m ss n(2)] n(1) show ?thesis by blast
qed

lemma getenv_total: "em_inv m \<Longrightarrow> ios_env_getenv self name m \<noteq> None"
proof (cases "name = None \<or> name = Some [] \<or> env_get_current self m = None")
  case True
  then show ?thesis by (auto simp: ios_env_getenv_def split: list.splits option.splits)
next
  case False
  assume m: "em_inv m"
  from False obtain n a where n: "name = Some n" "n \<noteq> []" "env_get_current self m = Some a" by auto
  obtain ss where ss: "thread_vars m self = Some ss" by (rule current_vars [OF m n(3)])
  from getenv_spec [OF m ss n(2)] n(1) show ?thesis by simp
qed

lemma exit_total:
  assumes m: "em_inv m"
  shows "\<exists>m'. thread_exit self m = Some m' \<and> em_inv m'"
proof (cases "em_specific m self")
  case None
  with m show ?thesis by (simp add: thread_exit_def)
next
  case (Some a)
  from thread_exit_spec [OF m this] show ?thesis by blast
qed

lemma init_total:
  assumes m: "em_inv m" and mem: "mem_ok mem m"
  shows "\<exists>m'. ios_env_init_thread self rc mem parent m = Some m' \<and> em_inv m'"
proof (cases "em_specific m self")
  case None
  from init_thread_spec [OF m this mem] show ?thesis by blast
next
  case (Some a)
  with m em_invD(1,2) [OF m] show ?thesis
    by (simp add: init_alone ios_env_manager_init_def env_get_current_def)
qed

lemma copy_total:
  assumes m: "em_inv m"
  shows "ios_env_copy_from_thread True s d m \<noteq> Crash \<and>
    (\<forall>r m'. ios_env_copy_from_thread True s d m = Returns r m' \<longrightarrow> em_inv m')"
proof (cases "env_lookup_by_tid s m = None \<or> env_lookup_by_tid d m = None")
  case True
  with m show ?thesis by (auto simp: copy_alone split: option.splits)
next
  case False
  then obtain sa da where l: "env_lookup_by_tid s m = Some sa" "env_lookup_by_tid d m = Some da" by auto
  show ?thesis
  proof (cases "s = d")
    case True
    obtain e where "em_heap m sa = Some e" by (rule lookup_heap [OF m l(1)])
    with True l show ?thesis by (auto simp: copy_alone)
  next
    case False
    from copy_spec [OF m l False] show ?thesis by auto
  qed
qed

text \<open>With such interference the calls end as if they had begun after it.\<close>

lemma init_interfered:
  assumes m: "em_inv m" and mem: "mem_ok mem m" and m1: "em_inv m1" and a: "mm_env mem = Some a" "em_heap m1 a = None"
    and same: "em_specific m1 self = em_specific m self" "env_lookup_by_tid parent m1 = env_lookup_by_tid parent m"
  shows "ios_env_init_thread_with (\<lambda>_. with_block a self m1) self rc mem parent m =
      ios_env_init_thread self rc mem parent (if em_specific m self = None \<and> parent \<noteq> 0 \<and> env_lookup_by_tid parent m \<noteq> None then m1 else m)"
proof -
  note i = em_invD(1-3) [OF m] em_invD(1-3) [OF m1]
  have new: "env_create_empty self mem m = (Some a, with_block a self m)" "env_create_empty self mem m1 = (Some a, with_block a self m1)"
    using mem a by (auto simp: env_create_empty_def with_block_def mem_ok_def)
  have lk: "env_lookup_by_tid parent (with_block a self m2) = env_lookup_by_tid parent m2" for m2
    by (simp add: env_lookup_by_tid_def with_block_def)
  let ?m = "if parent \<noteq> 0 \<and> env_lookup_by_tid parent m \<noteq> None then m1 else m"
  have inh: "inherit_env (\<lambda>_. with_block a self m1) g parent (with_block a self m) e = inherit_env (\<lambda>m. m) g parent (with_block a self ?m) e" for g e
    using same(2) lk by (cases "parent = 0"; cases "env_lookup_by_tid parent m") (simp_all add: inherit_env_def)
  obtain e0 where blk: "em_heap (with_block a self m2) a = Some e0" for m2 by (simp add: with_block_def)
  have cur: "env_get_current self m2 = None" if "em_specific m self = None" "m2 \<in> {m, m1}" for m2
    using that same(1) by (auto simp: env_get_current_def)
  have init: "ios_env_manager_init rc m2 = m2" if "m2 \<in> {m, m1}" for m2 using that i by (auto simp: ios_env_manager_init_def)
  show ?thesis
  proof (cases "em_specific m self")
    case (Some b)
    then show ?thesis using i by (simp add: init_alone ios_env_manager_init_def env_get_current_def)
  next
    case None
    have "?m \<in> {m, m1}" by simp
    moreover have "env_create_empty self mem ?m = (Some a, with_block a self ?m)" using new by simp
    ultimately have "ios_env_init_thread self rc mem parent ?m =
        ios_env_init_thread_with (\<lambda>_. with_block a self m1) self rc mem parent m"
      unfolding init_alone using init [of m] init [of ?m] cur [OF None, of m] cur [OF None, of ?m] new(1) inh blk
      by (simp only: Let_def option.case prod.case bind.bind_lunit insertI1 simp_thms if_False)
    then show ?thesis using None by simp
  qed
qed

lemma copy_interfered:
  assumes "env_lookup_by_tid s m1 = env_lookup_by_tid s m" "env_lookup_by_tid d m1 = env_lookup_by_tid d m"
  shows "ios_env_copy_from_thread_with (\<lambda>_. m1) True s d m =
      ios_env_copy_from_thread True s d (if env_lookup_by_tid s m \<noteq> None \<and> env_lookup_by_tid d m \<noteq> None then m1 else m)"
  using assms by (auto simp: copy_alone Let_def split: option.split)

lemma mem_ok_other: "mem_ok mem m \<Longrightarrow> mm_env mem = Some a \<Longrightarrow> em_heap m1 a = None \<Longrightarrow> mem_ok mem m1"
  by (auto simp: mem_ok_def)

lemma env_reach_inv: "env_reach m \<Longrightarrow> em_inv m"
proof (induction rule: env_reach.induct)
  case (reach_init m mem m1 a self parent rc m')
  let ?m = "if em_specific m self = None \<and> parent \<noteq> 0 \<and> env_lookup_by_tid parent m \<noteq> None then m1 else m"
  have "mem_ok mem m1" using reach_init by (blast intro: mem_ok_other)
  then have "em_inv ?m" "mem_ok mem ?m" using reach_init by simp_all
  moreover have "ios_env_init_thread self rc mem parent ?m = Some m'"
    using init_interfered [of m mem m1 a self parent rc] reach_init by metis
  ultimately show ?case using init_total [of ?m mem self rc parent] by auto
next
  case (reach_setenv m self name val overwrite r m')
  then show ?case using setenv_total [of m self name val overwrite] by auto
next
  case (reach_unsetenv m self name r m')
  then show ?case using unsetenv_total [of m self name] by auto
next
  case (reach_exit m self m')
  then show ?case using exit_total [of m self] by auto
next
  case (reach_copy m m1 s d r m')
  then show ?case using copy_total [of m s d] copy_total [of m1 s d] copy_interfered [of s m1 m d] by (auto split: if_splits)
qed (simp_all add: em_inv_start cleanup_inv)

lemma reach_init_alone:
  assumes "env_reach m" "mem_ok mem m" "ios_env_init_thread self rc mem parent m = Some m'"
  shows "env_reach m'"
proof -
  obtain a where a: "mm_env mem = Some a" "em_heap m a = None" using assms(2) by (auto simp: mem_ok_def)
  have "em_inv m" by (rule env_reach_inv [OF assms(1)])
  from init_interfered [OF this assms(2) this a] assms(3)
  have "ios_env_init_thread_with (\<lambda>_. with_block a self m) self rc mem parent m = Some m'" by simp
  then show ?thesis using reach_init [OF assms(1,2,1) a refl refl] by blast
qed

section \<open>The environment of a thread as a store\<close>

definition thread_inv :: "tid \<Rightarrow> env_manager \<Rightarrow> bool" where
  "thread_inv self m \<longleftrightarrow> em_inv m \<and> (\<exists>ss. thread_vars m self = Some ss \<and> env_distinct ss)"

definition thread_get :: "tid \<Rightarrow> env_manager \<Rightarrow> string \<Rightarrow> string option" where
  "thread_get self m n = the (ios_env_getenv self (Some n) m)"

definition thread_set :: "tid \<Rightarrow> env_manager \<Rightarrow> string \<Rightarrow> string \<Rightarrow> env_manager" where
  "thread_set self m n v = snd (the (ios_env_setenv self True (Some n) (Some v) True m))"

definition thread_unset :: "tid \<Rightarrow> env_manager \<Rightarrow> string \<Rightarrow> env_manager" where
  "thread_unset self m n = snd (the (ios_env_unsetenv self (Some n) m))"

lemma thread_get_eq:
  "em_inv m \<Longrightarrow> thread_vars m self = Some ss \<Longrightarrow> valid_name n \<Longrightarrow> thread_get self m n = lookup_var n ss"
  by (simp add: thread_get_def getenv_spec valid_name_def)

lemma thread_set_eq:
  assumes "em_inv m" and "thread_vars m self = Some ss" and "valid_name n"
  shows "em_inv (thread_set self m n v) \<and>
    thread_vars (thread_set self m n v) = (thread_vars m)(self \<mapsto> assign_var n v ss)"
  using setenv_spec [OF assms, of v True] by (auto simp: thread_set_def)

lemma thread_unset_eq:
  assumes "em_inv m" and "thread_vars m self = Some ss" and "valid_name n"
  shows "em_inv (thread_unset self m n) \<and>
    thread_vars (thread_unset self m n) = (thread_vars m)(self \<mapsto> remove_var n ss)"
  using unsetenv_spec [OF assms] by (auto simp: thread_unset_def)

interpretation thread_store: env_store valid_name "thread_inv self" "thread_get self" "thread_set self"
  "thread_unset self" for self :: tid
proof
  fix m n v assume "thread_inv self m" and n: "valid_name n"
  then obtain ss where m: "em_inv m" "thread_vars m self = Some ss" "env_distinct ss"
    by (auto simp: thread_inv_def)
  note st = thread_set_eq [OF m(1,2) n, of v] thread_unset_eq [OF m(1,2) n]
  show "thread_inv self (thread_set self m n v)"
    using st(1) env_distinct_assign [OF m(3) n] by (auto simp: thread_inv_def)
  show "thread_inv self (thread_unset self m n)"
    using st(2) env_distinct_remove [OF m(3) n] by (auto simp: thread_inv_def)
  fix k assume k: "valid_name k"
  show "thread_get self (thread_set self m n v) k = (if k = n then Some v else thread_get self m k)"
    using st(1) thread_get_eq [of "thread_set self m n v" self _ k] thread_get_eq [OF m(1,2) k] n k
    by (simp add: lookup_assign)
  show "thread_get self (thread_unset self m n) k = (if k = n then None else thread_get self m k)"
    using st(2) thread_get_eq [of "thread_unset self m n" self _ k] thread_get_eq [OF m(1,2) k] n k m(3)
    by (simp add: lookup_remove)
qed

lemma run_other_threads:
  "em_inv m \<Longrightarrow> thread_vars m self \<noteq> None \<Longrightarrow> \<forall>u \<in> set ops. valid_name (op_name u) \<Longrightarrow> t \<noteq> self \<Longrightarrow>
   thread_vars (env_run (thread_set self) (thread_unset self) ops m) t = thread_vars m t"
proof (induction ops arbitrary: m)
  case Nil
  then show ?case by simp
next
  case (Cons u ops)
  obtain ss where ss: "thread_vars m self = Some ss" using Cons.prems(2) by blast
  show ?case
  proof (cases u)
    case (Assign n v)
    with Cons thread_set_eq [OF Cons.prems(1) ss, of n v] show ?thesis by simp
  next
    case (Delete n)
    with Cons thread_unset_eq [OF Cons.prems(1) ss, of n] show ?thesis by simp
  qed
qed

section \<open>Properties\<close>

text \<open>
  C3: the environment of a thread refines a finite map. After any sequence of
  \<^verbatim>\<open>ios_env_setenv\<close> (overwriting) and \<^verbatim>\<open>ios_env_unsetenv\<close> calls of a thread on its own
  environment, \<^verbatim>\<open>ios_env_getenv\<close> returns what the same updates of a map give, and the
  environments of all other threads are what they were.
\<close>

theorem thread_environment_refines_map:
  assumes "em_inv m" and "thread_vars m self = Some ss" and "env_distinct ss"
    and "\<forall>u \<in> set ops. valid_name (op_name u)" and "valid_name n" and "t \<noteq> self"
    and "m' = env_run (thread_set self) (thread_unset self) ops m"
  shows "ios_env_getenv self (Some n) m' = Some (map_run ops (\<lambda>k. the (ios_env_getenv self (Some k) m)) n) \<and>
    thread_vars m' t = thread_vars m t"
proof -
  have inv: "thread_inv self m" using assms(1-3) by (auto simp: thread_inv_def)
  from thread_store.run_refines_map [OF inv assms(4,5)]
  have "thread_inv self m'" and g: "thread_get self m' n = map_run ops (thread_get self m) n"
    unfolding assms(7) by auto
  then have "ios_env_getenv self (Some n) m' \<noteq> None" by (auto simp: thread_inv_def getenv_total)
  with g have "ios_env_getenv self (Some n) m' = Some (map_run ops (thread_get self m) n)"
    by (auto simp: thread_get_def)
  then show ?thesis
    using run_other_threads [OF assms(1) _ assms(4,6)] assms(2,7) by (simp add: thread_get_def [abs_def])
qed


text \<open>
  A new thread starts with a copy of the environment of its parent (of the process when no
  parent is named); nobody else's environment changes. Initialising it again changes nothing.
\<close>

theorem new_thread_inherits_environment:
  assumes "em_inv m" and "em_specific m self = None" and "mem_ok mem m"
  shows "\<exists>m'. ios_env_init_thread self rc mem parent m = Some m' \<and> em_inv m' \<and>
    thread_vars m' self = Some (inherited_vars parent m) \<and>
    (\<forall>t. t \<noteq> self \<longrightarrow> thread_vars m' t = thread_vars m t) \<and>
    ios_env_init_thread self rc mem' parent' m' = Some m'"
proof -
  obtain m' where m': "ios_env_init_thread self rc mem parent m = Some m'" "em_inv m'"
    "thread_vars m' = (thread_vars m)(self \<mapsto> inherited_vars parent m)"
    using init_thread_spec [OF assms] by blast
  have "env_get_current self m' \<noteq> None"
    using m'(2,3) em_invD(1) [OF m'(2)]
    by (auto simp: env_get_current_def thread_vars_def dest!: fun_cong [of _ _ self] split: option.splits)
  then have "ios_env_init_thread self rc mem' parent' m' = Some m'"
    using em_invD(2) [OF m'(2)] by (simp add: init_alone ios_env_manager_init_def)
  with m' show ?thesis by auto
qed

text \<open>
  \<^verbatim>\<open>ios_env_cleanup_thread\<close> does not release anything. It clears the thread-specific value,
  and the runtime calls no destructor for a null value, so the environment stays allocated and
  in the table after the thread exits, while an exit without the cleanup call releases it.
\<close>

theorem cleanup_thread_leaks_environment:
  assumes "em_inv m" and "em_specific m self = Some a"
  shows "thread_exit self (ios_env_cleanup_thread self m) = Some (ios_env_cleanup_thread self m) \<and>
    em_heap (ios_env_cleanup_thread self m) = em_heap m \<and> a \<in> dom (em_heap m) \<and>
    env_lookup_by_tid self (ios_env_cleanup_thread self m) = Some a \<and>
    (\<exists>m'. thread_exit self m = Some m' \<and> a \<notin> dom (em_heap m'))"
proof -
  have "env_get_current self m = Some a" using assms em_invD(1) [OF assms(1)] by (simp add: env_get_current_def)
  moreover have "a \<in> dom (em_heap m)" using specific_heap [OF assms] by blast
  moreover obtain m' where "thread_exit self m = Some m'" "dom (em_heap m') = dom (em_heap m) - {a}"
    using thread_exit_spec [OF assms] by blast
  ultimately show ?thesis
    using em_invD(8) [OF assms]
    by (simp add: ios_env_cleanup_thread_def thread_exit_def env_lookup_by_tid_def)
qed

text \<open>
  Copying between two threads that have an environment makes the destination's variables the
  source's and keeps the invariant; without one of them it fails with \<^verbatim>\<open>ESRCH\<close> and changes
  nothing; and a copy of a thread to itself waits for its own read lock.
\<close>

theorem copy_from_thread_outcomes:
  assumes "em_inv m"
  shows "(case (env_lookup_by_tid s m, env_lookup_by_tid d m) of
      (Some sa, Some da) \<Rightarrow>
        if s = d then ios_env_copy_from_thread True s d m = Blocked m
        else \<exists>m'. ios_env_copy_from_thread True s d m = Returns (0, None) m' \<and> em_inv m' \<and>
          map_option env_strings (em_heap m' da) = map_option env_strings (em_heap m sa) \<and>
          (\<forall>x. x \<noteq> da \<longrightarrow> em_heap m' x = em_heap m x)
    | _ \<Rightarrow> ios_env_copy_from_thread True s d m = Returns (- 1, Some ESRCH) m)"
proof (cases "env_lookup_by_tid s m = None \<or> env_lookup_by_tid d m = None")
  case True
  then show ?thesis by (auto simp: copy_alone split: option.splits)
next
  case False
  then obtain sa da where l: "env_lookup_by_tid s m = Some sa" "env_lookup_by_tid d m = Some da" by auto
  obtain e where e: "em_heap m sa = Some e" by (rule lookup_heap [OF assms l(1)])
  show ?thesis
  proof (cases "s = d")
    case True
    with e l show ?thesis by (auto simp: copy_alone)
  next
    case False
    from copy_spec [OF assms l False] e l False show ?thesis by auto
  qed
qed

text \<open>
  After a shutdown the manager cannot be used again. The shutdown frees every environment,
  but the once-guard never runs the initialisation a second time: a thread that initialises
  afterwards gets an environment no operation can reach, and its lookups go to the process
  environment.
\<close>

theorem manager_does_not_restart:
  assumes "em_inv m" and "mem_ok mem (m\<lparr>em_heap := Map.empty\<rparr>)" and "n \<noteq> []"
  shows "\<exists>m1 m2. ios_env_manager_shutdown m = Some m1 \<and> em_heap m1 = Map.empty \<and>
    ios_env_init_thread self rc mem 0 m1 = Some m2 \<and> em_heap m2 \<noteq> Map.empty \<and>
    ios_env_getenv self (Some n) m2 = Some (posix_getenv (em_environ m) n)"
proof -
  obtain tab c where m1: "ios_env_manager_shutdown m = Some (m\<lparr>em_heap := Map.empty, em_hash_table := tab,
    em_total_thread_envs := c, em_key_exists := False, em_initialized := False\<rparr>)"
    using shutdown_spec [OF assms(1)] by blast
  obtain a where a: "mm_env mem = Some a" "mm_array mem" "mm_grow mem" "mm_entry mem"
    using assms(2) by (auto simp: mem_ok_def)
  define e0 where "e0 = \<lparr>te_thread_id = self, te_environ_array = Some (replicate 17 Null), te_num_vars = 0,
                  te_capacity = 16, te_is_copy_on_write = False\<rparr>"
  have rep0: "env_rep e0 []" by (simp add: env_rep_def e0_def numeral_eq_Suc)
  obtain e where e: "(case em_environ m of None \<Rightarrow> Some e0 | Some ss \<Rightarrow> copy_vars True (Some (map Str ss)) (length ss) e0) = Some e"
    using copy_vars_spec [OF rep0, of _ _ "[]"] by (cases "em_environ m") auto
  have "\<exists>m2. ios_env_init_thread self rc mem 0 (m\<lparr>em_heap := Map.empty, em_hash_table := tab,
    em_total_thread_envs := c, em_key_exists := False, em_initialized := False\<rparr>) = Some m2 \<and>
    em_heap m2 \<noteq> Map.empty \<and> em_environ m2 = em_environ m \<and> \<not> em_initialized m2"
    using a em_invD(2) [OF assms(1)] e unfolding e0_def
    by (cases "em_environ m") (simp_all add: init_alone ios_env_manager_init_def env_get_current_def env_create_empty_def
        inherit_env_def env_hash_insert_def Let_def)
  then obtain m2 where m2: "ios_env_init_thread self rc mem 0 (m\<lparr>em_heap := Map.empty, em_hash_table := tab,
    em_total_thread_envs := c, em_key_exists := False, em_initialized := False\<rparr>) = Some m2"
    "em_heap m2 \<noteq> Map.empty" "em_environ m2 = em_environ m" "\<not> em_initialized m2" by blast
  then have "ios_env_getenv self (Some n) m2 = Some (posix_getenv (em_environ m) n)"
    using assms(3) by (cases n) (simp_all add: ios_env_getenv_def env_get_current_def)
  with m1 m2 show ?thesis by auto
qed

text \<open>
  A \<^verbatim>\<open>realloc\<close> that fails breaks the environment. When the array is full and cannot be grown,
  \<^verbatim>\<open>ios_env_setenv\<close> reports \<^verbatim>\<open>ENOMEM\<close> but has replaced the array by a null pointer and kept the
  number of variables, so the next lookup of the thread faults.
\<close>

theorem failed_growth_breaks_environment:
  assumes "em_inv m" and "em_specific m self = Some a" and "em_heap m a = Some e"
    and "te_num_vars e = te_capacity e" and "valid_name n" and "lookup_var n (env_strings e) = None"
    and "k \<noteq> []"
  shows "\<exists>m'. ios_env_setenv self False (Some n) (Some v) True m = Some ((- 1, Some ENOMEM), m') \<and>
    ios_env_getenv self (Some k) m' = None"
proof -
  have e: "env_ok e" using em_invD(7) [OF assms(1,3)] .
  have idx: "index_var n (env_strings e) = None"
    using assms(6) by (simp add: lookup_var_index)
  let ?e = "e\<lparr>te_capacity := te_capacity e * 2, te_environ_array := None\<rparr>"
  have "setenv_thread False n v True e = Some (False, ?e)"
    using assms(4) by (simp add: setenv_thread_def env_find_var_eq [OF e] idx)
  moreover have "0 < te_num_vars e" using e assms(4) by (auto simp: env_rep_def)
  then obtain j where "te_num_vars e = Suc j" by (cases "te_num_vars e") auto
  then have "env_find_var ?e k = None" by (simp add: env_find_var_def slot_at_def)
  ultimately show ?thesis
    using assms(2,3,5,7) em_invD(1) [OF assms(1)]
    by (intro exI [of _ "m\<lparr>em_heap := (em_heap m)(a \<mapsto> ?e)\<rparr>"], cases k)
      (simp_all add: ios_env_setenv_def ios_env_getenv_def bad_name_def valid_name_def env_get_current_def)
qed


section \<open>Concrete states\<close>

definition demo_mem :: env_mem where
  "demo_mem = \<lparr>mm_env = Some 1, mm_array = True, mm_grow = True, mm_entry = True\<rparr>"

definition demo_start :: "string list \<Rightarrow> env_manager" where
  "demo_start ss = ios_env_manager_init 0 (env_globals (Some ss))"

text \<open>Thread 7 with a copy of the process environment, which has one variable or sixteen.\<close>

definition demo_env :: env_manager where
  "demo_env = the (ios_env_init_thread 7 0 demo_mem 0 (demo_start [''A=1'']))"

definition demo_full :: env_manager where
  "demo_full = the (ios_env_init_thread 7 0 demo_mem 0 (demo_start (replicate 16 ''A=1'')))"

lemma demo_thread:
  assumes "m = the (ios_env_init_thread 7 0 demo_mem 0 (demo_start ss))"
  shows "em_inv m \<and> thread_vars m 7 = Some ss \<and> env_reach m"
proof -
  have r: "env_reach (demo_start ss)" unfolding demo_start_def by (rule reach_start)
  have s: "em_inv (demo_start ss)" "em_specific (demo_start ss) 7 = None" "mem_ok demo_mem (demo_start ss)"
    "inherited_vars 0 (demo_start ss) = ss"
    using env_reach_inv [OF r]
    by (simp_all add: demo_start_def mem_ok_def demo_mem_def ios_env_manager_init_def env_manager_init_once_def
        env_globals_def inherited_vars_def)
  from init_thread_spec [OF s(1-3), of 0 0] s(4) assms reach_init_alone [OF r s(3), of 7 0 0] show ?thesis by auto
qed

lemma demo_specific: "em_specific demo_env 7 = Some 1" "em_specific demo_full 7 = Some 1"
  "map_option te_num_vars (em_heap demo_full 1) = Some 16" "map_option te_capacity (em_heap demo_full 1) = Some 16"
  by code_simp+

lemmas demo_env_facts = demo_thread [OF demo_env_def]
lemmas demo_full_facts = demo_thread [OF demo_full_def]

lemma demo_distinct: "env_distinct [''A=1'']"
  by (simp add: env_distinct_def)

theorem thread_environment_refines_map_witness:
  "ios_env_getenv 7 (Some ''A'') (env_run (thread_set 7) (thread_unset 7) [Delete ''A'', Assign ''A'' ''2''] demo_env) =
   Some (Some ''2'')"
  using thread_environment_refines_map [of demo_env 7 "[''A=1'']" "[Delete ''A'', Assign ''A'' ''2'']" "''A''" 8]
    demo_env_facts demo_distinct
  by (simp add: valid_name_def eq_char_def)


text \<open>
  The thread that was looked up may exit before its environment is locked: the new thread, or the copy, then uses a block that has been freed.
\<close>

lemma parent_exit_race: "ios_env_init_thread_with (\<lambda>m. the (thread_exit 7 m)) 8 0 (demo_mem\<lparr>mm_env := Some 2\<rparr>) 7 demo_env = None"
proof -
  have "Option.is_none (ios_env_init_thread_with (\<lambda>m. the (thread_exit 7 m)) 8 0 (demo_mem\<lparr>mm_env := Some 2\<rparr>) 7 demo_env)" by code_simp
  then show ?thesis by (simp add: Option.is_none_def)
qed

lemma source_exit_race:
  "ios_env_copy_from_thread_with (\<lambda>m. the (thread_exit 7 m)) True 7 8
     (the (ios_env_init_thread 8 0 (demo_mem\<lparr>mm_env := Some 2\<rparr>) 7 demo_env)) = Crash"
proof -
  have "(case ios_env_copy_from_thread_with (\<lambda>m. the (thread_exit 7 m)) True 7 8
     (the (ios_env_init_thread 8 0 (demo_mem\<lparr>mm_env := Some 2\<rparr>) 7 demo_env)) of Crash \<Rightarrow> True | _ \<Rightarrow> False)" by code_simp
  then show ?thesis by (simp split: exec.splits)
qed

theorem new_thread_inherits_environment_witness:
  "\<exists>m'. ios_env_init_thread 7 0 demo_mem 0 (demo_start [''A=1'']) = Some m' \<and> thread_vars m' 7 = Some [''A=1'']"
proof -
  have "em_inv (demo_start [''A=1''])" "em_specific (demo_start [''A=1'']) 7 = None"
    "mem_ok demo_mem (demo_start [''A=1''])" "inherited_vars 0 (demo_start [''A=1'']) = [''A=1'']"
    using env_reach_inv [OF reach_start, of "Some [''A=1'']"]
    by (simp_all add: demo_start_def mem_ok_def demo_mem_def ios_env_manager_init_def env_manager_init_once_def
        env_globals_def inherited_vars_def)
  from new_thread_inherits_environment [OF this(1-3), of 0 0 demo_mem 0] this(4) show ?thesis by auto
qed

theorem cleanup_thread_leaks_environment_witness:
  "thread_exit 7 (ios_env_cleanup_thread 7 demo_env) = Some (ios_env_cleanup_thread 7 demo_env) \<and>
   1 \<in> dom (em_heap (ios_env_cleanup_thread 7 demo_env))"
  using cleanup_thread_leaks_environment [of demo_env 7 1] demo_env_facts demo_specific by simp

theorem copy_from_thread_outcomes_witness:
  "ios_env_copy_from_thread True 7 7 demo_env = Blocked demo_env \<and>
   ios_env_copy_from_thread True 7 8 (demo_start []) = Returns (- 1, Some ESRCH) (demo_start [])"
proof -
  have "env_lookup_by_tid 7 demo_env = Some 1"
    using demo_env_facts em_invD(8) [of demo_env 7 1] demo_specific(1) by simp
  moreover have "env_lookup_by_tid 7 (demo_start []) = None" by code_simp
  moreover have "em_inv (demo_start [])" unfolding demo_start_def by (rule em_inv_start)
  ultimately show ?thesis
    using copy_from_thread_outcomes [of demo_env 7 7] copy_from_thread_outcomes [of "demo_start []" 7 8]
      demo_env_facts by simp
qed

theorem manager_does_not_restart_witness:
  "\<exists>m1 m2. ios_env_manager_shutdown demo_env = Some m1 \<and> ios_env_init_thread 7 0 demo_mem 0 m1 = Some m2 \<and>
    em_heap m2 \<noteq> Map.empty \<and> ios_env_getenv 7 (Some ''A'') m2 = Some (posix_getenv (em_environ demo_env) ''A'')"
  using manager_does_not_restart [of demo_env demo_mem "''A''" 7 0] demo_env_facts
  by (auto simp: mem_ok_def demo_mem_def)

theorem failed_growth_breaks_environment_witness:
  "\<exists>m'. ios_env_setenv 7 False (Some ''B'') (Some ''1'') True demo_full = Some ((- 1, Some ENOMEM), m') \<and>
    ios_env_getenv 7 (Some ''A'') m' = None"
proof -
  obtain e where e: "em_heap demo_full 1 = Some e" "te_num_vars e = te_capacity e"
    using demo_specific(3,4) by auto
  have "env_strings e = replicate 16 ''A=1''"
    using demo_full_facts demo_specific(2) e(1) by (simp add: thread_vars_def)
  then have "lookup_var ''B'' (env_strings e) = None"
    by (simp add: lookup_var_None filter_empty_conv var_matches_def eq_char_def)
  with failed_growth_breaks_environment [of demo_full 7 1 e "''B''" "''A''" "''1''"] demo_full_facts demo_specific(2) e
  show ?thesis by (simp add: valid_name_def eq_char_def)
qed

end
