(* ===== verification/Libc_Process.thy ===== *)
theory Libc_Process
  imports Env_Manager
begin

text \<open>
  The simulated processes of \<^verbatim>\<open>libc_replacement.c\<close>: the table of 128 process ids behind
  \<^verbatim>\<open>fork\<close> and \<^verbatim>\<open>waitpid\<close>, the environment of each, and the functions that store and release
  the thread of a process.

  The statics of the file are one record. \<open>pt_current_pid\<close> is the thread-local variable, for
  every thread; \<open>self\<close> is the calling thread. A critical section under \<^verbatim>\<open>pid_mtx\<close> is one step.
  The busy-wait loops take a schedule. A result \<open>None\<close>, or \<open>Crash\<close>, is a fault: an index outside
  a table, a null or uninitialised pointer. The file does not check the results of
  \<^verbatim>\<open>malloc\<close>, \<^verbatim>\<open>realloc\<close> and \<^verbatim>\<open>strdup\<close>; the model describes the runs in which they succeed.
  \<open>cd\<close> is the effect of \<^verbatim>\<open>chdir_nolock\<close>: the working directory after a change to the first
  argument is asked for in the second, which it may refuse.
\<close>

section \<open>State\<close>

definition IOS_MAX_THREADS :: nat where
  "IOS_MAX_THREADS = 128"

record process_table =
  pt_thread_ids :: "int list"
  pt_numVariablesSet :: "nat list"
  pt_environment :: "slot list option list"
  pt_copyEnvironment :: "slot list option list"
  pt_previousDirectory :: "string list"
  pt_previousPid :: "int list"
  pt_pid_overflow :: bool
  pt_current_pid :: "tid \<Rightarrow> int"
  pt_cleanup_counter :: int
  pt_last_allocated_pid :: int
  pt_preparing :: int
  pt_order :: int
  pt_cwd :: string
  pt_environ :: "string list option"
  pt_errno :: "errno option"
  pt_libc_errno :: "errno option"
  pt_last_thread :: int
  pt_status :: int

definition initial_table :: "string \<Rightarrow> string list option \<Rightarrow> process_table" where
  "initial_table cwd env =
     \<lparr>pt_thread_ids = replicate IOS_MAX_THREADS 0, pt_numVariablesSet = replicate IOS_MAX_THREADS 0,
      pt_environment = replicate IOS_MAX_THREADS None, pt_copyEnvironment = replicate IOS_MAX_THREADS None,
      pt_previousDirectory = replicate IOS_MAX_THREADS '''', pt_previousPid = replicate IOS_MAX_THREADS 0,
      pt_pid_overflow = False, pt_current_pid = (\<lambda>_. 0), pt_cleanup_counter = 0, pt_last_allocated_pid = 0,
      pt_preparing = 0, pt_order = 0, pt_cwd = cwd, pt_environ = env, pt_errno = None, pt_libc_errno = None,
      pt_last_thread = 0, pt_status = 0\<rparr>"

definition set_current :: "tid \<Rightarrow> int \<Rightarrow> process_table \<Rightarrow> process_table" where
  "set_current self pid t = t\<lparr>pt_current_pid := (pt_current_pid t)(self := pid)\<rparr>"

section \<open>Web assembly commands\<close>

definition startedPreparingWebAssemblyCommand :: "process_table \<Rightarrow> process_table" where
  "startedPreparingWebAssemblyCommand t = t\<lparr>pt_preparing := pt_preparing t + 1, pt_order := pt_order t + 1\<rparr>"

definition webAssemblyCommandOrder :: "process_table \<Rightarrow> int" where
  "webAssemblyCommandOrder t = pt_order t"

definition finishedPreparingWebAssemblyCommand :: "process_table \<Rightarrow> process_table" where
  "finishedPreparingWebAssemblyCommand t =
     (if pt_preparing t > 0 then t\<lparr>pt_preparing := pt_preparing t - 1\<rparr> else t)"

text \<open>\<open>wasm\<close> is the function of the application that \<^verbatim>\<open>dlsym\<close> finds, if it finds one.\<close>

definition executeWebAssemblyCommandsInOrder ::
  "(process_table \<Rightarrow> process_table) option \<Rightarrow> (process_table \<Rightarrow> process_table) list \<Rightarrow> process_table \<Rightarrow>
   ((process_table \<Rightarrow> process_table) list, process_table) exec" where
  "executeWebAssemblyCommandsInOrder wasm ws t =
     (case wasm of
        None \<Rightarrow> Returns ws (t\<lparr>pt_order := 0\<rparr>)
      | Some f \<Rightarrow>
          (case spin_until (\<lambda>t. Some (\<not> pt_preparing t > 0)) ws t of
             Returns ws' t1 \<Rightarrow> Returns ws' ((f t1)\<lparr>pt_order := 0\<rparr>)
           | r \<Rightarrow> r))"

section \<open>Global and local environments\<close>

definition makeGlobal :: "tid \<Rightarrow> process_table \<Rightarrow> process_table option" where
  "makeGlobal self t =
     do { e \<leftarrow> get_at (pt_environment t) (pt_current_pid t self);
          cs \<leftarrow> set_at (pt_copyEnvironment t) (pt_current_pid t self) e;
          es \<leftarrow> set_at (pt_environment t) (pt_current_pid t self) None;
          Some (t\<lparr>pt_copyEnvironment := cs, pt_environment := es\<rparr>) }"

definition makeLocal :: "tid \<Rightarrow> process_table \<Rightarrow> process_table option" where
  "makeLocal self t =
     do { e \<leftarrow> get_at (pt_copyEnvironment t) (pt_current_pid t self);
          es \<leftarrow> set_at (pt_environment t) (pt_current_pid t self) e;
          cs \<leftarrow> set_at (pt_copyEnvironment t) (pt_current_pid t self) None;
          Some (t\<lparr>pt_environment := es, pt_copyEnvironment := cs\<rparr>) }"

definition ios_getThreadId :: "int \<Rightarrow> process_table \<Rightarrow> int option" where
  "ios_getThreadId pid t =
     (if pid \<ge> int IOS_MAX_THREADS then Some (- 1) else get_at (pt_thread_ids t) pid)"

definition newPreviousDirectory :: "tid \<Rightarrow> process_table \<Rightarrow> process_table option" where
  "newPreviousDirectory self t =
     do { ds \<leftarrow> set_at (pt_previousDirectory t) (pt_current_pid t self) (pt_cwd t);
          Some (t\<lparr>pt_previousDirectory := ds\<rparr>) }"

definition environmentVariables :: "int \<Rightarrow> process_table \<Rightarrow> slot list option option" where
  "environmentVariables pid t =
     do { e \<leftarrow> get_at (pt_environment t) pid;
          Some (case e of Some arr \<Rightarrow> Some arr
                | None \<Rightarrow> map_option (\<lambda>ss. map Str ss @ [Null]) (pt_environ t)) }"

section \<open>Storing and clearing an environment\<close>

text \<open>The loops that free the strings, from index \<open>i\<close> with \<open>k\<close> left.\<close>

fun clear_slots :: "nat \<Rightarrow> nat \<Rightarrow> slot list option \<Rightarrow> slot list option" where
  "clear_slots i 0 arr = arr"
| "clear_slots i (Suc k) arr =
     (case slot_at arr i of
        None \<Rightarrow> None
      | Some Uninit \<Rightarrow> None
      | Some Null \<Rightarrow> clear_slots (Suc i) k arr
      | Some (Str s) \<Rightarrow>
          (case set_slot arr i Null of None \<Rightarrow> None | Some a \<Rightarrow> clear_slots (Suc i) k (Some a)))"

definition resetEnvironment :: "int \<Rightarrow> process_table \<Rightarrow> process_table option" where
  "resetEnvironment pid t =
     do { e \<leftarrow> get_at (pt_environment t) pid;
          n \<leftarrow> get_at (pt_numVariablesSet t) pid;
          case e of
            None \<Rightarrow> Some t
          | Some arr \<Rightarrow>
              do { arr' \<leftarrow> clear_slots 0 n (Some arr);
                   es \<leftarrow> set_at (pt_environment t) pid None;
                   ns \<leftarrow> set_at (pt_numVariablesSet t) pid 0;
                   Some (t\<lparr>pt_environment := es, pt_numVariablesSet := ns\<rparr>) } }"

definition clearEnvironment :: "int \<Rightarrow> process_table \<Rightarrow> process_table option" where
  "clearEnvironment pid t =
     do { e \<leftarrow> get_at (pt_environment t) pid;
          n \<leftarrow> get_at (pt_numVariablesSet t) pid;
          case e of
            None \<Rightarrow> Some t
          | Some arr \<Rightarrow>
              do { arr' \<leftarrow> clear_slots 0 n (Some arr);
                   es \<leftarrow> set_at (pt_environment t) pid (Some arr');
                   ns \<leftarrow> set_at (pt_numVariablesSet t) pid 0;
                   Some (t\<lparr>pt_environment := es, pt_numVariablesSet := ns\<rparr>) } }"

text \<open>The number of strings before the null terminator.\<close>

fun count_slots :: "slot list \<Rightarrow> nat option" where
  "count_slots [] = None"
| "count_slots (Null # xs) = Some 0"
| "count_slots (Uninit # xs) = None"
| "count_slots (Str s # xs) = map_option Suc (count_slots xs)"

fun dup_slots :: "slot list option \<Rightarrow> nat \<Rightarrow> nat \<Rightarrow> slot list option \<Rightarrow> slot list option" where
  "dup_slots src i 0 dst = dst"
| "dup_slots src i (Suc k) dst =
     (case slot_at src i of
        None \<Rightarrow> None
      | Some Uninit \<Rightarrow> None
      | Some x \<Rightarrow>
          (case set_slot dst i x of None \<Rightarrow> None | Some d \<Rightarrow> dup_slots src (Suc i) k (Some d)))"

text \<open>\<open>envp\<close> is the array passed, which is not the one the process has.\<close>

definition storeEnvironment :: "tid \<Rightarrow> slot list option \<Rightarrow> process_table \<Rightarrow> process_table option" where
  "storeEnvironment self envp t =
     do { e \<leftarrow> get_at (pt_environment t) (pt_current_pid t self);
          t1 \<leftarrow> (if e \<noteq> None then resetEnvironment (pt_current_pid t self) t else Some t);
          src \<leftarrow> envp;
          n \<leftarrow> count_slots src;
          ns \<leftarrow> set_at (pt_numVariablesSet t1) (pt_current_pid t self) n;
          arr \<leftarrow> dup_slots envp 0 n (Some (replicate (n + 1) Uninit));
          arr' \<leftarrow> set_slot (Some arr) n Null;
          es \<leftarrow> set_at (pt_environment t1) (pt_current_pid t self) (Some arr');
          Some (t1\<lparr>pt_numVariablesSet := ns, pt_environment := es\<rparr>) }"

section \<open>Allocating a process id\<close>

text \<open>
  The scan after the table was filled once. It runs under \<^verbatim>\<open>pid_mtx\<close>, without which no slot
  changes, so it reads a fixed table; when no slot is free it never returns, the value \<open>None\<close>.
\<close>

partial_function (option) scan_pid :: "process_table \<Rightarrow> int \<Rightarrow> int option option" where
  "scan_pid t prev =
     (let pid = (if prev + 1 \<ge> int IOS_MAX_THREADS then 1 else prev + 1)
      in case ios_getThreadId pid t of
           None \<Rightarrow> Some None
         | Some x \<Rightarrow> if x = 0 then Some (Some pid) else scan_pid t pid)"

declare scan_pid.simps [code]

definition claim_pid ::
  "tid \<Rightarrow> int \<Rightarrow> int \<Rightarrow> slot list option \<Rightarrow> process_table \<Rightarrow> process_table option" where
  "claim_pid self pid previousPidId currentEnvironment t =
     do { ids \<leftarrow> set_at (pt_thread_ids t) pid (- 1);
          ns \<leftarrow> set_at (pt_numVariablesSet t) pid 0;
          es \<leftarrow> set_at (pt_environment t) pid None;
          t1 \<leftarrow> storeEnvironment self currentEnvironment
                 ((set_current self pid t)\<lparr>pt_last_allocated_pid := pid, pt_thread_ids := ids,
                    pt_numVariablesSet := ns, pt_environment := es\<rparr>);
          ds \<leftarrow> set_at (pt_previousDirectory t1) pid (pt_cwd t1);
          ps \<leftarrow> set_at (pt_previousPid t1) pid previousPidId;
          Some (t1\<lparr>pt_previousDirectory := ds, pt_previousPid := ps\<rparr>) }"

definition next_pid_locked :: "tid \<Rightarrow> process_table \<Rightarrow> (int, process_table) exec" where
  "next_pid_locked self t =
     (case environmentVariables (pt_current_pid t self) t of
        None \<Rightarrow> Crash
      | Some env \<Rightarrow>
          let parent = pt_current_pid t self; p = pt_last_allocated_pid t + 1 in
          if \<not> pt_pid_overflow t \<and> pt_last_allocated_pid t < int IOS_MAX_THREADS - 1 \<and>
             get_at (pt_thread_ids t) p = Some 0
          then (case claim_pid self p parent env t of None \<Rightarrow> Crash | Some t1 \<Rightarrow> Returns p t1)
          else let t0 = t\<lparr>pt_pid_overflow := True\<rparr> in
            (case scan_pid t0 (pt_last_allocated_pid t0) of
               None \<Rightarrow> Blocked t0
             | Some None \<Rightarrow> Crash
             | Some (Some pid) \<Rightarrow>
                 (case claim_pid self pid parent env t0 of None \<Rightarrow> Crash | Some t1 \<Rightarrow> Returns pid t1)))"

definition ios_nextAvailablePid ::
  "tid \<Rightarrow> (process_table \<Rightarrow> process_table) list \<Rightarrow> process_table \<Rightarrow> (int, process_table) exec" where
  "ios_nextAvailablePid self ws t =
     (case spin_until (\<lambda>t. Some (\<not> pt_cleanup_counter t > 0)) ws t of
        Returns _ t1 \<Rightarrow> next_pid_locked self t1
      | Blocked t1 \<Rightarrow> Blocked t1
      | Crash \<Rightarrow> Crash)"

text \<open>\<^verbatim>\<open>fork\<close> and \<^verbatim>\<open>vfork\<close> are the same function.\<close>

definition ios_fork ::
  "tid \<Rightarrow> (process_table \<Rightarrow> process_table) list \<Rightarrow> process_table \<Rightarrow> (int, process_table) exec" where
  "ios_fork = ios_nextAvailablePid"

section \<open>Storing and releasing threads\<close>

definition ios_storeThreadId :: "tid \<Rightarrow> int \<Rightarrow> process_table \<Rightarrow> process_table option" where
  "ios_storeThreadId self thread t =
     do { x \<leftarrow> get_at (pt_thread_ids t) (pt_current_pid t self);
          if x = - 1 then
            if thread = 0 then
              do { parent \<leftarrow> get_at (pt_previousPid t) (pt_current_pid t self);
                   ids \<leftarrow> set_at (pt_thread_ids t) (pt_current_pid t self) 0;
                   Some ((set_current self parent t)\<lparr>pt_thread_ids := ids\<rparr>) }
            else do { ids \<leftarrow> set_at (pt_thread_ids t) (pt_current_pid t self) thread;
                      Some (t\<lparr>pt_thread_ids := ids\<rparr>) }
          else Some t }"

text \<open>The first slot of the thread, as the loops over the table find it.\<close>

definition find_thread :: "int \<Rightarrow> process_table \<Rightarrow> nat option" where
  "find_thread thread t = find (\<lambda>p. pt_thread_ids t ! p = thread) [0..<IOS_MAX_THREADS]"

definition ios_releaseThread ::
  "(string \<Rightarrow> string \<Rightarrow> string) \<Rightarrow> tid \<Rightarrow> int \<Rightarrow> process_table \<Rightarrow> process_table" where
  "ios_releaseThread cd self thread t =
     (if thread = 0 then t
      else case find_thread thread t of
        None \<Rightarrow> t
      | Some p \<Rightarrow>
          (set_current self (pt_previousPid t ! p) t)
            \<lparr>pt_thread_ids := (pt_thread_ids t)[p := 0], pt_cwd := cd (pt_previousDirectory t ! p) (pt_cwd t)\<rparr>)"

definition ios_releaseBackgroundThread :: "tid \<Rightarrow> int \<Rightarrow> process_table \<Rightarrow> process_table" where
  "ios_releaseBackgroundThread self thread t =
     (case find_thread thread t of
        None \<Rightarrow> t
      | Some p \<Rightarrow>
          (set_current self (pt_previousPid t ! p) t)\<lparr>pt_thread_ids := (pt_thread_ids t)[p := 0]\<rparr>)"

definition ios_releaseThreadId ::
  "(string \<Rightarrow> string \<Rightarrow> string) \<Rightarrow> tid \<Rightarrow> int \<Rightarrow> process_table \<Rightarrow> process_table option" where
  "ios_releaseThreadId cd self pid t =
     do { x \<leftarrow> get_at (pt_thread_ids t) pid;
          if x \<noteq> 0 then
            do { d \<leftarrow> get_at (pt_previousDirectory t) pid;
                 parent \<leftarrow> get_at (pt_previousPid t) pid;
                 ids \<leftarrow> set_at (pt_thread_ids t) pid 0;
                 Some ((set_current self parent t)\<lparr>pt_cwd := cd d (pt_cwd t), pt_thread_ids := ids\<rparr>) }
          else Some t }"

definition ios_currentPid :: "tid \<Rightarrow> process_table \<Rightarrow> int" where
  "ios_currentPid self t = pt_current_pid t self"

definition ios_setCurrentPid :: "tid \<Rightarrow> int \<Rightarrow> process_table \<Rightarrow> process_table" where
  "ios_setCurrentPid self pid t = set_current self pid t"

section \<open>Waiting\<close>

text \<open>The thread waited for: the last one of the session, or that of the process.\<close>

definition waited_thread :: "int \<Rightarrow> process_table \<Rightarrow> int option" where
  "waited_thread pid t =
     (if pid = - 1 \<or> pid = 0 then Some (pt_last_thread t) else ios_getThreadId pid t)"

definition ios_waitpid ::
  "(process_table \<Rightarrow> process_table) option \<Rightarrow> (process_table \<Rightarrow> process_table) list \<Rightarrow> int \<Rightarrow> process_table \<Rightarrow>
   (unit, process_table) exec" where
  "ios_waitpid wasm ws pid t =
     (case executeWebAssemblyCommandsInOrder wasm ws t of
        Returns ws' t1 \<Rightarrow>
          (case spin_until (\<lambda>t. map_option (\<lambda>x. x = 0) (waited_thread pid t)) ws' t1 of
             Returns _ t2 \<Rightarrow> Returns () t2 | Blocked t2 \<Rightarrow> Blocked t2 | Crash \<Rightarrow> Crash)
      | Blocked t1 \<Rightarrow> Blocked t1
      | Crash \<Rightarrow> Crash)"

text \<open>\<^verbatim>\<open>W_EXITCODE(status, 0)\<close>\<close>

definition W_EXITCODE :: "int \<Rightarrow> int" where
  "W_EXITCODE status = status * 256"

text \<open>
  The value returned and what is stored through \<^verbatim>\<open>stat_loc\<close> when that is not null. The test is
  \<^verbatim>\<open>options && WNOHANG\<close>, with the logical operator.
\<close>

definition waitpid ::
  "(process_table \<Rightarrow> process_table) option \<Rightarrow> (process_table \<Rightarrow> process_table) list \<Rightarrow> int \<Rightarrow> int \<Rightarrow> process_table \<Rightarrow>
   (int \<times> int option, process_table) exec" where
  "waitpid wasm ws pid options t =
     (if options \<noteq> 0 then
        (case executeWebAssemblyCommandsInOrder wasm ws t of
           Returns _ t1 \<Rightarrow>
             (case waited_thread pid t1 of
                None \<Rightarrow> Crash
              | Some x \<Rightarrow> if x \<noteq> 0 then Returns (0, None) t1
                          else Returns (pid, Some (W_EXITCODE (pt_status t1))) t1)
         | Blocked t1 \<Rightarrow> Blocked t1
         | Crash \<Rightarrow> Crash)
      else
        (case ios_waitpid wasm ws pid t of
           Returns _ t1 \<Rightarrow> Returns (pid, Some (W_EXITCODE (pt_status t1))) t1
         | Blocked t1 \<Rightarrow> Blocked t1
         | Crash \<Rightarrow> Crash))"

definition ios_full_waitpid ::
  "(process_table \<Rightarrow> process_table) option \<Rightarrow> (process_table \<Rightarrow> process_table) list \<Rightarrow> int \<Rightarrow> int \<Rightarrow> process_table \<Rightarrow>
   (int \<times> int option, process_table) exec" where
  "ios_full_waitpid = waitpid"

section \<open>Variables of a process\<close>

text \<open>\<^verbatim>\<open>set_session_errno(EINVAL); return -1;\<close>\<close>

definition invalid :: "process_table \<Rightarrow> int \<times> process_table" where
  "invalid t = (- 1, t\<lparr>pt_errno := Some EINVAL\<rparr>)"

text \<open>The search loops, from index \<open>i\<close> with \<open>k\<close> variables left; \<open>match\<close> is the comparison.\<close>

fun find_slot :: "(string \<Rightarrow> bool) \<Rightarrow> slot list option \<Rightarrow> nat \<Rightarrow> nat \<Rightarrow> int option" where
  "find_slot match arr i 0 = Some (- 1)"
| "find_slot match arr i (Suc k) =
     (case slot_at arr i of
        None \<Rightarrow> None
      | Some Uninit \<Rightarrow> None
      | Some Null \<Rightarrow> find_slot match arr (Suc i) k
      | Some (Str s) \<Rightarrow> if match s then Some (int i) else find_slot match arr (Suc i) k)"

text \<open>Storing a string at an index the search found, and behind the last variable.\<close>

definition store_found :: "int \<Rightarrow> nat \<Rightarrow> string \<Rightarrow> process_table \<Rightarrow> process_table option" where
  "store_found pid i s t =
     do { e \<leftarrow> get_at (pt_environment t) pid;
          arr \<leftarrow> set_slot e i (Str s);
          es \<leftarrow> set_at (pt_environment t) pid (Some arr);
          Some (t\<lparr>pt_environment := es\<rparr>) }"

definition store_new :: "int \<Rightarrow> string \<Rightarrow> process_table \<Rightarrow> process_table option" where
  "store_new pid s t =
     do { e \<leftarrow> get_at (pt_environment t) pid;
          pos \<leftarrow> get_at (pt_numVariablesSet t) pid;
          arr \<leftarrow> set_slot (Some (realloc_slots e (pos + 2))) pos (Str s);
          arr' \<leftarrow> set_slot (Some arr) (pos + 1) Null;
          es \<leftarrow> set_at (pt_environment t) pid (Some arr');
          ns \<leftarrow> set_at (pt_numVariablesSet t) pid (pos + 1);
          Some (t\<lparr>pt_environment := es, pt_numVariablesSet := ns\<rparr>) }"

text \<open>
  The functions of the C library on the process environment: an invalid name is refused, with \<^verbatim>\<open>errno\<close> of the C library set, not that of the session;
  \<^verbatim>\<open>putenv\<close> refuses a string without an equal sign and one that begins with it. A null value is a fault.
\<close>

definition libc_invalid :: "process_table \<Rightarrow> int \<times> process_table" where
  "libc_invalid t = (- 1, t\<lparr>pt_libc_errno := Some EINVAL\<rparr>)"

definition posix_setenv_call ::
  "string option \<Rightarrow> string option \<Rightarrow> bool \<Rightarrow> process_table \<Rightarrow> (int \<times> process_table) option" where
  "posix_setenv_call name val overwrite t =
     (if bad_name name then Some (libc_invalid t)
      else do { v \<leftarrow> val; Some (0, t\<lparr>pt_environ := posix_setenv (pt_environ t) (the name) v overwrite\<rparr>) })"

definition posix_unsetenv_call :: "string option \<Rightarrow> process_table \<Rightarrow> (int \<times> process_table) option" where
  "posix_unsetenv_call name t =
     (if bad_name name then Some (libc_invalid t)
      else Some (0, t\<lparr>pt_environ := posix_unsetenv (pt_environ t) (the name)\<rparr>))"

definition posix_putenv_call :: "string \<Rightarrow> process_table \<Rightarrow> (int \<times> process_table) option" where
  "posix_putenv_call s t =
     (if eq_char \<notin> set s \<or> hd s = eq_char then Some (libc_invalid t)
      else Some (0, t\<lparr>pt_environ := posix_setenv (pt_environ t) (takeWhile (\<lambda>c. c \<noteq> eq_char) s)
                        (tl (dropWhile (\<lambda>c. c \<noteq> eq_char) s)) True\<rparr>))"

definition ios_setenv_pid ::
  "string option \<Rightarrow> string option \<Rightarrow> bool \<Rightarrow> int \<Rightarrow> process_table \<Rightarrow> (int \<times> process_table) option" where
  "ios_setenv_pid name val overwrite pid t =
     do { e \<leftarrow> get_at (pt_environment t) pid;
          if e = None then posix_setenv_call name val overwrite t
          else if bad_name name then Some (invalid t)
          else do { n \<leftarrow> get_at (pt_numVariablesSet t) pid;
                    idx \<leftarrow> find_slot (var_matches (the name)) e 0 n;
                    if idx \<ge> 0 \<and> \<not> overwrite then Some (0, t)
                    else do { v \<leftarrow> val;
                              t1 \<leftarrow> (if idx \<ge> 0 then store_found pid (nat idx) (env_entry (the name) v) t
                                     else store_new pid (env_entry (the name) v) t);
                              Some (0, t1) } } }"

definition ios_setenv_parent ::
  "tid \<Rightarrow> string option \<Rightarrow> string option \<Rightarrow> bool \<Rightarrow> process_table \<Rightarrow> (int \<times> process_table) option" where
  "ios_setenv_parent self name val overwrite t =
     do { parent \<leftarrow> get_at (pt_previousPid t) (pt_current_pid t self);
          ios_setenv_pid name val overwrite parent t }"

text \<open>\<^verbatim>\<open>strncmp(string, envp[i], length) == 0\<close>, \<open>length\<close> reaching up to the first \<^verbatim>\<open>=\<close> of the string.\<close>

definition putenv_matches :: "string \<Rightarrow> string \<Rightarrow> bool" where
  "putenv_matches s entry =
     (let n = length (takeWhile (\<lambda>c. c \<noteq> eq_char) s) + 1 in take n entry = take n s)"

definition ios_putenv :: "tid \<Rightarrow> string \<Rightarrow> process_table \<Rightarrow> (int \<times> process_table) option" where
  "ios_putenv self s t =
     do { e \<leftarrow> get_at (pt_environment t) (pt_current_pid t self);
          if e = None then posix_putenv_call s t
          else if eq_char \<notin> set s then Some (invalid t)
          else do { n \<leftarrow> get_at (pt_numVariablesSet t) (pt_current_pid t self);
                    idx \<leftarrow> find_slot (putenv_matches s) e 0 n;
                    t1 \<leftarrow> (if idx \<ge> 0 then store_found (pt_current_pid t self) (nat idx) s t
                           else store_new (pt_current_pid t self) s t);
                    Some (0, t1) } }"

definition ios_unsetenv_pid :: "string option \<Rightarrow> int \<Rightarrow> process_table \<Rightarrow> (int \<times> process_table) option" where
  "ios_unsetenv_pid name pid t =
     do { e \<leftarrow> get_at (pt_environment t) pid;
          if e = None then posix_unsetenv_call name t
          else if bad_name name then Some (invalid t)
          else do { n \<leftarrow> get_at (pt_numVariablesSet t) pid;
                    idx \<leftarrow> find_slot (var_matches (the name)) e 0 n;
                    if idx < 0 then Some (0, t)
                    else do { arr0 \<leftarrow> set_slot e (nat idx) Null;
                              arr \<leftarrow> (if idx < int n - 1
                                      then do { arr1 \<leftarrow> shift_down (nat idx) (n - 1 - nat idx) (Some arr0);
                                                set_slot (Some arr1) (n - 1) Null }
                                      else Some arr0);
                              ns \<leftarrow> set_at (pt_numVariablesSet t) pid (n - 1);
                              es \<leftarrow> set_at (pt_environment t) pid (Some (realloc_slots (Some arr) (n - 1 + 1)));
                              Some (0, t\<lparr>pt_numVariablesSet := ns, pt_environment := es\<rparr>) } } }"

definition ios_unsetenv_parent :: "tid \<Rightarrow> string option \<Rightarrow> process_table \<Rightarrow> (int \<times> process_table) option" where
  "ios_unsetenv_parent self name t =
     do { parent \<leftarrow> get_at (pt_previousPid t) (pt_current_pid t self);
          ios_unsetenv_pid name parent t }"

text \<open>The functions the applications call go to the environment of the calling thread instead.\<close>

definition libc_getenv :: "tid \<Rightarrow> string option \<Rightarrow> env_manager \<Rightarrow> string option option" where
  "libc_getenv self name m = ios_env_getenv self name m"

definition ios_setenv ::
  "tid \<Rightarrow> bool \<Rightarrow> string option \<Rightarrow> string option \<Rightarrow> bool \<Rightarrow> env_manager \<Rightarrow> (int sysret \<times> env_manager) option" where
  "ios_setenv self grow_ok name val overwrite m = ios_env_setenv self grow_ok name val overwrite m"

definition ios_unsetenv :: "tid \<Rightarrow> string option \<Rightarrow> env_manager \<Rightarrow> (int sysret \<times> env_manager) option" where
  "ios_unsetenv self name m = ios_env_unsetenv self name m"

section \<open>The environment arrays\<close>

text \<open>An array with the strings \<open>ss\<close>, their number and a null terminator.\<close>

definition slot_rep :: "slot list option \<Rightarrow> nat \<Rightarrow> string list \<Rightarrow> bool" where
  "slot_rep e n ss \<longleftrightarrow> n = length ss \<and> (\<exists>rest. e = Some (map Str ss @ Null # rest))"

lemma slot_repE:
  assumes "slot_rep e n ss"
  obtains rest where "e = Some (map Str ss @ Null # rest)" and "n = length ss"
  using assms by (auto simp: slot_rep_def)

lemma slot_repI: "e = Some (map Str ss @ Null # rest) \<Longrightarrow> n = length ss \<Longrightarrow> slot_rep e n ss"
  by (auto simp: slot_rep_def)

lemma slot_rep_unique: "slot_rep e n ss \<Longrightarrow> slot_rep e n ss' \<Longrightarrow> ss = ss'"
  by (auto simp: slot_rep_def append_eq_append_conv inj_map_eq_map inj_def)

lemma count_slots_eq: "count_slots (map Str ss @ Null # rest) = Some (length ss)"
  by (induction ss) simp_all

lemma dup_slots_eq:
  "length pre + length ss \<le> length dst \<Longrightarrow>
   dup_slots (Some (map Str (pre @ ss) @ rest)) (length pre) (length ss) (Some dst) =
     Some (take (length pre) dst @ map Str ss @ drop (length pre + length ss) dst)"
proof (induction ss arbitrary: pre dst)
  case Nil
  then show ?case by simp
next
  case (Cons s ss)
  from Cons.IH [of "pre @ [s]" "dst[length pre := Str s]"] Cons.prems show ?case
    by (simp add: slot_at_def set_slot_def nth_append take_Suc_conv_app_nth)
qed

lemma clear_slots_eq:
  "clear_slots (length pre) (length ss) (Some (pre @ map Str ss @ rest)) =
     Some (pre @ replicate (length ss) Null @ rest)"
proof (induction ss arbitrary: pre)
  case Nil
  then show ?case by simp
next
  case (Cons s ss)
  from Cons.IH [of "pre @ [Null]"] show ?case
    by (simp add: slot_at_def set_slot_def nth_append list_update_append)
qed

lemma find_slot_eq:
  "find_slot (var_matches n) (Some (map Str (pre @ ss) @ rest)) (length pre) (length ss) =
     Some (case index_var n ss of None \<Rightarrow> - 1 | Some i \<Rightarrow> int (length pre + i))"
proof (induction ss arbitrary: pre)
  case Nil
  then show ?case by simp
next
  case (Cons s ss)
  from Cons.IH [of "pre @ [s]"] show ?case
    by (auto simp: slot_at_def nth_append split: option.splits)
qed

lemma find_slot_rep:
  "slot_rep e n ss \<Longrightarrow>
   find_slot (var_matches name) e 0 n = Some (case index_var name ss of None \<Rightarrow> - 1 | Some i \<Rightarrow> int i)"
  using find_slot_eq [of name "[]" ss] by (auto simp: slot_rep_def split: option.splits)

text \<open>What the updates of \<^verbatim>\<open>ios_setenv_pid\<close> and \<^verbatim>\<open>ios_unsetenv_pid\<close> do to an array.\<close>

lemma set_slot_found:
  assumes "slot_rep e n ss" and "i < length ss"
  shows "\<exists>arr. set_slot e i (Str s) = Some arr \<and> slot_rep (Some arr) n (ss[i := s])"
proof -
  obtain rest where "e = Some (map Str ss @ Null # rest)" "n = length ss" using assms(1) by (rule slot_repE)
  with assms(2) show ?thesis
    by (auto simp: set_slot_def list_update_append map_update slot_rep_def)
qed

lemma set_slot_new:
  assumes "slot_rep e n ss"
  shows "set_slot (Some (realloc_slots e (n + 2))) n (Str s) = Some (map Str (ss @ [s]) @ [if (case e of Some xs \<Rightarrow> length xs > n + 1 | None \<Rightarrow> False) then the e ! (n + 1) else Uninit])"
proof -
  obtain rest where e: "e = Some (map Str ss @ Null # rest)" "n = length ss" using assms by (rule slot_repE)
  show ?thesis
  proof (cases rest)
    case Nil
    with e show ?thesis by (simp add: set_slot_def realloc_slots_def list_update_append)
  next
    case (Cons x xs)
    with e show ?thesis by (simp add: set_slot_def realloc_slots_def list_update_append nth_append)
  qed
qed

lemma append_slot:
  assumes "slot_rep e n ss"
  shows "\<exists>arr. set_slot (Some (realloc_slots e (n + 2))) n (Str s) = Some arr \<and>
    set_slot (Some arr) (n + 1) Null = Some (map Str (ss @ [s]) @ [Null])"
  unfolding set_slot_new [OF assms] using assms
  by (auto simp: set_slot_def slot_rep_def list_update_append)

lemma remove_slot:
  assumes "slot_rep e n ss" and "index_var name ss = Some i"
  shows "\<exists>arr0 arr. set_slot e i Null = Some arr0 \<and>
    (if int i < int n - 1
     then do { arr1 \<leftarrow> shift_down i (n - 1 - i) (Some arr0); set_slot (Some arr1) (n - 1) Null }
     else Some arr0) = Some arr \<and>
    slot_rep (Some (realloc_slots (Some arr) (n - 1 + 1))) (n - 1) (remove_var name ss)"
proof -
  obtain rest where e: "e = Some (map Str ss @ Null # rest)" "n = length ss" using assms(1) by (rule slot_repE)
  have i: "i < length ss" using index_var_Some [OF assms(2)] by simp
  let ?arr0 = "(map Str ss @ Null # rest)[i := Null]"
  have s0: "set_slot e i Null = Some ?arr0" using e i by (simp add: set_slot_def)
  have r: "remove_var name ss = take i ss @ drop (Suc i) ss" using assms(2) by (simp add: remove_var_index)
  show ?thesis
  proof (cases "i = length ss - 1")
    case True
    with i have "?arr0 = map Str (take i ss) @ Null # Null # rest"
      by (cases ss rule: rev_cases) (simp_all add: list_update_append)
    with s0 True i e r show ?thesis
      by (simp add: slot_rep_def realloc_slots_def) (cases ss rule: rev_cases, auto)
  next
    case False
    let ?k = "length ss - 1 - i"
    have ik: "i + ?k = length ss - 1" "i + ?k < length ?arr0" using i False by simp_all
    have d: "take ?k (drop (Suc i) ?arr0) = map Str (drop (Suc i) ss)" "take i ?arr0 = map Str (take i ss)"
      "drop (length ss - 1) ?arr0 = Str (last ss) # Null # rest"
    proof -
      show "take i ?arr0 = map Str (take i ss)" using i by (simp add: take_map)
      have "drop (Suc i) ?arr0 = map Str (drop (Suc i) ss) @ Null # rest" using i by (simp add: drop_map)
      then show "take ?k (drop (Suc i) ?arr0) = map Str (drop (Suc i) ss)" by simp
      have "i < length ss - 1" using i False by simp
      then have "drop (length ss - 1) ?arr0 = drop (length ss - 1) (map Str ss @ Null # rest)" by simp
      also have "\<dots> = Str (last ss) # Null # rest"
        using i by (cases ss rule: rev_cases) (simp_all add: drop_map)
      finally show "drop (length ss - 1) ?arr0 = Str (last ss) # Null # rest" .
    qed
    have sh: "shift_down i ?k (Some ?arr0) = Some (map Str (remove_var name ss) @ Str (last ss) # Null # rest)"
      using shift_down_eq [OF ik(2)] unfolding ik(1) d r by simp
    have l: "length (remove_var name ss) = length ss - 1" using r i by simp
    have "set_slot (Some (map Str (remove_var name ss) @ Str (last ss) # Null # rest)) (length ss - 1) Null =
      Some (map Str (remove_var name ss) @ Null # Null # rest)"
      using l by (simp add: set_slot_def list_update_append)
    moreover have "int i < int n - 1" "Suc (Suc (length ss - Suc 0)) - length ss = Suc 0" using e False i by auto
    ultimately show ?thesis
      using s0 sh e l by (simp add: slot_rep_def realloc_slots_def)
  qed
qed

section \<open>The invariant of the table\<close>

definition in_table :: "int \<Rightarrow> bool" where
  "in_table pid \<longleftrightarrow> 0 \<le> pid \<and> pid < int IOS_MAX_THREADS"

definition table_shape :: "process_table \<Rightarrow> bool" where
  "table_shape t \<longleftrightarrow> length (pt_thread_ids t) = IOS_MAX_THREADS \<and> length (pt_numVariablesSet t) = IOS_MAX_THREADS \<and>
     length (pt_environment t) = IOS_MAX_THREADS \<and> length (pt_copyEnvironment t) = IOS_MAX_THREADS \<and>
     length (pt_previousDirectory t) = IOS_MAX_THREADS \<and> length (pt_previousPid t) = IOS_MAX_THREADS"

definition env_entry_ok :: "slot list option \<Rightarrow> nat \<Rightarrow> bool" where
  "env_entry_ok e n \<longleftrightarrow> e \<noteq> None \<longrightarrow> (\<exists>ss. slot_rep e n ss)"

definition pt_inv :: "process_table \<Rightarrow> bool" where
  "pt_inv t \<longleftrightarrow> table_shape t \<and> in_table (pt_last_allocated_pid t) \<and> pt_environ t \<noteq> None \<and>
     (\<forall>self. in_table (pt_current_pid t self)) \<and> (\<forall>p < IOS_MAX_THREADS. in_table (pt_previousPid t ! p)) \<and>
     (\<forall>p < IOS_MAX_THREADS. env_entry_ok (pt_environment t ! p) (pt_numVariablesSet t ! p))"

text \<open>The variables a process sees: its own, or those of the whole application.\<close>

definition proc_vars :: "process_table \<Rightarrow> int \<Rightarrow> string list" where
  "proc_vars t pid =
     (case pt_environment t ! nat pid of
        None \<Rightarrow> the (pt_environ t)
      | Some arr \<Rightarrow> map (\<lambda>x. case x of Str s \<Rightarrow> s | _ \<Rightarrow> '''') (take (pt_numVariablesSet t ! nat pid) arr))"

lemma table_shape_in [simp]:
  assumes "table_shape t" and "in_table pid"
  shows "get_at (pt_thread_ids t) pid = Some (pt_thread_ids t ! nat pid)"
    and "get_at (pt_environment t) pid = Some (pt_environment t ! nat pid)"
    and "get_at (pt_numVariablesSet t) pid = Some (pt_numVariablesSet t ! nat pid)"
    and "get_at (pt_previousDirectory t) pid = Some (pt_previousDirectory t ! nat pid)"
    and "get_at (pt_previousPid t) pid = Some (pt_previousPid t ! nat pid)"
    and "set_at (pt_thread_ids t) pid x = Some ((pt_thread_ids t)[nat pid := x])"
    and "set_at (pt_environment t) pid e = Some ((pt_environment t)[nat pid := e])"
    and "set_at (pt_numVariablesSet t) pid n = Some ((pt_numVariablesSet t)[nat pid := n])"
    and "set_at (pt_previousDirectory t) pid d = Some ((pt_previousDirectory t)[nat pid := d])"
    and "set_at (pt_previousPid t) pid p = Some ((pt_previousPid t)[nat pid := p])"
  using assms by (simp_all add: table_shape_def in_table_def)

lemma pt_invD:
  assumes "pt_inv t"
  shows "table_shape t" and "in_table (pt_last_allocated_pid t)" and "pt_environ t \<noteq> None"
    and "in_table (pt_current_pid t self)"
    and "in_table pid \<Longrightarrow> in_table (pt_previousPid t ! nat pid)"
    and "in_table pid \<Longrightarrow> env_entry_ok (pt_environment t ! nat pid) (pt_numVariablesSet t ! nat pid)"
  using assms by (auto simp: pt_inv_def in_table_def)

lemma in_table_nat: "in_table pid \<Longrightarrow> nat pid < IOS_MAX_THREADS"
  by (auto simp: in_table_def)

lemma proc_vars_rep:
  "slot_rep (pt_environment t ! nat pid) (pt_numVariablesSet t ! nat pid) ss \<Longrightarrow> proc_vars t pid = ss"
  by (auto simp: slot_rep_def proc_vars_def comp_def)

lemma rep_proc_vars:
  assumes "pt_inv t" and "in_table pid" and "pt_environment t ! nat pid \<noteq> None"
  shows "slot_rep (pt_environment t ! nat pid) (pt_numVariablesSet t ! nat pid) (proc_vars t pid)"
  using pt_invD(6) [OF assms(1,2)] assms(3) proc_vars_rep unfolding env_entry_ok_def by blast

lemma environmentVariables_eq:
  assumes "pt_inv t" and "in_table pid"
  shows "\<exists>rest. environmentVariables pid t = Some (Some (map Str (proc_vars t pid) @ Null # rest))"
proof (cases "pt_environment t ! nat pid")
  case None
  then show ?thesis
    using assms pt_invD(1,3) [OF assms(1)] by (auto simp: environmentVariables_def proc_vars_def)
next
  case (Some arr)
  with rep_proc_vars [OF assms] obtain rest where "pt_environment t ! nat pid = Some (map Str (proc_vars t pid) @ Null # rest)"
    by (auto simp: slot_rep_def)
  then show ?thesis using assms pt_invD(1) [OF assms(1)] by (auto simp: environmentVariables_def)
qed

text \<open>Replacing the environment of one process.\<close>

definition put_env :: "int \<Rightarrow> slot list option \<Rightarrow> nat \<Rightarrow> process_table \<Rightarrow> process_table" where
  "put_env pid e n t = t\<lparr>pt_numVariablesSet := (pt_numVariablesSet t)[nat pid := n],
     pt_environment := (pt_environment t)[nat pid := e]\<rparr>"

lemma put_env_inv:
  assumes "pt_inv t" and "in_table pid" and "env_entry_ok e n"
  shows "pt_inv (put_env pid e n t)"
  using assms in_table_nat [OF assms(2)] by (auto simp: pt_inv_def put_env_def table_shape_def nth_list_update)

lemma put_env_vars:
  assumes "pt_inv t" and "in_table pid" and "in_table q" and "slot_rep e n ss"
  shows "proc_vars (put_env pid e n t) q = (if q = pid then ss else proc_vars t q)"
proof (cases "q = pid")
  case True
  have "slot_rep (pt_environment (put_env pid e n t) ! nat pid) (pt_numVariablesSet (put_env pid e n t) ! nat pid) ss"
    using assms in_table_nat [OF assms(2)] by (simp add: put_env_def pt_inv_def table_shape_def)
  then show ?thesis using True proc_vars_rep by simp
next
  case False
  then have "nat q \<noteq> nat pid" using assms by (auto simp: in_table_def)
  with False show ?thesis by (simp add: proc_vars_def put_env_def split: option.split)
qed

lemma storeEnvironment_eq:
  assumes shape: "table_shape t" and cur: "in_table (pt_current_pid t self)"
    and old: "pt_environment t ! nat (pt_current_pid t self) \<noteq> None \<Longrightarrow>
      slot_rep (pt_environment t ! nat (pt_current_pid t self)) (pt_numVariablesSet t ! nat (pt_current_pid t self)) old_ss"
  shows "storeEnvironment self (Some (map Str ss @ Null # rest)) t =
    Some (put_env (pt_current_pid t self) (Some (map Str ss @ [Null])) (length ss) t)"
proof -
  let ?p = "pt_current_pid t self"
  have d: "dup_slots (Some (map Str ss @ Null # rest)) 0 (length ss) (Some (replicate (length ss + 1) Uninit)) =
    Some (map Str ss @ [Uninit])"
  proof -
    have "drop (length ss) (replicate (length ss + 1) Uninit) = [Uninit]" by (simp only: drop_replicate) simp
    then show ?thesis
      using dup_slots_eq [of "[]" ss "replicate (length ss + 1) Uninit" "Null # rest"] by (simp del: replicate_Suc)
  qed
  have s: "set_slot (Some (map Str ss @ [Uninit])) (length ss) Null = Some (map Str ss @ [Null])"
    by (simp add: set_slot_def list_update_append)
  show ?thesis
  proof (cases "pt_environment t ! nat ?p")
    case None
    then show ?thesis using shape cur d s
      by (simp add: storeEnvironment_def count_slots_eq put_env_def del: replicate_Suc)
  next
    case (Some arr)
    with old obtain rest' where e: "pt_environment t ! nat ?p = Some (map Str old_ss @ Null # rest')"
      "pt_numVariablesSet t ! nat ?p = length old_ss" by (auto simp: slot_rep_def)
    have "clear_slots 0 (length old_ss) (Some (map Str old_ss @ Null # rest')) =
      Some (replicate (length old_ss) Null @ Null # rest')"
      using clear_slots_eq [of "[]" old_ss] by simp
    then have r: "resetEnvironment ?p t = Some (put_env ?p None 0 t)"
      using e shape cur by (simp add: resetEnvironment_def put_env_def)
    have "table_shape (put_env ?p None 0 t)" using shape by (simp add: table_shape_def put_env_def)
    with r e d s shape cur show ?thesis
      by (simp add: storeEnvironment_def count_slots_eq del: replicate_Suc) (simp add: put_env_def)
  qed
qed

text \<open>
  A new process: its slot is in flight, it has a copy of the environment of its parent and
  remembers the parent and the directory.
\<close>

definition child_table :: "tid \<Rightarrow> int \<Rightarrow> process_table \<Rightarrow> process_table" where
  "child_table self pid t =
     (put_env pid (Some (map Str (proc_vars t (pt_current_pid t self)) @ [Null]))
        (length (proc_vars t (pt_current_pid t self))) t)
       \<lparr>pt_current_pid := (pt_current_pid t)(self := pid), pt_last_allocated_pid := pid,
        pt_thread_ids := (pt_thread_ids t)[nat pid := - 1],
        pt_previousDirectory := (pt_previousDirectory t)[nat pid := pt_cwd t],
        pt_previousPid := (pt_previousPid t)[nat pid := pt_current_pid t self]\<rparr>"

lemma claim_pid_eq:
  assumes "pt_inv t" and pid: "in_table pid"
    and env: "env = Some (map Str (proc_vars t (pt_current_pid t self)) @ Null # rest)"
  shows "claim_pid self pid (pt_current_pid t self) env t = Some (child_table self pid t)"
proof -
  note shape = pt_invD(1) [OF assms(1)]
  let ?t = "(set_current self pid t)\<lparr>pt_last_allocated_pid := pid, pt_thread_ids := (pt_thread_ids t)[nat pid := - 1],
     pt_numVariablesSet := (pt_numVariablesSet t)[nat pid := 0], pt_environment := (pt_environment t)[nat pid := None]\<rparr>"
  let ?vars = "proc_vars t (pt_current_pid t self)"
  have t1: "table_shape ?t" "pt_current_pid ?t self = pid" "pt_environment ?t ! nat pid = None"
    using shape in_table_nat [OF pid] by (simp_all add: table_shape_def set_current_def)
  have st: "storeEnvironment self env ?t = Some (put_env pid (Some (map Str ?vars @ [Null])) (length ?vars) ?t)"
    using storeEnvironment_eq [of ?t self "[]" ?vars rest] t1 pid env by simp
  have t2: "table_shape (put_env pid (Some (map Str ?vars @ [Null])) (length ?vars) ?t)"
    using t1(1) by (simp add: table_shape_def put_env_def)
  from st t2 shape pid show ?thesis
    by (simp add: claim_pid_def) (simp add: child_table_def put_env_def set_current_def)
qed

lemma child_table_inv:
  assumes "pt_inv t" and "in_table pid"
  shows "pt_inv (child_table self pid t)"
proof -
  have "env_entry_ok (Some (map Str (proc_vars t (pt_current_pid t self)) @ [Null])) (length (proc_vars t (pt_current_pid t self)))"
    by (auto simp: env_entry_ok_def intro: slot_repI)
  from put_env_inv [OF assms this] assms pt_invD(4) [OF assms(1)] in_table_nat [OF assms(2)] show ?thesis
    by (auto simp: pt_inv_def child_table_def table_shape_def nth_list_update)
qed

lemma proc_vars_cong:
  "pt_environment t' = pt_environment t \<Longrightarrow> pt_numVariablesSet t' = pt_numVariablesSet t \<Longrightarrow>
   pt_environ t' = pt_environ t \<Longrightarrow> proc_vars t' q = proc_vars t q"
  by (simp add: proc_vars_def split: option.split)

lemma child_table_vars:
  assumes "pt_inv t" and "in_table pid" and "in_table q"
  shows "proc_vars (child_table self pid t) q =
    (if q = pid then proc_vars t (pt_current_pid t self) else proc_vars t q)"
proof -
  have "slot_rep (Some (map Str (proc_vars t (pt_current_pid t self)) @ [Null]))
    (length (proc_vars t (pt_current_pid t self))) (proc_vars t (pt_current_pid t self))" by (simp add: slot_repI)
  note put_env_vars [OF assms this]
  moreover have "proc_vars (child_table self pid t) q =
    proc_vars (put_env pid (Some (map Str (proc_vars t (pt_current_pid t self)) @ [Null]))
      (length (proc_vars t (pt_current_pid t self))) t) q"
    by (rule proc_vars_cong) (simp_all add: child_table_def)
  ultimately show ?thesis by simp
qed

section \<open>The order of process ids\<close>

text \<open>The \<open>k\<close>-th candidate after \<open>prev\<close>: the ids from 1 to 127 in turn.\<close>

definition pid_after :: "int \<Rightarrow> nat \<Rightarrow> int" where
  "pid_after prev k = (prev + int k) mod (int IOS_MAX_THREADS - 1) + 1"

lemma pid_after_range: "0 < pid_after prev k" "in_table (pid_after prev k)"
  by (simp_all add: pid_after_def in_table_def IOS_MAX_THREADS_def)

lemma next_candidate:
  "in_table prev \<Longrightarrow> (if prev + 1 \<ge> int IOS_MAX_THREADS then 1 else prev + 1) = pid_after prev 0"
proof (cases "prev = 127")
  case False
  assume "in_table prev"
  with False show ?thesis by (simp add: pid_after_def in_table_def IOS_MAX_THREADS_def)
qed (simp add: pid_after_def IOS_MAX_THREADS_def)

lemma pid_after_step: "pid_after (pid_after prev 0) k = pid_after prev (Suc k)"
proof -
  have "(prev mod 127 + (1 + int k)) mod 127 = (prev + (1 + int k)) mod 127" by (rule mod_add_left_eq)
  then show ?thesis by (simp add: pid_after_def IOS_MAX_THREADS_def ac_simps)
qed

lemma pid_after_onto:
  assumes "0 < p" and "in_table p"
  shows "\<exists>k < IOS_MAX_THREADS - 1. pid_after prev k = p"
proof (rule exI [of _ "nat ((p - 1 - prev) mod 127)"], intro conjI)
  have "(prev + (p - 1 - prev) mod 127) mod 127 = (p - 1) mod 127" by (simp add: mod_add_right_eq)
  then show "pid_after prev (nat ((p - 1 - prev) mod 127)) = p"
    using assms by (simp add: pid_after_def IOS_MAX_THREADS_def in_table_def)
  show "nat ((p - 1 - prev) mod 127) < IOS_MAX_THREADS - 1"
    using pos_mod_bound [of 127 "p - 1 - prev"] by (simp add: IOS_MAX_THREADS_def nat_less_iff del: pos_mod_bound)
qed

definition pid_free :: "process_table \<Rightarrow> int \<Rightarrow> bool" where
  "pid_free t pid \<longleftrightarrow> pt_thread_ids t ! nat pid = 0"

lemma scan_step:
  assumes "table_shape t" and "in_table prev"
  shows "scan_pid t prev = (if pid_free t (pid_after prev 0) then Some (Some (pid_after prev 0)) else scan_pid t (pid_after prev 0))"
  using assms pid_after_range [of prev 0]
  by (subst scan_pid.simps) (simp add: next_candidate Let_def ios_getThreadId_def pid_free_def in_table_def)

lemma scan_first_free:
  assumes "table_shape t" and "in_table prev" and "pid_free t (pid_after prev k)" and "\<forall>j < k. \<not> pid_free t (pid_after prev j)"
  shows "scan_pid t prev = Some (Some (pid_after prev k))"
  using assms
proof (induction k arbitrary: prev)
  case 0
  then show ?case by (simp add: scan_step)
next
  case (Suc k)
  have "\<not> pid_free t (pid_after prev 0)" using Suc.prems(4) by simp
  moreover have "scan_pid t (pid_after prev 0) = Some (Some (pid_after (pid_after prev 0) k))"
    using Suc.prems by (intro Suc.IH) (auto simp: pid_after_range pid_after_step)
  ultimately show ?case using Suc.prems by (simp add: scan_step pid_after_step)
qed

lemma scan_result:
  assumes "scan_pid t prev = Some r" and "table_shape t" and "in_table prev"
  shows "\<exists>k. pid_free t (pid_after prev k)"
proof -
  let ?P = "\<lambda>t prev (r :: int option). table_shape t \<longrightarrow> in_table prev \<longrightarrow> (\<exists>k. pid_free t (pid_after prev k))"
  have "?P t prev r"
  proof (rule scan_pid.raw_induct [of ?P, OF _ assms(1)], intro impI)
    fix scan :: "process_table \<Rightarrow> int \<Rightarrow> int option option" and t prev r
    assume IH: "\<And>t prev r. scan t prev = Some r \<Longrightarrow> ?P t prev r" and s: "table_shape t" and p: "in_table prev"
      and body: "(let pid = if int IOS_MAX_THREADS \<le> prev + 1 then 1 else prev + 1
        in case ios_getThreadId pid t of None \<Rightarrow> Some None
           | Some x \<Rightarrow> if x = 0 then Some (Some pid) else scan t pid) = Some r"
    show "\<exists>k. pid_free t (pid_after prev k)"
    proof (cases "pid_free t (pid_after prev 0)")
      case False
      then have "scan t (pid_after prev 0) = Some r"
        using body s p pid_after_range [of prev 0]
        by (simp add: next_candidate Let_def ios_getThreadId_def pid_free_def in_table_def split: if_splits)
      from IH [OF this] s pid_after_range [of prev 0]
      obtain k where "pid_free t (pid_after (pid_after prev 0) k)" by blast
      with p show ?thesis by (auto simp: pid_after_step)
    qed blast
  qed
  with assms(2,3) show ?thesis by blast
qed

section \<open>Forking\<close>

lemma pt_inv_overflow [simp]: "pt_inv (t\<lparr>pt_pid_overflow := b\<rparr>) = pt_inv t"
  by (simp add: pt_inv_def table_shape_def)

lemma proc_vars_overflow [simp]: "proc_vars (t\<lparr>pt_pid_overflow := b\<rparr>) q = proc_vars t q"
  by (rule proc_vars_cong) simp_all

lemma child_table_overflow:
  "child_table self pid (t\<lparr>pt_pid_overflow := b\<rparr>) = (child_table self pid t)\<lparr>pt_pid_overflow := b\<rparr>"
  by (simp add: child_table_def put_env_def)

lemma fork_locked_free:
  assumes inv: "pt_inv t" and free: "pid_free t (pid_after (pt_last_allocated_pid t) k)"
    and least: "\<forall>j < k. \<not> pid_free t (pid_after (pt_last_allocated_pid t) j)"
  shows "\<exists>ov. next_pid_locked self t = Returns (pid_after (pt_last_allocated_pid t) k)
    ((child_table self (pid_after (pt_last_allocated_pid t) k) t)\<lparr>pt_pid_overflow := ov\<rparr>)"
proof -
  let ?last = "pt_last_allocated_pid t" let ?p = "pid_after ?last k" let ?t0 = "t\<lparr>pt_pid_overflow := True\<rparr>"
  note shape = pt_invD(1) [OF inv] and last = pt_invD(2) [OF inv]
  obtain rest where env: "environmentVariables (pt_current_pid t self) t =
    Some (Some (map Str (proc_vars t (pt_current_pid t self)) @ Null # rest))"
    using environmentVariables_eq [OF inv pt_invD(4) [OF inv]] by blast
  show ?thesis
  proof (cases "\<not> pt_pid_overflow t \<and> ?last < int IOS_MAX_THREADS - 1 \<and> get_at (pt_thread_ids t) (?last + 1) = Some 0")
    case True
    then have nxt: "?last + 1 = pid_after ?last 0" using next_candidate [OF last] by simp
    then have "pid_free t (pid_after ?last 0)"
      using True shape pid_after_range(2) [of ?last 0] by (simp add: pid_free_def)
    then have "k = 0" using least by (cases k) auto
    have "next_pid_locked self t = Returns ?p (child_table self ?p t)"
      using True env nxt \<open>k = 0\<close> claim_pid_eq [OF inv pid_after_range(2) [of ?last k] refl, of self rest]
      by (simp add: next_pid_locked_def Let_def)
    moreover have "child_table self ?p t = (child_table self ?p t)\<lparr>pt_pid_overflow := pt_pid_overflow t\<rparr>"
      by (simp add: child_table_def put_env_def)
    ultimately show ?thesis by metis
  next
    case False
    have "scan_pid ?t0 ?last = Some (Some ?p)"
      using scan_first_free [of ?t0 ?last k] shape last free least by (simp add: table_shape_def pid_free_def)
    moreover have "claim_pid self ?p (pt_current_pid t self) (Some (map Str (proc_vars t (pt_current_pid t self)) @ Null # rest)) ?t0
        = Some (child_table self ?p ?t0)"
      using claim_pid_eq [of ?t0 ?p _ self rest] inv pid_after_range(2) [of ?last k] by simp
    ultimately show ?thesis
      using False env by (auto simp: next_pid_locked_def Let_def child_table_overflow)
  qed
qed

lemma fork_locked_full:
  assumes inv: "pt_inv t" and full: "\<forall>p. 0 < p \<and> in_table p \<longrightarrow> \<not> pid_free t p"
  shows "next_pid_locked self t = Blocked (t\<lparr>pt_pid_overflow := True\<rparr>)"
proof -
  let ?last = "pt_last_allocated_pid t" let ?t0 = "t\<lparr>pt_pid_overflow := True\<rparr>"
  note shape = pt_invD(1) [OF inv] and last = pt_invD(2) [OF inv]
  obtain rest where env: "environmentVariables (pt_current_pid t self) t =
    Some (Some (map Str (proc_vars t (pt_current_pid t self)) @ Null # rest))"
    using environmentVariables_eq [OF inv pt_invD(4) [OF inv]] by blast
  have busy: "\<not> pid_free ?t0 (pid_after ?last k)" for k
    using full pid_after_range [of ?last k] by (simp add: pid_free_def)
  have "scan_pid ?t0 ?last = None"
  proof (rule ccontr)
    assume "scan_pid ?t0 ?last \<noteq> None"
    then obtain r where "scan_pid ?t0 ?last = Some r" by auto
    from scan_result [OF this] shape last busy show False by (simp add: table_shape_def)
  qed
  moreover have "\<not> (?last < int IOS_MAX_THREADS - 1 \<and> get_at (pt_thread_ids t) (?last + 1) = Some 0)"
    using full last shape by (auto simp: pid_free_def in_table_def table_shape_def)
  ultimately show ?thesis using env by (auto simp: next_pid_locked_def Let_def)
qed

lemma first_free_candidate:
  assumes "0 < p" and "in_table p" and "pid_free t p"
  obtains k where "pid_free t (pid_after (pt_last_allocated_pid t) k)"
    and "\<forall>j < k. \<not> pid_free t (pid_after (pt_last_allocated_pid t) j)"
proof -
  let ?P = "\<lambda>k. pid_free t (pid_after (pt_last_allocated_pid t) k)"
  obtain k0 where "?P k0" using pid_after_onto [OF assms(1,2)] assms(3) by metis
  then have "?P (LEAST k. ?P k)" by (rule LeastI)
  moreover have "\<forall>j < (LEAST k. ?P k). \<not> ?P j" using not_less_Least by blast
  ultimately show thesis by (rule that)
qed

lemma fork_locked_cases:
  assumes "pt_inv t"
  obtains (Free) k ov where "pid_free t (pid_after (pt_last_allocated_pid t) k)"
      and "\<forall>j < k. \<not> pid_free t (pid_after (pt_last_allocated_pid t) j)"
      and "next_pid_locked self t = Returns (pid_after (pt_last_allocated_pid t) k)
        ((child_table self (pid_after (pt_last_allocated_pid t) k) t)\<lparr>pt_pid_overflow := ov\<rparr>)"
  | (Full) "\<forall>p. 0 < p \<and> in_table p \<longrightarrow> \<not> pid_free t p"
      and "next_pid_locked self t = Blocked (t\<lparr>pt_pid_overflow := True\<rparr>)"
proof (cases "\<exists>p. 0 < p \<and> in_table p \<and> pid_free t p")
  case True
  then obtain k where k: "pid_free t (pid_after (pt_last_allocated_pid t) k)"
    "\<forall>j < k. \<not> pid_free t (pid_after (pt_last_allocated_pid t) j)"
    using first_free_candidate by metis
  from fork_locked_free [OF assms k] k show thesis using Free by blast
next
  case False
  with fork_locked_full [OF assms] show thesis using Full by blast
qed

text \<open>The processes, and their allocation and release as a pool of identifiers.\<close>

definition live_pids :: "process_table \<Rightarrow> int set" where
  "live_pids t = {p. 0 < p \<and> in_table p \<and> \<not> pid_free t p}"

definition forks :: "process_table \<Rightarrow> int \<Rightarrow> process_table \<Rightarrow> bool" where
  "forks t pid t' \<longleftrightarrow> (\<exists>self. next_pid_locked self t = Returns pid t')"

definition releases :: "process_table \<Rightarrow> int \<Rightarrow> process_table \<Rightarrow> bool" where
  "releases t pid t' \<longleftrightarrow> (\<exists>cd self. ios_releaseThreadId cd self pid t = Some t')"

lemma forksE:
  assumes "pt_inv t" and "forks t pid t'"
  obtains self k ov where "pid = pid_after (pt_last_allocated_pid t) k" and "pid_free t pid"
    and "t' = (child_table self pid t)\<lparr>pt_pid_overflow := ov\<rparr>"
  using assms(2) unfolding forks_def
proof (elim exE)
  fix self assume "next_pid_locked self t = Returns pid t'"
  then show thesis by (cases rule: fork_locked_cases [OF assms(1), of self]) (auto intro: that)
qed

lemma release_eq:
  assumes "pt_inv t" and "in_table pid" and "\<not> pid_free t pid"
  shows "ios_releaseThreadId cd self pid t = Some ((set_current self (pt_previousPid t ! nat pid) t)
    \<lparr>pt_cwd := cd (pt_previousDirectory t ! nat pid) (pt_cwd t), pt_thread_ids := (pt_thread_ids t)[nat pid := 0]\<rparr>)"
  using assms pt_invD(1) [OF assms(1)] by (simp add: ios_releaseThreadId_def pid_free_def)

lemma release_inv:
  assumes "pt_inv t" and "in_table pid"
  shows "pt_inv ((set_current self (pt_previousPid t ! nat pid) t)
    \<lparr>pt_cwd := d, pt_thread_ids := (pt_thread_ids t)[nat pid := x]\<rparr>)"
  using assms pt_invD(5) [OF assms] by (auto simp: pt_inv_def table_shape_def set_current_def)

lemma live_upd:
  assumes "pt_inv t" and "in_table pid" and "0 < pid" and "pt_thread_ids t' = (pt_thread_ids t)[nat pid := x]"
  shows "live_pids t' = (if x = 0 then live_pids t - {pid} else insert pid (live_pids t))"
proof -
  have "pid_free t' q = (if q = pid then x = 0 else pid_free t q)" if "0 < q" "in_table q" for q
    using that assms in_table_nat [OF assms(2)]
    by (auto simp: pid_free_def pt_inv_def table_shape_def nth_list_update in_table_def)
  then show ?thesis using assms(2,3) by (auto simp: live_pids_def split: if_splits)
qed

interpretation forked: id_pool pt_inv live_pids forks releases
proof
  fix t pid t' assume inv: "pt_inv t"
  {
    assume "forks t pid t'"
    with inv obtain self k ov where p: "pid = pid_after (pt_last_allocated_pid t) k" "pid_free t pid"
      "t' = (child_table self pid t)\<lparr>pt_pid_overflow := ov\<rparr>" by (rule forksE)
    then have r: "0 < pid" "in_table pid" using pid_after_range by simp_all
    show "pid \<notin> live_pids t" using p(2) by (simp add: live_pids_def)
    have ids: "pt_thread_ids t' = (pt_thread_ids t)[nat pid := - 1]" by (simp add: p(3) child_table_def)
    show "live_pids t' = insert pid (live_pids t)" using live_upd [OF inv r(2,1) ids] by simp
    show "pt_inv t'" using p(3) child_table_inv [OF inv r(2)] by simp
  }
  assume "pid \<in> live_pids t" "releases t pid t'"
  then obtain cd self where r: "0 < pid" "in_table pid" "\<not> pid_free t pid" "ios_releaseThreadId cd self pid t = Some t'"
    by (auto simp: live_pids_def releases_def)
  note t' = r(4) [unfolded release_eq [OF inv r(2,3)], simplified, symmetric]
  have ids: "pt_thread_ids t' = (pt_thread_ids t)[nat pid := 0]" by (simp add: t' set_current_def)
  show "live_pids t' = live_pids t - {pid}" using live_upd [OF inv r(2,1) ids] by simp
  show "pt_inv t'" unfolding t' by (rule release_inv [OF inv r(2)])
qed

section \<open>Setting and removing variables\<close>

lemma put_env_same: "put_env pid (pt_environment t ! nat pid) (pt_numVariablesSet t ! nat pid) t = t"
  by (simp add: put_env_def)

lemma valid_not_bad [simp]: "bad_name (Some n) = (\<not> valid_name n)"
  by (auto simp: bad_name_def valid_name_def)

lemma store_found_eq:
  assumes "pt_inv t" and "in_table pid" and "slot_rep (pt_environment t ! nat pid) (pt_numVariablesSet t ! nat pid) ss"
    and "i < length ss"
  shows "\<exists>e. store_found pid i s t = Some (put_env pid e (pt_numVariablesSet t ! nat pid) t) \<and>
    slot_rep e (pt_numVariablesSet t ! nat pid) (ss[i := s])"
proof -
  obtain arr where "set_slot (pt_environment t ! nat pid) i (Str s) = Some arr"
    "slot_rep (Some arr) (pt_numVariablesSet t ! nat pid) (ss[i := s])"
    using set_slot_found [OF assms(3,4)] by blast
  then show ?thesis
    using assms pt_invD(1) [OF assms(1)] by (auto simp: store_found_def put_env_def)
qed

lemma store_new_eq:
  assumes "pt_inv t" and "in_table pid" and "slot_rep (pt_environment t ! nat pid) (pt_numVariablesSet t ! nat pid) ss"
  shows "store_new pid s t = Some (put_env pid (Some (map Str (ss @ [s]) @ [Null])) (pt_numVariablesSet t ! nat pid + 1) t)"
proof -
  obtain arr where "set_slot (Some (realloc_slots (pt_environment t ! nat pid) (pt_numVariablesSet t ! nat pid + 2)))
      (pt_numVariablesSet t ! nat pid) (Str s) = Some arr"
    "set_slot (Some arr) (pt_numVariablesSet t ! nat pid + 1) Null = Some (map Str (ss @ [s]) @ [Null])"
    using append_slot [OF assms(3)] by blast
  then show ?thesis
    using assms pt_invD(1) [OF assms(1)] by (auto simp: store_new_def put_env_def)
qed

lemma setenv_pid_eq:
  assumes inv: "pt_inv t" and pid: "in_table pid" and own: "pt_environment t ! nat pid \<noteq> None" and n: "valid_name n"
  shows "\<exists>e k. ios_setenv_pid (Some n) (Some v) overwrite pid t = Some (0, put_env pid e k t) \<and>
    slot_rep e k (if index_var n (proc_vars t pid) = None \<or> overwrite then assign_var n v (proc_vars t pid) else proc_vars t pid)"
proof -
  note rep = rep_proc_vars [OF inv pid own] and shape = pt_invD(1) [OF inv]
  show ?thesis
  proof (cases "index_var n (proc_vars t pid)")
    case None
    with own n find_slot_rep [OF rep, of n] store_new_eq [OF inv pid rep, of "env_entry n v"] shape pid rep
    show ?thesis
      by (auto simp: ios_setenv_pid_def assign_var_index slot_rep_def)
  next
    case (Some i)
    then have i: "i < length (proc_vars t pid)" using index_var_Some by blast
    obtain e where e: "store_found pid i (env_entry n v) t = Some (put_env pid e (pt_numVariablesSet t ! nat pid) t)"
      "slot_rep e (pt_numVariablesSet t ! nat pid) ((proc_vars t pid)[i := env_entry n v])"
      using store_found_eq [OF inv pid rep i] by blast
    show ?thesis
    proof (cases overwrite)
      case True
      with own n find_slot_rep [OF rep, of n] e shape pid Some show ?thesis
        by (auto simp: ios_setenv_pid_def assign_var_index)
    next
      case False
      with own n find_slot_rep [OF rep, of n] shape pid Some
      have "ios_setenv_pid (Some n) (Some v) overwrite pid t = Some (0, t)" by (auto simp: ios_setenv_pid_def)
      with False Some rep put_env_same [of pid t] show ?thesis
        by (intro exI [of _ "pt_environment t ! nat pid"] exI [of _ "pt_numVariablesSet t ! nat pid"]) simp
    qed
  qed
qed

lemma unsetenv_pid_eq:
  assumes inv: "pt_inv t" and pid: "in_table pid" and own: "pt_environment t ! nat pid \<noteq> None" and n: "valid_name n"
  shows "\<exists>e k. ios_unsetenv_pid (Some n) pid t = Some (0, put_env pid e k t) \<and> slot_rep e k (remove_var n (proc_vars t pid))"
proof -
  note rep = rep_proc_vars [OF inv pid own] and shape = pt_invD(1) [OF inv]
  show ?thesis
  proof (cases "index_var n (proc_vars t pid)")
    case None
    with own n find_slot_rep [OF rep, of n] shape pid
    have "ios_unsetenv_pid (Some n) pid t = Some (0, t)" by (auto simp: ios_unsetenv_pid_def)
    with None rep put_env_same [of pid t] show ?thesis
      by (intro exI [of _ "pt_environment t ! nat pid"] exI [of _ "pt_numVariablesSet t ! nat pid"])
        (simp add: remove_var_index)
  next
    case (Some i)
    from remove_slot [OF rep Some] obtain arr0 arr where r: "set_slot (pt_environment t ! nat pid) i Null = Some arr0"
      "(if int i < int (pt_numVariablesSet t ! nat pid) - 1
        then do { arr1 \<leftarrow> shift_down i (pt_numVariablesSet t ! nat pid - 1 - i) (Some arr0);
                  set_slot (Some arr1) (pt_numVariablesSet t ! nat pid - 1) Null }
        else Some arr0) = Some arr"
      "slot_rep (Some (realloc_slots (Some arr) (pt_numVariablesSet t ! nat pid - 1 + 1))) (pt_numVariablesSet t ! nat pid - 1)
        (remove_var n (proc_vars t pid))"
      by blast
    let ?n = "pt_numVariablesSet t ! nat pid"
    have "ios_unsetenv_pid (Some n) pid t =
      do { arr \<leftarrow> (if int i < int ?n - 1
                   then do { arr1 \<leftarrow> shift_down i (?n - 1 - i) (Some arr0); set_slot (Some arr1) (?n - 1) Null }
                   else Some arr0);
           Some (0, put_env pid (Some (realloc_slots (Some arr) (?n - 1 + 1))) (?n - 1) t) }"
      using own n find_slot_rep [OF rep, of n] shape pid Some r(1)
      by (auto simp: ios_unsetenv_pid_def put_env_def simp del: One_nat_def)
    then have "ios_unsetenv_pid (Some n) pid t =
      Some (0, put_env pid (Some (realloc_slots (Some arr) (?n - 1 + 1))) (?n - 1) t)"
      unfolding r(2) by simp
    with r(3) show ?thesis by blast
  qed
qed

text \<open>The environment of one process as an environment store.\<close>

definition proc_inv :: "int \<Rightarrow> process_table \<Rightarrow> bool" where
  "proc_inv pid t \<longleftrightarrow> pt_inv t \<and> in_table pid \<and> pt_environment t ! nat pid \<noteq> None \<and> env_distinct (proc_vars t pid)"

definition proc_get :: "int \<Rightarrow> process_table \<Rightarrow> string \<Rightarrow> string option" where
  "proc_get pid t n = lookup_var n (proc_vars t pid)"

definition proc_set :: "int \<Rightarrow> process_table \<Rightarrow> string \<Rightarrow> string \<Rightarrow> process_table" where
  "proc_set pid t n v = snd (the (ios_setenv_pid (Some n) (Some v) True pid t))"

definition proc_unset :: "int \<Rightarrow> process_table \<Rightarrow> string \<Rightarrow> process_table" where
  "proc_unset pid t n = snd (the (ios_unsetenv_pid (Some n) pid t))"

lemma put_env_proc:
  assumes "proc_inv pid t" and "slot_rep e k ss" and "env_distinct ss"
  shows "proc_inv pid (put_env pid e k t)" and "proc_vars (put_env pid e k t) pid = ss"
    and "in_table q \<Longrightarrow> q \<noteq> pid \<Longrightarrow> proc_vars (put_env pid e k t) q = proc_vars t q"
proof -
  have t: "pt_inv t" "in_table pid" using assms(1) by (simp_all add: proc_inv_def)
  show v: "proc_vars (put_env pid e k t) pid = ss" using put_env_vars [OF t t(2) assms(2)] by simp
  show "in_table q \<Longrightarrow> q \<noteq> pid \<Longrightarrow> proc_vars (put_env pid e k t) q = proc_vars t q"
    using put_env_vars [OF t _ assms(2), of q] by simp
  have "env_entry_ok e k" using assms(2) by (auto simp: env_entry_ok_def)
  moreover have "pt_environment (put_env pid e k t) ! nat pid \<noteq> None"
    using assms(2) t in_table_nat [OF t(2)] by (auto simp: put_env_def pt_inv_def table_shape_def slot_rep_def)
  ultimately show "proc_inv pid (put_env pid e k t)"
    using put_env_inv [OF t] v assms(3) t(2) by (simp add: proc_inv_def)
qed

lemma proc_set_eq:
  assumes "proc_inv pid t" and "valid_name n"
  shows "proc_inv pid (proc_set pid t n v)" and "proc_vars (proc_set pid t n v) pid = assign_var n v (proc_vars t pid)"
    and "in_table q \<Longrightarrow> q \<noteq> pid \<Longrightarrow> proc_vars (proc_set pid t n v) q = proc_vars t q"
proof -
  have t: "pt_inv t" "in_table pid" "pt_environment t ! nat pid \<noteq> None" "env_distinct (proc_vars t pid)"
    using assms(1) by (simp_all add: proc_inv_def)
  obtain e k where e: "ios_setenv_pid (Some n) (Some v) True pid t = Some (0, put_env pid e k t)"
    "slot_rep e k (assign_var n v (proc_vars t pid))"
    using setenv_pid_eq [OF t(1-3) assms(2), of v True] by auto
  then have "proc_set pid t n v = put_env pid e k t" by (simp add: proc_set_def)
  with put_env_proc [OF assms(1) e(2) env_distinct_assign [OF t(4) assms(2)]]
  show "proc_inv pid (proc_set pid t n v)" "proc_vars (proc_set pid t n v) pid = assign_var n v (proc_vars t pid)"
    "in_table q \<Longrightarrow> q \<noteq> pid \<Longrightarrow> proc_vars (proc_set pid t n v) q = proc_vars t q" by auto
qed

lemma proc_unset_eq:
  assumes "proc_inv pid t" and "valid_name n"
  shows "proc_inv pid (proc_unset pid t n)" and "proc_vars (proc_unset pid t n) pid = remove_var n (proc_vars t pid)"
    and "in_table q \<Longrightarrow> q \<noteq> pid \<Longrightarrow> proc_vars (proc_unset pid t n) q = proc_vars t q"
proof -
  have t: "pt_inv t" "in_table pid" "pt_environment t ! nat pid \<noteq> None" "env_distinct (proc_vars t pid)"
    using assms(1) by (simp_all add: proc_inv_def)
  obtain e k where e: "ios_unsetenv_pid (Some n) pid t = Some (0, put_env pid e k t)"
    "slot_rep e k (remove_var n (proc_vars t pid))"
    using unsetenv_pid_eq [OF t(1-3) assms(2)] by auto
  then have "proc_unset pid t n = put_env pid e k t" by (simp add: proc_unset_def)
  with put_env_proc [OF assms(1) e(2) env_distinct_remove [OF t(4) assms(2)]]
  show "proc_inv pid (proc_unset pid t n)" "proc_vars (proc_unset pid t n) pid = remove_var n (proc_vars t pid)"
    "in_table q \<Longrightarrow> q \<noteq> pid \<Longrightarrow> proc_vars (proc_unset pid t n) q = proc_vars t q" by auto
qed

interpretation proc_store: env_store valid_name "proc_inv pid" "proc_get pid" "proc_set pid" "proc_unset pid" for pid
  by unfold_locales
    (auto simp: proc_set_eq proc_unset_eq proc_get_def lookup_assign lookup_remove proc_inv_def [THEN iffD1])

lemma run_other_processes:
  "proc_inv pid t \<Longrightarrow> \<forall>u \<in> set ops. valid_name (op_name u) \<Longrightarrow> in_table q \<Longrightarrow> q \<noteq> pid \<Longrightarrow>
   proc_vars (env_run (proc_set pid) (proc_unset pid) ops t) q = proc_vars t q"
proof (induction ops arbitrary: t)
  case (Cons u ops)
  then show ?case by (cases u) (simp_all add: proc_set_eq proc_unset_eq)
qed simp

lemma putenv_matches_eq: "eq_char \<notin> set n \<Longrightarrow> putenv_matches (env_entry n v) = var_matches n"
proof (rule ext)
  fix entry assume n: "eq_char \<notin> set n"
  then have t: "takeWhile (\<lambda>c. c \<noteq> eq_char) (env_entry n v) = n" by (simp add: env_entry_def takeWhile_append)
  have "take (length n + 1) (env_entry n v) = n @ [eq_char]" by (simp add: env_entry_def)
  moreover have "take (length n + 1) entry = n @ [eq_char] \<longleftrightarrow> var_matches n entry"
  proof (cases "length n < length entry")
    case True
    then show ?thesis by (auto simp: var_matches_def take_Suc_conv_app_nth)
  next
    case False
    then have "length (take (length n + 1) entry) \<noteq> length (n @ [eq_char])" by simp
    with False show ?thesis unfolding var_matches_def by metis
  qed
  ultimately show "putenv_matches (env_entry n v) entry = var_matches n entry"
    unfolding putenv_matches_def t Let_def by simp
qed

section \<open>Properties\<close>

lemma fork_no_cleanup: "pt_cleanup_counter t \<le> 0 \<Longrightarrow> ios_fork self ws t = next_pid_locked self t"
  by (simp add: ios_fork_def ios_nextAvailablePid_def spin_until_done)

text \<open>
  A fork takes the next free id. When some id from 1 to 127 is free, the fork returns the
  first free one in the cyclic order that starts after the last id given out, marks it as not
  yet started and leaves the other slots alone; the calling thread becomes the new process, which
  remembers its parent and the working directory and starts with a copy of the environment of
  the parent; every other process keeps its environment.
\<close>

theorem fork_takes_next_free_pid:
  assumes "pt_inv t" and "pt_cleanup_counter t \<le> 0" and "0 < p" and "in_table p" and "pid_free t p"
  shows "\<exists>k t'. let pid = pid_after (pt_last_allocated_pid t) k in
    ios_fork self ws t = Returns pid t' \<and> 0 < pid \<and> in_table pid \<and> pid_free t pid \<and>
    (\<forall>j < k. \<not> pid_free t (pid_after (pt_last_allocated_pid t) j)) \<and>
    pt_thread_ids t' = (pt_thread_ids t)[nat pid := - 1] \<and>
    pt_current_pid t' = (pt_current_pid t)(self := pid) \<and> pt_previousPid t' ! nat pid = pt_current_pid t self \<and>
    pt_previousDirectory t' ! nat pid = pt_cwd t \<and>
    (\<forall>q. in_table q \<longrightarrow> proc_vars t' q = proc_vars t (if q = pid then pt_current_pid t self else q)) \<and> pt_inv t'"
proof -
  obtain k where k: "pid_free t (pid_after (pt_last_allocated_pid t) k)"
    "\<forall>j < k. \<not> pid_free t (pid_after (pt_last_allocated_pid t) j)"
    using first_free_candidate [OF assms(3-5)] by metis
  define pid where "pid = pid_after (pt_last_allocated_pid t) k"
  have r: "0 < pid" "in_table pid" using pid_after_range by (simp_all add: pid_def)
  obtain ov where f: "ios_fork self ws t = Returns pid ((child_table self pid t)\<lparr>pt_pid_overflow := ov\<rparr>)"
    using fork_locked_free [OF assms(1) k, of self] fork_no_cleanup [OF assms(2)] by (auto simp: pid_def)
  have "nat pid < IOS_MAX_THREADS" "table_shape t" using in_table_nat [OF r(2)] pt_invD(1) [OF assms(1)] by auto
  then show ?thesis
    using f k r child_table_inv [OF assms(1) r(2), of self] child_table_vars [OF assms(1) r(2), of _ self]
    unfolding pid_def [symmetric] Let_def
    by - (rule exI [of _ k], rule exI [of _ "(child_table self pid t)\<lparr>pt_pid_overflow := ov\<rparr>"],
      simp add: pid_def [symmetric], simp add: child_table_def put_env_def table_shape_def)
qed

text \<open>
  C40: a fork returns exactly when an id is free. With all 127 ids in use it scans for ever, and
  since it holds \<^verbatim>\<open>pid_mtx\<close>, which every release needs, no id can become free again.
\<close>

theorem fork_returns_iff_pid_free:
  assumes "pt_inv t" and "pt_cleanup_counter t \<le> 0"
  shows "((\<exists>pid t'. ios_fork self ws t = Returns pid t') \<longleftrightarrow> (\<exists>p. 0 < p \<and> in_table p \<and> pid_free t p)) \<and>
    ((\<exists>t'. ios_fork self ws t = Blocked t') \<longleftrightarrow> \<not> (\<exists>p. 0 < p \<and> in_table p \<and> pid_free t p))"
  using pid_after_range [of "pt_last_allocated_pid t"] fork_no_cleanup [OF assms(2), of self ws]
  by (cases rule: fork_locked_cases [OF assms(1), of self]) fastforce+

text \<open>
  C35: no two processes share an id. Whatever sequence of forks and releases by whatever threads
  leads from a state with no process to \<open>t'\<close>, the ids handed out and not released are distinct,
  and they are exactly the slots in use.
\<close>

theorem forked_pids_never_shared:
  assumes "pt_inv t" and "live_pids t = {}" and "pool_run forks releases t [] t' held"
  shows "distinct held \<and> set held = live_pids t' \<and> pt_inv t'"
  using forked.run_exclusive [OF assms(3,1)] assms(2) by simp

text \<open>
  C20: the environment of a process refines a finite map. After any sequence of
  \<^verbatim>\<open>ios_setenv_pid\<close> and \<^verbatim>\<open>ios_unsetenv_pid\<close> calls on a process with an environment of its own,
  the variables it sees are those the same updates of a map give, and the variables of every
  other process are unchanged.
\<close>

theorem process_environment_refines_map:
  assumes "pt_inv t" and "in_table pid" and "pt_environment t ! nat pid \<noteq> None" and "env_distinct (proc_vars t pid)"
    and "\<forall>u \<in> set ops. valid_name (op_name u)" and "valid_name n" and "in_table q" and "q \<noteq> pid"
    and "t' = env_run (proc_set pid) (proc_unset pid) ops t"
  shows "lookup_var n (proc_vars t' pid) = map_run ops (\<lambda>m. lookup_var m (proc_vars t pid)) n \<and>
    proc_vars t' q = proc_vars t q \<and> pt_inv t'"
proof -
  have inv: "proc_inv pid t" using assms(1-4) by (simp add: proc_inv_def)
  from proc_store.run_refines_map [OF inv assms(5,6)] run_other_processes [OF inv assms(5,7,8)]
  show ?thesis unfolding assms(9) by (simp add: proc_get_def [abs_def] proc_inv_def)
qed

text \<open>
  \<^verbatim>\<open>ios_putenv\<close> of \<^verbatim>\<open>NAME=VALUE\<close> is \<^verbatim>\<open>ios_setenv_pid\<close> of the name and the value on the
  current process, on every path, with the overwrite flag set.
\<close>

theorem putenv_is_setenv:
  assumes "valid_name n"
  shows "ios_putenv self (env_entry n v) t = ios_setenv_pid (Some n) (Some v) True (pt_current_pid t self) t"
proof -
  have n: "eq_char \<notin> set n" using assms by (simp add: valid_name_def)
  then have "takeWhile (\<lambda>c. c \<noteq> eq_char) (env_entry n v) = n" "dropWhile (\<lambda>c. c \<noteq> eq_char) (env_entry n v) = eq_char # v"
    by (simp_all add: env_entry_def takeWhile_append dropWhile_append)
  moreover have "eq_char \<in> set (env_entry n v)" by (simp add: env_entry_def)
  moreover have "hd (env_entry n v) \<noteq> eq_char" using assms n hd_in_set [of n] by (metis env_entry_def hd_append valid_name_def)
  ultimately show ?thesis
    using assms putenv_matches_eq [OF n, of v]
    unfolding ios_putenv_def ios_setenv_pid_def posix_putenv_call_def posix_setenv_call_def option.sel
    by (cases "get_at (pt_environment t) (pt_current_pid t self)";
        cases "get_at (pt_numVariablesSet t) (pt_current_pid t self)") simp_all
qed

text \<open>
  \<^verbatim>\<open>ios_storeThreadId(0)\<close> undoes a fork that was not followed by a thread: the calling thread
  is its parent again, all slots are as they were, and so are the working directory and the
  variables of every process but the one given up.
\<close>

theorem store_zero_undoes_fork:
  assumes "pt_inv t" and "pt_cleanup_counter t \<le> 0" and "ios_fork self ws t = Returns pid t'"
  shows "\<exists>t''. ios_storeThreadId self 0 t' = Some t'' \<and> pt_current_pid t'' = pt_current_pid t \<and>
    pt_thread_ids t'' = pt_thread_ids t \<and> pt_cwd t'' = pt_cwd t \<and>
    (\<forall>q. in_table q \<and> q \<noteq> pid \<longrightarrow> proc_vars t'' q = proc_vars t q) \<and> pt_inv t''"
proof -
  have "forks t pid t'" using assms(3) fork_no_cleanup [OF assms(2)] by (auto simp: forks_def)
  then have "next_pid_locked self t = Returns pid t'" using assms(3) fork_no_cleanup [OF assms(2)] by simp
  then obtain k ov where p: "pid = pid_after (pt_last_allocated_pid t) k" "pid_free t pid"
    "t' = (child_table self pid t)\<lparr>pt_pid_overflow := ov\<rparr>"
    by (cases rule: fork_locked_cases [OF assms(1), of self]) auto
  have pid: "in_table pid" using p(1) pid_after_range by simp
  have inv': "pt_inv t'" using p(3) child_table_inv [OF assms(1) pid] by simp
  note shape = pt_invD(1) [OF assms(1)] pt_invD(1) [OF inv'] and n = in_table_nat [OF pid]
  let ?t'' = "(set_current self (pt_current_pid t self) t')\<lparr>pt_thread_ids := (pt_thread_ids t)[nat pid := 0]\<rparr>"
  have c: "pt_current_pid t' = (pt_current_pid t)(self := pid)" "pt_thread_ids t' = (pt_thread_ids t)[nat pid := - 1]"
    "pt_previousPid t' ! nat pid = pt_current_pid t self" "pt_cwd t' = pt_cwd t"
    using shape(1) n by (simp_all add: p(3) child_table_def put_env_def table_shape_def)
  have s: "ios_storeThreadId self 0 t' = Some ?t''"
  proof -
    have "pid < int (length (pt_thread_ids t))" "0 \<le> pid" using shape(1) pid by (simp_all add: table_shape_def in_table_def)
    moreover have "nat pid < length (pt_thread_ids t)" using shape(1) n by (simp add: table_shape_def)
    ultimately show ?thesis using shape(2) pid c by (simp add: ios_storeThreadId_def)
  qed
  have ids: "(pt_thread_ids t)[nat pid := 0] = pt_thread_ids t"
    using p(2) by (metis pid_free_def list_update_id)
  have "proc_vars ?t'' q = proc_vars t q" if "in_table q" "q \<noteq> pid" for q
  proof -
    have "proc_vars ?t'' q = proc_vars (child_table self pid t) q"
      by (rule proc_vars_cong) (simp_all add: p(3) set_current_def)
    with child_table_vars [OF assms(1) pid that(1)] that(2) show ?thesis by simp
  qed
  moreover have "pt_inv ?t''"
    using inv' shape pt_invD(4) [OF assms(1)] by (auto simp: pt_inv_def table_shape_def set_current_def)
  ultimately show ?thesis
    using s c ids by (intro exI [of _ ?t'']) (simp add: set_current_def fun_upd_idem)
qed

text \<open>
  The life of a command. A process is forked, a worker thread takes its id over, stores its
  own thread id, and releases the thread at the end: then all slots are as before the fork, the
  worker is the parent process, and the directory of the time of the fork was asked for.
\<close>

theorem command_life_cycle:
  assumes "pt_inv t" and "pt_cleanup_counter t \<le> 0" and "ios_fork self ws t = Returns pid t1"
    and "thread \<notin> set (pt_thread_ids t)" and "thread \<noteq> 0" and "thread \<noteq> - 1"
    and "ios_storeThreadId worker thread (ios_setCurrentPid worker pid t1) = Some t2"
    and "t3 = ios_releaseThread cd worker thread t2"
  shows "ios_getThreadId pid t2 = Some thread \<and> pt_thread_ids t3 = pt_thread_ids t \<and>
    pt_current_pid t3 worker = pt_current_pid t self \<and> pt_cwd t3 = cd (pt_cwd t) (pt_cwd t2)"
proof -
  have "next_pid_locked self t = Returns pid t1" using assms(3) fork_no_cleanup [OF assms(2)] by simp
  then obtain k ov where p: "pid = pid_after (pt_last_allocated_pid t) k" "pid_free t pid"
    "t1 = (child_table self pid t)\<lparr>pt_pid_overflow := ov\<rparr>"
    by (cases rule: fork_locked_cases [OF assms(1), of self]) auto
  have pid: "in_table pid" "nat pid < IOS_MAX_THREADS" "0 \<le> pid" "pid < int IOS_MAX_THREADS"
    using p(1) pid_after_range in_table_nat by (auto simp: in_table_def)
  have l: "length (pt_thread_ids t) = IOS_MAX_THREADS" "length (pt_previousPid t) = IOS_MAX_THREADS"
    "length (pt_previousDirectory t) = IOS_MAX_THREADS"
    using pt_invD(1) [OF assms(1)] by (simp_all add: table_shape_def)
  have t2: "t2 = (ios_setCurrentPid worker pid t1)\<lparr>pt_thread_ids := (pt_thread_ids t)[nat pid := thread]\<rparr>"
    using assms(5,7) pid l
    by (simp add: ios_storeThreadId_def ios_setCurrentPid_def set_current_def p(3) child_table_def put_env_def)
  have "find_thread thread t2 = Some (nat pid)"
  proof -
    have "(pt_thread_ids t2 ! q = thread) = (q = nat pid)" if "q < IOS_MAX_THREADS" for q
      using that pid(2) l assms(4) by (auto simp: t2 nth_list_update)
    then show ?thesis
      using pid(2) less_trans [OF _ pid(2)] unfolding find_thread_def find_Some_iff
      by (intro exI [of _ "nat pid"]) auto
  qed
  moreover have "(pt_thread_ids t)[nat pid := 0] = pt_thread_ids t"
    using p(2) by (metis pid_free_def list_update_id)
  ultimately show ?thesis
    using assms(5,8) pid l
    by (simp add: ios_releaseThread_def t2 ios_getThreadId_def ios_setCurrentPid_def set_current_def p(3) child_table_def put_env_def)
qed

text \<open>
  A wait without options returns at the first moment the thread of the process is released,
  with the status of the session at that moment.
\<close>

theorem waitpid_waits_for_release:
  assumes "state = (\<lambda>i. fold (\<lambda>w. w) (take i ws) (t\<lparr>pt_order := 0\<rparr>))" and "k \<le> length ws"
    and "\<forall>i < k. \<exists>x. waited_thread pid (state i) = Some x \<and> x \<noteq> 0" and "waited_thread pid (state k) = Some 0"
  shows "waitpid None ws pid 0 t = Returns (pid, Some (W_EXITCODE (pt_status (state k)))) (state k)"
proof -
  have "spin_until (\<lambda>t. map_option (\<lambda>x. x = 0) (waited_thread pid t)) ws (t\<lparr>pt_order := 0\<rparr>) =
    Returns (drop k ws) (state k)"
    using spin_until_first [of k "\<lambda>t. map_option (\<lambda>x. x = 0) (waited_thread pid t)" ws "t\<lparr>pt_order := 0\<rparr>"] assms
    by fastforce
  then show ?thesis by (simp add: waitpid_def ios_waitpid_def executeWebAssemblyCommandsInOrder_def)
qed

definition WNOHANG :: int where
  "WNOHANG = 1"

text \<open>
  Any option makes \<^verbatim>\<open>waitpid\<close> return at once. The code tests \<^verbatim>\<open>options && WNOHANG\<close> where it
  means \<^verbatim>\<open>options & WNOHANG\<close>, so also with options that do not contain \<^verbatim>\<open>WNOHANG\<close>, such as
  \<^verbatim>\<open>WUNTRACED\<close>, it does not wait for a running process but returns 0.
\<close>

theorem waitpid_any_option_does_not_wait:
  assumes "options \<noteq> 0" and "options mod (2 * WNOHANG) = 0" and "waited_thread pid t = Some x" and "x \<noteq> 0"
  shows "waitpid None ws pid options t = Returns (0, None) (t\<lparr>pt_order := 0\<rparr>)"
proof -
  have "waited_thread pid (t\<lparr>pt_order := 0\<rparr>) = waited_thread pid t" by (simp add: waited_thread_def ios_getThreadId_def)
  with assms show ?thesis by (simp add: waitpid_def executeWebAssemblyCommandsInOrder_def)
qed

text \<open>
  Making the environment global and local again gives it back; in between the process sees
  the variables of the application.
\<close>

theorem local_environment_restored:
  assumes "pt_inv t"
  shows "\<exists>t1 t2. makeGlobal self t = Some t1 \<and> proc_vars t1 (pt_current_pid t self) = the (pt_environ t) \<and>
    makeLocal self t1 = Some t2 \<and> pt_environment t2 = pt_environment t \<and>
    (\<forall>q. proc_vars t2 q = proc_vars t q)"
proof -
  let ?p = "pt_current_pid t self"
  note shape = pt_invD(1) [OF assms] and p = pt_invD(4) [OF assms, of self]
  have l: "0 \<le> ?p" "?p < int IOS_MAX_THREADS" "nat ?p < IOS_MAX_THREADS"
    "length (pt_environment t) = IOS_MAX_THREADS" "length (pt_copyEnvironment t) = IOS_MAX_THREADS"
    using p in_table_nat [OF p] shape by (simp_all add: in_table_def table_shape_def)
  let ?t1 = "t\<lparr>pt_copyEnvironment := (pt_copyEnvironment t)[nat ?p := pt_environment t ! nat ?p],
    pt_environment := (pt_environment t)[nat ?p := None]\<rparr>"
  let ?t2 = "t\<lparr>pt_copyEnvironment := (pt_copyEnvironment t)[nat ?p := None]\<rparr>"
  have "makeGlobal self t = Some ?t1" using l by (simp add: makeGlobal_def)
  moreover have "proc_vars ?t1 ?p = the (pt_environ t)" using l by (simp add: proc_vars_def)
  moreover have "makeLocal self ?t1 = Some ?t2" using l by (simp add: makeLocal_def)
  moreover have "proc_vars ?t2 q = proc_vars t q" for q by (rule proc_vars_cong) simp_all
  ultimately show ?thesis by (intro exI [of _ ?t1] exI [of _ ?t2]) simp
qed

section \<open>Concrete states\<close>

definition start_table :: process_table where
  "start_table = initial_table ''/'' (Some [''A=1''])"

text \<open>The start, and the state after process 1 was forked by thread 7.\<close>

definition forked_table :: process_table where
  "forked_table = (child_table 7 1 start_table)\<lparr>pt_pid_overflow := False\<rparr>"

lemma start_table_facts:
  "pt_inv start_table" "pt_cleanup_counter start_table \<le> 0" "in_table p \<Longrightarrow> pid_free start_table p"
  "live_pids start_table = {}" "pt_last_allocated_pid start_table = 0" "pt_current_pid start_table = (\<lambda>_. 0)"
  "proc_vars start_table 0 = [''A=1'']"
  by (auto simp: start_table_def initial_table_def pt_inv_def table_shape_def in_table_def env_entry_ok_def
      pid_free_def live_pids_def IOS_MAX_THREADS_def proc_vars_def)

lemma one_in_table: "in_table 1" "0 < (1 :: int)" "pid_after 0 0 = 1"
  by (simp_all add: in_table_def IOS_MAX_THREADS_def pid_after_def)

lemma start_fork: "ios_fork 7 ws start_table = Returns 1 forked_table"
proof -
  obtain ov where f: "ios_fork 7 ws start_table = Returns 1 ((child_table 7 1 start_table)\<lparr>pt_pid_overflow := ov\<rparr>)"
    using fork_locked_free [OF start_table_facts(1), of 0 7] start_table_facts one_in_table
      fork_no_cleanup [OF start_table_facts(2)] by auto
  have "environmentVariables 0 start_table = Some (Some [Str ''A=1'', Null])"
    by (simp add: environmentVariables_def start_table_def initial_table_def IOS_MAX_THREADS_def)
  moreover have "get_at (pt_thread_ids start_table) 1 = Some 0" "\<not> pt_pid_overflow start_table"
    by (simp_all add: start_table_def initial_table_def IOS_MAX_THREADS_def)
  moreover have "claim_pid 7 1 0 (Some [Str ''A=1'', Null]) start_table = Some (child_table 7 1 start_table)"
    using claim_pid_eq [OF start_table_facts(1) one_in_table(1), of _ 7 "[]"] start_table_facts by simp
  ultimately have "next_pid_locked 7 start_table = Returns 1 (child_table 7 1 start_table)"
    by (simp add: next_pid_locked_def start_table_facts Let_def IOS_MAX_THREADS_def)
  moreover have "child_table 7 1 start_table = forked_table"
    by (simp add: forked_table_def child_table_def put_env_def start_table_def initial_table_def)
  ultimately show ?thesis using fork_no_cleanup [OF start_table_facts(2)] by simp
qed

lemma forked_table_facts:
  "pt_inv forked_table" "proc_vars forked_table 1 = [''A=1'']" "pt_environment forked_table ! nat 1 \<noteq> None"
  "ios_getThreadId 1 forked_table = Some (- 1)" "pt_current_pid forked_table 7 = 1" "pt_cleanup_counter forked_table \<le> 0"
  "pt_thread_ids forked_table = (replicate IOS_MAX_THREADS 0)[1 := - 1]"
proof -
  show "pt_inv forked_table" using child_table_inv [OF start_table_facts(1) one_in_table(1)] by (simp add: forked_table_def)
  show "proc_vars forked_table 1 = [''A=1'']"
    using child_table_vars [OF start_table_facts(1) one_in_table(1,1), of 7] start_table_facts by (simp add: forked_table_def)
qed (simp_all add: forked_table_def child_table_def put_env_def start_table_def initial_table_def ios_getThreadId_def
    IOS_MAX_THREADS_def)

lemma a1_distinct: "env_distinct [''A=1'']"
  by (auto simp: env_distinct_def)

theorem fork_takes_next_free_pid_witness:
  "\<exists>t'. ios_fork 7 [] start_table = Returns 1 t' \<and> proc_vars t' 1 = [''A=1''] \<and> pt_previousPid t' ! nat 1 = 0"
  using fork_takes_next_free_pid [OF start_table_facts(1,2) one_in_table(2,1) start_table_facts(3) [OF one_in_table(1)], of 7 "[]"]
    start_fork [of "[]"] one_in_table start_table_facts
  by (auto simp: Let_def)

theorem fork_returns_iff_pid_free_witness:
  "(\<exists>pid t'. ios_fork 7 [] start_table = Returns pid t') \<longleftrightarrow> (\<exists>p. 0 < p \<and> in_table p \<and> pid_free start_table p)"
  using fork_returns_iff_pid_free [OF start_table_facts(1,2), of 7 "[]"] by simp

theorem forked_pids_never_shared_witness:
  "pool_run forks releases start_table [] forked_table [1] \<and> set [1] = live_pids forked_table"
proof -
  have "forks start_table 1 forked_table"
    using start_fork [of "[]"] fork_no_cleanup [OF start_table_facts(2)] by (auto simp: forks_def)
  then have r: "pool_run forks releases start_table [] forked_table [1]"
    by (rule pool_run.intros(2) [OF pool_run.intros(1)])
  from forked_pids_never_shared [OF start_table_facts(1,4) r] have "set [1] = live_pids forked_table" by blast
  with r show ?thesis by blast
qed

theorem process_environment_refines_map_witness:
  "lookup_var ''B'' (proc_vars (env_run (proc_set 1) (proc_unset 1) [Assign ''B'' ''2'', Delete ''A''] forked_table) 1) = Some ''2''"
proof -
  have v: "valid_name ''A''" "valid_name ''B''" by (simp_all add: valid_name_def eq_char_def)
  have "in_table 0" by (simp add: in_table_def IOS_MAX_THREADS_def)
  from process_environment_refines_map [OF forked_table_facts(1) one_in_table(1) forked_table_facts(3) _ _ v(2) this _ refl,
      of "[Assign ''B'' ''2'', Delete ''A'']"] forked_table_facts(2) a1_distinct v
  show ?thesis by simp
qed

theorem putenv_is_setenv_witness:
  "ios_putenv 7 ''B=2'' forked_table = ios_setenv_pid (Some ''B'') (Some ''2'') True 1 forked_table"
  using putenv_is_setenv [of "''B''" 7 "''2''" forked_table] forked_table_facts(5)
  by (simp add: valid_name_def env_entry_def eq_char_def)

theorem store_zero_undoes_fork_witness:
  "\<exists>t''. ios_storeThreadId 7 0 forked_table = Some t'' \<and> pt_current_pid t'' 7 = 0 \<and> pt_thread_ids t'' = pt_thread_ids start_table"
  using store_zero_undoes_fork [OF start_table_facts(1,2) start_fork [of "[]"]] start_table_facts(6) by auto

theorem command_life_cycle_witness:
  "\<exists>t2. ios_storeThreadId 8 5 (ios_setCurrentPid 8 1 forked_table) = Some t2 \<and> ios_getThreadId 1 t2 = Some 5 \<and>
     pt_thread_ids (ios_releaseThread (\<lambda>new old. new) 8 5 t2) = pt_thread_ids start_table"
proof -
  obtain t2 where s: "ios_storeThreadId 8 5 (ios_setCurrentPid 8 1 forked_table) = Some t2"
    using forked_table_facts(7)
    by (simp add: ios_storeThreadId_def ios_setCurrentPid_def set_current_def IOS_MAX_THREADS_def)
  have "5 \<notin> set (pt_thread_ids start_table)" by (simp add: start_table_def initial_table_def)
  from command_life_cycle [OF start_table_facts(1,2) start_fork [of "[]"] this _ _ s refl] s show ?thesis by simp
qed

theorem waitpid_waits_for_release_witness:
  "waitpid None [id, ios_releaseBackgroundThread 8 (- 1)] 1 0 forked_table =
     Returns (1, Some 0) (ios_releaseBackgroundThread 8 (- 1) (forked_table\<lparr>pt_order := 0\<rparr>))"
proof -
  let ?ws = "[id, ios_releaseBackgroundThread 8 (- 1)]"
  define state where "state i = fold (\<lambda>w. w) (take i ?ws) (forked_table\<lparr>pt_order := 0\<rparr>)" for i
  have ids: "pt_thread_ids (forked_table\<lparr>pt_order := 0\<rparr>) = (replicate 128 0)[1 := - 1]"
    using forked_table_facts(7) by (simp add: IOS_MAX_THREADS_def)
  have "find_thread (- 1) (forked_table\<lparr>pt_order := 0\<rparr>) = Some 1"
    unfolding find_thread_def ids by (rule find_unique) (auto simp: IOS_MAX_THREADS_def nth_list_update split: if_splits)
  then have r: "waited_thread 1 (state 2) = Some 0" "pt_status (state 2) = 0"
    using ids by (simp_all add: state_def numeral_2_eq_2 waited_thread_def ios_getThreadId_def ios_releaseBackgroundThread_def
        set_current_def IOS_MAX_THREADS_def forked_table_def child_table_def put_env_def start_table_def initial_table_def)
  moreover have "\<exists>x. waited_thread 1 (state i) = Some x \<and> x \<noteq> 0" if "i < 2" for i
    using that forked_table_facts(4) by (cases i) (auto simp: state_def waited_thread_def ios_getThreadId_def IOS_MAX_THREADS_def)
  ultimately have "waitpid None ?ws 1 0 forked_table = Returns (1, Some (W_EXITCODE (pt_status (state 2)))) (state 2)"
    by (intro waitpid_waits_for_release [OF ext]) (simp_all add: state_def)
  moreover have "state 2 = ios_releaseBackgroundThread 8 (- 1) (forked_table\<lparr>pt_order := 0\<rparr>)"
    by (simp add: state_def numeral_2_eq_2)
  ultimately show ?thesis using r(2) by (simp add: W_EXITCODE_def)
qed

theorem waitpid_any_option_does_not_wait_witness:
  "waitpid None [] 1 2 forked_table = Returns (0, None) (forked_table\<lparr>pt_order := 0\<rparr>)"
  by (rule waitpid_any_option_does_not_wait [of _ _ _ "- 1"])
    (use forked_table_facts(4) in \<open>simp_all add: WNOHANG_def waited_thread_def\<close>)

theorem local_environment_restored_witness:
  "\<exists>t1 t2. makeGlobal 7 forked_table = Some t1 \<and> makeLocal 7 t1 = Some t2 \<and> proc_vars t2 1 = [''A=1'']"
  using local_environment_restored [OF forked_table_facts(1), of 7] forked_table_facts(2) by force

end
