(* ===== verification/Process_Table.thy ===== *)
theory Process_Table
  imports Libc_Process
begin

text \<open>
  The operations on the process table of \<^verbatim>\<open>libc_replacement.c\<close> together: an arbitrary sequence of them, by
  any threads, keeps the table well formed and never faults, and an update of an environment fails exactly for a name
  that is not allowed.
\<close>

section \<open>Operations\<close>

text \<open>The calls that change the table, with their arguments.\<close>

datatype table_op =
    Fork
  | Store_thread int
  | Release_thread int
  | Release_background int
  | Release_pid int
  | Set_current int
  | New_directory
  | Store_environment "string list"
  | Reset_environment int
  | Clear_environment int
  | Make_global
  | Make_local
  | Set_variable "string option" string bool int
  | Set_in_parent "string option" string bool
  | Put_variable string
  | Unset_variable "string option" int
  | Unset_in_parent "string option"

text \<open>The indices a caller passes have to lie in the table; the code does not check them.\<close>

fun op_pid :: "table_op \<Rightarrow> int" where
  "op_pid (Release_pid pid) = pid"
| "op_pid (Set_current pid) = pid"
| "op_pid (Reset_environment pid) = pid"
| "op_pid (Clear_environment pid) = pid"
| "op_pid (Set_variable n v ow pid) = pid"
| "op_pid (Unset_variable n pid) = pid"
| "op_pid _ = 0"

text \<open>
  \<^verbatim>\<open>makeLocal\<close> brings back the array that \<^verbatim>\<open>makeGlobal\<close> put aside, and relies on the number of variables of the process not having changed since; the code
  does not check that either.
\<close>

definition op_allowed :: "tid \<Rightarrow> table_op \<Rightarrow> process_table \<Rightarrow> bool" where
  "op_allowed self op t \<longleftrightarrow> in_table (op_pid op) \<and>
     (op = Make_local \<longrightarrow>
        env_entry_ok (pt_copyEnvironment t ! nat (pt_current_pid t self)) (pt_numVariablesSet t ! nat (pt_current_pid t self)))"

definition completed :: "process_table option \<Rightarrow> (unit, process_table) exec" where
  "completed r = (case r of None \<Rightarrow> Crash | Some t \<Rightarrow> Returns () t)"

fun table_step :: "(string \<Rightarrow> string \<Rightarrow> string) \<Rightarrow> tid \<Rightarrow> table_op \<Rightarrow> process_table \<Rightarrow> (unit, process_table) exec" where
  "table_step cd self Fork t = (case ios_fork self [] t of Returns _ t' \<Rightarrow> Returns () t' | Blocked t' \<Rightarrow> Blocked t' | Crash \<Rightarrow> Crash)"
| "table_step cd self (Store_thread thread) t = completed (ios_storeThreadId self thread t)"
| "table_step cd self (Release_thread thread) t = Returns () (ios_releaseThread cd self thread t)"
| "table_step cd self (Release_background thread) t = Returns () (ios_releaseBackgroundThread self thread t)"
| "table_step cd self (Release_pid pid) t = completed (ios_releaseThreadId cd self pid t)"
| "table_step cd self (Set_current pid) t = Returns () (ios_setCurrentPid self pid t)"
| "table_step cd self New_directory t = completed (newPreviousDirectory self t)"
| "table_step cd self (Store_environment ss) t = completed (storeEnvironment self (Some (map Str ss @ [Null])) t)"
| "table_step cd self (Reset_environment pid) t = completed (resetEnvironment pid t)"
| "table_step cd self (Clear_environment pid) t = completed (clearEnvironment pid t)"
| "table_step cd self Make_global t = completed (makeGlobal self t)"
| "table_step cd self Make_local t = completed (makeLocal self t)"
| "table_step cd self (Set_variable n v ow pid) t = completed (map_option snd (ios_setenv_pid n (Some v) ow pid t))"
| "table_step cd self (Set_in_parent n v ow) t = completed (map_option snd (ios_setenv_parent self n (Some v) ow t))"
| "table_step cd self (Put_variable s) t = completed (map_option snd (ios_putenv self s t))"
| "table_step cd self (Unset_variable n pid) t = completed (map_option snd (ios_unsetenv_pid n pid t))"
| "table_step cd self (Unset_in_parent n) t = completed (map_option snd (ios_unsetenv_parent self n t))"

text \<open>The tables that sequences of completed calls lead to.\<close>

inductive table_reach :: "(string \<Rightarrow> string \<Rightarrow> string) \<Rightarrow> process_table \<Rightarrow> process_table \<Rightarrow> bool" for cd t0 where
  table_start: "table_reach cd t0 t0"
| table_call: "table_reach cd t0 t \<Longrightarrow> op_allowed self op t \<Longrightarrow> table_step cd self op t = Returns () t' \<Longrightarrow> table_reach cd t0 t'"

section \<open>Threads and directories\<close>

definition keeps :: "process_table option \<Rightarrow> bool" where
  "keeps r \<longleftrightarrow> (\<exists>t'. r = Some t' \<and> pt_inv t')"

lemma keepsI: "r = Some t' \<Longrightarrow> pt_inv t' \<Longrightarrow> keeps r"
  by (simp add: keeps_def)

lemma inv_set_current: "pt_inv t \<Longrightarrow> in_table pid \<Longrightarrow> pt_inv (set_current self pid t)"
  by (auto simp: pt_inv_def table_shape_def set_current_def)

lemma inv_thread_ids: "pt_inv t \<Longrightarrow> length ids = IOS_MAX_THREADS \<Longrightarrow> pt_inv (t\<lparr>pt_thread_ids := ids\<rparr>)"
  by (auto simp: pt_inv_def table_shape_def)

lemma inv_cwd [simp]: "pt_inv (t\<lparr>pt_cwd := d\<rparr>) = pt_inv t"
  by (simp add: pt_inv_def table_shape_def)

lemma inv_errno [simp]: "pt_inv (t\<lparr>pt_errno := e\<rparr>) = pt_inv t" "pt_inv (t\<lparr>pt_libc_errno := e\<rparr>) = pt_inv t"
  by (simp_all add: pt_inv_def table_shape_def)

lemma inv_environ: "pt_inv t \<Longrightarrow> env \<noteq> None \<Longrightarrow> pt_inv (t\<lparr>pt_environ := env\<rparr>)"
  by (simp add: pt_inv_def table_shape_def)

lemma length_ids: "pt_inv t \<Longrightarrow> length (pt_thread_ids t) = IOS_MAX_THREADS"
  by (simp add: pt_inv_def table_shape_def)

text \<open>A fork returns or waits; it waits only while commands are ending or when no process id is free.\<close>

lemma fork_keeps:
  assumes "pt_inv t"
  shows "(\<exists>t'. table_step cd self Fork t = Returns () t' \<and> pt_inv t') \<or>
    (\<exists>t'. table_step cd self Fork t = Blocked t') \<and> (pt_cleanup_counter t > 0 \<or> (\<forall>p. 0 < p \<and> in_table p \<longrightarrow> \<not> pid_free t p))"
proof (cases "pt_cleanup_counter t > 0")
  case True
  then show ?thesis by (simp add: ios_fork_def ios_nextAvailablePid_def spin_until.simps)
next
  case False
  then have "table_step cd self Fork t =
      (case next_pid_locked self t of Returns _ t' \<Rightarrow> Returns () t' | Blocked t' \<Rightarrow> Blocked t' | Crash \<Rightarrow> Crash)"
    by (simp add: fork_no_cleanup)
  then show ?thesis
    using child_table_inv [OF assms pid_after_range(2)]
    by (cases rule: fork_locked_cases [OF assms, of self]) simp_all
qed

lemma store_thread_keeps:
  assumes "pt_inv t"
  shows "keeps (ios_storeThreadId self thread t)"
  using assms pt_invD(1) [OF assms] pt_invD(4) [OF assms, of self] pt_invD(5) [OF assms pt_invD(4) [OF assms, of self]]
  by (auto simp: keeps_def ios_storeThreadId_def length_ids intro!: inv_thread_ids inv_set_current)

lemma found_in_table: "find_thread thread t = Some p \<Longrightarrow> in_table (int p)"
  by (auto simp: find_thread_def find_Some_iff in_table_def)

lemma release_threads_keep:
  assumes "pt_inv t"
  shows "pt_inv (ios_releaseThread cd self thread t)" and "pt_inv (ios_releaseBackgroundThread self thread t)"
proof -
  have "pt_inv ((set_current self (pt_previousPid t ! p) t)\<lparr>pt_thread_ids := (pt_thread_ids t)[p := 0]\<rparr>)"
    if "find_thread thread t = Some p" for p
    using pt_invD(5) [OF assms found_in_table [OF that]] assms length_ids [OF assms]
    by (simp add: inv_thread_ids inv_set_current)
  then have *: "pt_inv ((set_current self (pt_previousPid t ! p) t)\<lparr>pt_thread_ids := (pt_thread_ids t)[p := 0]\<rparr>)"
    "pt_inv ((set_current self (pt_previousPid t ! p) t)\<lparr>pt_thread_ids := (pt_thread_ids t)[p := 0], pt_cwd := d\<rparr>)"
    if "find_thread thread t = Some p" for p d
    using that inv_cwd [of d "(set_current self (pt_previousPid t ! p) t)\<lparr>pt_thread_ids := (pt_thread_ids t)[p := 0]\<rparr>"] by simp_all
  show "pt_inv (ios_releaseThread cd self thread t)"
    using assms * by (auto simp: ios_releaseThread_def split: option.split)
  show "pt_inv (ios_releaseBackgroundThread self thread t)"
    using assms * by (auto simp: ios_releaseBackgroundThread_def split: option.split)
qed

lemma release_pid_keeps:
  assumes "pt_inv t" and "in_table pid"
  shows "keeps (ios_releaseThreadId cd self pid t)"
proof (cases "pid_free t pid")
  case True
  then show ?thesis using assms pt_invD(1) [OF assms(1)] by (simp add: keeps_def ios_releaseThreadId_def pid_free_def)
next
  case False
  then show ?thesis using release_eq [OF assms] release_inv [OF assms] by (auto simp: keeps_def)
qed

lemma new_directory_keeps: "pt_inv t \<Longrightarrow> keeps (newPreviousDirectory self t)"
  using pt_invD(1) [of t] pt_invD(4) [of t self] by (auto simp: keeps_def newPreviousDirectory_def pt_inv_def table_shape_def)


section \<open>Environments\<close>

lemma put_env_keeps: "pt_inv t \<Longrightarrow> in_table pid \<Longrightarrow> slot_rep e k ss \<Longrightarrow> pt_inv (put_env pid e k t)"
  by (rule put_env_inv) (auto simp: env_entry_ok_def)

lemma no_own_environment: "pt_inv t \<Longrightarrow> in_table pid \<Longrightarrow> pt_inv (put_env pid None k t)"
  by (rule put_env_inv) (auto simp: env_entry_ok_def)

lemma clear_slots_rep:
  assumes "slot_rep e k ss"
  obtains arr where "clear_slots 0 k e = Some arr" "slot_rep (Some arr) 0 []"
proof -
  obtain rest where e: "e = Some (map Str ss @ Null # rest)" "k = length ss" using assms by (rule slot_repE)
  have "clear_slots 0 k e = Some (replicate (length ss) Null @ Null # rest)"
    using clear_slots_eq [of "[]" ss "Null # rest"] e by simp
  moreover have "slot_rep (Some (replicate (length ss) Null @ Null # rest)) 0 []"
    by (cases "length ss") (auto simp: slot_rep_def)
  ultimately show thesis by (rule that)
qed

lemma reset_and_clear_keep:
  assumes inv: "pt_inv t" and pid: "in_table pid"
  shows "keeps (resetEnvironment pid t)" and "keeps (clearEnvironment pid t)"
proof -
  note shape = pt_invD(1) [OF inv]
  have "keeps (resetEnvironment pid t) \<and> keeps (clearEnvironment pid t)"
  proof (cases "pt_environment t ! nat pid")
    case None
    then show ?thesis using inv pid shape by (simp add: keeps_def resetEnvironment_def clearEnvironment_def)
  next
    case (Some arr)
    then have "slot_rep (Some arr) (pt_numVariablesSet t ! nat pid) (proc_vars t pid)"
      using rep_proc_vars [OF inv pid] by simp
    then obtain arr' where c: "clear_slots 0 (pt_numVariablesSet t ! nat pid) (Some arr) = Some arr'" "slot_rep (Some arr') 0 []"
      by (rule clear_slots_rep)
    have "resetEnvironment pid t = Some (put_env pid None 0 t)" "clearEnvironment pid t = Some (put_env pid (Some arr') 0 t)"
      using Some c(1) shape pid by (simp_all add: resetEnvironment_def clearEnvironment_def put_env_def)
    then show ?thesis using put_env_keeps [OF inv pid c(2)] no_own_environment [OF inv pid] by (auto simp: keeps_def)
  qed
  then show "keeps (resetEnvironment pid t)" "keeps (clearEnvironment pid t)" by simp_all
qed

lemma store_environment_keeps:
  assumes "pt_inv t"
  shows "keeps (storeEnvironment self (Some (map Str ss @ [Null])) t)"
  using storeEnvironment_eq [OF pt_invD(1,4) [OF assms] rep_proc_vars [OF assms pt_invD(4) [OF assms]], of self ss "[]"]
    put_env_keeps [OF assms pt_invD(4) [OF assms] slot_repI [OF refl refl], of self ss "[]"]
  by (auto simp: keeps_def)

lemma make_global_keeps:
  assumes "pt_inv t"
  shows "keeps (makeGlobal self t)"
proof -
  let ?p = "pt_current_pid t self"
  have cur: "in_table ?p" by (rule pt_invD(4) [OF assms])
  have "set_at (pt_copyEnvironment t) ?p x = Some ((pt_copyEnvironment t)[nat ?p := x])" for x
    using cur pt_invD(1) [OF assms] by (simp add: table_shape_def in_table_def)
  then have "makeGlobal self t = Some ((put_env ?p None (pt_numVariablesSet t ! nat ?p) t)
      \<lparr>pt_copyEnvironment := (pt_copyEnvironment t)[nat ?p := pt_environment t ! nat ?p]\<rparr>)"
    using cur pt_invD(1) [OF assms] by (simp add: makeGlobal_def put_env_def)
  moreover have "pt_inv ((put_env ?p None (pt_numVariablesSet t ! nat ?p) t)\<lparr>pt_copyEnvironment := cs\<rparr>)"
    if "length cs = IOS_MAX_THREADS" for cs
    using no_own_environment [OF assms cur] that by (auto simp: pt_inv_def table_shape_def)
  ultimately show ?thesis using pt_invD(1) [OF assms] by (simp add: keeps_def table_shape_def)
qed

lemma make_local_keeps:
  assumes "pt_inv t" "env_entry_ok (pt_copyEnvironment t ! nat (pt_current_pid t self)) (pt_numVariablesSet t ! nat (pt_current_pid t self))"
  shows "keeps (makeLocal self t)"
proof -
  let ?p = "pt_current_pid t self"
  have cur: "in_table ?p" by (rule pt_invD(4) [OF assms(1)])
  have l: "0 \<le> ?p" "?p < int IOS_MAX_THREADS" "nat ?p < IOS_MAX_THREADS"
    "length (pt_environment t) = IOS_MAX_THREADS" "length (pt_copyEnvironment t) = IOS_MAX_THREADS"
    using cur in_table_nat [OF cur] pt_invD(1) [OF assms(1)] by (simp_all add: in_table_def table_shape_def)
  have "makeLocal self t = Some (t\<lparr>pt_environment := (pt_environment t)[nat ?p := pt_copyEnvironment t ! nat ?p],
      pt_copyEnvironment := (pt_copyEnvironment t)[nat ?p := None]\<rparr>)"
    using l by (simp add: makeLocal_def)
  moreover have "pt_inv (t\<lparr>pt_environment := (pt_environment t)[nat ?p := pt_copyEnvironment t ! nat ?p],
      pt_copyEnvironment := (pt_copyEnvironment t)[nat ?p := None]\<rparr>)"
    using assms l by (auto simp: pt_inv_def table_shape_def nth_list_update)
  ultimately show ?thesis by (rule keepsI)
qed

text \<open>
  The outcome of an update: refused for a bad name, with the error set and nothing changed, done otherwise. The error is that of the session for a process with an
  environment of its own, and that of the C library for one without.
\<close>

definition update_outcome :: "bool \<Rightarrow> bool \<Rightarrow> (int \<times> process_table) option \<Rightarrow> process_table \<Rightarrow> bool" where
  "update_outcome own bad r t \<longleftrightarrow>
     (\<exists>rc t'. r = Some (rc, t') \<and> pt_inv t' \<and>
        (if bad then rc = - 1 \<and> t' = (if own then t\<lparr>pt_errno := Some EINVAL\<rparr> else t\<lparr>pt_libc_errno := Some EINVAL\<rparr>)
         else rc = 0 \<and> pt_errno t' = pt_errno t \<and> pt_libc_errno t' = pt_libc_errno t))"

definition own_environment :: "int \<Rightarrow> process_table \<Rightarrow> bool" where
  "own_environment pid t \<longleftrightarrow> pt_environment t ! nat pid \<noteq> None"

lemma outcome_keeps: "update_outcome own bad r t \<Longrightarrow> keeps (map_option snd r)"
  by (auto simp: update_outcome_def keeps_def)

lemma outcome_bad:
  "pt_inv t \<Longrightarrow> update_outcome True True (Some (invalid t)) t" "pt_inv t \<Longrightarrow> update_outcome False True (Some (libc_invalid t)) t"
  by (simp_all add: update_outcome_def invalid_def libc_invalid_def)

lemma outcome_put_env: "pt_inv (put_env pid e k t) \<Longrightarrow> update_outcome own False (Some (0, put_env pid e k t)) t"
  by (simp add: update_outcome_def) (simp add: put_env_def)

lemma outcome_environ: "pt_inv t \<Longrightarrow> env \<noteq> None \<Longrightarrow> update_outcome own False (Some (0, t\<lparr>pt_environ := env\<rparr>)) t"
  by (simp add: update_outcome_def inv_environ)

lemma posix_not_null: "env \<noteq> None \<Longrightarrow> posix_setenv env n v ow \<noteq> None" "env \<noteq> None \<Longrightarrow> posix_unsetenv env n \<noteq> None"
  by (simp_all add: posix_setenv_def posix_unsetenv_def Let_def)

lemma setenv_outcome:
  assumes "pt_inv t" and "in_table pid"
  shows "update_outcome (own_environment pid t) (bad_name name) (ios_setenv_pid name (Some v) ow pid t) t"
proof -
  note shape = pt_invD(1) [OF assms(1)] and env = pt_invD(3) [OF assms(1)]
  consider "bad_name name" | n where "name = Some n" "valid_name n" "pt_environment t ! nat pid = None"
    | n where "name = Some n" "valid_name n" "pt_environment t ! nat pid \<noteq> None"
    by (cases name) (auto simp: bad_name_def valid_name_def)
  then show ?thesis
  proof cases
    case 1
    then show ?thesis using assms shape outcome_bad by (auto simp: ios_setenv_pid_def posix_setenv_call_def own_environment_def)
  next
    case 2
    then show ?thesis using assms shape env
      by (simp add: ios_setenv_pid_def posix_setenv_call_def outcome_environ posix_not_null)
  next
    case (3 n)
    from setenv_pid_eq [OF assms 3(3,2), of v ow] 3 show ?thesis
      by (auto intro!: outcome_put_env put_env_keeps [OF assms])
  qed
qed

lemma unsetenv_outcome:
  assumes "pt_inv t" and "in_table pid"
  shows "update_outcome (own_environment pid t) (bad_name name) (ios_unsetenv_pid name pid t) t"
proof -
  note shape = pt_invD(1) [OF assms(1)] and env = pt_invD(3) [OF assms(1)]
  consider "bad_name name" | n where "name = Some n" "valid_name n" "pt_environment t ! nat pid = None"
    | n where "name = Some n" "valid_name n" "pt_environment t ! nat pid \<noteq> None"
    by (cases name) (auto simp: bad_name_def valid_name_def)
  then show ?thesis
  proof cases
    case 1
    then show ?thesis using assms shape outcome_bad by (auto simp: ios_unsetenv_pid_def posix_unsetenv_call_def own_environment_def)
  next
    case 2
    then show ?thesis using assms shape env
      by (simp add: ios_unsetenv_pid_def posix_unsetenv_call_def outcome_environ posix_not_null)
  next
    case (3 n)
    from unsetenv_pid_eq [OF assms 3(3,2)] 3 show ?thesis
      by (auto intro!: outcome_put_env put_env_keeps [OF assms])
  qed
qed

text \<open>The search of \<^verbatim>\<open>ios_putenv\<close>, for any comparison.\<close>

lemma find_slot_any:
  "\<exists>idx. find_slot match (Some (map Str (pre @ ss) @ rest)) (length pre) (length ss) = Some idx \<and> idx < int (length pre + length ss)"
proof (induction ss arbitrary: pre)
  case (Cons s ss)
  from Cons.IH [of "pre @ [s]"] show ?case by (auto simp: slot_at_def nth_append)
qed simp

lemma find_slot_ends:
  assumes "slot_rep e k ss"
  shows "\<exists>idx. find_slot match e 0 k = Some idx \<and> (idx \<ge> 0 \<longrightarrow> nat idx < length ss)"
proof -
  obtain rest where e: "e = Some (map Str ss @ Null # rest)" "k = length ss" using assms by (rule slot_repE)
  then show ?thesis using find_slot_any [of match "[]" ss "Null # rest"] by (auto simp: nat_less_iff)
qed

definition bad_string :: "bool \<Rightarrow> string \<Rightarrow> bool" where
  "bad_string own s \<longleftrightarrow> eq_char \<notin> set s \<or> \<not> own \<and> hd s = eq_char"

lemma putenv_outcome:
  assumes "pt_inv t"
  shows "update_outcome (own_environment (pt_current_pid t self) t) (bad_string (own_environment (pt_current_pid t self) t) s) (ios_putenv self s t) t"
proof -
  let ?p = "pt_current_pid t self"
  note shape = pt_invD(1) [OF assms] and env = pt_invD(3) [OF assms]
  have cur: "in_table ?p" by (rule pt_invD(4) [OF assms])
  consider "eq_char \<notin> set s" | "eq_char \<in> set s" "pt_environment t ! nat ?p = None"
    | "eq_char \<in> set s" "pt_environment t ! nat ?p \<noteq> None" by blast
  then show ?thesis
  proof cases
    case 1
    then show ?thesis using assms shape cur outcome_bad
      by (auto simp: ios_putenv_def posix_putenv_call_def own_environment_def bad_string_def)
  next
    case 2
    then show ?thesis using assms shape cur env outcome_bad
      by (auto simp: ios_putenv_def posix_putenv_call_def outcome_environ posix_not_null own_environment_def bad_string_def)
  next
    case 3
    note rep = rep_proc_vars [OF assms cur 3(2)]
    obtain idx where idx: "find_slot (putenv_matches s) (pt_environment t ! nat ?p) 0 (pt_numVariablesSet t ! nat ?p) = Some idx"
      "idx \<ge> 0 \<Longrightarrow> nat idx < length (proc_vars t ?p)"
      using find_slot_ends [OF rep, of "putenv_matches s"] by blast
    have "\<exists>e k ss. (if idx \<ge> 0 then store_found ?p (nat idx) s t else store_new ?p s t) = Some (put_env ?p e k t) \<and> slot_rep e k ss"
    proof (cases "idx \<ge> 0")
      case True
      with store_found_eq [OF assms cur rep idx(2), of s] show ?thesis by auto
    next
      case False
      have "slot_rep (Some (map Str (proc_vars t ?p @ [s]) @ [Null])) (pt_numVariablesSet t ! nat ?p + 1) (proc_vars t ?p @ [s])"
        using rep by (intro slot_repI [of _ _ "[]"]) (auto simp: slot_rep_def)
      then show ?thesis using False store_new_eq [OF assms cur rep, of s] by auto
    qed
    then obtain e k ss where "(if idx \<ge> 0 then store_found ?p (nat idx) s t else store_new ?p s t) = Some (put_env ?p e k t)"
      "slot_rep e k ss" by blast
    then show ?thesis using 3 idx(1) shape cur put_env_keeps [OF assms cur]
      by (auto simp: ios_putenv_def outcome_put_env own_environment_def bad_string_def)
  qed
qed

section \<open>All operations\<close>

lemma completed_keeps: "keeps r \<Longrightarrow> \<exists>t'. completed r = Returns () t' \<and> pt_inv t'"
  by (auto simp: keeps_def completed_def)

lemma table_step_keeps:
  assumes "pt_inv t" and "op_allowed self op t" and "op \<noteq> Fork"
  shows "\<exists>t'. table_step cd self op t = Returns () t' \<and> pt_inv t'"
proof -
  have parent: "get_at (pt_previousPid t) (pt_current_pid t self) = Some (pt_previousPid t ! nat (pt_current_pid t self))"
    "in_table (pt_previousPid t ! nat (pt_current_pid t self))"
    using pt_invD(1,4) [OF assms(1)] pt_invD(5) [OF assms(1) pt_invD(4) [OF assms(1)]] by simp_all
  have pid: "in_table (op_pid op)" using assms(2) by (simp add: op_allowed_def)
  show ?thesis
  proof (cases op)
    case Make_local
    then show ?thesis using completed_keeps [OF make_local_keeps [OF assms(1)]] assms(2) by (simp add: op_allowed_def)
  qed (use assms(1,3) pid parent in \<open>auto simp: ios_setCurrentPid_def ios_setenv_parent_def ios_unsetenv_parent_def
      intro!: completed_keeps
      intro: store_thread_keeps release_threads_keep release_pid_keeps inv_set_current new_directory_keeps
        store_environment_keeps reset_and_clear_keep make_global_keeps
        outcome_keeps [OF setenv_outcome] outcome_keeps [OF unsetenv_outcome] outcome_keeps [OF putenv_outcome]\<close>)
qed

lemma table_step_Returns:
  assumes "pt_inv t" and "op_allowed self op t" and "table_step cd self op t = Returns () t'"
  shows "pt_inv t'"
proof (cases "op = Fork")
  case True
  then show ?thesis using fork_keeps [OF assms(1), of cd self] assms(3) by auto
next
  case False
  then show ?thesis using table_step_keeps [OF assms(1,2) False, of cd] assms(3) by auto
qed

text \<open>
  C18: The process table stays well formed. From a well-formed table, every table reached by completed calls of any threads is well formed: all arrays
  of their length, every process id a thread or a slot remembers inside the table, every environment an array of strings with its number and a null
  terminator. In such a table no allowed call faults (no access outside an array, no null or uninitialised pointer), and no call but a fork waits, which
  it does only while commands are ending or when no process id is free. Allowed are calls with indices in the table, and \<^verbatim>\<open>makeLocal\<close> when the array it brings
  back still has as many variables as the process.
\<close>

theorem process_table_stays_well_formed:
  assumes "pt_inv t0" and "table_reach cd t0 t"
  shows "pt_inv t \<and> (\<forall>self op. op_allowed self op t \<longrightarrow>
    (\<exists>t'. table_step cd self op t = Returns () t') \<or>
    op = Fork \<and> (\<exists>t'. table_step cd self op t = Blocked t') \<and>
      (pt_cleanup_counter t > 0 \<or> (\<forall>p. 0 < p \<and> in_table p \<longrightarrow> \<not> pid_free t p)))"
proof -
  from assms(2) have inv: "pt_inv t"
  proof (induction rule: table_reach.induct)
    case table_start
    then show ?case by (rule assms(1))
  next
    case (table_call t self op t')
    show ?case by (rule table_step_Returns [OF table_call(4,2,3)])
  qed
  moreover have "(\<exists>t'. table_step cd self op t = Returns () t') \<or> op = Fork \<and> (\<exists>t'. table_step cd self op t = Blocked t') \<and>
      (pt_cleanup_counter t > 0 \<or> (\<forall>p. 0 < p \<and> in_table p \<longrightarrow> \<not> pid_free t p))" if "op_allowed self op t" for self op
    using fork_keeps [OF inv, of cd self] table_step_keeps [OF inv that, of cd] by (cases "op = Fork") auto
  ultimately show ?thesis by blast
qed

text \<open>
  C33: The error behaviour of the environment calls. On a well-formed table \<^verbatim>\<open>ios_setenv_pid\<close> and \<^verbatim>\<open>ios_unsetenv_pid\<close> fail exactly
  for a name that is null, empty or has an equal sign, and \<^verbatim>\<open>ios_putenv\<close> exactly for a string without one, or, for a process without an environment of its own, for
  one that begins with it; they then return -1, set the error of the session, or for a process without an environment of its own that of the C library, to \<^verbatim>\<open>EINVAL\<close>
  and change nothing else. Otherwise they return 0 and leave both errors alone.
\<close>

theorem environment_updates_fail_for_bad_names:
  assumes "pt_inv t" and "in_table pid"
  shows "update_outcome (own_environment pid t) (bad_name name) (ios_setenv_pid name (Some v) ow pid t) t \<and>
    update_outcome (own_environment pid t) (bad_name name) (ios_unsetenv_pid name pid t) t \<and>
    update_outcome (own_environment (pt_current_pid t self) t) (bad_string (own_environment (pt_current_pid t self) t) s) (ios_putenv self s t) t"
  using setenv_outcome [OF assms] unsetenv_outcome [OF assms] putenv_outcome [OF assms(1)] by blast

theorem process_table_stays_well_formed_witness:
  "\<exists>t'. table_step (\<lambda>d cwd. d) 7 Fork start_table = Returns () t' \<and> table_reach (\<lambda>d cwd. d) start_table t' \<and> pt_inv t'"
proof -
  have "op_allowed 7 Fork start_table" by (simp add: op_allowed_def in_table_def IOS_MAX_THREADS_def)
  moreover have "pt_inv start_table \<and> (\<forall>self op. op_allowed self op start_table \<longrightarrow>
      (\<exists>t'. table_step (\<lambda>d cwd. d) self op start_table = Returns () t') \<or>
      op = Fork \<and> (\<exists>t'. table_step (\<lambda>d cwd. d) self op start_table = Blocked t') \<and>
        (pt_cleanup_counter start_table > 0 \<or> (\<forall>p. 0 < p \<and> in_table p \<longrightarrow> \<not> pid_free start_table p)))"
    by (rule process_table_stays_well_formed [OF start_table_facts(1) table_start])
  moreover have "\<not> pt_cleanup_counter start_table > 0" "pid_free start_table 1" "in_table 1"
    by (simp_all add: start_table_def initial_table_def pid_free_def in_table_def IOS_MAX_THREADS_def)
  ultimately obtain t' where t': "table_step (\<lambda>d cwd. d) 7 Fork start_table = Returns () t'" by force
  then have "table_reach (\<lambda>d cwd. d) start_table t'"
    using \<open>op_allowed 7 Fork start_table\<close> by (intro table_call [OF table_start])
  then show ?thesis using t' process_table_stays_well_formed [OF start_table_facts(1)] by blast
qed

theorem environment_updates_fail_for_bad_names_witness:
  "update_outcome True True (ios_setenv_pid (Some ''A=B'') (Some ''1'') True 1 forked_table) forked_table \<and>
    update_outcome True True (ios_unsetenv_pid (Some ''A=B'') 1 forked_table) forked_table \<and>
    update_outcome False True (ios_setenv_pid (Some ''A=B'') (Some ''1'') True 0 start_table) start_table"
proof -
  have "own_environment 1 forked_table" "\<not> own_environment 0 start_table" "in_table 0"
    using forked_table_facts by (simp_all add: own_environment_def start_table_def initial_table_def in_table_def IOS_MAX_THREADS_def)
  then show ?thesis
    using environment_updates_fail_for_bad_names [OF forked_table_facts(1) one_in_table(1), of "Some ''A=B''" "''1''" True 7 "''A''"]
      environment_updates_fail_for_bad_names [OF start_table_facts(1), of 0 "Some ''A=B''" "''1''" True 7 "''A''"]
    by (simp add: bad_name_def eq_char_def valid_name_def)
qed

section \<open>Boundary behaviour\<close>

text \<open>
  A process with an environment of its own accepts a string without a name, which the C library refuses.
\<close>

lemma putenv_accepts_empty_name:
  assumes "pt_inv t" "own_environment (pt_current_pid t self) t" "eq_char \<in> set s" "hd s = eq_char"
  shows "update_outcome True False (ios_putenv self s t) t"
  using putenv_outcome [OF assms(1), of self s] assms by (simp add: bad_string_def)

end
