(* ===== verification/Libc_IO.thy ===== *)
theory Libc_IO
  imports Prelude "HOL-Library.Monad_Syntax"
begin

text \<open>
  The input and output calls of \<^verbatim>\<open>libc_replacement.c\<close>: sleeping, waiting for a descriptor, reading
  and writing, \<^verbatim>\<open>select\<close> and \<^verbatim>\<open>poll\<close>, the stdio functions redirected to the streams of the
  thread, and the messages of the \<^verbatim>\<open>err\<close> family. All of them can be interrupted by the
  cancellation of the session.

  The system calls they wrap are parameters. A loop around a blocking call takes the list of the
  answers the system gives in its rounds, together with what the cancellation flag is when the
  code reads it again; a loop that has used up the answers is still waiting, the value \<open>None\<close>.
\<close>

unbundle bit_operations_syntax

section \<open>Sleeping\<close>

definition INT_MAX :: int where
  "INT_MAX = 2147483647"

text \<open>The conversion of a \<^verbatim>\<open>long long\<close> to \<^verbatim>\<open>int\<close>, which keeps the low 32 bits.\<close>

definition int_cast :: "int \<Rightarrow> int" where
  "int_cast x = (x + 2 ^ 31) mod 2 ^ 32 - 2 ^ 31"

text \<open>
  What the session and the system answer to one wait: whether the session is cancelled, the
  descriptor that signals a cancellation, and the result of \<^verbatim>\<open>poll\<close> for a timeout.
\<close>

record wait_env =
  we_cancelled :: bool
  we_cancel_fd :: int
  we_poll :: "int \<Rightarrow> int sysret"

definition ios_wait_for_cancel_or_timeout_ms :: "wait_env \<Rightarrow> int \<Rightarrow> int sysret" where
  "ios_wait_for_cancel_or_timeout_ms w timeout_ms =
     (if we_cancelled w then (- 1, Some EINTR)
      else if we_cancel_fd w < 0 then we_poll w timeout_ms
      else if fst (we_poll w timeout_ms) \<le> 0 then we_poll w timeout_ms
      else (- 1, Some EINTR))"

definition ios_timespec_subtract :: "timespec \<Rightarrow> timespec \<Rightarrow> timespec" where
  "ios_timespec_subtract lhs rhs =
     (let s = tv_sec lhs - tv_sec rhs; ns = tv_nsec lhs - tv_nsec rhs;
          s1 = (if ns < 0 then s - 1 else s); ns1 = (if ns < 0 then ns + 1000000000 else ns)
      in if s1 < 0 then \<lparr>tv_sec = 0, tv_nsec = 0\<rparr> else \<lparr>tv_sec = s1, tv_nsec = ns1\<rparr>)"

definition ios_timespec_is_zero :: "timespec \<Rightarrow> bool" where
  "ios_timespec_is_zero v \<longleftrightarrow> tv_sec v = 0 \<and> tv_nsec v = 0"

definition sleep_timeout :: "timespec \<Rightarrow> int" where
  "sleep_timeout remaining =
     (if tv_sec remaining > c_div INT_MAX 1000 then INT_MAX
      else let ms = tv_sec remaining * 1000 + c_div (tv_nsec remaining + 999999) 1000000
           in if ms \<le> 0 then 1 else int_cast ms)"

text \<open>One round of the sleeping loop: the clock before, the wait, the clock after.\<close>

record sleep_round =
  sr_before :: "timespec option"
  sr_wait :: wait_env
  sr_after :: "timespec option"

text \<open>The result and what is stored through \<^verbatim>\<open>rmtp\<close>; \<open>e\<close> is the error of the clock call.\<close>

fun nanosleep_loop :: "errno \<Rightarrow> sleep_round list \<Rightarrow> timespec \<Rightarrow> (int sysret \<times> timespec) option" where
  "nanosleep_loop e rs remaining =
     (if ios_timespec_is_zero remaining then Some ((0, None), \<lparr>tv_sec = 0, tv_nsec = 0\<rparr>)
      else case rs of
        [] \<Rightarrow> None
      | r # rs' \<Rightarrow>
          (case sr_before r of
             None \<Rightarrow> Some ((- 1, Some e), remaining)
           | Some before \<Rightarrow>
               let w = ios_wait_for_cancel_or_timeout_ms (sr_wait r) (sleep_timeout remaining) in
               if fst w < 0 then
                 Some ((- 1, snd w),
                   case sr_after r of None \<Rightarrow> remaining
                   | Some after \<Rightarrow> ios_timespec_subtract remaining (ios_timespec_subtract after before))
               else (case sr_after r of
                   None \<Rightarrow> Some ((0, None), \<lparr>tv_sec = 0, tv_nsec = 0\<rparr>)
                 | Some after \<Rightarrow>
                     nanosleep_loop e rs' (ios_timespec_subtract remaining (ios_timespec_subtract after before)))))"

definition ios_nanosleep_internal ::
  "errno \<Rightarrow> sleep_round list \<Rightarrow> timespec option \<Rightarrow> (int sysret \<times> timespec option) option" where
  "ios_nanosleep_internal e rs rqtp =
     (case rqtp of
        None \<Rightarrow> Some ((- 1, Some EINVAL), None)
      | Some req \<Rightarrow>
          if tv_sec req < 0 \<or> tv_nsec req < 0 \<or> tv_nsec req \<ge> 1000000000
          then Some ((- 1, Some EINVAL), None)
          else map_option (\<lambda>(r, rm). (r, Some rm)) (nanosleep_loop e rs req))"

text \<open>The seconds left; with \<^verbatim>\<open>tv_sec\<close> and 1 for a fraction, as a 32-bit unsigned number.\<close>

definition ios_sleep :: "errno \<Rightarrow> sleep_round list \<Rightarrow> u32 \<Rightarrow> u32 option" where
  "ios_sleep e rs seconds =
     (case ios_nanosleep_internal e rs (Some \<lparr>tv_sec = uint seconds, tv_nsec = 0\<rparr>) of
        None \<Rightarrow> None
      | Some ((r, _), rm) \<Rightarrow>
          if r = 0 then Some 0
          else (case rm of
                  None \<Rightarrow> None
                | Some x \<Rightarrow> Some (word_of_int (tv_sec x + (if tv_nsec x \<noteq> 0 then 1 else 0)))))"

definition ios_usleep :: "errno \<Rightarrow> sleep_round list \<Rightarrow> u32 \<Rightarrow> int sysret option" where
  "ios_usleep e rs usec =
     map_option fst (ios_nanosleep_internal e rs
       (Some \<lparr>tv_sec = uint (usec div 1000000), tv_nsec = uint (usec mod 1000000) * 1000\<rparr>))"

definition ios_nanosleep ::
  "errno \<Rightarrow> sleep_round list \<Rightarrow> timespec option \<Rightarrow> (int sysret \<times> timespec option) option" where
  "ios_nanosleep e rs rqtp = ios_nanosleep_internal e rs rqtp"

section \<open>Waiting for a descriptor\<close>

definition POLLNVAL :: "16 word" where
  "POLLNVAL = 0x20"

text \<open>
  One round of \<^verbatim>\<open>poll\<close> on the descriptor and the cancellation descriptor: its result, the two
  \<^verbatim>\<open>revents\<close>, and whether the session is cancelled when the code looks after an error.
\<close>

record poll_round =
  pr_result :: "int sysret"
  pr_fd_revents :: "16 word"
  pr_cancel_revents :: "16 word"
  pr_cancelled :: bool

fun wait_fd_loop :: "poll_round list \<Rightarrow> int sysret option" where
  "wait_fd_loop [] = None"
| "wait_fd_loop (r # rs) =
     (if fst (pr_result r) < 0 then
        if snd (pr_result r) = Some EINTR \<and> \<not> pr_cancelled r then wait_fd_loop rs
        else Some (- 1, snd (pr_result r))
      else if fst (pr_result r) = 0 then Some (0, None)
      else if pr_cancel_revents r \<noteq> 0 then Some (- 1, Some EINTR)
      else if pr_fd_revents r AND POLLNVAL \<noteq> 0 then Some (- 1, Some EBADF)
      else Some (0, None))"

definition ios_wait_for_fd_or_cancel :: "bool \<Rightarrow> int \<Rightarrow> poll_round list \<Rightarrow> int \<Rightarrow> int sysret option" where
  "ios_wait_for_fd_or_cancel cancelled cancel_fd rs fd =
     (if fd < 0 then Some (- 1, Some EBADF)
      else if cancelled then Some (- 1, Some EINTR)
      else if cancel_fd < 0 \<or> cancel_fd = fd then Some (0, None)
      else wait_fd_loop rs)"

text \<open>
  One round of the reading loop: the result of \<^verbatim>\<open>read\<close>, the flag after it, and the wait that
  precedes the next round, as the arguments of \<^verbatim>\<open>ios_wait_for_fd_or_cancel\<close>.
\<close>

record read_round =
  rr_result :: "int sysret"
  rr_cancelled :: bool
  rr_wait :: "bool \<times> int \<times> poll_round list"

fun read_fd_loop :: "bool \<Rightarrow> int \<Rightarrow> read_round list \<Rightarrow> int sysret option" where
  "read_fd_loop is_nonblocking fd [] = None"
| "read_fd_loop is_nonblocking fd (r # rs) =
     (if fst (rr_result r) < 0 \<and> snd (rr_result r) = Some EINTR \<and> \<not> rr_cancelled r then
        if is_nonblocking then read_fd_loop is_nonblocking fd rs
        else (case rr_wait r of
                (c, cfd, ps) \<Rightarrow>
                  (case ios_wait_for_fd_or_cancel c cfd ps fd of
                     None \<Rightarrow> None
                   | Some w \<Rightarrow> if fst w < 0 then Some (- 1, snd w) else read_fd_loop is_nonblocking fd rs))
      else Some (rr_result r))"

text \<open>
  \<open>stdin_fd\<close> is the descriptor of \<^verbatim>\<open>thread_stdin\<close> after it was defaulted, \<open>nonblocking\<close> tells
  of a descriptor what \<^verbatim>\<open>fcntl\<close> says, \<open>first\<close> are the arguments of the first wait.
\<close>

definition ios_read ::
  "bool \<Rightarrow> int \<Rightarrow> (int \<Rightarrow> bool) \<Rightarrow> bool \<times> int \<times> poll_round list \<Rightarrow> read_round list \<Rightarrow> int \<Rightarrow> int sysret option" where
  "ios_read cancelled stdin_fd nonblocking first rs fildes =
     (let fd = (if fildes = 0 then stdin_fd else fildes) in
      if cancelled then Some (- 1, Some EINTR)
      else if nonblocking fd then read_fd_loop True fd rs
      else (case first of
              (c, cfd, ps) \<Rightarrow>
                (case ios_wait_for_fd_or_cancel c cfd ps fd of
                   None \<Rightarrow> None
                 | Some w \<Rightarrow> if fst w < 0 then Some (- 1, snd w) else read_fd_loop False fd rs)))"

section \<open>\<open>select\<close> and \<open>poll\<close>\<close>

type_synonym fd_set = "int set"

definition FD_SETSIZE :: int where
  "FD_SETSIZE = 1024"

text \<open>
  A \<^verbatim>\<open>select\<close> system call: the number of descriptors and the three sets, a null pointer being
  \<open>None\<close>; the result and the sets as the call leaves them.
\<close>

type_synonym select_call =
  "int \<Rightarrow> fd_set option \<Rightarrow> fd_set option \<Rightarrow> fd_set option \<Rightarrow>
   int sysret \<times> fd_set option \<times> fd_set option \<times> fd_set option"

definition ios_select :: "select_call \<Rightarrow> bool \<Rightarrow> int \<Rightarrow> select_call" where
  "ios_select select cancelled cancel_fd nfds readfds writefds errorfds =
     (if cancelled then ((- 1, Some EINTR), readfds, writefds, errorfds)
      else if cancel_fd < 0 \<or> cancel_fd \<ge> FD_SETSIZE then select nfds readfds writefds errorfds
      else
        let caller_watched_cancel_fd = (case readfds of None \<Rightarrow> False | Some s \<Rightarrow> cancel_fd \<in> s);
            local_readfds = insert cancel_fd (case readfds of None \<Rightarrow> {} | Some s \<Rightarrow> s);
            effective_nfds = (if cancel_fd \<ge> nfds then cancel_fd + 1 else nfds)
        in case select effective_nfds (Some local_readfds) writefds errorfds of
             (result, local1, w, e) \<Rightarrow>
               if fst result \<le> 0 then (result, readfds, w, e)
               else if cancel_fd \<in> the local1 then ((- 1, Some EINTR), readfds, w, e)
               else (result,
                     map_option (\<lambda>_. if caller_watched_cancel_fd then the local1 else the local1 - {cancel_fd}) readfds,
                     w, e))"

text \<open>\<^verbatim>\<open>ios_pselect\<close> has the same body around \<^verbatim>\<open>pselect\<close>; its signal mask is part of the call.\<close>

definition ios_pselect :: "select_call \<Rightarrow> bool \<Rightarrow> int \<Rightarrow> select_call" where
  "ios_pselect pselect cancelled cancel_fd nfds readfds writefds errorfds =
     (if cancelled then ((- 1, Some EINTR), readfds, writefds, errorfds)
      else if cancel_fd < 0 \<or> cancel_fd \<ge> FD_SETSIZE then pselect nfds readfds writefds errorfds
      else
        let caller_watched_cancel_fd = (case readfds of None \<Rightarrow> False | Some s \<Rightarrow> cancel_fd \<in> s);
            local_readfds = insert cancel_fd (case readfds of None \<Rightarrow> {} | Some s \<Rightarrow> s);
            effective_nfds = (if cancel_fd \<ge> nfds then cancel_fd + 1 else nfds)
        in case pselect effective_nfds (Some local_readfds) writefds errorfds of
             (result, local1, w, e) \<Rightarrow>
               if fst result \<le> 0 then (result, readfds, w, e)
               else if cancel_fd \<in> the local1 then ((- 1, Some EINTR), readfds, w, e)
               else (result,
                     map_option (\<lambda>_. if caller_watched_cancel_fd then the local1 else the local1 - {cancel_fd}) readfds,
                     w, e))"

record pollfd =
  pf_fd :: int
  pf_events :: "16 word"
  pf_revents :: "16 word"

definition POLL_CANCEL_EVENTS :: "16 word" where
  "POLL_CANCEL_EVENTS = 0x19"

type_synonym poll_call = "pollfd list \<Rightarrow> int sysret \<times> pollfd list"

text \<open>
  \<open>malloc_ok\<close> tells whether the array for more than 64 descriptors can be allocated. The timeout
  is part of the call.
\<close>

definition ios_poll :: "poll_call \<Rightarrow> bool \<Rightarrow> bool \<Rightarrow> int \<Rightarrow> poll_call" where
  "ios_poll poll malloc_ok cancelled cancel_fd fds =
     (if cancelled then ((- 1, Some EINTR), fds)
      else if cancel_fd < 0 then poll fds
      else if length fds + 1 > 65 \<and> (length fds + 1 > (2 ^ 64 - 1) div 8 \<or> \<not> malloc_ok) then ((- 1, Some ENOMEM), fds)
      else
        let local_fds = map (\<lambda>p. p\<lparr>pf_revents := 0\<rparr>) fds @
              [\<lparr>pf_fd = cancel_fd, pf_events = POLL_CANCEL_EVENTS, pf_revents = 0\<rparr>]
        in case poll local_fds of
             (result, local1) \<Rightarrow>
               if fst result \<le> 0 then (result, fds)
               else if pf_revents (local1 ! length fds) \<noteq> 0 then ((- 1, Some EINTR), fds)
               else (result, map (\<lambda>i. (fds ! i)\<lparr>pf_revents := pf_revents (local1 ! i)\<rparr>) [0..<length fds]))"

section \<open>Streams\<close>

text \<open>A \<^verbatim>\<open>FILE\<close>: its descriptor and the input it has buffered, the \<^verbatim>\<open>_r\<close> bytes at \<^verbatim>\<open>_p\<close>.\<close>

record FILE =
  fl_fd :: int
  fl_buf :: string

text \<open>
  The streams of the thread and of the process, the cancellation flag and \<^verbatim>\<open>errno\<close>, and
  everything written so far, with the descriptor it went to.
\<close>

record stdio_state =
  st_cancelled :: bool
  st_errno :: "errno option"
  st_thread_stdin :: "FILE option"
  st_thread_stdout :: "FILE option"
  st_thread_stderr :: "FILE option"
  st_stdin :: FILE
  st_stdout :: FILE
  st_stderr :: FILE
  st_output :: "(int \<times> string) list"

definition EOF :: int where
  "EOF = - 1"

definition STDOUT_FILENO :: int where "STDOUT_FILENO = 1"
definition STDERR_FILENO :: int where "STDERR_FILENO = 2"

definition default_stdin :: "stdio_state \<Rightarrow> stdio_state" where
  "default_stdin st = (if st_thread_stdin st = None then st\<lparr>st_thread_stdin := Some (st_stdin st)\<rparr> else st)"

definition default_stdout :: "stdio_state \<Rightarrow> stdio_state" where
  "default_stdout st = (if st_thread_stdout st = None then st\<lparr>st_thread_stdout := Some (st_stdout st)\<rparr> else st)"

definition default_stderr :: "stdio_state \<Rightarrow> stdio_state" where
  "default_stderr st = (if st_thread_stderr st = None then st\<lparr>st_thread_stderr := Some (st_stderr st)\<rparr> else st)"

definition ios_stream_buffered_input :: "FILE option \<Rightarrow> nat" where
  "ios_stream_buffered_input stream = (case stream of None \<Rightarrow> 0 | Some f \<Rightarrow> length (fl_buf f))"

definition newline :: char where
  "newline = CHR 0x0A"

definition ios_fgets_satisfied_by_buffer :: "FILE \<Rightarrow> int \<Rightarrow> bool" where
  "ios_fgets_satisfied_by_buffer f sz =
     (let buffered = ios_stream_buffered_input (Some f) in
      if sz \<le> 1 then True
      else if int buffered \<ge> sz - 1 then True
      else if buffered = 0 then False
      else newline \<in> set (fl_buf f))"

definition ios_should_abort_stdio_write :: "FILE option \<Rightarrow> stdio_state \<Rightarrow> bool \<times> stdio_state" where
  "ios_should_abort_stdio_write stream st =
     (case stream of
        None \<Rightarrow> (False, st)
      | Some f \<Rightarrow>
          if \<not> st_cancelled st then (False, st)
          else if (case st_thread_stdout st of None \<Rightarrow> False | Some g \<Rightarrow> fl_fd f = fl_fd g)
          then (True, st\<lparr>st_errno := Some EINTR\<rparr>)
          else if fl_fd f = STDOUT_FILENO then (True, st\<lparr>st_errno := Some EINTR\<rparr>)
          else (False, st))"

text \<open>
  A library function that writes to a stream: \<open>ret\<close> is its result, \<open>text\<close> what arrives there. A
  null stream is a fault.
\<close>

definition emit :: "(FILE \<Rightarrow> int) \<Rightarrow> string \<Rightarrow> FILE option \<Rightarrow> stdio_state \<Rightarrow> (int \<times> stdio_state) option" where
  "emit ret text stream st =
     (case stream of None \<Rightarrow> None
      | Some f \<Rightarrow> Some (ret f, st\<lparr>st_output := st_output st @ [(fl_fd f, text)]\<rparr>))"

text \<open>Output for the standard streams goes to those of the thread.\<close>

definition redirect :: "FILE \<Rightarrow> stdio_state \<Rightarrow> FILE option" where
  "redirect f st =
     (if fl_fd f = STDOUT_FILENO then st_thread_stdout st
      else if fl_fd f = STDERR_FILENO then st_thread_stderr st
      else Some f)"

definition printf :: "(FILE \<Rightarrow> int) \<Rightarrow> string \<Rightarrow> stdio_state \<Rightarrow> (int \<times> stdio_state) option" where
  "printf ret text st =
     (if st_cancelled st then Some (- 1, st\<lparr>st_errno := Some EINTR\<rparr>)
      else emit ret text (st_thread_stdout st) st)"

definition fprintf :: "(FILE \<Rightarrow> int) \<Rightarrow> FILE option \<Rightarrow> string \<Rightarrow> stdio_state \<Rightarrow> (int \<times> stdio_state) option" where
  "fprintf ret stream text st =
     (case ios_should_abort_stdio_write stream (default_stdout (default_stderr st)) of
        (True, st1) \<Rightarrow> Some (- 1, st1)
      | (False, st1) \<Rightarrow> do { f \<leftarrow> stream; emit ret text (redirect f st1) st1 })"

text \<open>The arguments of the wait for input, as in \<^verbatim>\<open>ios_read\<close>.\<close>

definition wait_input :: "bool \<times> int \<times> poll_round list \<Rightarrow> FILE \<Rightarrow> int sysret option" where
  "wait_input w f = (case w of (c, cfd, ps) \<Rightarrow> ios_wait_for_fd_or_cancel c cfd ps (fl_fd f))"

text \<open>The input functions return \<open>None\<close> while they are still waiting.\<close>

definition scanf ::
  "(FILE \<Rightarrow> int) \<Rightarrow> bool \<times> int \<times> poll_round list \<Rightarrow> stdio_state \<Rightarrow> (int \<times> stdio_state) option" where
  "scanf vfscanf w st =
     (let st1 = default_stdin (default_stdout (default_stderr st)); f = the (st_thread_stdin st1) in
      case wait_input w f of
        None \<Rightarrow> None
      | Some r \<Rightarrow> if fst r < 0 then Some (EOF, st1\<lparr>st_errno := snd r\<rparr>) else Some (vfscanf f, st1))"

definition ios_fflush :: "(FILE option \<Rightarrow> int) \<Rightarrow> FILE option \<Rightarrow> stdio_state \<Rightarrow> int \<times> stdio_state" where
  "ios_fflush fflush stream st =
     (case stream of
        None \<Rightarrow> (0, st)
      | Some f \<Rightarrow> let st1 = default_stderr (default_stdout st) in (fflush (redirect f st1), st1))"

definition ios_write :: "(int \<Rightarrow> int) \<Rightarrow> int \<Rightarrow> string \<Rightarrow> stdio_state \<Rightarrow> int \<times> stdio_state" where
  "ios_write write fildes buf st =
     (if st_cancelled st \<and> (fildes = STDOUT_FILENO \<or>
         (case st_thread_stdout st of None \<Rightarrow> False | Some g \<Rightarrow> fildes = fl_fd g))
      then (- 1, st\<lparr>st_errno := Some EINTR\<rparr>)
      else let st1 = default_stderr (default_stdout st);
               fd = (if fildes = STDOUT_FILENO then fl_fd (the (st_thread_stdout st1))
                     else if fildes = STDERR_FILENO then fl_fd (the (st_thread_stderr st1))
                     else fildes)
           in (write fd, st1\<lparr>st_output := st_output st1 @ [(fd, buf)]\<rparr>))"

text \<open>The common shape of the stdio writers: \<open>fail\<close> is what they return on a cancellation.\<close>

definition write_stream ::
  "int \<Rightarrow> (FILE \<Rightarrow> int) \<Rightarrow> FILE option \<Rightarrow> string \<Rightarrow> stdio_state \<Rightarrow> (int \<times> stdio_state) option" where
  "write_stream fail ret stream text st =
     (case ios_should_abort_stdio_write stream st of
        (True, st1) \<Rightarrow> Some (fail, st1)
      | (False, st1) \<Rightarrow>
          let st2 = default_stderr (default_stdout st1) in do { f \<leftarrow> stream; emit ret text (redirect f st2) st2 })"

definition ios_fwrite :: "(FILE \<Rightarrow> int) \<Rightarrow> FILE option \<Rightarrow> string \<Rightarrow> stdio_state \<Rightarrow> (int \<times> stdio_state) option" where
  "ios_fwrite ret stream bytes st = write_stream 0 ret stream bytes st"

definition ios_fputs :: "(FILE \<Rightarrow> int) \<Rightarrow> string \<Rightarrow> FILE option \<Rightarrow> stdio_state \<Rightarrow> (int \<times> stdio_state) option" where
  "ios_fputs ret s stream st = write_stream EOF ret stream s st"

definition ios_fputc :: "(FILE \<Rightarrow> int) \<Rightarrow> char \<Rightarrow> FILE option \<Rightarrow> stdio_state \<Rightarrow> (int \<times> stdio_state) option" where
  "ios_fputc ret c stream st = write_stream EOF ret stream [c] st"

text \<open>The four bytes of an \<^verbatim>\<open>int\<close>.\<close>

definition ios_putw :: "(FILE \<Rightarrow> int) \<Rightarrow> string \<Rightarrow> FILE option \<Rightarrow> stdio_state \<Rightarrow> (int \<times> stdio_state) option" where
  "ios_putw ret word_bytes stream st = write_stream EOF ret stream word_bytes st"

definition ios_puts :: "(FILE \<Rightarrow> int) \<Rightarrow> string \<Rightarrow> stdio_state \<Rightarrow> (int \<times> stdio_state) option" where
  "ios_puts ret s st =
     (let st1 = default_stdout st in
      if st_cancelled st1 then Some (EOF, st1\<lparr>st_errno := Some EINTR\<rparr>)
      else do { (r, st2) \<leftarrow> emit ret s (st_thread_stdout st1) st1;
                (_, st3) \<leftarrow> emit (\<lambda>_. 0) [newline] (st_thread_stdout st2) st2;
                Some (r, st3) })"

definition SIZE_MAX :: u64 where
  "SIZE_MAX = - 1"

definition fread_requested :: "u64 \<Rightarrow> u64 \<Rightarrow> u64" where
  "fread_requested sz nitems =
     (if sz \<noteq> 0 \<and> nitems > SIZE_MAX div sz then SIZE_MAX else sz * nitems)"

text \<open>\<open>fread\<close> is what the library call returns once it is made.\<close>

definition ios_fread ::
  "(FILE \<Rightarrow> nat) \<Rightarrow> bool \<times> int \<times> poll_round list \<Rightarrow> u64 \<Rightarrow> u64 \<Rightarrow> FILE option \<Rightarrow> stdio_state \<Rightarrow>
   (nat \<times> stdio_state) option" where
  "ios_fread fread w sz nitems stream st =
     (case stream of
        None \<Rightarrow> Some (0, st\<lparr>st_errno := Some EINVAL\<rparr>)
      | Some f \<Rightarrow>
          if st_cancelled st then Some (0, st\<lparr>st_errno := Some EINTR\<rparr>)
          else if ios_stream_buffered_input stream < unat (fread_requested sz nitems)
          then (case wait_input w f of
                  None \<Rightarrow> None
                | Some r \<Rightarrow> if fst r < 0 then Some (0, st\<lparr>st_errno := snd r\<rparr>) else Some (fread f, st))
          else Some (fread f, st))"

definition ios_fgetc ::
  "(FILE \<Rightarrow> int) \<Rightarrow> bool \<times> int \<times> poll_round list \<Rightarrow> FILE option \<Rightarrow> stdio_state \<Rightarrow> (int \<times> stdio_state) option" where
  "ios_fgetc fgetc w stream st =
     (case stream of
        None \<Rightarrow> Some (EOF, st\<lparr>st_errno := Some EINVAL\<rparr>)
      | Some f \<Rightarrow>
          if st_cancelled st then Some (EOF, st\<lparr>st_errno := Some EINTR\<rparr>)
          else if ios_stream_buffered_input stream = 0
          then (case wait_input w f of
                  None \<Rightarrow> None
                | Some r \<Rightarrow> if fst r < 0 then Some (EOF, st\<lparr>st_errno := snd r\<rparr>) else Some (fgetc f, st))
          else Some (fgetc f, st))"

definition ios_fgets ::
  "(FILE \<Rightarrow> string option) \<Rightarrow> bool \<times> int \<times> poll_round list \<Rightarrow> int \<Rightarrow> FILE option \<Rightarrow> stdio_state \<Rightarrow>
   (string option \<times> stdio_state) option" where
  "ios_fgets fgets w sz stream st =
     (case stream of
        None \<Rightarrow> Some (None, st\<lparr>st_errno := Some EINVAL\<rparr>)
      | Some f \<Rightarrow>
          if st_cancelled st then Some (None, st\<lparr>st_errno := Some EINTR\<rparr>)
          else if \<not> ios_fgets_satisfied_by_buffer f sz
          then (case wait_input w f of
                  None \<Rightarrow> None
                | Some r \<Rightarrow> if fst r < 0 then Some (None, st\<lparr>st_errno := snd r\<rparr>) else Some (fgets f, st))
          else Some (fgets f, st))"

section \<open>Messages\<close>

text \<open>
  The text the functions write to the error stream of the thread. \<open>prog\<close> is \<^verbatim>\<open>ios_progname()\<close>,
  \<open>msg\<close> the formatted message or \<open>None\<close> for a null format, \<open>strerror\<close> the text of an error
  number. The \<^verbatim>\<open>err\<close> functions end with \<^verbatim>\<open>ios_exit\<close>, with the status that comes with the text.
\<close>

definition vwarn :: "string \<Rightarrow> (int \<Rightarrow> string) \<Rightarrow> int \<Rightarrow> string option \<Rightarrow> string" where
  "vwarn prog strerror errnum msg =
     prog @ (case msg of None \<Rightarrow> [] | Some m \<Rightarrow> '': '' @ m) @ '': '' @ strerror errnum @ [newline]"

definition vwarnx :: "string \<Rightarrow> string option \<Rightarrow> string" where
  "vwarnx prog msg = prog @ '': '' @ (case msg of None \<Rightarrow> [] | Some m \<Rightarrow> m) @ [newline]"

definition err :: "string \<Rightarrow> (int \<Rightarrow> string) \<Rightarrow> int \<Rightarrow> int \<Rightarrow> string option \<Rightarrow> string \<times> int" where
  "err prog strerror errnum eval msg =
     (case msg of None \<Rightarrow> [] | Some m \<Rightarrow> vwarn prog strerror errnum (Some m), eval)"

definition errc :: "string \<Rightarrow> (int \<Rightarrow> string) \<Rightarrow> int \<Rightarrow> int \<Rightarrow> string option \<Rightarrow> string \<times> int" where
  "errc prog strerror eval errorcode msg =
     (case msg of None \<Rightarrow> [] | Some m \<Rightarrow> prog @ '': '' @ m @ '': '' @ strerror errorcode @ [newline], eval)"

definition errx :: "string \<Rightarrow> int \<Rightarrow> string option \<Rightarrow> string \<times> int" where
  "errx prog eval msg = (case msg of None \<Rightarrow> [] | Some m \<Rightarrow> vwarnx prog (Some m), eval)"

definition warn :: "string \<Rightarrow> (int \<Rightarrow> string) \<Rightarrow> int \<Rightarrow> string option \<Rightarrow> string" where
  "warn prog strerror errnum msg = (case msg of None \<Rightarrow> [] | Some m \<Rightarrow> vwarn prog strerror errnum (Some m))"

definition warnx :: "string \<Rightarrow> string option \<Rightarrow> string" where
  "warnx prog msg = (case msg of None \<Rightarrow> [] | Some m \<Rightarrow> vwarnx prog (Some m))"

definition warnc :: "string \<Rightarrow> (int \<Rightarrow> string) \<Rightarrow> int \<Rightarrow> int \<Rightarrow> string option \<Rightarrow> string" where
  "warnc prog strerror errnum code msg =
     prog @ (case msg of None \<Rightarrow> [] | Some m \<Rightarrow> '': '' @ m @ vwarn prog strerror errnum (Some m)) @
     '': '' @ strerror code @ [newline]"

section \<open>Time\<close>

lemma timespec_subtract_ns:
  assumes "ts_normal a" and "ts_normal b"
  shows "ts_ns (ios_timespec_subtract a b) = max 0 (ts_ns a - ts_ns b)"
    and "ts_normal (ios_timespec_subtract a b)" and "0 \<le> tv_sec (ios_timespec_subtract a b)"
  using assms by (auto simp: ios_timespec_subtract_def Let_def ts_ns_def ts_normal_def max_def)

lemma timespec_zero: "ts_normal v \<Longrightarrow> 0 \<le> tv_sec v \<Longrightarrow> ios_timespec_is_zero v \<longleftrightarrow> ts_ns v = 0"
  by (auto simp: ios_timespec_is_zero_def ts_ns_def ts_normal_def add_nonneg_eq_0_iff)

text \<open>The time a round took, when both readings of the clock succeeded.\<close>

definition round_ok :: "sleep_round \<Rightarrow> bool" where
  "round_ok r \<longleftrightarrow> (case (sr_before r, sr_after r) of (Some b, Some a) \<Rightarrow> ts_normal b \<and> ts_normal a | _ \<Rightarrow> False)"

definition round_ns :: "sleep_round \<Rightarrow> int" where
  "round_ns r = max 0 (ts_ns (the (sr_after r)) - ts_ns (the (sr_before r)))"

definition round_interrupted :: "sleep_round \<Rightarrow> timespec \<Rightarrow> bool" where
  "round_interrupted r remaining \<longleftrightarrow>
     fst (ios_wait_for_cancel_or_timeout_ms (sr_wait r) (sleep_timeout remaining)) < 0"

lemma max_max_diff: "0 \<le> b \<Longrightarrow> max 0 (max 0 (a - b) - c) = max 0 (a - (b + c))" if "0 \<le> c" for a b c :: int
  using that by (simp add: max_def)

lemma nanosleep_loop_spec:
  assumes "nanosleep_loop e rs rem = Some (res, rm)" and "\<forall>r \<in> set rs. round_ok r"
    and "ts_normal rem" and "0 \<le> tv_sec rem"
  shows "\<exists>k \<le> length rs. ts_ns rm = max 0 (ts_ns rem - sum_list (map round_ns (take k rs))) \<and>
    (if fst res = 0 then ts_ns rem \<le> sum_list (map round_ns (take k rs)) else fst res = - 1)"
  using assms
proof (induction rs arbitrary: rem)
  case Nil
  then show ?case by (auto simp: timespec_zero ts_ns_def split: if_splits)
next
  case (Cons r rs)
  show ?case
  proof (cases "ios_timespec_is_zero rem")
    case True
    with Cons.prems show ?thesis by (intro exI [of _ 0]) (auto simp: timespec_zero ts_ns_def)
  next
    case False
    obtain b a where ba: "sr_before r = Some b" "sr_after r = Some a" "ts_normal a" "ts_normal b"
      using Cons.prems(2) by (auto simp: round_ok_def split: option.splits)
    let ?rem = "ios_timespec_subtract rem (ios_timespec_subtract a b)"
    have sub: "ts_ns ?rem = max 0 (ts_ns rem - round_ns r)" "ts_normal ?rem" "0 \<le> tv_sec ?rem"
      using timespec_subtract_ns [OF ba(3,4)] timespec_subtract_ns [OF Cons.prems(3), of "ios_timespec_subtract a b"] ba
      by (simp_all add: round_ns_def)
    show ?thesis
    proof (cases "round_interrupted r rem")
      case True
      with Cons.prems False ba have "rm = ?rem" "fst res = - 1"
        by (auto simp: round_interrupted_def Let_def split: option.splits)
      with sub show ?thesis by (intro exI [of _ 1]) simp
    next
      case int: False
      with Cons.prems False ba have "nanosleep_loop e rs ?rem = Some (res, rm)"
        by (simp add: round_interrupted_def Let_def)
      from Cons.IH [OF this _ sub(2,3)] Cons.prems(2) obtain k where
        k: "k \<le> length rs" "ts_ns rm = max 0 (ts_ns ?rem - sum_list (map round_ns (take k rs)))"
          "if fst res = 0 then ts_ns ?rem \<le> sum_list (map round_ns (take k rs)) else fst res = - 1" by auto
      have nn: "0 \<le> round_ns r" "0 \<le> sum_list (map round_ns (take k rs))"
        by (auto simp: round_ns_def intro!: sum_list_nonneg)
      from k nn show ?thesis
        unfolding sub(1) by (intro exI [of _ "Suc k"]) (auto simp: max_max_diff split: if_splits)
    qed
  qed
qed

lemma c_div_ms: "0 \<le> ns \<Longrightarrow> c_div (ns + 999999) 1000000 = (ns + 999999) div 1000000"
  by (simp add: c_div_nonneg)

lemma c_div_int_max: "c_div INT_MAX 1000 = 2147483"
  by (simp add: INT_MAX_def c_div_def)

lemma int_cast_small: "- (2 ^ 31) \<le> x \<Longrightarrow> x < 2 ^ 31 \<Longrightarrow> int_cast x = x"
  by (simp add: int_cast_def)

section \<open>Properties\<close>

text \<open>
  A sleep is as long as it was asked for. When the clock can be read in every round and the
  call returns 0, the rounds together took at least the time requested; when it is interrupted,
  the time reported as remaining is the request less the time that passed, and not negative.
\<close>

theorem nanosleep_sleeps_long_enough:
  assumes "ts_normal req" and "0 \<le> tv_sec req" and "\<forall>r \<in> set rs. round_ok r"
    and "ios_nanosleep_internal e rs (Some req) = Some (res, rm)"
  shows "\<exists>k \<le> length rs. let slept = sum_list (map round_ns (take k rs)) in
    map_option ts_ns rm = Some (max 0 (ts_ns req - slept)) \<and>
    (fst res = 0 \<and> ts_ns req \<le> slept \<or> fst res = - 1)"
proof -
  have "\<not> (tv_sec req < 0 \<or> tv_nsec req < 0 \<or> tv_nsec req \<ge> 1000000000)"
    using assms(1,2) by (auto simp: ts_normal_def)
  with assms(4) obtain rm' where "nanosleep_loop e rs req = Some (res, rm')" "rm = Some rm'"
    by (auto simp: ios_nanosleep_internal_def split: if_splits)
  with nanosleep_loop_spec [OF this(1) assms(3,1,2)] show ?thesis
    by (auto simp: Let_def split: if_splits)
qed

text \<open>
  The timeout of a round. Below the last representable second it is a positive number of
  milliseconds, no shorter than the rest of the sleep and less than a millisecond longer.
\<close>

theorem sleep_timeout_covers_rest:
  assumes "ts_normal rem" and "0 \<le> tv_sec rem" and "0 < ts_ns rem" and "tv_sec rem < 2147483"
  shows "0 < sleep_timeout rem \<and> sleep_timeout rem \<le> INT_MAX \<and>
    ts_ns rem \<le> sleep_timeout rem * 1000000 \<and> sleep_timeout rem * 1000000 < ts_ns rem + 1000000"
proof -
  let ?ms = "tv_sec rem * 1000 + (tv_nsec rem + 999999) div 1000000"
  have n: "0 \<le> tv_nsec rem" "tv_nsec rem < 1000000000" using assms(1) by (simp_all add: ts_normal_def)
  have d: "tv_nsec rem \<le> (tv_nsec rem + 999999) div 1000000 * 1000000"
    "(tv_nsec rem + 999999) div 1000000 * 1000000 \<le> tv_nsec rem + 999999" "(tv_nsec rem + 999999) div 1000000 \<le> 1000"
    using n by linarith+
  have pos: "0 < ?ms" using assms(2,3) n d by (auto simp: ts_ns_def)
  have "?ms < 2 ^ 31" using assms(4) d by simp
  with pos have "sleep_timeout rem = ?ms"
    using assms(4) n by (simp add: sleep_timeout_def c_div_int_max c_div_ms Let_def int_cast_small)
  with pos d assms(2,4) show ?thesis by (simp add: ts_ns_def INT_MAX_def)
qed

text \<open>
  The conversion to \<^verbatim>\<open>int\<close> overflows in the last second before the clamp: with 2147483
  seconds and more than 647 milliseconds left the timeout is negative, which tells \<^verbatim>\<open>poll\<close> to
  wait for ever.
\<close>

theorem sleep_timeout_wraps_negative:
  assumes "ts_normal rem" and "tv_sec rem = 2147483" and "647000000 < tv_nsec rem"
  shows "sleep_timeout rem < 0"
proof -
  have n: "0 \<le> tv_nsec rem" "tv_nsec rem < 1000000000" using assms(1) by (simp_all add: ts_normal_def)
  have d: "648 \<le> (tv_nsec rem + 999999) div 1000000" "(tv_nsec rem + 999999) div 1000000 \<le> 1000"
    using n assms(3) by linarith+
  define q where "q = (tv_nsec rem + 999999) div 1000000"
  have "4294966648 + q = (q - 648) + 4294967296" by simp
  also have "\<dots> mod 4294967296 = (q - 648) mod 4294967296" by (rule mod_add_self2)
  also have "\<dots> = q - 648" using d by (simp add: q_def)
  finally have "(4294966648 + q) mod 4294967296 = q - 648" .
  with d assms(2) n show ?thesis
    by (simp add: sleep_timeout_def c_div_int_max c_div_ms Let_def int_cast_def q_def)
qed

subsection \<open>\<open>select\<close> and \<open>poll\<close>\<close>

text \<open>
  What the documentation of the system calls promises. \<^verbatim>\<open>select\<close>: on success the sets are
  reduced to the ready descriptors and the result is their number. \<^verbatim>\<open>poll\<close>: on success only the
  \<^verbatim>\<open>revents\<close> have changed, and the result is the number of entries in which they are not zero.
\<close>

definition fd_count :: "fd_set option \<Rightarrow> int" where
  "fd_count s = (case s of None \<Rightarrow> 0 | Some x \<Rightarrow> int (card x))"

definition fd_sub :: "fd_set option \<Rightarrow> fd_set option \<Rightarrow> bool" where
  "fd_sub s s' \<longleftrightarrow> (case (s, s') of (None, None) \<Rightarrow> True | (Some x, Some y) \<Rightarrow> x \<subseteq> y \<and> finite x | _ \<Rightarrow> False)"

definition select_documented :: "select_call \<Rightarrow> bool" where
  "select_documented sel \<longleftrightarrow> (\<forall>nfds r w e n er r' w' e'. sel nfds r w e = ((n, er), r', w', e') \<longrightarrow> 0 \<le> n \<longrightarrow>
     fd_sub r' r \<and> fd_sub w' w \<and> fd_sub e' e \<and> n = fd_count r' + fd_count w' + fd_count e')"

definition poll_documented :: "poll_call \<Rightarrow> bool" where
  "poll_documented pl \<longleftrightarrow> (\<forall>fds n er fds'. pl fds = ((n, er), fds') \<longrightarrow> 0 \<le> n \<longrightarrow>
     map (\<lambda>p. (pf_fd p, pf_events p)) fds' = map (\<lambda>p. (pf_fd p, pf_events p)) fds \<and>
     n = int (length (filter (\<lambda>p. pf_revents p \<noteq> 0) fds')))"

lemma select_documentedD:
  assumes "select_documented sel" and "sel nfds r w e = ((n, er), r', w', e')" and "0 \<le> n"
  shows "fd_sub r' r" "fd_sub w' w" "fd_sub e' e" "n = fd_count r' + fd_count w' + fd_count e'"
  using assms unfolding select_documented_def by blast+

text \<open>
  \<^verbatim>\<open>ios_select\<close> reports only the caller's descriptors. When it returns a positive number, the
  sets are parts of the caller's, the number counts exactly their elements, and the descriptor
  of the cancellation is not among them.
\<close>

theorem select_reports_callers_descriptors:
  assumes "select_documented select" and "ios_select select cancelled cancel_fd nfds r w e = ((n, er), r', w', e')"
    and "0 < n"
  shows "fd_sub r' r \<and> fd_sub w' w \<and> fd_sub e' e \<and> n = fd_count r' + fd_count w' + fd_count e' \<and>
    (0 \<le> cancel_fd \<and> cancel_fd < FD_SETSIZE \<longrightarrow> (\<forall>x. r' = Some x \<longrightarrow> cancel_fd \<notin> x))"
proof (cases "cancel_fd < 0 \<or> cancel_fd \<ge> FD_SETSIZE")
  case True
  then have "select nfds r w e = ((n, er), r', w', e')"
    using assms(2,3) by (auto simp: ios_select_def split: if_splits)
  with select_documentedD [OF assms(1) this] True assms(3) show ?thesis by auto
next
  case False
  let ?local = "insert cancel_fd (case r of None \<Rightarrow> {} | Some s \<Rightarrow> s)"
  obtain n1 er1 l1 w1 e1 where s: "select (if cancel_fd \<ge> nfds then cancel_fd + 1 else nfds) (Some ?local) w e = ((n1, er1), l1, w1, e1)"
    by (metis prod.collapse)
  have res: "n1 = n" "w1 = w'" "e1 = e'" "cancel_fd \<notin> the l1"
    "r' = map_option (\<lambda>_. if (case r of None \<Rightarrow> False | Some s \<Rightarrow> cancel_fd \<in> s) then the l1 else the l1 - {cancel_fd}) r"
    using assms(2,3) False s by (auto simp: ios_select_def Let_def split: if_splits)
  note d = select_documentedD [OF assms(1) s]
  obtain x where x: "l1 = Some x" "x \<subseteq> ?local" "finite x"
    using d(1) assms(3) res(1) by (auto simp: fd_sub_def split: option.splits)
  have r': "r' = map_option (\<lambda>_. x) r" using res(4,5) x(1) by (cases r) auto
  have "fd_sub r' r" using x res(4) unfolding r' by (cases r) (auto simp: fd_sub_def)
  moreover have "fd_count l1 = fd_count r'"
  proof (cases r)
    case None
    with x res(4) have "x = {}" by auto
    with None x(1) r' show ?thesis by (simp add: fd_count_def)
  qed (simp add: r' x(1))
  ultimately show ?thesis using d res assms(3) x(1) r' by (auto simp: map_option_case split: option.splits)
qed

text \<open>
  On a timeout \<^verbatim>\<open>ios_select\<close> leaves the read set as the caller passed it, so every descriptor
  in it still looks ready, while the write and error sets, which go straight to the system call,
  are emptied.
\<close>

theorem select_timeout_keeps_read_set:
  assumes "select_documented select" and "0 \<le> cancel_fd" and "cancel_fd < FD_SETSIZE"
    and "ios_select select False cancel_fd nfds r w e = ((0, er), r', w', e')"
  shows "r' = r \<and> w' = map_option (\<lambda>_. {}) w \<and> e' = map_option (\<lambda>_. {}) e"
proof -
  let ?local = "insert cancel_fd (case r of None \<Rightarrow> {} | Some s \<Rightarrow> s)"
  obtain n1 er1 l1 w1 e1 where s: "select (if cancel_fd \<ge> nfds then cancel_fd + 1 else nfds) (Some ?local) w e = ((n1, er1), l1, w1, e1)"
    by (metis prod.collapse)
  have res: "n1 = 0" "w1 = w'" "e1 = e'" "r' = r"
    using assms(2-4) s by (auto simp: ios_select_def Let_def split: if_splits)
  note d = select_documentedD [OF assms(1) s]
  have "fd_count w' = 0" "fd_count e' = 0"
    using d(4) res by (auto simp: fd_count_def split: option.splits)
  with d(2,3) res show ?thesis
    by (auto simp: fd_count_def fd_sub_def split: option.splits)
qed

text \<open>
  \<^verbatim>\<open>ios_poll\<close> reports only the caller's descriptors: when it returns a positive number, the
  entries are the caller's with new \<^verbatim>\<open>revents\<close>, and the number counts those that are not zero.
\<close>

theorem poll_reports_callers_descriptors:
  assumes "poll_documented poll" and "ios_poll poll malloc_ok cancelled cancel_fd fds = ((n, er), fds')" and "0 < n"
  shows "map (\<lambda>p. (pf_fd p, pf_events p)) fds' = map (\<lambda>p. (pf_fd p, pf_events p)) fds \<and>
    n = int (length (filter (\<lambda>p. pf_revents p \<noteq> 0) fds'))"
proof (cases "cancel_fd < 0")
  case True
  then have "poll fds = ((n, er), fds')" using assms(2,3) by (auto simp: ios_poll_def split: if_splits)
  with assms(1,3) show ?thesis unfolding poll_documented_def by force
next
  case False
  let ?local = "map (\<lambda>p. p\<lparr>pf_revents := 0\<rparr>) fds @ [\<lparr>pf_fd = cancel_fd, pf_events = POLL_CANCEL_EVENTS, pf_revents = 0\<rparr>]"
  obtain n1 er1 l1 where s: "poll ?local = ((n1, er1), l1)" by (metis prod.collapse)
  have res: "n1 = n" "pf_revents (l1 ! length fds) = 0"
    "fds' = map (\<lambda>i. (fds ! i)\<lparr>pf_revents := pf_revents (l1 ! i)\<rparr>) [0..<length fds]"
    using assms(2,3) False s by (auto simp: ios_poll_def Let_def split: if_splits)
  have d: "map (\<lambda>p. (pf_fd p, pf_events p)) l1 = map (\<lambda>p. (pf_fd p, pf_events p)) ?local"
    "n = int (length (filter (\<lambda>p. pf_revents p \<noteq> 0) l1))"
    using assms(1,3) s res(1) unfolding poll_documented_def by force+
  have len: "length l1 = Suc (length fds)" using arg_cong [OF d(1), of length] by simp
  have c: "length (filter (\<lambda>p. pf_revents p \<noteq> 0) xs) = length (filter (\<lambda>v. v \<noteq> 0) (map pf_revents xs))" for xs
    by (simp add: filter_map comp_def)
  have "map pf_revents fds' = map pf_revents (take (length fds) l1)"
    using len res(3) by (auto intro!: nth_equalityI)
  then have "length (filter (\<lambda>p. pf_revents p \<noteq> 0) fds') = length (filter (\<lambda>p. pf_revents p \<noteq> 0) (take (length fds) l1))"
    unfolding c by simp
  moreover have "l1 = take (length fds) l1 @ [l1 ! length fds]"
    using take_Suc_conv_app_nth [of "length fds" l1] len by simp
  then have "length (filter (\<lambda>p. pf_revents p \<noteq> 0) l1) =
      length (filter (\<lambda>p. pf_revents p \<noteq> 0) (take (length fds) l1 @ [l1 ! length fds]))" by (rule arg_cong)
  ultimately have "n = int (length (filter (\<lambda>p. pf_revents p \<noteq> 0) fds'))" using d(2) res(2) by simp
  moreover have "map (\<lambda>p. (pf_fd p, pf_events p)) fds' = map (\<lambda>p. (pf_fd p, pf_events p)) fds"
    using res(3) by (auto intro!: nth_equalityI)
  ultimately show ?thesis by simp
qed

text \<open>
  On a timeout \<^verbatim>\<open>ios_poll\<close> does not write the \<^verbatim>\<open>revents\<close>: the caller finds those of its
  previous call, while the system call reports zero for every entry.
\<close>

theorem poll_timeout_keeps_revents:
  assumes "poll_documented poll" and "0 \<le> cancel_fd"
    and "ios_poll poll malloc_ok False cancel_fd fds = ((0, er), fds')"
  shows "fds' = fds \<and> (\<forall>l er1 l1. poll l = ((0, er1), l1) \<longrightarrow> (\<forall>p \<in> set l1. pf_revents p = 0))"
proof -
  have "fds' = fds" using assms(2,3) by (auto simp: ios_poll_def Let_def split: if_splits prod.splits)
  moreover have "\<forall>p \<in> set l1. pf_revents p = 0" if "poll l = ((0, er1), l1)" for l er1 l1
    using assms(1) that unfolding poll_documented_def by (force simp: filter_empty_conv)
  ultimately show ?thesis by blast
qed

subsection \<open>Reading and writing\<close>

text \<open>Whether the session was seen cancelled during a wait, and during a read.\<close>

definition poll_saw_cancel :: "bool \<times> int \<times> poll_round list \<Rightarrow> bool" where
  "poll_saw_cancel w \<longleftrightarrow> fst w \<or> (\<exists>p \<in> set (snd (snd w)). pr_cancelled p \<or> pr_cancel_revents p \<noteq> 0)"

definition read_saw_cancel :: "read_round \<Rightarrow> bool" where
  "read_saw_cancel r \<longleftrightarrow> rr_cancelled r \<or> poll_saw_cancel (rr_wait r)"

lemma wait_fd_loop_interrupted:
  "wait_fd_loop rs = Some (v, Some EINTR) \<Longrightarrow> \<exists>p \<in> set rs. pr_cancelled p \<or> pr_cancel_revents p \<noteq> 0"
  by (induction rs) (auto split: if_splits)

lemma wait_interrupted:
  "ios_wait_for_fd_or_cancel c cfd ps fd = Some (v, Some EINTR) \<Longrightarrow> poll_saw_cancel (c, cfd, ps)"
  by (auto simp: ios_wait_for_fd_or_cancel_def poll_saw_cancel_def split: if_splits dest: wait_fd_loop_interrupted)

lemma read_fd_loop_interrupted:
  "read_fd_loop nb fd rs = Some (v, Some EINTR) \<Longrightarrow> v < 0 \<Longrightarrow> \<exists>r \<in> set rs. read_saw_cancel r"
proof (induction rs)
  case (Cons r rs)
  obtain c cfd ps where w: "rr_wait r = (c, cfd, ps)" by (metis prod.collapse)
  show ?case
  proof (cases "read_saw_cancel r")
    case False
    then have "\<not> rr_cancelled r" "\<not> poll_saw_cancel (c, cfd, ps)" by (simp_all add: read_saw_cancel_def w)
    with Cons.prems have "read_fd_loop nb fd rs = Some (v, Some EINTR)"
      by (auto simp: w split: if_splits option.splits dest: wait_interrupted)
    from Cons.IH [OF this Cons.prems(2)] show ?thesis by auto
  qed simp
qed simp

text \<open>
  A read reports an interruption only when the session is cancelled: interrupted system calls
  are repeated, and \<^verbatim>\<open>EINTR\<close> reaches the caller only if the cancellation was seen before the
  read, while waiting for input, or after an interrupted \<^verbatim>\<open>read\<close>.
\<close>

theorem read_interrupted_only_by_cancel:
  assumes "ios_read cancelled stdin_fd nonblocking first rs fildes = Some (v, Some EINTR)" and "v < 0"
  shows "cancelled \<or> poll_saw_cancel first \<or> (\<exists>r \<in> set rs. read_saw_cancel r)"
proof -
  obtain c cfd ps where w: "first = (c, cfd, ps)" by (metis prod.collapse)
  show ?thesis
    using assms by (auto simp: ios_read_def Let_def w split: if_splits option.splits
        dest: wait_interrupted read_fd_loop_interrupted)
qed

text \<open>
  A cancelled session writes nothing to its standard output, by whichever function: the
  output is unchanged, the call fails and sets \<^verbatim>\<open>errno\<close> to \<^verbatim>\<open>EINTR\<close>.
\<close>

theorem cancelled_session_is_silent:
  assumes "st_cancelled st" and "st_thread_stdout st = Some g" and "fl_fd f = STDOUT_FILENO \<or> fl_fd f = fl_fd g"
    and "r \<in> {printf ret text st, fprintf ret (Some f) text st, ios_fwrite ret (Some f) text st, ios_fputs ret text (Some f) st,
      ios_fputc ret c (Some f) st, ios_putw ret text (Some f) st, ios_puts ret text st,
      Some (ios_write wr (fl_fd f) text st)}"
  shows "\<exists>v st'. r = Some (v, st') \<and> v \<le> 0 \<and> st_output st' = st_output st \<and> st_errno st' = Some EINTR"
  using assms
  by (auto simp: printf_def fprintf_def ios_fwrite_def ios_fputs_def ios_fputc_def ios_putw_def ios_puts_def ios_write_def
      write_stream_def ios_should_abort_stdio_write_def default_stdout_def default_stderr_def EOF_def Let_def)

text \<open>
  The standard streams are those of the thread. In a session that is not cancelled a write to
  descriptor 1 or 2 arrives, unchanged, on the thread's output or error stream, or on the
  process's when the thread has none; every other stream is written as it is. A cancelled session
  can still write to its error stream.
\<close>

theorem output_goes_to_thread_streams:
  assumes "\<not> st_cancelled st \<or> (fl_fd f \<noteq> STDOUT_FILENO \<and> (\<forall>g. st_thread_stdout st = Some g \<longrightarrow> fl_fd f \<noteq> fl_fd g))"
    and "out = (case st_thread_stdout st of None \<Rightarrow> st_stdout st | Some g \<Rightarrow> g)"
    and "errs = (case st_thread_stderr st of None \<Rightarrow> st_stderr st | Some g \<Rightarrow> g)"
    and "target = (if fl_fd f = STDOUT_FILENO then out else if fl_fd f = STDERR_FILENO then errs else f)"
  shows "\<exists>st'. ios_fputs ret text (Some f) st = Some (ret target, st') \<and>
    st_output st' = st_output st @ [(fl_fd target, text)] \<and>
    st_thread_stdout st' = Some out \<and> st_thread_stderr st' = Some errs"
proof -
  have a: "ios_should_abort_stdio_write (Some f) st = (False, st)"
    using assms(1) by (auto simp: ios_should_abort_stdio_write_def split: option.splits)
  have "default_stderr (default_stdout st) = st\<lparr>st_thread_stdout := Some out, st_thread_stderr := Some errs\<rparr>"
    using assms(2,3) by (auto simp: default_stderr_def default_stdout_def split: option.splits)
  with a assms(4) show ?thesis
    by (simp add: ios_fputs_def write_stream_def emit_def redirect_def)
qed

text \<open>
  The size \<^verbatim>\<open>ios_fread\<close> compares with the buffered input does not overflow: it is the product
  of the two arguments, or the largest 64-bit number when the product is larger.
\<close>

theorem fread_request_saturates:
  "unat (fread_requested sz nitems) = min (2 ^ 64 - 1) (unat sz * unat nitems)"
proof -
  have m: "unat SIZE_MAX = 2 ^ 64 - 1" by (simp add: SIZE_MAX_def unsigned_minus_1_eq_mask mask_eq_exp_minus_1)
  show ?thesis
  proof (cases "sz \<noteq> 0 \<and> nitems > SIZE_MAX div sz")
    case True
    then have "unat sz > 0" "unat nitems > (2 ^ 64 - 1) div unat sz"
      by (simp_all add: word_less_nat_alt unat_div m unat_gt_0)
    then have "2 ^ 64 - 1 < unat nitems * unat sz" by (simp add: div_less_iff_less_mult)
    with True m show ?thesis by (simp add: fread_requested_def mult.commute)
  next
    case False
    then have "sz = 0 \<or> unat nitems \<le> (2 ^ 64 - 1) div unat sz"
      by (simp add: word_less_nat_alt unat_div m not_less)
    then have "unat sz * unat nitems \<le> 2 ^ 64 - 1"
      by (cases "sz = 0") (simp_all add: less_eq_div_iff_mult_less_eq unat_gt_0 mult.commute)
    moreover from this have "unat (sz * nitems) = unat sz * unat nitems"
      by (subst unat_mult_lem [symmetric]) simp
    moreover have "fread_requested sz nitems = sz * nitems" using False by (auto simp: fread_requested_def)
    ultimately show ?thesis by simp
  qed
qed

text \<open>The text \<^verbatim>\<open>fgets\<close> takes from an input: up to a newline, and at most \<open>n\<close> characters.\<close>

fun fgets_text :: "nat \<Rightarrow> string \<Rightarrow> string" where
  "fgets_text 0 s = []"
| "fgets_text (Suc n) [] = []"
| "fgets_text (Suc n) (c # s) = (if c = newline then [c] else c # fgets_text n s)"

lemma fgets_text_enough:
  "n \<le> length s \<or> newline \<in> set s \<Longrightarrow> fgets_text n (s @ t) = fgets_text n s"
  by (induction n s rule: fgets_text.induct) auto

lemma fgets_text_short:
  "length s < n \<Longrightarrow> newline \<notin> set s \<Longrightarrow> fgets_text n (s @ [c]) \<noteq> fgets_text n s"
proof (induction n s rule: fgets_text.induct)
  case (2 n)
  then show ?case by (cases n) auto
qed auto

text \<open>
  \<^verbatim>\<open>ios_fgets\<close> waits for input exactly when it has to: the test holds when, and only when, the
  buffered input alone determines the line that is read, whatever arrives later.
\<close>

theorem fgets_waits_only_if_needed:
  assumes "1 < sz"
  shows "ios_fgets_satisfied_by_buffer f sz \<longleftrightarrow>
    (\<forall>later. fgets_text (nat (sz - 1)) (fl_buf f @ later) = fgets_text (nat (sz - 1)) (fl_buf f))"
proof -
  have s: "ios_fgets_satisfied_by_buffer f sz \<longleftrightarrow> nat (sz - 1) \<le> length (fl_buf f) \<or> newline \<in> set (fl_buf f)"
    using assms by (auto simp: ios_fgets_satisfied_by_buffer_def ios_stream_buffered_input_def Let_def)
  show ?thesis
  proof
    assume "ios_fgets_satisfied_by_buffer f sz"
    then show "\<forall>later. fgets_text (nat (sz - 1)) (fl_buf f @ later) = fgets_text (nat (sz - 1)) (fl_buf f)"
      unfolding s by (simp add: fgets_text_enough)
  next
    assume "\<forall>later. fgets_text (nat (sz - 1)) (fl_buf f @ later) = fgets_text (nat (sz - 1)) (fl_buf f)"
    then show "ios_fgets_satisfied_by_buffer f sz"
      unfolding s using fgets_text_short [of "fl_buf f" "nat (sz - 1)"] by (meson not_le)
  qed
qed

section \<open>Concrete states\<close>

text \<open>A session that is not cancelled, a \<^verbatim>\<open>poll\<close> that always times out, a round of one second.\<close>

definition quiet :: wait_env where
  "quiet = \<lparr>we_cancelled = False, we_cancel_fd = 9, we_poll = (\<lambda>_. (0, None))\<rparr>"

definition second_round :: "int \<Rightarrow> sleep_round" where
  "second_round s = \<lparr>sr_before = Some \<lparr>tv_sec = s, tv_nsec = 0\<rparr>, sr_wait = quiet, sr_after = Some \<lparr>tv_sec = s + 1, tv_nsec = 0\<rparr>\<rparr>"

theorem nanosleep_sleeps_long_enough_witness:
  "ios_nanosleep_internal EINVAL [second_round 4, second_round 5] (Some \<lparr>tv_sec = 2, tv_nsec = 0\<rparr>) =
     Some ((0, None), Some \<lparr>tv_sec = 0, tv_nsec = 0\<rparr>) \<and>
   (\<exists>k \<le> 2. ts_ns \<lparr>tv_sec = 2, tv_nsec = 0\<rparr> \<le> sum_list (map round_ns (take k [second_round 4, second_round 5])))"
proof -
  have r: "ios_nanosleep_internal EINVAL [second_round 4, second_round 5] (Some \<lparr>tv_sec = 2, tv_nsec = 0\<rparr>) =
     Some ((0, None), Some \<lparr>tv_sec = 0, tv_nsec = 0\<rparr>)"
    by (simp add: ios_nanosleep_internal_def ios_timespec_is_zero_def second_round_def quiet_def
        ios_wait_for_cancel_or_timeout_ms_def ios_timespec_subtract_def)
  have ok: "\<forall>r \<in> set [second_round 4, second_round 5]. round_ok r" by (simp add: round_ok_def second_round_def ts_normal_def)
  from nanosleep_sleeps_long_enough [OF _ _ ok r] r show ?thesis
    by (auto simp: ts_normal_def Let_def numeral_2_eq_2)
qed

theorem sleep_timeout_covers_rest_witness:
  "ts_ns \<lparr>tv_sec = 3, tv_nsec = 1\<rparr> \<le> sleep_timeout \<lparr>tv_sec = 3, tv_nsec = 1\<rparr> * 1000000"
  using sleep_timeout_covers_rest [of "\<lparr>tv_sec = 3, tv_nsec = 1\<rparr>"] by (simp add: ts_normal_def ts_ns_def)

theorem sleep_timeout_wraps_negative_witness:
  "sleep_timeout \<lparr>tv_sec = 2147483, tv_nsec = 700000000\<rparr> < 0"
  by (rule sleep_timeout_wraps_negative) (simp_all add: ts_normal_def)

text \<open>System calls that find exactly the given descriptors ready.\<close>

definition select_ready :: "int set \<Rightarrow> select_call" where
  "select_ready R nfds r w e =
     (let f = map_option (\<lambda>s. s \<inter> R) in ((fd_count (f r) + fd_count (f w) + fd_count (f e), None), f r, f w, f e))"

lemma select_ready_documented: "finite R \<Longrightarrow> select_documented (select_ready R)"
  by (auto simp: select_documented_def select_ready_def Let_def fd_sub_def map_option_case split: option.splits)

theorem select_reports_callers_descriptors_witness:
  "ios_select (select_ready {5}) False 9 7 (Some {5, 6}) None None = ((1, None), Some {5}, None, None) \<and>
   fd_sub (Some {5}) (Some {5, 6})"
proof -
  have "ios_select (select_ready {5}) False 9 7 (Some {5, 6}) None None = ((1, None), Some {5}, None, None)"
    by (simp add: ios_select_def select_ready_def fd_count_def FD_SETSIZE_def Int_insert_left)
  with select_reports_callers_descriptors [OF select_ready_documented this] show ?thesis by simp
qed

theorem select_timeout_keeps_read_set_witness:
  "ios_select (select_ready {}) False 9 7 (Some {5}) (Some {6}) None = ((0, None), Some {5}, Some {}, None)"
proof -
  obtain r' w' e' where s: "ios_select (select_ready {}) False 9 7 (Some {5}) (Some {6}) None = ((0, None), r', w', e')"
    by (simp add: ios_select_def select_ready_def fd_count_def FD_SETSIZE_def)
  from select_timeout_keeps_read_set [OF select_ready_documented _ _ s] s show ?thesis
    by (simp add: FD_SETSIZE_def)
qed

definition poll_ready :: "int set \<Rightarrow> poll_call" where
  "poll_ready R fds =
     (let fds' = map (\<lambda>p. p\<lparr>pf_revents := (if pf_fd p \<in> R then 1 else 0)\<rparr>) fds
      in ((int (length (filter (\<lambda>p. pf_revents p \<noteq> 0) fds')), None), fds'))"

lemma poll_ready_documented: "poll_documented (poll_ready R)"
  by (auto simp: poll_documented_def poll_ready_def Let_def)

theorem poll_reports_callers_descriptors_witness:
  "ios_poll (poll_ready {5}) True False 9 [\<lparr>pf_fd = 5, pf_events = 1, pf_revents = 0\<rparr>] =
     ((1, None), [\<lparr>pf_fd = 5, pf_events = 1, pf_revents = 1\<rparr>]) \<and>
   length (filter (\<lambda>p. pf_revents p \<noteq> 0) [\<lparr>pf_fd = 5, pf_events = 1, pf_revents = 1\<rparr>]) = 1"
proof -
  have p: "ios_poll (poll_ready {5}) True False 9 [\<lparr>pf_fd = 5, pf_events = 1, pf_revents = 0\<rparr>] =
     ((1, None), [\<lparr>pf_fd = 5, pf_events = 1, pf_revents = 1\<rparr>])"
    by (simp add: ios_poll_def poll_ready_def)
  from poll_reports_callers_descriptors [OF poll_ready_documented p] p show ?thesis by simp
qed

theorem poll_timeout_keeps_revents_witness:
  "ios_poll (poll_ready {}) True False 9 [\<lparr>pf_fd = 5, pf_events = 1, pf_revents = 1\<rparr>] =
     ((0, None), [\<lparr>pf_fd = 5, pf_events = 1, pf_revents = 1\<rparr>])"
proof -
  obtain fds' where p: "ios_poll (poll_ready {}) True False 9 [\<lparr>pf_fd = 5, pf_events = 1, pf_revents = 1\<rparr>] = ((0, None), fds')"
    by (simp add: ios_poll_def poll_ready_def)
  from poll_timeout_keeps_revents [OF poll_ready_documented _ p] p show ?thesis by simp
qed

theorem read_interrupted_only_by_cancel_witness:
  "ios_read False 3 (\<lambda>_. True) (False, 9, []) [\<lparr>rr_result = (- 1, Some EINTR), rr_cancelled = True, rr_wait = (False, 9, [])\<rparr>] 0 =
     Some (- 1, Some EINTR) \<and>
   (\<exists>r \<in> set [\<lparr>rr_result = (- 1, Some EINTR), rr_cancelled = True, rr_wait = (False, 9, [])\<rparr>]. read_saw_cancel r)"
proof -
  have r: "ios_read False 3 (\<lambda>_. True) (False, 9, [])
      [\<lparr>rr_result = (- 1, Some EINTR), rr_cancelled = True, rr_wait = (False, 9, [])\<rparr>] 0 = Some (- 1, Some EINTR)"
    by (simp add: ios_read_def)
  from read_interrupted_only_by_cancel [OF r] r show ?thesis by (simp add: poll_saw_cancel_def)
qed

definition demo_stdio :: "bool \<Rightarrow> stdio_state" where
  "demo_stdio cancelled =
     \<lparr>st_cancelled = cancelled, st_errno = None, st_thread_stdin = None, st_thread_stdout = Some \<lparr>fl_fd = 7, fl_buf = []\<rparr>,
      st_thread_stderr = None, st_stdin = \<lparr>fl_fd = 0, fl_buf = []\<rparr>, st_stdout = \<lparr>fl_fd = 1, fl_buf = []\<rparr>,
      st_stderr = \<lparr>fl_fd = 2, fl_buf = []\<rparr>, st_output = []\<rparr>"

theorem cancelled_session_is_silent_witness:
  "\<exists>v st'. ios_fputs (\<lambda>_. 0) ''hi'' (Some \<lparr>fl_fd = 1, fl_buf = []\<rparr>) (demo_stdio True) = Some (v, st') \<and> v \<le> 0 \<and> st_output st' = []"
  using cancelled_session_is_silent [of "demo_stdio True" "\<lparr>fl_fd = 7, fl_buf = []\<rparr>" "\<lparr>fl_fd = 1, fl_buf = []\<rparr>"
      "ios_fputs (\<lambda>_. 0) ''hi'' (Some \<lparr>fl_fd = 1, fl_buf = []\<rparr>) (demo_stdio True)" "\<lambda>_. 0" "''hi''"]
  by (simp add: demo_stdio_def STDOUT_FILENO_def) blast

theorem output_goes_to_thread_streams_witness:
  "\<exists>st'. ios_fputs (\<lambda>_. 0) ''hi'' (Some \<lparr>fl_fd = 1, fl_buf = []\<rparr>) (demo_stdio False) = Some (0, st') \<and> st_output st' = [(7, ''hi'')]"
  using output_goes_to_thread_streams [of "demo_stdio False" "\<lparr>fl_fd = 1, fl_buf = []\<rparr>", OF _ refl refl refl, of "\<lambda>_. 0" "''hi''"]
  by (simp add: demo_stdio_def STDOUT_FILENO_def) blast

theorem fgets_waits_only_if_needed_witness:
  "ios_fgets_satisfied_by_buffer \<lparr>fl_fd = 0, fl_buf = ''ab'' @ [newline]\<rparr> 80 \<and>
   fgets_text 79 ((''ab'' @ [newline]) @ ''cd'') = fgets_text 79 (''ab'' @ [newline])"
proof -
  have s: "ios_fgets_satisfied_by_buffer \<lparr>fl_fd = 0, fl_buf = ''ab'' @ [newline]\<rparr> 80"
    by (simp add: ios_fgets_satisfied_by_buffer_def ios_stream_buffered_input_def)
  with fgets_waits_only_if_needed [of 80 "\<lparr>fl_fd = 0, fl_buf = ''ab'' @ [newline]\<rparr>"]
  have "fgets_text (nat (80 - 1)) ((''ab'' @ [newline]) @ ''cd'') = fgets_text (nat (80 - 1)) (''ab'' @ [newline])"
    by (metis FILE.select_convs(2) numeral_less_iff one_less_numeral_iff semiring_norm(76))
  with s show ?thesis by simp
qed

end
