(* ===== verification/Getopt.thy ===== *)
theory Getopt
  imports Prelude
begin

text \<open>
  The option parser of \<^verbatim>\<open>getopt.c\<close>. The globals and the statics of the function are one record;
  \<^verbatim>\<open>place\<close> is the text the scanning pointer points to, empty for \<^verbatim>\<open>EMSG\<close>. The argument vector is a
  list, with its length for \<^verbatim>\<open>nargc\<close>. What is printed on the error stream is a list of messages.
\<close>

section \<open>State\<close>

record getopt_state =
  gs_reset :: bool
  gs_opterr :: bool
  gs_optind :: nat
  gs_optopt :: int
  gs_optreset :: bool
  gs_optarg :: "string option"
  gs_progname :: "string option"
  gs_place :: string
  gs_messages :: "string list"

text \<open>The characters are signed, so \<^verbatim>\<open>(int)*place++\<close> of a byte above 127 is negative.\<close>

definition code :: "char \<Rightarrow> int" where
  "code c = (let n = int (of_char c) in if n \<ge> 128 then n - 256 else n)"

definition BADCH :: int where "BADCH = code (CHR ''?'')"
definition BADARG :: int where "BADARG = code (CHR '':'')"

definition dash :: char where "dash = CHR ''-''"
definition colon :: char where "colon = CHR '':''"

text \<open>Whether a string starts with the character, \<^verbatim>\<open>*s == c\<close>.\<close>

definition starts :: "string \<Rightarrow> char \<Rightarrow> bool" where
  "starts s c \<longleftrightarrow> (case s of [] \<Rightarrow> False | d # _ \<Rightarrow> d = c)"

text \<open>Whether the option letters say that the letter takes an argument, \<^verbatim>\<open>*++oli == ':'\<close>.\<close>

definition takes_arg :: "string \<Rightarrow> char \<Rightarrow> bool" where
  "takes_arg ostr c = starts (tl (dropWhile (\<lambda>d. d \<noteq> c) ostr)) colon"

definition illegal :: "string \<Rightarrow> char \<Rightarrow> bool" where
  "illegal ostr c \<longleftrightarrow> c = colon \<or> c \<notin> set ostr"

section \<open>One call\<close>

definition getopt_begin :: "string list \<Rightarrow> getopt_state \<Rightarrow> getopt_state" where
  "getopt_begin nargv st =
     (let st1 = (if gs_reset st
                 then st\<lparr>gs_reset := False, gs_opterr := True, gs_optind := 1, gs_optopt := 0, gs_optreset := False,
                         gs_optarg := None, gs_progname := None, gs_place := []\<rparr>
                 else st)
      in if gs_progname st1 = None
         then st1\<lparr>gs_progname := (case nargv of [] \<Rightarrow> None | p # _ \<Rightarrow> Some p)\<rparr> else st1)"

text \<open>Updating the scanning pointer; the flag tells whether the call returns \<^verbatim>\<open>EOF\<close> here.\<close>

definition getopt_scan :: "string list \<Rightarrow> getopt_state \<Rightarrow> bool \<times> getopt_state" where
  "getopt_scan nargv st =
     (if gs_optreset st \<or> gs_place st = [] then
        let st1 = st\<lparr>gs_optreset := False\<rparr> in
        if gs_optind st1 \<ge> length nargv \<or> \<not> starts (nargv ! gs_optind st1) dash
        then (True, st1\<lparr>gs_place := []\<rparr>)
        else let arg = nargv ! gs_optind st1 in
          if starts (tl arg) dash then (True, st1\<lparr>gs_optind := gs_optind st1 + 1, gs_place := []\<rparr>)
          else (False, st1\<lparr>gs_place := (if tl arg = [] then arg else tl arg)\<rparr>)
      else (False, st))"

definition complain :: "string \<Rightarrow> string \<Rightarrow> char \<Rightarrow> getopt_state \<Rightarrow> getopt_state" where
  "complain ostr text c st =
     st\<lparr>gs_messages := gs_messages st @ [(case gs_progname st of None \<Rightarrow> [] | Some p \<Rightarrow> p) @ text @ [c]]\<rparr>"

definition getopt_letter :: "string list \<Rightarrow> string \<Rightarrow> getopt_state \<Rightarrow> int \<times> getopt_state" where
  "getopt_letter nargv ostr st =
     (let c = hd (gs_place st); st1 = st\<lparr>gs_optopt := code c, gs_place := tl (gs_place st)\<rparr> in
      if illegal ostr c then
        if c = dash then (- 1, st1)
        else let st2 = (if gs_place st1 = [] then st1\<lparr>gs_optind := gs_optind st1 + 1\<rparr> else st1);
                 st3 = (if gs_opterr st2 \<and> \<not> starts ostr colon then complain ostr '': illegal option -- '' c st2 else st2)
             in (BADCH, st3)
      else if \<not> takes_arg ostr c then
        let st2 = st1\<lparr>gs_optarg := None\<rparr>
        in (code c, if gs_place st2 = [] then st2\<lparr>gs_optind := gs_optind st2 + 1\<rparr> else st2)
      else if gs_place st1 \<noteq> [] then
        (code c, st1\<lparr>gs_optarg := Some (gs_place st1), gs_place := [], gs_optind := gs_optind st1 + 1\<rparr>)
      else let st2 = st1\<lparr>gs_optind := gs_optind st1 + 1\<rparr> in
        if length nargv \<le> gs_optind st2 then
          let st3 = st2\<lparr>gs_place := []\<rparr> in
          if starts ostr colon then (BADARG, st3)
          else (BADCH, if gs_opterr st3 then complain ostr '': option requires an argument -- '' c st3 else st3)
        else (code c, st2\<lparr>gs_optarg := Some (nargv ! gs_optind st2), gs_place := [], gs_optind := gs_optind st2 + 1\<rparr>))"

definition getopt :: "string list \<Rightarrow> string \<Rightarrow> getopt_state \<Rightarrow> int \<times> getopt_state" where
  "getopt nargv ostr st0 =
     (case getopt_scan nargv (getopt_begin nargv st0) of
        (True, st) \<Rightarrow> (- 1, st)
      | (False, st) \<Rightarrow> getopt_letter nargv ostr st)"

section \<open>Parsing a whole command line\<close>

text \<open>
  The loop every caller writes: call until the result is \<^verbatim>\<open>EOF\<close>. An event is the result, the letter
  in \<^verbatim>\<open>optopt\<close>, and the argument when the result is neither \<open>?\<close> nor \<open>:\<close>. The loop runs on fuel.
\<close>

type_synonym getopt_event = "int \<times> int \<times> string option"

definition event :: "int \<Rightarrow> int \<Rightarrow> string option \<Rightarrow> getopt_event" where
  "event r c arg = (r, c, if r = BADCH \<or> r = BADARG then None else arg)"

fun getopt_all :: "nat \<Rightarrow> string list \<Rightarrow> string \<Rightarrow> getopt_state \<Rightarrow> (getopt_event list \<times> getopt_state) option" where
  "getopt_all 0 nargv ostr st = None"
| "getopt_all (Suc n) nargv ostr st =
     (case getopt nargv ostr st of
        (r, st1) \<Rightarrow>
          if r = - 1 then Some ([], st1)
          else map_option (\<lambda>(es, st2). (event r (gs_optopt st1) (gs_optarg st1) # es, st2)) (getopt_all n nargv ostr st1))"

text \<open>
  The same as a function of the command line: \<open>place\<close> are the letters left of the first argument,
  none at its start. The result are the events and the operands.
\<close>

function parse_options :: "string \<Rightarrow> string \<Rightarrow> string list \<Rightarrow> getopt_event list \<times> string list" where
  "parse_options ostr place [] = ([], [])"
| "parse_options ostr place (a # as) =
     (if place = [] \<and> \<not> starts a dash then ([], a # as)
      else if place = [] \<and> starts (tl a) dash then ([], as)
      else case (if place = [] then (if tl a = [] then a else tl a) else place) of
        [] \<Rightarrow> ([], a # as)
      | c # cs \<Rightarrow>
          let continue = (if cs = [] then parse_options ostr [] as else parse_options ostr cs (a # as)) in
          if illegal ostr c then
            if c = dash then ([], a # as) else (event BADCH (code c) None # fst continue, snd continue)
          else if \<not> takes_arg ostr c then (event (code c) (code c) None # fst continue, snd continue)
          else if cs \<noteq> [] then
            let r = parse_options ostr [] as in (event (code c) (code c) (Some cs) # fst r, snd r)
          else (case as of
              [] \<Rightarrow> ([event (if starts ostr colon then BADARG else BADCH) (code c) None], [])
            | b # bs \<Rightarrow> let r = parse_options ostr [] bs in (event (code c) (code c) (Some b) # fst r, snd r)))"
  by pat_completeness auto
termination
proof (relation "measures [\<lambda>(ostr, place, args). length args,
    \<lambda>(ostr, place, args). if place = [] then Suc (length (hd args)) else length place]", goal_cases)
  case 1
  then show ?case by simp
qed (auto split: if_splits dest: arg_cong [of _ _ length])

section \<open>The calls parse the command line\<close>

declare parse_options.simps(2) [simp del]

lemma bad_not_EOF [simp]: "BADCH \<noteq> - 1" "BADARG \<noteq> - 1"
  by (simp_all add: code_def BADCH_def BADARG_def)

lemma code_EOF: "code c = - 1 \<longleftrightarrow> c = CHR 0xFF"
proof
  assume "code c = - 1"
  then have "(of_char c :: nat) = 255" by (auto simp: code_def Let_def split: if_splits)
  then have "of_char c = (of_char (CHR 0xFF) :: nat)" by simp
  then show "c = CHR 0xFF" by (simp only: of_char_eq_iff)
qed (simp add: code_def)

lemma legal_not_EOF: "CHR 0xFF \<notin> set ostr \<Longrightarrow> \<not> illegal ostr c \<Longrightarrow> code c \<noteq> - 1"
  by (auto simp: code_EOF illegal_def)

definition scanning :: "string list \<Rightarrow> getopt_state \<Rightarrow> bool" where
  "scanning nargv st \<longleftrightarrow> \<not> gs_reset st \<and> \<not> gs_optreset st \<and> (gs_place st \<noteq> [] \<longrightarrow> gs_optind st < length nargv)"

definition rest_args :: "string list \<Rightarrow> getopt_state \<Rightarrow> string list" where
  "rest_args nargv st = drop (gs_optind st) nargv"

text \<open>The letters left to look at, which bounds the number of calls.\<close>

definition letters_left :: "string list \<Rightarrow> getopt_state \<Rightarrow> nat" where
  "letters_left nargv st =
     (if gs_place st = [] then sum_list (map length (rest_args nargv st))
      else length (gs_place st) + sum_list (map length (tl (rest_args nargv st))))"

definition parsed :: "string list \<Rightarrow> string \<Rightarrow> getopt_state \<Rightarrow> getopt_event list \<times> string list" where
  "parsed nargv ostr st = parse_options ostr (gs_place st) (rest_args nargv st)"

lemma rest_args_Cons:
  "rest_args nargv st = a # as \<Longrightarrow> gs_optind st < length nargv \<and> nargv ! gs_optind st = a \<and>
     as = drop (Suc (gs_optind st)) nargv"
  unfolding rest_args_def
  by (metis drop_eq_Nil2 leI list.distinct(1) list.inject Cons_nth_drop_Suc)

lemma begin_scanning:
  assumes "scanning nargv st"
  shows "\<exists>p. getopt_begin nargv st = st\<lparr>gs_progname := p\<rparr>"
  using assms by (auto simp: scanning_def getopt_begin_def intro: exI [of _ "gs_progname st"])

text \<open>The two halves of a call: finding the letter, and handling it.\<close>

lemma scan_stops:
  assumes "scanning nargv st" and "getopt_scan nargv st = (True, st1)"
  shows "parsed nargv ostr st = ([], rest_args nargv st1)"
proof (cases "rest_args nargv st")
  case Nil
  then have "length nargv \<le> gs_optind st" by (simp add: rest_args_def)
  with assms have "gs_optind st1 = gs_optind st"
    by (auto simp: getopt_scan_def scanning_def Let_def split: if_splits)
  with Nil show ?thesis by (simp add: parsed_def rest_args_def)
next
  case (Cons a as)
  with assms rest_args_Cons [OF Cons] show ?thesis
    using parse_options.simps(2) [of ostr "[]" a as]
    by (auto simp: getopt_scan_def scanning_def Let_def parsed_def rest_args_def split: if_splits)
qed

lemma scan_goes_on:
  assumes "scanning nargv st" and "getopt_scan nargv st = (False, st1)"
  shows "scanning nargv st1 \<and> gs_place st1 \<noteq> [] \<and> rest_args nargv st1 = rest_args nargv st \<and>
    rest_args nargv st \<noteq> [] \<and> gs_optind st1 = gs_optind st \<and>
    parsed nargv ostr st = parsed nargv ostr st1 \<and> letters_left nargv st1 \<le> letters_left nargv st"
proof (cases "rest_args nargv st")
  case Nil
  then have "length nargv \<le> gs_optind st" by (simp add: rest_args_def)
  with assms show ?thesis by (auto simp: getopt_scan_def scanning_def Let_def split: if_splits)
next
  case (Cons a as)
  show ?thesis
  proof (cases "gs_place st = []")
    case True
    with assms rest_args_Cons [OF Cons] Cons have st1: "starts a dash" "\<not> starts (tl a) dash"
      "st1 = st\<lparr>gs_optreset := False, gs_place := (if tl a = [] then a else tl a)\<rparr>" "gs_optind st < length nargv"
      by (auto simp: getopt_scan_def scanning_def Let_def split: if_splits)
    define p where "p = (if tl a = [] then a else tl a)"
    have p: "p \<noteq> []" "length p \<le> length a" using st1(1) by (auto simp: p_def starts_def)
    have "parse_options ostr [] (a # as) = parse_options ostr p (a # as)"
      using st1(1,2) p(1) parse_options.simps(2) [of ostr "[]" a as] parse_options.simps(2) [of ostr p a as]
      by (simp only: p_def [symmetric] simp_thms if_True if_False)
    then show ?thesis
      using True st1 p Cons assms(1)
      by (simp add: p_def [symmetric] scanning_def parsed_def letters_left_def rest_args_def)
  next
    case False
    with assms Cons show ?thesis by (auto simp: getopt_scan_def scanning_def)
  qed
qed

lemma parsed_letter:
  assumes "gs_place st = c # cs" and "rest_args nargv st = a # as"
  shows "parsed nargv ostr st =
    (let continue = (if cs = [] then parse_options ostr [] as else parse_options ostr cs (a # as)) in
          if illegal ostr c then
            if c = dash then ([], a # as) else (event BADCH (code c) None # fst continue, snd continue)
          else if \<not> takes_arg ostr c then (event (code c) (code c) None # fst continue, snd continue)
          else if cs \<noteq> [] then
            let r = parse_options ostr [] as in (event (code c) (code c) (Some cs) # fst r, snd r)
          else (case as of
              [] \<Rightarrow> ([event (if starts ostr colon then BADARG else BADCH) (code c) None], [])
            | b # bs \<Rightarrow> let r = parse_options ostr [] bs in (event (code c) (code c) (Some b) # fst r, snd r)))"
  using assms parse_options.simps(2) [of ostr "c # cs" a as] by (simp add: parsed_def)

lemma complain_fields [simp]:
  "gs_place (complain ostr text c st) = gs_place st" "gs_optind (complain ostr text c st) = gs_optind st"
  "gs_reset (complain ostr text c st) = gs_reset st" "gs_optreset (complain ostr text c st) = gs_optreset st"
  "gs_optopt (complain ostr text c st) = gs_optopt st" "gs_optarg (complain ostr text c st) = gs_optarg st"
  by (simp_all add: complain_def)

lemma event_bad [simp]: "event BADCH c x = (BADCH, c, None)" "event BADARG c x = (BADARG, c, None)"
  by (simp_all add: event_def)

lemma letter_step:
  assumes "scanning nargv st" and "gs_place st \<noteq> []" and "getopt_letter nargv ostr st = (r, st1)"
    and ff: "CHR 0xFF \<notin> set ostr"
  shows "(if r = - 1 then parsed nargv ostr st = ([], rest_args nargv st1)
    else scanning nargv st1 \<and> letters_left nargv st1 < letters_left nargv st \<and>
      parsed nargv ostr st = (event r (gs_optopt st1) (gs_optarg st1) # fst (parsed nargv ostr st1), snd (parsed nargv ostr st1)))"
proof -
  obtain c cs where p: "gs_place st = c # cs" using assms(2) by (cases "gs_place st") auto
  have i: "gs_optind st < length nargv" "\<not> gs_reset st" "\<not> gs_optreset st" using assms(1,2) by (simp_all add: scanning_def)
  then obtain a as where a: "rest_args nargv st = a # as" by (metis rest_args_def Cons_nth_drop_Suc)
  note as = rest_args_Cons [OF a] and L = assms(3) [unfolded getopt_letter_def p Let_def list.sel]
  have left: "letters_left nargv st = Suc (length cs + sum_list (map length as))" by (simp add: letters_left_def p a)
  consider (Dash) "illegal ostr c" "c = dash" | (Illegal) "illegal ostr c" "c \<noteq> dash"
    | (Flag) "\<not> illegal ostr c" "\<not> takes_arg ostr c" | (Here) "\<not> illegal ostr c" "takes_arg ostr c" "cs \<noteq> []"
    | (Missing) "\<not> illegal ostr c" "takes_arg ostr c" "cs = []" "as = []"
    | (Next) b bs where "\<not> illegal ostr c" "takes_arg ostr c" "cs = []" "as = b # bs"
    by (cases as) blast+
  then show ?thesis
  proof cases
    case Dash
    with L a show ?thesis unfolding parsed_letter [OF p a] by (auto simp: Let_def rest_args_def)
  next
    case Illegal
    define k where "k = (if cs = [] then Suc (gs_optind st) else gs_optind st)"
    have st1: "r = BADCH" "gs_place st1 = cs" "gs_optind st1 = k" "gs_optopt st1 = code c" "\<not> gs_reset st1" "\<not> gs_optreset st1"
      using L Illegal i by (auto simp: k_def split: if_splits)
    with Illegal i as a left show ?thesis unfolding parsed_letter [OF p a]
      by (cases "cs = []") (auto simp: Let_def parsed_def rest_args_def scanning_def letters_left_def k_def)
  next
    case Flag
    define k where "k = (if cs = [] then Suc (gs_optind st) else gs_optind st)"
    have st1: "r = code c" "gs_place st1 = cs" "gs_optind st1 = k" "gs_optopt st1 = code c" "gs_optarg st1 = None"
      "\<not> gs_reset st1" "\<not> gs_optreset st1"
      using L Flag i by (auto simp: k_def split: if_splits)
    with Flag legal_not_EOF [OF ff Flag(1)] i as a left show ?thesis unfolding parsed_letter [OF p a]
      by (cases "cs = []") (auto simp: Let_def parsed_def rest_args_def scanning_def letters_left_def k_def)
  next
    case Here
    with L have "st1 = st\<lparr>gs_optopt := code c, gs_optarg := Some cs, gs_place := [], gs_optind := Suc (gs_optind st)\<rparr>" "r = code c"
      by auto
    with Here legal_not_EOF [OF ff Here(1)] i as a left show ?thesis unfolding parsed_letter [OF p a]
      by (simp add: Let_def parsed_def rest_args_def scanning_def letters_left_def)
  next
    case Missing
    with as have l: "length nargv \<le> Suc (gs_optind st)" by simp
    have st1: "r = (if starts ostr colon then BADARG else BADCH)" "gs_place st1 = []" "gs_optind st1 = Suc (gs_optind st)"
      "gs_optopt st1 = code c" "\<not> gs_reset st1" "\<not> gs_optreset st1"
      using L Missing i l by (auto split: if_splits)
    with Missing i as a left l show ?thesis unfolding parsed_letter [OF p a]
      by (auto simp: Let_def parsed_def rest_args_def scanning_def letters_left_def)
  next
    case (Next b bs)
    with as have d: "drop (Suc (gs_optind st)) nargv = b # bs" by simp
    then have b: "Suc (gs_optind st) < length nargv" "nargv ! Suc (gs_optind st) = b" "drop (Suc (Suc (gs_optind st))) nargv = bs"
      by (metis drop_eq_Nil2 leI list.distinct(1)) (metis d hd_drop_conv_nth drop_eq_Nil2 leI list.distinct(1) list.sel(1), metis d drop_Suc tl_drop list.sel(3))
    with L Next have "st1 = st\<lparr>gs_optopt := code c, gs_optarg := Some b, gs_place := [], gs_optind := Suc (Suc (gs_optind st))\<rparr>" "r = code c"
      by auto
    with Next legal_not_EOF [OF ff Next(1)] i b left show ?thesis unfolding parsed_letter [OF p a]
      by (simp add: Let_def parsed_def rest_args_def scanning_def letters_left_def)
  qed
qed

lemma getopt_step:
  assumes "scanning nargv st" and "getopt nargv ostr st = (r, st1)" and ff: "CHR 0xFF \<notin> set ostr"
  shows "(if r = - 1 then parsed nargv ostr st = ([], rest_args nargv st1)
    else scanning nargv st1 \<and> letters_left nargv st1 < letters_left nargv st \<and>
      parsed nargv ostr st = (event r (gs_optopt st1) (gs_optarg st1) # fst (parsed nargv ostr st1), snd (parsed nargv ostr st1)))"
proof -
  obtain p where b: "getopt_begin nargv st = st\<lparr>gs_progname := p\<rparr>" using begin_scanning [OF assms(1)] by blast
  let ?st = "st\<lparr>gs_progname := p\<rparr>"
  have s: "scanning nargv ?st" "parsed nargv ostr ?st = parsed nargv ostr st" "letters_left nargv ?st = letters_left nargv st"
    using assms(1) by (simp_all add: scanning_def parsed_def rest_args_def letters_left_def)
  obtain stop st2 where sc: "getopt_scan nargv ?st = (stop, st2)" by force
  show ?thesis
  proof (cases stop)
    case True
    with sc assms(2) b have "r = - 1" "st1 = st2" by (simp_all add: getopt_def)
    with scan_stops [OF s(1)] sc True s(2) show ?thesis by simp
  next
    case False
    with sc assms(2) b have l: "getopt_letter nargv ostr st2 = (r, st1)" by (simp add: getopt_def)
    have sc': "getopt_scan nargv ?st = (False, st2)" using sc False by simp
    from letter_step [OF _ _ l ff] scan_goes_on [OF s(1) sc', of ostr] s(2,3) show ?thesis by auto
  qed
qed

lemma getopt_all_scanning:
  "scanning nargv st \<Longrightarrow> letters_left nargv st < n \<Longrightarrow> CHR 0xFF \<notin> set ostr \<Longrightarrow>
   \<exists>st'. getopt_all n nargv ostr st = Some (fst (parsed nargv ostr st), st') \<and>
     rest_args nargv st' = snd (parsed nargv ostr st)"
proof (induction n arbitrary: st)
  case (Suc n)
  obtain r st1 where g: "getopt nargv ostr st = (r, st1)" by force
  note step = getopt_step [OF Suc.prems(1) g Suc.prems(3)]
  show ?case
  proof (cases "r = - 1")
    case True
    with g step show ?thesis by simp
  next
    case False
    with step Suc.prems have "scanning nargv st1" "letters_left nargv st1 < n" by auto
    from Suc.IH [OF this Suc.prems(3)] g False step show ?thesis by auto
  qed
qed simp

lemma getopt_after_reset:
  assumes "gs_reset st"
  shows "\<exists>st0. getopt nargv ostr st = getopt nargv ostr st0 \<and> scanning nargv st0 \<and> rest_args nargv st0 = drop 1 nargv \<and> gs_place st0 = []"
proof (rule exI [of _ "getopt_begin nargv st"], intro conjI)
  let ?st = "getopt_begin nargv st"
  show "scanning nargv ?st" "rest_args nargv ?st = drop 1 nargv" "gs_place ?st = []"
    using assms by (auto simp: getopt_begin_def scanning_def rest_args_def)
  have "getopt_begin nargv ?st = ?st"
    using assms by (auto simp: getopt_begin_def Let_def split: list.splits)
  then show "getopt nargv ostr st = getopt nargv ostr ?st" by (simp add: getopt_def)
qed

lemma getopt_all_after_reset:
  assumes "gs_reset st" and "sum_list (map length (drop 1 nargv)) < n" and "CHR 0xFF \<notin> set ostr"
  shows "\<exists>st'. getopt_all n nargv ostr st = Some (fst (parse_options ostr [] (drop 1 nargv)), st') \<and>
    drop (gs_optind st') nargv = snd (parse_options ostr [] (drop 1 nargv))"
proof -
  obtain st0 where s: "getopt nargv ostr st = getopt nargv ostr st0" "scanning nargv st0"
    "rest_args nargv st0 = drop 1 nargv" "gs_place st0 = []" using getopt_after_reset [OF assms(1)] by blast
  have "letters_left nargv st0 < n" using s(3,4) assms(2) by (simp add: letters_left_def)
  from getopt_all_scanning [OF s(2) this assms(3)] s(3,4)
  obtain st' where "getopt_all n nargv ostr st0 = Some (fst (parse_options ostr [] (drop 1 nargv)), st')"
    "rest_args nargv st' = snd (parse_options ostr [] (drop 1 nargv))" by (auto simp: parsed_def)
  moreover have "getopt_all n nargv ostr st = getopt_all n nargv ostr st0" using s(1) by (cases n) simp_all
  ultimately show ?thesis by (auto simp: rest_args_def)
qed

section \<open>Properties\<close>

text \<open>
  C22: after a reset, calling \<^verbatim>\<open>getopt\<close> until it returns \<^verbatim>\<open>EOF\<close> parses the command line. Whatever an
  earlier command left in the globals, the loop ends after at most one call more than there are
  characters in the arguments, its results are those of the recursive parser on the arguments
  after the program's name, and \<^verbatim>\<open>optind\<close> is left at the operands. The option string must not
  contain the byte 0xFF: as an option letter it is returned as \<^verbatim>\<open>EOF\<close>.
\<close>

theorem getopt_parses_command_line:
  assumes "gs_reset st" and "sum_list (map length (drop 1 nargv)) < n" and "CHR 0xFF \<notin> set ostr"
  shows "\<exists>st'. getopt_all n nargv ostr st = Some (fst (parse_options ostr [] (drop 1 nargv)), st') \<and>
    drop (gs_optind st') nargv = snd (parse_options ostr [] (drop 1 nargv))"
  by (rule getopt_all_after_reset [OF assms])

text \<open>
  A letter 0xFF that the option string lists ends the parse as if there were no more options, with
  \<^verbatim>\<open>optind\<close> already behind its word, so the next word passes for the first operand.
\<close>

theorem last_letter_reads_as_EOF:
  assumes "CHR 0xFF \<in> set ostr" and "\<not> takes_arg ostr (CHR 0xFF)" and "gs_reset st" and "0 < n"
  shows "\<exists>st'. getopt_all n [prog, [dash, CHR 0xFF], arg] ostr st = Some ([], st') \<and> gs_optind st' = 2"
  using assms
  by (cases n) (auto simp: getopt_def getopt_begin_def getopt_scan_def getopt_letter_def starts_def dash_def
    illegal_def colon_def code_def Let_def)

text \<open>How an option is written: a letter, or a letter and its argument in the same or the next word.\<close>

datatype written = Letter char | Attached char string | Separate char string

fun written_ok :: "string \<Rightarrow> written \<Rightarrow> bool" where
  "written_ok ostr (Letter c) \<longleftrightarrow> \<not> illegal ostr c \<and> \<not> takes_arg ostr c \<and> c \<noteq> dash"
| "written_ok ostr (Attached c s) \<longleftrightarrow> \<not> illegal ostr c \<and> takes_arg ostr c \<and> c \<noteq> dash \<and> s \<noteq> []"
| "written_ok ostr (Separate c s) \<longleftrightarrow> \<not> illegal ostr c \<and> takes_arg ostr c \<and> c \<noteq> dash"

fun write_option :: "written \<Rightarrow> string list" where
  "write_option (Letter c) = [[dash, c]]"
| "write_option (Attached c s) = [dash # c # s]"
| "write_option (Separate c s) = [[dash, c], s]"

fun written_event :: "written \<Rightarrow> getopt_event" where
  "written_event (Letter c) = event (code c) (code c) None"
| "written_event (Attached c s) = event (code c) (code c) (Some s)"
| "written_event (Separate c s) = event (code c) (code c) (Some s)"

lemma parse_written:
  assumes "written_ok ostr w"
  shows "parse_options ostr [] (write_option w @ as) =
    (written_event w # fst (parse_options ostr [] as), snd (parse_options ostr [] as))"
  using assms
proof (cases w)
  case (Letter c)
  with assms show ?thesis using parse_options.simps(2) [of ostr "[]" "[dash, c]" as]
    by (simp add: starts_def Let_def)
next
  case (Attached c s)
  with assms show ?thesis using parse_options.simps(2) [of ostr "[]" "dash # c # s" as]
    by (simp add: starts_def Let_def)
next
  case (Separate c s)
  with assms show ?thesis using parse_options.simps(2) [of ostr "[]" "[dash, c]" "s # as"]
    by (simp add: starts_def Let_def)
qed

lemma parse_operands:
  "parse_options ostr [] ([dash, dash] # ops) = ([], ops)"
  using parse_options.simps(2) [of ostr "[]" "[dash, dash]" ops] by (simp add: starts_def)

text \<open>
  What is written is what is read. A command line made of options, each with its argument
  attached or in the next word, the separator \<^verbatim>\<open>--\<close> and operands of any form is parsed back into
  exactly these options, in order, and these operands.
\<close>

theorem getopt_reads_what_is_written:
  assumes "\<forall>w \<in> set ws. written_ok ostr w" and "gs_reset st"
    and "nargv = prog # concat (map write_option ws) @ [dash, dash] # ops" and "sum_list (map length nargv) < n"
    and "CHR 0xFF \<notin> set ostr"
  shows "\<exists>st'. getopt_all n nargv ostr st = Some (map written_event ws, st') \<and> drop (gs_optind st') nargv = ops"
proof -
  have "parse_options ostr [] (concat (map write_option ws) @ [dash, dash] # ops) = (map written_event ws, ops)"
    using assms(1) by (induction ws) (simp_all add: parse_operands parse_written)
  moreover have "sum_list (map length (drop 1 nargv)) < n" using assms(3,4) by simp
  ultimately show ?thesis
    using getopt_all_after_reset [OF assms(2), of nargv n ostr] assms(3,5) by simp
qed

section \<open>Concrete states\<close>

text \<open>The globals as another command left them, with the reset requested.\<close>

definition used_globals :: getopt_state where
  "used_globals = \<lparr>gs_reset = True, gs_opterr = False, gs_optind = 9, gs_optopt = 5, gs_optreset = False,
     gs_optarg = Some ''old'', gs_progname = Some ''old'', gs_place = ''xyz'', gs_messages = []\<rparr>"

theorem getopt_parses_command_line_witness:
  "\<exists>st'. getopt_all 20 [''ls'', ''-lw'', ''80'', ''file''] ''lw:'' used_globals =
     Some (fst (parse_options ''lw:'' [] [''-lw'', ''80'', ''file'']), st') \<and>
     drop (gs_optind st') [''ls'', ''-lw'', ''80'', ''file''] = snd (parse_options ''lw:'' [] [''-lw'', ''80'', ''file''])"
  using getopt_parses_command_line [of used_globals "[''ls'', ''-lw'', ''80'', ''file'']" 20 "''lw:''"]
  by (simp add: used_globals_def)

theorem getopt_reads_what_is_written_witness:
  "\<exists>st'. getopt_all 40 [''ls'', ''-l'', ''-w80'', ''-w'', ''9'', ''--'', ''-x''] ''lw:'' used_globals =
     Some (map written_event [Letter (CHR ''l''), Attached (CHR ''w'') ''80'', Separate (CHR ''w'') ''9''], st') \<and>
     drop (gs_optind st') [''ls'', ''-l'', ''-w80'', ''-w'', ''9'', ''--'', ''-x''] = [''-x'']"
proof (rule getopt_reads_what_is_written [where prog = "''ls''"])
  show "\<forall>w \<in> set [Letter (CHR ''l''), Attached (CHR ''w'') ''80'', Separate (CHR ''w'') ''9'']. written_ok ''lw:'' w"
    by (simp add: illegal_def takes_arg_def starts_def colon_def dash_def)
qed (simp_all add: used_globals_def dash_def)

end
