(* ===== verification/Getopt_Long.thy ===== *)
theory Getopt_Long
  imports Getopt "HOL-Library.Monad_Syntax" "HOL-Library.Multiset"
begin

text \<open>
  The parser of long options of \<^verbatim>\<open>getopt_long.c\<close>, as it is compiled with \<^verbatim>\<open>GNU_COMPATIBLE\<close>. The
  globals and statics are one record, with the argument vector, which the parser permutes in
  place; -1 for \<^verbatim>\<open>nonopt_start\<close> and \<^verbatim>\<open>nonopt_end\<close> is \<open>None\<close>. \<open>None\<close> as a result is a fault: a division
  by zero or an access outside the argument vector, which ends with a null pointer.
\<close>

section \<open>Permuting arguments\<close>

function gcd_c :: "nat \<Rightarrow> nat \<Rightarrow> nat option" where
  "gcd_c a b =
     (if b = 0 then None else let c = a mod b in if c = 0 then Some b else gcd_c b c)"
  by pat_completeness auto
termination by (relation "measure snd") auto

text \<open>The inner loop, with \<open>k\<close> rounds left.\<close>

fun cycle_loop :: "nat \<Rightarrow> nat \<Rightarrow> nat \<Rightarrow> nat \<Rightarrow> nat \<Rightarrow> nat \<Rightarrow> 'a list \<Rightarrow> 'a list option" where
  "cycle_loop nnonopts nopts pend cstart 0 pos nargv = Some nargv"
| "cycle_loop nnonopts nopts pend cstart (Suc k) pos nargv =
     (let pos' = (if pos \<ge> pend then pos - nnonopts else pos + nopts) in
      if pos' < length nargv \<and> cstart < length nargv
      then cycle_loop nnonopts nopts pend cstart k pos' (nargv[pos' := nargv ! cstart, cstart := nargv ! pos'])
      else None)"

text \<open>The outer loop, from cycle \<open>i\<close> with \<open>k\<close> cycles left.\<close>

fun cycles_loop :: "nat \<Rightarrow> nat \<Rightarrow> nat \<Rightarrow> nat \<Rightarrow> nat \<Rightarrow> nat \<Rightarrow> 'a list \<Rightarrow> 'a list option" where
  "cycles_loop nnonopts nopts pend cyclelen i 0 nargv = Some nargv"
| "cycles_loop nnonopts nopts pend cyclelen i (Suc k) nargv =
     do { nargv' \<leftarrow> cycle_loop nnonopts nopts pend (pend + i) cyclelen (pend + i) nargv;
          cycles_loop nnonopts nopts pend cyclelen (Suc i) k nargv' }"

definition permute_args :: "nat \<Rightarrow> nat \<Rightarrow> nat \<Rightarrow> 'a list \<Rightarrow> 'a list option" where
  "permute_args panonopt_start panonopt_end opt_end nargv =
     (let nnonopts = panonopt_end - panonopt_start; nopts = opt_end - panonopt_end in
      do { ncycle \<leftarrow> gcd_c nnonopts nopts;
           cycles_loop nnonopts nopts panonopt_end ((opt_end - panonopt_start) div ncycle) 0 ncycle nargv })"

lemma gcd_c_eq: "0 < b \<Longrightarrow> gcd_c a b = Some (gcd a b)"
proof (induction a b rule: gcd_c.induct)
  case (1 a b)
  show ?case
  proof (cases "a mod b = 0")
    case True
    with 1(2) show ?thesis by (simp add: Let_def gcd_red_nat [of a b])
  next
    case False
    with 1 show ?thesis by (simp add: Let_def gcd_red_nat [of a b])
  qed
qed

declare gcd_c.simps [simp del]

text \<open>
  The positions a cycle visits, relative to the start of the first block: \<open>m\<close> is the length of the
  second block, \<open>n\<close> of both.
\<close>

definition visit :: "nat \<Rightarrow> nat \<Rightarrow> nat \<Rightarrow> nat \<Rightarrow> nat" where
  "visit n m r j = (r + j * m) mod n"

lemma visit_step: "visit n m r (Suc j) = (visit n m r j + m) mod n"
  by (simp add: visit_def mod_add_right_eq ac_simps)

lemma visit_less: "0 < n \<Longrightarrow> visit n m r j < n"
  by (simp add: visit_def)

lemma visit_inj:
  assumes "0 < n" and "i < n div gcd n m" and "j < n div gcd n m" and "visit n m r i = visit n m r j"
  shows "i = j"
  using assms
proof (induction i j rule: linorder_wlog)
  case (le i j)
  let ?g = "gcd n m"
  have g: "?g \<noteq> 0" using le(2) by simp
  have "(r + j * m) mod n = (r + i * m) mod n" using le(5) by (simp add: visit_def)
  then have "n dvd (r + j * m) - (r + i * m)"
    using le(1) by (simp add: mod_eq_dvd_iff_nat)
  then have "n dvd (j - i) * m" by (simp add: diff_mult_distrib)
  then have "(n div ?g) * ?g dvd (j - i) * (m div ?g) * ?g" by (simp add: mult.assoc)
  then have "n div ?g dvd (j - i) * (m div ?g)" by (simp only: dvd_times_right_cancel_iff [OF g])
  moreover have "coprime (n div ?g) (m div ?g)" using le(2) by (simp add: div_gcd_coprime)
  ultimately have "n div ?g dvd j - i" by (simp add: coprime_dvd_mult_left_iff)
  moreover have "j - i < n div ?g" using le(4) by simp
  ultimately have "j - i = 0" by (metis dvd_imp_le gr_zeroI not_le)
  with le(1) show ?case by simp
qed simp

text \<open>
  The state of the vector after \<open>j\<close> rounds of a cycle that starts at \<open>s + r\<close>: every element
  visited so far has moved to the next position, and the last one waits at the start.
\<close>

definition shifted :: "nat \<Rightarrow> nat \<Rightarrow> nat \<Rightarrow> nat \<Rightarrow> nat \<Rightarrow> 'a list \<Rightarrow> 'a list \<Rightarrow> bool" where
  "shifted s n m r j xs ys \<longleftrightarrow> length ys = length xs \<and>
     (\<forall>i < j. ys ! (s + visit n m r (Suc i)) = xs ! (s + visit n m r i)) \<and>
     ys ! (s + visit n m r 0) = xs ! (s + visit n m r j) \<and>
     (\<forall>p. (\<forall>i \<le> j. p \<noteq> s + visit n m r i) \<longrightarrow> ys ! p = xs ! p)"

lemma shifted_step:
  assumes "shifted s n m r j xs ys" and "0 < n" and "Suc j < n div gcd n m" and "s + n \<le> length xs"
  shows "shifted s n m r (Suc j) xs
    (ys[s + visit n m r (Suc j) := ys ! (s + visit n m r 0), s + visit n m r 0 := ys ! (s + visit n m r (Suc j))])"
proof -
  let ?v = "visit n m r" let ?p = "s + ?v (Suc j)" let ?c = "s + ?v 0"
  have inj: "?v i = ?v i' \<longleftrightarrow> i = i'" if "i \<le> Suc j" "i' \<le> Suc j" for i i'
    using visit_inj [OF assms(2), of i m i' r] that assms(3) by auto
  have lt: "s + ?v i < length ys" for i
    using assms(1,4) visit_less [OF assms(2), of m r i] by (simp add: shifted_def)
  have p: "ys ! ?p = xs ! ?p" using assms(1) inj unfolding shifted_def by force
  have c: "ys ! ?c = xs ! (s + ?v j)" using assms(1) by (simp add: shifted_def)
  have ne: "?c \<noteq> ?p" using inj [of 0 "Suc j"] by simp
  let ?zs = "ys[?p := ys ! ?c, ?c := ys ! ?p]"
  have "?zs ! (s + ?v (Suc i)) = xs ! (s + ?v i)" if "i < Suc j" for i
  proof (cases "i = j")
    case True
    then show ?thesis using ne c lt by simp
  next
    case False
    then have "s + ?v (Suc i) \<noteq> ?p" "s + ?v (Suc i) \<noteq> ?c" using that inj [of "Suc i" "Suc j"] inj [of "Suc i" 0] by auto
    then show ?thesis using False that assms(1) by (simp add: shifted_def)
  qed
  moreover have "?zs ! ?c = xs ! ?p" using lt p by simp
  moreover have "?zs ! q = xs ! q" if "\<forall>i \<le> Suc j. q \<noteq> s + ?v i" for q
  proof -
    have "?p \<noteq> q" "?c \<noteq> q" "\<forall>i \<le> j. q \<noteq> s + ?v i" using that by auto
    then show ?thesis using assms(1) by (simp add: shifted_def nth_list_update_neq)
  qed
  ultimately show ?thesis using assms(1) by (simp add: shifted_def)
qed

lemma next_position:
  fixes n nn m rel s :: nat
  assumes "n = nn + m" and "rel < n"
  shows "(if s + rel \<ge> s + nn then s + rel - nn else s + rel + m) = s + (rel + m) mod n"
proof (cases "nn \<le> rel")
  case True
  have "(rel + m) mod n = rel + m - n" using assms True mod_wrap [of "rel + m" n] by simp
  with True assms show ?thesis by simp
qed (use assms in simp)

lemma cycle_rounds:
  assumes "n = nn + m" and "0 < n" and "s + n \<le> length xs"
  shows "shifted s n m r j xs ys \<Longrightarrow> j + k < n div gcd n m \<Longrightarrow>
    \<exists>zs. cycle_loop nn m (s + nn) (s + visit n m r 0) (k + l) (s + visit n m r j) ys =
      cycle_loop nn m (s + nn) (s + visit n m r 0) l (s + visit n m r (j + k)) zs \<and> shifted s n m r (j + k) xs zs"
proof (induction k arbitrary: j ys)
  case (Suc k)
  let ?v = "visit n m r"
  have lt: "s + ?v i < length ys" for i
    using Suc.prems(1) assms visit_less [OF assms(2), of m r i] by (simp add: shifted_def)
  let ?ys = "ys[s + ?v (Suc j) := ys ! (s + ?v 0), s + ?v 0 := ys ! (s + ?v (Suc j))]"
  have step: "cycle_loop nn m (s + nn) (s + ?v 0) (Suc k + l) (s + ?v j) ys =
    cycle_loop nn m (s + nn) (s + ?v 0) (k + l) (s + ?v (Suc j)) ?ys"
    using lt [of "Suc j"] lt [of 0] next_position [OF assms(1) visit_less [OF assms(2)], of s m r j]
    by (simp add: Let_def visit_step)
  have "shifted s n m r (Suc j) xs ?ys"
    by (rule shifted_step [OF Suc.prems(1) assms(2) _ assms(3)]) (use Suc.prems(2) in simp)
  from Suc.IH [OF this] Suc.prems(2) show ?case unfolding step by simp
qed auto

lemma cycle_result:
  assumes "n = nn + m" and "0 < n" and "s + n \<le> length xs" and "r < n"
  shows "\<exists>zs. cycle_loop nn m (s + nn) (s + r) (n div gcd n m) (s + r) xs = Some zs \<and> length zs = length xs \<and>
    (\<forall>i < n div gcd n m. zs ! (s + (visit n m r i + m) mod n) = xs ! (s + visit n m r i)) \<and>
    (\<forall>p. (\<forall>i < n div gcd n m. p \<noteq> s + visit n m r i) \<longrightarrow> zs ! p = xs ! p)"
proof -
  let ?v = "visit n m r" let ?L = "n div gcd n m"
  have v0: "?v 0 = r" using assms(4) by (simp add: visit_def)
  have L: "0 < ?L" using assms(2) by (simp add: div_greater_zero_iff dvd_imp_le)
  have vL: "?v ?L = r"
  proof -
    have "?L * m = n * (m div gcd n m)" by (simp add: dvd_div_mult div_mult_swap mult.commute)
    then show ?thesis using assms(4) by (simp add: visit_def)
  qed
  have s0: "shifted s n m r 0 xs xs" by (simp add: shifted_def)
  obtain zs where z: "cycle_loop nn m (s + nn) (s + ?v 0) (?L - 1 + 1) (s + ?v 0) xs =
      cycle_loop nn m (s + nn) (s + ?v 0) 1 (s + ?v (0 + (?L - 1))) zs" "shifted s n m r (0 + (?L - 1)) xs zs"
    using cycle_rounds [OF assms(1-3) s0, of "?L - 1" 1] L by auto
  have lt: "s + r < length zs" using z(2) assms(3,4) by (simp add: shifted_def)
  have "(if s + ?v (?L - 1) \<ge> s + nn then s + ?v (?L - 1) - nn else s + ?v (?L - 1) + m) = s + r"
    using next_position [OF assms(1) visit_less [OF assms(2)], of s m r "?L - 1"] vL L visit_step [of n m r "?L - 1"] by simp
  then have "cycle_loop nn m (s + nn) (s + r) (Suc 0) (s + ?v (?L - 1)) zs = Some zs"
    using lt unfolding cycle_loop.simps Let_def by simp
  then have "cycle_loop nn m (s + nn) (s + r) ?L (s + r) xs = Some zs"
    using z(1) L v0 by (simp del: cycle_loop.simps)
  moreover have "zs ! (s + (?v i + m) mod n) = xs ! (s + ?v i)" if "i < ?L" for i
  proof (cases "i = ?L - 1")
    case True
    with z(2) L vL v0 visit_step [of n m r i] show ?thesis by (simp add: shifted_def)
  next
    case False
    with that have "i < ?L - 1" by simp
    with z(2) show ?thesis unfolding visit_step [of n m r i, symmetric] by (simp add: shifted_def)
  qed
  moreover have "zs ! p = xs ! p" if "\<forall>i < ?L. p \<noteq> s + ?v i" for p
    using that z(2) L by (auto simp: shifted_def)
  ultimately show ?thesis using z(2) by (auto simp: shifted_def)
qed

text \<open>A cycle visits exactly the positions of its residue class.\<close>

lemma visit_residue: "g dvd n \<Longrightarrow> g dvd m \<Longrightarrow> visit n m r i mod g = r mod g"
  by (auto simp: visit_def mod_mod_cancel mult.left_commute elim!: dvdE)

lemma visit_class:
  assumes "0 < n" and "r < n"
  shows "visit n m r ` {..<n div gcd n m} = {q. q < n \<and> q mod gcd n m = r mod gcd n m}" (is "?V = ?C")
proof (rule card_subset_eq)
  let ?g = "gcd n m"
  have g: "0 < ?g" using assms(1) by simp
  show "finite ?C" by simp
  show "?V \<subseteq> ?C" using visit_less [OF assms(1)] visit_residue [of ?g n m r] by auto
  have "card ?V = n div ?g"
    using visit_inj [OF assms(1)] by (subst card_image) (auto intro!: inj_onI)
  moreover have "bij_betw (\<lambda>j. r mod ?g + j * ?g) {..<n div ?g} ?C"
  proof (rule bij_betw_byWitness [where f' = "\<lambda>q. q div ?g"])
    have "r mod ?g + j * ?g < n" if "j < n div ?g" for j
    proof -
      have "Suc j * ?g \<le> n div ?g * ?g" using that by (intro mult_right_mono) auto
      moreover have "n div ?g * ?g = n" by simp
      moreover have "r mod ?g < ?g" using g by simp
      ultimately show ?thesis unfolding mult_Suc by linarith
    qed
    then show "(\<lambda>j. r mod ?g + j * ?g) ` {..<n div ?g} \<subseteq> ?C" by auto
    have "q div ?g < n div ?g" if "q < n" for q
      using that g by (simp add: less_mult_imp_div_less)
    then show "(\<lambda>q. q div ?g) ` ?C \<subseteq> {..<n div ?g}" by auto
    show "\<forall>j \<in> {..<n div ?g}. (r mod ?g + j * ?g) div ?g = j" using g by simp
    have "q mod ?g + q div ?g * ?g = q" for q by (simp add: mod_div_mult_eq)
    then show "\<forall>q \<in> ?C. r mod ?g + q div ?g * ?g = q" by (metis (mono_tags, lifting) mem_Collect_eq)
  qed
  ultimately show "card ?V = card ?C" using bij_betw_same_card by fastforce
qed

text \<open>The vector after the first \<open>i\<close> cycles.\<close>

definition cycled :: "nat \<Rightarrow> nat \<Rightarrow> nat \<Rightarrow> nat \<Rightarrow> 'a list \<Rightarrow> 'a list \<Rightarrow> bool" where
  "cycled s n m i xs ys \<longleftrightarrow> length ys = length xs \<and>
     (\<forall>q < n. q mod gcd n m < i \<longrightarrow> ys ! (s + (q + m) mod n) = xs ! (s + q)) \<and>
     (\<forall>p. p < s \<or> s + n \<le> p \<or> i \<le> (p - s) mod gcd n m \<longrightarrow> ys ! p = xs ! p)"

lemma cycled_step:
  assumes "cycled s n m i xs ys" and n: "n = nn + m" and m: "0 < m" and nn: "0 < nn" and len: "s + n \<le> length xs"
    and i: "i < gcd n m"
  shows "\<exists>zs. cycle_loop nn m (s + nn) (s + nn + i) (n div gcd n m) (s + nn + i) ys = Some zs \<and> cycled s n m (Suc i) xs zs"
proof -
  let ?g = "gcd n m" let ?r = "nn + i"
  have g: "?g dvd n" "?g dvd m" "?g dvd nn" using n by (simp_all add: dvd_add_right_iff [symmetric])
  have "?g \<le> m" using g(2) m by (rule dvd_imp_le)
  with i have "i < m" by (rule less_le_trans)
  then have r: "?r < n" "0 < n" using n m by simp_all
  have res: "?r mod ?g = i" using g(3) i by (auto elim!: dvdE)
  have l: "s + n \<le> length ys" using assms(1) len by (simp add: cycled_def)
  obtain zs where z: "cycle_loop nn m (s + nn) (s + ?r) (n div ?g) (s + ?r) ys = Some zs" "length zs = length ys"
    "\<forall>j < n div ?g. zs ! (s + (visit n m ?r j + m) mod n) = ys ! (s + visit n m ?r j)"
    "\<forall>p. (\<forall>j < n div ?g. p \<noteq> s + visit n m ?r j) \<longrightarrow> zs ! p = ys ! p"
    using cycle_result [OF n r(2) l r(1)] by blast
  note cls = visit_class [OF r(2,1), of m, unfolded res]
  have moved: "zs ! (s + (q + m) mod n) = ys ! (s + q)" if "q < n" "q mod ?g = i" for q
  proof -
    have "q \<in> visit n m ?r ` {..<n div ?g}" using that cls by blast
    with z(3) show ?thesis by auto
  qed
  have kept: "zs ! p = ys ! p" if "p < s \<or> s + n \<le> p \<or> (p - s) mod ?g \<noteq> i" for p
  proof -
    have "p \<noteq> s + visit n m ?r j" if "j < n div ?g" for j
    proof
      assume p: "p = s + visit n m ?r j"
      have "visit n m ?r j \<in> {q. q < n \<and> q mod ?g = i}" using cls that by blast
      with p \<open>p < s \<or> s + n \<le> p \<or> (p - s) mod ?g \<noteq> i\<close> show False by auto
    qed
    with z(4) show ?thesis by blast
  qed
  have "zs ! (s + (q + m) mod n) = xs ! (s + q)" if "q < n" "q mod ?g < Suc i" for q
  proof (cases "q mod ?g = i")
    case True
    with moved [OF that(1)] assms(1) show ?thesis by (auto simp: cycled_def)
  next
    case False
    have "(q + m) mod n mod ?g = q mod ?g" using visit_residue [OF g(1,2), of q 1] by (simp add: visit_def)
    with False kept [of "s + (q + m) mod n"] have "zs ! (s + (q + m) mod n) = ys ! (s + (q + m) mod n)" by simp
    with False that assms(1) show ?thesis by (simp add: cycled_def)
  qed
  moreover have "zs ! p = xs ! p" if "p < s \<or> s + n \<le> p \<or> Suc i \<le> (p - s) mod ?g" for p
    using that kept [of p] assms(1) by (auto simp: cycled_def)
  ultimately show ?thesis using z(1,2) assms(1) by (auto simp: cycled_def add.assoc)
qed

lemma cycles_result:
  assumes "n = nn + m" and "0 < m" and "0 < nn" and "s + n \<le> length xs"
  shows "cycled s n m i xs ys \<Longrightarrow> i + k = gcd n m \<Longrightarrow>
    \<exists>zs. cycles_loop nn m (s + nn) (n div gcd n m) i k ys = Some zs \<and> cycled s n m (gcd n m) xs zs"
proof (induction k arbitrary: i ys)
  case (Suc k)
  then obtain ys' where y: "cycle_loop nn m (s + nn) (s + nn + i) (n div gcd n m) (s + nn + i) ys = Some ys'"
    "cycled s n m (Suc i) xs ys'" using cycled_step [OF Suc.prems(1) assms] by auto
  from Suc.IH [OF y(2)] Suc.prems(2) y(1) show ?case by simp
qed simp

definition swap_blocks :: "nat \<Rightarrow> nat \<Rightarrow> nat \<Rightarrow> 'a list \<Rightarrow> 'a list" where
  "swap_blocks a b c xs = take a xs @ take (c - b) (drop b xs) @ take (b - a) (drop a xs) @ drop c xs"

lemma cycled_all:
  assumes "cycled s n m (gcd n m) xs ys" and "n = nn + m" and "0 < m" and "0 < nn" and "s + n \<le> length xs"
  shows "ys = swap_blocks s (s + nn) (s + n) xs"
proof (rule nth_equalityI)
  show "length ys = length (swap_blocks s (s + nn) (s + n) xs)"
    using assms by (simp add: cycled_def swap_blocks_def)
  fix p assume "p < length ys"
  have p: "p < length xs" using \<open>p < length ys\<close> assms(1) by (simp add: cycled_def)
  show "ys ! p = swap_blocks s (s + nn) (s + n) xs ! p"
  proof (cases "p < s \<or> s + n \<le> p")
    case True
    then have "ys ! p = xs ! p" using assms(1) by (auto simp: cycled_def)
    with True p assms(2,5) show ?thesis by (auto simp: swap_blocks_def nth_append)
  next
    case False
    define d where "d = p - s"
    define q where "q = (if d < m then d + nn else d - m)"
    have d: "p = s + d" "d < n" using False by (auto simp: d_def)
    have "(d + n) mod n = d" using d(2) by simp
    then have "q < n" "(q + m) mod n = d"
      using d(2) assms(2) by (auto simp: q_def add.assoc)
    moreover have "q mod gcd n m < gcd n m" using assms(3) by simp
    ultimately have "ys ! p = xs ! (s + q)" using assms(1) d(1) unfolding cycled_def by metis
    also have "\<dots> = swap_blocks s (s + nn) (s + n) xs ! p"
      using d assms(2,5) by (auto simp: q_def swap_blocks_def nth_append ac_simps)
    finally show ?thesis .
  qed
qed

lemma permute_args_eq:
  assumes "a < b" and "b < c" and "c \<le> length xs"
  shows "permute_args a b c xs = Some (swap_blocks a b c xs)"
proof -
  let ?nn = "b - a" let ?m = "c - b" let ?n = "?nn + ?m"
  have g: "gcd_c ?nn ?m = Some (gcd ?n ?m)" using assms gcd_add1 [of ?nn ?m] by (simp only: gcd_c_eq zero_less_diff)
  have "a + ?n \<le> length xs" "0 < ?m" "0 < ?nn" using assms by simp_all
  note r = cycles_result [OF refl this(2,3,1), of 0 xs "gcd ?n ?m"]
  have "cycled a ?n ?m 0 xs xs" by (simp add: cycled_def)
  with r obtain zs where z: "cycles_loop ?nn ?m (a + ?nn) (?n div gcd ?n ?m) 0 (gcd ?n ?m) xs = Some zs"
    "cycled a ?n ?m (gcd ?n ?m) xs zs" by auto
  have "zs = swap_blocks a (a + ?nn) (a + ?n) xs"
    using cycled_all [OF z(2) refl] assms by simp
  with z(1) g assms show ?thesis by (simp add: permute_args_def Let_def)
qed

lemma cycle_loop_length: "cycle_loop nn m pend c k pos xs = Some ys \<Longrightarrow> length ys = length xs"
  by (induction k arbitrary: pos xs) (fastforce simp: Let_def split: if_splits)+

lemma cycles_loop_length: "cycles_loop nn m pend l i k xs = Some ys \<Longrightarrow> length ys = length xs"
  by (induction k arbitrary: i xs) (auto simp: bind_eq_Some_conv cycle_loop_length)

lemma permute_args_length: "permute_args a b c xs = Some ys \<Longrightarrow> length ys = length xs"
  by (auto simp: permute_args_def Let_def bind_eq_Some_conv cycles_loop_length)

section \<open>State\<close>

datatype has_arg = no_argument | required_argument | optional_argument

text \<open>\<^verbatim>\<open>struct option\<close>; the flag is the address of the caller's variable, if there is one.\<close>

record long_option =
  lo_name :: string
  lo_has_arg :: has_arg
  lo_flag :: "addr option"
  lo_val :: int

datatype dash_prefix = NO_PREFIX | D_PREFIX | DD_PREFIX | W_PREFIX

text \<open>
  \<open>gl_at_start\<close> tells whether \<^verbatim>\<open>place\<close> points to the first character of an argument;
  \<open>gl_flag_vars\<close> and \<open>gl_idx\<close> are the caller's variables.
\<close>

record getopt_long_state =
  gl_opterr :: bool
  gl_optind :: nat
  gl_optopt :: int
  gl_optreset :: bool
  gl_optarg :: "string option"
  gl_place :: string
  gl_at_start :: bool
  gl_nonopt_start :: "nat option"
  gl_nonopt_end :: "nat option"
  gl_dash_prefix :: dash_prefix
  gl_argv :: "string list"
  gl_flag_vars :: "addr \<Rightarrow> int"
  gl_idx :: "nat option"
  gl_messages :: "string list"

record getopt_flags =
  fl_permute :: bool
  fl_allargs :: bool
  fl_longonly :: bool

definition INORDER :: int where
  "INORDER = 1"

text \<open>\<^verbatim>\<open>nargv[i]\<close>: the vector ends with a null pointer, beyond it is a fault.\<close>

definition arg_at :: "string list \<Rightarrow> nat \<Rightarrow> string option option" where
  "arg_at argv i = (if i < length argv then Some (Some (argv ! i)) else if i = length argv then Some None else None)"

definition print_error :: "string \<Rightarrow> getopt_long_state \<Rightarrow> bool" where
  "print_error options st \<longleftrightarrow> gl_opterr st \<and> \<not> starts options colon"

definition bad_arg :: "string \<Rightarrow> int" where
  "bad_arg options = (if starts options colon then BADARG else BADCH)"

definition warn_option :: "string \<Rightarrow> string \<Rightarrow> getopt_long_state \<Rightarrow> getopt_long_state" where
  "warn_option options text st =
     (if print_error options st then st\<lparr>gl_messages := gl_messages st @ [text]\<rparr> else st)"

definition current_dash :: "getopt_long_state \<Rightarrow> string" where
  "current_dash st = (case gl_dash_prefix st of NO_PREFIX \<Rightarrow> '''' | D_PREFIX \<Rightarrow> ''-'' | DD_PREFIX \<Rightarrow> ''--'' | W_PREFIX \<Rightarrow> ''-W '')"

definition quote_mark :: char where
  "quote_mark = CHR 0x27"

section \<open>Long options\<close>

text \<open>
  The loop over the table from index \<open>i\<close>: the match so far and whether there was a second partial
  match that differs from it. The result is the match, whether it is exact, and that flag.
\<close>

fun match_long ::
  "long_option list \<Rightarrow> string \<Rightarrow> bool \<Rightarrow> bool \<Rightarrow> nat \<Rightarrow> long_option list \<Rightarrow> nat option \<Rightarrow> bool \<Rightarrow> nat option \<times> bool \<times> bool" where
  "match_long longs key short_too longonly i [] m second = (m, False, second)"
| "match_long longs key short_too longonly i (x # xs) m second =
     (if take (length key) (lo_name x) \<noteq> key then match_long longs key short_too longonly (Suc i) xs m second
      else if length (lo_name x) = length key then (Some i, True, second)
      else if short_too \<and> length key = 1 then match_long longs key short_too longonly (Suc i) xs m second
      else case m of
        None \<Rightarrow> match_long longs key short_too longonly (Suc i) xs (Some i) second
      | Some k \<Rightarrow>
          match_long longs key short_too longonly (Suc i) xs m
            (second \<or> longonly \<or> lo_has_arg x \<noteq> lo_has_arg (longs ! k) \<or> lo_flag x \<noteq> lo_flag (longs ! k) \<or>
             lo_val x \<noteq> lo_val (longs ! k)))"

definition flagless_val :: "long_option \<Rightarrow> int" where
  "flagless_val x = (if lo_flag x = None then lo_val x else 0)"

definition parse_long_options ::
  "string \<Rightarrow> long_option list \<Rightarrow> bool \<Rightarrow> bool \<Rightarrow> bool \<Rightarrow> getopt_long_state \<Rightarrow> (int \<times> getopt_long_state) option" where
  "parse_long_options options longs idx short_too longonly st =
     (let cur = gl_place st; st1 = st\<lparr>gl_optind := gl_optind st + 1\<rparr>;
          key = takeWhile (\<lambda>c. c \<noteq> CHR ''='') cur;
          has_equal = (if CHR ''='' \<in> set cur then Some (tl (dropWhile (\<lambda>c. c \<noteq> CHR ''='') cur)) else None);
          (m, exact, second) = match_long longs key short_too longonly 0 longs None False
      in if \<not> exact \<and> second then
           Some (BADCH, (warn_option options (''option `'' @ current_dash st1 @ key @ [quote_mark] @ '' is ambiguous'') st1)\<lparr>gl_optopt := 0\<rparr>)
         else case m of
           None \<Rightarrow>
             if short_too then Some (- 1, st1\<lparr>gl_optind := gl_optind st1 - 1\<rparr>)
             else Some (BADCH, (warn_option options (''unrecognized option `'' @ current_dash st1 @ cur @ [quote_mark]) st1)\<lparr>gl_optopt := 0\<rparr>)
         | Some k \<Rightarrow>
             let x = longs ! k in
             if lo_has_arg x = no_argument \<and> has_equal \<noteq> None then
               Some (BADCH, (warn_option options (''option `'' @ current_dash st1 @ key @ [quote_mark] @ '' doesn't allow an argument'') st1)
                              \<lparr>gl_optopt := flagless_val x\<rparr>)
             else do {
               st2 \<leftarrow> (if lo_has_arg x = no_argument then Some st1
                       else case has_equal of
                         Some e \<Rightarrow> Some (st1\<lparr>gl_optarg := Some e\<rparr>)
                       | None \<Rightarrow>
                           if lo_has_arg x = required_argument
                           then do { a \<leftarrow> arg_at (gl_argv st1) (gl_optind st1);
                                     Some (st1\<lparr>gl_optarg := a, gl_optind := gl_optind st1 + 1\<rparr>) }
                           else Some st1);
               if lo_has_arg x = required_argument \<and> gl_optarg st2 = None then
                 Some (bad_arg options,
                   (warn_option options (''option `'' @ current_dash st2 @ cur @ [quote_mark] @ '' requires an argument'') st2)
                     \<lparr>gl_optopt := flagless_val x, gl_optind := gl_optind st2 - 1\<rparr>)
               else
                 let st3 = (if idx then st2\<lparr>gl_idx := Some k\<rparr> else st2)
                 in (case lo_flag x of
                       Some a \<Rightarrow> Some (0, st3\<lparr>gl_flag_vars := (gl_flag_vars st3)(a := lo_val x)\<rparr>)
                     | None \<Rightarrow> Some (lo_val x, st3)) })"

section \<open>Scanning\<close>

text \<open>
  The part of \<^verbatim>\<open>getopt_internal\<close> up to the first character of an option: it returns to the caller,
  or goes on with \<^verbatim>\<open>place\<close> at an option.
\<close>

datatype scan_outcome = Returned int getopt_long_state | Scanned getopt_long_state

text \<open>\<^verbatim>\<open>permute_args(nonopt_start, nonopt_end, i, nargv)\<close>, when \<^verbatim>\<open>nonopt_end\<close> is set.\<close>

definition do_permute :: "nat \<Rightarrow> getopt_long_state \<Rightarrow> getopt_long_state option" where
  "do_permute i st =
     (case (gl_nonopt_start st, gl_nonopt_end st) of
        (Some s, Some e) \<Rightarrow> do { argv \<leftarrow> permute_args s e i (gl_argv st); Some (st\<lparr>gl_argv := argv\<rparr>) }
      | _ \<Rightarrow> None)"

definition nonopt_count :: "getopt_long_state \<Rightarrow> nat" where
  "nonopt_count st = the (gl_nonopt_end st) - the (gl_nonopt_start st)"

definition forget_nonopts :: "getopt_long_state \<Rightarrow> getopt_long_state" where
  "forget_nonopts st = st\<lparr>gl_nonopt_start := None, gl_nonopt_end := None\<rparr>"

definition is_nonopt :: "string \<Rightarrow> bool" where
  "is_nonopt arg \<longleftrightarrow> \<not> starts arg dash \<or> tl arg = []"

text \<open>The end of the argument vector.\<close>

definition scan_end :: "getopt_long_state \<Rightarrow> scan_outcome option" where
  "scan_end st =
     (if gl_nonopt_end st \<noteq> None then
        do { st1 \<leftarrow> do_permute (gl_optind st) st;
             Some (Returned (- 1) (forget_nonopts (st1\<lparr>gl_optind := gl_optind st - nonopt_count st\<rparr>))) }
      else case gl_nonopt_start st of
        Some s \<Rightarrow> Some (Returned (- 1) (forget_nonopts (st\<lparr>gl_optind := s\<rparr>)))
      | None \<Rightarrow> Some (Returned (- 1) (forget_nonopts st)))"

text \<open>A non-option is skipped: it starts, extends or, after options, moves the block of non-options.\<close>

definition skip_nonopt :: "getopt_long_state \<Rightarrow> getopt_long_state option" where
  "skip_nonopt st =
     (if gl_nonopt_start st = None then Some (st\<lparr>gl_nonopt_start := Some (gl_optind st)\<rparr>)
      else if gl_nonopt_end st \<noteq> None then
        do { st1 \<leftarrow> do_permute (gl_optind st) st;
             Some (st1\<lparr>gl_nonopt_start := Some (gl_optind st - nonopt_count st), gl_nonopt_end := None\<rparr>) }
      else Some st)"

text \<open>The argument \<^verbatim>\<open>--\<close>.\<close>

definition scan_dashes :: "getopt_long_state \<Rightarrow> scan_outcome option" where
  "scan_dashes st =
     (let st1 = st\<lparr>gl_optind := gl_optind st + 1, gl_place := [], gl_at_start := False\<rparr> in
      if gl_nonopt_end st1 \<noteq> None then
        do { st2 \<leftarrow> do_permute (gl_optind st1) st1;
             Some (Returned (- 1) (forget_nonopts (st2\<lparr>gl_optind := gl_optind st1 - nonopt_count st1\<rparr>))) }
      else Some (Returned (- 1) (forget_nonopts st1)))"

lemma skip_nonopt_fields:
  "skip_nonopt st = Some st1 \<Longrightarrow> length (gl_argv st1) = length (gl_argv st) \<and> gl_optind st1 = gl_optind st"
  by (auto simp: skip_nonopt_def do_permute_def bind_eq_Some_conv permute_args_length split: if_splits option.splits)

function scan_args :: "bool \<Rightarrow> bool \<Rightarrow> getopt_long_state \<Rightarrow> scan_outcome option" where
  "scan_args allargs permute st =
     (if gl_optreset st \<or> gl_place st = [] then
        let st1 = st\<lparr>gl_optreset := False, gl_place := [], gl_at_start := False\<rparr>; i = gl_optind st in
        if i \<ge> length (gl_argv st) then scan_end st1
        else if is_nonopt (gl_argv st ! i) then
          if allargs then Some (Returned INORDER (st1\<lparr>gl_optarg := Some (gl_argv st ! i), gl_optind := i + 1\<rparr>))
          else if \<not> permute then Some (Returned (- 1) st1)
          else (case skip_nonopt st1 of
                  None \<Rightarrow> None
                | Some st2 \<Rightarrow> scan_args allargs permute (st2\<lparr>gl_optind := i + 1\<rparr>))
        else
          let st2 = (if gl_nonopt_start st1 \<noteq> None \<and> gl_nonopt_end st1 = None then st1\<lparr>gl_nonopt_end := Some i\<rparr> else st1)
          in if tl (gl_argv st ! i) = [dash] then scan_dashes st2
             else Some (Scanned (st2\<lparr>gl_place := tl (gl_argv st ! i)\<rparr>))
      else Some (Scanned st))"
  by pat_completeness auto
termination
  by (relation "measure (\<lambda>(allargs, permute, st). length (gl_argv st) - gl_optind st)")
    (auto dest!: skip_nonopt_fields)

declare scan_args.simps [simp del]

section \<open>One call\<close>

text \<open>The text behind the letter in the option string, \<^verbatim>\<open>oli + 1\<close>.\<close>

definition after_letter :: "string \<Rightarrow> char \<Rightarrow> string" where
  "after_letter options c = tl (dropWhile (\<lambda>d. d \<noteq> c) options)"

definition missing_argument :: "string \<Rightarrow> char \<Rightarrow> getopt_long_state \<Rightarrow> int \<times> getopt_long_state" where
  "missing_argument options c st =
     (bad_arg options,
      (warn_option options (''option requires an argument -- '' @ [c]) (st\<lparr>gl_place := [], gl_at_start := False\<rparr>))
        \<lparr>gl_optopt := code c\<rparr>)"

text \<open>At the end of the text \<^verbatim>\<open>strchr\<close> finds the terminator and the code reads behind it.\<close>

definition short_option ::
  "string \<Rightarrow> long_option list option \<Rightarrow> bool \<Rightarrow> bool \<Rightarrow> bool \<Rightarrow> getopt_long_state \<Rightarrow> (int \<times> getopt_long_state) option" where
  "short_option options longs idx longonly posixly st =
     (if gl_place st = [] then None
      else let c = hd (gl_place st); st1 = st\<lparr>gl_place := tl (gl_place st), gl_at_start := False\<rparr> in
      if c = colon \<or> (c = dash \<and> gl_place st1 \<noteq> []) \<or> c \<notin> set options then
        if c = dash \<and> gl_place st1 = [] then Some (- 1, st1)
        else let st2 = (if gl_place st1 = [] then st1\<lparr>gl_optind := gl_optind st1 + 1\<rparr> else st1)
             in Some (BADCH,
                  (warn_option options ((if posixly then ''illegal option -- '' else ''invalid option -- '') @ [c]) st2)
                    \<lparr>gl_optopt := code c\<rparr>)
      else if longs \<noteq> None \<and> c = CHR ''W'' \<and> starts (after_letter options c) (CHR '';'') then
        if gl_place st1 = [] \<and> gl_optind st1 + 1 \<ge> length (gl_argv st1)
        then Some (missing_argument options c (st1\<lparr>gl_optind := gl_optind st1 + 1\<rparr>))
        else
          let st2 = (if gl_place st1 \<noteq> [] then st1
                     else st1\<lparr>gl_optind := gl_optind st1 + 1, gl_place := gl_argv st1 ! (gl_optind st1 + 1), gl_at_start := True\<rparr>)
          in do { (r, st3) \<leftarrow> parse_long_options options (the longs) idx False longonly (st2\<lparr>gl_dash_prefix := W_PREFIX\<rparr>);
                  Some (r, st3\<lparr>gl_place := [], gl_at_start := False\<rparr>) }
      else if \<not> starts (after_letter options c) colon then
        Some (code c, if gl_place st1 = [] then st1\<lparr>gl_optind := gl_optind st1 + 1\<rparr> else st1)
      else if gl_place st1 \<noteq> [] then
        Some (code c, st1\<lparr>gl_optarg := Some (gl_place st1), gl_place := [], gl_optind := gl_optind st1 + 1\<rparr>)
      else if \<not> starts (tl (after_letter options c)) colon then
        if gl_optind st1 + 1 \<ge> length (gl_argv st1)
        then Some (missing_argument options c (st1\<lparr>gl_optarg := None, gl_optind := gl_optind st1 + 1\<rparr>))
        else Some (code c, st1\<lparr>gl_optarg := Some (gl_argv st1 ! (gl_optind st1 + 1)), gl_place := [],
                               gl_optind := gl_optind st1 + 2\<rparr>)
      else Some (code c, st1\<lparr>gl_optarg := None, gl_place := [], gl_optind := gl_optind st1 + 1\<rparr>))"

text \<open>
  The long options come first, for an argument that starts with two dashes or for
  \<^verbatim>\<open>getopt_long_only\<close>; when the text matches none but could be a letter, the letter is tried.
\<close>

definition try_long ::
  "string \<Rightarrow> long_option list option \<Rightarrow> bool \<Rightarrow> bool \<Rightarrow> bool \<Rightarrow> getopt_long_state \<Rightarrow> (int \<times> getopt_long_state) option" where
  "try_long options longs idx longonly posixly st =
     (if longs \<noteq> None \<and> \<not> gl_at_start st \<and> (starts (gl_place st) dash \<or> longonly) then
        let dd = starts (gl_place st) dash;
            short_too = (\<not> dd \<and> \<not> starts (gl_place st) colon \<and> hd (gl_place st) \<in> set options);
            st1 = (if dd then st\<lparr>gl_place := tl (gl_place st), gl_dash_prefix := DD_PREFIX\<rparr> else st\<lparr>gl_dash_prefix := D_PREFIX\<rparr>)
        in do { (r, st2) \<leftarrow> parse_long_options options (the longs) idx short_too longonly st1;
                if r \<noteq> - 1 then Some (r, st2\<lparr>gl_place := [], gl_at_start := False\<rparr>)
                else short_option options longs idx longonly posixly st2 }
      else short_option options longs idx longonly posixly st)"

definition getopt_internal ::
  "string option \<Rightarrow> long_option list option \<Rightarrow> bool \<Rightarrow> bool \<Rightarrow> getopt_flags \<Rightarrow> getopt_long_state \<Rightarrow> (int \<times> getopt_long_state) option" where
  "getopt_internal options_ptr longs idx posixly flags st =
     (case options_ptr of
        None \<Rightarrow> Some (- 1, st)
      | Some opts \<Rightarrow>
          let allargs = (fl_allargs flags \<or> starts opts dash);
              permute = (fl_permute flags \<and> (starts opts dash \<or> \<not> (posixly \<or> starts opts (CHR ''+''))));
              options = (if starts opts (CHR ''+'') \<or> starts opts dash then tl opts else opts);
              st1 = (if gl_optind st = 0 then st\<lparr>gl_optind := 1, gl_optreset := True\<rparr> else st);
              st2 = st1\<lparr>gl_optarg := None\<rparr>;
              st3 = (if gl_optreset st2 then forget_nonopts st2 else st2)
          in (case scan_args allargs permute st3 of
                None \<Rightarrow> None
              | Some (Returned r st4) \<Rightarrow> Some (r, st4)
              | Some (Scanned st4) \<Rightarrow> try_long options longs idx (fl_longonly flags) posixly st4))"

definition getopt_long ::
  "string option \<Rightarrow> long_option list option \<Rightarrow> bool \<Rightarrow> bool \<Rightarrow> getopt_long_state \<Rightarrow> (int \<times> getopt_long_state) option" where
  "getopt_long options longs idx posixly st =
     getopt_internal options longs idx posixly \<lparr>fl_permute = True, fl_allargs = False, fl_longonly = False\<rparr> st"

definition getopt_long_only ::
  "string option \<Rightarrow> long_option list option \<Rightarrow> bool \<Rightarrow> bool \<Rightarrow> getopt_long_state \<Rightarrow> (int \<times> getopt_long_state) option" where
  "getopt_long_only options longs idx posixly st =
     getopt_internal options longs idx posixly \<lparr>fl_permute = True, fl_allargs = False, fl_longonly = True\<rparr> st"

section \<open>Matching long options\<close>

text \<open>
  The indices of the entries that the text abbreviates, and when two of them cannot stand for one
  another.
\<close>

definition abbreviates :: "long_option list \<Rightarrow> string \<Rightarrow> nat \<Rightarrow> bool" where
  "abbreviates longs key i \<longleftrightarrow> take (length key) (lo_name (longs ! i)) = key"

definition differ :: "bool \<Rightarrow> long_option \<Rightarrow> long_option \<Rightarrow> bool" where
  "differ longonly x y \<longleftrightarrow> longonly \<or> lo_has_arg x \<noteq> lo_has_arg y \<or> lo_flag x \<noteq> lo_flag y \<or> lo_val x \<noteq> lo_val y"

lemma take_name_eq: "take (length key) name = key \<and> length name = length key \<longleftrightarrow> name = key"
  by auto

lemma match_long_exact:
  assumes "i < length xs" and "lo_name (xs ! i) = key" and "\<forall>j < i. lo_name (xs ! j) \<noteq> key"
  shows "\<exists>second. match_long longs key short_too longonly k xs m sec = (Some (k + i), True, second)"
  using assms
proof (induction xs arbitrary: i k m sec)
  case (Cons x xs)
  show ?case
  proof (cases i)
    case 0
    with Cons.prems show ?thesis by simp
  next
    case (Suc j)
    have x: "lo_name x \<noteq> key" using Cons.prems(3) Suc by force
    have "\<exists>second. match_long longs key short_too longonly (Suc k) xs m' sec' = (Some (Suc k + j), True, second)" for m' sec'
      using Cons.prems Suc by (intro Cons.IH) auto
    with x Suc show ?thesis by (auto split: option.splits)
  qed
qed simp

lemma match_long_partial:
  assumes "\<forall>x \<in> set xs. lo_name x \<noteq> key" and "\<not> (short_too \<and> length key = 1)"
    and "xs = drop k longs"
  shows "match_long longs key short_too longonly k xs m sec =
    (let cands = filter (abbreviates longs key) [k..<length longs]
     in case m of
          Some f \<Rightarrow> (Some f, False, sec \<or> (\<exists>j \<in> set cands. differ longonly (longs ! j) (longs ! f)))
        | None \<Rightarrow> (case cands of [] \<Rightarrow> (None, False, sec)
                   | f # fs \<Rightarrow> (Some f, False, sec \<or> (\<exists>j \<in> set fs. differ longonly (longs ! j) (longs ! f)))))"
  using assms
proof (induction xs arbitrary: k m sec)
  case Nil
  then show ?case by (simp add: Let_def split: option.splits)
next
  case (Cons x xs)
  have k: "k < length longs" "longs ! k = x" "xs = drop (Suc k) longs"
    using Cons.prems(3) by (metis drop_eq_Nil2 leI list.distinct(1), metis hd_drop_conv_nth drop_eq_Nil2 leI list.distinct(1) list.sel(1),
        metis drop_Suc tl_drop list.sel(3))
  have up: "[k..<length longs] = k # [Suc k..<length longs]" using k(1) by (rule upt_conv_Cons)
  have IH: "match_long longs key short_too longonly (Suc k) xs m' sec' =
    (let cands = filter (abbreviates longs key) [Suc k..<length longs]
     in case m' of
          Some f \<Rightarrow> (Some f, False, sec' \<or> (\<exists>j \<in> set cands. differ longonly (longs ! j) (longs ! f)))
        | None \<Rightarrow> (case cands of [] \<Rightarrow> (None, False, sec')
                   | f # fs \<Rightarrow> (Some f, False, sec' \<or> (\<exists>j \<in> set fs. differ longonly (longs ! j) (longs ! f)))))" for m' sec'
    using Cons.prems k(3) by (intro Cons.IH) auto
  have x: "take (length key) (lo_name x) = key \<longrightarrow> length (lo_name x) \<noteq> length key" using Cons.prems(1) by auto
  show ?case
  proof (cases "abbreviates longs key k")
    case False
    then have "take (length key) (lo_name x) \<noteq> key" using k(2) by (simp add: abbreviates_def)
    with False show ?thesis unfolding up by (simp add: IH)
  next
    case True
    then have t: "take (length key) (lo_name x) = key" using k(2) by (simp add: abbreviates_def)
    with x have "length (lo_name x) \<noteq> length key" by simp
    with t True Cons.prems(2) show ?thesis
      unfolding up by (cases m) (auto simp: IH Let_def differ_def k(2))
  qed
qed

section \<open>The invariant of the scanner\<close>

definition nonopts_ok :: "getopt_long_state \<Rightarrow> bool" where
  "nonopts_ok st \<longleftrightarrow>
     (case (gl_nonopt_start st, gl_nonopt_end st) of
        (None, None) \<Rightarrow> True
      | (Some s, None) \<Rightarrow> s < gl_optind st
      | (Some s, Some e) \<Rightarrow> s < e \<and> (e < gl_optind st \<or> (e = gl_optind st \<and> e < length (gl_argv st) \<and> \<not> is_nonopt (gl_argv st ! e)))
      | (None, Some e) \<Rightarrow> False)"

definition gl_inv :: "getopt_long_state \<Rightarrow> bool" where
  "gl_inv st \<longleftrightarrow> gl_optind st \<le> length (gl_argv st) \<and> nonopts_ok st \<and>
     (gl_place st \<noteq> [] \<longrightarrow> gl_optind st < length (gl_argv st))"

lemma mset_swap_blocks: "a \<le> b \<Longrightarrow> b \<le> c \<Longrightarrow> mset (swap_blocks a b c xs) = mset xs"
proof -
  assume ab: "a \<le> b" "b \<le> c"
  have "xs = take a xs @ take (b - a) (drop a xs) @ take (c - b) (drop b xs) @ drop c xs"
    using ab by (metis append_assoc append_take_drop_id drop_drop le_add_diff_inverse le_add_diff_inverse2)
  then have "mset xs = mset (take a xs) + mset (take (b - a) (drop a xs)) + mset (take (c - b) (drop b xs)) + mset (drop c xs)"
    by (metis mset_append add.assoc)
  then show ?thesis by (simp add: swap_blocks_def ac_simps)
qed

lemma length_swap_blocks [simp]: "a \<le> b \<Longrightarrow> b \<le> c \<Longrightarrow> c \<le> length xs \<Longrightarrow> length (swap_blocks a b c xs) = length xs"
  by (simp add: swap_blocks_def)

lemma do_permute_eq:
  assumes "gl_nonopt_start st = Some s" and "gl_nonopt_end st = Some e" and "s < e" and "e < i" and "i \<le> length (gl_argv st)"
  shows "do_permute i st = Some (st\<lparr>gl_argv := swap_blocks s e i (gl_argv st)\<rparr>)"
  using assms by (simp add: do_permute_def permute_args_eq)

lemmas gl_inv_defs = gl_inv_def nonopts_ok_def

text \<open>What a call keeps: the invariant, and the arguments up to their order.\<close>

definition keeps :: "string list \<Rightarrow> getopt_long_state \<Rightarrow> bool" where
  "keeps argv st \<longleftrightarrow> gl_inv st \<and> mset (gl_argv st) = mset argv"

fun scan_safe :: "string list \<Rightarrow> scan_outcome option \<Rightarrow> bool" where
  "scan_safe argv (Some (Returned r st)) = keeps argv st"
| "scan_safe argv (Some (Scanned st)) = (keeps argv st \<and> gl_place st \<noteq> [])"
| "scan_safe argv None = False"

fun call_safe :: "string list \<Rightarrow> (int \<times> getopt_long_state) option \<Rightarrow> bool" where
  "call_safe argv (Some (r, st)) = keeps argv st"
| "call_safe argv None = False"

text \<open>The block of skipped arguments is moved behind the options up to \<open>i\<close>.\<close>

lemma permute_keeps:
  assumes "nonopts_ok st" and "gl_nonopt_end st \<noteq> None" and "i \<le> length (gl_argv st)" and "gl_optind st \<le> i"
    and "gl_nonopt_end st \<noteq> Some i"
  obtains s e where "gl_nonopt_start st = Some s" and "gl_nonopt_end st = Some e" and "s < e" and "e < i"
    and "do_permute i st = Some (st\<lparr>gl_argv := swap_blocks s e i (gl_argv st)\<rparr>)"
    and "mset (swap_blocks s e i (gl_argv st)) = mset (gl_argv st)"
    and "length (swap_blocks s e i (gl_argv st)) = length (gl_argv st)"
proof -
  from assms obtain s e where se: "gl_nonopt_start st = Some s" "gl_nonopt_end st = Some e" "s < e" "e < i"
    by (auto simp: nonopts_ok_def split: option.splits)
  with assms(3) show ?thesis
    by (intro that [of s e]) (simp_all add: do_permute_eq mset_swap_blocks)
qed

lemma forget_nonopts_fields [simp]:
  "gl_argv (forget_nonopts st) = gl_argv st" "gl_optind (forget_nonopts st) = gl_optind st"
  "gl_place (forget_nonopts st) = gl_place st" "nonopts_ok (forget_nonopts st)"
  "gl_optreset (forget_nonopts st) = gl_optreset st"
  by (simp_all add: forget_nonopts_def nonopts_ok_def)

lemma scan_end_safe:
  assumes "nonopts_ok st" and "gl_optind st = length (gl_argv st)" and "gl_place st = []"
  shows "scan_safe (gl_argv st) (scan_end st)"
proof (cases "gl_nonopt_end st")
  case None
  then show ?thesis
    using assms by (cases "gl_nonopt_start st") (auto simp: scan_end_def keeps_def gl_inv_def nonopts_ok_def [of st])
next
  case (Some e')
  have ne: "gl_nonopt_end st \<noteq> Some (gl_optind st)" using assms by (auto simp: nonopts_ok_def split: option.splits)
  show ?thesis
    by (rule permute_keeps [OF assms(1), of "gl_optind st"])
      (use Some ne assms in \<open>auto simp: scan_end_def keeps_def gl_inv_def nonopt_count_def\<close>)
qed

lemma scan_dashes_safe:
  assumes "nonopts_ok st" and "gl_optind st < length (gl_argv st)"
  shows "scan_safe (gl_argv st) (scan_dashes st)"
proof (cases "gl_nonopt_end st = None")
  case True
  with assms show ?thesis by (simp add: scan_dashes_def keeps_def gl_inv_def)
next
  case False
  let ?st = "st\<lparr>gl_optind := gl_optind st + 1, gl_place := [], gl_at_start := False\<rparr>"
  have ok: "nonopts_ok ?st" using assms by (auto simp: nonopts_ok_def split: option.splits)
  have ne: "gl_nonopt_end ?st \<noteq> Some (gl_optind ?st)" using assms by (auto simp: nonopts_ok_def split: option.splits)
  show ?thesis
    by (rule permute_keeps [OF ok, of "gl_optind ?st"])
      (use False ne assms(2) in \<open>auto simp: scan_dashes_def keeps_def gl_inv_def nonopt_count_def\<close>)
qed

lemma skip_nonopt_safe:
  assumes "nonopts_ok st" and "gl_optind st < length (gl_argv st)" and "is_nonopt (gl_argv st ! gl_optind st)"
    and "gl_place st = []"
  obtains st' where "skip_nonopt st = Some st'" and "mset (gl_argv st') = mset (gl_argv st)"
    and "gl_inv (st'\<lparr>gl_optind := gl_optind st + 1\<rparr>)" and "gl_optind st' = gl_optind st"
proof (cases "gl_nonopt_end st = None")
  case True
  with assms show ?thesis
    by (cases "gl_nonopt_start st") (auto intro!: that simp: skip_nonopt_def gl_inv_defs)
next
  case False
  have ne: "gl_nonopt_end st \<noteq> Some (gl_optind st)" using assms by (auto simp: nonopts_ok_def split: option.splits)
  show ?thesis
    by (rule permute_keeps [OF assms(1), of "gl_optind st"])
      (use False ne assms in \<open>auto intro!: that simp: skip_nonopt_def gl_inv_defs nonopt_count_def\<close>)
qed

text \<open>Before a scan a pending text may be stale, if \<^verbatim>\<open>optreset\<close> tells to drop it.\<close>

definition scan_ready :: "getopt_long_state \<Rightarrow> bool" where
  "scan_ready st \<longleftrightarrow> gl_optind st \<le> length (gl_argv st) \<and> nonopts_ok st \<and>
     (gl_place st \<noteq> [] \<and> \<not> gl_optreset st \<longrightarrow> gl_optind st < length (gl_argv st))"

lemma scan_ready_if_inv: "gl_inv st \<Longrightarrow> scan_ready st"
  by (simp add: scan_ready_def gl_inv_def)

lemma scan_args_safe:
  assumes "scan_ready st"
  shows "scan_safe (gl_argv st) (scan_args allargs permute st)"
  using assms
proof (induction allargs permute st rule: scan_args.induct)
  case (1 allargs permute st)
  let ?st = "st\<lparr>gl_optreset := False, gl_place := [], gl_at_start := False\<rparr>"
  let ?i = "gl_optind st"
  have ok: "nonopts_ok ?st" using 1(2) by (auto simp: scan_ready_def nonopts_ok_def split: option.splits)
  consider "\<not> (gl_optreset st \<or> gl_place st = [])"
    | "gl_optreset st \<or> gl_place st = []" "?i = length (gl_argv st)"
    | "gl_optreset st \<or> gl_place st = []" "?i < length (gl_argv st)" "is_nonopt (gl_argv st ! ?i)"
    | "gl_optreset st \<or> gl_place st = []" "?i < length (gl_argv st)" "\<not> is_nonopt (gl_argv st ! ?i)"
    using 1(2) by (fastforce simp: scan_ready_def)
  then show ?case
  proof cases
    case 1
    with \<open>scan_ready st\<close> show ?thesis by (subst scan_args.simps) (simp add: keeps_def scan_ready_def gl_inv_def)
  next
    case 2
    with scan_end_safe [OF ok] show ?thesis by (subst scan_args.simps) (simp add: Let_def)
  next
    case 3
    obtain st' where st': "skip_nonopt ?st = Some st'" "mset (gl_argv st') = mset (gl_argv st)"
      "gl_inv (st'\<lparr>gl_optind := ?i + 1\<rparr>)" "gl_optind st' = ?i"
      using skip_nonopt_safe [OF ok] 3 by auto
    have rec: "scan_safe (gl_argv st') (scan_args allargs permute (st'\<lparr>gl_optind := ?i + 1\<rparr>))"
      if "\<not> allargs" "permute"
      using 1(1) [OF 3(1) refl refl _ 3(3) that(1) _ st'(1)] 3(2) that st'(3) by (simp add: scan_ready_if_inv)
    have mono: "scan_safe xs r \<Longrightarrow> mset xs = mset ys \<Longrightarrow> scan_safe ys r" for xs ys r
      by (induction xs r rule: scan_safe.induct) (auto simp: keeps_def)
    have "keeps (gl_argv st) (?st\<lparr>gl_optarg := Some (gl_argv st ! ?i), gl_optind := ?i + 1\<rparr>)"
      using ok 3 by (auto simp: keeps_def gl_inv_defs split: option.splits)
    moreover have "keeps (gl_argv st) ?st" using ok 3 by (simp add: keeps_def gl_inv_def)
    ultimately show ?thesis
      using 3 st'(1,2) rec by (subst scan_args.simps) (auto simp: Let_def intro: mono)
  next
    case 4
    define st2 where "st2 = (if gl_nonopt_start ?st \<noteq> None \<and> gl_nonopt_end ?st = None
      then ?st\<lparr>gl_nonopt_end := Some ?i\<rparr> else ?st)"
    have eq: "scan_args allargs permute st =
      (if tl (gl_argv st ! ?i) = [dash] then scan_dashes st2 else Some (Scanned (st2\<lparr>gl_place := tl (gl_argv st ! ?i)\<rparr>)))"
      using 4 by (subst scan_args.simps) (simp add: Let_def st2_def)
    have st2: "gl_argv st2 = gl_argv st" "gl_optind st2 = ?i" by (simp_all add: st2_def)
    have ok2: "nonopts_ok st2" using ok 4 by (auto simp: nonopts_ok_def st2_def split: option.splits)
    have "scan_safe (gl_argv st) (scan_dashes st2)" using scan_dashes_safe [OF ok2] 4(2) st2 by simp
    moreover have "tl (gl_argv st ! ?i) \<noteq> []" using 4(3) by (simp add: is_nonopt_def)
    moreover have "keeps (gl_argv st) (st2\<lparr>gl_place := p\<rparr>)" for p
      using ok2 4(2) st2 by (auto simp: keeps_def gl_inv_defs split: option.splits)
    ultimately show ?thesis unfolding eq by simp
  qed
qed

lemma error_codes: "BADCH \<noteq> - 1" "bad_arg options \<noteq> - 1"
  by (simp_all add: BADCH_def BADARG_def bad_arg_def code_def)

lemma warn_option_fields [simp]:
  "gl_argv (warn_option options text st) = gl_argv st" "gl_optind (warn_option options text st) = gl_optind st"
  "gl_place (warn_option options text st) = gl_place st" "gl_optarg (warn_option options text st) = gl_optarg st"
  "gl_nonopt_start (warn_option options text st) = gl_nonopt_start st"
  "gl_nonopt_end (warn_option options text st) = gl_nonopt_end st"
  by (simp_all add: warn_option_def)

text \<open>An option moves \<^verbatim>\<open>optind\<close> forward, by its own argument at most, and touches nothing else of the scan.\<close>

definition advances :: "getopt_long_state \<Rightarrow> getopt_long_state \<Rightarrow> bool" where
  "advances st st' \<longleftrightarrow> gl_argv st' = gl_argv st \<and> gl_nonopt_start st' = gl_nonopt_start st \<and>
     gl_nonopt_end st' = gl_nonopt_end st \<and> gl_optind st < gl_optind st' \<and> gl_optind st' \<le> length (gl_argv st)"

lemma match_long_bound:
  "match_long longs key short_too longonly i xs m sec = (Some k, e, s) \<Longrightarrow> k < i + length xs \<or> m = Some k"
proof (induction xs arbitrary: i m sec)
  case (Cons x xs)
  then consider m' sec' where "match_long longs key short_too longonly (Suc i) xs m' sec' = (Some k, e, s)" "m' = m \<or> m' = Some i"
    | "k = i" by (auto simp only: match_long.simps prod.inject option.inject split: if_splits option.splits)
  then show ?case by cases (auto dest: Cons.IH)
qed simp

lemma match_long_member:
  "match_long longs key short_too longonly 0 longs None sec = (Some k, e, s) \<Longrightarrow> longs ! k \<in> set longs"
  using match_long_bound [of longs key short_too longonly 0 longs None sec k e s] by simp

text \<open>A long option with the value -1 would look like no option at all.\<close>

definition values_ok :: "long_option list \<Rightarrow> bool" where
  "values_ok longs \<longleftrightarrow> (\<forall>x \<in> set longs. lo_flag x = None \<longrightarrow> lo_val x \<noteq> - 1)"

lemma parse_long_options_result:
  assumes "gl_optind st < length (gl_argv st)" and "values_ok longs"
  shows "(\<exists>r st'. parse_long_options options longs idx short_too longonly st = Some (r, st') \<and> advances st st' \<and> r \<noteq> - 1)
    \<or> (short_too \<and> parse_long_options options longs idx short_too longonly st = Some (- 1, st))"
proof -
  let ?key = "takeWhile (\<lambda>c. c \<noteq> CHR ''='') (gl_place st)"
  obtain m exact second where match: "match_long longs ?key short_too longonly 0 longs None False = (m, exact, second)"
    by (metis prod_cases3)
  show ?thesis
  proof (cases m)
    case None
    with assms(1) match show ?thesis
      by (auto simp: parse_long_options_def Let_def advances_def error_codes)
  next
    case (Some k)
    have "lo_flag (longs ! k) = None \<longrightarrow> lo_val (longs ! k) \<noteq> - 1"
      using match_long_member [of longs ?key short_too longonly False k] match Some assms(2) by (auto simp: values_ok_def)
    with assms(1) match Some show ?thesis
      by (cases "lo_has_arg (longs ! k)"; cases "lo_flag (longs ! k)")
        (auto simp: parse_long_options_def Let_def advances_def error_codes arg_at_def)
  qed
qed

text \<open>What handling one option may do to the scan: nothing, or move \<^verbatim>\<open>optind\<close> behind the option.\<close>

definition moves :: "getopt_long_state \<Rightarrow> getopt_long_state \<Rightarrow> bool" where
  "moves st st' \<longleftrightarrow> gl_argv st' = gl_argv st \<and> gl_nonopt_start st' = gl_nonopt_start st \<and>
     gl_nonopt_end st' = gl_nonopt_end st \<and> gl_optind st \<le> gl_optind st' \<and> gl_optind st' \<le> length (gl_argv st) \<and>
     (gl_place st' = [] \<or> gl_optind st' < length (gl_argv st))"

fun call_moves :: "getopt_long_state \<Rightarrow> (int \<times> getopt_long_state) option \<Rightarrow> bool" where
  "call_moves st (Some (r, st')) = moves st st'"
| "call_moves st None = False"

lemma advances_moves: "advances st st' \<Longrightarrow> gl_place st' = [] \<Longrightarrow> moves st st'"
  by (simp add: advances_def moves_def)

lemma call_moves_if:
  "(P \<Longrightarrow> call_moves st x) \<Longrightarrow> (\<not> P \<Longrightarrow> call_moves st y) \<Longrightarrow> call_moves st (if P then x else y)"
  by simp

lemma parse_then_forget:
  assumes "moves st0 st" and "gl_optind st < length (gl_argv st)" and "values_ok longs"
  shows "call_moves st0 (do { (r, st') \<leftarrow> parse_long_options options longs idx False longonly st;
    Some (r, st'\<lparr>gl_place := [], gl_at_start := False\<rparr>) })"
proof -
  from parse_long_options_result [OF assms(2,3), of options idx False longonly]
  obtain r st' where r: "parse_long_options options longs idx False longonly st = Some (r, st')" "advances st st'" by blast
  then show ?thesis using assms(1) by (simp add: moves_def advances_def)
qed

lemma short_option_moves:
  assumes "gl_optind st < length (gl_argv st)" and "gl_place st \<noteq> []" and "longs = None \<or> values_ok (the longs)"
  shows "call_moves st (short_option options longs idx longonly posixly st)"
proof -
  define st1 where "st1 = st\<lparr>gl_place := tl (gl_place st), gl_at_start := False\<rparr>"
  have same: "gl_argv st1 = gl_argv st" "gl_optind st1 = gl_optind st" "gl_nonopt_start st1 = gl_nonopt_start st"
    "gl_nonopt_end st1 = gl_nonopt_end st" by (simp_all add: st1_def)
  have W: "call_moves st (do { (r, st') \<leftarrow> parse_long_options options (the longs) idx False longonly
      (st2\<lparr>gl_dash_prefix := W_PREFIX\<rparr>); Some (r, st'\<lparr>gl_place := [], gl_at_start := False\<rparr>) })"
    if "longs \<noteq> None" "\<not> (gl_place st1 = [] \<and> gl_optind st1 + 1 \<ge> length (gl_argv st1))"
      "st2 = (if gl_place st1 \<noteq> [] then st1
        else st1\<lparr>gl_optind := gl_optind st1 + 1, gl_place := gl_argv st1 ! (gl_optind st1 + 1), gl_at_start := True\<rparr>)" for st2
    by (rule parse_then_forget) (use that assms(1,3) same in \<open>auto simp: moves_def\<close>)
  show ?thesis
    unfolding short_option_def Let_def missing_argument_def st1_def [symmetric]
    unfolding if_not_P [OF assms(2)]
    by (intro call_moves_if; (rule W refl | simp only: call_moves.simps); use assms(1) same in \<open>auto simp: moves_def\<close>)
qed

lemma try_long_moves:
  assumes "gl_optind st < length (gl_argv st)" and "gl_place st \<noteq> []" and "longs = None \<or> values_ok (the longs)"
  shows "call_moves st (try_long options longs idx longonly posixly st)"
proof (cases "longs \<noteq> None \<and> \<not> gl_at_start st \<and> (starts (gl_place st) dash \<or> longonly)")
  case False
  then have "try_long options longs idx longonly posixly st = short_option options longs idx longonly posixly st"
    unfolding try_long_def by (simp only: if_False)
  with short_option_moves [OF assms] show ?thesis by simp
next
  case True
  have lo: "values_ok (the longs)" using True assms(3) by auto
  let ?dd = "starts (gl_place st) dash"
  define too where "too = (\<not> ?dd \<and> \<not> starts (gl_place st) colon \<and> hd (gl_place st) \<in> set options)"
  define st1 where "st1 = (if ?dd then st\<lparr>gl_place := tl (gl_place st), gl_dash_prefix := DD_PREFIX\<rparr>
    else st\<lparr>gl_dash_prefix := D_PREFIX\<rparr>)"
  have eq: "try_long options longs idx longonly posixly st =
    do { (r, st2) \<leftarrow> parse_long_options options (the longs) idx too longonly st1;
         if r \<noteq> - 1 then Some (r, st2\<lparr>gl_place := [], gl_at_start := False\<rparr>)
         else short_option options longs idx longonly posixly st2 }"
    using True by (simp add: try_long_def too_def st1_def Let_def)
  have same: "gl_argv st1 = gl_argv st" "gl_optind st1 = gl_optind st" "gl_nonopt_start st1 = gl_nonopt_start st"
    "gl_nonopt_end st1 = gl_nonopt_end st" by (simp_all add: st1_def)
  have lt: "gl_optind st1 < length (gl_argv st1)" using assms(1) same by simp
  from parse_long_options_result [OF lt lo, of options idx too longonly] show ?thesis
  proof (elim disjE conjE exE)
    fix r st2 assume "parse_long_options options (the longs) idx too longonly st1 = Some (r, st2)" "advances st1 st2" "r \<noteq> - 1"
    then show ?thesis unfolding eq using same by (simp add: moves_def advances_def)
  next
    assume too: "too" and r: "parse_long_options options (the longs) idx too longonly st1 = Some (- 1, st1)"
    have "gl_place st1 \<noteq> []" using too assms(2) by (simp add: too_def st1_def)
    from short_option_moves [OF lt this assms(3), of options idx longonly posixly]
    have "call_moves st (short_option options longs idx longonly posixly st1)"
      using same by (cases "short_option options longs idx longonly posixly st1") (auto simp: moves_def)
    with r show ?thesis unfolding eq by simp
  qed
qed

lemma keeps_moves:
  assumes "keeps argv st" and "gl_place st \<noteq> []" and "moves st st'"
  shows "keeps argv st'"
  using assms by (auto simp: keeps_def gl_inv_defs moves_def split: option.splits)

lemma try_long_safe:
  assumes "keeps argv st" and "gl_place st \<noteq> []" and "longs = None \<or> values_ok (the longs)"
  shows "call_safe argv (try_long options longs idx longonly posixly st)"
proof -
  have "gl_optind st < length (gl_argv st)" using assms(1,2) by (simp add: keeps_def gl_inv_def)
  from try_long_moves [OF this assms(2,3), of options idx longonly posixly] show ?thesis
    by (cases "try_long options longs idx longonly posixly st") (auto intro: keeps_moves [OF assms(1,2)])
qed

lemma getopt_internal_safe:
  assumes "gl_inv st" and "gl_optind st = 0 \<longrightarrow> gl_argv st \<noteq> []" and "longs = None \<or> values_ok (the longs)"
  shows "call_safe (gl_argv st) (getopt_internal options longs idx posixly flags st)"
proof (cases options)
  case None
  with assms(1) show ?thesis by (simp add: getopt_internal_def keeps_def)
next
  case (Some opts)
  define st1 where "st1 = (if gl_optind st = 0 then st\<lparr>gl_optind := 1, gl_optreset := True\<rparr> else st)\<lparr>gl_optarg := None\<rparr>"
  define st3 where "st3 = (if gl_optreset st1 then forget_nonopts st1 else st1)"
  have "gl_argv st \<noteq> []" if "gl_optind st = 0" using assms(2) that by simp
  then have "scan_ready st3"
    using assms(1) by (cases "gl_argv st") (auto simp: st3_def st1_def scan_ready_def gl_inv_defs forget_nonopts_def split: option.splits)
  moreover have argv: "gl_argv st3 = gl_argv st" by (simp add: st3_def st1_def)
  ultimately have "scan_safe (gl_argv st) (scan_args a p st3)" for a p using scan_args_safe by metis
  moreover have "call_safe (gl_argv st) (case r of None \<Rightarrow> None | Some (Returned r st4) \<Rightarrow> Some (r, st4)
     | Some (Scanned st4) \<Rightarrow> try_long opts' longs idx (fl_longonly flags) posixly st4)"
    if "scan_safe (gl_argv st) r" for r opts'
    using that by (induction "gl_argv st" r rule: scan_safe.induct) (auto intro: try_long_safe [OF _ _ assms(3)])
  ultimately show ?thesis
    unfolding getopt_internal_def Some option.case st3_def st1_def Let_def by simp
qed

section \<open>Properties\<close>

text \<open>
  C21: \<^verbatim>\<open>permute_args\<close> exchanges two adjacent blocks of any lengths, each in its order, and
  leaves the rest of the vector alone; its cycles end and stay inside the vector.
\<close>

theorem permute_args_swaps_blocks:
  assumes "xs \<noteq> []" and "ys \<noteq> []"
  shows "permute_args (length pre) (length pre + length xs) (length pre + length xs + length ys) (pre @ xs @ ys @ suf) =
    Some (pre @ ys @ xs @ suf)"
  using assms by (subst permute_args_eq) (simp_all add: swap_blocks_def)

theorem permute_args_swaps_blocks_witness:
  "permute_args 1 4 6 [0, 1, 2, 3, 4, 5, 6 :: int] = Some [0, 4, 5, 1, 2, 3, 6]"
  using permute_args_swaps_blocks [of "[1, 2, 3]" "[4, 5]" "[0 :: int]" "[6]"] by (simp add: eval_nat_numeral)

definition table :: "long_option list" where
  "table = [\<lparr>lo_name = ''verbose'', lo_has_arg = no_argument, lo_flag = None, lo_val = 118\<rparr>,
     \<lparr>lo_name = ''version'', lo_has_arg = no_argument, lo_flag = None, lo_val = 86\<rparr>,
     \<lparr>lo_name = ''out'', lo_has_arg = required_argument, lo_flag = None, lo_val = 111\<rparr>,
     \<lparr>lo_name = ''outline'', lo_has_arg = no_argument, lo_flag = Some 3, lo_val = 1\<rparr>]"

text \<open>
  The text of a long option selects an entry of the table: an exact name wins, the first one
  of several, whatever else the text abbreviates; otherwise the first entry that
  it abbreviates is taken and the text is ambiguous if another such entry differs from it in kind,
  flag or value (any other entry, for \<^verbatim>\<open>getopt_long_only\<close>); without an abbreviation nothing matches.
\<close>

theorem long_option_matching:
  "match_long longs key False longonly 0 longs None False = (m, exact, second) \<Longrightarrow>
   (case find (\<lambda>i. lo_name (longs ! i) = key) [0..<length longs] of
      Some i \<Rightarrow> m = Some i \<and> exact
    | None \<Rightarrow> \<not> exact \<and>
        (case filter (abbreviates longs key) [0..<length longs] of
           [] \<Rightarrow> m = None \<and> \<not> second
         | k # ks \<Rightarrow> m = Some k \<and> second = (\<exists>j \<in> set ks. differ longonly (longs ! j) (longs ! k))))"
proof (cases "find (\<lambda>i. lo_name (longs ! i) = key) [0..<length longs]")
  case None
  then have "\<forall>x \<in> set longs. lo_name x \<noteq> key" by (auto simp: find_None_iff in_set_conv_nth)
  then show "match_long longs key False longonly 0 longs None False = (m, exact, second) \<Longrightarrow> ?thesis"
    using None match_long_partial [of longs key False 0 longs longonly None False]
    by (auto simp: Let_def split: list.splits)
next
  case (Some i)
  then have i: "i < length longs" "lo_name (longs ! i) = key" "\<forall>j < i. lo_name (longs ! j) \<noteq> key"
    by (auto simp: find_Some_iff)
  then show "match_long longs key False longonly 0 longs None False = (m, exact, second) \<Longrightarrow> ?thesis"
    using Some match_long_exact [of i longs key longs False longonly 0 None False] by auto
qed

theorem long_option_matching_witness:
  "(\<exists>second. match_long table ''out'' False False 0 table None False = (Some 2, True, second)) \<and>
   match_long table ''ver'' False False 0 table None False = (Some 0, False, True)"
proof -
  have up: "[0..<length table] = [0, 1, 2, 3]" by (simp add: table_def upt_rec)
  obtain m e s where out: "match_long table ''out'' False False 0 table None False = (m, e, s)" by (metis prod_cases3)
  obtain m' e' s' where ver: "match_long table ''ver'' False False 0 table None False = (m', e', s')" by (metis prod_cases3)
  show ?thesis
    using out ver long_option_matching [OF out] long_option_matching [OF ver]
    by (auto simp: up table_def abbreviates_def differ_def)
qed

text \<open>
  C37: Every call of \<^verbatim>\<open>getopt_long\<close> and \<^verbatim>\<open>getopt_long_only\<close> returns without a fault: the argument vector is
  never read or permuted outside its bounds, no division by zero happens in the permutation, the
  arguments are the same up to their order, and the invariant of the scanner holds again, so
  that the next call is safe too.
\<close>

theorem getopt_long_safe:
  assumes "gl_inv st" and "gl_optind st = 0 \<longrightarrow> gl_argv st \<noteq> []" and "longs = None \<or> values_ok (the longs)"
    and "call \<in> {getopt_long, getopt_long_only}"
  shows "\<exists>r st'. call options longs idx posixly st = Some (r, st') \<and> gl_inv st' \<and> mset (gl_argv st') = mset (gl_argv st)"
proof -
  have "call_safe (gl_argv st) (call options longs idx posixly st)"
    using getopt_internal_safe [OF assms(1-3)] assms(4) by (auto simp: getopt_long_def getopt_long_only_def)
  then show ?thesis by (cases "call options longs idx posixly st") (auto simp: keeps_def)
qed

text \<open>The statics and globals of a program that has not called the parser yet.\<close>

definition first_state :: "string list \<Rightarrow> getopt_long_state" where
  "first_state argv = \<lparr>gl_opterr = True, gl_optind = 1, gl_optopt = BADCH, gl_optreset = False, gl_optarg = None, gl_place = [],
     gl_at_start = False, gl_nonopt_start = None, gl_nonopt_end = None, gl_dash_prefix = NO_PREFIX, gl_argv = argv,
     gl_flag_vars = (\<lambda>_. 0), gl_idx = None, gl_messages = []\<rparr>"

lemma first_state_ok: "argv \<noteq> [] \<Longrightarrow> gl_inv (first_state argv)"
  by (cases argv) (simp_all add: first_state_def gl_inv_defs)

lemma table_ok: "values_ok table"
  by (simp add: values_ok_def table_def)

theorem getopt_long_safe_witness:
  "\<exists>r st'. getopt_long (Some ''ab:'') (Some table) True False (first_state [''p'', ''x'', ''--out'', ''f'']) = Some (r, st') \<and>
     gl_inv st' \<and> mset (gl_argv st') = mset [''p'', ''x'', ''--out'', ''f'']"
  using getopt_long_safe [of "first_state [''p'', ''x'', ''--out'', ''f'']" "Some table" getopt_long "Some ''ab:''" True False]
    first_state_ok [of "[''p'', ''x'', ''--out'', ''f'']"]
  by (simp add: table_ok) (simp add: first_state_def)

end
