(* ===== verification/Getopt_Order.thy ===== *)
theory Getopt_Order
  imports Getopt_Long
begin

text \<open>
  What \<^verbatim>\<open>getopt_long.c\<close> does to the argument vector over all the calls for one command line. The reference
  is a reader that goes over the words once, from left to right, and sorts them into options with
  their arguments, operands, and what stands behind \<^verbatim>\<open>--\<close>; it knows nothing of blocks, positions or
  permutations. The calls arrive at exactly this partition.
\<close>

section \<open>The reference\<close>

text \<open>
  Whether the text of a long option takes the next word as its argument: it stands for one entry of
  the table, which requires an argument, and has none after an equals sign. \<open>None\<close> is a text that is no
  long option but may be a cluster of letters.
\<close>

definition long_takes :: "long_option list \<Rightarrow> bool \<Rightarrow> bool \<Rightarrow> string \<Rightarrow> bool option" where
  "long_takes longs longonly short_too cur =
     (case match_long longs (takeWhile (\<lambda>c. c \<noteq> CHR ''='') cur) short_too longonly 0 longs None False of
        (m, exact, second) \<Rightarrow>
          if \<not> exact \<and> second then Some False
          else case m of
            None \<Rightarrow> if short_too then None else Some False
          | Some k \<Rightarrow> Some (lo_has_arg (longs ! k) = required_argument \<and> CHR ''='' \<notin> set cur))"

text \<open>The next word, if there is one.\<close>

definition next_word :: "bool option \<Rightarrow> 'a list \<Rightarrow> nat" where
  "next_word b ws = (if b = Some True then min 1 (length ws) else 0)"

text \<open>
  One letter, with the rest of its word and the words behind it: the letters still to be read of the
  word and, if there are none, the number of further words that belong to the option. At a dash that
  is not an option letter the parser gives up (\<open>None\<close>).
\<close>

definition letter_takes ::
  "string \<Rightarrow> long_option list option \<Rightarrow> bool \<Rightarrow> char \<Rightarrow> string \<Rightarrow> string list \<Rightarrow> (string \<times> nat) option" where
  "letter_takes options longs longonly c cs ws =
     (if c = colon \<or> (c = dash \<and> cs \<noteq> []) \<or> c \<notin> set options then if c = dash \<and> cs = [] then None else Some (cs, 0)
      else if longs \<noteq> None \<and> c = CHR ''W'' \<and> starts (after_letter options c) (CHR '';'') then
        if cs \<noteq> [] then Some ([], next_word (long_takes (the longs) longonly False cs) ws)
        else (case ws of
                [] \<Rightarrow> Some ([], 0)
              | w # ws' \<Rightarrow> Some ([], Suc (next_word (long_takes (the longs) longonly False w) ws')))
      else if \<not> starts (after_letter options c) colon then Some (cs, 0)
      else Some ([], next_word (Some (cs = [] \<and> \<not> starts (tl (after_letter options c)) colon)) ws))"

definition option_takes ::
  "string \<Rightarrow> long_option list option \<Rightarrow> bool \<Rightarrow> string \<Rightarrow> string list \<Rightarrow> (string \<times> nat) option" where
  "option_takes options longs longonly place ws =
     (let dd = starts place dash;
          short_too = (\<not> dd \<and> \<not> starts place colon \<and> hd place \<in> set options);
          long = (if longs \<noteq> None \<and> (dd \<or> longonly)
                  then long_takes (the longs) longonly short_too (if dd then tl place else place) else None)
      in if long \<noteq> None then Some ([], next_word long ws)
         else letter_takes options longs longonly (hd place) (tl place) ws)"

lemma letter_takes_rest: "letter_takes options longs longonly c cs ws = Some (p, k) \<Longrightarrow> p = cs \<or> p = []"
  by (auto simp: letter_takes_def split: if_splits list.splits)

lemma option_takes_shorter:
  "option_takes options longs longonly place ws = Some (p, k) \<Longrightarrow> p \<noteq> [] \<Longrightarrow> length p < length place"
  by (cases place) (auto simp: option_takes_def Let_def split: if_splits dest!: letter_takes_rest)

text \<open>
  The reader: the words of the options, the operands, and the words behind \<^verbatim>\<open>--\<close>. \<open>place\<close> are the letters
  still to be read of the first word, none at its start.
\<close>

function sort_args ::
  "string \<Rightarrow> long_option list option \<Rightarrow> bool \<Rightarrow> string \<Rightarrow> string list \<Rightarrow> (string list \<times> string list \<times> string list) option" where
  "sort_args options longs longonly place [] = Some ([], [], [])"
| "sort_args options longs longonly place (w # ws) =
     (if place = [] \<and> is_nonopt w
      then map_option (\<lambda>(os, ns, rest). (os, w # ns, rest)) (sort_args options longs longonly [] ws)
      else if place = [] \<and> tl w = [dash] then Some ([w], [], ws)
      else case option_takes options longs longonly (if place = [] then tl w else place) ws of
        None \<Rightarrow> None
      | Some (place', k) \<Rightarrow>
          if place' \<noteq> [] then sort_args options longs longonly place' (w # ws)
          else map_option (\<lambda>(os, ns, rest). (w # take k ws @ os, ns, rest)) (sort_args options longs longonly [] (drop k ws)))"
  by pat_completeness auto
termination
proof (relation "measures [\<lambda>(options, longs, longonly, place, ws). length ws,
    \<lambda>(options, longs, longonly, place, ws). if place = [] then Suc (length (hd ws)) else length place]", goal_cases)
  case (3 options longs longonly place w ws x p k)
  have "length p < length (if place = [] then tl w else place)"
    using option_takes_shorter 3 by blast
  then show ?case using 3 by (auto split: if_splits)
qed auto

declare sort_args.simps(2) [simp del]

section \<open>Options seen and arguments skipped\<close>

text \<open>
  During a scan the arguments already seen are options (with their arguments) and skipped
  non-options; the vector holds them as a front block of options, a block of skipped arguments and
  a second block of options.
\<close>

definition slice :: "nat \<Rightarrow> nat \<Rightarrow> 'a list \<Rightarrow> 'a list" where
  "slice i j xs = take (j - i) (drop i xs)"

definition opts_seen :: "getopt_long_state \<Rightarrow> string list" where
  "opts_seen st = (case (gl_nonopt_start st, gl_nonopt_end st) of
     (Some s, Some e) \<Rightarrow> take s (gl_argv st) @ slice e (gl_optind st) (gl_argv st)
   | (Some s, None) \<Rightarrow> take s (gl_argv st)
   | _ \<Rightarrow> take (gl_optind st) (gl_argv st))"

definition skipped :: "getopt_long_state \<Rightarrow> string list" where
  "skipped st = (case (gl_nonopt_start st, gl_nonopt_end st) of
     (Some s, Some e) \<Rightarrow> slice s e (gl_argv st)
   | (Some s, None) \<Rightarrow> slice s (gl_optind st) (gl_argv st)
   | _ \<Rightarrow> [])"

lemma shuffles_append_left: "xs \<in> shuffles as bs \<Longrightarrow> xs @ ys \<in> shuffles (as @ ys) bs"
proof (induction xs arbitrary: as bs)
  case Nil
  then show ?case by (cases ys) auto
next
  case (Cons x xs)
  from Cons.prems consider as' where "as = x # as'" "xs \<in> shuffles as' bs" | bs' where "bs = x # bs'" "xs \<in> shuffles as bs'"
    by (cases as; cases bs) (auto simp: Cons_in_shuffles_iff)
  then show ?case by cases (auto dest: Cons.IH intro: Cons_in_shuffles_leftI Cons_in_shuffles_rightI)
qed

lemma shuffles_append_right: "xs \<in> shuffles as bs \<Longrightarrow> xs @ ys \<in> shuffles as (bs @ ys)"
  using shuffles_append_left [of xs bs as ys] by (simp only: shuffles_commutes [of as])

lemma slice_append: "i \<le> j \<Longrightarrow> j \<le> k \<Longrightarrow> slice i j xs @ slice j k xs = slice i k xs"
proof -
  assume "i \<le> j" "j \<le> k"
  then have "k - i = (j - i) + (k - j)" "drop (j - i) (drop i xs) = drop j xs" by simp_all
  then show ?thesis by (simp only: slice_def take_add)
qed

lemma take_slice: "i \<le> j \<Longrightarrow> take j xs = take i xs @ slice i j xs"
  by (metis le_add_diff_inverse slice_def take_add)

lemma length_slice [simp]: "length (slice i j xs) = min (j - i) (length xs - i)"
  by (simp add: slice_def)

lemma slice_self [simp]: "slice i i xs = []"
  by (simp add: slice_def)

lemma permuted_state:
  assumes "nonopts_ok st" and "gl_nonopt_end st \<noteq> None" and "gl_optind st \<le> length (gl_argv st)"
    and "gl_nonopt_end st \<noteq> Some (gl_optind st)"
  obtains argv' where "do_permute (gl_optind st) st = Some (st\<lparr>gl_argv := argv'\<rparr>)"
    and "argv' = opts_seen st @ skipped st @ drop (gl_optind st) (gl_argv st)"
    and "gl_optind st - nonopt_count st = length (opts_seen st)"
proof (rule permute_keeps [OF assms(1,2,3) le_refl assms(4)])
  fix s e
  let ?i = "gl_optind st" let ?xs = "gl_argv st"
  assume se: "gl_nonopt_start st = Some s" "gl_nonopt_end st = Some e" "s < e" "e < ?i"
    "do_permute ?i st = Some (st\<lparr>gl_argv := swap_blocks s e ?i ?xs\<rparr>)"
  have "swap_blocks s e ?i ?xs = opts_seen st @ skipped st @ drop ?i ?xs"
    using se by (simp add: swap_blocks_def opts_seen_def skipped_def slice_def)
  moreover have "?i - nonopt_count st = length (opts_seen st)"
    using se assms(3) by (simp add: opts_seen_def nonopt_count_def)
  ultimately show thesis using that se(5) by simp
qed

lemma slice_Suc: "i \<le> j \<Longrightarrow> j < length xs \<Longrightarrow> slice i (Suc j) xs = slice i j xs @ [xs ! j]"
  by (simp add: slice_def Suc_diff_le take_Suc_conv_app_nth)


lemma seen_length:
  "nonopts_ok st \<Longrightarrow> gl_optind st \<le> length (gl_argv st) \<Longrightarrow> length (opts_seen st) + length (skipped st) = gl_optind st"
  by (auto simp: nonopts_ok_def opts_seen_def skipped_def split: option.splits)

lemma seen_fields:
  assumes "gl_argv st' = gl_argv st" and "gl_optind st' = gl_optind st"
    and "gl_nonopt_start st' = gl_nonopt_start st" and "gl_nonopt_end st' = gl_nonopt_end st"
  shows "opts_seen st' = opts_seen st" and "skipped st' = skipped st"
  unfolding opts_seen_def skipped_def assms by (rule refl)+

text \<open>An option goes behind the options, with the words that belong to it.\<close>

lemma seen_advance:
  assumes "nonopts_ok st" and "gl_nonopt_start st \<noteq> None \<longrightarrow> gl_nonopt_end st \<noteq> None"
    and "gl_argv st' = gl_argv st" and "gl_nonopt_start st' = gl_nonopt_start st" and "gl_nonopt_end st' = gl_nonopt_end st"
    and "gl_optind st' = gl_optind st + k"
  shows "opts_seen st' = opts_seen st @ take k (drop (gl_optind st) (gl_argv st))" and "skipped st' = skipped st"
proof -
  have "opts_seen st' = opts_seen st @ slice (gl_optind st) (gl_optind st + k) (gl_argv st)"
    using assms by (auto simp: opts_seen_def nonopts_ok_def slice_append take_slice [of "gl_optind st" "gl_optind st + k"]
        split: option.splits)
  then show "opts_seen st' = opts_seen st @ take k (drop (gl_optind st) (gl_argv st))" by (simp add: slice_def)
  show "skipped st' = skipped st" using assms by (auto simp: skipped_def split: option.splits)
qed

text \<open>A non-option joins the block of skipped arguments.\<close>

lemma skip_seen:
  assumes "nonopts_ok st" and "gl_optind st < length (gl_argv st)"
    and "is_nonopt (gl_argv st ! gl_optind st)" and "skip_nonopt st = Some st1" and "gl_place st = []"
  defines "st' \<equiv> st1\<lparr>gl_optind := Suc (gl_optind st)\<rparr>"
  shows "opts_seen st' = opts_seen st \<and> skipped st' = skipped st @ [gl_argv st ! gl_optind st] \<and>
    drop (Suc (gl_optind st)) (gl_argv st1) = drop (Suc (gl_optind st)) (gl_argv st) \<and> gl_place st1 = [] \<and>
    gl_optreset st1 = gl_optreset st"
proof -
  let ?i = "gl_optind st" let ?x = "gl_argv st ! ?i"
  consider "gl_nonopt_start st = None" "gl_nonopt_end st = None" | s where "gl_nonopt_start st = Some s" "gl_nonopt_end st = None"
    | "gl_nonopt_end st \<noteq> None"
    using assms(1) by (cases "gl_nonopt_start st"; cases "gl_nonopt_end st") (auto simp: nonopts_ok_def)
  then show ?thesis
  proof cases
    case 1
    then have "st1 = st\<lparr>gl_nonopt_start := Some ?i\<rparr>" using assms(4) by (simp add: skip_nonopt_def)
    then show ?thesis using 1 assms(2,5) by (simp add: st'_def opts_seen_def skipped_def slice_Suc)
  next
    case (2 s)
    then have "st1 = st" using assms(4) by (simp add: skip_nonopt_def)
    then show ?thesis using 2 assms(1,2,5) by (simp add: st'_def opts_seen_def skipped_def slice_Suc nonopts_ok_def)
  next
    case 3
    have ne: "gl_nonopt_end st \<noteq> Some ?i" using assms(1,3) by (auto simp: nonopts_ok_def split: option.splits)
    have "gl_nonopt_start st \<noteq> None" using 3 assms(1) by (auto simp: nonopts_ok_def split: option.splits)
    moreover obtain argv' where p: "do_permute ?i st = Some (st\<lparr>gl_argv := argv'\<rparr>)"
      "argv' = opts_seen st @ skipped st @ drop ?i (gl_argv st)" "?i - nonopt_count st = length (opts_seen st)"
      using permuted_state [OF assms(1) 3 _ ne] assms(2) by auto
    ultimately have st1: "st1 = st\<lparr>gl_argv := argv', gl_nonopt_start := Some (length (opts_seen st)), gl_nonopt_end := None\<rparr>"
      using 3 assms(4) by (auto simp: skip_nonopt_def)
    have len: "length (opts_seen st) + length (skipped st) = ?i" using seen_length [OF assms(1)] assms(2) by simp
    have drop: "drop ?i argv' = drop ?i (gl_argv st)" using len by (simp add: p(2) drop_append)
    have "argv' ! ?i = ?x" using drop assms(2) len by (metis p(2) hd_drop_conv_nth length_append length_drop le_add_diff_inverse less_imp_le add.assoc)
    moreover have "slice (length (opts_seen st)) ?i argv' = skipped st" using len by (auto simp: slice_def p(2))
    moreover have "length argv' = length (gl_argv st)" using len assms(2) by (simp add: p(2))
    moreover have "drop (Suc ?i) argv' = drop (Suc ?i) (gl_argv st)" using drop by (metis drop_Suc drop_tl)
    ultimately show ?thesis
      using assms(2,5) len by (auto simp: st'_def st1 opts_seen_def [of "_\<lparr>gl_optind := _\<rparr>"] skipped_def [of "_\<lparr>gl_optind := _\<rparr>"]
          slice_Suc p(2))
  qed
qed

section \<open>The scan\<close>

text \<open>The letters a call goes on with, and the partition that the rest of the calls is to arrive at.\<close>

definition pending :: "getopt_long_state \<Rightarrow> string" where
  "pending st = (if gl_optreset st then [] else gl_place st)"

definition outlook ::
  "string \<Rightarrow> long_option list option \<Rightarrow> bool \<Rightarrow> getopt_long_state \<Rightarrow> (string list \<times> string list \<times> string list) option" where
  "outlook options longs longonly st =
     map_option (\<lambda>(os, ns, rest). (opts_seen st @ os, skipped st @ ns, rest))
       (sort_args options longs longonly (pending st) (drop (gl_optind st) (gl_argv st)))"

definition arranged :: "string list \<times> string list \<times> string list \<Rightarrow> getopt_long_state \<Rightarrow> bool" where
  "arranged parts st \<longleftrightarrow> (case parts of (os, ns, rest) \<Rightarrow> gl_argv st = os @ ns @ rest \<and> gl_optind st = length os)"

text \<open>The skipped block is complete when the letters of an option are pending.\<close>

definition block_closed :: "getopt_long_state \<Rightarrow> bool" where
  "block_closed st \<longleftrightarrow> \<not> gl_at_start st \<and> (gl_nonopt_start st \<noteq> None \<longrightarrow> gl_nonopt_end st \<noteq> None)"

definition ready :: "getopt_long_state \<Rightarrow> bool" where
  "ready st \<longleftrightarrow> scan_ready st \<and> (pending st \<noteq> [] \<longrightarrow> block_closed st) \<and>
     (gl_optreset st \<longrightarrow> gl_nonopt_start st = None \<and> gl_nonopt_end st = None) \<and> 0 < gl_optind st"

text \<open>The letters left to look at, which bounds the number of calls.\<close>

definition gl_letters_left :: "getopt_long_state \<Rightarrow> nat" where
  "gl_letters_left st =
     (let ws = drop (gl_optind st) (gl_argv st) in
      if pending st = [] then sum_list (map length ws) else length (pending st) + sum_list (map length (tl ws)))"

lemma scan_end_arranged:
  assumes "nonopts_ok st" and "gl_optind st = length (gl_argv st)"
  shows "\<exists>st'. scan_end st = Some (Returned (- 1) st') \<and> arranged (opts_seen st, skipped st, []) st'"
proof (cases "gl_nonopt_end st")
  case None
  then show ?thesis
    using assms by (cases "gl_nonopt_start st")
      (auto simp: scan_end_def opts_seen_def skipped_def arranged_def nonopts_ok_def slice_def)
next
  case (Some e)
  have ne: "gl_nonopt_end st \<noteq> Some (gl_optind st)" using assms by (auto simp: nonopts_ok_def split: option.splits)
  show ?thesis
    by (rule permuted_state [OF assms(1)]) (use Some ne assms(2) in \<open>auto simp: scan_end_def arranged_def\<close>)
qed

lemma scan_dashes_arranged:
  assumes "nonopts_ok st" and "gl_optind st < length (gl_argv st)" and "gl_nonopt_start st \<noteq> None \<longrightarrow> gl_nonopt_end st \<noteq> None"
  shows "\<exists>st'. scan_dashes st = Some (Returned (- 1) st') \<and>
    arranged (opts_seen st @ [gl_argv st ! gl_optind st], skipped st, drop (Suc (gl_optind st)) (gl_argv st)) st'"
proof -
  define st1 where "st1 = st\<lparr>gl_optind := gl_optind st + 1, gl_place := [], gl_at_start := False\<rparr>"
  have "opts_seen st1 = opts_seen st @ take 1 (drop (gl_optind st) (gl_argv st))" "skipped st1 = skipped st"
    using seen_advance [OF assms(1,3), of st1 1] by (simp_all add: st1_def)
  then have seen: "opts_seen st1 = opts_seen st @ [gl_argv st ! gl_optind st]" "skipped st1 = skipped st"
    using assms(2) by (simp_all add: take_Suc hd_drop_conv_nth)
  have ok: "nonopts_ok st1" using assms(1) by (auto simp: nonopts_ok_def st1_def split: option.splits)
  have eq: "scan_dashes st = (if gl_nonopt_end st1 \<noteq> None then do { st2 \<leftarrow> do_permute (gl_optind st1) st1;
      Some (Returned (- 1) (forget_nonopts (st2\<lparr>gl_optind := gl_optind st1 - nonopt_count st1\<rparr>))) }
      else Some (Returned (- 1) (forget_nonopts st1)))"
    unfolding scan_dashes_def Let_def st1_def [symmetric] by simp
  have st1: "gl_optind st1 = Suc (gl_optind st)" "gl_argv st1 = gl_argv st" by (simp_all add: st1_def)
  show ?thesis
  proof (cases "gl_nonopt_end st1")
    case None
    then have "gl_nonopt_start st1 = None" using assms(3) by (auto simp: st1_def)
    with None have "opts_seen st1 = take (Suc (gl_optind st)) (gl_argv st)" "skipped st1 = []"
      using st1 by (simp_all add: opts_seen_def skipped_def)
    then have "take (Suc (gl_optind st)) (gl_argv st) = opts_seen st @ [gl_argv st ! gl_optind st]" "skipped st = []"
      using seen by simp_all
    moreover from this(1) have "Suc (gl_optind st) = length (opts_seen st @ [gl_argv st ! gl_optind st])"
      using assms(2) by (metis length_take min.absorb2 Suc_leI)
    moreover have "gl_argv st = take (Suc (gl_optind st)) (gl_argv st) @ drop (Suc (gl_optind st)) (gl_argv st)" by simp
    ultimately show ?thesis using None unfolding eq by (simp add: arranged_def st1)
  next
    case (Some e)
    have ne: "gl_nonopt_end st1 \<noteq> Some (gl_optind st1)"
      using assms(1) by (auto simp: nonopts_ok_def st1_def split: option.splits)
    have le: "gl_optind st1 \<le> length (gl_argv st1)" using assms(2) by (simp add: st1_def)
    show ?thesis
      by (rule permuted_state [OF ok _ le ne]) (use Some seen st1 in \<open>auto simp: eq arranged_def\<close>)
  qed
qed

text \<open>A permuting scan returns with the partition, or finds an option and changes nothing of the outlook.\<close>

definition finds_option :: "string \<Rightarrow> long_option list option \<Rightarrow> bool \<Rightarrow> getopt_long_state \<Rightarrow> getopt_long_state \<Rightarrow> bool" where
  "finds_option options longs longonly st st' \<longleftrightarrow> outlook options longs longonly st' = outlook options longs longonly st \<and>
     gl_inv st' \<and> \<not> gl_optreset st' \<and> gl_place st' \<noteq> [] \<and> block_closed st' \<and> 0 < gl_optind st' \<and>
     gl_letters_left st' \<le> gl_letters_left st"

lemma scan_args_outlook:
  assumes "ready st"
  shows "(\<exists>st' parts. scan_args False True st = Some (Returned (- 1) st') \<and>
        outlook options longs longonly st = Some parts \<and> arranged parts st') \<or>
     (\<exists>st'. scan_args False True st = Some (Scanned st') \<and> finds_option options longs longonly st st')"
  using assms
proof (induction "False" "True" st rule: scan_args.induct)
  case (1 st)
  let ?st = "st\<lparr>gl_optreset := False, gl_place := [], gl_at_start := False\<rparr>"
  let ?i = "gl_optind st" let ?x = "gl_argv st ! gl_optind st"
  have ok: "nonopts_ok ?st" and le: "?i \<le> length (gl_argv st)"
    using 1(2) by (auto simp: ready_def scan_ready_def nonopts_ok_def split: option.splits)
  have seen: "opts_seen ?st = opts_seen st" "skipped ?st = skipped st" by (rule seen_fields; simp)+
  consider (Pending) "pending st \<noteq> []" | (End) "pending st = []" "?i = length (gl_argv st)"
    | (Nonopt) "pending st = []" "?i < length (gl_argv st)" "is_nonopt ?x"
    | (Option) "pending st = []" "?i < length (gl_argv st)" "\<not> is_nonopt ?x"
    using le by fastforce
  then show ?case
  proof cases
    case Pending
    then have "\<not> gl_optreset st" "gl_place st \<noteq> []" by (auto simp: pending_def split: if_splits)
    moreover from this have "scan_args False True st = Some (Scanned st)" by (subst scan_args.simps) simp
    ultimately show ?thesis using Pending 1(2) by (auto simp: finds_option_def ready_def scan_ready_def gl_inv_def)
  next
    case End
    then have "scan_args False True st = scan_end ?st"
      by (subst scan_args.simps) (auto simp: Let_def pending_def split: if_splits)
    moreover have "outlook options longs longonly st = Some (opts_seen st, skipped st, [])"
      using End by (simp add: outlook_def)
    ultimately show ?thesis using scan_end_arranged [OF ok] End seen by auto
  next
    case Nonopt
    then have p: "gl_optreset st \<or> gl_place st = []" by (auto simp: pending_def split: if_splits)
    obtain st' where st': "skip_nonopt ?st = Some st'" "gl_inv (st'\<lparr>gl_optind := Suc ?i\<rparr>)" "gl_optind st' = ?i"
      using skip_nonopt_safe [OF ok] Nonopt by auto
    let ?st' = "st'\<lparr>gl_optind := Suc ?i\<rparr>"
    have sk: "opts_seen ?st' = opts_seen st" "skipped ?st' = skipped st @ [?x]"
      "drop (Suc ?i) (gl_argv st') = drop (Suc ?i) (gl_argv st)" "gl_place st' = []" "\<not> gl_optreset st'"
      using skip_seen [OF ok _ _ st'(1)] Nonopt seen by auto
    have d: "drop ?i (gl_argv st) = ?x # drop (Suc ?i) (gl_argv st)" using Nonopt(2) by (simp add: Cons_nth_drop_Suc)
    have eq: "scan_args False True st = scan_args False True ?st'"
      using Nonopt p st'(1) by (subst scan_args.simps) (simp add: Let_def)
    have out: "outlook options longs longonly ?st' = outlook options longs longonly st"
      using Nonopt sk d sort_args.simps(2) [of options longs longonly "[]" ?x "drop (Suc ?i) (gl_argv st)"]
      by (simp add: outlook_def pending_def [of ?st'] option.map_comp comp_def case_prod_unfold)
    have left: "gl_letters_left ?st' \<le> gl_letters_left st"
      using Nonopt sk d by (simp add: gl_letters_left_def Let_def pending_def [of ?st'])
    have "ready ?st'" using st'(2) sk by (auto simp: ready_def scan_ready_if_inv pending_def)
    from 1(1) [OF p refl refl _ Nonopt(3) _ _ st'(1)] Nonopt(2) this show ?thesis
      unfolding eq using out left by (fastforce simp: finds_option_def)
  next
    case Option
    then have p: "gl_optreset st \<or> gl_place st = []" by (auto simp: pending_def split: if_splits)
    define st2 where "st2 = (if gl_nonopt_start ?st \<noteq> None \<and> gl_nonopt_end ?st = None
      then ?st\<lparr>gl_nonopt_end := Some ?i\<rparr> else ?st)"
    have eq: "scan_args False True st =
      (if tl ?x = [dash] then scan_dashes st2 else Some (Scanned (st2\<lparr>gl_place := tl ?x\<rparr>)))"
      using Option p by (subst scan_args.simps) (simp add: Let_def st2_def)
    have st2: "gl_argv st2 = gl_argv st" "gl_optind st2 = ?i" "gl_nonopt_start st2 \<noteq> None \<longrightarrow> gl_nonopt_end st2 \<noteq> None"
      "\<not> gl_optreset st2" "\<not> gl_at_start st2" by (simp_all add: st2_def)
    have ok2: "nonopts_ok st2" using ok Option by (auto simp: nonopts_ok_def st2_def split: option.splits)
    have seen2: "opts_seen st2 = opts_seen st" "skipped st2 = skipped st"
      by (auto simp: st2_def opts_seen_def skipped_def split: option.splits)
    have d: "drop ?i (gl_argv st) = ?x # drop (Suc ?i) (gl_argv st)" using Option(2) by (simp add: Cons_nth_drop_Suc)
    show ?thesis
    proof (cases "tl ?x = [dash]")
      case True
      have "outlook options longs longonly st = Some (opts_seen st @ [?x], skipped st, drop (Suc ?i) (gl_argv st))"
        using Option True d sort_args.simps(2) [of options longs longonly "[]" ?x "drop (Suc ?i) (gl_argv st)"]
        by (simp add: outlook_def)
      then show ?thesis using True scan_dashes_arranged [OF ok2 _ st2(3)] Option(2) st2 seen2 by (auto simp: eq)
    next
      case False
      let ?st2 = "st2\<lparr>gl_place := tl ?x\<rparr>"
      have ne: "tl ?x \<noteq> []" using Option(3) by (simp add: is_nonopt_def)
      have seen3: "opts_seen ?st2 = opts_seen st" "skipped ?st2 = skipped st"
        using seen2 seen_fields [of ?st2 st2] by simp_all
      have "sort_args options longs longonly [] (?x # ws) = sort_args options longs longonly (tl ?x) (?x # ws)" for ws
        using False ne Option(3) sort_args.simps(2) [of options longs longonly "[]" ?x ws]
          sort_args.simps(2) [of options longs longonly "tl ?x" ?x ws] by simp
      then have "outlook options longs longonly ?st2 = outlook options longs longonly st"
        using Option d seen3 st2 by (simp add: outlook_def pending_def [of ?st2])
      moreover have "gl_letters_left ?st2 \<le> gl_letters_left st"
        using Option d st2 ne by (simp add: gl_letters_left_def Let_def pending_def [of ?st2])
      moreover have "gl_inv ?st2" using ok2 Option(2) st2 by (auto simp: gl_inv_defs split: option.splits)
      moreover have "0 < ?i" using 1(2) by (simp add: ready_def)
      ultimately show ?thesis using False ne st2 by (auto simp: eq finds_option_def block_closed_def)
    qed
  qed
qed

section \<open>One option\<close>

text \<open>The letters \<open>p\<close> are left of the word, or the option is complete with \<open>k\<close> words behind it.\<close>

definition took :: "getopt_long_state \<Rightarrow> string \<Rightarrow> nat \<Rightarrow> getopt_long_state \<Rightarrow> bool" where
  "took st p k st' \<longleftrightarrow> gl_argv st' = gl_argv st \<and> gl_nonopt_start st' = gl_nonopt_start st \<and>
     gl_nonopt_end st' = gl_nonopt_end st \<and> gl_optreset st' = gl_optreset st \<and> \<not> gl_at_start st' \<and> gl_place st' = p \<and>
     gl_optind st' = (if p = [] then gl_optind st + 1 + k else gl_optind st)"

definition words_behind :: "getopt_long_state \<Rightarrow> string list" where
  "words_behind st = drop (Suc (gl_optind st)) (gl_argv st)"

lemma parse_long_takes:
  assumes "gl_optind st < length (gl_argv st)" and "values_ok longs"
  shows "case long_takes longs longonly short_too (gl_place st) of
    None \<Rightarrow> parse_long_options options longs idx short_too longonly st = Some (- 1, st)
  | Some b \<Rightarrow> \<exists>r st'. parse_long_options options longs idx short_too longonly st = Some (r, st') \<and> r \<noteq> - 1 \<and>
      took st [] (next_word (Some b) (words_behind st)) (st'\<lparr>gl_place := [], gl_at_start := False\<rparr>)"
proof -
  let ?key = "takeWhile (\<lambda>c. c \<noteq> CHR ''='') (gl_place st)"
  obtain m exact second where match: "match_long longs ?key short_too longonly 0 longs None False = (m, exact, second)"
    by (metis prod_cases3)
  show ?thesis
  proof (cases m)
    case None
    with match show ?thesis
      by (auto simp: long_takes_def parse_long_options_def Let_def error_codes took_def next_word_def warn_option_def)
  next
    case (Some k)
    have val: "lo_flag (longs ! k) = None \<longrightarrow> lo_val (longs ! k) \<noteq> - 1"
      using match_long_member [of longs ?key short_too longonly False k] match Some assms(2) by (auto simp: values_ok_def)
    show ?thesis
    proof (cases "\<not> exact \<and> second")
      case True
      with match show ?thesis
        by (simp add: long_takes_def parse_long_options_def Let_def error_codes took_def next_word_def warn_option_def)
    next
      case False
      with assms(1) match Some val show ?thesis
        by (cases "lo_has_arg (longs ! k)"; cases "lo_flag (longs ! k)")
          (auto simp: long_takes_def parse_long_options_def Let_def error_codes took_def next_word_def warn_option_def
            words_behind_def arg_at_def)
    qed
  qed
qed

fun call_took :: "getopt_long_state \<Rightarrow> string \<Rightarrow> nat \<Rightarrow> (int \<times> getopt_long_state) option \<Rightarrow> bool" where
  "call_took st p k (Some (r, st')) \<longleftrightarrow> r \<noteq> - 1 \<and> took st p k st'"
| "call_took st p k None \<longleftrightarrow> False"

lemma long_takes_alone: "\<exists>b. long_takes longs longonly False cur = Some b"
  by (auto simp: long_takes_def split: prod.splits option.splits)

lemma parse_long_only:
  assumes "gl_optind st < length (gl_argv st)" and "values_ok longs"
  shows "call_took st [] (next_word (long_takes longs longonly False (gl_place st)) (words_behind st))
    (do { (r, st') \<leftarrow> parse_long_options options longs idx False longonly st; Some (r, st'\<lparr>gl_place := [], gl_at_start := False\<rparr>) })"
proof -
  obtain b where b: "long_takes longs longonly False (gl_place st) = Some b" using long_takes_alone by blast
  from parse_long_takes [OF assms, where longonly = longonly and short_too = False and options = options and idx = idx] show ?thesis by (auto simp: b)
qed

text \<open>\<^verbatim>\<open>-W\<close> with the long option in the same or in the next word.\<close>

lemma W_takes:
  assumes "gl_optind st < length (gl_argv st)" and "values_ok longs" and "gl_place st = c # cs"
    and "cs = [] \<longrightarrow> words_behind st \<noteq> []"
  defines "st1 \<equiv> st\<lparr>gl_place := cs, gl_at_start := False\<rparr>"
  defines "st2 \<equiv> (if cs \<noteq> [] then st1
    else st1\<lparr>gl_optind := gl_optind st1 + 1, gl_place := gl_argv st1 ! (gl_optind st1 + 1), gl_at_start := True\<rparr>)"
  shows "call_took st [] (if cs \<noteq> [] then next_word (long_takes longs longonly False cs) (words_behind st)
      else Suc (next_word (long_takes longs longonly False (hd (words_behind st))) (tl (words_behind st))))
    (do { (r, st') \<leftarrow> parse_long_options options longs idx False longonly (st2\<lparr>gl_dash_prefix := W_PREFIX\<rparr>);
          Some (r, st'\<lparr>gl_place := [], gl_at_start := False\<rparr>) })"
proof (cases "cs = []")
  case False
  have shift: "call_took (st2\<lparr>gl_dash_prefix := W_PREFIX\<rparr>) [] k x \<Longrightarrow> call_took st [] k x" for k x
    using False by (cases x) (auto simp: st2_def st1_def took_def)
  have "words_behind (st2\<lparr>gl_dash_prefix := W_PREFIX\<rparr>) = words_behind st"
    using False by (simp add: st2_def st1_def words_behind_def)
  with False parse_long_only [of "st2\<lparr>gl_dash_prefix := W_PREFIX\<rparr>" longs, where longonly = longonly and options = options and idx = idx] assms(1,2) show ?thesis
    by (intro shift) (simp add: st2_def st1_def)
next
  case True
  with assms(4) have lt: "Suc (gl_optind st) < length (gl_argv st)" by (simp add: words_behind_def)
  have shift: "call_took (st2\<lparr>gl_dash_prefix := W_PREFIX\<rparr>) [] k x \<Longrightarrow> call_took st [] (Suc k) x" for k x
    using True by (cases x) (auto simp: st2_def st1_def took_def)
  have "words_behind (st2\<lparr>gl_dash_prefix := W_PREFIX\<rparr>) = tl (words_behind st)"
    using True by (simp add: st2_def st1_def words_behind_def drop_Suc tl_drop)
  moreover have "hd (words_behind st) = gl_argv st ! Suc (gl_optind st)" using lt by (simp add: words_behind_def hd_drop_conv_nth)
  ultimately show ?thesis
    using True lt parse_long_only [of "st2\<lparr>gl_dash_prefix := W_PREFIX\<rparr>" longs, where longonly = longonly and options = options and idx = idx] assms(2)
    by (simp add: shift) (rule shift, simp add: st2_def st1_def)
qed

lemma short_option_takes:
  assumes "gl_optind st < length (gl_argv st)" and "gl_place st = c # cs" and "longs = None \<or> values_ok (the longs)"
    and "letter_takes options longs longonly c cs (words_behind st) = Some (p, k)" and "CHR 0xFF \<notin> set options"
  shows "call_took st p k (short_option options longs idx longonly posixly st)"
proof -
  have "code c \<noteq> - 1" if "c \<in> set options" using assms(5) that by (auto simp: code_EOF)
  note [simp] = this
  have behind: "words_behind st = [] \<longleftrightarrow> length (gl_argv st) \<le> Suc (gl_optind st)" by (auto simp: words_behind_def)
  consider (Bad) "c = colon \<or> (c = dash \<and> cs \<noteq> []) \<or> c \<notin> set options"
    | (W) "\<not> (c = colon \<or> (c = dash \<and> cs \<noteq> []) \<or> c \<notin> set options)"
        "longs \<noteq> None \<and> c = CHR ''W'' \<and> starts (after_letter options c) (CHR '';'')"
    | (Letter) "\<not> (c = colon \<or> (c = dash \<and> cs \<noteq> []) \<or> c \<notin> set options)"
        "\<not> (longs \<noteq> None \<and> c = CHR ''W'' \<and> starts (after_letter options c) (CHR '';''))" by blast
  then show ?thesis
  proof cases
    case Bad
    with assms(4) have "\<not> (c = dash \<and> cs = [])" "p = cs" "k = 0" by (auto simp: letter_takes_def split: if_splits)
    with Bad assms(2) show ?thesis
      by (auto simp: short_option_def Let_def took_def warn_option_def)
  next
    case W
    show ?thesis
    proof (cases "cs = [] \<and> words_behind st = []")
      case True
      with W assms(4) have "p = []" "k = 0" by (auto simp: letter_takes_def)
      with True W assms(2) behind show ?thesis
        by (auto simp: short_option_def Let_def missing_argument_def took_def warn_option_def error_codes)
    next
      case False
      let ?k = "if cs \<noteq> [] then next_word (long_takes (the longs) longonly False cs) (words_behind st)
        else Suc (next_word (long_takes (the longs) longonly False (hd (words_behind st))) (tl (words_behind st)))"
      have "p = []" "k = ?k" using False W assms(4)
        by (cases "words_behind st"; cases "cs = []"; simp add: letter_takes_def)+
      moreover have "values_ok (the longs)" using W(2) assms(3) by auto
      then have "call_took st [] ?k (short_option options longs idx longonly posixly st)"
        using W_takes [OF assms(1) _ assms(2), where longs = "the longs" and longonly = longonly and options = options and idx = idx] False W assms(2) behind
        by (auto simp: short_option_def Let_def)
      ultimately show ?thesis by simp
    qed
  next
    case Letter
    with assms(2,4) behind show ?thesis
      by (auto simp: letter_takes_def next_word_def short_option_def Let_def missing_argument_def took_def warn_option_def
          error_codes min_def Suc_le_eq split: if_splits)
  qed
qed

lemma try_long_takes:
  assumes "gl_optind st < length (gl_argv st)" and "gl_place st \<noteq> []" and "longs = None \<or> values_ok (the longs)"
    and "\<not> gl_at_start st" and "option_takes options longs longonly (gl_place st) (words_behind st) = Some (p, k)"
    and "CHR 0xFF \<notin> set options"
  shows "call_took st p k (try_long options longs idx longonly posixly st)"
proof -
  obtain c cs where pl: "gl_place st = c # cs" using assms(2) by (cases "gl_place st") auto
  let ?dd = "starts (gl_place st) dash"
  show ?thesis
  proof (cases "longs \<noteq> None \<and> (?dd \<or> longonly)")
    case False
    with assms(4,5) pl have "letter_takes options longs longonly c cs (words_behind st) = Some (p, k)"
      "try_long options longs idx longonly posixly st = short_option options longs idx longonly posixly st"
      by (auto simp: option_takes_def try_long_def Let_def)
    with short_option_takes [OF assms(1) pl assms(3) _ assms(6)] show ?thesis by simp
  next
    case True
    define too where "too = (\<not> ?dd \<and> \<not> starts (gl_place st) colon \<and> hd (gl_place st) \<in> set options)"
    define st1 where "st1 = (if ?dd then st\<lparr>gl_place := tl (gl_place st), gl_dash_prefix := DD_PREFIX\<rparr>
      else st\<lparr>gl_dash_prefix := D_PREFIX\<rparr>)"
    have eq: "try_long options longs idx longonly posixly st =
      do { (r, st2) \<leftarrow> parse_long_options options (the longs) idx too longonly st1;
           if r \<noteq> - 1 then Some (r, st2\<lparr>gl_place := [], gl_at_start := False\<rparr>)
           else short_option options longs idx longonly posixly st2 }"
      using True assms(4) by (simp add: try_long_def too_def st1_def Let_def)
    have st1: "gl_optind st1 < length (gl_argv st1)" "words_behind st1 = words_behind st"
      using assms(1) by (simp_all add: st1_def words_behind_def)
    have shift: "call_took st1 p k x \<Longrightarrow> call_took st p k x" for x
      by (cases x) (auto simp: st1_def took_def)
    have "values_ok (the longs)" using True assms(3) by auto
    note long = parse_long_takes [OF st1(1) this, where longonly = longonly and short_too = too and options = options and idx = idx]
    have place: "gl_place st1 = (if ?dd then tl (gl_place st) else gl_place st)" by (simp add: st1_def)
    let ?long = "long_takes (the longs) longonly too (gl_place st1)"
    have opt: "option_takes options longs longonly (gl_place st) (words_behind st) =
      (if ?long \<noteq> None then Some ([], next_word ?long (words_behind st1)) else letter_takes options longs longonly c cs (words_behind st1))"
      unfolding option_takes_def Let_def too_def place st1(2) if_P [OF True] by (simp only: pl list.sel)
    show ?thesis
    proof (cases ?long)
      case None
      then have "\<not> ?dd" by (auto simp: long_takes_def too_def split: prod.splits option.splits if_splits)
      with None assms(5) pl place opt have "letter_takes options longs longonly c cs (words_behind st1) = Some (p, k)"
        "gl_place st1 = c # cs" by simp_all
      with short_option_takes [OF st1(1) _ assms(3) _ assms(6)] long None show ?thesis
        unfolding eq by (intro shift) simp
    next
      case (Some b)
      with assms(5) opt have "p = []" "k = next_word (Some b) (words_behind st1)" by simp_all
      with long Some show ?thesis unfolding eq by (intro shift) auto
    qed
  qed
qed

section \<open>All calls for a command line\<close>

lemma next_word_bound: "next_word b ws \<le> length ws"
  by (simp add: next_word_def)

lemma option_takes_bound:
  assumes "option_takes options longs longonly place ws = Some (p, k)"
  shows "k \<le> length ws"
proof -
  have "letter_takes options longs longonly c cs ws = Some (p, k) \<Longrightarrow> k \<le> length ws" for c cs
    by (auto simp: letter_takes_def next_word_bound split: if_splits list.splits)
  then show ?thesis using assms by (auto simp: option_takes_def Let_def next_word_bound split: if_splits)
qed

text \<open>An option is read as the reference reads it.\<close>

lemma took_outlook:
  assumes "gl_inv st" and "\<not> gl_optreset st" and "gl_place st \<noteq> []" and "block_closed st" and "0 < gl_optind st"
    and "option_takes options longs longonly (gl_place st) (words_behind st) = Some (p, k)" and "took st p k st'"
  shows "ready st' \<and> \<not> gl_optreset st' \<and> outlook options longs longonly st' = outlook options longs longonly st \<and>
    gl_letters_left st' < gl_letters_left st"
proof -
  let ?i = "gl_optind st" let ?w = "gl_argv st ! gl_optind st" let ?ws = "words_behind st"
  have lt: "?i < length (gl_argv st)" and ok: "nonopts_ok st" using assms(1,3) by (simp_all add: gl_inv_def)
  then have d: "drop ?i (gl_argv st) = ?w # ?ws" by (simp add: words_behind_def Cons_nth_drop_Suc)
  have le: "k \<le> length ?ws" by (rule option_takes_bound [OF assms(6)])
  note sort = sort_args.simps(2) [of options longs longonly "gl_place st" ?w ?ws]
  have st': "gl_argv st' = gl_argv st" "gl_nonopt_start st' = gl_nonopt_start st" "gl_nonopt_end st' = gl_nonopt_end st"
    "\<not> gl_optreset st'" "\<not> gl_at_start st'" "gl_place st' = p" "pending st' = p" "pending st = gl_place st"
    "gl_optind st' = (if p = [] then ?i + 1 + k else ?i)"
    using assms(2,7) by (simp_all add: took_def pending_def)
  have blk: "gl_nonopt_start st \<noteq> None \<longrightarrow> gl_nonopt_end st \<noteq> None" using assms(4) by (simp add: block_closed_def)
  have "ready st'"
    using st' lt ok le blk assms(5)
    by (auto simp: ready_def scan_ready_def nonopts_ok_def block_closed_def words_behind_def split: option.splits)
  moreover have "outlook options longs longonly st' = outlook options longs longonly st"
  proof (cases "p = []")
    case True
    have "opts_seen st' = opts_seen st @ take (Suc k) (?w # ?ws)" "skipped st' = skipped st"
      using seen_advance [OF ok blk st'(1-3), of "Suc k"] st'(9) True d by simp_all
    moreover have "drop (gl_optind st') (gl_argv st') = drop k ?ws"
      using True st' by (simp add: words_behind_def ac_simps)
    ultimately show ?thesis
      using True st' d sort assms(3,6) by (simp add: outlook_def option.map_comp comp_def case_prod_unfold)
  next
    case False
    have "opts_seen st' = opts_seen st" "skipped st' = skipped st" using seen_fields [of st' st] st' False by simp_all
    then show ?thesis using False st' d sort assms(3,6) by (simp add: outlook_def)
  qed
  moreover have "gl_letters_left st' < gl_letters_left st"
  proof (cases "p = []")
    case True
    have "drop (gl_optind st') (gl_argv st') = drop k ?ws"
      using True st' by (simp add: words_behind_def ac_simps)
    moreover have "sum_list (map length (drop k ?ws)) \<le> sum_list (map length ?ws)"
      by (metis append_take_drop_id le_add2 map_append sum_list_append)
    ultimately show ?thesis using True st' assms(3) d by (cases "gl_place st") (simp_all add: gl_letters_left_def Let_def)
  next
    case False
    with option_takes_shorter [OF assms(6)] st' d assms(3) show ?thesis by (simp add: gl_letters_left_def Let_def)
  qed
  ultimately show ?thesis using st'(4) by blast
qed

text \<open>The permuting parser: no \<^verbatim>\<open>POSIXLY_CORRECT\<close>, and the option string starts with neither
  plus nor minus. The byte 0xFF is no option letter, it would be returned as -1.\<close>

definition permuting :: "string \<Rightarrow> bool" where
  "permuting options \<longleftrightarrow> \<not> starts options dash \<and> \<not> starts options (CHR ''+'') \<and> CHR 0xFF \<notin> set options"

lemma one_call:
  assumes "ready st" and "outlook options longs (fl_longonly flags) st = Some parts" and "permuting options"
    and "longs = None \<or> values_ok (the longs)" and "fl_permute flags" and "\<not> fl_allargs flags"
  shows "\<exists>r st1. getopt_internal (Some options) longs idx False flags st = Some (r, st1) \<and>
    (if r = - 1 then arranged parts st1
     else ready st1 \<and> \<not> gl_optreset st1 \<and> outlook options longs (fl_longonly flags) st1 = Some parts \<and>
       gl_letters_left st1 < gl_letters_left st)"
proof -
  let ?lo = "fl_longonly flags" let ?st = "st\<lparr>gl_optarg := None\<rparr>"
  have "(if gl_optreset ?st then forget_nonopts ?st else ?st) = ?st"
    using assms(1) by (auto simp: ready_def forget_nonopts_def)
  then have eq: "getopt_internal (Some options) longs idx False flags st =
    (case scan_args False True ?st of
       None \<Rightarrow> None | Some (Returned r st4) \<Rightarrow> Some (r, st4)
     | Some (Scanned st4) \<Rightarrow> try_long options longs idx ?lo False st4)"
    using assms(1,3,5,6) by (simp add: getopt_internal_def Let_def permuting_def ready_def)
  have seen: "opts_seen ?st = opts_seen st" "skipped ?st = skipped st" by (rule seen_fields; simp)+
  then have out: "outlook options longs ?lo ?st = Some parts"
    using assms(2) by (cases "gl_optreset st") (simp_all add: outlook_def pending_def)
  have rdy: "ready ?st"
    using assms(1) by (auto simp: ready_def scan_ready_def pending_def block_closed_def nonopts_ok_def split: option.splits)
  have left: "gl_letters_left ?st = gl_letters_left st" by (simp add: gl_letters_left_def pending_def Let_def)
  from scan_args_outlook [OF rdy, of options longs ?lo] show ?thesis
  proof (elim disjE exE conjE)
    fix st' parts' assume "scan_args False True ?st = Some (Returned (- 1) st')"
      "outlook options longs ?lo ?st = Some parts'" "arranged parts' st'"
    then show ?thesis using out unfolding eq by simp
  next
    fix st' assume sc: "scan_args False True ?st = Some (Scanned st')" and f: "finds_option options longs ?lo ?st st'"
    then have st': "gl_inv st'" "\<not> gl_optreset st'" "gl_place st' \<noteq> []" "block_closed st'" "0 < gl_optind st'"
      "outlook options longs ?lo st' = Some parts" "gl_letters_left st' \<le> gl_letters_left st"
      using out left by (simp_all add: finds_option_def)
    then have lt: "gl_optind st' < length (gl_argv st')" and "\<not> gl_at_start st'" by (simp_all add: gl_inv_def block_closed_def)
    have "drop (gl_optind st') (gl_argv st') = gl_argv st' ! gl_optind st' # words_behind st'"
      using lt by (simp add: words_behind_def Cons_nth_drop_Suc)
    then obtain p k where takes: "option_takes options longs ?lo (gl_place st') (words_behind st') = Some (p, k)"
      using st'(2,3,6) sort_args.simps(2) [of options longs ?lo "gl_place st'" "gl_argv st' ! gl_optind st'" "words_behind st'"]
      by (auto simp: outlook_def pending_def split: option.splits)
    have "call_took st' p k (try_long options longs idx ?lo False st')"
      using try_long_takes [OF lt st'(3) assms(4) \<open>\<not> gl_at_start st'\<close> takes] assms(3) by (simp add: permuting_def)
    then obtain r st1 where r: "try_long options longs idx ?lo False st' = Some (r, st1)" "r \<noteq> - 1" "took st' p k st1"
      by (cases "try_long options longs idx ?lo False st'") auto
    from took_outlook [OF st'(1-5) takes r(3)] r(1,2) st'(6,7) show ?thesis unfolding eq sc by auto
  qed
qed

text \<open>At most \<open>n\<close> further calls.\<close>

fun run_calls :: "(getopt_long_state \<Rightarrow> (int \<times> getopt_long_state) option) \<Rightarrow> nat \<Rightarrow> getopt_long_state \<Rightarrow> (int \<times> getopt_long_state) option" where
  "run_calls call 0 st = call st"
| "run_calls call (Suc n) st =
     (case call st of
        None \<Rightarrow> None
      | Some (r, st') \<Rightarrow> if r = - 1 then Some (r, st') else run_calls call n st')"

lemma calls_arrange:
  assumes "ready st" and "outlook options longs (fl_longonly flags) st = Some parts" and "permuting options"
    and "longs = None \<or> values_ok (the longs)" and "fl_permute flags" and "\<not> fl_allargs flags" and "gl_letters_left st \<le> n"
  shows "\<exists>st'. run_calls (getopt_internal (Some options) longs idx False flags) n st = Some (- 1, st') \<and> arranged parts st'"
  using assms
proof (induction n arbitrary: st)
  case 0
  with one_call [OF 0(1-6), of idx] show ?case by (auto split: if_splits)
next
  case (Suc n)
  obtain r st1 where r: "getopt_internal (Some options) longs idx False flags st = Some (r, st1)"
    "if r = - 1 then arranged parts st1
     else ready st1 \<and> \<not> gl_optreset st1 \<and> outlook options longs (fl_longonly flags) st1 = Some parts \<and>
       gl_letters_left st1 < gl_letters_left st"
    using one_call [OF Suc.prems(1-6), of idx] by blast
  with Suc.IH [of st1] Suc.prems(3-7) show ?case by (cases "r = - 1") auto
qed

text \<open>The reader only sorts: the words it goes over are its options and operands in their order.\<close>

lemma sort_args_stable:
  "sort_args options longs longonly place ws = Some (os, ns, rest) \<Longrightarrow>
   \<exists>mix. ws = mix @ rest \<and> mix \<in> shuffles os ns \<and> list_all is_nonopt ns"
proof (induction options longs longonly place ws arbitrary: os ns rest rule: sort_args.induct)
  case (1 options longs longonly place)
  then show ?case by simp
next
  case (2 options longs longonly place w ws)
  consider (Nonopt) "place = [] \<and> is_nonopt w" | (Dashes) "\<not> (place = [] \<and> is_nonopt w)" "place = [] \<and> tl w = [dash]"
    | (Option) "\<not> (place = [] \<and> is_nonopt w)" "\<not> (place = [] \<and> tl w = [dash])" by blast
  then show ?case
  proof cases
    case Nonopt
    with 2(4) obtain ns' where ns: "ns = w # ns'" "sort_args options longs longonly [] ws = Some (os, ns', rest)"
      by (auto simp: sort_args.simps(2))
    from 2(1) [OF Nonopt ns(2)] obtain mix where "ws = mix @ rest" "mix \<in> shuffles os ns'" "list_all is_nonopt ns'" by blast
    with Nonopt ns(1) show ?thesis by (intro exI [of _ "w # mix"]) (auto intro: Cons_in_shuffles_rightI)
  next
    case Dashes
    with 2(4) show ?thesis by (auto simp: sort_args.simps(2))
  next
    case Option
    with 2(4) obtain p k where pk: "option_takes options longs longonly (if place = [] then tl w else place) ws = Some (p, k)"
      by (auto simp: sort_args.simps(2) split: option.splits)
    show ?thesis
    proof (cases "p = []")
      case False
      with 2(4) Option pk have "sort_args options longs longonly p (w # ws) = Some (os, ns, rest)"
        by (simp add: sort_args.simps(2) [of _ _ _ place])
      with 2(2) [OF Option pk refl False] show ?thesis by blast
    next
      case True
      with 2(4) Option pk obtain os' where os: "os = w # take k ws @ os'"
        "sort_args options longs longonly [] (drop k ws) = Some (os', ns, rest)"
        by (auto simp: sort_args.simps(2) [of _ _ _ place])
      from 2(3) [OF Option pk refl _ os(2)] True
      obtain mix where mix: "drop k ws = mix @ rest" "mix \<in> shuffles os' ns" "list_all is_nonopt ns" by blast
      have "ys @ mix \<in> shuffles (ys @ os') ns" for ys using mix(2) by (induction ys) (auto intro: Cons_in_shuffles_leftI)
      from this [of "w # take k ws"] mix os(1) show ?thesis
        by (intro exI [of _ "w # take k ws @ mix"]) (metis append_Cons append_assoc append_take_drop_id)
    qed
  qed
qed

section \<open>Properties\<close>

text \<open>Before the first call: the scan starts at \<^verbatim>\<open>optind\<close>, or at 1 if it is 0.\<close>

definition before_first :: "getopt_long_state \<Rightarrow> bool" where
  "before_first st \<longleftrightarrow> (if gl_optind st = 0 then gl_argv st \<noteq> [] else gl_optind st \<le> length (gl_argv st)) \<and>
     (gl_optind st = 0 \<or> gl_optreset st \<or> gl_place st = [] \<and> gl_nonopt_start st = None \<and> gl_nonopt_end st = None)"

definition scan_start :: "getopt_long_state \<Rightarrow> nat" where
  "scan_start st = (if gl_optind st = 0 then 1 else gl_optind st)"

lemma first_call:
  assumes "before_first st"
  shows "\<exists>st0. (\<forall>n. run_calls (getopt_internal (Some options) longs idx posixly flags) n st =
      run_calls (getopt_internal (Some options) longs idx posixly flags) n st0) \<and> ready st0 \<and> pending st0 = [] \<and>
    gl_argv st0 = gl_argv st \<and> gl_optind st0 = scan_start st \<and> opts_seen st0 = take (scan_start st) (gl_argv st) \<and> skipped st0 = []"
proof -
  define st1 where "st1 = (if gl_optind st = 0 then st\<lparr>gl_optind := 1, gl_optreset := True\<rparr> else st)"
  define st0 where "st0 = (if gl_optreset st1 then forget_nonopts st1 else st1)"
  have st0: "gl_nonopt_start st0 = None" "gl_nonopt_end st0 = None" "pending st0 = []" "gl_argv st0 = gl_argv st"
    "gl_optind st0 = scan_start st" "0 < gl_optind st0" "gl_optind st0 \<le> length (gl_argv st)"
    using assms by (auto simp: st0_def st1_def before_first_def forget_nonopts_def pending_def scan_start_def Suc_le_eq
        split: if_splits)
  have "getopt_internal (Some options) longs idx posixly flags st = getopt_internal (Some options) longs idx posixly flags st0"
    unfolding getopt_internal_def option.case Let_def
    by (auto simp: st0_def st1_def forget_nonopts_def)
  then have "run_calls (getopt_internal (Some options) longs idx posixly flags) n st =
      run_calls (getopt_internal (Some options) longs idx posixly flags) n st0" for n by (cases n) simp_all
  moreover have "ready st0"
    using st0 by (auto simp: ready_def scan_ready_def nonopts_ok_def pending_def split: if_splits)
  ultimately show ?thesis using st0 by (intro exI [of _ st0]) (simp add: opts_seen_def skipped_def)
qed

text \<open>
  C4: Calling \<^verbatim>\<open>getopt_long\<close> or \<^verbatim>\<open>getopt_long_only\<close> for a command line until it returns -1 takes at most as many
  further calls as there are letters in the arguments, and leaves the vector as the stable partition that the
  left-to-right reader makes of the command line: first every option with the words it takes as its
  arguments (and \<^verbatim>\<open>--\<close>), then every operand, then the words behind \<^verbatim>\<open>--\<close>, each group in its original
  order, with \<^verbatim>\<open>optind\<close> at the first operand. This is the permuting mode; the reader must come
  to an end, that is no cluster of letters contains a dash that is not an option letter.
\<close>

theorem getopt_long_keeps_order:
  assumes "before_first st0" and "(call, longonly) \<in> {(getopt_long, False), (getopt_long_only, True)}"
    and "permuting options" and "longs = None \<or> values_ok (the longs)"
    and "drop (scan_start st0) (gl_argv st0) = args" and "sum_list (map length args) \<le> n"
    and "sort_args options longs longonly [] args = Some (os, ns, rest)"
  shows "\<exists>st. run_calls (call (Some options) longs idx False) n st0 = Some (- 1, st) \<and>
    gl_argv st = take (scan_start st0) (gl_argv st0) @ os @ ns @ rest \<and> gl_optind st = scan_start st0 + length os \<and>
    (\<exists>mix. args = mix @ rest \<and> mix \<in> shuffles os ns) \<and> list_all is_nonopt ns"
proof -
  define flags where "flags = \<lparr>fl_permute = True, fl_allargs = False, fl_longonly = longonly\<rparr>"
  have call: "call (Some options) longs idx False = getopt_internal (Some options) longs idx False flags"
    using assms(2) by (auto simp: flags_def getopt_long_def [abs_def] getopt_long_only_def [abs_def])
  obtain st1 where st1: "\<And>n. run_calls (getopt_internal (Some options) longs idx False flags) n st0 =
      run_calls (getopt_internal (Some options) longs idx False flags) n st1" "ready st1" "pending st1 = []"
    "gl_argv st1 = gl_argv st0" "gl_optind st1 = scan_start st0" "opts_seen st1 = take (scan_start st0) (gl_argv st0)" "skipped st1 = []"
    using first_call [OF assms(1)] by blast
  have "outlook options longs (fl_longonly flags) st1 = Some (take (scan_start st0) (gl_argv st0) @ os, ns, rest)"
    using st1 assms(5,7) by (simp add: outlook_def flags_def)
  moreover have "gl_letters_left st1 \<le> n" using st1 assms(5,6) by (simp add: gl_letters_left_def)
  ultimately obtain st where st: "run_calls (call (Some options) longs idx False) n st0 = Some (- 1, st)"
    "arranged (take (scan_start st0) (gl_argv st0) @ os, ns, rest) st"
    using calls_arrange [OF st1(2) _ assms(3,4), of flags _ n idx] st1(1) call by (auto simp: flags_def)
  have "scan_start st0 \<le> length (gl_argv st0)" using assms(1) by (auto simp: before_first_def scan_start_def Suc_le_eq split: if_splits)
  with st sort_args_stable [OF assms(7)] show ?thesis by (auto simp: arranged_def)
qed

theorem getopt_long_keeps_order_witness:
  "\<exists>st. run_calls (getopt_long (Some ''ab:'') (Some table) True False) 30
      (first_state [''p'', ''x'', ''--out'', ''f'', ''y'', ''-ab'', ''v'', ''z'', ''--'', ''-a'']) = Some (- 1, st) \<and>
    gl_argv st = [''p'', ''--out'', ''f'', ''-ab'', ''v'', ''--'', ''x'', ''y'', ''z'', ''-a''] \<and> gl_optind st = 6"
proof -
  let ?argv = "[''p'', ''x'', ''--out'', ''f'', ''y'', ''-ab'', ''v'', ''z'', ''--'', ''-a'']"
  have "sort_args ''ab:'' (Some table) False [] (tl ?argv) =
    Some ([''--out'', ''f'', ''-ab'', ''v'', ''--''], [''x'', ''y'', ''z''], [''-a''])"
    by code_simp
  moreover have "permuting ''ab:''" by code_simp
  moreover have "before_first (first_state ?argv)" "scan_start (first_state ?argv) = 1" "gl_argv (first_state ?argv) = ?argv"
    by (simp_all add: first_state_def before_first_def scan_start_def)
  ultimately show ?thesis
    using getopt_long_keeps_order [of "first_state ?argv" getopt_long False "''ab:''" "Some table" "tl ?argv" 30
        "[''--out'', ''f'', ''-ab'', ''v'', ''--'']" "[''x'', ''y'', ''z'']" "[''-a'']" True] table_ok
    by auto
qed

text \<open>
  The excluded case: at a dash in a cluster the parser returns -1 without moving the skipped
  arguments, so the operand in front of the cluster is lost and the cluster passes for an operand.
\<close>

theorem stray_dash_loses_operand:
  "\<exists>st. run_calls (getopt_long (Some ''a'') None False False) 5 (first_state [''p'', ''x'', ''-a-'']) = Some (- 1, st) \<and>
     drop (gl_optind st) (gl_argv st) = [''-a-'']"
proof -
  have "(case run_calls (getopt_long (Some ''a'') None False False) 5 (first_state [''p'', ''x'', ''-a-'']) of
      None \<Rightarrow> False | Some (r, st) \<Rightarrow> r = - 1 \<and> drop (gl_optind st) (gl_argv st) = [''-a-''])"
    by code_simp
  then show ?thesis by (auto split: option.splits)
qed

end
