(* ===== verification/Session_Manager.thy ===== *)
theory Session_Manager
  imports Interfaces Env_Manager
begin

unbundle bit_operations_syntax

text \<open>
  \<^verbatim>\<open>ios_session_manager.m\<close>: the table of sessions, a hash table of 256 buckets with a lock each, sessions with reference counts
  and deferred deletion, the parameters of a session, and its cancellation flag with the pipe that
  wakes up blocked calls.

  A bucket is the list of its entries in the order of the chain; a session lives at an address of a store, and an
  address the store does not map has been freed. A critical section under a bucket lock is one
  step; the functions that leave the lock and take it again, or read the session after the lock, take the updates of the other
  threads in between as arguments. A result \<open>None\<close> is a fault: a freed session, a destroyed lock, a failed
  \<^verbatim>\<open>assert\<close>.
\<close>

section \<open>State\<close>

definition SESSION_HASH_TABLE_SIZE :: nat where
  "SESSION_HASH_TABLE_SIZE = 256"

definition SESSION_MAXPATHLEN :: nat where
  "SESSION_MAXPATHLEN = 1024"

datatype stream = Stdin | Stdout | Stderr | File nat

type_synonym session_id = u64

text \<open>\<open>sp_readers\<close> and \<open>sp_writer\<close> are the state of the lock, \<open>sp_pipe\<close> the number of bytes in the cancellation pipe.\<close>

record session_params =
  sp_isMainThread :: bool
  sp_currentDir :: string
  sp_previousDirectory :: string
  sp_localMiniRoot :: string
  sp_current_command_root_thread :: tid
  sp_lastThreadId :: tid
  sp_mainThreadId :: tid
  sp_stdin :: "stream option"
  sp_stdout :: "stream option"
  sp_stderr :: "stream option"
  sp_tty :: "stream option"
  sp_context :: session_id
  sp_global_errno :: int
  sp_numCommandsAllocated :: nat
  sp_numCommand :: nat
  sp_commandName :: "string option list option"
  sp_columns :: string
  sp_lines :: string
  sp_activePager :: bool
  sp_cancel_requested :: bool
  sp_cancel_pipe_read_fd :: int
  sp_cancel_pipe_write_fd :: int
  sp_readers :: nat
  sp_writer :: bool
  sp_ref_count :: int
  sp_is_destroying :: bool
  sp_pipe :: nat

record session_table =
  sm_store :: "addr \<rightharpoonup> session_params"
  sm_buckets :: "(session_id \<times> addr) list list"
  sm_total_sessions :: int
  sm_total_refs :: int
  sm_initialized :: bool
  sm_once :: bool
  sm_locks :: bool
  sm_closed_streams :: "stream list"
  sm_closed_fds :: "int list"
  sm_env :: env_manager

text \<open>What the system answers when a session is made: allocations, the pipe, the directory, the key of the environments.\<close>

record session_mem =
  me_entry :: bool
  me_session :: "addr option"
  me_array :: bool
  me_name :: "nat \<Rightarrow> bool"
  me_pipe :: "(int \<times> int) option"
  me_cwd :: string
  me_key :: int

text \<open>A reference: the session it points to and its id.\<close>

type_synonym session_ref = "addr \<times> session_id"

definition hash_session_id :: "session_id \<Rightarrow> nat" where
  "hash_session_id sid = unat ((sid XOR drop_bit 16 sid) AND of_nat (SESSION_HASH_TABLE_SIZE - 1))"

section \<open>Session parameters\<close>

definition ios_session_init_params :: "session_mem \<Rightarrow> session_params" where
  "ios_session_init_params mem =
     \<lparr>sp_isMainThread = True, sp_currentDir = take (SESSION_MAXPATHLEN - 1) (me_cwd mem),
      sp_previousDirectory = take SESSION_MAXPATHLEN (take (SESSION_MAXPATHLEN - 1) (me_cwd mem)), sp_localMiniRoot = [],
      sp_current_command_root_thread = 0, sp_lastThreadId = 0, sp_mainThreadId = 0,
      sp_stdin = Some Stdin, sp_stdout = Some Stdout, sp_stderr = Some Stderr, sp_tty = Some Stdin,
      sp_context = 0, sp_global_errno = 0, sp_numCommandsAllocated = 10, sp_numCommand = 0,
      sp_commandName = (if me_array mem then Some (map (\<lambda>i. if me_name mem i then Some [] else None) [0..<10]) else None),
      sp_columns = ''80'', sp_lines = ''80'', sp_activePager = False, sp_cancel_requested = False,
      sp_cancel_pipe_read_fd = (case me_pipe mem of None \<Rightarrow> - 1 | Some (r, w) \<Rightarrow> r),
      sp_cancel_pipe_write_fd = (case me_pipe mem of None \<Rightarrow> - 1 | Some (r, w) \<Rightarrow> w),
      sp_readers = 0, sp_writer = False, sp_ref_count = 0, sp_is_destroying = False, sp_pipe = 0\<rparr>"

text \<open>The parameters after the cleanup, the streams given to \<^verbatim>\<open>fclose\<close> and the descriptors given to \<^verbatim>\<open>close\<close>.\<close>

definition fclose_unless :: "stream \<Rightarrow> stream option \<Rightarrow> stream list" where
  "fclose_unless std f = (case f of None \<Rightarrow> [] | Some s \<Rightarrow> if s = std then [] else [s])"

definition ios_session_cleanup_params :: "session_params \<Rightarrow> session_params \<times> stream list \<times> int list" where
  "ios_session_cleanup_params sp =
     (sp\<lparr>sp_commandName := None,
         sp_cancel_pipe_read_fd := (if sp_cancel_pipe_read_fd sp \<ge> 0 then - 1 else sp_cancel_pipe_read_fd sp),
         sp_cancel_pipe_write_fd := (if sp_cancel_pipe_write_fd sp \<ge> 0 then - 1 else sp_cancel_pipe_write_fd sp)\<rparr>,
      fclose_unless Stdin (sp_stdin sp) @ fclose_unless Stdout (sp_stdout sp) @
        fclose_unless Stderr (sp_stderr sp) @ fclose_unless Stdin (sp_tty sp),
      (if sp_cancel_pipe_read_fd sp \<ge> 0 then [sp_cancel_pipe_read_fd sp] else []) @
        (if sp_cancel_pipe_write_fd sp \<ge> 0 then [sp_cancel_pipe_write_fd sp] else []))"

text \<open>The session lock; \<open>None\<close> is a thread that has to wait.\<close>

definition ios_session_read_lock :: "session_params \<Rightarrow> session_params option" where
  "ios_session_read_lock sp = (if sp_writer sp then None else Some (sp\<lparr>sp_readers := sp_readers sp + 1\<rparr>))"

definition ios_session_read_unlock :: "session_params \<Rightarrow> session_params" where
  "ios_session_read_unlock sp =
     (if sp_writer sp then sp\<lparr>sp_writer := False\<rparr> else sp\<lparr>sp_readers := sp_readers sp - 1\<rparr>)"

definition ios_session_write_lock :: "session_params \<Rightarrow> session_params option" where
  "ios_session_write_lock sp =
     (if sp_writer sp \<or> sp_readers sp > 0 then None else Some (sp\<lparr>sp_writer := True\<rparr>))"

definition ios_session_write_unlock :: "session_params \<Rightarrow> session_params" where
  "ios_session_write_unlock sp =
     (if sp_writer sp then sp\<lparr>sp_writer := False\<rparr> else sp\<lparr>sp_readers := sp_readers sp - 1\<rparr>)"

section \<open>Cancellation\<close>

text \<open>The errors of the attempts to write, in their order; after them the write succeeds.\<close>

fun write_wake :: "errno list \<Rightarrow> nat \<Rightarrow> nat" where
  "write_wake [] n = n + 1"
| "write_wake (e # es) n = (if e = EINTR then write_wake es n else n)"

definition ios_session_request_cancel :: "errno list \<Rightarrow> session_params option \<Rightarrow> int \<times> session_params option" where
  "ios_session_request_cancel es session =
     (case session of
        None \<Rightarrow> (- 1, None)
      | Some sp \<Rightarrow>
          (0, Some (sp\<lparr>sp_cancel_requested := True,
                       sp_pipe := (if \<not> sp_cancel_requested sp \<and> sp_cancel_pipe_write_fd sp \<ge> 0
                                   then write_wake es (sp_pipe sp) else sp_pipe sp)\<rparr>)))"

text \<open>The reads that empty the pipe, of at most 32 bytes; an interrupted read is repeated.\<close>

function drain_pipe :: "nat \<Rightarrow> nat" where
  "drain_pipe n = (let count = min 32 n in if count > 0 then drain_pipe (n - count) else n)"
  by pat_completeness auto

termination drain_pipe
  by (relation "measure id") (auto simp: Let_def)

lemmas [simp del] = drain_pipe.simps

definition ios_session_clear_cancel :: "session_params option \<Rightarrow> session_params option" where
  "ios_session_clear_cancel session =
     (case session of
        None \<Rightarrow> None
      | Some sp \<Rightarrow>
          let sp1 = sp\<lparr>sp_cancel_requested := False\<rparr>
          in if sp_cancel_pipe_read_fd sp1 < 0 then Some sp1
             else Some (sp1\<lparr>sp_pipe := drain_pipe (sp_pipe sp1)\<rparr>))"

definition ios_session_cancel_fd :: "session_params option \<Rightarrow> int" where
  "ios_session_cancel_fd session = (case session of None \<Rightarrow> - 1 | Some sp \<Rightarrow> sp_cancel_pipe_read_fd sp)"

section \<open>The table\<close>

definition session_table_init :: "int \<Rightarrow> session_table \<Rightarrow> session_table" where
  "session_table_init key s =
     (if sm_initialized s then s
      else s\<lparr>sm_env := ios_env_manager_init key (sm_env s),
             sm_buckets := replicate SESSION_HASH_TABLE_SIZE [], sm_locks := True,
             sm_total_sessions := 0, sm_total_refs := 0, sm_initialized := True\<rparr>)"

definition ios_session_manager_init :: "int \<Rightarrow> session_table \<Rightarrow> session_table" where
  "ios_session_manager_init key s = (if sm_once s then s else (session_table_init key s)\<lparr>sm_once := True\<rparr>)"

definition session_table_lookup_locked :: "session_id \<Rightarrow> session_table \<Rightarrow> addr option" where
  "session_table_lookup_locked sid s =
     map_option snd (find (\<lambda>e. fst e = sid) (sm_buckets s ! hash_session_id sid))"

definition session_table_insert_locked :: "session_mem \<Rightarrow> session_id \<Rightarrow> session_table \<Rightarrow> addr option \<times> session_table" where
  "session_table_insert_locked mem sid s =
     (if \<not> me_entry mem then (None, s)
      else case me_session mem of
        None \<Rightarrow> (None, s)
      | Some a \<Rightarrow>
          (Some a, s\<lparr>sm_store := (sm_store s)(a \<mapsto> ios_session_init_params mem),
                     sm_buckets := (sm_buckets s)[hash_session_id sid :=
                       (sid, a) # sm_buckets s ! hash_session_id sid],
                     sm_total_sessions := sm_total_sessions s + 1\<rparr>))"

definition add_ref :: "addr \<Rightarrow> session_params \<Rightarrow> session_table \<Rightarrow> session_table" where
  "add_ref a sp s =
     s\<lparr>sm_store := (sm_store s)(a \<mapsto> sp\<lparr>sp_ref_count := sp_ref_count sp + 1\<rparr>), sm_total_refs := sm_total_refs s + 1\<rparr>"

text \<open>A lookup under the lock that takes a reference on the session, unless it is being destroyed.\<close>

definition try_acquire :: "session_id \<Rightarrow> session_table \<Rightarrow> (session_ref option \<times> session_table) option" where
  "try_acquire sid s =
     (if \<not> sm_locks s then None
      else case session_table_lookup_locked sid s of
        None \<Rightarrow> Some (None, s)
      | Some a \<Rightarrow>
          (case sm_store s a of
             None \<Rightarrow> None
           | Some sp \<Rightarrow> if sp_is_destroying sp then Some (None, s) else Some (Some (a, sid), add_ref a sp s)))"

definition create_locked :: "session_mem \<Rightarrow> session_id \<Rightarrow> session_table \<Rightarrow> (session_ref option \<times> session_table) option" where
  "create_locked mem sid s =
     (case session_table_insert_locked mem sid s of
        (None, s1) \<Rightarrow> Some (None, s1)
      | (Some a, s1) \<Rightarrow>
          (case sm_store s1 a of None \<Rightarrow> None | Some sp \<Rightarrow> Some (Some (a, sid), add_ref a sp s1)))"

definition ios_session_get_or_create ::
  "session_mem \<Rightarrow> (session_table \<Rightarrow> session_table) \<Rightarrow> session_id \<Rightarrow> session_table \<Rightarrow> (session_ref option \<times> session_table) option" where
  "ios_session_get_or_create mem between sid s =
     (case try_acquire sid (ios_session_manager_init (me_key mem) s) of
        None \<Rightarrow> None
      | Some (Some r, s1) \<Rightarrow> Some (Some r, s1)
      | Some (None, s1) \<Rightarrow>
          (case try_acquire sid (between s1) of
             None \<Rightarrow> None
           | Some (Some r, s2) \<Rightarrow> Some (Some r, s2)
           | Some (None, s2) \<Rightarrow> create_locked mem sid s2))"

definition ios_session_get :: "int \<Rightarrow> session_id \<Rightarrow> session_table \<Rightarrow> (session_ref option \<times> session_table) option" where
  "ios_session_get key sid s = try_acquire sid (ios_session_manager_init key s)"

text \<open>The first entry that satisfies the condition is unlinked and its session cleaned up and freed.\<close>

definition destroy_first :: "(session_id \<times> addr \<Rightarrow> bool) \<Rightarrow> nat \<Rightarrow> session_table \<Rightarrow> session_table option" where
  "destroy_first P i s =
     (if \<not> sm_locks s then None
      else case find P (sm_buckets s ! i) of
        None \<Rightarrow> Some s
      | Some e \<Rightarrow>
          (case sm_store s (snd e) of
             None \<Rightarrow> None
           | Some sp \<Rightarrow>
               let (_, streams, fds) = ios_session_cleanup_params sp
               in Some (s\<lparr>sm_buckets := (sm_buckets s)[i := remove1 e (sm_buckets s ! i)],
                          sm_store := (sm_store s)(snd e := None),
                          sm_closed_streams := sm_closed_streams s @ streams,
                          sm_closed_fds := sm_closed_fds s @ fds,
                          sm_total_sessions := sm_total_sessions s - 1\<rparr>)))"

definition ios_session_release ::
  "(session_table \<Rightarrow> session_table) \<Rightarrow> (session_table \<Rightarrow> session_table) \<Rightarrow> session_ref option \<Rightarrow> session_table \<Rightarrow> session_table option" where
  "ios_session_release before_load before_lock ref s =
     (case ref of
        None \<Rightarrow> Some s
      | Some (a, sid) \<Rightarrow>
          (case sm_store s a of
             None \<Rightarrow> None
           | Some sp \<Rightarrow>
               let prev_count = sp_ref_count sp;
                   s1 = s\<lparr>sm_store := (sm_store s)(a \<mapsto> sp\<lparr>sp_ref_count := prev_count - 1\<rparr>),
                          sm_total_refs := sm_total_refs s - 1\<rparr>
               in if \<not> prev_count > 0 then None
                  else if prev_count = 1 then
                    let s2 = before_load s1 in
                    (case sm_store s2 a of
                       None \<Rightarrow> None
                     | Some sp2 \<Rightarrow>
                         if sp_is_destroying sp2
                         then destroy_first (\<lambda>e. snd e = a) (hash_session_id sid) (before_lock s2)
                         else Some s2)
                  else Some s1))"

definition ios_session_get_params :: "session_ref option \<Rightarrow> addr option" where
  "ios_session_get_params ref = map_option fst ref"

definition ios_session_delete ::
  "int \<Rightarrow> (session_table \<Rightarrow> session_table) \<Rightarrow> session_id \<Rightarrow> session_table \<Rightarrow> (bool \<times> session_table) option" where
  "ios_session_delete key between sid s0 =
     (let s = ios_session_manager_init key s0 in
      if \<not> sm_locks s then None
      else case session_table_lookup_locked sid s of
        None \<Rightarrow> Some (False, s)
      | Some a \<Rightarrow>
          (case sm_store s a of
             None \<Rightarrow> None
           | Some sp \<Rightarrow>
               let s1 = s\<lparr>sm_store := (sm_store s)(a \<mapsto> sp\<lparr>sp_is_destroying := True\<rparr>)\<rparr> in
               if sp_ref_count sp > 0 then Some (True, s1)
               else map_option (Pair True) (destroy_first (\<lambda>e. fst e = sid) (hash_session_id sid) (between s1))))"

definition ios_session_get_stats :: "session_table \<Rightarrow> int \<times> int" where
  "ios_session_get_stats s = (sm_total_sessions s, sm_total_refs s)"

text \<open>
  The shutdown waits for the references to go, a thousand times at most (\<open>others k\<close> is what the other threads do during the
  k-th sleep), then destroys every session.
\<close>

fun shutdown_wait :: "nat \<Rightarrow> (nat \<Rightarrow> session_table \<Rightarrow> session_table) \<Rightarrow> session_table \<Rightarrow> session_table" where
  "shutdown_wait 0 others s = s"
| "shutdown_wait (Suc n) others s =
     (if sm_total_refs s > 0 then shutdown_wait n others (others n s) else s)"

fun destroy_entries :: "(session_id \<times> addr) list \<Rightarrow> session_table \<Rightarrow> session_table option" where
  "destroy_entries [] s = Some s"
| "destroy_entries (e # es) s =
     (case sm_store s (snd e) of
        None \<Rightarrow> None
      | Some sp \<Rightarrow>
          let (_, streams, fds) = ios_session_cleanup_params sp
          in destroy_entries es (s\<lparr>sm_store := (sm_store s)(snd e := None),
               sm_closed_streams := sm_closed_streams s @ streams, sm_closed_fds := sm_closed_fds s @ fds\<rparr>))"

definition ios_session_manager_shutdown ::
  "(nat \<Rightarrow> session_table \<Rightarrow> session_table) \<Rightarrow> session_table \<Rightarrow> session_table option" where
  "ios_session_manager_shutdown others s =
     (if \<not> sm_initialized s then Some s
      else let s1 = shutdown_wait 1000 others s in
        map_option (\<lambda>s2. s2\<lparr>sm_buckets := replicate SESSION_HASH_TABLE_SIZE [], sm_locks := False,
                           sm_total_sessions := 0, sm_total_refs := 0, sm_initialized := False\<rparr>)
          (destroy_entries (concat (sm_buckets s1)) s1))"


section \<open>The invariant\<close>

definition rc :: "session_table \<Rightarrow> addr \<Rightarrow> int" where
  "rc s a = (case sm_store s a of None \<Rightarrow> 0 | Some sp \<Rightarrow> sp_ref_count sp)"

definition doomed :: "session_table \<Rightarrow> addr \<Rightarrow> bool" where
  "doomed s a \<longleftrightarrow> (case sm_store s a of None \<Rightarrow> False | Some sp \<Rightarrow> sp_is_destroying sp)"

definition entries :: "session_table \<Rightarrow> (session_id \<times> addr) list" where
  "entries s = concat (sm_buckets s)"

text \<open>Of several sessions with one id, all but the first are being destroyed.\<close>

fun newest_first :: "(addr \<Rightarrow> bool) \<Rightarrow> (session_id \<times> addr) list \<Rightarrow> bool" where
  "newest_first D [] \<longleftrightarrow> True"
| "newest_first D (e # es) \<longleftrightarrow> (\<forall>f \<in> set es. fst f = fst e \<longrightarrow> D (snd f)) \<and> newest_first D es"

definition sm_ok :: "session_table \<Rightarrow> bool" where
  "sm_ok s \<longleftrightarrow> length (sm_buckets s) = SESSION_HASH_TABLE_SIZE \<and> sm_once s \<and> sm_initialized s \<and> sm_locks s"

definition sm_inv :: "session_table \<Rightarrow> bool" where
  "sm_inv s \<longleftrightarrow> sm_ok s \<and>
     (\<forall>i < SESSION_HASH_TABLE_SIZE. \<forall>e \<in> set (sm_buckets s ! i). hash_session_id (fst e) = i) \<and>
     (\<forall>i < SESSION_HASH_TABLE_SIZE. newest_first (doomed s) (sm_buckets s ! i)) \<and>
     distinct (map snd (entries s)) \<and> snd ` set (entries s) = dom (sm_store s) \<and>
     sm_total_sessions s = int (length (entries s)) \<and> sm_total_refs s = (\<Sum>a \<in> dom (sm_store s). rc s a) \<and>
     (\<forall>a sp. sm_store s a = Some sp \<longrightarrow> 0 \<le> sp_ref_count sp \<and> (sp_is_destroying sp \<longrightarrow> 0 < sp_ref_count sp))"

lemma hash_lt: "hash_session_id sid < SESSION_HASH_TABLE_SIZE"
proof -
  have "(sid XOR drop_bit 16 sid) AND 255 \<le> (255 :: u64)" by (rule word_and_le1)
  then have "unat ((sid XOR drop_bit 16 sid) AND 255) \<le> unat (255 :: u64)" by (simp add: word_le_nat_alt)
  then show ?thesis by (simp add: hash_session_id_def SESSION_HASH_TABLE_SIZE_def)
qed

lemma concat_at:
  assumes "i < length bs"
  obtains A B where "concat bs = A @ bs ! i @ B" "\<And>xs. concat (bs[i := xs]) = A @ xs @ B"
proof
  show "concat bs = concat (take i bs) @ bs ! i @ concat (drop (Suc i) bs)"
    using assms by (metis concat.simps(2) concat_append id_take_nth_drop)
  show "concat (bs[i := xs]) = concat (take i bs) @ xs @ concat (drop (Suc i) bs)" for xs
    using assms by (simp add: upd_conv_take_nth_drop)
qed

lemma sum_upd:
  assumes "finite A" "a \<in> A"
  shows "(\<Sum>x \<in> A. (f(a := v)) x) = (\<Sum>x \<in> A. f x) - f a + (v :: int)"
proof -
  have "(\<Sum>x \<in> A - {a}. (f(a := v)) x) = (\<Sum>x \<in> A - {a}. f x)" by (rule sum.cong) auto
  with assms show ?thesis by (simp add: sum.remove [of A a])
qed

lemma sm_init_noop: "sm_inv s \<Longrightarrow> ios_session_manager_init key s = s"
  by (simp add: sm_inv_def sm_ok_def ios_session_manager_init_def)

lemma finite_store: "sm_inv s \<Longrightarrow> finite (dom (sm_store s))"
  unfolding sm_inv_def by (metis List.finite_set finite_imageI)

text \<open>A change of one session that leaves the entries alone.\<close>

lemma sm_inv_upd:
  assumes "sm_inv s" "sm_store s a = Some sp" "0 \<le> sp_ref_count sp'" "sp_is_destroying sp' \<longrightarrow> 0 < sp_ref_count sp'"
    and "sp_is_destroying sp \<longrightarrow> sp_is_destroying sp'"
    and "s' = s\<lparr>sm_store := (sm_store s)(a \<mapsto> sp'), sm_total_refs := sm_total_refs s - sp_ref_count sp + sp_ref_count sp'\<rparr>"
  shows "sm_inv s'" "rc s' = (rc s)(a := sp_ref_count sp')"
proof -
  show rc: "rc s' = (rc s)(a := sp_ref_count sp')" by (rule ext) (simp add: assms(6) rc_def)
  have D: "newest_first (doomed s) es \<Longrightarrow> newest_first (doomed s') es" for es
    using assms(2,5,6) by (induction es) (auto simp: doomed_def)
  have "rc s a = sp_ref_count sp" using assms(2) by (simp add: rc_def)
  then have "(\<Sum>x \<in> dom (sm_store s). rc s' x) = (\<Sum>x \<in> dom (sm_store s). rc s x) - sp_ref_count sp + sp_ref_count sp'"
    unfolding rc using finite_store [OF assms(1)] assms(2) by (subst sum_upd) auto
  moreover have "dom (sm_store s') = dom (sm_store s)" using assms(2,6) by auto
  moreover have f: "sm_buckets s' = sm_buckets s" "sm_once s' = sm_once s" "sm_initialized s' = sm_initialized s" "sm_locks s' = sm_locks s"
    "sm_total_sessions s' = sm_total_sessions s" "sm_total_refs s' = sm_total_refs s - sp_ref_count sp + sp_ref_count sp'"
    by (simp_all add: assms(6))
  moreover have "entries s' = entries s" by (simp add: entries_def f(1))
  moreover have "\<forall>b sp. sm_store s' b = Some sp \<longrightarrow> 0 \<le> sp_ref_count sp \<and> (sp_is_destroying sp \<longrightarrow> 0 < sp_ref_count sp)"
    using assms(1,3,4,6) by (auto simp: sm_inv_def)
  ultimately show "sm_inv s'" using assms(1) D unfolding sm_inv_def sm_ok_def by auto
qed

lemma init_params_simps [simp]:
  "sp_ref_count (ios_session_init_params mem) = 0" "\<not> sp_is_destroying (ios_session_init_params mem)"
  by (simp_all add: ios_session_init_params_def)

lemma bucket_entries:
  "sm_inv s \<Longrightarrow> e \<in> set (sm_buckets s ! hash_session_id sid) \<Longrightarrow> e \<in> set (entries s)"
  using hash_lt [of sid] nth_mem [of "hash_session_id sid" "sm_buckets s"]
  by (auto simp: sm_inv_def sm_ok_def entries_def)

lemma entry_live: "sm_inv s \<Longrightarrow> (sid, a) \<in> set (entries s) \<Longrightarrow> \<exists>sp. sm_store s a = Some sp"
  unfolding sm_inv_def by (metis (no_types, lifting) domD image_eqI snd_conv)

lemma entry_in_bucket:
  assumes "sm_inv s" "(sid, a) \<in> set (entries s)"
  shows "(sid, a) \<in> set (sm_buckets s ! hash_session_id sid)"
proof -
  obtain b where "b \<in> set (sm_buckets s)" "(sid, a) \<in> set b" using assms(2) by (auto simp: entries_def)
  then obtain i where "i < length (sm_buckets s)" "(sid, a) \<in> set (sm_buckets s ! i)" by (metis in_set_conv_nth)
  moreover from this assms(1) have "hash_session_id sid = i" unfolding sm_inv_def sm_ok_def by fastforce
  ultimately show ?thesis by simp
qed

lemma lookup_entry:
  assumes "sm_inv s" "session_table_lookup_locked sid s = Some a"
  shows "(sid, a) \<in> set (entries s)" "\<exists>sp. sm_store s a = Some sp"
    "find (\<lambda>e. fst e = sid) (sm_buckets s ! hash_session_id sid) = Some (sid, a)"
proof -
  obtain e where e: "find (\<lambda>e. fst e = sid) (sm_buckets s ! hash_session_id sid) = Some e" "a = snd e"
    using assms(2) by (auto simp: session_table_lookup_locked_def)
  then have "e \<in> set (sm_buckets s ! hash_session_id sid)" "fst e = sid" by (auto simp: find_Some_iff)
  with e have "e = (sid, a)" "e \<in> set (entries s)" using bucket_entries [OF assms(1)] by auto
  with e(1) entry_live [OF assms(1)] show "(sid, a) \<in> set (entries s)" "\<exists>sp. sm_store s a = Some sp"
    "find (\<lambda>e. fst e = sid) (sm_buckets s ! hash_session_id sid) = Some (sid, a)" by auto
qed

lemma newest_first_find:
  "newest_first D es \<Longrightarrow> f \<in> set es \<Longrightarrow> fst f = sid \<Longrightarrow>
   \<exists>e. find (\<lambda>e. fst e = sid) es = Some e \<and> (f = e \<or> D (snd f))"
  by (induction es) auto

definition new_session :: "addr \<Rightarrow> session_mem \<Rightarrow> session_id \<Rightarrow> session_table \<Rightarrow> session_table" where
  "new_session a mem sid s = s\<lparr>sm_store := (sm_store s)(a \<mapsto> ios_session_init_params mem),
     sm_buckets := (sm_buckets s)[hash_session_id sid := (sid, a) # sm_buckets s ! hash_session_id sid],
     sm_total_sessions := sm_total_sessions s + 1\<rparr>"

lemma new_session_inv:
  assumes "sm_inv s" "sm_store s a = None" "\<forall>b. session_table_lookup_locked sid s = Some b \<longrightarrow> doomed s b"
  shows "sm_inv (new_session a mem sid s)" "rc (new_session a mem sid s) = rc s"
    "set (entries (new_session a mem sid s)) = insert (sid, a) (set (entries s))"
proof -
  let ?h = "hash_session_id sid" let ?s = "new_session a mem sid s"
  obtain A B where ab: "entries s = A @ sm_buckets s ! ?h @ B" "\<And>xs. concat ((sm_buckets s)[?h := xs]) = A @ xs @ B"
    using concat_at [of ?h "sm_buckets s"] hash_lt [of sid] assms(1) by (auto simp: sm_inv_def sm_ok_def entries_def)
  have ent: "entries ?s = A @ (sid, a) # sm_buckets s ! ?h @ B" by (simp add: new_session_def entries_def ab(2))
  show se: "set (entries ?s) = insert (sid, a) (set (entries s))" unfolding ent ab(1) by auto
  show rc: "rc ?s = rc s" using assms(2) by (intro ext) (simp add: rc_def new_session_def)
  have dm: "doomed ?s = doomed s" using assms(2) by (intro ext) (simp add: doomed_def new_session_def)
  have a: "a \<notin> snd ` set (entries s)" using assms(1,2) by (auto simp: sm_inv_def)
  have nf: "newest_first (doomed s) (sm_buckets s ! ?h)" using assms(1) hash_lt by (simp add: sm_inv_def)
  then have others: "\<forall>f \<in> set (sm_buckets s ! ?h). fst f = sid \<longrightarrow> doomed s (snd f)"
    using newest_first_find [OF nf] assms(3) by (fastforce simp: session_table_lookup_locked_def)
  have dom: "dom (sm_store ?s) = insert a (dom (sm_store s))" by (simp add: new_session_def)
  have "(\<Sum>x \<in> dom (sm_store ?s). rc ?s x) = (\<Sum>x \<in> dom (sm_store s). rc s x)"
    unfolding dom rc using finite_store [OF assms(1)] assms(2) by (simp add: domIff rc_def)
  moreover have "distinct (map snd (entries ?s))"
  proof -
    have "distinct (map snd (A @ sm_buckets s ! ?h @ B))" using assms(1) ab(1) by (simp add: sm_inv_def)
    with a show ?thesis unfolding ent ab(1) by auto
  qed
  moreover have "length (entries ?s) = Suc (length (entries s))" unfolding ent ab(1) by simp
  moreover have "snd ` set (entries ?s) = dom (sm_store ?s)" unfolding se dom using assms(1) by (simp add: sm_inv_def)
  moreover have "\<forall>i < SESSION_HASH_TABLE_SIZE. newest_first (doomed ?s) (sm_buckets ?s ! i)"
    using assms(1) others nf hash_lt [of sid] unfolding dm by (auto simp: sm_inv_def sm_ok_def new_session_def nth_list_update)
  moreover have "\<forall>i < SESSION_HASH_TABLE_SIZE. \<forall>e \<in> set (sm_buckets ?s ! i). hash_session_id (fst e) = i"
    using assms(1) hash_lt [of sid] by (auto simp: sm_inv_def sm_ok_def new_session_def nth_list_update)
  ultimately show "sm_inv ?s" using assms(1) unfolding sm_inv_def sm_ok_def by (simp add: new_session_def)
qed

lemma newest_first_remove1: "newest_first D es \<Longrightarrow> newest_first D (remove1 e es)"
  by (induction es) (auto dest: set_remove1_subset [THEN subsetD])

text \<open>
  The removal of a session: the state the removal starts from differs from one that satisfies the invariant in the
  parameters of the session and the references to it.
\<close>

lemma destroy_first_inv:
  assumes "sm_inv s" "sm_store s a = Some sp" "find P (sm_buckets s ! hash_session_id sid) = Some (sid, a)"
    and s1: "s1 = s\<lparr>sm_store := (sm_store s)(a \<mapsto> sp'), sm_total_refs := sm_total_refs s - sp_ref_count sp\<rparr>"
  obtains s' where "destroy_first P (hash_session_id sid) s1 = Some s'" "sm_inv s'" "rc s' = (rc s)(a := 0)"
    "sm_store s' = (sm_store s)(a := None)" "set (entries s') = set (entries s) - {(sid, a)}"
proof -
  let ?h = "hash_session_id sid" let ?b = "sm_buckets s ! ?h"
  obtain A B where ab: "entries s = A @ ?b @ B" "\<And>xs. concat ((sm_buckets s)[?h := xs]) = A @ xs @ B"
    using concat_at [of ?h "sm_buckets s"] hash_lt [of sid] assms(1) by (auto simp: sm_inv_def sm_ok_def entries_def)
  have e: "(sid, a) \<in> set ?b" using assms(3) by (auto simp: find_Some_iff in_set_conv_nth)
  obtain fs ds where cl: "snd (ios_session_cleanup_params sp') = (fs, ds)" by fastforce
  define s' where "s' = s1\<lparr>sm_buckets := (sm_buckets s)[?h := remove1 (sid, a) ?b], sm_store := (sm_store s)(a := None),
    sm_closed_streams := sm_closed_streams s1 @ fs, sm_closed_fds := sm_closed_fds s1 @ ds,
    sm_total_sessions := sm_total_sessions s - 1\<rparr>"
  have d: "destroy_first P ?h s1 = Some s'"
    using assms(1,3) cl by (auto simp: destroy_first_def s1 s'_def sm_inv_def sm_ok_def Let_def split: prod.splits)
  have st: "sm_store s' = (sm_store s)(a := None)" by (simp add: s'_def)
  have ent: "entries s' = A @ remove1 (sid, a) ?b @ B" by (simp add: s'_def entries_def ab(2))
  have "distinct (map snd (A @ ?b @ B))" using assms(1) ab(1) by (simp add: sm_inv_def)
  then have dist: "distinct (A @ ?b @ B)" and inj: "inj_on snd (set (A @ ?b @ B))" unfolding distinct_map by blast+
  have "(sid, a) \<in> set (A @ ?b @ B)" using e by simp
  then have snds: "a \<notin> snd ` (set (A @ ?b @ B) - {(sid, a)})" using inj
    by (metis Diff_iff Diff_subset inj_on_image_mem_iff singletonI snd_conv)
  have se: "set (entries s') = set (entries s) - {(sid, a)}"
    using dist e unfolding ent ab(1) by (auto simp: set_remove1_eq)
  have rc: "rc s' = (rc s)(a := 0)" by (intro ext) (simp add: rc_def st)
  have dm: "newest_first (doomed s) es \<Longrightarrow> (\<forall>f \<in> set es. snd f \<noteq> a) \<Longrightarrow> newest_first (doomed s') es" for es
    by (induction es) (auto simp: doomed_def st)
  have dom: "dom (sm_store s') = dom (sm_store s) - {a}" by (simp add: st)
  have rs: "rc s a = sp_ref_count sp" using assms(2) by (simp add: rc_def)
  have "(\<Sum>x \<in> dom (sm_store s'). rc s' x) = (\<Sum>x \<in> dom (sm_store s) - {a}. rc s x)"
    unfolding dom rc by (rule sum.cong) auto
  also have "\<dots> = (\<Sum>x \<in> dom (sm_store s). rc s x) - sp_ref_count sp"
    using finite_store [OF assms(1)] assms(2) rs by (simp add: sum.remove [of _ a] domI)
  finally have sum: "(\<Sum>x \<in> dom (sm_store s'). rc s' x) = (\<Sum>x \<in> dom (sm_store s). rc s x) - sp_ref_count sp" .
  have dist': "distinct (map snd (entries s'))"
    unfolding distinct_map
  proof
    show "distinct (entries s')" using dist unfolding ent by (auto simp: distinct_remove1 dest: set_remove1_subset [THEN subsetD])
    show "inj_on snd (set (entries s'))" using inj_on_subset [OF inj] se unfolding ab(1) by blast
  qed
  have len: "int (length (entries s')) = int (length (entries s)) - 1"
    using e length_pos_if_in_set [OF e] unfolding ent ab(1) length_append length_remove1 by (simp only: if_True)
  have snd': "snd ` set (entries s') = dom (sm_store s')"
  proof -
    have "snd ` set (entries s') = snd ` set (entries s) - {a}" using snds e unfolding se ab(1) by force
    with assms(1) show ?thesis unfolding dom sm_inv_def by simp
  qed
  have bs: "sm_buckets s' ! i = (if i = ?h then remove1 (sid, a) ?b else sm_buckets s ! i)" if "i < SESSION_HASH_TABLE_SIZE" for i
    using that assms(1) by (simp add: s'_def sm_inv_def sm_ok_def nth_list_update)
  have len': "length (sm_buckets s') = SESSION_HASH_TABLE_SIZE" using assms(1) by (simp add: s'_def sm_inv_def sm_ok_def)
  have ne: "\<forall>f \<in> set (sm_buckets s' ! i). snd f \<noteq> a" if "i < SESSION_HASH_TABLE_SIZE" for i
  proof
    fix f assume "f \<in> set (sm_buckets s' ! i)"
    then have "f \<in> set (entries s')" using that len' nth_mem [of i "sm_buckets s'"] by (auto simp: entries_def)
    with se show "snd f \<noteq> a" using snds unfolding ab(1) by blast
  qed
  have "newest_first (doomed s') (sm_buckets s' ! i)" if i: "i < SESSION_HASH_TABLE_SIZE" for i
    using assms(1) i dm [OF _ ne [OF i]] newest_first_remove1 by (auto simp: bs sm_inv_def)
  moreover have "\<forall>e \<in> set (sm_buckets s' ! i). hash_session_id (fst e) = i" if "i < SESSION_HASH_TABLE_SIZE" for i
    using assms(1) that set_remove1_subset [of "(sid, a)" ?b] by (auto simp: bs sm_inv_def)
  moreover have "\<forall>b sp. sm_store s' b = Some sp \<longrightarrow> 0 \<le> sp_ref_count sp \<and> (sp_is_destroying sp \<longrightarrow> 0 < sp_ref_count sp)"
    using assms(1) by (auto simp: st sm_inv_def)
  moreover have "sm_total_sessions s' = int (length (entries s'))" "sm_total_refs s' = (\<Sum>x \<in> dom (sm_store s'). rc s' x)" "sm_ok s'"
    using assms(1) len sum by (auto simp: s'_def s1 sm_inv_def sm_ok_def)
  ultimately have "sm_inv s'" using dist' snd' by (simp add: sm_inv_def)
  with d rc st se show thesis using that by blast
qed


section \<open>The operations\<close>

text \<open>What a lookup under the lock does.\<close>

lemma try_acquire_cases:
  assumes "sm_inv s"
  obtains (Found) a sp where "session_table_lookup_locked sid s = Some a" "sm_store s a = Some sp" "\<not> doomed s a"
      "(sid, a) \<in> set (entries s)" "try_acquire sid s = Some (Some (a, sid), add_ref a sp s)"
  | (Absent) "try_acquire sid s = Some (None, s)" "\<forall>b. session_table_lookup_locked sid s = Some b \<longrightarrow> doomed s b"
proof (cases "session_table_lookup_locked sid s")
  case None
  then show thesis using Absent assms by (simp add: try_acquire_def sm_inv_def sm_ok_def)
next
  case (Some a)
  from lookup_entry [OF assms this] obtain sp where e: "(sid, a) \<in> set (entries s)" "sm_store s a = Some sp" by blast
  have l: "sm_locks s" using assms by (simp add: sm_inv_def sm_ok_def)
  show thesis
  proof (cases "sp_is_destroying sp")
    case True
    then show thesis using Absent Some e l by (simp add: try_acquire_def doomed_def)
  next
    case False
    then show thesis using Found [OF Some e(2) _ e(1)] Some e l by (simp add: try_acquire_def doomed_def)
  qed
qed

lemma add_ref_inv:
  assumes "sm_inv s" "sm_store s a = Some sp"
  shows "sm_inv (add_ref a sp s)" "rc (add_ref a sp s) = (rc s)(a := rc s a + 1)" "entries (add_ref a sp s) = entries s"
    "doomed (add_ref a sp s) = doomed s"
proof -
  have "0 \<le> sp_ref_count sp" "sp_is_destroying sp \<longrightarrow> 0 < sp_ref_count sp" "rc s a = sp_ref_count sp"
    using assms by (auto simp: sm_inv_def rc_def)
  with sm_inv_upd [OF assms, of "sp\<lparr>sp_ref_count := sp_ref_count sp + 1\<rparr>" "add_ref a sp s"]
  show "sm_inv (add_ref a sp s)" "rc (add_ref a sp s) = (rc s)(a := rc s a + 1)" by (simp_all add: add_ref_def)
  show "entries (add_ref a sp s) = entries s" by (simp add: add_ref_def entries_def)
  show "doomed (add_ref a sp s) = doomed s" using assms(2) by (intro ext) (simp add: add_ref_def doomed_def)
qed

lemma add_ref_lookup [simp]: "session_table_lookup_locked t (add_ref a sp s) = session_table_lookup_locked t s"
  by (simp add: session_table_lookup_locked_def add_ref_def)

definition fresh :: "session_mem \<Rightarrow> session_table \<Rightarrow> bool" where
  "fresh mem s \<longleftrightarrow> (\<forall>a. me_session mem = Some a \<longrightarrow> sm_store s a = None)"

text \<open>Getting a session: the active one of the id, or a new one.\<close>

lemma get_or_create_cases:
  assumes "sm_inv s" "fresh mem s"
  obtains (Found) a sp where "session_table_lookup_locked sid s = Some a" "sm_store s a = Some sp" "\<not> doomed s a"
      "(sid, a) \<in> set (entries s)"
      "ios_session_get_or_create mem (\<lambda>s. s) sid s = Some (Some (a, sid), add_ref a sp s)"
  | (New) a where "me_session mem = Some a" "me_entry mem" "sm_store s a = None"
      "\<forall>b. session_table_lookup_locked sid s = Some b \<longrightarrow> doomed s b"
      "ios_session_get_or_create mem (\<lambda>s. s) sid s =
        Some (Some (a, sid), add_ref a (ios_session_init_params mem) (new_session a mem sid s))"
  | (Failed) "ios_session_get_or_create mem (\<lambda>s. s) sid s = Some (None, s)" "\<not> me_entry mem \<or> me_session mem = None"
proof (cases rule: try_acquire_cases [OF assms(1), of sid])
  case (1 a sp)
  then show thesis using Found assms(1) by (simp add: ios_session_get_or_create_def sm_init_noop)
next
  case 2
  have g: "ios_session_get_or_create mem (\<lambda>s. s) sid s = create_locked mem sid s"
    using 2 assms(1) by (simp add: ios_session_get_or_create_def sm_init_noop)
  show thesis
  proof (cases "me_entry mem \<and> me_session mem \<noteq> None")
    case True
    then obtain a where a: "me_session mem = Some a" by blast
    with True assms(2) show thesis using New [of a] 2 g
      by (simp add: create_locked_def session_table_insert_locked_def fresh_def new_session_def)
  next
    case False
    then show thesis using Failed g by (auto simp: create_locked_def session_table_insert_locked_def)
  qed
qed


text \<open>Releasing a counted reference: the count drops, and a session being destroyed is freed with its last one.\<close>

lemma release_cases:
  assumes "sm_inv s" "(sid, a) \<in> set (entries s)" "0 < rc s a"
  obtains (Kept) s' sp where "ios_session_release (\<lambda>s. s) (\<lambda>s. s) (Some (a, sid)) s = Some s'" "sm_inv s'"
      "rc s' = (rc s)(a := rc s a - 1)" "entries s' = entries s" "\<not> (rc s a = 1 \<and> doomed s a)"
      "sm_store s a = Some sp" "sm_store s' = (sm_store s)(a \<mapsto> sp\<lparr>sp_ref_count := sp_ref_count sp - 1\<rparr>)"
  | (Freed) s' where "ios_session_release (\<lambda>s. s) (\<lambda>s. s) (Some (a, sid)) s = Some s'" "sm_inv s'"
      "rc s' = (rc s)(a := 0)" "set (entries s') = set (entries s) - {(sid, a)}" "rc s a = 1" "doomed s a"
      "sm_store s' = (sm_store s)(a := None)"
proof -
  obtain sp where sp: "sm_store s a = Some sp" using entry_live [OF assms(1,2)] by blast
  then have r: "rc s a = sp_ref_count sp" "doomed s a \<longleftrightarrow> sp_is_destroying sp" by (simp_all add: rc_def doomed_def)
  define s1 where "s1 = s\<lparr>sm_store := (sm_store s)(a \<mapsto> sp\<lparr>sp_ref_count := sp_ref_count sp - 1\<rparr>), sm_total_refs := sm_total_refs s - 1\<rparr>"
  show thesis
  proof (cases "rc s a = 1 \<and> doomed s a")
    case True
    have b: "(sid, a) \<in> set (sm_buckets s ! hash_session_id sid)" by (rule entry_in_bucket [OF assms(1,2)])
    have "distinct (map snd (entries s))" using assms(1) by (simp add: sm_inv_def)
    then have inj: "inj_on snd (set (entries s))" by (simp add: distinct_map)
    have "find (\<lambda>e. snd e = a) (sm_buckets s ! hash_session_id sid) = Some (sid, a)"
    proof (cases "find (\<lambda>e. snd e = a) (sm_buckets s ! hash_session_id sid)")
      case None
      with b show ?thesis by (auto simp: find_None_iff)
    next
      case (Some e)
      then have "e \<in> set (sm_buckets s ! hash_session_id sid)" "snd e = a" by (auto simp: find_Some_iff)
      with bucket_entries [OF assms(1)] inj assms(2) have "e = (sid, a)" by (metis inj_onD snd_conv)
      with Some show ?thesis by simp
    qed
    from destroy_first_inv [OF assms(1) sp this, of s1 "sp\<lparr>sp_ref_count := sp_ref_count sp - 1\<rparr>"] True r
    obtain s' where "destroy_first (\<lambda>e. snd e = a) (hash_session_id sid) s1 = Some s'" "sm_inv s'" "rc s' = (rc s)(a := 0)"
      "sm_store s' = (sm_store s)(a := None)" "set (entries s') = set (entries s) - {(sid, a)}" by (auto simp: s1_def)
    then show thesis using Freed True sp r by (simp add: ios_session_release_def Let_def s1_def)
  next
    case False
    have "sm_inv s1" "rc s1 = (rc s)(a := rc s a - 1)"
      using sm_inv_upd [OF assms(1) sp, of "sp\<lparr>sp_ref_count := sp_ref_count sp - 1\<rparr>" s1] assms(3) r False by (auto simp: s1_def)
    moreover have "ios_session_release (\<lambda>s. s) (\<lambda>s. s) (Some (a, sid)) s = Some s1"
      using assms(3) sp r False by (auto simp: ios_session_release_def Let_def s1_def)
    ultimately show thesis using Kept [of s1 sp] False sp by (simp add: s1_def entries_def)
  qed
qed

text \<open>Deleting: nothing for an unknown id, a mark on a session in use, removal of one that is not.\<close>

lemma delete_cases:
  assumes "sm_inv s"
  obtains (Unknown) "session_table_lookup_locked sid s = None" "ios_session_delete key (\<lambda>s. s) sid s = Some (False, s)"
  | (Marked) a s' where "session_table_lookup_locked sid s = Some a" "0 < rc s a"
      "ios_session_delete key (\<lambda>s. s) sid s = Some (True, s')"
      "sm_inv s'" "rc s' = rc s" "entries s' = entries s" "doomed s' = (doomed s)(a := True)"
      "session_table_lookup_locked sid s' = Some a"
  | (Removed) a s' where "session_table_lookup_locked sid s = Some a" "rc s a = 0"
      "ios_session_delete key (\<lambda>s. s) sid s = Some (True, s')"
      "sm_inv s'" "rc s' = rc s" "set (entries s') = set (entries s) - {(sid, a)}" "sm_store s' = (sm_store s)(a := None)"
proof (cases "session_table_lookup_locked sid s")
  case None
  then show thesis using Unknown assms by (simp add: ios_session_delete_def sm_init_noop sm_inv_def sm_ok_def Let_def)
next
  case (Some a)
  from lookup_entry [OF assms this] obtain sp where
    e: "sm_store s a = Some sp" "find (\<lambda>e. fst e = sid) (sm_buckets s ! hash_session_id sid) = Some (sid, a)" by blast
  then have r: "rc s a = sp_ref_count sp" "0 \<le> sp_ref_count sp" "sm_locks s"
    using assms by (auto simp: rc_def sm_inv_def sm_ok_def)
  define s1 where "s1 = s\<lparr>sm_store := (sm_store s)(a \<mapsto> sp\<lparr>sp_is_destroying := True\<rparr>)\<rparr>"
  have init: "ios_session_manager_init key s = s" by (rule sm_init_noop [OF assms])
  show thesis
  proof (cases "0 < sp_ref_count sp")
    case True
    have "sm_inv s1" "rc s1 = (rc s)(a := sp_ref_count sp)"
      using sm_inv_upd [OF assms e(1), of "sp\<lparr>sp_is_destroying := True\<rparr>" s1] True by (auto simp: s1_def)
    then have "rc s1 = rc s" using r(1) by (simp add: fun_upd_idem)
    moreover have "doomed s1 = (doomed s)(a := True)" by (intro ext) (simp add: doomed_def s1_def)
    ultimately show thesis using Marked [of a s1] \<open>sm_inv s1\<close> Some True r e init
      by (simp add: ios_session_delete_def Let_def s1_def session_table_lookup_locked_def entries_def)
  next
    case False
    then have z: "sp_ref_count sp = 0" using r by simp
    then have "s1 = s\<lparr>sm_store := (sm_store s)(a \<mapsto> sp\<lparr>sp_is_destroying := True\<rparr>), sm_total_refs := sm_total_refs s - sp_ref_count sp\<rparr>"
      by (simp add: s1_def)
    from destroy_first_inv [OF assms e this] obtain s' where
      "destroy_first (\<lambda>e. fst e = sid) (hash_session_id sid) s1 = Some s'" "sm_inv s'" "rc s' = (rc s)(a := 0)"
      "sm_store s' = (sm_store s)(a := None)" "set (entries s') = set (entries s) - {(sid, a)}" by metis
    moreover from this(3) have "rc s' = rc s" using r(1) z by (simp add: fun_upd_idem)
    ultimately show thesis using Removed [of a s'] Some False r e z init
      by (simp add: ios_session_delete_def Let_def s1_def)
  qed
qed


section \<open>Histories\<close>

definition session_refs :: "session_table \<Rightarrow> session_ref \<Rightarrow> nat" where
  "session_refs s r = (if (snd r, fst r) \<in> set (entries s) then nat (rc s (fst r)) else 0)"

definition live_sessions :: "session_table \<Rightarrow> session_ref set" where
  "live_sessions s = {r. (snd r, fst r) \<in> set (entries s) \<and> sm_store s (fst r) \<noteq> None}"

definition acquires :: "session_table \<Rightarrow> session_ref \<Rightarrow> session_table \<Rightarrow> bool" where
  "acquires s r s' \<longleftrightarrow>
     (\<exists>mem sid. fresh mem s \<and> ios_session_get_or_create mem (\<lambda>s. s) sid s = Some (Some r, s')) \<or>
     (\<exists>key sid. ios_session_get key sid s = Some (Some r, s'))"

definition releases :: "session_table \<Rightarrow> session_ref \<Rightarrow> session_table \<Rightarrow> bool" where
  "releases s r s' \<longleftrightarrow> ios_session_release (\<lambda>s. s) (\<lambda>s. s) (Some r) s = Some s'"

definition deletes :: "session_table \<Rightarrow> session_table \<Rightarrow> bool" where
  "deletes s s' \<longleftrightarrow> (\<exists>key sid b. ios_session_delete key (\<lambda>s. s) sid s = Some (b, s'))"

lemma acquiresE:
  assumes "sm_inv s" "acquires s r s'"
  shows "sm_inv s' \<and> rc s' = (rc s)(fst r := rc s (fst r) + 1) \<and>
    set (entries s') = insert (snd r, fst r) (set (entries s)) \<and>
    ((snd r, fst r) \<in> set (entries s) \<or> sm_store s (fst r) = None)"
proof -
  have found: ?thesis if "sm_store s a = Some sp" "(sid, a) \<in> set (entries s)" "(Some (a, sid), add_ref a sp s) = (Some r, s')" for a sp sid
    using that add_ref_inv [OF assms(1) that(1)] by (auto simp: insert_absorb)
  from assms(2) consider mem sid where "fresh mem s" "ios_session_get_or_create mem (\<lambda>s. s) sid s = Some (Some r, s')"
    | key sid where "ios_session_get key sid s = Some (Some r, s')" by (auto simp: acquires_def)
  then show ?thesis
  proof cases
    case (1 mem sid)
    show ?thesis
    proof (cases rule: get_or_create_cases [OF assms(1) 1(1), of sid])
      case (2 a)
      note n = new_session_inv [OF assms(1) 2(3,4), of mem]
      have "sm_store (new_session a mem sid s) a = Some (ios_session_init_params mem)" by (simp add: new_session_def)
      from add_ref_inv [OF n(1) this] 1(2) 2 n show ?thesis by auto
    qed (use 1 found in auto)
  next
    case (2 key sid)
    then show ?thesis
      using found by (cases rule: try_acquire_cases [OF assms(1), of sid]) (auto simp: ios_session_get_def sm_init_noop [OF assms(1)])
  qed
qed

lemma unique_id: "sm_inv s \<Longrightarrow> (x, a) \<in> set (entries s) \<Longrightarrow> (y, a) \<in> set (entries s) \<Longrightarrow> x = y"
proof -
  assume "sm_inv s" and xy: "(x, a) \<in> set (entries s)" "(y, a) \<in> set (entries s)"
  then have "inj_on snd (set (entries s))" by (simp add: sm_inv_def distinct_map)
  with xy show "x = y" by (metis inj_onD prod.inject snd_conv)
qed

lemma rc_nonneg: "sm_inv s \<Longrightarrow> 0 \<le> rc s a"
  by (auto simp: sm_inv_def rc_def split: option.split)

lemma refs_upd:
  assumes "sm_inv s" "(sid, a) \<in> set (entries s)" "rc s' = (rc s)(a := v)"
    and "set (entries s') = set (entries s) \<or> set (entries s') = set (entries s) - {(sid, a)} \<and> v = 0"
  shows "session_refs s' = (session_refs s)((a, sid) := nat v)"
proof (rule ext)
  fix x :: session_ref
  obtain b t where x: "x = (b, t)" by (cases x)
  show "session_refs s' x = ((session_refs s)((a, sid) := nat v)) x"
  proof (cases "b = a")
    case True
    have "(t, a) \<notin> set (entries s)" if "t \<noteq> sid" using unique_id [OF assms(1,2)] that by blast
    with True assms(2-4) show ?thesis by (cases "t = sid") (auto simp: x session_refs_def)
  qed (use assms(3,4) in \<open>auto simp: x session_refs_def\<close>)
qed

interpretation sessions: ref_pool sm_inv session_refs live_sessions acquires releases deletes
proof
  fix s r s' assume inv: "sm_inv s" and "acquires s r s'"
  note A = acquiresE [OF this]
  have "session_refs s' x = ((session_refs s)(r := session_refs s r + 1)) x" for x
  proof (cases "x = r")
    case True
    have "rc s (fst r) = 0" if "sm_store s (fst r) = None" using that by (simp add: rc_def)
    with True A rc_nonneg [OF inv, of "fst r"] show ?thesis by (auto simp: session_refs_def nat_add_distrib)
  next
    case False
    then have "(snd x, fst x) \<noteq> (snd r, fst r)" by (simp add: prod_eq_iff conj_commute)
    moreover have "(snd x, fst r) \<notin> set (entries s')" if "fst x = fst r" "x \<noteq> r"
      using unique_id [OF conjunct1 [OF A], of "snd x" "fst r" "snd r"] A that by (auto simp: prod_eq_iff)
    ultimately show ?thesis using False A by (cases "fst x = fst r") (auto simp: session_refs_def)
  qed
  with A show "sm_inv s' \<and> session_refs s' = (session_refs s)(r := session_refs s r + 1)" by auto
next
  fix s r s' assume inv: "sm_inv s" and c: "0 < session_refs s r" and rel: "releases s r s'"
  obtain a sid where r: "r = (a, sid)" by (cases r)
  have m: "(sid, a) \<in> set (entries s)" "0 < rc s a" using c r by (auto simp: session_refs_def split: if_splits)
  show "sm_inv s' \<and> session_refs s' = (session_refs s)(r := session_refs s r - 1)"
  proof (cases rule: release_cases [OF inv m])
    case (1 t sp)
    with refs_upd [OF inv m(1), of t "rc s a - 1"] rel m r show ?thesis by (simp add: releases_def session_refs_def nat_diff_distrib)
  next
    case (2 t)
    with refs_upd [OF inv m(1), of t 0] rel m r show ?thesis by (simp add: releases_def session_refs_def)
  qed
next
  fix s s' assume inv: "sm_inv s" and "deletes s s'"
  then obtain key sid b where d: "ios_session_delete key (\<lambda>s. s) sid s = Some (b, s')" by (auto simp: deletes_def)
  show "sm_inv s' \<and> session_refs s' = session_refs s"
    by (cases rule: delete_cases [OF inv, of sid key]) (use d inv in \<open>auto simp: session_refs_def fun_eq_iff\<close>)
next
  fix s r assume "sm_inv s" and "0 < session_refs s r"
  then show "r \<in> live_sessions s" using entry_live [of s "snd r" "fst r"]
    by (auto simp: session_refs_def live_sessions_def split: if_splits)
qed


lemma total_refs_change:
  assumes "sm_inv s" "sm_inv s'" "rc s' = (rc s)(a := v)"
  shows "sm_total_refs s' = sm_total_refs s - rc s a + v"
proof -
  let ?X = "insert a (dom (sm_store s) \<union> dom (sm_store s'))"
  have fin: "finite ?X" using finite_store assms(1,2) by simp
  have tot: "sm_total_refs t = (\<Sum>x \<in> ?X. rc t x)" if "sm_inv t" "dom (sm_store t) \<subseteq> ?X" for t
  proof -
    have "sm_total_refs t = (\<Sum>x \<in> dom (sm_store t). rc t x)" using that(1) by (simp add: sm_inv_def)
    also have "\<dots> = (\<Sum>x \<in> ?X. rc t x)"
      using fin that(2) by (intro sum.mono_neutral_left) (auto simp: rc_def domIff)
    finally show ?thesis .
  qed
  have "sm_total_refs s' = (\<Sum>x \<in> ?X. ((rc s)(a := v)) x)" using tot [OF assms(2)] assms(3) by auto
  also have "\<dots> = (\<Sum>x \<in> ?X. rc s x) - rc s a + v" by (rule sum_upd [OF fin]) simp
  also have "(\<Sum>x \<in> ?X. rc s x) = sm_total_refs s" by (rule tot [OF assms(1), symmetric]) blast
  finally show ?thesis .
qed

lemma run_total_refs:
  assumes "ref_run acquires releases deletes s s' held" "sm_inv s" "entries s = []"
  shows "sm_total_refs s' = int (length held)"
proof -
  have zero: "\<forall>r. session_refs s r = 0" using assms(3) by (simp add: session_refs_def)
  have start: "sm_total_refs s = 0" using assms(2,3) by (simp add: sm_inv_def)
  show ?thesis
    using assms(1)
  proof (induction rule: ref_run.induct)
    case ref_start
    then show ?case using start by simp
  next
    case (ref_acquire t held r t')
    have inv: "sm_inv t" using sessions.run_counts [OF ref_acquire(1) assms(2) zero] by simp
    from acquiresE [OF inv ref_acquire(2)] total_refs_change [OF inv, of t' "fst r"] ref_acquire(3) show ?case by simp
  next
    case (ref_release t held r t')
    have inv: "sm_inv t" and "session_refs t r = count_list held r"
      using sessions.run_counts [OF ref_release(1) assms(2) zero] by blast+
    with ref_release(2) have "session_refs t r \<noteq> 0" by (simp add: count_list_0_iff)
    then have m: "(snd r, fst r) \<in> set (entries t)" "0 < rc t (fst r)" by (auto simp: session_refs_def split: if_splits)
    have "sm_total_refs t' = sm_total_refs t - 1"
    proof (cases rule: release_cases [OF inv m])
      case (1 u sp)
      then have "u = t'" using ref_release(3) by (simp add: releases_def)
      with total_refs_change [OF inv 1(2,3)] show ?thesis by simp
    next
      case (2 u)
      then have "u = t'" using ref_release(3) by (simp add: releases_def)
      with total_refs_change [OF inv 2(2,3)] 2(5) show ?thesis by simp
    qed
    moreover have "int (length (remove1 r held)) = int (length held) - 1"
      using ref_release(2) length_pos_if_in_set [OF ref_release(2)] unfolding length_remove1 by (simp only: if_True)
    ultimately show ?case using ref_release(4) by simp
  next
    case (ref_other t held t')
    have inv: "sm_inv t" using sessions.run_counts [OF ref_other(1) assms(2) zero] by simp
    from ref_other(2) obtain key sid b where d: "ios_session_delete key (\<lambda>s. s) sid t = Some (b, t')" by (auto simp: deletes_def)
    have "sm_total_refs t' = sm_total_refs t"
    proof -
      have "sm_inv t' \<and> rc t' = rc t" by (cases rule: delete_cases [OF inv, of sid key]) (use d inv in auto)
      then show ?thesis using total_refs_change [OF inv, of t' 0 "rc t 0"] by simp
    qed
    with ref_other(3) show ?case by simp
  qed
qed


section \<open>Properties\<close>

text \<open>
  C7: a session is not freed while it is referenced. Whatever sequence of lookups, creations, deletions and releases by
  whatever threads leads from an empty table to \<open>s'\<close>, each done in one piece: every reference held points
  to a session that still exists, the count of each session is the number of references held to it, and the statistics report the
  number of sessions and of references.
\<close>

theorem held_sessions_not_freed:
  assumes "sm_inv s" and "entries s = []" and "ref_run acquires releases deletes s s' held"
  shows "sm_inv s' \<and> set held \<subseteq> live_sessions s' \<and> (\<forall>r. session_refs s' r = count_list held r) \<and>
    ios_session_get_stats s' = (int (length (entries s')), int (length held))"
proof -
  have "\<forall>r. session_refs s r = 0" using assms(2) by (simp add: session_refs_def)
  from sessions.run_counts [OF assms(3,1) this] run_total_refs [OF assms(3,1,2)] show ?thesis
    by (simp add: ios_session_get_stats_def sm_inv_def)
qed

text \<open>
  The table is a map from ids to sessions. \<^verbatim>\<open>ios_session_get_or_create\<close> returns the active session of the id, with one reference
  more, or makes one when there is none; a \<^verbatim>\<open>ios_session_get\<close> that follows finds the same session, and after a deletion of the id it finds none.
\<close>

theorem session_found_until_deleted:
  assumes "sm_inv s" and "fresh mem s" and "ios_session_get_or_create mem (\<lambda>s. s) sid s = Some (Some (a, t), s')"
  shows "t = sid \<and> sm_inv s' \<and> rc s' a = rc s a + 1 \<and>
    (\<forall>b. session_table_lookup_locked sid s = Some b \<and> \<not> doomed s b \<longrightarrow> a = b) \<and>
    (\<exists>s''. ios_session_get key sid s' = Some (Some (a, sid), s'')) \<and>
    (\<exists>s''. ios_session_delete key (\<lambda>s. s) sid s' = Some (True, s'') \<and> ios_session_get key sid s'' = Some (None, s''))"
proof -
  obtain u sp where u: "sm_inv u" "sm_store u a = Some sp" "s' = add_ref a sp u" "session_table_lookup_locked sid u = Some a"
    "\<not> doomed u a" "rc u = rc s" "t = sid" "\<forall>b. session_table_lookup_locked sid s = Some b \<and> \<not> doomed s b \<longrightarrow> a = b"
  proof (cases rule: get_or_create_cases [OF assms(1,2), of sid])
    case (1 b sp)
    then show thesis using that [of s sp] assms(1,3) by auto
  next
    case (2 b)
    have eq: "b = a" "t = sid" "s' = add_ref a (ios_session_init_params mem) (new_session a mem sid s)"
      using 2(5) assms(3) by auto
    define v where "v = new_session a mem sid s"
    note n = new_session_inv [OF assms(1) 2(3,4), of mem, unfolded eq(1), folded v_def]
    have st: "sm_store v a = Some (ios_session_init_params mem)" by (simp add: v_def new_session_def)
    have "session_table_lookup_locked sid v = Some a"
      using assms(1) hash_lt [of sid] by (simp add: v_def session_table_lookup_locked_def new_session_def sm_inv_def sm_ok_def)
    moreover have "\<not> doomed v a" using st by (simp add: doomed_def)
    ultimately show thesis using that [OF n(1) st eq(3) [folded v_def] _ _ n(2) eq(2)] 2(4) by blast
  next
    case 3
    then show thesis using assms(3) by simp
  qed
  note r = add_ref_inv [OF u(1,2), folded u(3)]
  have l: "session_table_lookup_locked sid s' = Some a" using u(3,4) by simp
  have g: "\<exists>s''. ios_session_get key sid s' = Some (Some (a, sid), s'')"
    using l r(4) u(5) by (cases rule: try_acquire_cases [OF r(1), of sid])
      (auto simp: ios_session_get_def sm_init_noop [OF r(1)])
  have pos: "0 < rc s' a" using r(2) rc_nonneg [OF u(1), of a] by simp
  have d: "\<exists>s''. ios_session_delete key (\<lambda>s. s) sid s' = Some (True, s'') \<and> ios_session_get key sid s'' = Some (None, s'')"
  proof (cases rule: delete_cases [OF r(1), of sid key])
    case (2 b v)
    then have "b = a" using l by simp
    with 2 have "ios_session_get key sid v = Some (None, v)"
      by (cases rule: try_acquire_cases [OF 2(4), of sid]) (auto simp: ios_session_get_def sm_init_noop [OF 2(4)])
    with 2(3) show ?thesis by blast
  qed (use l pos in auto)
  show ?thesis using u(6-8) r(1,2) g d by simp
qed

text \<open>
  A session that was deleted lives exactly as long as it is referenced. Releasing a counted reference succeeds, lowers the count and
  frees the session if and only if it was the last reference to a deleted session; no other session changes.
\<close>

theorem deleted_session_freed_with_last_reference:
  assumes "sm_inv s" and "(sid, a) \<in> set (entries s)" and "0 < rc s a"
  shows "\<exists>s'. ios_session_release (\<lambda>s. s) (\<lambda>s. s) (Some (a, sid)) s = Some s' \<and> sm_inv s' \<and>
    (sm_store s' a = None \<longleftrightarrow> rc s a = 1 \<and> doomed s a) \<and> rc s' a = rc s a - 1 \<and>
    (\<forall>b. b \<noteq> a \<longrightarrow> sm_store s' b = sm_store s b)"
  by (cases rule: release_cases [OF assms]) auto


lemma drain_pipe_empties: "drain_pipe n = 0"
  by (induction n rule: drain_pipe.induct) (subst drain_pipe.simps, auto simp: Let_def)

lemma write_wake_interrupted: "set es \<subseteq> {EINTR} \<Longrightarrow> write_wake es n = n + 1"
  by (induction es) auto

text \<open>
  A cancellation wakes the waiting calls once. A request sets the flag and, when it is the first and the pipe takes the byte (interrupted
  writes are repeated), leaves something to read in the pipe; further requests write nothing; clearing the request resets the flag
  and empties the pipe.
\<close>

theorem cancellation_wakes_once:
  assumes "sp_cancel_pipe_write_fd sp \<ge> 0" and "sp_cancel_pipe_read_fd sp \<ge> 0" and "set es \<subseteq> {EINTR}"
  shows "\<exists>sp1 sp2. ios_session_request_cancel es (Some sp) = (0, Some sp1) \<and> sp_cancel_requested sp1 \<and>
    (\<not> sp_cancel_requested sp \<longrightarrow> sp_pipe sp1 = sp_pipe sp + 1) \<and>
    ios_session_request_cancel es' (Some sp1) = (0, Some sp1) \<and>
    ios_session_clear_cancel (Some sp1) = Some sp2 \<and> \<not> sp_cancel_requested sp2 \<and> sp_pipe sp2 = 0"
  using assms by (simp add: ios_session_request_cancel_def ios_session_clear_cancel_def Let_def drain_pipe_empties write_wake_interrupted)

lemma destroy_entries_frees:
  "distinct (map snd es) \<Longrightarrow> snd ` set es \<subseteq> dom (sm_store s) \<Longrightarrow>
   \<exists>s'. destroy_entries es s = Some s' \<and> sm_store s' = (\<lambda>a. if a \<in> snd ` set es then None else sm_store s a) \<and> sm_once s' = sm_once s"
proof (induction es arbitrary: s)
  case Nil
  then show ?case by simp
next
  case (Cons e es)
  then obtain sp where sp: "sm_store s (snd e) = Some sp" by auto
  obtain sp' fs ds where cl: "ios_session_cleanup_params sp = (sp', fs, ds)" by (cases "ios_session_cleanup_params sp") auto
  let ?s = "s\<lparr>sm_store := (sm_store s)(snd e := None), sm_closed_streams := sm_closed_streams s @ fs, sm_closed_fds := sm_closed_fds s @ ds\<rparr>"
  have "snd ` set es \<subseteq> dom (sm_store ?s)" using Cons.prems by (simp add: subset_Diff_insert)
  moreover have "distinct (map snd es)" using Cons.prems by simp
  ultimately obtain s' where "destroy_entries es ?s = Some s'" "sm_store s' = (\<lambda>a. if a \<in> snd ` set es then None else sm_store ?s a)"
    "sm_once s' = sm_once ?s" using Cons.IH by blast
  with sp cl show ?case by (auto simp: fun_eq_iff)
qed

text \<open>
  A shutdown without outstanding references frees every session. It destroys the locks as well, and the initialisation runs once in the
  life of the process: from then on every lookup uses a destroyed lock.
\<close>

theorem shutdown_frees_every_session:
  assumes "sm_inv s" and "sm_total_refs s = 0"
  shows "\<exists>s'. ios_session_manager_shutdown others s = Some s' \<and> sm_store s' = Map.empty \<and>
    ios_session_get_stats s' = (0, 0) \<and> ios_session_get key sid s' = None"
proof -
  have w: "shutdown_wait n others s = s" for n using assms(2) by (cases n) auto
  have d: "distinct (map snd (concat (sm_buckets s)))" "snd ` set (concat (sm_buckets s)) = dom (sm_store s)"
    using assms(1) unfolding sm_inv_def entries_def by blast+
  have "snd ` set (concat (sm_buckets s)) \<subseteq> dom (sm_store s)" by (simp only: d(2) subset_refl)
  then obtain s' where "destroy_entries (concat (sm_buckets s)) s = Some s'"
    "sm_store s' = (\<lambda>a. if a \<in> dom (sm_store s) then None else sm_store s a)" "sm_once s' = sm_once s"
    using destroy_entries_frees [OF d(1)] unfolding d(2) by blast
  with assms(1) w show ?thesis
    by (auto simp: ios_session_manager_shutdown_def ios_session_get_stats_def ios_session_get_def sm_inv_def sm_ok_def
        ios_session_manager_init_def try_acquire_def domIff Let_def)
qed

text \<open>
  Two critical sections of one deletion are not one. If between them another thread asks for the id, it gets a new session,
  and the deletion removes that one, the first entry with the id: the thread holds a reference to freed memory.
\<close>

lemma delete_race_frees_new_session:
  assumes "sm_inv s" "session_table_lookup_locked sid s = Some a" "rc s a = 0"
    and "me_entry mem" "me_session mem = Some b" "sm_store s b = None"
    and "between = (\<lambda>s. case ios_session_get_or_create mem (\<lambda>s. s) sid s of Some (_, s') \<Rightarrow> s' | None \<Rightarrow> s)"
  shows "\<exists>s1 s'. ios_session_get_or_create mem (\<lambda>s. s) sid s1 = Some (Some (b, sid), between s1) \<and>
    ios_session_delete key between sid s = Some (True, s') \<and>
    ios_session_release (\<lambda>s. s) (\<lambda>s. s) (Some (b, sid)) s' = None"
proof -
  obtain sp where sp: "sm_store s a = Some sp" using lookup_entry [OF assms(1,2)] by blast
  have z: "sp_ref_count sp = 0" using assms(3) sp by (simp add: rc_def)
  have ok: "sm_locks s" "sm_once s" "length (sm_buckets s) = SESSION_HASH_TABLE_SIZE" using assms(1) by (auto simp: sm_inv_def sm_ok_def)
  have ab: "a \<noteq> b" using sp assms(6) by auto
  define s1 where "s1 = s\<lparr>sm_store := (sm_store s)(a \<mapsto> sp\<lparr>sp_is_destroying := True\<rparr>)\<rparr>"
  have l: "session_table_lookup_locked sid s1 = Some a" using assms(2) by (simp add: s1_def session_table_lookup_locked_def)
  have t: "try_acquire sid s1 = Some (None, s1)" using l ok by (simp add: try_acquire_def s1_def)
  have g: "ios_session_get_or_create mem (\<lambda>s. s) sid s1 =
      Some (Some (b, sid), add_ref b (ios_session_init_params mem) (new_session b mem sid s1))"
    using t ok assms(4,5) by (simp add: ios_session_get_or_create_def ios_session_manager_init_def s1_def create_locked_def
        session_table_insert_locked_def new_session_def)
  then have bt: "between s1 = add_ref b (ios_session_init_params mem) (new_session b mem sid s1)" by (simp add: assms(7))
  have "\<exists>s'. destroy_first (\<lambda>e. fst e = sid) (hash_session_id sid) (between s1) = Some s' \<and> sm_store s' b = None"
    using ok hash_lt [of sid] unfolding bt
    by (auto simp: destroy_first_def add_ref_def new_session_def s1_def Let_def split: prod.splits)
  then obtain s' where "destroy_first (\<lambda>e. fst e = sid) (hash_session_id sid) (between s1) = Some s'" "sm_store s' b = None" by blast
  with g bt assms(2) sp z ok show ?thesis
    by (intro exI [of _ s1] exI [of _ s'])
      (simp add: ios_session_delete_def ios_session_release_def Let_def ios_session_manager_init_def s1_def)
qed

text \<open>
  A release reads the session after giving up its reference: a deletion that runs in between frees it first.
\<close>

lemma release_race_reads_freed_session:
  assumes "sm_inv s" "(sid, a) \<in> set (entries s)" "rc s a = 1"
    and "\<And>s1. sm_store (before_load s1) a = None"
  shows "ios_session_release before_load before_lock (Some (a, sid)) s = None"
proof -
  obtain sp where "sm_store s a = Some sp" "sp_ref_count sp = 1" using entry_live [OF assms(1,2)] assms(3) by (auto simp: rc_def)
  then show ?thesis using assms(4) by (simp add: ios_session_release_def Let_def)
qed

text \<open>A stream that serves as output and as error output, or as input and as terminal, is closed twice.\<close>

lemma cleanup_closes_shared_stream_twice:
  "sp_stdout sp = Some (File n) \<Longrightarrow> sp_stderr sp = Some (File n) \<Longrightarrow> 2 \<le> count_list (fst (snd (ios_session_cleanup_params sp))) (File n)"
  by (auto simp: ios_session_cleanup_params_def fclose_unless_def)


section \<open>A concrete table\<close>

definition demo_session_mem :: session_mem where
  "demo_session_mem = \<lparr>me_entry = True, me_session = Some 1, me_array = True, me_name = (\<lambda>_. True), me_pipe = Some (10, 11),
     me_cwd = ''/'', me_key = 0\<rparr>"

definition demo_table :: session_table where
  "demo_table = \<lparr>sm_store = Map.empty, sm_buckets = replicate SESSION_HASH_TABLE_SIZE [], sm_total_sessions = 0, sm_total_refs = 0,
     sm_initialized = True, sm_once = True, sm_locks = True, sm_closed_streams = [], sm_closed_fds = [],
     sm_env = demo_env\<rparr>"

lemma demo_table_facts: "sm_inv demo_table" "entries demo_table = []" "fresh demo_session_mem demo_table" "rc demo_table a = 0"
  "sm_total_refs demo_table = 0"
  by (simp_all add: sm_inv_def sm_ok_def demo_table_def entries_def fresh_def rc_def)

lemma demo_acquired:
  obtains s where "ios_session_get_or_create demo_session_mem (\<lambda>s. s) 5 demo_table = Some (Some (1, 5), s)" "acquires demo_table (1, 5) s"
    "sm_inv s" "rc s 1 = 1" "(5, 1) \<in> set (entries s)" "session_table_lookup_locked 5 s = Some 1"
proof (cases rule: get_or_create_cases [OF demo_table_facts(1,3), of 5])
  case (1 a sp)
  then show thesis by (simp add: demo_table_facts)
next
  case (2 a)
  then have "a = 1" by (simp add: demo_session_mem_def)
  define s where "s = add_ref a (ios_session_init_params demo_session_mem) (new_session a demo_session_mem 5 demo_table)"
  have g: "ios_session_get_or_create demo_session_mem (\<lambda>s. s) 5 demo_table = Some (Some (1, 5), s)" using 2(5) \<open>a = 1\<close> by (simp add: s_def)
  then have ac: "acquires demo_table (1, 5) s" using demo_table_facts(3) by (auto simp: acquires_def)
  have "session_table_lookup_locked 5 s = Some 1"
    using hash_lt [of 5] \<open>a = 1\<close> by (simp add: s_def session_table_lookup_locked_def new_session_def demo_table_def add_ref_def)
  with g ac acquiresE [OF demo_table_facts(1) ac] show thesis using that by (simp add: demo_table_facts)
next
  case 3
  then show thesis by (simp add: demo_session_mem_def)
qed

theorem held_sessions_not_freed_witness:
  "\<exists>s. ref_run acquires releases deletes demo_table s [(1, 5)] \<and> (1, 5) \<in> live_sessions s \<and> snd (ios_session_get_stats s) = 1"
proof -
  obtain s where "acquires demo_table (1, 5) s" by (rule demo_acquired)
  with ref_start have "ref_run acquires releases deletes demo_table s [(1, 5)]" by (rule ref_acquire)
  with held_sessions_not_freed [OF demo_table_facts(1,2) this] show ?thesis by auto
qed

theorem session_found_until_deleted_witness:
  "\<exists>s s' s''. ios_session_get_or_create demo_session_mem (\<lambda>s. s) 5 demo_table = Some (Some (1, 5), s) \<and>
    ios_session_get 0 5 s = Some (Some (1, 5), s') \<and> ios_session_delete 0 (\<lambda>s. s) 5 s = Some (True, s'')"
proof -
  obtain s where s: "ios_session_get_or_create demo_session_mem (\<lambda>s. s) 5 demo_table = Some (Some (1, 5), s)" by (rule demo_acquired)
  from session_found_until_deleted [OF demo_table_facts(1,3) this, of 0] s show ?thesis by blast
qed

theorem deleted_session_freed_with_last_reference_witness:
  "\<exists>s s'. doomed s 1 \<and> ios_session_release (\<lambda>s. s) (\<lambda>s. s) (Some (1, 5)) s = Some s' \<and> sm_store s' 1 = None"
proof -
  obtain t where t: "sm_inv t" "rc t 1 = 1" "(5, 1) \<in> set (entries t)" "session_table_lookup_locked 5 t = Some 1" by (rule demo_acquired)
  then obtain s where "sm_inv s" "rc s 1 = 1" "(5, 1) \<in> set (entries s)" "doomed s 1"
    by (cases rule: delete_cases [OF t(1), of 5 0]) auto
  with deleted_session_freed_with_last_reference [of s 5 1] show ?thesis by auto
qed

theorem cancellation_wakes_once_witness:
  "\<exists>sp1 sp2. ios_session_request_cancel [EINTR] (Some (ios_session_init_params demo_session_mem)) = (0, Some sp1) \<and> sp_pipe sp1 = 1 \<and>
    ios_session_clear_cancel (Some sp1) = Some sp2 \<and> sp_pipe sp2 = 0"
proof -
  let ?sp = "ios_session_init_params demo_session_mem"
  have "sp_cancel_pipe_write_fd ?sp \<ge> 0" "sp_cancel_pipe_read_fd ?sp \<ge> 0" "set [EINTR] \<subseteq> {EINTR}"
    by (simp_all add: ios_session_init_params_def demo_session_mem_def)
  from cancellation_wakes_once [OF this, of "[]"] show ?thesis by (auto simp: ios_session_init_params_def demo_session_mem_def)
qed

theorem shutdown_frees_every_session_witness:
  "\<exists>s. ios_session_manager_shutdown (\<lambda>_ s. s) demo_table = Some s \<and> sm_store s = Map.empty"
  using shutdown_frees_every_session [OF demo_table_facts(1,5), of "\<lambda>_ s. s" 0 0] by auto

end
