(* ===== verification/Async_Commands.thy ===== *)
theory Async_Commands
  imports Prelude
begin

text \<open>
  \<^verbatim>\<open>ios_async.m\<close>: commands that run in a thread of their own, with a handle to wait for them, kill them or be called back. The
  handle is shared by the client and the thread and counted.

  The state holds one handle (\<open>None\<close> once it is freed), where its thread stands between two accesses to the handle, and where
  the client stands. A critical section under the mutex of the handle is one step, an atomic access is one. A result \<open>None\<close> of
  a step, or \<open>Crash\<close>, is an access to the freed handle. The exit code of \<^verbatim>\<open>ios_system\<close> on the command, the clock, and the result of
  \<^verbatim>\<open>ios_kill_session\<close> are arguments; the session and the streams the thread has switched to, the run of the command, and the calls of
  \<^verbatim>\<open>ios_closeSession\<close> and of the callback are recorded. A call of the callback \<open>None\<close> is a call through a null pointer.
\<close>

section \<open>State\<close>

datatype ios_command_status =
  IOS_CMD_PENDING | IOS_CMD_RUNNING | IOS_CMD_COMPLETED | IOS_CMD_FAILED | IOS_CMD_KILLED | IOS_CMD_TIMEOUT

record timeval =
  tvl_sec :: int
  tvl_usec :: int

text \<open>Streams, callbacks and their data are numbers; the session 0 is \<^verbatim>\<open>NULL\<close>.\<close>

record async_options =
  ao_input :: "nat option"
  ao_output :: "nat option"
  ao_error :: "nat option"
  ao_session :: nat
  ao_callback :: "nat option"
  ao_callback_data :: nat
  ao_timeout_ms :: int

record command_handle =
  ch_command :: string
  ch_pid :: int
  ch_input :: "nat option"
  ch_output :: "nat option"
  ch_error :: "nat option"
  ch_session :: nat
  ch_owns_session :: bool
  ch_status :: ios_command_status
  ch_exit_code :: int
  ch_kill_requested :: bool
  ch_callback :: "nat option"
  ch_callback_data :: nat
  ch_callback_invoked :: bool
  ch_timeout_ms :: int
  ch_start_time :: timeval
  ch_ref_count :: int

definition ios_async_default_options :: async_options where
  "ios_async_default_options =
     \<lparr>ao_input = None, ao_output = None, ao_error = None, ao_session = 0, ao_callback = None, ao_callback_data = 0,
      ao_timeout_ms = - 1\<rparr>"

text \<open>The next access of the thread to the handle; after the command has run, with its result.\<close>

datatype thread_stage =
  TakeReference | MarkRunning | SwitchSession | SetUp | Execute | Finish int | InvokeCallback int | CallBack int | CloseSession | Release | Done

text \<open>
  A client that waits sleeps on the condition variable of the handle until it is woken; one that gave up the last reference while the
  command runs waits for its end.
\<close>

datatype client = Holding | Sleeping | Woken | AwaitingEnd | Gone

type_synonym streams = "nat option \<times> nat option \<times> nat option"

record async_state =
  as_handle :: "command_handle option"
  as_thread :: thread_stage
  as_client :: client
  as_session :: "nat option"
  as_streams :: "streams option"
  as_runs :: "(string \<times> nat option \<times> streams option) list"
  as_calls :: "(nat option \<times> int \<times> nat) list"
  as_closed :: "nat list"

definition unfinished :: "command_handle \<Rightarrow> bool" where
  "unfinished h \<longleftrightarrow> ch_status h = IOS_CMD_PENDING \<or> ch_status h = IOS_CMD_RUNNING"

section \<open>Starting a command\<close>

text \<open>
  \<open>self\<close> is the address of the handle, \<open>context\<close> the answer of \<^verbatim>\<open>ios_getContext\<close>, \<open>memory\<close> tells whether both allocations succeed and \<open>created\<close>
  whether \<^verbatim>\<open>pthread_create\<close> does.
\<close>

definition new_handle :: "nat \<Rightarrow> nat \<Rightarrow> timeval \<Rightarrow> string \<Rightarrow> async_options option \<Rightarrow> command_handle" where
  "new_handle self ctx now command options =
     (let opts = (case options of None \<Rightarrow> ios_async_default_options | Some o' \<Rightarrow> o');
          wanted = (if ao_session opts \<noteq> 0 then ao_session opts else ctx)
      in \<lparr>ch_command = command, ch_pid = 0, ch_input = ao_input opts, ch_output = ao_output opts, ch_error = ao_error opts,
          ch_session = (if wanted = 0 then self else wanted), ch_owns_session = (wanted = 0),
          ch_status = IOS_CMD_PENDING, ch_exit_code = - 1, ch_kill_requested = False,
          ch_callback = ao_callback opts, ch_callback_data = ao_callback_data opts, ch_callback_invoked = False,
          ch_timeout_ms = ao_timeout_ms opts, ch_start_time = now, ch_ref_count = 1\<rparr>)"

definition ios_system_async ::
  "nat \<Rightarrow> nat \<Rightarrow> timeval \<Rightarrow> bool \<Rightarrow> bool \<Rightarrow> string option \<Rightarrow> async_options option \<Rightarrow> async_state option" where
  "ios_system_async self ctx now memory created command options =
     (case command of
        None \<Rightarrow> None
      | Some c \<Rightarrow>
          if \<not> memory \<or> \<not> created then None
          else Some \<lparr>as_handle = Some (new_handle self ctx now c options), as_thread = TakeReference, as_client = Holding,
                     as_session = None, as_streams = None, as_runs = [], as_calls = [], as_closed = []\<rparr>)"

section \<open>The thread\<close>

definition check_timeout :: "timeval \<Rightarrow> command_handle \<Rightarrow> bool" where
  "check_timeout now h =
     (if ch_timeout_ms h < 0 then False
      else let elapsed_ms = (tvl_sec now - tvl_sec (ch_start_time h)) * 1000 +
                            c_div (tvl_usec now - tvl_usec (ch_start_time h)) 1000
           in elapsed_ms \<ge> ch_timeout_ms h)"

definition final_status :: "timeval \<Rightarrow> int \<Rightarrow> command_handle \<Rightarrow> ios_command_status" where
  "final_status now result h =
     (if check_timeout now h then IOS_CMD_TIMEOUT
      else if ch_kill_requested h then IOS_CMD_KILLED
      else if result = 0 then IOS_CMD_COMPLETED else IOS_CMD_FAILED)"

text \<open>The critical section of \<^verbatim>\<open>invoke_callback_if_set\<close>, and whether a call follows.\<close>

definition take_callback :: "command_handle \<Rightarrow> bool \<times> command_handle" where
  "take_callback h =
     (if ch_callback h \<noteq> None \<and> \<not> ch_callback_invoked h then (True, h\<lparr>ch_callback_invoked := True\<rparr>) else (False, h))"

text \<open>The call, without the mutex: the callback and its data are read from the handle again.\<close>

definition callback_call :: "command_handle \<Rightarrow> int \<Rightarrow> nat option \<times> int \<times> nat" where
  "callback_call h exit_code = (ch_callback h, exit_code, ch_callback_data h)"

text \<open>\<^verbatim>\<open>pthread_cond_broadcast(&cmd->done)\<close>.\<close>

definition broadcast_done :: "async_state \<Rightarrow> async_state" where
  "broadcast_done s = s\<lparr>as_client := (if as_client s = Sleeping then Woken else as_client s)\<rparr>"

text \<open>
  One access of the thread: the new handle (\<open>None\<close> when it is freed) and the next stage. In its last stage the thread calls
  \<^verbatim>\<open>ios_command_release\<close>, where the status it has stored itself lets it pass without a wait.
\<close>

fun command_thread_func :: "timeval \<Rightarrow> (string \<Rightarrow> int) \<Rightarrow> async_state \<Rightarrow> async_state option" where
  "command_thread_func now run s =
     (case as_handle s of
        None \<Rightarrow> None
      | Some h \<Rightarrow>
          (case as_thread s of
             TakeReference \<Rightarrow> Some (s\<lparr>as_handle := Some (h\<lparr>ch_ref_count := ch_ref_count h + 1\<rparr>), as_thread := MarkRunning\<rparr>)
           | MarkRunning \<Rightarrow> Some (s\<lparr>as_handle := Some (h\<lparr>ch_status := IOS_CMD_RUNNING\<rparr>), as_thread := SwitchSession\<rparr>)
           | SwitchSession \<Rightarrow>
               Some (s\<lparr>as_session := (if ch_session h \<noteq> 0 then Some (ch_session h) else as_session s), as_thread := SetUp\<rparr>)
           | SetUp \<Rightarrow> Some (s\<lparr>as_streams := Some (ch_input h, ch_output h, ch_error h), as_thread := Execute\<rparr>)
           | Execute \<Rightarrow> Some (s\<lparr>as_runs := as_runs s @ [(ch_command h, as_session s, as_streams s)],
                               as_thread := Finish (run (ch_command h))\<rparr>)
           | Finish r \<Rightarrow>
               Some (broadcast_done (s\<lparr>as_handle := Some (h\<lparr>ch_exit_code := r, ch_status := final_status now r h\<rparr>),
                                      as_thread := InvokeCallback r\<rparr>))
           | InvokeCallback r \<Rightarrow>
               (case take_callback h of (call, h1) \<Rightarrow>
                  Some (s\<lparr>as_handle := Some h1, as_thread := (if call then CallBack r else CloseSession)\<rparr>))
           | CallBack r \<Rightarrow> Some (s\<lparr>as_calls := as_calls s @ [callback_call h r], as_thread := CloseSession\<rparr>)
           | CloseSession \<Rightarrow>
               Some (s\<lparr>as_closed := as_closed s @ (if ch_owns_session h \<and> ch_session h \<noteq> 0 then [ch_session h] else []),
                       as_thread := Release\<rparr>)
           | Release \<Rightarrow>
               if ch_ref_count h > 1
               then Some (s\<lparr>as_handle := Some (h\<lparr>ch_ref_count := ch_ref_count h - 1\<rparr>), as_thread := Done\<rparr>)
               else Some (s\<lparr>as_handle := None, as_thread := Done\<rparr>)
           | Done \<Rightarrow> None))"

lemmas [simp del] = command_thread_func.simps

section \<open>The client\<close>

text \<open>
  One pass of the loop of \<^verbatim>\<open>ios_command_wait\<close> under the mutex: it returns the exit code, or the client goes to sleep.
\<close>

definition wait_pass :: "timeval \<Rightarrow> async_state \<Rightarrow> (int option \<times> async_state) option" where
  "wait_pass now s =
     (case as_handle s of
        None \<Rightarrow> None
      | Some h \<Rightarrow>
          if unfinished h then
            if ch_timeout_ms h \<ge> 0 \<and> check_timeout now h
            then Some (Some (ch_exit_code h),
                       (broadcast_done (s\<lparr>as_handle := Some (h\<lparr>ch_status := IOS_CMD_TIMEOUT\<rparr>)\<rparr>))\<lparr>as_client := Holding\<rparr>)
            else Some (None, s\<lparr>as_client := Sleeping\<rparr>)
          else Some (Some (ch_exit_code h), s\<lparr>as_client := Holding\<rparr>))"

text \<open>
  The whole loop: the clock when the status is looked at, and for each wake-up of the condition variable what happened meanwhile and
  the clock after it.
\<close>

fun command_wait_loop :: "timeval \<Rightarrow> ((async_state \<Rightarrow> async_state) \<times> timeval) list \<Rightarrow> async_state \<Rightarrow> (int, async_state) exec" where
  "command_wait_loop now ws s =
     (case wait_pass now s of
        None \<Rightarrow> Crash
      | Some (Some r, s') \<Rightarrow> Returns r s'
      | Some (None, s') \<Rightarrow> (case ws of [] \<Rightarrow> Blocked s' | (w, now') # ws' \<Rightarrow> command_wait_loop now' ws' (w s')))"

lemmas [simp del] = command_wait_loop.simps

definition ios_command_wait ::
  "timeval \<Rightarrow> ((async_state \<Rightarrow> async_state) \<times> timeval) list \<Rightarrow> async_state option \<Rightarrow> (int, async_state option) exec" where
  "ios_command_wait now ws cmd =
     (case cmd of
        None \<Rightarrow> Returns (- 1) None
      | Some s \<Rightarrow> (case command_wait_loop now ws s of Returns r s' \<Rightarrow> Returns r (Some s') | Blocked s' \<Rightarrow> Blocked (Some s') | Crash \<Rightarrow> Crash))"

definition ios_command_try_wait :: "command_handle option \<Rightarrow> int option" where
  "ios_command_try_wait cmd =
     (case cmd of None \<Rightarrow> None | Some h \<Rightarrow> if unfinished h then None else Some (ch_exit_code h))"

definition ios_command_get_status :: "command_handle option \<Rightarrow> ios_command_status" where
  "ios_command_get_status cmd = (case cmd of None \<Rightarrow> IOS_CMD_FAILED | Some h \<Rightarrow> ch_status h)"

definition ios_command_get_exit_code :: "command_handle option \<Rightarrow> int" where
  "ios_command_get_exit_code cmd =
     (case cmd of None \<Rightarrow> - 1 | Some h \<Rightarrow> if unfinished h then - 1 else ch_exit_code h)"

definition ios_command_get_pid :: "command_handle option \<Rightarrow> int" where
  "ios_command_get_pid cmd = (case cmd of None \<Rightarrow> - 1 | Some h \<Rightarrow> ch_pid h)"

definition ios_command_get_string :: "command_handle option \<Rightarrow> string option" where
  "ios_command_get_string cmd = map_option ch_command cmd"

text \<open>\<open>kill_session\<close> is the result of \<^verbatim>\<open>ios_kill_session\<close>.\<close>

definition ios_command_kill :: "(nat \<Rightarrow> int) \<Rightarrow> command_handle option \<Rightarrow> int \<times> command_handle option" where
  "ios_command_kill kill_session cmd =
     (case cmd of
        None \<Rightarrow> (- 1, None)
      | Some h \<Rightarrow>
          if ch_status h \<noteq> IOS_CMD_RUNNING then (0, Some h)
          else (kill_session (ch_session h), Some (h\<lparr>ch_kill_requested := True\<rparr>)))"

text \<open>
  \<^verbatim>\<open>ios_command_release\<close> by the client, in two parts: giving up the reference, and, after the wait for a command that still runs, freeing.
\<close>

definition ios_command_release :: "async_state \<Rightarrow> async_state option" where
  "ios_command_release s =
     (case as_handle s of
        None \<Rightarrow> None
      | Some h \<Rightarrow>
          let h1 = h\<lparr>ch_ref_count := ch_ref_count h - 1\<rparr> in
          if ch_ref_count h > 1 then Some (s\<lparr>as_handle := Some h1, as_client := Gone\<rparr>)
          else if unfinished h1 then Some (s\<lparr>as_handle := Some h1, as_client := AwaitingEnd\<rparr>)
          else Some (s\<lparr>as_handle := None, as_client := Gone\<rparr>))"

definition release_after_wait :: "async_state \<Rightarrow> async_state option" where
  "release_after_wait s =
     (case as_handle s of
        None \<Rightarrow> None
      | Some h \<Rightarrow> if unfinished h then Some s else Some (s\<lparr>as_handle := None, as_client := Gone\<rparr>))"

text \<open>The lock section of \<^verbatim>\<open>ios_command_set_callback\<close> and the call that may follow.\<close>

definition ios_command_set_callback ::
  "nat option \<Rightarrow> nat \<Rightarrow> async_state \<Rightarrow> async_state option" where
  "ios_command_set_callback callback user_data s =
     (case as_handle s of
        None \<Rightarrow> None
      | Some h \<Rightarrow>
          let h1 = h\<lparr>ch_callback := callback, ch_callback_data := user_data\<rparr> in
          if \<not> unfinished h1 \<and> \<not> ch_callback_invoked h1 \<and> callback \<noteq> None then
            (case take_callback h1 of (call, h2) \<Rightarrow>
               Some (s\<lparr>as_handle := Some h2, as_calls := as_calls s @ (if call then [callback_call h2 (ch_exit_code h2)] else [])\<rparr>))
          else Some (s\<lparr>as_handle := Some h1\<rparr>))"

text \<open>
  \<^verbatim>\<open>ios_system_sync\<close> and \<^verbatim>\<open>ios_system_timeout\<close>: the waits, then the release, whose second part follows when the command has ended.
\<close>

definition wait_and_release ::
  "timeval \<Rightarrow> ((async_state \<Rightarrow> async_state) \<times> timeval) list \<Rightarrow> (nat \<Rightarrow> int) option \<Rightarrow> async_state option \<Rightarrow> (int, async_state option) exec" where
  "wait_and_release now ws kill_session cmd =
     (case cmd of
        None \<Rightarrow> Returns (- 1) None
      | Some s \<Rightarrow>
          (case command_wait_loop now ws s of
             Blocked s' \<Rightarrow> Blocked (Some s')
           | Crash \<Rightarrow> Crash
           | Returns r s1 \<Rightarrow>
               let (r2, s2) =
                 (case kill_session of
                    Some k \<Rightarrow>
                      if ios_command_get_status (as_handle s1) = IOS_CMD_TIMEOUT
                      then (- 1, s1\<lparr>as_handle := snd (ios_command_kill k (as_handle s1))\<rparr>) else (r, s1)
                  | None \<Rightarrow> (r, s1))
               in (case ios_command_release s2 of None \<Rightarrow> Crash | Some s3 \<Rightarrow> Returns r2 (Some s3))))"

definition ios_system_sync ::
  "nat \<Rightarrow> nat \<Rightarrow> timeval \<Rightarrow> bool \<Rightarrow> bool \<Rightarrow> timeval \<Rightarrow> ((async_state \<Rightarrow> async_state) \<times> timeval) list \<Rightarrow>
   string option \<Rightarrow> async_options option \<Rightarrow> (int, async_state option) exec" where
  "ios_system_sync self ctx start memory created now ws command options =
     wait_and_release now ws None (ios_system_async self ctx start memory created command options)"

definition ios_system_timeout ::
  "nat \<Rightarrow> nat \<Rightarrow> timeval \<Rightarrow> bool \<Rightarrow> bool \<Rightarrow> timeval \<Rightarrow> ((async_state \<Rightarrow> async_state) \<times> timeval) list \<Rightarrow> (nat \<Rightarrow> int) \<Rightarrow>
   string option \<Rightarrow> async_options option \<Rightarrow> int \<Rightarrow> (int, async_state option) exec" where
  "ios_system_timeout self ctx start memory created now ws kill_session command options timeout_ms =
     (let opts = (case options of None \<Rightarrow> ios_async_default_options | Some o' \<Rightarrow> o')\<lparr>ao_timeout_ms := timeout_ms\<rparr>
      in wait_and_release now ws (Some kill_session)
           (ios_system_async self ctx start memory created command (Some opts)))"


section \<open>Lives of a handle\<close>

text \<open>
  The steps of the thread and of a client that keeps to one rule: it does not release the handle before the thread has
  taken its own reference (which holds when it has seen the command running or ended).
\<close>

inductive async_step :: "(string \<Rightarrow> int) \<Rightarrow> async_state \<Rightarrow> async_state \<Rightarrow> bool" for run where
  Thread: "command_thread_func now run s = Some s' \<Longrightarrow> async_step run s s'"
| Kill: "as_client s = Holding \<Longrightarrow> as_handle s = Some h \<Longrightarrow>
    async_step run s (s\<lparr>as_handle := snd (ios_command_kill kill_session (Some h))\<rparr>)"
| SetCallback: "as_client s = Holding \<Longrightarrow> ios_command_set_callback callback user_data s = Some s' \<Longrightarrow> async_step run s s'"
| Wait: "as_client s \<in> {Holding, Woken} \<Longrightarrow> wait_pass now s = Some (r, s') \<Longrightarrow> async_step run s s'"
| Spurious: "as_client s = Sleeping \<Longrightarrow> async_step run s (s\<lparr>as_client := Woken\<rparr>)"
| ReleaseHandle: "as_client s = Holding \<Longrightarrow> as_thread s \<noteq> TakeReference \<Longrightarrow> ios_command_release s = Some s' \<Longrightarrow> async_step run s s'"

inductive async_reach :: "(string \<Rightarrow> int) \<Rightarrow> async_state \<Rightarrow> async_state \<Rightarrow> bool" for run s where
  reach_start: "async_reach run s s"
| reach_step: "async_reach run s t \<Longrightarrow> async_step run t u \<Longrightarrow> async_reach run s u"

fun counted :: "thread_stage \<Rightarrow> bool" where
  "counted TakeReference = False"
| "counted Done = False"
| "counted _ = True"

fun ended :: "thread_stage \<Rightarrow> bool" where
  "ended (InvokeCallback r) = True"
| "ended (CallBack r) = True"
| "ended CloseSession = True"
| "ended Release = True"
| "ended Done = True"
| "ended _ = False"

definition handle_ok :: "async_state \<Rightarrow> command_handle \<Rightarrow> bool" where
  "handle_ok s h \<longleftrightarrow> as_client s \<noteq> AwaitingEnd \<and> (as_client s = Gone \<longrightarrow> counted (as_thread s)) \<and>
     ch_ref_count h = of_bool (as_client s \<noteq> Gone) + of_bool (counted (as_thread s)) \<and>
     (as_client s = Sleeping \<longrightarrow> \<not> ended (as_thread s)) \<and>
     (ended (as_thread s) \<longrightarrow> \<not> unfinished h) \<and> (as_calls s \<noteq> [] \<longrightarrow> ch_callback_invoked h) \<and>
     (\<forall>r. as_thread s = CallBack r \<longrightarrow> ch_callback_invoked h \<and> as_calls s = [])"

definition async_inv :: "async_state \<Rightarrow> bool" where
  "async_inv s \<longleftrightarrow> length (as_calls s) \<le> 1 \<and>
     (case as_handle s of None \<Rightarrow> as_client s = Gone \<and> as_thread s = Done | Some h \<Rightarrow> handle_ok s h)"

lemma final_status_final: "\<not> unfinished (h\<lparr>ch_exit_code := r, ch_status := final_status now r h0\<rparr>)"
  by (simp add: unfinished_def final_status_def)

lemma unfinished_simps [simp]:
  "unfinished (h\<lparr>ch_ref_count := n\<rparr>) = unfinished h" "unfinished (h\<lparr>ch_kill_requested := b\<rparr>) = unfinished h"
  "unfinished (h\<lparr>ch_callback_invoked := b\<rparr>) = unfinished h" "unfinished (h\<lparr>ch_callback := cb, ch_callback_data := d\<rparr>) = unfinished h"
  "\<not> unfinished (h\<lparr>ch_status := IOS_CMD_TIMEOUT\<rparr>)"
  by (simp_all add: unfinished_def)

lemma thread_preserves:
  assumes "async_inv s" "command_thread_func now run s = Some s'"
  shows "async_inv s'"
proof (cases "as_handle s")
  case None
  with assms(2) show ?thesis by (simp add: command_thread_func.simps)
next
  case (Some h)
  with assms(1) have ok: "handle_ok s h" "length (as_calls s) \<le> 1" by (auto simp: async_inv_def)
  note step = assms(2) [unfolded command_thread_func.simps Some option.case]
  show ?thesis
  proof (cases "as_thread s")
    case (Finish r)
    with step ok show ?thesis by (auto simp: async_inv_def handle_ok_def final_status_final broadcast_done_def)
  next
    case (InvokeCallback r)
    with step ok show ?thesis by (auto simp: async_inv_def handle_ok_def take_callback_def split: if_splits)
  next
    case (CallBack r)
    with step ok Some show ?thesis by (auto simp: async_inv_def handle_ok_def)
  next
    case Release
    with step ok show ?thesis by (cases "as_client s") (auto simp: async_inv_def handle_ok_def split: if_splits)
  qed (use step ok Some in \<open>auto simp: async_inv_def handle_ok_def\<close>)
qed

lemma wait_preserves:
  assumes "async_inv s" and "as_client s \<in> {Holding, Woken}" and "wait_pass now s = Some (r, s')"
  shows "async_inv s'"
proof -
  obtain h where h: "as_handle s = Some h" using assms by (auto simp: async_inv_def split: option.splits)
  with assms have ok: "handle_ok s h" "length (as_calls s) \<le> 1" by (auto simp: async_inv_def)
  show ?thesis
    using assms(2,3) ok h by (auto simp: wait_pass_def async_inv_def handle_ok_def broadcast_done_def split: if_splits)
qed

lemma client_preserves:
  assumes "async_inv s" "as_client s = Holding"
  shows "as_handle s = Some h \<Longrightarrow> async_inv (s\<lparr>as_handle := snd (ios_command_kill k (Some h))\<rparr>)"
    and "ios_command_set_callback cb d s = Some s' \<Longrightarrow> async_inv s'"
    and "as_thread s \<noteq> TakeReference \<Longrightarrow> ios_command_release s = Some s' \<Longrightarrow> async_inv s'"
proof -
  obtain h where h: "as_handle s = Some h" using assms by (auto simp: async_inv_def split: option.splits)
  with assms have ok: "handle_ok s h" "length (as_calls s) \<le> 1" by (auto simp: async_inv_def)
  show "as_handle s = Some h' \<Longrightarrow> async_inv (s\<lparr>as_handle := snd (ios_command_kill k (Some h'))\<rparr>)" for h'
    using ok h by (auto simp: async_inv_def handle_ok_def ios_command_kill_def)
  show "async_inv s'" if "ios_command_set_callback cb d s = Some s'"
  proof (cases "\<not> unfinished h \<and> \<not> ch_callback_invoked h \<and> cb \<noteq> None")
    case True
    then obtain c where "cb = Some c" "as_calls s = []" using ok(1) by (auto simp: handle_ok_def)
    with True that h ok show ?thesis
      by (simp add: ios_command_set_callback_def take_callback_def callback_call_def Let_def async_inv_def handle_ok_def)
        (force simp: async_inv_def handle_ok_def)
  next
    case False
    with that h ok show ?thesis
      by (auto simp: ios_command_set_callback_def Let_def async_inv_def handle_ok_def)
  qed
  show "as_thread s \<noteq> TakeReference \<Longrightarrow> ios_command_release s = Some s' \<Longrightarrow> async_inv s'"
    using ok h assms(2) by (cases "as_thread s") (auto simp: ios_command_release_def async_inv_def handle_ok_def Let_def split: if_splits)
qed

lemma step_preserves: "async_step run s s' \<Longrightarrow> async_inv s \<Longrightarrow> async_inv s'"
proof (induction rule: async_step.induct)
  case (Thread now s s')
  then show ?case by (blast intro: thread_preserves)
next
  case (Kill s h kill_session)
  then show ?case by (blast intro: client_preserves(1))
next
  case (SetCallback s callback user_data s')
  then show ?case by (blast intro: client_preserves(2))
next
  case (Wait s now r s')
  then show ?case by (blast intro: wait_preserves)
next
  case (Spurious s)
  then show ?case by (auto simp: async_inv_def handle_ok_def split: option.splits)
next
  case (ReleaseHandle s s')
  then show ?case by (blast intro: client_preserves(3))
qed

lemma reach_inv: "async_reach run s s' \<Longrightarrow> async_inv s \<Longrightarrow> async_inv s'"
  by (induction rule: async_reach.induct) (auto intro: step_preserves)

lemma start_inv: "ios_system_async self ctx now memory created command options = Some s \<Longrightarrow> async_inv s"
  by (auto simp: ios_system_async_def async_inv_def handle_ok_def new_handle_def Let_def split: option.splits if_splits)


section \<open>Properties\<close>

text \<open>
  C23: the handle is freed once, after its last use. Whatever the client does, as long as it releases the handle only after the
  thread has taken its reference: the thread never touches a freed handle, the client never does while it holds it, the handle is
  freed exactly when both are through with it, and the callback is called at most once.
\<close>

theorem async_handle_safe:
  assumes "ios_system_async self ctx start memory created command options = Some s" and "async_reach run s t"
  shows "(as_thread t \<noteq> Done \<longrightarrow> (\<exists>u. command_thread_func now run t = Some u)) \<and>
    (as_client t \<noteq> Gone \<longrightarrow> as_handle t \<noteq> None) \<and>
    (as_handle t = None \<longleftrightarrow> as_client t = Gone \<and> as_thread t = Done) \<and> length (as_calls t) \<le> 1"
proof -
  have inv: "async_inv t" by (rule reach_inv [OF assms(2) start_inv [OF assms(1)]])
  show ?thesis
  proof (cases "as_handle t")
    case None
    with inv show ?thesis by (simp add: async_inv_def)
  next
    case (Some h)
    have "\<exists>u. command_thread_func now run t = Some u" if "as_thread t \<noteq> Done"
      using Some that by (cases "as_thread t") (auto simp: command_thread_func.simps split: prod.splits)
    with inv Some show ?thesis by (auto simp: async_inv_def handle_ok_def)
  qed
qed

fun thread_steps :: "nat \<Rightarrow> timeval \<Rightarrow> (string \<Rightarrow> int) \<Rightarrow> async_state \<Rightarrow> async_state option" where
  "thread_steps 0 now run s = Some s"
| "thread_steps (Suc n) now run s =
     (case command_thread_func now run s of None \<Rightarrow> None | Some s' \<Rightarrow> thread_steps n now run s')"

lemma thread_steps_Cons:
  "command_thread_func now run s = Some s' \<Longrightarrow> thread_steps (Suc n) now run s = thread_steps n now run s'"
  by simp

definition after_run :: "command_handle \<Rightarrow> int \<Rightarrow> command_handle" where
  "after_run h r = h\<lparr>ch_ref_count := 1, ch_exit_code := r, ch_status := (if r = 0 then IOS_CMD_COMPLETED else IOS_CMD_FAILED),
     ch_callback_invoked := (ch_callback h \<noteq> None)\<rparr>"

text \<open>
  An undisturbed command without timeout: the thread goes through all its stages, the status and the exit code tell the
  result, the callback is called with it once, and a session made for the command is closed.
\<close>

lemma undisturbed_command:
  assumes "ios_system_async self ctx start memory created (Some command) options = Some s"
    and "h = new_handle self ctx start command options" and "ch_timeout_ms h < 0" and "0 < self"
  shows "\<exists>n t. thread_steps n now run s = Some t \<and> as_thread t = Done \<and> as_client t = Holding \<and>
    as_handle t = Some (after_run h (run command)) \<and>
    as_calls t = (case ch_callback h of None \<Rightarrow> [] | Some cb \<Rightarrow> [(Some cb, run command, ch_callback_data h)]) \<and>
    as_closed t = (if ch_owns_session h then [self] else [])"
proof -
  define r where "r = run command"
  have s: "s = \<lparr>as_handle = Some h, as_thread = TakeReference, as_client = Holding, as_session = None, as_streams = None, as_runs = [],
      as_calls = [], as_closed = []\<rparr>"
    using assms(1,2) by (simp add: ios_system_async_def split: if_splits)
  have h: "ch_ref_count h = 1" "ch_command h = command" "\<not> ch_kill_requested h" "\<not> ch_callback_invoked h"
    "ch_owns_session h \<longrightarrow> ch_session h = self" "ch_session h \<noteq> 0"
    using assms(2,4) by (simp_all add: new_handle_def Let_def)
  have f: "final_status now r (h\<lparr>ch_ref_count := 2, ch_status := IOS_CMD_RUNNING\<rparr>) = (if r = 0 then IOS_CMD_COMPLETED else IOS_CMD_FAILED)"
    using assms(3) h(3) by (simp add: final_status_def check_timeout_def)
  let ?streams = "Some (ch_input h, ch_output h, ch_error h)"
  let ?t = "\<lparr>as_handle = Some (after_run h r), as_thread = Done, as_client = Holding, as_session = Some (ch_session h),
     as_streams = ?streams, as_runs = [(command, Some (ch_session h), ?streams)],
     as_calls = (case ch_callback h of None \<Rightarrow> [] | Some cb \<Rightarrow> [(Some cb, r, ch_callback_data h)]),
     as_closed = (if ch_owns_session h then [self] else [])\<rparr>"
  have "\<exists>n. thread_steps n now run s = Some ?t"
  proof (cases "ch_callback h")
    case None
    then have "thread_steps 9 now run s = Some ?t"
      using h f assms(4)
      by (auto simp: s eval_nat_numeral command_thread_func.simps r_def take_callback_def after_run_def broadcast_done_def)
    then show ?thesis by blast
  next
    case (Some cb)
    then have "thread_steps 10 now run s = Some ?t"
      using h f assms(4)
      by (auto simp: s eval_nat_numeral command_thread_func.simps r_def take_callback_def callback_call_def after_run_def broadcast_done_def)
    then show ?thesis by blast
  qed
  then show ?thesis unfolding r_def [symmetric] by (elim exE) (rule exI, rule exI [of _ ?t], simp)
qed

text \<open>How far the thread has come.\<close>

fun stage_number :: "thread_stage \<Rightarrow> nat" where
  "stage_number TakeReference = 0"
| "stage_number MarkRunning = 1"
| "stage_number SwitchSession = 2"
| "stage_number SetUp = 3"
| "stage_number Execute = 4"
| "stage_number (Finish r) = 5"
| "stage_number (InvokeCallback r) = 6"
| "stage_number (CallBack r) = 7"
| "stage_number CloseSession = 8"
| "stage_number Release = 9"
| "stage_number Done = 10"

fun stage_result :: "thread_stage \<Rightarrow> int option" where
  "stage_result (Finish r) = Some r"
| "stage_result (InvokeCallback r) = Some r"
| "stage_result (CallBack r) = Some r"
| "stage_result _ = None"

lemma ended_number: "ended t \<longleftrightarrow> 6 \<le> stage_number t"
  by (cases t) simp_all

lemma thread_goes_on:
  assumes "as_handle s = Some h" and "as_thread s \<noteq> Done"
  shows "\<exists>s'. command_thread_func now run s = Some s' \<and> stage_number (as_thread s) < stage_number (as_thread s')"
  using assms by (cases "as_thread s") (auto simp: command_thread_func.simps broadcast_done_def split: prod.splits)

lemma thread_finishes:
  assumes "async_inv s"
  shows "\<exists>n s'. thread_steps n now run s = Some s' \<and> as_thread s' = Done"
  using assms
proof (induction "10 - stage_number (as_thread s)" arbitrary: s rule: less_induct)
  case less
  show ?case
  proof (cases "as_thread s = Done")
    case True
    then show ?thesis by (intro exI [of _ 0]) simp
  next
    case False
    then obtain h where "as_handle s = Some h" using less.prems by (auto simp: async_inv_def split: option.splits)
    from thread_goes_on [OF this False, of now run] obtain s' where
      s': "command_thread_func now run s = Some s'" "stage_number (as_thread s) < stage_number (as_thread s')" by blast
    have "stage_number (as_thread s') \<le> 10" by (cases "as_thread s'") simp_all
    with s'(2) less.hyps [of s'] thread_preserves [OF less.prems s'(1)]
    obtain n u where "thread_steps n now run s' = Some u" "as_thread u = Done" by (metis diff_less_mono2 less_le_trans)
    with s'(1) show ?thesis by (intro exI [of _ "Suc n"]) simp
  qed
qed

text \<open>What the thread has done at each stage, for the handle \<open>h0\<close> of the start: session, streams, the run, the session closed.\<close>

definition same_command :: "command_handle \<Rightarrow> command_handle \<Rightarrow> bool" where
  "same_command h0 h \<longleftrightarrow> ch_command h = ch_command h0 \<and> ch_session h = ch_session h0 \<and> ch_owns_session h = ch_owns_session h0 \<and>
     ch_input h = ch_input h0 \<and> ch_output h = ch_output h0 \<and> ch_error h = ch_error h0"

definition streams_of :: "command_handle \<Rightarrow> streams" where
  "streams_of h = (ch_input h, ch_output h, ch_error h)"

definition run_inv :: "(string \<Rightarrow> int) \<Rightarrow> command_handle \<Rightarrow> async_state \<Rightarrow> bool" where
  "run_inv run h0 s \<longleftrightarrow> (let n = stage_number (as_thread s) in
     (3 \<le> n \<longrightarrow> as_session s = Some (ch_session h0)) \<and> (4 \<le> n \<longrightarrow> as_streams s = Some (streams_of h0)) \<and>
     as_runs s = (if 5 \<le> n then [(ch_command h0, Some (ch_session h0), Some (streams_of h0))] else []) \<and>
     as_closed s = (if 9 \<le> n \<and> ch_owns_session h0 then [ch_session h0] else []) \<and>
     (\<forall>r. stage_result (as_thread s) = Some r \<longrightarrow> r = run (ch_command h0)) \<and>
     (case as_handle s of None \<Rightarrow> True
      | Some h \<Rightarrow> same_command h0 h \<and> (6 \<le> n \<longrightarrow> ch_exit_code h = run (ch_command h0))))"

lemma same_command_simps [simp]:
  "same_command h0 (h\<lparr>ch_ref_count := n\<rparr>) = same_command h0 h" "same_command h0 (h\<lparr>ch_kill_requested := b\<rparr>) = same_command h0 h"
  "same_command h0 (h\<lparr>ch_status := st\<rparr>) = same_command h0 h" "same_command h0 (h\<lparr>ch_callback_invoked := b\<rparr>) = same_command h0 h"
  "same_command h0 (h\<lparr>ch_callback := cb, ch_callback_data := d\<rparr>) = same_command h0 h"
  "same_command h0 (h\<lparr>ch_callback := cb, ch_callback_data := d, ch_callback_invoked := b\<rparr>) = same_command h0 h"
  "same_command h0 (h\<lparr>ch_exit_code := r\<rparr>) = same_command h0 h" "same_command h0 (h\<lparr>ch_exit_code := r, ch_status := st\<rparr>) = same_command h0 h"
  by (simp_all add: same_command_def)

lemma thread_run_inv:
  assumes "run_inv run h0 s" and "ch_session h0 \<noteq> 0" and "command_thread_func now run s = Some s'"
  shows "run_inv run h0 s'"
proof (cases "as_handle s")
  case None
  with assms(3) show ?thesis by (simp add: command_thread_func.simps)
next
  case (Some h)
  have same: "same_command h0 h" using assms(1) Some by (simp add: run_inv_def Let_def)
  note step = assms(3) [unfolded command_thread_func.simps Some option.case]
  show ?thesis
  proof (cases "as_thread s")
    case SwitchSession
    with step assms(1,2) Some same show ?thesis by (auto simp: run_inv_def same_command_def [of h0 h])
  next
    case SetUp
    with step assms(1) Some same show ?thesis by (auto simp: run_inv_def streams_of_def same_command_def [of h0 h])
  next
    case Execute
    with step assms(1) Some same show ?thesis by (auto simp: run_inv_def same_command_def [of h0 h])
  next
    case (Finish r)
    with step assms(1) Some same show ?thesis by (auto simp: run_inv_def broadcast_done_def)
  next
    case (InvokeCallback r)
    with step assms(1) Some same show ?thesis by (auto simp: run_inv_def take_callback_def split: if_splits)
  next
    case CloseSession
    with step assms(1,2) Some same show ?thesis by (auto simp: run_inv_def same_command_def [of h0 h])
  qed (use step assms(1) Some same in \<open>auto simp: run_inv_def split: if_splits\<close>)
qed

text \<open>What a client does concerns neither the command nor what the thread has done.\<close>

definition client_frame :: "command_handle \<Rightarrow> async_state \<Rightarrow> async_state \<Rightarrow> bool" where
  "client_frame h0 s s' \<longleftrightarrow> as_thread s' = as_thread s \<and> as_session s' = as_session s \<and> as_streams s' = as_streams s \<and>
     as_runs s' = as_runs s \<and> as_closed s' = as_closed s \<and>
     (case (as_handle s, as_handle s') of
        (Some h, Some h') \<Rightarrow> same_command h0 h' = same_command h0 h \<and> ch_exit_code h' = ch_exit_code h
      | (None, Some h') \<Rightarrow> False | _ \<Rightarrow> True)"

lemma client_frame_run_inv: "run_inv run h0 s \<Longrightarrow> client_frame h0 s s' \<Longrightarrow> run_inv run h0 s'"
  by (cases "as_handle s"; cases "as_handle s'") (simp_all add: run_inv_def client_frame_def Let_def)

lemma client_steps_frame:
  "as_handle s = Some h \<Longrightarrow> client_frame h0 s (s\<lparr>as_handle := snd (ios_command_kill k (Some h))\<rparr>)"
  "ios_command_set_callback cb d s = Some s' \<Longrightarrow> client_frame h0 s s'"
  "wait_pass now s = Some (r, s') \<Longrightarrow> client_frame h0 s s'"
  "ios_command_release s = Some s' \<Longrightarrow> client_frame h0 s s'"
  by (auto simp: client_frame_def ios_command_kill_def ios_command_set_callback_def take_callback_def wait_pass_def broadcast_done_def
      ios_command_release_def Let_def split: option.splits if_splits)

lemma step_run_inv: "async_step run s s' \<Longrightarrow> run_inv run h0 s \<Longrightarrow> ch_session h0 \<noteq> 0 \<Longrightarrow> run_inv run h0 s'"
proof (induction rule: async_step.induct)
  case (Thread now s s')
  then show ?case by (blast intro: thread_run_inv)
next
  case (Spurious s)
  then show ?case by (simp add: run_inv_def)
qed (blast intro: client_frame_run_inv client_steps_frame)+

lemma reach_run_inv: "async_reach run s t \<Longrightarrow> run_inv run h0 s \<Longrightarrow> ch_session h0 \<noteq> 0 \<Longrightarrow> run_inv run h0 t"
  by (induction rule: async_reach.induct) (auto intro: step_run_inv)

text \<open>
  C29: a command that was started completes and its client is woken. Whatever the client has done so far (waiting, with or
  without spurious wake-ups, killing, setting callbacks, releasing the handle after the thread has taken its reference), the thread
  can go through its remaining stages to the end. Once it has stored the status, the command has been run exactly once, in the session and on
  the streams asked for; a client that slept in \<^verbatim>\<open>ios_command_wait\<close> has been woken, and the next pass of its loop, as a new wait or a poll, returns
  the exit code of the command. At the end, a session made for the command is closed, and no other.
\<close>

theorem async_command_completes:
  assumes "ios_system_async self ctx start memory created (Some command) options = Some s"
    and "h = new_handle self ctx start command options" and "0 < self" and "async_reach run s t"
  shows "(\<exists>n u. thread_steps n now run t = Some u \<and> as_thread u = Done) \<and>
    (ended (as_thread t) \<longrightarrow>
       as_runs t = [(command, Some (ch_session h), Some (streams_of h))] \<and> as_client t \<noteq> Sleeping \<and>
       (as_client t \<noteq> Gone \<longrightarrow>
          (\<exists>u. wait_pass later t = Some (Some (run command), u) \<and> as_client u = Holding) \<and>
          ios_command_try_wait (as_handle t) = Some (run command))) \<and>
    (as_thread t = Done \<longrightarrow> as_closed t = (if ch_owns_session h then [self] else []))"
proof -
  have s: "s = \<lparr>as_handle = Some h, as_thread = TakeReference, as_client = Holding, as_session = None, as_streams = None, as_runs = [],
      as_calls = [], as_closed = []\<rparr>"
    using assms(1,2) by (simp add: ios_system_async_def split: if_splits)
  have h: "ch_command h = command" "ch_session h \<noteq> 0" "ch_owns_session h \<longrightarrow> ch_session h = self"
    using assms(2,3) by (simp_all add: new_handle_def Let_def)
  have inv: "async_inv t" by (rule reach_inv [OF assms(4) start_inv [OF assms(1)]])
  have "run_inv run h s" by (simp add: run_inv_def s same_command_def)
  then have run: "run_inv run h t" using reach_run_inv [OF assms(4)] h(2) by blast
  show ?thesis
  proof (intro conjI impI)
    show "\<exists>n u. thread_steps n now run t = Some u \<and> as_thread u = Done" by (rule thread_finishes [OF inv])
    assume "as_thread t = Done"
    with run h(3) show "as_closed t = (if ch_owns_session h then [self] else [])" by (auto simp: run_inv_def)
  next
    assume e: "ended (as_thread t)"
    with run h(1) show "as_runs t = [(command, Some (ch_session h), Some (streams_of h))]" by (simp add: run_inv_def ended_number Let_def)
    show "as_client t \<noteq> Sleeping" using inv e by (auto simp: async_inv_def handle_ok_def split: option.splits)
    assume "as_client t \<noteq> Gone"
    then obtain h' where h': "as_handle t = Some h'" using inv by (auto simp: async_inv_def split: option.splits)
    have "\<not> unfinished h'" using inv e h' by (simp add: async_inv_def handle_ok_def)
    moreover have "ch_exit_code h' = run command" using run e h' h(1) by (simp add: run_inv_def ended_number Let_def)
    ultimately show "\<exists>u. wait_pass later t = Some (Some (run command), u) \<and> as_client u = Holding"
      "ios_command_try_wait (as_handle t) = Some (run command)"
      using h' by (simp_all add: wait_pass_def ios_command_try_wait_def)
  qed
qed

text \<open>
  A client that takes the callback away between the critical section of \<^verbatim>\<open>invoke_callback_if_set\<close> and the call makes the thread call through a
  null pointer.
\<close>

lemma null_callback_called:
  assumes "as_handle s = Some h" and "as_thread s = CallBack r" and "unfinished h \<or> ch_callback_invoked h"
  shows "\<exists>s1 s2 d. ios_command_set_callback None 0 s = Some s1 \<and> command_thread_func now run s1 = Some s2 \<and>
    as_calls s2 = as_calls s @ [(None, r, d)]"
  using assms by (auto simp: ios_command_set_callback_def command_thread_func.simps callback_call_def)

text \<open>
  A client that releases the handle at once gives up the only reference: it waits for the end of the command, wakes up when
  the status is stored, and frees the handle that the thread goes on to use.
\<close>

lemma early_release_frees_used_handle:
  assumes "ios_system_async self ctx start memory created (Some command) options = Some s"
  shows "\<exists>s1 s2 s3. ios_command_release s = Some s1 \<and> thread_steps 6 now run s1 = Some s2 \<and> release_after_wait s2 = Some s3 \<and>
    as_thread s3 = InvokeCallback (run command) \<and> command_thread_func now run s3 = None"
proof -
  define h where "h = new_handle self ctx start command options"
  have s: "s = \<lparr>as_handle = Some h, as_thread = TakeReference, as_client = Holding, as_session = None, as_streams = None, as_runs = [],
      as_calls = [], as_closed = []\<rparr>"
    using assms by (simp add: ios_system_async_def h_def split: if_splits)
  have h: "ch_ref_count h = 1" "ch_command h = command" "unfinished h" by (simp_all add: h_def new_handle_def Let_def unfinished_def)
  let ?h1 = "h\<lparr>ch_ref_count := 0\<rparr>" let ?r = "run command"
  let ?h2 = "?h1\<lparr>ch_ref_count := 1, ch_status := final_status now ?r (?h1\<lparr>ch_ref_count := 1, ch_status := IOS_CMD_RUNNING\<rparr>), ch_exit_code := ?r\<rparr>"
  have f: "\<not> unfinished ?h2" by (simp add: unfinished_def final_status_def)
  have 1: "ios_command_release s = Some (s\<lparr>as_handle := Some ?h1, as_client := AwaitingEnd\<rparr>)"
    using h by (simp add: ios_command_release_def s Let_def)
  let ?s2 = "s\<lparr>as_handle := Some ?h2, as_client := AwaitingEnd, as_thread := InvokeCallback ?r,
    as_session := (if ch_session h \<noteq> 0 then Some (ch_session h) else None), as_streams := Some (ch_input h, ch_output h, ch_error h),
    as_runs := [(command, if ch_session h \<noteq> 0 then Some (ch_session h) else None, Some (ch_input h, ch_output h, ch_error h))]\<rparr>"
  have 2: "thread_steps 6 now run (s\<lparr>as_handle := Some ?h1, as_client := AwaitingEnd\<rparr>) = Some ?s2"
    using h by (simp add: s eval_nat_numeral command_thread_func.simps broadcast_done_def)
  have 3: "release_after_wait ?s2 = Some (?s2\<lparr>as_handle := None, as_client := Gone\<rparr>)"
    using f by (simp add: release_after_wait_def)
  from 1 2 3 show ?thesis by (auto simp: command_thread_func.simps)
qed

text \<open>
  A timeout that has passed when \<^verbatim>\<open>ios_system_timeout\<close> begins to wait is stored as the status, which makes \<^verbatim>\<open>ios_command_kill\<close> do nothing and the
  release free the handle of a thread that has not started.
\<close>

lemma timeout_frees_handle_of_thread:
  assumes "timeout_ms \<ge> 0" and "(tvl_sec now - tvl_sec start) * 1000 + c_div (tvl_usec now - tvl_usec start) 1000 \<ge> timeout_ms"
  shows "\<exists>s. ios_system_timeout self ctx start True True now ws kill_session (Some command) options timeout_ms = Returns (- 1) (Some s) \<and>
    as_thread s = TakeReference \<and> command_thread_func later run s = None"
  using assms
  by (simp add: ios_system_timeout_def wait_and_release_def ios_system_async_def command_wait_loop.simps wait_pass_def broadcast_done_def new_handle_def unfinished_def
      check_timeout_def Let_def ios_command_get_status_def ios_command_kill_def ios_command_release_def command_thread_func.simps)

text \<open>A status that has become final does not stay so: the thread that starts late overwrites it.\<close>

lemma timeout_status_overwritten:
  "as_handle s = Some h \<Longrightarrow> ch_status h = IOS_CMD_TIMEOUT \<Longrightarrow> as_thread s = MarkRunning \<Longrightarrow>
   \<exists>s' h'. command_thread_func now run s = Some s' \<and> as_handle s' = Some h' \<and> ch_status h' = IOS_CMD_RUNNING"
  by (simp add: command_thread_func.simps)

section \<open>A concrete command\<close>

definition demo_options :: async_options where
  "demo_options = ios_async_default_options\<lparr>ao_callback := Some 4, ao_callback_data := 9\<rparr>"

definition demo_start :: async_state where
  "demo_start = the (ios_system_async 100 0 \<lparr>tvl_sec = 0, tvl_usec = 0\<rparr> True True (Some ''ls'') (Some demo_options))"

lemma demo_started: "ios_system_async 100 0 \<lparr>tvl_sec = 0, tvl_usec = 0\<rparr> True True (Some ''ls'') (Some demo_options) = Some demo_start"
  by (simp add: demo_start_def ios_system_async_def)

theorem async_handle_safe_witness:
  "\<exists>t u. async_reach (\<lambda>_. 0) demo_start t \<and> as_thread t = MarkRunning \<and>
    command_thread_func \<lparr>tvl_sec = 0, tvl_usec = 0\<rparr> (\<lambda>_. 0) t = Some u"
proof -
  let ?now = "\<lparr>tvl_sec = 0, tvl_usec = 0\<rparr> :: timeval"
  obtain t where t: "command_thread_func ?now (\<lambda>_. 0) demo_start = Some t" "as_thread t = MarkRunning"
    by (auto simp: demo_start_def ios_system_async_def command_thread_func.simps)
  then have "async_reach (\<lambda>_. 0) demo_start t" by (blast intro: async_reach.intros async_step.Thread)
  with t(2) async_handle_safe [OF demo_started this, of ?now] show ?thesis by auto
qed

lemma thread_steps_reach: "thread_steps n now run t = Some u \<Longrightarrow> async_reach run s t \<Longrightarrow> async_reach run s u"
proof (induction n arbitrary: t)
  case (Suc n)
  then obtain t' where t': "command_thread_func now run t = Some t'" "thread_steps n now run t' = Some u"
    by (auto split: option.splits)
  have "async_reach run s t'" by (rule async_reach.reach_step [OF Suc.prems(2) async_step.Thread [OF t'(1)]])
  with Suc.IH t'(2) show ?case by blast
qed simp

text \<open>The client begins to wait before the thread has started and is woken when the command has run.\<close>

theorem async_command_completes_witness:
  "\<exists>t u. async_reach (\<lambda>_. 3) demo_start t \<and> as_client t = Woken \<and> as_runs t = [(''ls'', Some 100, Some (None, None, None))] \<and>
    wait_pass \<lparr>tvl_sec = 9, tvl_usec = 0\<rparr> t = Some (Some 3, u)"
proof -
  let ?now = "\<lparr>tvl_sec = 0, tvl_usec = 0\<rparr> :: timeval"
  define h where "h = new_handle 100 0 ?now ''ls'' (Some demo_options)"
  have h: "ch_session h = 100" "streams_of h = (None, None, None)"
    by (simp_all add: h_def new_handle_def demo_options_def ios_async_default_options_def Let_def streams_of_def)
  let ?s = "demo_start\<lparr>as_client := Sleeping\<rparr>"
  have "wait_pass ?now demo_start = Some (None, ?s)"
    by (simp add: wait_pass_def demo_start_def ios_system_async_def new_handle_def unfinished_def demo_options_def
        ios_async_default_options_def Let_def)
  then have w: "async_reach (\<lambda>_. 3) demo_start ?s"
    by (rule async_reach.reach_step [OF async_reach.reach_start async_step.Wait, rotated]) (simp add: demo_start_def ios_system_async_def)
  obtain t where t: "thread_steps 6 ?now (\<lambda>_. 3) ?s = Some t" "as_thread t = InvokeCallback 3" "as_client t = Woken"
    by (simp add: eval_nat_numeral command_thread_func.simps demo_start_def ios_system_async_def broadcast_done_def)
  have r: "async_reach (\<lambda>_. 3) demo_start t" by (rule thread_steps_reach [OF t(1) w])
  from async_command_completes [OF demo_started h_def _ r, of ?now "\<lparr>tvl_sec = 9, tvl_usec = 0\<rparr>"] r t(2,3) h show ?thesis by auto
qed

end
