(* ===== verification/Shell_Quoting.thy ===== *)
theory Shell_Quoting
  imports Prelude
begin

text \<open>
  The text side of \<^verbatim>\<open>ios_shell_parser.m\<close>: \<^verbatim>\<open>strstrquoted\<close> of \<^verbatim>\<open>ios_system.m\<close>, the search for a marker
  outside quotes on which all the parsing rests, the scanners for the end of a substitution, and the
  functions that cut a command line at \<^verbatim>\<open>;\<close>, \<^verbatim>\<open>&&\<close> and \<^verbatim>\<open>||\<close>.

  A C string is the list of its characters before the terminating zero, a pointer into it the offset, and
  \<^verbatim>\<open>NULL\<close> the value \<open>None\<close>. The copies the functions cut in place (\<^verbatim>\<open>*semicolon = 0\<close>) are the two parts of the
  list. Strings are shorter than \<open>2 ^ 31\<close>, so that the \<^verbatim>\<open>int\<close> counters do not overflow, and
  allocations succeed.
\<close>

section \<open>Searching outside quotes\<close>

definition dquote :: char where "dquote = CHR 0x22"
definition squote :: char where "squote = CHR 0x27"
definition backslash :: char where "backslash = CHR 0x5C"
definition backtick :: char where "backtick = CHR 0x60"

lemmas char_defs = dquote_def squote_def backslash_def backtick_def

text \<open>
  The loop of \<^verbatim>\<open>strstrquoted\<close>: \<open>q\<close> is \<^verbatim>\<open>quotechar\<close> (\<open>None\<close> for 0), \<open>e\<close> is \<^verbatim>\<open>esclen\<close>, \<open>m\<close> is
  \<^verbatim>\<open>matchlen\<close> and \<open>i\<close> the index of the next character.
\<close>

fun scan_quoted :: "string \<Rightarrow> char option \<Rightarrow> nat \<Rightarrow> nat \<Rightarrow> nat \<Rightarrow> string \<Rightarrow> nat option" where
  "scan_quoted str2 q e m i [] = None"
| "scan_quoted str2 (Some c) e m i (ch # r) =
     (if ch = backslash then scan_quoted str2 (Some c) (e + 1) m (i + 1) r
      else if ch = c then
        if e mod 2 = 1 then scan_quoted str2 (Some c) 0 m (i + 1) r
        else scan_quoted str2 None 0 m (i + 1) r
      else scan_quoted str2 (Some c) 0 m (i + 1) r)"
| "scan_quoted str2 None e m i (ch # r) =
     (if ch = dquote \<or> ch = squote then
        scan_quoted str2 (if e mod 2 = 0 then Some ch else None) 0 0 (i + 1) r
      else
        let e' = (if ch = backslash then e + 1 else e) in
        if m < length str2 \<and> str2 ! m = ch then
          if m + 1 = length str2 then Some (i + 1 - (m + 1))
          else scan_quoted str2 None e' (m + 1) (i + 1) r
        else scan_quoted str2 None e' 0 (i + 1) r)"

definition strstrquoted :: "string option \<Rightarrow> string option \<Rightarrow> nat option" where
  "strstrquoted str1 str2 =
     (case (str1, str2) of
        (Some s1, Some s2) \<Rightarrow>
          if length s1 < length s2 then None
          else if s1 = s2 then Some 0
          else scan_quoted s2 None 0 0 0 s1
      | _ \<Rightarrow> None)"

section \<open>Cutting and trimming\<close>

definition is_blank :: "char \<Rightarrow> bool" where
  "is_blank c \<longleftrightarrow> c = CHR '' '' \<or> c = CHR 0x09"

text \<open>The loop on \<^verbatim>\<open>end\<close>, an offset that stops at the start of the string.\<close>

fun trim_end :: "string \<Rightarrow> nat \<Rightarrow> string" where
  "trim_end str 0 = str"
| "trim_end str (Suc e) = (if is_blank (str ! Suc e) then trim_end (take (Suc e) str) e else str)"

definition trim_whitespace :: "string \<Rightarrow> string" where
  "trim_whitespace s =
     (let str = dropWhile is_blank s in if str = [] then str else trim_end str (length str - 1))"

text \<open>
  The closing parenthesis of a \<^verbatim>\<open>$(\<close> and the next backtick, as offsets; \<open>sq\<close> and \<open>dq\<close> are
  \<^verbatim>\<open>in_single_quote\<close> and \<^verbatim>\<open>in_double_quote\<close>.
\<close>

fun paren_loop :: "nat \<Rightarrow> bool \<Rightarrow> bool \<Rightarrow> nat \<Rightarrow> string \<Rightarrow> nat option" where
  "paren_loop depth sq dq i [] = None"
| "paren_loop depth sq dq i (ch # r) =
     (if \<not> depth > 0 then None
      else if \<not> sq \<and> ch = dquote then paren_loop depth sq (\<not> dq) (i + 1) r
      else if \<not> dq \<and> ch = squote then paren_loop depth (\<not> sq) dq (i + 1) r
      else if \<not> sq \<and> \<not> dq then
        if ch = CHR ''('' then paren_loop (depth + 1) sq dq (i + 1) r
        else if ch = CHR '')'' then
          if depth - 1 = 0 then Some i else paren_loop (depth - 1) sq dq (i + 1) r
        else paren_loop depth sq dq (i + 1) r
      else paren_loop depth sq dq (i + 1) r)"

definition find_matching_paren :: "string \<Rightarrow> nat option" where
  "find_matching_paren start = paren_loop 1 False False 0 start"

fun backtick_loop :: "bool \<Rightarrow> bool \<Rightarrow> nat \<Rightarrow> string \<Rightarrow> nat option" where
  "backtick_loop sq dq i [] = None"
| "backtick_loop sq dq i (ch # r) =
     (if \<not> sq \<and> ch = dquote then backtick_loop sq (\<not> dq) (i + 1) r
      else if \<not> dq \<and> ch = squote then backtick_loop (\<not> sq) dq (i + 1) r
      else if \<not> sq \<and> \<not> dq \<and> ch = backtick then Some i
      else backtick_loop sq dq (i + 1) r)"

definition find_backtick :: "string \<Rightarrow> nat option" where
  "find_backtick start = backtick_loop False False 0 start"

text \<open>\<open>range_start\<close> and \<open>range_end\<close> are offsets into \<open>original\<close>.\<close>

definition string_replace_range ::
  "string option \<Rightarrow> nat option \<Rightarrow> nat option \<Rightarrow> string option \<Rightarrow> string option" where
  "string_replace_range original range_start range_end replacement =
     (case (original, range_start, range_end) of
        (Some s, Some a, Some b) \<Rightarrow>
          Some (take a s @ (case replacement of None \<Rightarrow> [] | Some r \<Rightarrow> r) @ drop b s)
      | _ \<Rightarrow> original)"

section \<open>Segments and nodes\<close>

lemma scan_quoted_bound: "scan_quoted pat q e m i r = Some p \<Longrightarrow> p + 1 \<le> i + length r"
  by (induction pat q e m i r rule: scan_quoted.induct) (fastforce simp: Let_def split: if_splits)+

lemma strstrquoted_bound: "strstrquoted (Some s) (Some pat) = Some p \<Longrightarrow> pat \<noteq> [] \<Longrightarrow> p < length s"
  by (auto simp: strstrquoted_def split: if_splits dest!: scan_quoted_bound)

text \<open>The number of segments allocated for, and the segments stored.\<close>

function count_semicolons :: "string \<Rightarrow> nat" where
  "count_semicolons s =
     (case strstrquoted (Some s) (Some '';'') of
        None \<Rightarrow> 1
      | Some p \<Rightarrow> 1 + count_semicolons (drop (p + 1) s))"
  by pat_completeness auto

termination count_semicolons
  by (relation "measure length") (auto dest: strstrquoted_bound)

lemmas [simp del] = count_semicolons.simps

function split_semicolons :: "string \<Rightarrow> string list" where
  "split_semicolons s =
     (case strstrquoted (Some s) (Some '';'') of
        None \<Rightarrow> (let trimmed = trim_whitespace s in if length trimmed > 0 then [trimmed] else [])
      | Some p \<Rightarrow>
          (let trimmed = trim_whitespace (take p s) in if length trimmed > 0 then [trimmed] else [])
            @ split_semicolons (drop (p + 1) s))"
  by pat_completeness auto

termination split_semicolons
  by (relation "measure length") (auto dest: strstrquoted_bound)

lemmas [simp del] = split_semicolons.simps

text \<open>\<open>None\<close> is the null result; \<^verbatim>\<open>*count\<close> is the length of the list.\<close>

definition parse_semicolons :: "string option \<Rightarrow> string list option" where
  "parse_semicolons input =
     (case input of
        None \<Rightarrow> None
      | Some s \<Rightarrow> if length s = 0 then None else Some (split_semicolons s))"

datatype ios_shell_operator = IOS_OP_NONE | IOS_OP_SEMICOLON | IOS_OP_AND | IOS_OP_OR

text \<open>The list of nodes linked by \<^verbatim>\<open>next\<close>.\<close>

record ios_cmd_node =
  cn_command :: string
  cn_next_op :: ios_shell_operator

text \<open>The operator that comes first: its position and kind.\<close>

definition next_operator :: "string \<Rightarrow> (nat \<times> ios_shell_operator) option" where
  "next_operator s =
     (case (strstrquoted (Some s) (Some ''&&''), strstrquoted (Some s) (Some ''||'')) of
        (Some a, None) \<Rightarrow> Some (a, IOS_OP_AND)
      | (Some a, Some b) \<Rightarrow> if a < b then Some (a, IOS_OP_AND) else Some (b, IOS_OP_OR)
      | (None, Some b) \<Rightarrow> Some (b, IOS_OP_OR)
      | (None, None) \<Rightarrow> None)"

definition segment_node :: "string \<Rightarrow> ios_shell_operator \<Rightarrow> ios_cmd_node list" where
  "segment_node seg op =
     (let trimmed = trim_whitespace seg
      in if length trimmed > 0 then [\<lparr>cn_command = trimmed, cn_next_op = op\<rparr>] else [])"

function split_conditionals :: "string \<Rightarrow> ios_cmd_node list" where
  "split_conditionals s =
     (case next_operator s of
        None \<Rightarrow> segment_node s IOS_OP_NONE
      | Some (p, op) \<Rightarrow> segment_node (take p s) op @ split_conditionals (drop (p + 2) s))"
  by pat_completeness auto

lemma next_operator_bound: "next_operator s = Some (p, op) \<Longrightarrow> p < length s"
  by (auto simp: next_operator_def split: option.splits if_splits dest: strstrquoted_bound)

termination split_conditionals
  by (relation "measure length") (auto dest: next_operator_bound)

lemmas [simp del] = split_conditionals.simps

text \<open>The null list of nodes is the empty list.\<close>

definition parse_conditionals :: "string option \<Rightarrow> ios_cmd_node list" where
  "parse_conditionals input =
     (case input of None \<Rightarrow> [] | Some s \<Rightarrow> if length s = 0 then [] else split_conditionals s)"

text \<open>What is stored through each of the three pointers that is not null.\<close>

definition ios_check_shell_operators ::
  "string option \<Rightarrow> bool \<Rightarrow> bool \<Rightarrow> bool \<Rightarrow> bool option \<times> bool option \<times> bool option" where
  "ios_check_shell_operators command want_semicolon want_and want_or =
     (if want_semicolon then Some (strstrquoted command (Some '';'') \<noteq> None) else None,
      if want_and then Some (strstrquoted command (Some ''&&'') \<noteq> None) else None,
      if want_or then Some (strstrquoted command (Some ''||'') \<noteq> None) else None)"

section \<open>Quotes\<close>

text \<open>
  The reference: the quoting state after a text, as the pair of the open quote and the
  number of pending backslashes, and the characters that stand outside quotes.
\<close>

fun quote_step :: "char option \<times> nat \<Rightarrow> char \<Rightarrow> char option \<times> nat" where
  "quote_step (Some c, e) ch =
     (if ch = backslash then (Some c, e + 1)
      else if ch = c \<and> even e then (None, 0) else (Some c, 0))"
| "quote_step (None, e) ch =
     (if ch = dquote \<or> ch = squote then (if even e then Some ch else None, 0)
      else (None, if ch = backslash then e + 1 else e))"

definition quote_state :: "string \<Rightarrow> char option \<times> nat" where
  "quote_state s = foldl quote_step (None, 0) s"

definition outside :: "string \<Rightarrow> nat \<Rightarrow> bool" where
  "outside s p \<longleftrightarrow> fst (quote_state (take p s)) = None"

text \<open>The text \<open>pat\<close> at position \<open>p\<close>, all of it outside quotes.\<close>

definition unquoted_at :: "string \<Rightarrow> string \<Rightarrow> nat \<Rightarrow> bool" where
  "unquoted_at s pat p \<longleftrightarrow>
     take (length pat) (drop p s) = pat \<and> (\<forall>j < length pat. outside s (p + j))"

lemma quote_state_simps [simp]:
  "quote_state [] = (None, 0)" "quote_state (s @ [c]) = quote_step (quote_state s) c"
  by (simp_all add: quote_state_def)

lemma outside_append: "p \<le> length a \<Longrightarrow> outside (a @ b) p = outside a p"
  by (simp add: outside_def)

lemma take_snoc: "take (length pre) (pre @ ch # r) = pre" by simp

lemma unquoted_atI:
  assumes "s = a @ pat @ b" and "p = length a" and "\<forall>j < length pat. outside (a @ pat) (p + j)"
  shows "unquoted_at s pat p"
  using assms outside_append [of _ "a @ pat" b] by (simp add: unquoted_at_def)

text \<open>
  Soundness for every marker without quotes: what is found stands outside quotes. The prefix read so
  far ends with the part of the marker that has been matched.
\<close>

lemma scan_sound:
  assumes "dquote \<notin> set pat" "squote \<notin> set pat"
  shows "scan_quoted pat q e m (length pre) r = Some p \<Longrightarrow> quote_state pre = (q, e) \<Longrightarrow>
    (q \<noteq> None \<longrightarrow> m = 0) \<Longrightarrow> m < length pat \<Longrightarrow> pre = a @ take m pat \<Longrightarrow>
    (\<forall>j < m. outside pre (length a + j)) \<Longrightarrow> unquoted_at (pre @ r) pat p"
proof (induction r arbitrary: pre q e m a)
  case Nil
  then show ?case by simp
next
  case (Cons ch r)
  have st: "quote_state (pre @ [ch]) = quote_step (q, e) ch" using Cons.prems(2) by simp
  have restart: "unquoted_at (pre @ ch # r) pat p"
    if "scan_quoted pat q' e' 0 (length (pre @ [ch])) r = Some p" "quote_step (q, e) ch = (q', e')" for q' e'
    using Cons.IH [OF that(1), of "pre @ [ch]"] that(2) st Cons.prems(4) by fastforce
  show ?case
  proof (cases q)
    case (Some c)
    then show ?thesis
      using Cons.prems(1,3) restart by (auto simp: even_iff_mod_2_eq_zero split: if_splits)
  next
    case None
    have o: "outside (pre @ [ch]) (length pre)" using Cons.prems(2) None by (simp add: outside_def)
    show ?thesis
    proof (cases "ch \<noteq> dquote \<and> ch \<noteq> squote \<and> pat ! m = ch")
      case True
      then have t: "pre @ [ch] = a @ take (Suc m) pat"
        using Cons.prems(4,5) by (simp add: take_Suc_conv_app_nth)
      have os: "\<forall>j < Suc m. outside (pre @ [ch]) (length a + j)"
        using Cons.prems(4-6) o outside_append [of "length a + _" pre "[ch]"] by (auto simp: less_Suc_eq)
      show ?thesis
      proof (cases "Suc m = length pat")
        case True
        then have "p = length a" using \<open>ch \<noteq> dquote \<and> _\<close> Cons.prems(1,4,5) None by (auto simp: Let_def)
        with True t os show ?thesis by (intro unquoted_atI [of _ a pat r]) auto
      next
        case False
        let ?e = "if ch = backslash then e + 1 else e"
        have "scan_quoted pat None ?e (Suc m) (length (pre @ [ch])) r = Some p" "quote_state (pre @ [ch]) = (None, ?e)"
          using False \<open>ch \<noteq> dquote \<and> _\<close> Cons.prems(1,4) st None by (auto simp: Let_def)
        then have "unquoted_at ((pre @ [ch]) @ r) pat p"
          using Cons.prems(4) False by (intro Cons.IH [OF _ _ _ _ t os]) auto
        then show ?thesis by simp
      qed
    next
      case False
      with Cons.prems(1) None restart show ?thesis
        by (auto simp: Let_def even_iff_mod_2_eq_zero split: if_splits)
    qed
  qed
qed


text \<open>
  Completeness, for a marker that is one character repeated: the search is a search for a run
  of the unquoted occurrences of the character.
\<close>

fun marks :: "char \<Rightarrow> char option \<times> nat \<Rightarrow> string \<Rightarrow> bool list" where
  "marks c st [] = []"
| "marks c st (ch # r) = (fst st = None \<and> ch = c) # marks c (quote_step st ch) r"

fun find_run :: "nat \<Rightarrow> nat \<Rightarrow> nat \<Rightarrow> bool list \<Rightarrow> nat option" where
  "find_run n m i [] = None"
| "find_run n m i (b # bs) =
     (if b then if m = n then Some (i - m) else find_run n (m + 1) (i + 1) bs
      else find_run n 0 (i + 1) bs)"

lemma scan_is_find_run:
  assumes "c \<noteq> dquote" "c \<noteq> squote"
  shows "(q \<noteq> None \<longrightarrow> m = 0) \<Longrightarrow> m \<le> n \<Longrightarrow>
    scan_quoted (replicate (Suc n) c) q e m i r = find_run n m i (marks c (q, e) r)"
proof (induction r arbitrary: q e m i)
  case Nil
  then show ?case by simp
next
  case (Cons ch r)
  show ?case
  proof (cases q)
    case None
    with assms Cons show ?thesis
      by (auto simp del: replicate.simps simp add: Let_def even_iff_mod_2_eq_zero)
  next
    case (Some d)
    with assms Cons show ?thesis
      by (auto simp del: replicate.simps simp add: even_iff_mod_2_eq_zero)
  qed
qed

definition run_at :: "nat \<Rightarrow> bool list \<Rightarrow> nat \<Rightarrow> bool" where
  "run_at n bs k \<longleftrightarrow> k + n < length bs \<and> (\<forall>j \<le> n. bs ! (k + j))"

lemma run_at_skip:
  assumes "m \<le> n"
  shows "run_at n (replicate m True @ False # bs) k \<longleftrightarrow> m < k \<and> run_at n bs (k - Suc m)"
proof (cases "m < k")
  case True
  then obtain d where d: "k = Suc m + d" by (metis add_Suc less_iff_Suc_add)
  then show ?thesis by (auto simp: run_at_def nth_append)
next
  case False
  with assms have "m - k \<le> n" "\<not> (replicate m True @ False # bs) ! (k + (m - k))" by (auto simp: nth_append)
  with False show ?thesis by (auto simp: run_at_def)
qed

text \<open>The first position that satisfies a predicate, if any.\<close>

definition is_first :: "(nat \<Rightarrow> bool) \<Rightarrow> nat option \<Rightarrow> bool" where
  "is_first P r \<longleftrightarrow> (case r of None \<Rightarrow> \<forall>k. \<not> P k | Some p \<Rightarrow> P p \<and> (\<forall>k < p. \<not> P k))"

lemma find_run_first:
  assumes "m \<le> n" "m \<le> i"
  shows "is_first (\<lambda>k. i - m \<le> k \<and> run_at n (replicate m True @ bs) (k - (i - m))) (find_run n m i bs)"
  using assms
proof (induction bs arbitrary: m i)
  case Nil
  then show ?case by (simp add: is_first_def run_at_def)
next
  case (Cons b bs)
  consider "b" "m = n" | "b" "m < n" | "\<not> b" using Cons.prems by fastforce
  then show ?case
  proof cases
    case 1
    with Cons.prems show ?thesis by (auto simp: is_first_def run_at_def nth_append nth_Cons split: nat.split)
  next
    case 2
    with Cons.IH [of "Suc m" "Suc i"] Cons.prems show ?thesis by (simp add: replicate_app_Cons_same)
  next
    case 3
    then show ?thesis using Cons.IH [of 0 "Suc i"] Cons.prems run_at_skip [of m n bs]
      by (fastforce simp: is_first_def split: option.splits)
  qed
qed


lemma marks_nth:
  "i < length r \<Longrightarrow> marks c (quote_state pre) r ! i \<longleftrightarrow> r ! i = c \<and> outside (pre @ r) (length pre + i)"
proof (induction r arbitrary: pre i)
  case Nil
  then show ?case by simp
next
  case (Cons ch r)
  have "marks c (quote_step (quote_state pre) ch) r = marks c (quote_state (pre @ [ch])) r" by simp
  then show ?case using Cons.IH [of "i - 1" "pre @ [ch]"] Cons.prems by (cases i) (auto simp: outside_def)
qed

lemma length_marks [simp]: "length (marks c st r) = length r"
  by (induction r arbitrary: st) auto

lemma plain_stays_outside:
  "dquote \<notin> set s \<Longrightarrow> squote \<notin> set s \<Longrightarrow> fst st = None \<Longrightarrow> fst (foldl quote_step st s) = None"
proof (induction s arbitrary: st)
  case (Cons c s)
  then show ?case by (cases st) (auto simp del: foldl_Cons simp add: foldl_Cons)
qed simp

lemma plain_outside: "dquote \<notin> set s \<Longrightarrow> squote \<notin> set s \<Longrightarrow> outside s p"
  using plain_stays_outside [of "take p s" "(None, 0)"] by (auto simp: outside_def quote_state_def dest: in_set_takeD)

lemma take_drop_eq_replicate:
  "take n (drop p s) = replicate n c \<longleftrightarrow> n = 0 \<or> p + n \<le> length s \<and> (\<forall>j < n. s ! (p + j) = c)"
  by (cases "p + n \<le> length s") (auto simp: list_eq_iff_nth_eq)

lemma run_at_marks: "run_at n (marks c (None, 0) s) = unquoted_at s (replicate (Suc n) c)"
proof (rule ext)
  fix p
  have "marks c (None, 0) s ! i \<longleftrightarrow> s ! i = c \<and> outside s i" if "i < length s" for i
    using marks_nth [of i s c "[]"] that by simp
  then show "run_at n (marks c (None, 0) s) p \<longleftrightarrow> unquoted_at s (replicate (Suc n) c) p"
    by (auto simp: run_at_def unquoted_at_def take_drop_eq_replicate less_Suc_eq_le simp del: replicate.simps)
qed

lemma strstrquoted_run:
  assumes "c \<noteq> dquote" "c \<noteq> squote" and pat: "pat = replicate (Suc n) c"
  shows "is_first (unquoted_at s pat) (strstrquoted (Some s) (Some pat))"
proof -
  have eq: "is_first (unquoted_at s pat) (scan_quoted pat None 0 0 0 s)"
    using find_run_first [of 0 n 0 "marks c (None, 0) s"] unfolding pat
    by (simp add: scan_is_find_run [OF assms(1,2)] run_at_marks del: replicate_Suc)
  moreover have "unquoted_at s pat 0" if "s = pat"
    using that assms plain_outside [of pat] by (simp add: unquoted_at_def)
  ultimately show ?thesis
    by (cases "length s < length pat") (auto simp: strstrquoted_def is_first_def unquoted_at_def dest: arg_cong [of _ _ length])
qed


lemma strstrquoted_None_iff:
  assumes "c \<noteq> dquote" "c \<noteq> squote" and "pat = replicate (Suc n) c"
  shows "strstrquoted (Some s) (Some pat) = None \<longleftrightarrow> (\<forall>p. \<not> unquoted_at s pat p)"
  using strstrquoted_run [OF assms, of s] by (auto simp: is_first_def split: option.splits)

lemma is_first_unique: "is_first P r \<Longrightarrow> P p \<Longrightarrow> (\<forall>k < p. \<not> P k) \<Longrightarrow> r = Some p"
  by (auto simp: is_first_def split: option.splits) (metis linorder_neqE_nat)

section \<open>Trimming\<close>

definition trimmed :: "string \<Rightarrow> string" where
  "trimmed s = rev (dropWhile is_blank (rev (dropWhile is_blank s)))"

lemma trim_end_eq:
  "str \<noteq> [] \<Longrightarrow> \<not> is_blank (hd str) \<Longrightarrow> trim_end str (length str - 1) = rev (dropWhile is_blank (rev str))"
proof (induction str rule: rev_induct)
  case (snoc c s)
  then show ?case by (cases s) (auto simp: nth_append)
qed simp

lemma trim_whitespace_eq: "trim_whitespace s = trimmed s"
proof (cases "dropWhile is_blank s = []")
  case False
  then show ?thesis
    unfolding trim_whitespace_def trimmed_def Let_def using False trim_end_eq [OF False hd_dropWhile [OF False]] by auto
next
  case True
  show ?thesis by (simp only: trim_whitespace_def trimmed_def Let_def True if_True dropWhile.simps rev.simps simp_thms)
qed

text \<open>Trimming removes blanks at both ends and nothing else.\<close>

lemma trimmed_split:
  "\<exists>a b. s = a @ trimmed s @ b \<and> (\<forall>c \<in> set a \<union> set b. is_blank c) \<and>
    (trimmed s \<noteq> [] \<longrightarrow> \<not> is_blank (hd (trimmed s)) \<and> \<not> is_blank (last (trimmed s)))"
proof -
  let ?t = "dropWhile is_blank s"
  have 1: "s = takeWhile is_blank s @ ?t" by simp
  have "rev ?t = takeWhile is_blank (rev ?t) @ dropWhile is_blank (rev ?t)" by simp
  then have 2: "?t = trimmed s @ rev (takeWhile is_blank (rev ?t))"
    unfolding trimmed_def by (metis rev_append rev_rev_ident)
  have "\<not> is_blank (hd (trimmed s))" if "trimmed s \<noteq> []"
    using 2 that hd_dropWhile [of is_blank s] by (metis append_is_Nil_conv hd_append2)
  moreover have "\<not> is_blank (last (trimmed s))" if "trimmed s \<noteq> []"
    using that hd_dropWhile [of is_blank "rev ?t"] by (simp add: trimmed_def last_rev)
  ultimately show ?thesis using 1 2
    by (intro exI [of _ "takeWhile is_blank s"] exI [of _ "rev (takeWhile is_blank (rev ?t))"])
      (auto dest: set_takeWhileD)
qed


section \<open>Segments\<close>

text \<open>A text without unquoted occurrence of a marker, and one that leaves no quote open.\<close>

definition lacks :: "string \<Rightarrow> string \<Rightarrow> bool" where
  "lacks pat w \<longleftrightarrow> (\<forall>p < length w. \<not> unquoted_at w pat p)"

definition closed :: "string \<Rightarrow> bool" where
  "closed w \<longleftrightarrow> fst (quote_state w) = None"

fun join_with :: "string \<Rightarrow> string list \<Rightarrow> string" where
  "join_with sep [] = []"
| "join_with sep [w] = w"
| "join_with sep (w # ws) = w @ sep @ join_with sep ws"

lemma join_with_Cons: "ws \<noteq> [] \<Longrightarrow> join_with sep (w # ws) = w @ sep @ join_with sep ws"
  by (cases ws) auto

lemma lacks_all: "pat \<noteq> [] \<Longrightarrow> lacks pat w \<Longrightarrow> \<not> unquoted_at w pat p"
  by (cases "p < length w") (auto simp: lacks_def unquoted_at_def)

lemma unquoted_at_append:
  "p + length pat \<le> length w \<Longrightarrow> unquoted_at (w @ r) pat p = unquoted_at w pat p"
  by (auto simp: unquoted_at_def outside_append)

lemma unquoted_at_single: "unquoted_at s [c] p \<longleftrightarrow> p < length s \<and> s ! p = c \<and> outside s p"
  by (cases "p < length s") (auto simp: unquoted_at_def simp flip: Cons_nth_drop_Suc)

lemma semicolon_found:
  assumes "lacks '';'' w" "closed w"
  shows "strstrquoted (Some (w @ '';'' @ r)) (Some '';'') = Some (length w)"
proof (rule is_first_unique [OF strstrquoted_run [of "CHR '';''" _ 0]])
  show "unquoted_at (w @ '';'' @ r) '';'' (length w)"
    using assms(2) by (simp add: unquoted_at_single closed_def outside_def)
  show "\<forall>k < length w. \<not> unquoted_at (w @ '';'' @ r) '';'' k"
    using assms(1) unquoted_at_append [of _ "'';''" w "'';'' @ r"] by (simp add: lacks_def)
qed (simp_all add: char_defs)

lemma semicolon_absent: "lacks '';'' w \<Longrightarrow> strstrquoted (Some w) (Some '';'') = None"
  using strstrquoted_None_iff [of "CHR '';''" "'';''" 0 w] lacks_all [of "'';''" w] by (simp add: char_defs)

text \<open>Pieces of a command line between its semicolons.\<close>

definition semicolon_pieces :: "string list \<Rightarrow> bool" where
  "semicolon_pieces ws \<longleftrightarrow> ws \<noteq> [] \<and> (\<forall>w \<in> set ws. lacks '';'' w) \<and> (\<forall>w \<in> set (butlast ws). closed w)"

lemma semicolon_pieces_Cons:
  "ws \<noteq> [] \<Longrightarrow> semicolon_pieces (w # ws) \<longleftrightarrow> lacks '';'' w \<and> closed w \<and> semicolon_pieces ws"
  by (auto simp: semicolon_pieces_def)

lemma split_semicolons_pieces:
  "semicolon_pieces ws \<Longrightarrow>
   split_semicolons (join_with '';'' ws) = filter (\<lambda>w. w \<noteq> []) (map trimmed ws) \<and>
   count_semicolons (join_with '';'' ws) = length ws"
proof (induction ws)
  case Nil
  then show ?case by (simp add: semicolon_pieces_def)
next
  case (Cons w ws)
  show ?case
  proof (cases "ws = []")
    case True
    with Cons.prems show ?thesis
      by (subst split_semicolons.simps, subst count_semicolons.simps)
        (simp add: semicolon_absent semicolon_pieces_def trim_whitespace_eq)
  next
    case False
    with Cons show ?thesis
      by (subst split_semicolons.simps, subst count_semicolons.simps)
        (simp add: join_with_Cons semicolon_pieces_Cons semicolon_found [simplified] trim_whitespace_eq)
  qed
qed

lemma semicolon_pieces_exist: "\<exists>ws. semicolon_pieces ws \<and> s = join_with '';'' ws"
proof (induction s rule: split_semicolons.induct)
  case (1 s)
  note first = strstrquoted_run [of "CHR '';''" "'';''" 0 s]
  show ?case
  proof (cases "strstrquoted (Some s) (Some '';'')")
    case None
    with first show ?thesis
      by (intro exI [of _ "[s]"]) (simp add: semicolon_pieces_def lacks_def is_first_def char_defs)
  next
    case (Some p)
    then obtain ws where ws: "semicolon_pieces ws" "drop (p + 1) s = join_with '';'' ws" using 1 by metis
    have p: "p < length s" "s ! p = CHR '';''" "outside s p" "\<forall>k < p. \<not> unquoted_at s '';'' k"
      using Some first by (simp_all add: is_first_def char_defs unquoted_at_single)
    then have s: "s = take p s @ '';'' @ drop (p + 1) s" using id_take_nth_drop [of p s] by simp
    have "lacks '';'' (take p s)"
      using p unquoted_at_append [of _ "'';''" "take p s" "drop p s"] by (simp add: lacks_def)
    moreover have "closed (take p s)" using p by (simp add: closed_def outside_def)
    ultimately show ?thesis using ws s
      by (intro exI [of _ "take p s # ws"]) (auto simp: semicolon_pieces_Cons semicolon_pieces_def join_with_Cons)
  qed
qed


section \<open>Conditional chains\<close>

definition op_text :: "ios_shell_operator \<Rightarrow> string" where
  "op_text op = (if op = IOS_OP_AND then ''&&'' else ''||'')"

text \<open>A text with its operators: each piece with the operator that follows it, the last with none.\<close>

fun cond_text :: "(string \<times> ios_shell_operator) list \<Rightarrow> string" where
  "cond_text [] = []"
| "cond_text ((w, op) # ps) = (if ps = [] then w else w @ op_text op @ cond_text ps)"

definition cond_piece :: "string \<Rightarrow> bool" where
  "cond_piece w \<longleftrightarrow> lacks ''&&'' w \<and> lacks ''||'' w"

definition cut_before :: "string \<Rightarrow> bool" where
  "cut_before w \<longleftrightarrow> closed w \<and> (w \<noteq> [] \<longrightarrow> last w \<noteq> CHR ''&'' \<and> last w \<noteq> CHR ''|'')"

fun cond_pieces :: "(string \<times> ios_shell_operator) list \<Rightarrow> bool" where
  "cond_pieces [] \<longleftrightarrow> False"
| "cond_pieces ((w, op) # ps) \<longleftrightarrow> cond_piece w \<and>
     (if ps = [] then op = IOS_OP_NONE
      else op \<in> {IOS_OP_AND, IOS_OP_OR} \<and> cut_before w \<and> cond_pieces ps)"

lemma unquoted_at_pair: "unquoted_at s [c, d] p \<longleftrightarrow>
   Suc p < length s \<and> s ! p = c \<and> s ! Suc p = d \<and> outside s p \<and> outside s (Suc p)"
  by (cases "Suc p < length s")
    (auto simp: unquoted_at_def less_Suc_eq simp flip: Cons_nth_drop_Suc dest: arg_cong [of _ _ length])

text \<open>No operator starts inside the piece, nor straddles its end.\<close>

lemma no_earlier_operator:
  assumes "cond_piece w" "cut_before w" "c \<in> {CHR ''&'', CHR ''|''}" "k < length w"
  shows "\<not> unquoted_at (w @ r) [c, c] k"
proof (cases "Suc k < length w")
  case True
  then show ?thesis using assms unquoted_at_append [of k "[c, c]" w r] by (auto simp: cond_piece_def lacks_def)
next
  case False
  then have k: "k = length w - 1" "w \<noteq> []" using assms(4) by auto
  then have "(w @ r) ! k = last w" by (simp add: nth_append last_conv_nth)
  with assms k show ?thesis by (auto simp: unquoted_at_pair cut_before_def)
qed

lemma operator_found:
  assumes "closed w" "c \<in> {CHR ''&'', CHR ''|''}" "\<forall>k < length w. \<not> unquoted_at (w @ [c, c] @ r) [c, c] k"
  shows "strstrquoted (Some (w @ [c, c] @ r)) (Some [c, c]) = Some (length w)"
proof (rule is_first_unique [OF strstrquoted_run [of c _ 1]])
  have "fst (quote_state (w @ [c])) = None"
    using assms(1,2) by (cases "quote_state w") (auto simp: closed_def char_defs)
  then show "unquoted_at (w @ [c, c] @ r) [c, c] (length w)"
    using assms(1) by (simp add: unquoted_at_pair closed_def outside_def nth_append)
qed (use assms in \<open>auto simp: char_defs\<close>)

lemma operator_later:
  assumes "c \<in> {CHR ''&'', CHR ''|''}" "c \<noteq> d" "\<forall>k < length w. \<not> unquoted_at (w @ d # r) [c, c] k"
  shows "case strstrquoted (Some (w @ d # r)) (Some [c, c]) of None \<Rightarrow> True | Some p \<Rightarrow> length w < p"
proof -
  have "\<not> unquoted_at (w @ d # r) [c, c] (length w)" using assms(2) by (simp add: unquoted_at_pair)
  moreover have "is_first (unquoted_at (w @ d # r) [c, c]) (strstrquoted (Some (w @ d # r)) (Some [c, c]))"
    using assms(1) by (intro strstrquoted_run [of c _ 1]) (auto simp: char_defs)
  ultimately show ?thesis using assms(3)
    by (auto simp: is_first_def split: option.splits) (metis linorder_neqE_nat)
qed

lemma next_operator_found:
  assumes "cond_piece w" "cut_before w" "op \<in> {IOS_OP_AND, IOS_OP_OR}"
  shows "next_operator (w @ op_text op @ r) = Some (length w, op)"
proof -
  have none: "\<forall>k < length w. \<not> unquoted_at (w @ x) [c, c] k" if "c \<in> {CHR ''&'', CHR ''|''}" for c x
    using no_earlier_operator [OF assms(1,2) that] by simp
  have cl: "closed w" using assms(2) by (simp add: cut_before_def)
  show ?thesis
  proof (cases "op = IOS_OP_AND")
    case True
    with operator_found [OF cl, of "CHR ''&''" r] operator_later [of "CHR ''|''" "CHR ''&''" w "CHR ''&'' # r"] none
    show ?thesis by (auto simp: next_operator_def op_text_def split: option.splits)
  next
    case False
    with operator_found [OF cl, of "CHR ''|''" r] operator_later [of "CHR ''&''" "CHR ''|''" w "CHR ''|'' # r"] none assms(3)
    show ?thesis by (auto simp: next_operator_def op_text_def split: option.splits)
  qed
qed

lemma next_operator_absent: "cond_piece w \<Longrightarrow> next_operator w = None"
  using strstrquoted_None_iff [of "CHR ''&''" "''&&''" 1 w] strstrquoted_None_iff [of "CHR ''|''" "''||''" 1 w]
    lacks_all [of "''&&''" w] lacks_all [of "''||''" w]
  by (simp add: char_defs cond_piece_def next_operator_def)

lemma split_conditionals_pieces:
  "cond_pieces ps \<Longrightarrow> split_conditionals (cond_text ps) =
     [\<lparr>cn_command = trimmed w, cn_next_op = op\<rparr>. (w, op) \<leftarrow> ps, trimmed w \<noteq> []]"
proof (induction ps)
  case (Cons x ps)
  obtain w op where x: "x = (w, op)" by (cases x)
  show ?case
  proof (cases "ps = []")
    case True
    with Cons.prems x show ?thesis
      by (subst split_conditionals.simps) (simp add: next_operator_absent segment_node_def trim_whitespace_eq)
  next
    case False
    then have "next_operator (w @ op_text op @ cond_text ps) = Some (length w, op)"
      using Cons.prems x by (intro next_operator_found) auto
    moreover have "length (op_text op) = 2" by (simp add: op_text_def)
    ultimately show ?thesis using False Cons x
      by (subst split_conditionals.simps) (simp add: segment_node_def trim_whitespace_eq)
  qed
qed simp


section \<open>Properties\<close>

lemmas piece_eval = lacks_def closed_def outside_def quote_state_def unquoted_at_single unquoted_at_pair
  All_less_Suc nth_Cons' char_defs



text \<open>
  What \<^verbatim>\<open>strstrquoted\<close> finds stands outside quotes, for every marker without quotes in it.
\<close>

theorem strstrquoted_sound:
  assumes "dquote \<notin> set pat" "squote \<notin> set pat" and "strstrquoted (Some s) (Some pat) = Some p"
  shows "unquoted_at s pat p"
proof (cases "s = pat \<or> pat = []")
  case True
  with assms plain_outside [of pat] show ?thesis by (auto simp: strstrquoted_def unquoted_at_def split: if_splits)
next
  case False
  with assms(3) have "scan_quoted pat None 0 0 (length ([] :: string)) s = Some p" by (simp add: strstrquoted_def split: if_splits)
  with False show ?thesis using scan_sound [OF assms(1,2), of None 0 0 "[]" s p "[]"] by simp
qed

theorem strstrquoted_sound_witness: "unquoted_at ''echo $(ls)'' ''$('' 5"
  by (rule strstrquoted_sound) (code_simp)+

text \<open>
  A command line is cut at its unquoted semicolons and nowhere else. Every command line is a list of
  pieces joined by semicolons, none of which has an unquoted semicolon and of which all but the last
  close their quotes; the segments are the pieces in their order, without the blanks around them, the
  empty ones left out. They fit the array, allocated for \<open>count_semicolons\<close> of them.
\<close>

theorem semicolons_cut_into_segments:
  assumes "s \<noteq> []"
  shows "(\<exists>ws. semicolon_pieces ws \<and> s = join_with '';'' ws) \<and>
    (\<forall>ws. semicolon_pieces ws \<and> s = join_with '';'' ws \<longrightarrow>
      parse_semicolons (Some s) = Some (filter (\<lambda>w. w \<noteq> []) (map trimmed ws)) \<and>
      length (filter (\<lambda>w. w \<noteq> []) (map trimmed ws)) \<le> count_semicolons s)"
  using assms split_semicolons_pieces semicolon_pieces_exist [of s] length_filter_le [of "\<lambda>w. w \<noteq> []" "map trimmed _"]
  by (auto simp: parse_semicolons_def)

theorem semicolons_cut_into_segments_witness:
  "parse_semicolons (Some ''echo \"a;b\" ;; ls -l'') = Some [''echo \"a;b\"'', ''ls -l'']"
proof -
  let ?s = "''echo \"a;b\" ;; ls -l''" and ?ws = "[''echo \"a;b\" '', '''', '' ls -l'']"
  have p: "semicolon_pieces ?ws \<and> ?s = join_with '';'' ?ws" by (simp add: semicolon_pieces_def piece_eval)
  have "?s \<noteq> []" by simp
  from semicolons_cut_into_segments [OF this, THEN conjunct2, THEN spec, THEN mp, OF p]
  show ?thesis by (simp add: trimmed_def is_blank_def)
qed

text \<open>
  A chain is cut at its unquoted \<^verbatim>\<open>&&\<close> and \<^verbatim>\<open>||\<close>. For pieces without such operators, each but the last
  closed and not ending in \<^verbatim>\<open>&\<close> or \<^verbatim>\<open>|\<close>, the nodes are the pieces that are not blank, in their order and without
  blanks around them, each with the operator written after it.
\<close>

theorem conditionals_cut_into_nodes:
  assumes "cond_pieces ps" and "cond_text ps \<noteq> []"
  shows "parse_conditionals (Some (cond_text ps)) =
    [\<lparr>cn_command = trimmed w, cn_next_op = op\<rparr>. (w, op) \<leftarrow> ps, trimmed w \<noteq> []]"
  using assms split_conditionals_pieces [OF assms(1)] by (simp add: parse_conditionals_def)

theorem conditionals_cut_into_nodes_witness:
  "parse_conditionals (Some ''a \"&&\" && b||c'') =
    [\<lparr>cn_command = ''a \"&&\"'', cn_next_op = IOS_OP_AND\<rparr>, \<lparr>cn_command = ''b'', cn_next_op = IOS_OP_OR\<rparr>,
     \<lparr>cn_command = ''c'', cn_next_op = IOS_OP_NONE\<rparr>]"
proof -
  let ?ps = "[(''a \"&&\" '', IOS_OP_AND), ('' b'', IOS_OP_OR), (''c'', IOS_OP_NONE)]"
  have "cond_pieces ?ps" by (simp add: cond_piece_def cut_before_def piece_eval)
  from conditionals_cut_into_nodes [OF this] show ?thesis by (simp add: op_text_def trimmed_def is_blank_def)
qed

text \<open>
  The search does not look again at a character that ends a partial match: after a \<^verbatim>\<open>$\<close>, the marker \<^verbatim>\<open>$(\<close> is missed.
  A backslash outside quotes escapes the next quote however far it is, and does not escape a semicolon.
\<close>

lemma strstrquoted_misses:
  "strstrquoted (Some ''echo $$(ls)'') (Some ''$('') = None \<and> unquoted_at ''echo $$(ls)'' ''$('' 6"
  "parse_semicolons (Some (backslash # ''a \"b;c\"'')) = Some [backslash # ''a \"b'', ''c\"'']"
  "parse_semicolons (Some (CHR ''a'' # backslash # '';b'')) = Some [[CHR ''a'', backslash], ''b'']"
  by (simp_all add: parse_semicolons_def split_semicolons.simps strstrquoted_def trim_whitespace_eq trimmed_def
      is_blank_def piece_eval)

end
