(* ===== verification/Shell_Parser.thy ===== *)
theory Shell_Parser
  imports Shell_Quoting Libc_Process
begin

text \<open>
  The running side of \<^verbatim>\<open>ios_shell_parser.m\<close>: commands separated by \<^verbatim>\<open>;\<close>, chains of \<^verbatim>\<open>&&\<close> and \<^verbatim>\<open>||\<close>, command
  substitution; the choice between them in \<^verbatim>\<open>ios_system\<close>, and the older \<^verbatim>\<open>splitCommandAndExecute\<close> of \<^verbatim>\<open>sh\<close>.
  Each command runs between \<^verbatim>\<open>ios_fork\<close> and \<^verbatim>\<open>ios_waitpid\<close> on the process table of \<open>Libc_Process\<close>.

  The recursive call of \<^verbatim>\<open>ios_system\<close> on a single command, which ends in a command of the application, is an
  argument (\<open>se_system\<close>), as are the events during forks and waits, the answers of \<^verbatim>\<open>pipe\<close> and \<^verbatim>\<open>fdopen\<close> and the sizes of
  the reads. Allocations succeed.
\<close>

section \<open>State\<close>

text \<open>
  \<^verbatim>\<open>joinMainThread\<close>, the child streams as pipe numbers, what has been written to each pipe, and the rest of the
  world.
\<close>

record 'w shell =
  sh_table :: process_table
  sh_join :: bool
  sh_child :: "nat option \<times> nat option \<times> nat option"
  sh_pipes :: "nat \<Rightarrow> string"
  sh_world :: 'w

record 'w shell_env =
  se_self :: tid
  se_system :: "string \<Rightarrow> 'w shell \<Rightarrow> (int, 'w shell) exec"
  se_fork_wakes :: "'w shell \<Rightarrow> (process_table \<Rightarrow> process_table) list"
  se_wait_wakes :: "'w shell \<Rightarrow> (process_table \<Rightarrow> process_table) list"
  se_wasm :: "(process_table \<Rightarrow> process_table) option"
  se_pipe :: "'w shell \<Rightarrow> nat option"
  se_fdopen :: "'w shell \<Rightarrow> bool"
  se_read_size :: "nat \<Rightarrow> nat"

primrec and_then :: "('r, 's) exec \<Rightarrow> ('r \<Rightarrow> 's \<Rightarrow> ('q, 's) exec) \<Rightarrow> ('q, 's) exec" where
  "and_then (Returns r s) f = f r s"
| "and_then (Blocked s) f = Blocked s"
| "and_then Crash f = Crash"

definition on_table :: "(process_table \<Rightarrow> ('r, process_table) exec) \<Rightarrow> 'w shell \<Rightarrow> ('r, 'w shell) exec" where
  "on_table f st =
     (case f (sh_table st) of
        Returns r t \<Rightarrow> Returns r (st\<lparr>sh_table := t\<rparr>)
      | Blocked t \<Rightarrow> Blocked (st\<lparr>sh_table := t\<rparr>)
      | Crash \<Rightarrow> Crash)"

definition ios_setChildStreams ::
  "nat option \<Rightarrow> nat option \<Rightarrow> nat option \<Rightarrow> 'w shell \<Rightarrow> 'w shell" where
  "ios_setChildStreams i o' e st = st\<lparr>sh_child := (i, o', e)\<rparr>"

definition release_outer_fork_sentinel :: "'w shell_env \<Rightarrow> 'w shell \<Rightarrow> (unit, 'w shell) exec" where
  "release_outer_fork_sentinel env st =
     (case ios_storeThreadId (se_self env) 0 (sh_table st) of
        None \<Rightarrow> Crash
      | Some t \<Rightarrow> Returns () (st\<lparr>sh_table := t\<rparr>))"

text \<open>The three calls around each command: \<^verbatim>\<open>ios_fork\<close>, \<^verbatim>\<open>ios_system\<close>, \<^verbatim>\<open>ios_waitpid\<close>.\<close>

definition run_and_wait :: "'w shell_env \<Rightarrow> string \<Rightarrow> 'w shell \<Rightarrow> (int, 'w shell) exec" where
  "run_and_wait env command st =
     and_then (on_table (ios_fork (se_self env) (se_fork_wakes env st)) st) (\<lambda>pid st1.
     and_then (se_system env command st1) (\<lambda>result st2.
     and_then (on_table (ios_waitpid (se_wasm env) (se_wait_wakes env st2) pid) st2) (\<lambda>_ st3.
     Returns result st3)))"

section \<open>Sequences and chains\<close>

fun run_segments :: "'w shell_env \<Rightarrow> string list \<Rightarrow> int \<Rightarrow> 'w shell \<Rightarrow> (int, 'w shell) exec" where
  "run_segments env [] last_result st = Returns last_result st"
| "run_segments env (seg # segs) last_result st =
     (if length seg = 0 then run_segments env segs last_result st
      else and_then (run_and_wait env seg st) (\<lambda>r st1. run_segments env segs r st1))"

definition ios_execute_sequential :: "'w shell_env \<Rightarrow> string option \<Rightarrow> 'w shell \<Rightarrow> (int, 'w shell) exec" where
  "ios_execute_sequential env command st =
     and_then (release_outer_fork_sentinel env st) (\<lambda>_ st1.
       case parse_semicolons command of
         None \<Rightarrow> Returns 0 st1
       | Some segments \<Rightarrow> if length segments = 0 then Returns 0 st1 else run_segments env segments 0 st1)"

fun run_nodes :: "'w shell_env \<Rightarrow> ios_cmd_node list \<Rightarrow> int \<Rightarrow> 'w shell \<Rightarrow> (int, 'w shell) exec" where
  "run_nodes env [] result st = Returns result st"
| "run_nodes env (node # nodes) result st =
     (if length (cn_command node) = 0 then run_nodes env nodes result st
      else and_then (run_and_wait env (cn_command node) st) (\<lambda>r st1.
        if nodes \<noteq> [] \<and> cn_next_op node = IOS_OP_AND \<and> r \<noteq> 0 then Returns r st1
        else if nodes \<noteq> [] \<and> cn_next_op node = IOS_OP_OR \<and> r = 0 then Returns r st1
        else run_nodes env nodes r st1))"

definition ios_execute_conditional :: "'w shell_env \<Rightarrow> string option \<Rightarrow> 'w shell \<Rightarrow> (int, 'w shell) exec" where
  "ios_execute_conditional env command st =
     and_then (release_outer_fork_sentinel env st) (\<lambda>_ st1.
       let nodes = parse_conditionals command
       in if nodes = [] then Returns 0 st1 else run_nodes env nodes 0 st1)"

text \<open>
  What \<^verbatim>\<open>ios_system\<close> does with the text of a command after substitution: \<^verbatim>\<open>ios_execute_sequential\<close>,
  \<^verbatim>\<open>ios_execute_conditional\<close>, or the code for one command with its pipes and redirections.
\<close>

datatype dispatch = Sequential | Conditional | SingleCommand

definition ios_system_dispatch :: "string \<Rightarrow> dispatch" where
  "ios_system_dispatch command =
     (let andPos = strstrquoted (Some command) (Some ''&&''); orPos = strstrquoted (Some command) (Some ''||'') in
      if strstrquoted (Some command) (Some '';'') \<noteq> None then Sequential
      else if andPos \<noteq> None \<or> orPos \<noteq> None then
        let is_conditional =
          (case orPos of
             None \<Rightarrow> True
           | Some p \<Rightarrow>
               (case strstrquoted (Some command) (Some ''|'') of
                  None \<Rightarrow> True
                | Some pipeCheck \<Rightarrow> \<not> (pipeCheck = p \<or> pipeCheck + 1 = p)))
        in if is_conditional then Conditional else SingleCommand
      else SingleCommand)"

text \<open>
  \<^verbatim>\<open>splitCommandAndExecute\<close>: the text before the operator that is taken to come next, and whether it is
  \<^verbatim>\<open>&&\<close>. The position is only lowered by a \<^verbatim>\<open>||\<close>, from an initial 0.
\<close>

definition next_command :: "string \<Rightarrow> (nat \<times> bool) option" where
  "next_command command =
     (case (strstrquoted (Some command) (Some ''&&''), strstrquoted (Some command) (Some ''||'')) of
        (None, None) \<Rightarrow> None
      | (nextAnd, nextOr) \<Rightarrow>
          let (pos, andNext) = (case nextAnd of Some a \<Rightarrow> (a, True) | None \<Rightarrow> (0, False))
          in Some (case nextOr of Some b \<Rightarrow> if b < pos then (b, False) else (pos, andNext) | None \<Rightarrow> (pos, andNext)))"

function split_execute :: "'w shell_env \<Rightarrow> int \<Rightarrow> string \<Rightarrow> 'w shell \<Rightarrow> (int, 'w shell) exec" where
  "split_execute env returnValue command st =
     (if command = [] then Returns returnValue st
      else case next_command command of
        None \<Rightarrow> run_and_wait env command st
      | Some (pos, andNextCommand) \<Rightarrow>
          (case run_and_wait env (take pos command) st of
             Returns r st1 \<Rightarrow>
               if andNextCommand \<and> r \<noteq> 0 then Returns r st1
               else if \<not> andNextCommand \<and> r = 0 then Returns r st1
               else if pos + 2 > length command then Returns 0 st1
               else split_execute env r (dropWhile (\<lambda>c. c = CHR '' '') (drop (pos + 2) command)) st1
           | e \<Rightarrow> e))"
  by pat_completeness auto

termination split_execute
  by (relation "measure (\<lambda>(_, _, command, _). length command)")
    (auto intro!: le_less_trans [OF length_dropWhile_le])

definition splitCommandAndExecute :: "'w shell_env \<Rightarrow> string option \<Rightarrow> 'w shell \<Rightarrow> (int, 'w shell) exec" where
  "splitCommandAndExecute env command st =
     (case command of None \<Rightarrow> Returns 0 st | Some s \<Rightarrow> split_execute env 0 s st)"

section \<open>Substitution\<close>

text \<open>
  The loop that reads the pipe: \<open>rest\<close> is what the pipe still holds, \<open>buf\<close> the bytes read so far (\<^verbatim>\<open>total\<close> of them).
  \<open>offer\<close> gives how many bytes the kernel offers, one at least while there are some. The result has the final
  capacity.
\<close>

function read_pipe :: "(nat \<Rightarrow> nat) \<Rightarrow> nat \<Rightarrow> string \<Rightarrow> string \<Rightarrow> string \<times> nat" where
  "read_pipe offer capacity buf rest =
     (let total = length buf;
          n = min (Suc (offer total)) (min (capacity - total - 1) (length rest))
      in if \<not> n > 0 then (buf, capacity)
         else read_pipe offer (if total + n \<ge> capacity - 1 then capacity * 2 else capacity)
                (buf @ take n rest) (drop n rest))"
  by pat_completeness auto

termination read_pipe
  by (relation "measure (\<lambda>(_, _, _, rest). length rest)") (auto simp: Let_def)

lemmas [simp del] = split_execute.simps read_pipe.simps

definition is_newline :: "char \<Rightarrow> bool" where
  "is_newline c \<longleftrightarrow> c = CHR 0x0A \<or> c = CHR 0x0D"

text \<open>The loop that cuts the trailing newlines, and the C string in the buffer.\<close>

fun strip_newlines :: "string \<Rightarrow> nat \<Rightarrow> string" where
  "strip_newlines buf 0 = buf"
| "strip_newlines buf (Suc t) = (if is_newline (buf ! t) then strip_newlines (take t buf) t else buf)"

definition c_string :: "string \<Rightarrow> string" where
  "c_string buf = takeWhile (\<lambda>c. c \<noteq> CHR 0x00) buf"

definition capture_command_output :: "'w shell_env \<Rightarrow> string \<Rightarrow> 'w shell \<Rightarrow> (string, 'w shell) exec" where
  "capture_command_output env command st =
     (if command = [] then Returns [] st
      else let saved_outer_pid = ios_currentPid (se_self env) (sh_table st) in
        case se_pipe env st of
          None \<Rightarrow> Returns [] st
        | Some p \<Rightarrow>
            if \<not> se_fdopen env st then Returns [] st
            else let st1 = ios_setChildStreams None (Some p) None (st\<lparr>sh_pipes := (sh_pipes st)(p := [])\<rparr>);
                     saved_join = sh_join st1 in
              and_then (run_and_wait env command (st1\<lparr>sh_join := True\<rparr>)) (\<lambda>_ st2.
                let st3 = ios_setChildStreams None None None
                      (st2\<lparr>sh_table := ios_setCurrentPid (se_self env) saved_outer_pid (sh_table st2),
                           sh_join := saved_join\<rparr>);
                    buf = fst (read_pipe (se_read_size env) 4096 [] (sh_pipes st3 p))
                in Returns (c_string (strip_newlines buf (length buf))) st3))"

fun strstr :: "string \<Rightarrow> string \<Rightarrow> nat option" where
  "strstr s pat =
     (if take (length pat) s = pat then Some 0
      else case s of [] \<Rightarrow> None | c # r \<Rightarrow> map_option Suc (strstr r pat))"

lemmas [simp del] = strstr.simps

text \<open>
  The expansion takes a bound \<open>n\<close> on the nested calls and passes of the loops; \<open>None\<close> is a bound used up. The flag
  \<^verbatim>\<open>modified\<close> only tells whether the result is a new copy.
\<close>

fun expand_dollars :: "nat \<Rightarrow> 'w shell_env \<Rightarrow> string \<Rightarrow> 'w shell \<Rightarrow> (string, 'w shell) exec option"
  and expand_backticks :: "nat \<Rightarrow> 'w shell_env \<Rightarrow> string \<Rightarrow> 'w shell \<Rightarrow> (string, 'w shell) exec option"
  and ios_expand_substitutions :: "nat \<Rightarrow> 'w shell_env \<Rightarrow> string \<Rightarrow> 'w shell \<Rightarrow> (string, 'w shell) exec option" where
  "expand_dollars 0 env result st = None"
| "expand_dollars (Suc n) env result st =
     (if strstr result ''$('' = None then Some (Returns result st)
      else case strstrquoted (Some result) (Some ''$('') of
        None \<Rightarrow> Some (Returns result st)
      | Some dollar_paren \<Rightarrow>
          (case find_matching_paren (drop (dollar_paren + 2) result) of
             None \<Rightarrow> Some (Returns result st)
           | Some cmd_len \<Rightarrow>
               (case ios_expand_substitutions n env (take cmd_len (drop (dollar_paren + 2) result)) st of
                  Some (Returns inner_cmd st1) \<Rightarrow>
                    (case capture_command_output env inner_cmd st1 of
                       Returns output st2 \<Rightarrow>
                         (case string_replace_range (Some result) (Some dollar_paren)
                                 (Some (dollar_paren + 2 + cmd_len + 1)) (Some output) of
                            Some new_result \<Rightarrow> expand_dollars n env new_result st2
                          | None \<Rightarrow> Some (Returns result st2))
                     | Blocked st2 \<Rightarrow> Some (Blocked st2)
                     | Crash \<Rightarrow> Some Crash)
                | x \<Rightarrow> x)))"
| "expand_backticks 0 env result st = None"
| "expand_backticks (Suc n) env result st =
     (case find_backtick result of
        None \<Rightarrow> Some (Returns result st)
      | Some backtick1 \<Rightarrow>
          (case find_backtick (drop (backtick1 + 1) result) of
             None \<Rightarrow> Some (Returns result st)
           | Some cmd_len \<Rightarrow>
               (case capture_command_output env (take cmd_len (drop (backtick1 + 1) result)) st of
                  Returns output st1 \<Rightarrow>
                    (case string_replace_range (Some result) (Some backtick1)
                            (Some (backtick1 + 1 + cmd_len + 1)) (Some output) of
                       Some new_result \<Rightarrow> expand_backticks n env new_result st1
                     | None \<Rightarrow> Some (Returns result st1))
                | Blocked st1 \<Rightarrow> Some (Blocked st1)
                | Crash \<Rightarrow> Some Crash)))"
| "ios_expand_substitutions 0 env input st = None"
| "ios_expand_substitutions (Suc n) env input st =
     (if strstr input ''$('' = None \<and> backtick \<notin> set input then Some (Returns input st)
      else case expand_dollars n env input st of
        Some (Returns result st1) \<Rightarrow> expand_backticks n env result st1
      | x \<Rightarrow> x)"

section \<open>One command\<close>

text \<open>
  What the wrappers rely on: in a process that a fork has just made, \<^verbatim>\<open>ios_system\<close> returns the exit code of the command,
  what the command writes goes to the child's standard output, and once it has been waited for the slot of the process is
  free again. \<open>log\<close> is the list of commands run so far, which the exit code and the output may depend on; the
  command may run in the calling thread or in another one that is waited for.
\<close>

definition ready :: "process_table \<Rightarrow> bool" where
  "ready t \<longleftrightarrow> pt_inv t \<and> pt_cleanup_counter t \<le> 0 \<and> (\<exists>p. 0 < p \<and> in_table p \<and> pid_free t p)"

definition in_child :: "tid \<Rightarrow> int \<Rightarrow> process_table \<Rightarrow> bool" where
  "in_child self pid t \<longleftrightarrow> pt_inv t \<and> pt_cleanup_counter t \<le> 0 \<and> pt_current_pid t self = pid \<and> 0 < pid \<and>
     pt_thread_ids t ! nat pid = - 1"

definition pipes_after :: "'w shell \<Rightarrow> string \<Rightarrow> nat \<Rightarrow> string" where
  "pipes_after st text =
     (case fst (snd (sh_child st)) of
        None \<Rightarrow> sh_pipes st
      | Some p \<Rightarrow> (sh_pipes st)(p := sh_pipes st p @ text))"

definition ends_well ::
  "'w shell_env \<Rightarrow> (string list \<Rightarrow> string \<Rightarrow> int) \<Rightarrow> (string list \<Rightarrow> string \<Rightarrow> string) \<Rightarrow> ('w \<Rightarrow> string list) \<Rightarrow> int \<Rightarrow>
   string \<Rightarrow> 'w shell \<Rightarrow> bool" where
  "ends_well env code out log pid cmd st \<longleftrightarrow>
     (\<exists>st2 t. se_system env cmd st = Returns (code (log (sh_world st)) cmd) st2 \<and>
        log (sh_world st2) = log (sh_world st) @ [cmd] \<and>
        sh_pipes st2 = pipes_after st (out (log (sh_world st)) cmd) \<and>
        ios_waitpid (se_wasm env) (se_wait_wakes env st2) pid (sh_table st2) = Returns () t \<and>
        pt_inv t \<and> pt_cleanup_counter t \<le> 0 \<and>
        pt_thread_ids t = (pt_thread_ids (sh_table st))[nat pid := 0])"

text \<open>
  For chains and sequences: each command is run to its end, and what it writes finds a reader. \<open>code\<close> is what \<^verbatim>\<open>ios_system\<close> returns, which is the exit
  code of the command when it is joined (\<^verbatim>\<open>joinMainThread\<close>).
\<close>

definition settles ::
  "'w shell_env \<Rightarrow> (string list \<Rightarrow> string \<Rightarrow> int) \<Rightarrow> (string list \<Rightarrow> string \<Rightarrow> string) \<Rightarrow> ('w \<Rightarrow> string list) \<Rightarrow> bool" where
  "settles env code out log \<longleftrightarrow>
     (\<forall>cmd st pid. in_child (se_self env) pid (sh_table st) \<longrightarrow> ends_well env code out log pid cmd st)"

text \<open>
  For substitutions: a command that is joined and whose output goes to a pipe of \<open>cap\<close> bytes which nobody reads ends when its output fits, and
  waits for ever inside \<^verbatim>\<open>ios_system\<close> when it does not.
\<close>

definition runs_captured ::
  "nat \<Rightarrow> 'w shell_env \<Rightarrow> (string list \<Rightarrow> string \<Rightarrow> int) \<Rightarrow> (string list \<Rightarrow> string \<Rightarrow> string) \<Rightarrow> ('w \<Rightarrow> string list) \<Rightarrow> bool" where
  "runs_captured cap env code out log \<longleftrightarrow>
     (\<forall>cmd st pid p. in_child (se_self env) pid (sh_table st) \<and> sh_join st \<and> fst (snd (sh_child st)) = Some p \<longrightarrow>
        (if length (sh_pipes st p) + length (out (log (sh_world st)) cmd) \<le> cap then ends_well env code out log pid cmd st
         else (\<exists>st2. se_system env cmd st = Blocked st2)))"

lemma fork_ready:
  assumes "ready t"
  obtains pid t' where "ios_fork self ws t = Returns pid t'" "in_child self pid t'" "in_table pid" "pid_free t pid"
    "pt_thread_ids t' = (pt_thread_ids t)[nat pid := - 1]"
proof -
  have inv: "pt_inv t" and cl: "pt_cleanup_counter t \<le> 0" using assms by (auto simp: ready_def)
  from fork_locked_cases [OF inv, of self] assms obtain k ov where
    k: "pid_free t (pid_after (pt_last_allocated_pid t) k)" and
    f: "next_pid_locked self t = Returns (pid_after (pt_last_allocated_pid t) k)
        ((child_table self (pid_after (pt_last_allocated_pid t) k) t)\<lparr>pt_pid_overflow := ov\<rparr>)"
    by (metis ready_def)
  define pid where "pid = pid_after (pt_last_allocated_pid t) k"
  have r: "0 < pid" "in_table pid" using pid_after_range by (simp_all add: pid_def)
  have "nat pid < length (pt_thread_ids t)" using in_table_nat [OF r(2)] pt_invD(1) [OF inv] by (simp add: table_shape_def)
  then have "in_child self pid ((child_table self pid t)\<lparr>pt_pid_overflow := ov\<rparr>)"
    using child_table_inv [OF inv r(2), of self] r cl by (simp add: in_child_def) (simp add: child_table_def put_env_def)
  then show thesis
    using that [of pid "(child_table self pid t)\<lparr>pt_pid_overflow := ov\<rparr>"] f k r fork_no_cleanup [OF cl, of self ws]
    unfolding pid_def [symmetric] by (simp add: child_table_def put_env_def)
qed

lemma readyI:
  "pt_inv t \<Longrightarrow> pt_cleanup_counter t \<le> 0 \<Longrightarrow> pt_thread_ids t = pt_thread_ids t0 \<Longrightarrow> ready t0 \<Longrightarrow> ready t"
  by (auto simp: ready_def pid_free_def)

lemma run_and_wait_ends:
  assumes "\<And>pid t. in_child (se_self env) pid t \<Longrightarrow> ends_well env code out log pid cmd (st\<lparr>sh_table := t\<rparr>)" and "ready (sh_table st)"
  obtains st' where "run_and_wait env cmd st = Returns (code (log (sh_world st)) cmd) st'"
    "log (sh_world st') = log (sh_world st) @ [cmd]" "ready (sh_table st')"
    "pt_thread_ids (sh_table st') = pt_thread_ids (sh_table st)"
    "sh_pipes st' = pipes_after st (out (log (sh_world st)) cmd)"
proof -
  obtain pid t1 where f: "ios_fork (se_self env) (se_fork_wakes env st) (sh_table st) = Returns pid t1"
    "in_child (se_self env) pid t1" "in_table pid" "pid_free (sh_table st) pid"
    "pt_thread_ids t1 = (pt_thread_ids (sh_table st))[nat pid := - 1]"
    using fork_ready [OF assms(2)] by metis
  obtain st2 t where s: "se_system env cmd (st\<lparr>sh_table := t1\<rparr>) = Returns (code (log (sh_world st)) cmd) st2"
    "log (sh_world st2) = log (sh_world st) @ [cmd]"
    "sh_pipes st2 = pipes_after (st\<lparr>sh_table := t1\<rparr>) (out (log (sh_world st)) cmd)"
    "ios_waitpid (se_wasm env) (se_wait_wakes env st2) pid (sh_table st2) = Returns () t"
    "pt_inv t" "pt_cleanup_counter t \<le> 0" "pt_thread_ids t = (pt_thread_ids t1)[nat pid := 0]"
    using assms(1) [OF f(2)] by (auto simp: ends_well_def)
  have ids: "pt_thread_ids t = pt_thread_ids (sh_table st)"
    using s(7) f(4,5) by (metis list_update_id list_update_overwrite pid_free_def)
  show thesis
    using that [of "st2\<lparr>sh_table := t\<rparr>"] s f(1) ids readyI [OF s(5,6) ids assms(2)]
    by (simp add: run_and_wait_def on_table_def pipes_after_def split: option.splits)
qed

lemma run_and_wait_settles:
  assumes "settles env code out log" and "ready (sh_table st)"
  obtains st' where "run_and_wait env cmd st = Returns (code (log (sh_world st)) cmd) st'"
    "log (sh_world st') = log (sh_world st) @ [cmd]" "ready (sh_table st')"
    "pt_thread_ids (sh_table st') = pt_thread_ids (sh_table st)"
    "sh_pipes st' = pipes_after st (out (log (sh_world st)) cmd)"
  using run_and_wait_ends [of env code out log cmd st] assms by (auto simp: settles_def)

lemma run_and_wait_blocks:
  assumes "\<And>pid t. in_child (se_self env) pid t \<Longrightarrow> \<exists>st2. se_system env cmd (st\<lparr>sh_table := t\<rparr>) = Blocked st2" and "ready (sh_table st)"
  shows "\<exists>st'. run_and_wait env cmd st = Blocked st'"
proof -
  obtain pid t1 where f: "ios_fork (se_self env) (se_fork_wakes env st) (sh_table st) = Returns pid t1" "in_child (se_self env) pid t1"
    using fork_ready [OF assms(2)] by metis
  from assms(1) [OF f(2)] f(1) show ?thesis by (auto simp: run_and_wait_def on_table_def)
qed


section \<open>Sequences\<close>

lemma run_segments_settles:
  assumes "settles env code out log"
  shows "ready (sh_table st) \<Longrightarrow> [] \<notin> set segs \<Longrightarrow>
    \<exists>st'. run_segments env segs r st =
        Returns (if segs = [] then r else code (log (sh_world st) @ butlast segs) (last segs)) st' \<and>
      log (sh_world st') = log (sh_world st) @ segs \<and> ready (sh_table st') \<and>
      pt_thread_ids (sh_table st') = pt_thread_ids (sh_table st)"
proof (induction segs arbitrary: r st)
  case Nil
  then show ?case by simp
next
  case (Cons seg segs)
  obtain st1 where st1: "run_and_wait env seg st = Returns (code (log (sh_world st)) seg) st1"
    "log (sh_world st1) = log (sh_world st) @ [seg]" "ready (sh_table st1)"
    "pt_thread_ids (sh_table st1) = pt_thread_ids (sh_table st)"
    using run_and_wait_settles [OF assms Cons.prems(1)] by metis
  have "[] \<notin> set segs" "seg \<noteq> []" using Cons.prems(2) by auto
  with Cons.IH [OF st1(3), of "code (log (sh_world st)) seg"] st1 show ?case by (auto split: if_splits)
qed

text \<open>The sentinel of an outer fork is consumed: its slot is free and the parent is current again.\<close>

definition released :: "tid \<Rightarrow> process_table \<Rightarrow> int list" where
  "released self t =
     (if pt_thread_ids t ! nat (pt_current_pid t self) = - 1
      then (pt_thread_ids t)[nat (pt_current_pid t self) := 0] else pt_thread_ids t)"

lemma nth_zero_update: "xs ! j = (0 :: int) \<Longrightarrow> xs[i := 0] ! j = 0"
  by (cases "i < length xs") (auto simp: nth_list_update list_update_beyond)

lemma release_sentinel_eq:
  assumes "ready (sh_table st)"
  obtains st1 where "release_outer_fork_sentinel env st = Returns () st1" "ready (sh_table st1)"
    "pt_thread_ids (sh_table st1) = released (se_self env) (sh_table st)" "sh_world st1 = sh_world st"
proof -
  let ?t = "sh_table st" let ?c = "pt_current_pid ?t (se_self env)"
  have inv: "pt_inv ?t" and r: "pt_cleanup_counter ?t \<le> 0" and free: "\<exists>p. 0 < p \<and> in_table p \<and> pid_free ?t p"
    using assms by (auto simp: ready_def)
  have c: "in_table ?c" "table_shape ?t" using inv by (auto intro: pt_invD)
  let ?t1 = "(set_current (se_self env) (pt_previousPid ?t ! nat ?c) ?t)\<lparr>pt_thread_ids := (pt_thread_ids ?t)[nat ?c := 0]\<rparr>"
  have "pt_inv ?t1" using inv pt_invD(5) [OF inv c(1)] by (auto simp: pt_inv_def table_shape_def set_current_def)
  moreover have "\<exists>p. 0 < p \<and> in_table p \<and> pid_free ?t1 p"
    using free nth_zero_update [of "pt_thread_ids ?t"] by (auto simp: pid_free_def)
  ultimately have t1: "ready ?t1" using r by (simp add: ready_def set_current_def)
  show thesis
  proof (cases "pt_thread_ids ?t ! nat ?c = - 1")
    case True
    then have "ios_storeThreadId (se_self env) 0 ?t = Some ?t1" using c by (simp add: ios_storeThreadId_def)
    then show thesis using that [of "st\<lparr>sh_table := ?t1\<rparr>"] t1 True
      by (simp add: release_outer_fork_sentinel_def released_def)
  next
    case False
    then have "ios_storeThreadId (se_self env) 0 ?t = Some ?t" using c by (simp add: ios_storeThreadId_def)
    then show thesis using that [of st] assms False by (simp add: release_outer_fork_sentinel_def released_def)
  qed
qed

section \<open>Chains\<close>

text \<open>
  The commands of a chain up to the first whose operator stops it. \<open>stops\<close> tells whether an operator ends the chain
  after an exit code.
\<close>

definition stops :: "ios_shell_operator \<Rightarrow> int \<Rightarrow> bool" where
  "stops op r \<longleftrightarrow> op = IOS_OP_AND \<and> r \<noteq> 0 \<or> op = IOS_OP_OR \<and> r = 0"

fun run_chain :: "(string list \<Rightarrow> string \<Rightarrow> int) \<Rightarrow> string list \<Rightarrow> ios_cmd_node list \<Rightarrow> int \<Rightarrow> string list \<times> int" where
  "run_chain code l [] r = (l, r)"
| "run_chain code l (n # ns) r =
     (let r' = code l (cn_command n)
      in if ns \<noteq> [] \<and> stops (cn_next_op n) r' then (l @ [cn_command n], r')
         else run_chain code (l @ [cn_command n]) ns r')"

lemma run_nodes_settles:
  assumes "settles env code out log"
  shows "ready (sh_table st) \<Longrightarrow> (\<forall>n \<in> set ns. cn_command n \<noteq> []) \<Longrightarrow>
    \<exists>st'. run_nodes env ns r st = Returns (snd (run_chain code (log (sh_world st)) ns r)) st' \<and>
      log (sh_world st') = fst (run_chain code (log (sh_world st)) ns r) \<and> ready (sh_table st') \<and>
      pt_thread_ids (sh_table st') = pt_thread_ids (sh_table st)"
proof (induction ns arbitrary: r st)
  case Nil
  then show ?case by simp
next
  case (Cons n ns)
  obtain st1 where st1: "run_and_wait env (cn_command n) st = Returns (code (log (sh_world st)) (cn_command n)) st1"
    "log (sh_world st1) = log (sh_world st) @ [cn_command n]" "ready (sh_table st1)"
    "pt_thread_ids (sh_table st1) = pt_thread_ids (sh_table st)"
    using run_and_wait_settles [OF assms Cons.prems(1)] by metis
  with Cons.IH [OF st1(3), of "code (log (sh_world st)) (cn_command n)"] Cons.prems(2) show ?case
    by (auto simp: Let_def stops_def)
qed

text \<open>The reference: the AND-OR list of the POSIX shell, where an operator skips one command and the next operator is tried.\<close>

fun and_or_list ::
  "(string list \<Rightarrow> string \<Rightarrow> int) \<Rightarrow> string list \<Rightarrow> int \<Rightarrow> ios_shell_operator \<Rightarrow> ios_cmd_node list \<Rightarrow> string list \<times> int" where
  "and_or_list code l r op [] = (l, r)"
| "and_or_list code l r op (n # ns) =
     (if stops op r then and_or_list code l r (cn_next_op n) ns
      else and_or_list code (l @ [cn_command n]) (code l (cn_command n)) (cn_next_op n) ns)"

definition same_operator :: "ios_shell_operator \<Rightarrow> ios_cmd_node list \<Rightarrow> bool" where
  "same_operator op ns \<longleftrightarrow> (\<forall>n \<in> set (butlast ns). cn_next_op n = op)"


lemma same_operator_Cons: "ns \<noteq> [] \<Longrightarrow> same_operator op (n # ns) \<longleftrightarrow> cn_next_op n = op \<and> same_operator op ns"
  by (simp add: same_operator_def)

lemma and_or_skips: "same_operator op ns \<Longrightarrow> stops op r \<Longrightarrow> and_or_list code l r op ns = (l, r)"
proof (induction ns)
  case (Cons n ns)
  then show ?case by (cases "ns = []") (simp_all add: same_operator_Cons)
qed simp

lemma run_chain_and_or:
  "same_operator op ns \<Longrightarrow> \<not> stops op0 r \<Longrightarrow> run_chain code l ns r = and_or_list code l r op0 ns"
proof (induction ns arbitrary: l r op0)
  case (Cons n ns)
  then show ?case
    by (cases "ns = []") (auto simp: Let_def same_operator_Cons and_or_skips)
qed simp

text \<open>The commands run are a first part of the chain, each but the last letting the chain go on.\<close>

lemma run_chain_prefix:
  assumes "ns \<noteq> []"
  shows "\<exists>k < length ns. run_chain code l ns r =
      (l @ map cn_command (take (Suc k) ns), code (l @ map cn_command (take k ns)) (cn_command (ns ! k))) \<and>
    (\<forall>j < k. \<not> stops (cn_next_op (ns ! j)) (code (l @ map cn_command (take j ns)) (cn_command (ns ! j)))) \<and>
    (Suc k = length ns \<or> stops (cn_next_op (ns ! k)) (code (l @ map cn_command (take k ns)) (cn_command (ns ! k))))"
  using assms
proof (induction ns arbitrary: l r)
  case Nil
  then show ?case by simp
next
  case (Cons n ns)
  show ?case
  proof (cases "ns = [] \<or> stops (cn_next_op n) (code l (cn_command n))")
    case True
    then show ?thesis by (intro exI [of _ 0]) (auto simp: Let_def)
  next
    case False
    then obtain k where k: "k < length ns" "run_chain code (l @ [cn_command n]) ns (code l (cn_command n)) =
        (l @ cn_command n # map cn_command (take (Suc k) ns), code (l @ cn_command n # map cn_command (take k ns)) (cn_command (ns ! k)))"
      "\<forall>j < k. \<not> stops (cn_next_op (ns ! j)) (code (l @ cn_command n # map cn_command (take j ns)) (cn_command (ns ! j)))"
      "Suc k = length ns \<or> stops (cn_next_op (ns ! k)) (code (l @ cn_command n # map cn_command (take k ns)) (cn_command (ns ! k)))"
      using Cons.IH [of "l @ [cn_command n]" "code l (cn_command n)"] by auto
    from k False show ?thesis
      by (intro exI [of _ "Suc k"]) (auto simp: Let_def less_Suc_eq_0_disj)
  qed
qed

lemma segments_not_empty: "parse_semicolons c = Some segs \<Longrightarrow> [] \<notin> set segs"
proof -
  have "[] \<notin> set (split_semicolons s)" for s
    by (induction s rule: split_semicolons.induct) (subst split_semicolons.simps, auto simp: Let_def split: option.splits)
  then show "parse_semicolons c = Some segs \<Longrightarrow> [] \<notin> set segs" by (auto simp: parse_semicolons_def split: option.splits if_splits)
qed

lemma nodes_not_empty: "n \<in> set (parse_conditionals c) \<Longrightarrow> cn_command n \<noteq> []"
proof -
  have "n \<in> set (split_conditionals s) \<Longrightarrow> cn_command n \<noteq> []" for s
    by (induction s rule: split_conditionals.induct)
      (subst (asm) split_conditionals.simps, auto simp: segment_node_def Let_def split: option.splits if_splits)
  then show "n \<in> set (parse_conditionals c) \<Longrightarrow> cn_command n \<noteq> []" by (auto simp: parse_conditionals_def split: option.splits if_splits)
qed


section \<open>Properties\<close>

text \<open>
  A command line with semicolons runs each of its segments once, in the order written, whatever their
  exit codes, and returns the code of the last one. The sentinel of an outer fork is consumed first, so that
  whoever waits for the outer process finds its slot free; all other slots are as before.
\<close>

theorem sequential_runs_every_segment:
  assumes "settles env code out log" and "ready (sh_table st)" and "parse_semicolons command = Some segs" and "segs \<noteq> []"
  shows "\<exists>st'. ios_execute_sequential env command st = Returns (code (log (sh_world st) @ butlast segs) (last segs)) st' \<and>
    log (sh_world st') = log (sh_world st) @ segs \<and>
    pt_thread_ids (sh_table st') = released (se_self env) (sh_table st)"
proof -
  obtain st1 where st1: "release_outer_fork_sentinel env st = Returns () st1" "ready (sh_table st1)"
    "pt_thread_ids (sh_table st1) = released (se_self env) (sh_table st)" "sh_world st1 = sh_world st"
    using release_sentinel_eq [OF assms(2)] by metis
  with run_segments_settles [OF assms(1) st1(2) segments_not_empty [OF assms(3)], of 0] assms(3,4)
  show ?thesis by (auto simp: ios_execute_sequential_def)
qed

text \<open>
  C25: a chain of \<^verbatim>\<open>&&\<close> and \<^verbatim>\<open>||\<close> runs its commands in order up to the first whose exit code does not let its operator go
  on (a failure before \<^verbatim>\<open>&&\<close>, a success before \<^verbatim>\<open>||\<close>), or to the end, and returns the code of the last command run.
\<close>

theorem conditional_short_circuits:
  assumes "settles env code out log" and "ready (sh_table st)" and "ns = parse_conditionals command" and "ns \<noteq> []"
  shows "\<exists>k st'. k < length ns \<and>
    ios_execute_conditional env command st =
      Returns (code (log (sh_world st) @ map cn_command (take k ns)) (cn_command (ns ! k))) st' \<and>
    log (sh_world st') = log (sh_world st) @ map cn_command (take (Suc k) ns) \<and>
    (\<forall>j < k. \<not> stops (cn_next_op (ns ! j)) (code (log (sh_world st) @ map cn_command (take j ns)) (cn_command (ns ! j)))) \<and>
    (Suc k = length ns \<or>
     stops (cn_next_op (ns ! k)) (code (log (sh_world st) @ map cn_command (take k ns)) (cn_command (ns ! k)))) \<and>
    pt_thread_ids (sh_table st') = released (se_self env) (sh_table st)"
proof -
  obtain st1 where st1: "release_outer_fork_sentinel env st = Returns () st1" "ready (sh_table st1)"
    "pt_thread_ids (sh_table st1) = released (se_self env) (sh_table st)" "sh_world st1 = sh_world st"
    using release_sentinel_eq [OF assms(2)] by metis
  have "\<forall>n \<in> set ns. cn_command n \<noteq> []" using assms(3) nodes_not_empty by simp
  with run_nodes_settles [OF assms(1) st1(2), of ns 0] obtain st' where
    "run_nodes env ns 0 st1 = Returns (snd (run_chain code (log (sh_world st1)) ns 0)) st'"
    "log (sh_world st') = fst (run_chain code (log (sh_world st1)) ns 0)"
    "pt_thread_ids (sh_table st') = pt_thread_ids (sh_table st1)" by blast
  with run_chain_prefix [OF assms(4), of code "log (sh_world st)" 0] st1 assms(3,4) show ?thesis
    by (auto simp: ios_execute_conditional_def Let_def)
qed

text \<open>
  C26: a chain with one kind of operator is the AND-OR list of the POSIX shell: it runs the same commands in the same order
  and returns the same code.
\<close>

theorem uniform_chain_is_posix:
  assumes "settles env code out log" and "ready (sh_table st)" and "same_operator op (parse_conditionals command)"
  shows "\<exists>st'. ios_execute_conditional env command st =
      Returns (snd (and_or_list code (log (sh_world st)) 0 IOS_OP_NONE (parse_conditionals command))) st' \<and>
    log (sh_world st') = fst (and_or_list code (log (sh_world st)) 0 IOS_OP_NONE (parse_conditionals command))"
proof -
  let ?ns = "parse_conditionals command"
  obtain st1 where st1: "release_outer_fork_sentinel env st = Returns () st1" "ready (sh_table st1)"
    "sh_world st1 = sh_world st"
    using release_sentinel_eq [OF assms(2)] by metis
  have "\<forall>n \<in> set ?ns. cn_command n \<noteq> []" using nodes_not_empty by simp
  with run_nodes_settles [OF assms(1) st1(2), of ?ns 0] st1 run_chain_and_or [OF assms(3), of IOS_OP_NONE 0]
  show ?thesis by (auto simp: ios_execute_conditional_def Let_def stops_def)
qed

text \<open>With both operators it is not: after \<^verbatim>\<open>false && b\<close> the shell goes on with \<^verbatim>\<open>|| c\<close>, the chain ends.\<close>

lemma mixed_chain_not_posix:
  defines "ns \<equiv> [\<lparr>cn_command = ''a'', cn_next_op = IOS_OP_AND\<rparr>, \<lparr>cn_command = ''b'', cn_next_op = IOS_OP_OR\<rparr>,
    \<lparr>cn_command = ''c'', cn_next_op = IOS_OP_NONE\<rparr>]"
  shows "run_chain (\<lambda>_ c. if c = ''a'' then 1 else 0) [] ns 0 = ([''a''], 1)"
    and "and_or_list (\<lambda>_ c. if c = ''a'' then 1 else 0) [] 0 IOS_OP_NONE ns = ([''a'', ''c''], 0)"
  by (simp_all add: ns_def stops_def Let_def)

text \<open>
  \<^verbatim>\<open>ios_system\<close> takes the first bar of a \<^verbatim>\<open>||\<close> for a pipe: unless a single bar comes before it, a command line with \<^verbatim>\<open>||\<close> is
  never given to \<^verbatim>\<open>ios_execute_conditional\<close>.
\<close>

lemma or_not_conditional:
  assumes "strstrquoted (Some s) (Some ''||'') = Some p" and "strstrquoted (Some s) (Some ''|'') = Some p"
  shows "ios_system_dispatch s \<noteq> Conditional"
  using assms by (simp add: ios_system_dispatch_def Let_def)

lemma or_dispatch_example:
  "ios_system_dispatch ''a || b'' = SingleCommand" "ios_system_dispatch ''a && b || c'' = SingleCommand"
  "ios_system_dispatch ''a && b'' = Conditional" "ios_system_dispatch ''x | y || z'' = Conditional"
  by (simp_all add: ios_system_dispatch_def strstrquoted_def char_defs)

text \<open>\<^verbatim>\<open>splitCommandAndExecute\<close> with \<^verbatim>\<open>||\<close> alone runs the empty command in place of the first one.\<close>

lemma split_or_runs_empty: "next_command ''a || b'' = Some (0, False)"
  by (simp add: next_command_def strstrquoted_def char_defs)

section \<open>Capturing output\<close>

lemma read_pipe_all:
  "length buf + 1 < capacity \<Longrightarrow>
   fst (read_pipe offer capacity buf rest) = buf @ rest \<and> length (buf @ rest) < snd (read_pipe offer capacity buf rest)"
proof (induction rest arbitrary: buf capacity rule: length_induct)
  case (1 rest)
  define n where "n = min (Suc (offer (length buf))) (min (capacity - length buf - 1) (length rest))"
  define c where "c = (if length buf + n \<ge> capacity - 1 then capacity * 2 else capacity)"
  have eq: "read_pipe offer capacity buf rest =
      (if \<not> n > 0 then (buf, capacity) else read_pipe offer c (buf @ take n rest) (drop n rest))"
    unfolding n_def c_def by (rule trans [OF read_pipe.simps]) (simp only: Let_def)
  have le: "n \<le> length rest" "n \<le> capacity - length buf - 1" by (simp_all add: n_def)
  show ?case
  proof (cases "n > 0")
    case True
    then have "length (drop n rest) < length rest" using le by simp
    moreover have "length (buf @ take n rest) + 1 < c" using le "1.prems" True by (auto simp: c_def)
    ultimately have "fst (read_pipe offer c (buf @ take n rest) (drop n rest)) = (buf @ take n rest) @ drop n rest \<and>
        length ((buf @ take n rest) @ drop n rest) < snd (read_pipe offer c (buf @ take n rest) (drop n rest))"
      using "1.IH" by blast
    with eq True show ?thesis by (simp only: append_assoc append_take_drop_id simp_thms if_False)
  next
    case False
    then have "rest = []" using "1.prems" by (simp add: n_def)
    with eq False "1.prems" show ?thesis by simp
  qed
qed

definition stripped :: "string \<Rightarrow> string" where
  "stripped s = rev (dropWhile is_newline (rev s))"

lemma strip_newlines_eq: "strip_newlines s (length s) = stripped s"
  by (induction s rule: rev_induct) (auto simp: stripped_def nth_append)

text \<open>What a substitution puts in the place of a command.\<close>

definition substituted :: "(string list \<Rightarrow> string \<Rightarrow> string) \<Rightarrow> string list \<Rightarrow> string \<Rightarrow> string" where
  "substituted out l cmd = (if cmd = [] then [] else c_string (stripped (out l cmd)))"

definition pipes_work :: "'w shell_env \<Rightarrow> bool" where
  "pipes_work env \<longleftrightarrow> (\<forall>st. se_pipe env st \<noteq> None \<and> se_fdopen env st)"

lemma ready_set_current:
  "ready t \<Longrightarrow> in_table pid \<Longrightarrow> ready (set_current self pid t)"
  by (auto simp: ready_def pt_inv_def table_shape_def set_current_def pid_free_def)

text \<open>The state in which a captured command runs.\<close>

definition capturing :: "nat \<Rightarrow> 'w shell \<Rightarrow> 'w shell" where
  "capturing p st = (ios_setChildStreams None (Some p) None (st\<lparr>sh_pipes := (sh_pipes st)(p := [])\<rparr>))\<lparr>sh_join := True\<rparr>"

lemma capturing_simps [simp]:
  "sh_table (capturing p st) = sh_table st" "sh_world (capturing p st) = sh_world st" "sh_join (capturing p st)"
  "sh_child (capturing p st) = (None, Some p, None)" "sh_pipes (capturing p st) p = []" "pipes_after (capturing p st) x p = x"
  by (simp_all add: capturing_def ios_setChildStreams_def pipes_after_def)

lemma capture_settles:
  assumes "runs_captured cap env code out log" "pipes_work env" "ready (sh_table st)" "length (out (log (sh_world st)) cmd) \<le> cap"
  obtains st' where "capture_command_output env cmd st = Returns (substituted out (log (sh_world st)) cmd) st'"
    "log (sh_world st') = log (sh_world st) @ (if cmd = [] then [] else [cmd])" "ready (sh_table st')"
    "pt_thread_ids (sh_table st') = pt_thread_ids (sh_table st)"
    "pt_current_pid (sh_table st') (se_self env) = pt_current_pid (sh_table st) (se_self env)"
    "sh_join st' = sh_join st" "cmd \<noteq> [] \<longrightarrow> sh_child st' = (None, None, None)"
proof (cases "cmd = []")
  case True
  then show thesis using that [of st] assms(3) by (simp add: capture_command_output_def substituted_def)
next
  case False
  obtain p where p: "se_pipe env st = Some p" "se_fdopen env st" using assms(2) by (auto simp: pipes_work_def)
  have "ends_well env code out log pid cmd ((capturing p st)\<lparr>sh_table := t\<rparr>)" if "in_child (se_self env) pid t" for pid t
    using assms(1) [unfolded runs_captured_def, THEN spec, of cmd, THEN spec, of "(capturing p st)\<lparr>sh_table := t\<rparr>", THEN spec, of pid, THEN spec, of p]
      that assms(4) by simp
  then obtain st2 where st2: "run_and_wait env cmd (capturing p st) = Returns (code (log (sh_world st)) cmd) st2"
    "log (sh_world st2) = log (sh_world st) @ [cmd]" "ready (sh_table st2)"
    "pt_thread_ids (sh_table st2) = pt_thread_ids (sh_table st)"
    "sh_pipes st2 = pipes_after (capturing p st) (out (log (sh_world st)) cmd)"
    using run_and_wait_ends [of env code out log cmd "capturing p st"] assms(3) by (metis capturing_simps(1,2))
  have cur: "in_table (ios_currentPid (se_self env) (sh_table st))"
    using assms(3) by (auto simp: ready_def ios_currentPid_def intro: pt_invD)
  show thesis
    using that [of "ios_setChildStreams None None None (st2\<lparr>sh_table :=
        ios_setCurrentPid (se_self env) (ios_currentPid (se_self env) (sh_table st)) (sh_table st2), sh_join := sh_join st\<rparr>)"]
      False p st2 ready_set_current [OF st2(3) cur, of "se_self env"] read_pipe_all [of "[]" 4096 "se_read_size env"]
    by (simp add: capture_command_output_def Let_def capturing_def [symmetric] ios_setChildStreams_def substituted_def
        strip_newlines_eq ios_setCurrentPid_def set_current_def ios_currentPid_def)
      (simp add: capture_command_output_def Let_def capturing_def ios_setChildStreams_def pipes_after_def)
qed

text \<open>
  The pipe is read only after the command has ended. A command that writes more than the pipe holds waits for a reader, and the capture for the command.
\<close>

lemma capture_blocks:
  assumes "runs_captured cap env code out log" "pipes_work env" "ready (sh_table st)" "cap < length (out (log (sh_world st)) cmd)" "cmd \<noteq> []"
  shows "\<exists>st'. capture_command_output env cmd st = Blocked st'"
proof -
  obtain p where p: "se_pipe env st = Some p" "se_fdopen env st" using assms(2) by (auto simp: pipes_work_def)
  have "\<exists>st2. se_system env cmd ((capturing p st)\<lparr>sh_table := t\<rparr>) = Blocked st2" if "in_child (se_self env) pid t" for pid t
    using assms(1) [unfolded runs_captured_def, THEN spec, of cmd, THEN spec, of "(capturing p st)\<lparr>sh_table := t\<rparr>", THEN spec, of pid, THEN spec, of p]
      that assms(4) by simp
  then obtain st' where "run_and_wait env cmd (capturing p st) = Blocked st'"
    using run_and_wait_blocks [of env cmd "capturing p st"] assms(3) by auto
  then show ?thesis using p assms(5) by (simp add: capture_command_output_def Let_def capturing_def ios_setChildStreams_def)
qed

section \<open>Expansion\<close>

lemma paren_loop_bound: "paren_loop depth sq dq i r = Some k \<Longrightarrow> i \<le> k \<and> k < i + length r"
  by (induction depth sq dq i r rule: paren_loop.induct) (auto split: if_splits)

lemma backtick_loop_found: "backtick_loop sq dq i r = Some k \<Longrightarrow> i \<le> k \<and> k < i + length r \<and> r ! (k - i) = backtick"
  by (induction sq dq i r rule: backtick_loop.induct) (fastforce simp: nth_Cons' split: if_splits)+

text \<open>The number of characters that can start a substitution.\<close>

definition markers :: "string \<Rightarrow> nat" where
  "markers s = count_list s (CHR ''$'') + count_list s backtick"

lemma markers_append [simp]: "markers (a @ b) = markers a + markers b"
  by (simp add: markers_def)

lemma markers_Cons: "markers (c # s) = (if c = CHR ''$'' \<or> c = backtick then Suc (markers s) else markers s)"
  by (auto simp: markers_def char_defs)

lemma markers_drop: "markers (drop n s) \<le> markers s"
  by (metis append_take_drop_id le_add2 markers_append)

lemma markers_zero: "markers s = 0 \<longleftrightarrow> CHR ''$'' \<notin> set s \<and> backtick \<notin> set s"
  by (simp add: markers_def count_list_0_iff)

lemma markers_cut:
  assumes "d < length s" "s ! d = CHR ''$'' \<or> s ! d = backtick" "d < e" "markers out = 0"
  shows "markers (take d s @ out @ drop (e + k + 1) s) < markers s" "markers (take k (drop e s)) < markers s"
proof -
  have "markers s = markers (take d s @ s ! d # drop (Suc d) s)" using assms(1) by (simp add: id_take_nth_drop [symmetric])
  then have s: "markers s = Suc (markers (take d s) + markers (drop (Suc d) s))" using assms(2) by (simp add: markers_Cons)
  obtain m where m: "e = m + Suc d" using assms(3) by (metis Suc_leI le_Suc_ex add.commute)
  have e: "drop e s = drop m (drop (Suc d) s)" by (simp add: m)
  have "drop (e + k + 1) s = drop (m + k + 1) (drop (Suc d) s)" by (simp add: m add.commute add.left_commute)
  with s assms(4) markers_drop [of "m + k + 1" "drop (Suc d) s"]
  show "markers (take d s @ out @ drop (e + k + 1) s) < markers s" by simp
  have "markers (take k (drop e s)) \<le> markers (drop e s)" by (metis append_take_drop_id le_add1 markers_append)
  with s markers_drop [of m "drop (Suc d) s"] show "markers (take k (drop e s)) < markers s" by (simp add: e)
qed

definition expands :: "(string, 'w shell) exec option \<Rightarrow> string \<Rightarrow> bool" where
  "expands x s \<longleftrightarrow> (\<exists>r st'. x = Some (Returns r st') \<and> ready (sh_table st') \<and> markers r \<le> markers s)"

lemma expandsI: "x = Some (Returns r st') \<Longrightarrow> ready (sh_table st') \<Longrightarrow> markers r \<le> markers s \<Longrightarrow> expands x s"
  by (auto simp: expands_def)

lemma expands_mono: "expands x r \<Longrightarrow> markers r \<le> markers s \<Longrightarrow> expands x s"
  by (fastforce simp: expands_def)

lemma markers_substituted:
  assumes "\<forall>l c. markers (out l c) = 0"
  shows "markers (substituted out l cmd) = 0"
  using assms unfolding markers_zero substituted_def c_string_def stripped_def
  by (auto dest: set_takeWhileD) (metis set_dropWhileD set_rev set_takeWhileD)+

lemma expand_dollars_step:
  assumes "runs_captured cap env code out log" "pipes_work env" "\<forall>l c. length (out l c) \<le> cap" "\<forall>l c. markers (out l c) = 0" "ready (sh_table st)"
    and "\<And>s' st'. ready (sh_table st') \<Longrightarrow> markers s' < markers s \<Longrightarrow> expands (expand_dollars n env s' st') s'"
    and "\<And>s' st'. ready (sh_table st') \<Longrightarrow> markers s' < markers s \<Longrightarrow> expands (ios_expand_substitutions n env s' st') s'"
  shows "expands (expand_dollars (Suc n) env s st) s"
proof (cases "strstr s ''$('' = None \<or> strstrquoted (Some s) (Some ''$('') = None")
  case True
  then show ?thesis using assms(5) by (intro expandsI [of _ s st]) auto
next
  case False
  then obtain d where d: "strstrquoted (Some s) (Some ''$('') = Some d" "strstr s ''$('' \<noteq> None" by auto
  have u: "d < length s" "s ! d = CHR ''$''"
    using scan_sound [of "''$(''" None 0 0 "[]" s d "[]"] d(1)
    by (auto simp: strstrquoted_def unquoted_at_pair char_defs split: if_splits)
  show ?thesis
  proof (cases "find_matching_paren (drop (d + 2) s)")
    case None
    then show ?thesis using d assms(5) by (intro expandsI [of _ s st]) auto
  next
    case (Some k)
    have cut: "markers (take k (drop (d + 2) s)) < markers s"
      "markers out' = 0 \<Longrightarrow> markers (take d s @ out' @ drop (d + 2 + k + 1) s) < markers s" for out'
      using markers_cut [OF u(1), of "d + 2" "[]" k] markers_cut [OF u(1), of "d + 2" out' k] u(2) by (auto simp: markers_def)
    from assms(7) [OF assms(5) cut(1)] obtain r st1 where
      r: "ios_expand_substitutions n env (take k (drop (d + 2) s)) st = Some (Returns r st1)" "ready (sh_table st1)"
      by (auto simp: expands_def)
    obtain st2 where c: "capture_command_output env r st1 = Returns (substituted out (log (sh_world st1)) r) st2"
      "ready (sh_table st2)" using capture_settles [OF assms(1,2) r(2) assms(3) [rule_format]] by metis
    have lt: "markers (take d s @ substituted out (log (sh_world st1)) r @ drop (d + 2 + k + 1) s) < markers s"
      by (intro cut(2) markers_substituted assms(4))
    from assms(6) [OF c(2) lt] lt have "expands (expand_dollars n env
        (take d s @ substituted out (log (sh_world st1)) r @ drop (d + 2 + k + 1) s) st2) s"
      by (auto intro: expands_mono)
    then show ?thesis using d Some r(1) c(1) by (auto simp: string_replace_range_def)
  qed
qed

lemma expand_backticks_step:
  assumes "runs_captured cap env code out log" "pipes_work env" "\<forall>l c. length (out l c) \<le> cap" "\<forall>l c. markers (out l c) = 0" "ready (sh_table st)"
    and "\<And>s' st'. ready (sh_table st') \<Longrightarrow> markers s' < markers s \<Longrightarrow> expands (expand_backticks n env s' st') s'"
  shows "expands (expand_backticks (Suc n) env s st) s"
proof (cases "find_backtick s")
  case None
  then show ?thesis using assms(5) by (intro expandsI [of _ s st]) auto
next
  case (Some d)
  have u: "d < length s" "s ! d = backtick" using backtick_loop_found [of False False 0 s d] Some by (auto simp: find_backtick_def)
  show ?thesis
  proof (cases "find_backtick (drop (d + 1) s)")
    case None
    then show ?thesis using Some assms(5) by (intro expandsI [of _ s st]) auto
  next
    case (Some k)
    let ?c = "take k (drop (d + 1) s)"
    obtain st1 where c: "capture_command_output env ?c st = Returns (substituted out (log (sh_world st)) ?c) st1"
      "ready (sh_table st1)" using capture_settles [OF assms(1,2,5) assms(3) [rule_format]] by metis
    have lt: "markers (take d s @ substituted out (log (sh_world st)) ?c @ drop (d + 1 + k + 1) s) < markers s"
      by (rule markers_cut(1)) (use u markers_substituted [OF assms(4)] in auto)
    from assms(6) [OF c(2) lt] lt have "expands (expand_backticks n env
        (take d s @ substituted out (log (sh_world st)) ?c @ drop (d + 1 + k + 1) s) st1) s"
      by (auto intro: expands_mono)
    then show ?thesis using \<open>find_backtick s = Some d\<close> Some c(1) by (simp add: string_replace_range_def)
  qed
qed

lemma expansion_returns:
  assumes "runs_captured cap env code out log" "pipes_work env" "\<forall>l c. length (out l c) \<le> cap" "\<forall>l c. markers (out l c) = 0"
  shows "(\<forall>s st. ready (sh_table st) \<longrightarrow> 2 * markers s + 1 \<le> n \<longrightarrow> expands (expand_dollars n env s st) s) \<and>
    (\<forall>s st. ready (sh_table st) \<longrightarrow> markers s + 1 \<le> n \<longrightarrow> expands (expand_backticks n env s st) s) \<and>
    (\<forall>s st. ready (sh_table st) \<longrightarrow> 2 * markers s + 2 \<le> n \<longrightarrow> expands (ios_expand_substitutions n env s st) s)"
proof (induction n)
  case 0
  then show ?case by simp
next
  case (Suc n)
  have 1: "expands (expand_dollars (Suc n) env s st) s" if "ready (sh_table st)" "2 * markers s + 1 \<le> Suc n" for s st
    using Suc that by (intro expand_dollars_step [OF assms]) auto
  have 2: "expands (expand_backticks (Suc n) env s st) s" if "ready (sh_table st)" "markers s + 1 \<le> Suc n" for s st
    using Suc that by (intro expand_backticks_step [OF assms]) auto
  have 3: "expands (ios_expand_substitutions (Suc n) env s st) s" if "ready (sh_table st)" "2 * markers s + 2 \<le> Suc n" for s st
  proof (cases "strstr s ''$('' = None \<and> backtick \<notin> set s")
    case True
    then show ?thesis using that by (intro expandsI [of _ s st]) auto
  next
    case False
    from Suc that have "expands (expand_dollars n env s st) s" by auto
    then obtain r st1 where r: "expand_dollars n env s st = Some (Returns r st1)" "ready (sh_table st1)" "markers r \<le> markers s"
      by (auto simp: expands_def)
    with Suc that have "expands (expand_backticks n env r st1) r" by auto
    with r False show ?thesis by (auto intro: expands_mono)
  qed
  from 1 2 3 show ?case by blast
qed


text \<open>Texts with substitutions, and what becomes of them.\<close>

fun subst_text :: "string \<Rightarrow> (string \<times> string) list \<Rightarrow> string" where
  "subst_text a [] = a"
| "subst_text a ((c, b) # ps) = a @ ''$('' @ c @ '')'' @ subst_text b ps"

fun subst_result :: "(string list \<Rightarrow> string \<Rightarrow> string) \<Rightarrow> string list \<Rightarrow> string \<Rightarrow> (string \<times> string) list \<Rightarrow> string" where
  "subst_result out l a [] = a"
| "subst_result out l a ((c, b) # ps) = a @ substituted out l c @ subst_result out (l @ [c]) b ps"

text \<open>Text that the expansion copies, and commands it takes as they are.\<close>

definition plain_text :: "string \<Rightarrow> bool" where
  "plain_text s \<longleftrightarrow> markers s = 0 \<and> dquote \<notin> set s \<and> squote \<notin> set s"

definition plain_command :: "string \<Rightarrow> bool" where
  "plain_command c \<longleftrightarrow> c \<noteq> [] \<and> plain_text c \<and> CHR ''('' \<notin> set c \<and> CHR '')'' \<notin> set c"

lemma plain_text_append [simp]: "plain_text (a @ b) \<longleftrightarrow> plain_text a \<and> plain_text b"
  by (auto simp: plain_text_def)

lemma strstr_absent: "CHR ''$'' \<notin> set s \<Longrightarrow> strstr s ''$('' = None"
  by (induction s) (subst strstr.simps, auto)+

lemma strstr_present: "strstr (a @ ''$('' @ b) ''$('' \<noteq> None"
  by (induction a) (subst strstr.simps, auto)+

lemma scan_plain:
  "plain_text a \<Longrightarrow> \<exists>e'. scan_quoted ''$('' None e 0 i (a @ r) = scan_quoted ''$('' None e' 0 (i + length a) r"
proof (induction a arbitrary: e i)
  case (Cons c a)
  then have "plain_text a" "c \<noteq> dquote" "c \<noteq> squote" "c \<noteq> CHR ''$''" by (auto simp: plain_text_def markers_Cons split: if_splits)
  with Cons.IH [of "if c = backslash then e + 1 else e" "Suc i"] show ?case by (auto simp: Let_def)
qed auto

lemma strstrquoted_plain:
  assumes "plain_text a"
  shows "strstrquoted (Some (a @ ''$('' @ r)) (Some ''$('') = Some (length a)"
proof -
  obtain e where "scan_quoted ''$('' None 0 0 0 (a @ ''$('' @ r) = scan_quoted ''$('' None e 0 (length a) (''$('' @ r)"
    using scan_plain [OF assms, of 0 0 "''$('' @ r"] by auto
  then have "scan_quoted ''$('' None 0 0 0 (a @ ''$('' @ r) = Some (length a)" by (simp add: char_defs Let_def)
  moreover have "a = []" if "a @ ''$('' @ r = ''$(''"
    using arg_cong [OF that, of length] by simp
  ultimately show ?thesis by (auto simp: strstrquoted_def)
qed

lemma paren_plain: "plain_command c \<or> c = [] \<Longrightarrow> find_matching_paren (c @ '')'' @ r) = Some (length c)"
proof -
  have "plain_text c \<Longrightarrow> CHR ''('' \<notin> set c \<Longrightarrow> CHR '')'' \<notin> set c \<Longrightarrow>
      paren_loop 1 False False i (c @ '')'' @ r) = Some (i + length c)" for i
    by (induction c arbitrary: i) (auto simp: plain_text_def markers_Cons char_defs split: if_splits)
  from this [of 0] show "plain_command c \<or> c = [] \<Longrightarrow> find_matching_paren (c @ '')'' @ r) = Some (length c)"
    by (auto simp: find_matching_paren_def plain_command_def plain_text_def markers_def)
qed

lemma expand_plain: "plain_text s \<Longrightarrow> ios_expand_substitutions (Suc n) env s st = Some (Returns s st)"
  by (simp add: plain_text_def markers_zero strstr_absent)

lemma backticks_plain: "plain_text s \<Longrightarrow> expand_backticks (Suc n) env s st = Some (Returns s st)"
proof -
  have "find_backtick s = None" if "backtick \<notin> set s"
    using backtick_loop_found [of False False 0 s] that
    by (cases "find_backtick s") (auto simp: find_backtick_def, metis nth_mem)
  then show "plain_text s \<Longrightarrow> expand_backticks (Suc n) env s st = Some (Returns s st)"
    by (simp add: plain_text_def markers_zero)
qed


lemma subst_text_append: "subst_text (a @ b) ps = a @ subst_text b ps"
  by (cases ps) auto

lemma subst_result_append: "subst_result out l (a @ b) ps = a @ subst_result out l b ps"
  by (cases ps) auto

definition substitutes :: "string \<Rightarrow> (string \<times> string) list \<Rightarrow> (string list \<Rightarrow> string \<Rightarrow> string) \<Rightarrow> bool" where
  "substitutes a ps out \<longleftrightarrow> plain_text a \<and> (\<forall>(c, b) \<in> set ps. plain_command c \<and> plain_text b) \<and>
     (\<forall>l. \<forall>(c, b) \<in> set ps. plain_text (substituted out l c))"

lemma expand_dollars_text:
  assumes "runs_captured cap env code out log" "pipes_work env" "\<forall>l c. length (out l c) \<le> cap"
  shows "ready (sh_table st) \<Longrightarrow> substitutes a ps out \<Longrightarrow> length ps + 1 \<le> n \<Longrightarrow>
    \<exists>st'. expand_dollars n env (subst_text a ps) st =
        Some (Returns (subst_result out (log (sh_world st)) a ps) st') \<and>
      log (sh_world st') = log (sh_world st) @ map fst ps \<and>
      pt_thread_ids (sh_table st') = pt_thread_ids (sh_table st) \<and>
      pt_current_pid (sh_table st') (se_self env) = pt_current_pid (sh_table st) (se_self env) \<and>
      plain_text (subst_result out (log (sh_world st)) a ps)"
proof (induction ps arbitrary: a n st)
  case Nil
  then obtain m where "n = Suc m" by (cases n) auto
  with Nil show ?case by (auto simp: substitutes_def plain_text_def markers_zero strstr_absent)
next
  case (Cons x ps)
  obtain c b where x: "x = (c, b)" by (cases x)
  have "n = Suc (Suc (n - 2))" using Cons.prems(3) by simp
  then obtain m where n: "n = Suc (Suc m)" by blast
  have c: "plain_command c" "plain_text a" "plain_text b" using Cons.prems(2) x by (auto simp: substitutes_def)
  then have cn: "c \<noteq> []" "plain_text c" by (simp_all add: plain_command_def)
  define o' where "o' = substituted out (log (sh_world st)) c"
  obtain st1 where st1: "capture_command_output env c st = Returns o' st1"
    "log (sh_world st1) = log (sh_world st) @ [c]" "ready (sh_table st1)"
    "pt_thread_ids (sh_table st1) = pt_thread_ids (sh_table st)"
    "pt_current_pid (sh_table st1) (se_self env) = pt_current_pid (sh_table st) (se_self env)"
    using capture_settles [OF assms(1,2) Cons.prems(1), of c thesis] assms(3) that cn(1) by (auto simp: o'_def)
  have sub: "substitutes (a @ o' @ b) ps out" using Cons.prems(2) x by (auto simp: substitutes_def o'_def)
  define s where "s = a @ ''$('' @ c @ '')'' @ subst_text b ps"
  have cut: "drop (length a + 2) s = c @ '')'' @ subst_text b ps" "take (length c) (c @ '')'' @ subst_text b ps) = c"
    "string_replace_range (Some s) (Some (length a)) (Some (length a + 2 + length c + 1)) (Some o') = Some (subst_text (a @ o' @ b) ps)"
    by (simp_all add: s_def string_replace_range_def subst_text_append numeral_3_eq_3)
  have found: "strstr s ''$('' \<noteq> None" "strstrquoted (Some s) (Some ''$('') = Some (length a)"
    "find_matching_paren (c @ '')'' @ subst_text b ps) = Some (length c)"
    using strstr_present [of a] strstrquoted_plain [OF c(2)] paren_plain [of c] c(1) by (simp_all add: s_def)
  have "expand_dollars n env (subst_text a (x # ps)) st = expand_dollars (Suc m) env (subst_text (a @ o' @ b) ps) st1"
    unfolding x n subst_text.simps s_def [symmetric] expand_dollars.simps(2) [of "Suc m" env s]
    by (simp only: found cut expand_plain [OF cn(2)] st1(1) option.case exec.case if_False simp_thms)
  with Cons.IH [OF st1(3) sub, of "Suc m"] Cons.prems(3) st1 show ?case
    by (simp add: x n subst_result_append o'_def del: expand_dollars.simps)
qed


text \<open>
  The output of a substituted command that fits into the pipe is captured in full. With working pipes, the capture returns everything the command
  wrote, up to a zero byte and without the newlines at the end, however the reads are split; the buffer has
  room for it and the terminating zero. It leaves the calling thread in the process it was in, all slots of the process
  table and \<^verbatim>\<open>joinMainThread\<close> as they were, and no redirection behind.
\<close>

theorem capture_returns_output:
  assumes "runs_captured cap env code out log" and "pipes_work env" and "ready (sh_table st)" and "length (out (log (sh_world st)) cmd) \<le> cap"
    and "cmd \<noteq> []"
  shows "\<exists>st'. capture_command_output env cmd st = Returns (c_string (stripped (out (log (sh_world st)) cmd))) st' \<and>
    log (sh_world st') = log (sh_world st) @ [cmd] \<and>
    pt_current_pid (sh_table st') (se_self env) = pt_current_pid (sh_table st) (se_self env) \<and>
    pt_thread_ids (sh_table st') = pt_thread_ids (sh_table st) \<and>
    sh_join st' = sh_join st \<and> sh_child st' = (None, None, None) \<and>
    length bytes < snd (read_pipe (se_read_size env) 4096 [] bytes)"
proof -
  have "length bytes < snd (read_pipe (se_read_size env) 4096 [] bytes)"
    using read_pipe_all [of "[]" 4096 "se_read_size env" bytes] by simp
  moreover obtain st' where "capture_command_output env cmd st = Returns (substituted out (log (sh_world st)) cmd) st'"
    "log (sh_world st') = log (sh_world st) @ [cmd]"
    "pt_thread_ids (sh_table st') = pt_thread_ids (sh_table st)"
    "pt_current_pid (sh_table st') (se_self env) = pt_current_pid (sh_table st) (se_self env)"
    "sh_join st' = sh_join st" "sh_child st' = (None, None, None)"
    using capture_settles [OF assms(1-4), of thesis] assms(5) by auto
  ultimately show ?thesis using assms(5) by (simp add: substituted_def)
qed

text \<open>
  C24: substitution replaces each \<^verbatim>\<open>$(command)\<close> by the output of the command. Let the text consist of plain pieces and commands (no
  quotes, dollars or backticks in them, no parentheses in the commands, so that nothing is quoted or nested), let the outputs be free of these characters too,
  and let each output fit into the pipe. Then the commands run once each, from left to right, and the result is the text with each substitution replaced by what its
  command wrote, up to a zero byte and without the newlines at its end; the thread stays in its process and the slots of the process table are as before.
  An output that does not fit blocks the caller for ever, see \<open>large_output_blocks\<close>.
\<close>

theorem substitution_replaces_commands:
  assumes "runs_captured cap env code out log" and "pipes_work env" and "ready (sh_table st)"
    and "substitutes a ps out" and "\<forall>l c. length (out l c) \<le> cap" and "length ps + 3 \<le> n"
  shows "\<exists>st'. ios_expand_substitutions n env (subst_text a ps) st =
      Some (Returns (subst_result out (log (sh_world st)) a ps) st') \<and>
    log (sh_world st') = log (sh_world st) @ map fst ps \<and>
    pt_thread_ids (sh_table st') = pt_thread_ids (sh_table st) \<and>
    pt_current_pid (sh_table st') (se_self env) = pt_current_pid (sh_table st) (se_self env)"
proof (cases ps)
  case Nil
  moreover obtain m where "n = Suc m" using assms(6) by (cases n) auto
  ultimately show ?thesis using assms(4) expand_plain [of a m env st] by (auto simp: substitutes_def simp del: ios_expand_substitutions.simps)
next
  case (Cons x ps')
  obtain c b where x: "x = (c, b)" by (cases x)
  have "n = Suc (Suc (n - 2))" using assms(6) by simp
  then obtain m where n: "n = Suc (Suc m)" by blast
  have "strstr (subst_text a ps) ''$('' \<noteq> None" using strstr_present [of a] by (simp add: Cons x)
  with expand_dollars_text [OF assms(1,2,5,3,4), of "Suc m"] assms(6) n show ?thesis
    by (auto simp: backticks_plain simp del: expand_dollars.simps expand_backticks.simps)
qed

text \<open>
  C28: expansion ends when the outputs fit into the pipe and hold no further substitution. If no command writes more than the pipe holds, and none writes a dollar or
  a backtick, the expansion of any text, quoted or nested as it may be, returns, after at most twice as many nested passes as the text has such characters, and two
  more. Without the first condition it can wait for ever (\<open>large_output_blocks\<close>), without the second it can go on for ever (\<open>expansion_may_not_end\<close>).
\<close>

theorem expansion_terminates:
  assumes "runs_captured cap env code out log" and "pipes_work env" and "\<forall>l c. length (out l c) \<le> cap"
    and "\<forall>l c. CHR ''$'' \<notin> set (out l c) \<and> backtick \<notin> set (out l c)"
    and "ready (sh_table st)" and "2 * markers s + 2 \<le> n"
  shows "\<exists>result st'. ios_expand_substitutions n env s st = Some (Returns result st') \<and> markers result \<le> markers s"
proof -
  have "\<forall>l c. markers (out l c) = 0" using assms(4) by (simp add: markers_zero)
  from expansion_returns [OF assms(1-3) this, of n] assms(5,6) have "expands (ios_expand_substitutions n env s st) s" by blast
  then show ?thesis by (auto simp: expands_def)
qed

text \<open>A command in a substitution that writes more than the pipe holds: the expansion waits for the command, the command for a reader.\<close>

lemma large_output_blocks:
  assumes "runs_captured cap env code out log" "pipes_work env" "ready (sh_table st)" "cap < length (out (log (sh_world st)) c)"
    and "plain_text a" "plain_command c"
  shows "\<exists>st'. ios_expand_substitutions (Suc (Suc (Suc n))) env (a @ ''$('' @ c @ '')'' @ b) st = Some (Blocked st')"
proof -
  have cn: "c \<noteq> []" "plain_text c" using assms(6) by (simp_all add: plain_command_def)
  obtain st' where blk: "capture_command_output env c st = Blocked st'" using capture_blocks [OF assms(1-4) cn(1)] by blast
  define s where "s = a @ ''$('' @ c @ '')'' @ b"
  have cut: "drop (length a + 2) s = c @ '')'' @ b" "take (length c) (c @ '')'' @ b) = c" by (simp_all add: s_def)
  have found: "strstr s ''$('' \<noteq> None" "strstrquoted (Some s) (Some ''$('') = Some (length a)"
    "find_matching_paren (c @ '')'' @ b) = Some (length c)"
    using strstr_present [of a] strstrquoted_plain [OF assms(5)] paren_plain [of c] assms(6) by (simp_all add: s_def)
  have "expand_dollars (Suc (Suc n)) env s st = Some (Blocked st')"
    unfolding expand_dollars.simps(2) [of "Suc n" env s]
    by (simp only: found cut expand_plain [OF cn(2)] blk option.case exec.case if_False simp_thms)
  then show ?thesis using found(1) unfolding s_def [symmetric] by (simp del: expand_dollars.simps)
qed

text \<open>
  The outputs are themselves expanded. A command that writes a substitution of itself keeps the expansion going for ever, whatever the
  bound.
\<close>

lemma expansion_may_not_end:
  assumes "runs_captured cap env code out log" "pipes_work env" "\<forall>l. out l ''x'' = ''$(x)''" "ready (sh_table st)" "4 \<le> cap"
  shows "ios_expand_substitutions n env ''$(x)'' st = None"
proof -
  have loop: "ready (sh_table st) \<Longrightarrow> expand_dollars n env ''$(x)'' st = None" for n st
  proof (induction n arbitrary: st)
    case (Suc n)
    obtain st1 where st1: "capture_command_output env ''x'' st = Returns ''$(x)'' st1" "ready (sh_table st1)"
      using capture_settles [OF assms(1,2) Suc.prems, of "''x''" thesis] assms(3,5)
      by (auto simp: substituted_def stripped_def c_string_def is_newline_def)
    have x: "strstr ''$(x)'' ''$('' = Some 0" "strstrquoted (Some ''$(x)'') (Some ''$('') = Some 0"
      "find_matching_paren ''x)'' = Some 1" "strstr ''x'' ''$('' = None" "backtick \<noteq> CHR ''x''"
      "string_replace_range (Some ''$(x)'') (Some 0) (Some (Suc (Suc (Suc (Suc 0))))) (Some ''$(x)'') = Some ''$(x)''"
      by (simp_all add: strstr.simps strstrquoted_def find_matching_paren_def char_defs string_replace_range_def)
    show ?case
    proof (cases n)
      case (Suc m)
      then show ?thesis using Suc.IH [OF st1(2)] x st1(1) by simp
    qed (simp add: x)
  qed simp
  show ?thesis
  proof (cases n)
    case (Suc m)
    then show ?thesis using loop [OF assms(4), of m] by (auto simp: strstr.simps simp del: expand_dollars.simps)
  qed simp
qed

section \<open>A concrete shell\<close>

text \<open>
  Commands that end in the calling thread, with given exit codes and outputs; the world is the list of commands
  run. Thread 7 is in the process that \<open>start_fork\<close> made.
\<close>

definition demo_system ::
  "(string list \<Rightarrow> string \<Rightarrow> int) \<Rightarrow> (string list \<Rightarrow> string \<Rightarrow> string) \<Rightarrow> string \<Rightarrow> string list shell \<Rightarrow> (int, string list shell) exec" where
  "demo_system code out cmd st =
     (case ios_storeThreadId 7 0 (sh_table st) of
        None \<Rightarrow> Crash
      | Some t \<Rightarrow> Returns (code (sh_world st) cmd)
          (st\<lparr>sh_table := t, sh_pipes := pipes_after st (out (sh_world st) cmd), sh_world := sh_world st @ [cmd]\<rparr>))"

definition demo_shell ::
  "(string list \<Rightarrow> string \<Rightarrow> int) \<Rightarrow> (string list \<Rightarrow> string \<Rightarrow> string) \<Rightarrow> string list shell_env" where
  "demo_shell code out =
     \<lparr>se_self = 7, se_system = demo_system code out, se_fork_wakes = (\<lambda>_. []), se_wait_wakes = (\<lambda>_. []),
      se_wasm = None, se_pipe = (\<lambda>_. Some 3), se_fdopen = (\<lambda>_. True), se_read_size = (\<lambda>_. 0)\<rparr>"

definition demo_state :: "string list shell" where
  "demo_state = \<lparr>sh_table = forked_table, sh_join = False, sh_child = (None, None, None), sh_pipes = (\<lambda>_. []), sh_world = []\<rparr>"

text \<open>The same with a pipe of \<open>cap\<close> bytes for a captured command.\<close>

definition bounded_shell ::
  "nat \<Rightarrow> (string list \<Rightarrow> string \<Rightarrow> int) \<Rightarrow> (string list \<Rightarrow> string \<Rightarrow> string) \<Rightarrow> string list shell_env" where
  "bounded_shell cap code out =
     (demo_shell code out)\<lparr>se_system := (\<lambda>cmd st.
        case fst (snd (sh_child st)) of
          None \<Rightarrow> demo_system code out cmd st
        | Some p \<Rightarrow> if length (sh_pipes st p) + length (out (sh_world st) cmd) \<le> cap then demo_system code out cmd st else Blocked st)\<rparr>"

lemma demo_ends:
  assumes "in_child 7 pid (sh_table st)"
  shows "ends_well (demo_shell code out) code out (\<lambda>w. w) pid cmd st"
proof -
  let ?t = "sh_table st" let ?env = "demo_shell code out"
  have c: "pt_inv ?t" "pt_cleanup_counter ?t \<le> 0" "pt_current_pid ?t 7 = pid" "0 < pid" "pt_thread_ids ?t ! nat pid = - 1"
    using assms by (auto simp: in_child_def)
  have p: "in_table pid" "table_shape ?t" using c(1,3) by (auto intro: pt_invD)
  define t1 where "t1 = (set_current 7 (pt_previousPid ?t ! nat pid) ?t)\<lparr>pt_thread_ids := (pt_thread_ids ?t)[nat pid := 0]\<rparr>"
  have s: "ios_storeThreadId 7 0 ?t = Some t1" using c p by (simp add: ios_storeThreadId_def t1_def)
  have inv: "pt_inv t1" using c(1) pt_invD(5) [OF c(1) p(1)] by (auto simp: t1_def pt_inv_def table_shape_def set_current_def)
  have "waited_thread pid (t1\<lparr>pt_order := 0\<rparr>) = Some 0"
    using c(4) p in_table_nat [OF p(1)] by (simp add: waited_thread_def ios_getThreadId_def t1_def in_table_def table_shape_def set_current_def)
  then have w: "ios_waitpid None [] pid t1 = Returns () (t1\<lparr>pt_order := 0\<rparr>)"
    by (simp add: ios_waitpid_def executeWebAssemblyCommandsInOrder_def spin_until_done)
  let ?st = "st\<lparr>sh_table := t1, sh_pipes := pipes_after st (out (sh_world st) cmd), sh_world := sh_world st @ [cmd]\<rparr>"
  show ?thesis
    unfolding ends_well_def
    using s w inv c(2) by (intro exI [of _ ?st] exI [of _ "t1\<lparr>pt_order := 0\<rparr>"])
      (simp add: demo_shell_def demo_system_def pt_inv_def table_shape_def t1_def set_current_def)
qed

lemma demo_settles: "settles (demo_shell code out) code out (\<lambda>w. w)"
  using demo_ends by (auto simp: settles_def demo_shell_def)

lemma bounded_captured: "runs_captured cap (bounded_shell cap code out) code out (\<lambda>w. w)"
proof -
  have "ends_well (bounded_shell cap code out) code out (\<lambda>w. w) pid cmd st = ends_well (demo_shell code out) code out (\<lambda>w. w) pid cmd st"
    if "fst (snd (sh_child st)) = Some p" "length (sh_pipes st p) + length (out (sh_world st) cmd) \<le> cap" for pid cmd p and st :: "string list shell"
    using that by (simp add: ends_well_def bounded_shell_def demo_shell_def)
  then show ?thesis
    unfolding runs_captured_def using demo_ends by (auto simp: bounded_shell_def demo_shell_def)
qed

lemma demo_facts: "ready (sh_table demo_state)" "pipes_work (bounded_shell cap code out)" "sh_world demo_state = []"
  using forked_table_facts
  by (auto simp: ready_def demo_state_def pid_free_def pipes_work_def demo_shell_def bounded_shell_def IOS_MAX_THREADS_def in_table_def intro!: exI [of _ 2])

lemma demo_self [simp]: "se_self (demo_shell code out) = 7" "se_self (bounded_shell cap code out) = 7"
  by (simp_all add: demo_shell_def bounded_shell_def)

lemma demo_released: "released 7 (sh_table demo_state) ! 1 = 0" "pt_current_pid (sh_table demo_state) 7 = 1"
  using forked_table_facts by (simp_all add: released_def demo_state_def IOS_MAX_THREADS_def)

theorem sequential_runs_every_segment_witness:
  "\<exists>st'. ios_execute_sequential (demo_shell (\<lambda>_ c. int (length c)) (\<lambda>_ _. [])) (Some ''false; ls'') demo_state = Returns 2 st' \<and>
    sh_world st' = [''false'', ''ls''] \<and> pt_thread_ids (sh_table st') ! 1 = 0"
proof -
  have "parse_semicolons (Some ''false; ls'') = Some [''false'', ''ls'']"
    by (simp add: parse_semicolons_def split_semicolons.simps strstrquoted_def trim_whitespace_eq trimmed_def is_blank_def char_defs)
  from sequential_runs_every_segment [OF demo_settles [of "\<lambda>_ c. int (length c)" "\<lambda>_ _. []"] demo_facts(1) this]
  show ?thesis using demo_released by (auto simp: demo_facts)
qed

lemma parse_and_chain:
  "parse_conditionals (Some ''a && b && c'') = [\<lparr>cn_command = ''a'', cn_next_op = IOS_OP_AND\<rparr>,
     \<lparr>cn_command = ''b'', cn_next_op = IOS_OP_AND\<rparr>, \<lparr>cn_command = ''c'', cn_next_op = IOS_OP_NONE\<rparr>]"
  by (simp add: parse_conditionals_def split_conditionals.simps next_operator_def strstrquoted_def segment_node_def
      trim_whitespace_eq trimmed_def is_blank_def char_defs)

text \<open>
  A shell in which only the command \<^verbatim>\<open>b\<close> fails, and one with a pipe of four bytes whose commands write the first three letters of their name.
\<close>

definition b_fails :: "string list shell_env" where
  "b_fails = demo_shell (\<lambda>_ c. if c = ''b'' then 1 else 0) (\<lambda>_ _. [])"

definition initials :: "string list \<Rightarrow> string \<Rightarrow> string" where
  "initials l c = take 3 c @ [CHR 0x0A]"

definition echo_shell :: "string list shell_env" where
  "echo_shell = bounded_shell 4 (\<lambda>_ _. 0) initials"

lemmas b_fails_settles = demo_settles [of "\<lambda>_ c. if c = ''b'' then 1 else 0" "\<lambda>_ _. []", folded b_fails_def]
lemmas echo_captured = bounded_captured [of 4 "\<lambda>_ _. 0" initials, folded echo_shell_def]
lemmas echo_pipes = demo_facts(2) [of 4 "\<lambda>_ _. 0" initials, folded echo_shell_def]

lemma initials_fit: "\<forall>l c. length (initials l c) \<le> 4"
  by (simp add: initials_def)

theorem conditional_short_circuits_witness:
  "\<exists>st'. ios_execute_conditional b_fails (Some ''a && b && c'') demo_state = Returns 1 st' \<and> sh_world st' = [''a'', ''b'']"
proof -
  obtain k st' where k: "k < 3" "ios_execute_conditional b_fails (Some ''a && b && c'') demo_state =
      Returns (if [''a'', ''b'', ''c''] ! k = ''b'' then 1 else 0) st'" "sh_world st' = take (Suc k) [''a'', ''b'', ''c'']"
    "\<forall>j < k. \<not> ([''a'', ''b'', ''c''] ! j = ''b'' \<and> j < 2)" "k = 2 \<or> [''a'', ''b'', ''c''] ! k = ''b''"
    using conditional_short_circuits [OF b_fails_settles demo_facts(1) parse_and_chain [symmetric]]
    by (fastforce simp: demo_facts stops_def less_Suc_eq numeral_3_eq_3 numeral_2_eq_2)
  then have "k = 1" by (auto simp: less_Suc_eq numeral_3_eq_3 numeral_2_eq_2)
  with k show ?thesis by (auto simp: numeral_2_eq_2)
qed

theorem uniform_chain_is_posix_witness:
  "\<exists>st'. ios_execute_conditional b_fails (Some ''a && b && c'') demo_state = Returns 1 st' \<and> sh_world st' = [''a'', ''b'']"
  using uniform_chain_is_posix [OF b_fails_settles demo_facts(1), of IOS_OP_AND "Some ''a && b && c''"]
  by (simp add: parse_and_chain same_operator_def stops_def demo_facts)

theorem capture_returns_output_witness:
  "\<exists>st'. capture_command_output echo_shell ''ls'' demo_state = Returns ''ls'' st' \<and> pt_current_pid (sh_table st') 7 = 1"
  using capture_returns_output [OF echo_captured echo_pipes demo_facts(1), of "''ls''"] demo_released initials_fit
  by (auto simp: c_string_def stripped_def is_newline_def echo_shell_def initials_def)

theorem substitution_replaces_commands_witness:
  "\<exists>st'. ios_expand_substitutions 5 echo_shell ''a $(ls) b $(pwd)'' demo_state = Some (Returns ''a ls b pwd'' st') \<and>
    sh_world st' = [''ls'', ''pwd'']"
proof -
  have "substitutes ''a '' [(''ls'', '' b ''), (''pwd'', [])] initials"
    by (simp add: substitutes_def plain_command_def plain_text_def markers_def char_defs substituted_def stripped_def
        is_newline_def c_string_def initials_def)
  from substitution_replaces_commands [OF echo_captured echo_pipes demo_facts(1) this initials_fit, of 5] show ?thesis
    by (auto simp: demo_facts substituted_def stripped_def is_newline_def c_string_def initials_def simp del: ios_expand_substitutions.simps)
qed

theorem expansion_terminates_witness:
  "\<exists>r st'. ios_expand_substitutions 6 (bounded_shell 8 (\<lambda>_ _. 0) (\<lambda>_ _. ''7'')) ''$(a $(b))'' demo_state = Some (Returns r st')"
proof -
  have "\<forall>(l :: string list) (c :: string). CHR ''$'' \<notin> set ''7'' \<and> backtick \<notin> set ''7''" "\<forall>(l :: string list) (c :: string). length ''7'' \<le> 8" "2 * markers ''$(a $(b))'' + 2 \<le> 6"
    by (simp_all add: markers_def char_defs)
  from expansion_terminates [OF bounded_captured [of 8 "\<lambda>_ _. 0" "\<lambda>_ _. ''7''"] demo_facts(2) this(2,1) demo_facts(1) this(3)]
  show ?thesis by blast
qed

end
