(* ===== verification/Pipeline.thy ===== *)
theory Pipeline
  imports Shell_Parser
begin

text \<open>
  \<^verbatim>\<open>ios_pipeline.m\<close>: the stages of a pipeline, cut out of the command line, connected by pipes and run in threads of their own.

  Streams are values of a type that says what they are connected to; descriptors are numbers. What the system answers
  to \<^verbatim>\<open>pipe\<close>, \<^verbatim>\<open>fdopen\<close> and \<^verbatim>\<open>pthread_create\<close> for each stage is an argument, as is the exit code of \<^verbatim>\<open>ios_system\<close> on the command of a stage.
  Allocations succeed.
\<close>

section \<open>Cutting a command line into stages\<close>

definition MAX_PIPELINE_STAGES :: nat where
  "MAX_PIPELINE_STAGES = 32"

definition bar :: char where "bar = CHR ''|''"
definition amp :: char where "amp = CHR ''&''"
definition blank :: char where "blank = CHR '' ''"

definition skip_spaces :: "string \<Rightarrow> string" where
  "skip_spaces s = dropWhile (\<lambda>c. c = blank) s"

text \<open>The loop that cuts trailing spaces stops at the first character; that one is not a space.\<close>

definition cut_spaces :: "string \<Rightarrow> string" where
  "cut_spaces s = rev (dropWhile (\<lambda>c. c = blank) (rev s))"

text \<open>
  The loop: \<open>cur\<close> is the text from \<^verbatim>\<open>stage_start\<close> to \<^verbatim>\<open>ptr\<close>. An ampersand before the bar is overwritten by a zero, at which the search for
  trailing spaces stops at once; one after the bar by a space. The result has the stages, the flag and what is left
  from \<^verbatim>\<open>stage_start\<close> on.
\<close>

function pipe_loop :: "nat \<Rightarrow> string \<Rightarrow> string \<Rightarrow> string list \<Rightarrow> bool \<Rightarrow> string list \<times> bool \<times> string" where
  "pipe_loop max_stages cur rest stages shared =
     (case rest of
        [] \<Rightarrow> (stages, shared, cur)
      | c # r \<Rightarrow>
          if \<not> length stages < max_stages then (stages, shared, cur @ rest)
          else if c = bar then
            let before = (cur \<noteq> [] \<and> last cur = amp);
                after = (\<not> before \<and> r \<noteq> [] \<and> hd r = amp);
                stage = (if before then skip_spaces (butlast cur) else cut_spaces (skip_spaces cur))
            in pipe_loop max_stages [] (if after then blank # tl r else r)
                 (if length stage > 0 then stages @ [stage] else stages) (shared \<or> before \<or> after)
          else pipe_loop max_stages (cur @ [c]) r stages shared)"
  by pat_completeness auto

termination pipe_loop
  by (relation "measure (\<lambda>(_, _, rest, _, _). length rest)") (auto simp: Let_def)

lemmas [simp del] = pipe_loop.simps

text \<open>The stages stored in the array, one after the other from index 0, and \<^verbatim>\<open>*share_stderr\<close>.\<close>

definition parse_pipeline :: "nat \<Rightarrow> string \<Rightarrow> string list \<times> bool" where
  "parse_pipeline max_stages command =
     (case pipe_loop max_stages [] command [] False of
        (stages, shared, left) \<Rightarrow>
          (let stage = skip_spaces left
           in if length stage > 0 then stages @ [cut_spaces stage] else stages, shared))"

section \<open>Stages\<close>

datatype pstream = PStdin | PStdout | PStderr | Given nat | ReadEnd int | WriteEnd int

datatype ios_pipeline_stage_status = IOS_STAGE_PENDING | IOS_STAGE_RUNNING | IOS_STAGE_COMPLETED | IOS_STAGE_FAILED | IOS_STAGE_KILLED

record pipeline_options =
  po_input :: "nat option"
  po_output :: "nat option"
  po_error :: "nat option"
  po_session :: nat

record pipeline_stage =
  ps_command :: string
  ps_stdin :: "pstream option"
  ps_stdout :: "pstream option"
  ps_stderr :: "pstream option"
  ps_pipe_read :: int
  ps_pipe_write :: int
  ps_thread :: tid
  ps_status :: ios_pipeline_stage_status
  ps_exit_code :: int
  ps_session :: nat
  ps_stdin_external :: bool
  ps_stdout_external :: bool
  ps_stderr_external :: bool

record pipeline =
  pl_stages :: "pipeline_stage list"
  pl_share_stderr :: bool
  pl_running :: int
  pl_completed :: int
  pl_all_started :: bool

text \<open>The answers of the system for stage \<open>i\<close>: its pipe, whether its two streams can be opened, its thread.\<close>

record pipeline_env =
  pe_pipe :: "nat \<Rightarrow> (int \<times> int) option"
  pe_fdopen_read :: "nat \<Rightarrow> bool"
  pe_fdopen_write :: "nat \<Rightarrow> bool"
  pe_thread :: "nat \<Rightarrow> tid option"

definition given_or :: "nat option \<Rightarrow> pstream \<Rightarrow> pstream option" where
  "given_or f std = Some (case f of None \<Rightarrow> std | Some n \<Rightarrow> Given n)"

text \<open>
  The set-up of stage \<open>i\<close> of \<open>n\<close>. \<open>prev\<close> is \<^verbatim>\<open>pipe_to_next[0]\<close> of the stage before. A stage keeps a descriptor that could not be turned into a
  stream; the read end is turned into a stream by the set-up of the next stage.
\<close>

definition setup_stage ::
  "pipeline_env \<Rightarrow> pipeline_options \<Rightarrow> bool \<Rightarrow> nat \<Rightarrow> nat \<Rightarrow> int \<Rightarrow> int \<times> int \<Rightarrow> string \<Rightarrow> pipeline_stage" where
  "setup_stage env options shared n i prev fds command =
     (let is_last = (i + 1 = n);
          input = (if i = 0 then given_or (po_input options) PStdin
                   else if pe_fdopen_read env i then Some (ReadEnd prev) else None);
          output = (if is_last then given_or (po_output options) PStdout
                    else if pe_fdopen_write env i then Some (WriteEnd (snd fds)) else None);
          errors = (if shared \<or> is_last then
                      if is_last \<and> po_error options \<noteq> None then (map_option Given (po_error options), True)
                      else (output, is_last)
                    else (given_or (po_error options) PStderr, po_error options \<noteq> None))
      in \<lparr>ps_command = command, ps_stdin = input, ps_stdout = output, ps_stderr = fst errors,
          ps_pipe_read = (if is_last \<or> pe_fdopen_read env (i + 1) then - 1 else fst fds),
          ps_pipe_write = (if is_last \<or> pe_fdopen_write env i then - 1 else snd fds),
          ps_thread = 0, ps_status = IOS_STAGE_PENDING, ps_exit_code = 0, ps_session = po_session options,
          ps_stdin_external = (i = 0), ps_stdout_external = is_last, ps_stderr_external = snd errors\<rparr>)"

text \<open>\<open>None\<close> when a pipe cannot be made: the pipeline is given up.\<close>

fun setup_stages ::
  "pipeline_env \<Rightarrow> pipeline_options \<Rightarrow> bool \<Rightarrow> nat \<Rightarrow> nat \<Rightarrow> int \<Rightarrow> string list \<Rightarrow> pipeline_stage list option" where
  "setup_stages env options shared n i prev [] = Some []"
| "setup_stages env options shared n i prev (c # cs) =
     (if i + 1 = n then
        map_option (Cons (setup_stage env options shared n i prev (- 1, - 1) c)) (setup_stages env options shared n (i + 1) (- 1) cs)
      else case pe_pipe env i of
        None \<Rightarrow> None
      | Some fds \<Rightarrow>
          map_option (Cons (setup_stage env options shared n i prev fds c)) (setup_stages env options shared n (i + 1) (fst fds) cs))"

definition launch :: "pipeline_env \<Rightarrow> nat \<Rightarrow> pipeline_stage \<Rightarrow> pipeline_stage" where
  "launch env i st =
     (case pe_thread env i of
        None \<Rightarrow> st\<lparr>ps_status := IOS_STAGE_FAILED, ps_exit_code := - 1\<rparr>
      | Some t \<Rightarrow> st\<lparr>ps_thread := t\<rparr>)"

text \<open>The process table after the sentinel is released, and the pipeline.\<close>

definition ios_pipeline_execute ::
  "tid \<Rightarrow> pipeline_env \<Rightarrow> string option \<Rightarrow> pipeline_options option \<Rightarrow> process_table \<Rightarrow> (process_table \<times> pipeline option) option" where
  "ios_pipeline_execute self env command options t =
     (case (command, options) of
        (Some c, Some opts) \<Rightarrow>
          (case ios_storeThreadId self 0 t of
             None \<Rightarrow> None
           | Some t1 \<Rightarrow>
               (case parse_pipeline MAX_PIPELINE_STAGES c of
                  (commands, shared) \<Rightarrow>
                    if length commands > MAX_PIPELINE_STAGES then None
                    else if commands = [] then Some (t1, None)
                    else case setup_stages env opts shared (length commands) 0 (- 1) commands of
                      None \<Rightarrow> Some (t1, None)
                    | Some stages \<Rightarrow>
                        let launched = map (\<lambda>i. launch env i (stages ! i)) [0..<length stages]
                        in Some (t1, Some \<lparr>pl_stages = launched, pl_share_stderr = shared,
                             pl_running = int (length (filter (\<lambda>i. pe_thread env i \<noteq> None) [0..<length stages])), pl_completed = 0,
                             pl_all_started = True\<rparr>)))
      | _ \<Rightarrow> Some (t, None))"

section \<open>The thread of a stage\<close>

text \<open>The stage after its thread has run, and the streams given to \<^verbatim>\<open>fclose\<close>. \<open>run\<close> gives the exit code of the command.\<close>

definition pipeline_stage_thread :: "(string \<Rightarrow> int) \<Rightarrow> pipeline_stage \<Rightarrow> pipeline_stage \<times> pstream list" where
  "pipeline_stage_thread run stage =
     (let result = run (ps_command stage);
          close_out = (ps_stdout stage \<noteq> None \<and> \<not> ps_stdout_external stage \<and> ps_stdout stage \<noteq> Some PStdout);
          out1 = (if close_out then None else ps_stdout stage);
          close_err = (ps_stderr stage \<noteq> None \<and> \<not> ps_stderr_external stage \<and> ps_stderr stage \<noteq> Some PStderr \<and>
                       ps_stderr stage \<noteq> out1);
          close_in = (ps_stdin stage \<noteq> None \<and> \<not> ps_stdin_external stage \<and> ps_stdin stage \<noteq> Some PStdin)
      in (stage\<lparr>ps_stdout := out1, ps_stderr := (if close_err then None else ps_stderr stage),
               ps_stdin := (if close_in then None else ps_stdin stage), ps_exit_code := result,
               ps_status := (if result = 0 then IOS_STAGE_COMPLETED else IOS_STAGE_FAILED)\<rparr>,
          (if close_out then [the (ps_stdout stage)] else []) @ (if close_err then [the (ps_stderr stage)] else []) @
          (if close_in then [the (ps_stdin stage)] else [])))"

section \<open>Waiting, killing, statistics\<close>

text \<open>
  A join waits for the thread of the stage; the model runs the thread of a stage that has not run before. Neither the order in which
  the threads run nor the timeout has an effect on the result.
\<close>

definition has_run :: "pipeline_stage \<Rightarrow> bool" where
  "has_run st \<longleftrightarrow> ps_status st = IOS_STAGE_COMPLETED \<or> ps_status st = IOS_STAGE_FAILED"

definition join_stage :: "(string \<Rightarrow> int) \<Rightarrow> pipeline_stage \<Rightarrow> pipeline_stage" where
  "join_stage run st =
     (if ps_thread st \<noteq> 0 then (if has_run st then st else fst (pipeline_stage_thread run st))\<lparr>ps_thread := 0\<rparr> else st)"

definition ios_pipeline_wait :: "(string \<Rightarrow> int) \<Rightarrow> int \<Rightarrow> pipeline option \<Rightarrow> int \<times> pipeline option" where
  "ios_pipeline_wait run timeout_ms pipeline =
     (case pipeline of
        None \<Rightarrow> (- 1, None)
      | Some p \<Rightarrow>
          let joined = int (length (filter (\<lambda>st. ps_thread st \<noteq> 0) (pl_stages p)));
              stages = map (join_stage run) (pl_stages p)
          in (if length stages > 0 then ps_exit_code (last stages) else 0,
              Some (p\<lparr>pl_stages := stages, pl_running := pl_running p - joined, pl_completed := pl_completed p + joined\<rparr>)))"

definition ios_pipeline_is_complete :: "pipeline option \<Rightarrow> bool" where
  "ios_pipeline_is_complete pipeline =
     (case pipeline of None \<Rightarrow> True | Some p \<Rightarrow> pl_completed p = int (length (pl_stages p)))"

record pipeline_stats =
  st_num_stages :: int
  st_running_stages :: int
  st_completed_stages :: int
  st_failed_stages :: int
  st_all_started :: bool
  st_all_completed :: bool

definition ios_pipeline_get_stats :: "pipeline option \<Rightarrow> pipeline_stats option" where
  "ios_pipeline_get_stats pipeline =
     map_option (\<lambda>p. \<lparr>st_num_stages = int (length (pl_stages p)), st_running_stages = pl_running p,
       st_completed_stages = pl_completed p,
       st_failed_stages = int (length (filter (\<lambda>st. ps_status st = IOS_STAGE_FAILED \<or> ps_status st = IOS_STAGE_KILLED) (pl_stages p))),
       st_all_started = pl_all_started p, st_all_completed = ios_pipeline_is_complete (Some p)\<rparr>) pipeline"

definition ios_pipeline_kill :: "pipeline option \<Rightarrow> int \<times> pipeline option" where
  "ios_pipeline_kill pipeline =
     (case pipeline of
        None \<Rightarrow> (- 1, None)
      | Some p \<Rightarrow>
          (0, Some (p\<lparr>pl_stages := map (\<lambda>st. if ps_status st = IOS_STAGE_RUNNING \<and> ps_thread st \<noteq> 0
                                                then st\<lparr>ps_status := IOS_STAGE_KILLED\<rparr> else st) (pl_stages p)\<rparr>)))"

text \<open>The descriptors closed when the pipeline is destroyed, after the wait it may need.\<close>

definition ios_pipeline_destroy :: "(string \<Rightarrow> int) \<Rightarrow> pipeline option \<Rightarrow> int list" where
  "ios_pipeline_destroy run pipeline =
     (let waited = (if ios_pipeline_is_complete pipeline then pipeline else snd (ios_pipeline_wait run (- 1) pipeline))
      in case waited of
           None \<Rightarrow> []
         | Some p \<Rightarrow> concat (map (\<lambda>st. (if ps_pipe_read st \<ge> 0 then [ps_pipe_read st] else []) @
                                       (if ps_pipe_write st \<ge> 0 then [ps_pipe_write st] else [])) (pl_stages p)))"

definition ios_pipeline_get_stage_info :: "pipeline option \<Rightarrow> int \<Rightarrow> (string \<times> ios_pipeline_stage_status \<times> int) option" where
  "ios_pipeline_get_stage_info pipeline i =
     (case pipeline of
        None \<Rightarrow> None
      | Some p \<Rightarrow>
          if i < 0 \<or> i \<ge> int (length (pl_stages p)) then None
          else let st = pl_stages p ! nat i in Some (ps_command st, ps_status st, ps_exit_code st))"

section \<open>Parsing\<close>

definition stage_text :: "string \<Rightarrow> string" where
  "stage_text w = cut_spaces (skip_spaces w)"

lemma pipe_loop_text:
  "bar \<notin> set w \<Longrightarrow> length stages < m \<Longrightarrow> pipe_loop m cur (w @ rest) stages shared = pipe_loop m (cur @ w) rest stages shared"
proof (induction w arbitrary: cur)
  case (Cons c w)
  then show ?case by (subst pipe_loop.simps) auto
qed simp

text \<open>Pieces between bars, where no bar has an ampersand next to it.\<close>

definition pipe_pieces :: "string list \<Rightarrow> bool" where
  "pipe_pieces ws \<longleftrightarrow> ws \<noteq> [] \<and> (\<forall>w \<in> set ws. bar \<notin> set w) \<and>
     (\<forall>w \<in> set (butlast ws). w \<noteq> [] \<longrightarrow> last w \<noteq> amp) \<and> (\<forall>w \<in> set (tl ws). w \<noteq> [] \<longrightarrow> hd w \<noteq> amp)"

lemma pipe_pieces_Cons:
  "ws \<noteq> [] \<Longrightarrow> pipe_pieces (w # ws) \<longleftrightarrow>
    bar \<notin> set w \<and> (w \<noteq> [] \<longrightarrow> last w \<noteq> amp) \<and> (hd ws \<noteq> [] \<longrightarrow> hd (hd ws) \<noteq> amp) \<and> pipe_pieces ws"
  by (cases ws) (auto simp: pipe_pieces_def)

lemma hd_join:
  assumes "pipe_pieces ws" "hd ws \<noteq> [] \<longrightarrow> hd (hd ws) \<noteq> amp"
  shows "join_with [bar] ws \<noteq> [] \<longrightarrow> hd (join_with [bar] ws) \<noteq> amp"
proof (cases ws)
  case (Cons w ws')
  with assms show ?thesis by (cases "ws' = []"; cases w) (auto simp: join_with_Cons bar_def amp_def)
qed simp

lemma pipe_loop_pieces:
  "pipe_pieces ws \<Longrightarrow> length stages + length ws \<le> Suc m \<Longrightarrow>
   pipe_loop m [] (join_with [bar] ws) stages shared =
     (stages @ filter (\<lambda>w. w \<noteq> []) (map stage_text (butlast ws)), shared, last ws)"
proof (induction ws arbitrary: stages)
  case Nil
  then show ?case by (simp add: pipe_pieces_def)
next
  case (Cons w ws)
  show ?case
  proof (cases "ws = []")
    case True
    show ?thesis
    proof (cases "length stages < m")
      case True
      with \<open>ws = []\<close> Cons.prems pipe_loop_text [of w stages m "[]" "[]" shared] show ?thesis
        by (simp add: pipe_pieces_def) (subst pipe_loop.simps, simp)
    next
      case False
      with \<open>ws = []\<close> show ?thesis by (subst pipe_loop.simps) (auto split: list.split)
    qed
  next
    case False
    note p = Cons.prems(1) [unfolded pipe_pieces_Cons [OF False]]
    have m: "length stages < m" using Cons.prems(2) False by (cases ws) auto
    let ?stages = "stages @ filter (\<lambda>w. w \<noteq> []) [stage_text w]"
    have "pipe_loop m [] (w @ bar # join_with [bar] ws) stages shared = pipe_loop m w (bar # join_with [bar] ws) stages shared"
      using pipe_loop_text [of w stages m "[]" "bar # join_with [bar] ws"] p m by simp
    also have "\<dots> = pipe_loop m [] (join_with [bar] ws) ?stages shared"
      using p m hd_join [of ws] by (subst pipe_loop.simps) (auto simp: Let_def stage_text_def)
    also have "\<dots> = (?stages @ filter (\<lambda>w. w \<noteq> []) (map stage_text (butlast ws)), shared, last ws)"
      using Cons.prems(2) p by (intro Cons.IH) auto
    finally show ?thesis using False by (simp add: join_with_Cons)
  qed
qed

lemma cut_spaces_empty: "skip_spaces w \<noteq> [] \<Longrightarrow> cut_spaces (skip_spaces w) \<noteq> []"
proof -
  assume t: "skip_spaces w \<noteq> []"
  then have "hd (skip_spaces w) \<noteq> blank" using hd_dropWhile [of "\<lambda>c. c = blank" w] unfolding skip_spaces_def by blast
  then have "\<exists>c \<in> set (skip_spaces w). c \<noteq> blank" using hd_in_set [OF t] by blast
  then show ?thesis by (simp add: cut_spaces_def)
qed

lemma parse_pieces:
  assumes "pipe_pieces ws" "length ws \<le> Suc m"
  shows "parse_pipeline m (join_with [bar] ws) = (filter (\<lambda>w. w \<noteq> []) (map stage_text ws), False)"
proof -
  have ws: "ws = butlast ws @ [last ws]" using assms(1) by (simp add: pipe_pieces_def)
  have "(if length (skip_spaces w) > 0 then xs @ [cut_spaces (skip_spaces w)] else xs) = xs @ filter (\<lambda>w. w \<noteq> []) [stage_text w]" for w xs
    using cut_spaces_empty [of w] by (auto simp: stage_text_def cut_spaces_def)
  moreover have "filter (\<lambda>w. w \<noteq> []) (map stage_text (butlast ws)) @ filter (\<lambda>w. w \<noteq> []) [stage_text (last ws)] =
      filter (\<lambda>w. w \<noteq> []) (map stage_text ws)"
    using arg_cong [OF ws, of "\<lambda>x. filter (\<lambda>w. w \<noteq> []) (map stage_text x)"] by simp
  ultimately show ?thesis
    using pipe_loop_pieces [OF assms(1), of "[]" m False] assms(2) by (simp only: parse_pipeline_def Let_def) simp
qed


section \<open>Wiring\<close>

definition pipe_fds :: "pipeline_env \<Rightarrow> nat \<Rightarrow> nat \<Rightarrow> int \<times> int" where
  "pipe_fds env n i = (if i + 1 = n then (- 1, - 1) else the (pe_pipe env i))"

lemma setup_stages_eq:
  "setup_stages env options shared n i prev cs = Some sts \<Longrightarrow> i + length cs = n \<Longrightarrow>
   length sts = length cs \<and>
   (\<forall>j < length cs. sts ! j = setup_stage env options shared n (i + j)
        (if j = 0 then prev else fst (pipe_fds env n (i + j - 1))) (pipe_fds env n (i + j)) (cs ! j) \<and>
      (i + j + 1 \<noteq> n \<longrightarrow> pe_pipe env (i + j) \<noteq> None))"
proof (induction cs arbitrary: i prev sts)
  case Nil
  then show ?case by simp
next
  case (Cons c cs)
  have fds: "i + 1 = n \<or> pe_pipe env i \<noteq> None" using Cons.prems(1) by (auto split: if_splits option.splits)
  then obtain sts' where s: "sts = setup_stage env options shared n i prev (pipe_fds env n i) c # sts'"
    "setup_stages env options shared n (i + 1) (fst (pipe_fds env n i)) cs = Some sts'"
    using Cons.prems(1) by (auto simp: pipe_fds_def split: if_splits option.splits)
  have "i + 1 + length cs = n" using Cons.prems(2) by simp
  note IH = Cons.IH [OF s(2) this]
  show ?case
  proof (intro conjI allI impI)
    show "length sts = length (c # cs)" using IH s(1) by simp
    fix j assume j: "j < length (c # cs)"
    show "sts ! j = setup_stage env options shared n (i + j) (if j = 0 then prev else fst (pipe_fds env n (i + j - 1)))
        (pipe_fds env n (i + j)) ((c # cs) ! j)"
      using IH s(1) j by (cases j) (auto split: if_splits)
    show "i + j + 1 \<noteq> n \<Longrightarrow> pe_pipe env (i + j) \<noteq> None" using IH fds j by (cases j) auto
  qed
qed

text \<open>Streams that the pipeline has opened itself.\<close>

fun internal :: "pstream \<Rightarrow> bool" where
  "internal (ReadEnd fd) = True"
| "internal (WriteEnd fd) = True"
| "internal _ = False"

lemma launch_simps [simp]:
  "ps_command (launch env i st) = ps_command st" "ps_stdin (launch env i st) = ps_stdin st" "ps_stdout (launch env i st) = ps_stdout st"
  "ps_stderr (launch env i st) = ps_stderr st" "ps_stdin_external (launch env i st) = ps_stdin_external st"
  "ps_stdout_external (launch env i st) = ps_stdout_external st" "ps_stderr_external (launch env i st) = ps_stderr_external st"
  by (simp_all add: launch_def split: option.split)

lemma execute_stages:
  assumes "ios_pipeline_execute self env (Some c) (Some options) t = Some (t', Some p)"
    and "parse_pipeline MAX_PIPELINE_STAGES c = (commands, shared)"
  shows "length (pl_stages p) = length commands" "commands \<noteq> []" "length commands \<le> MAX_PIPELINE_STAGES"
    "i < length commands \<Longrightarrow> pl_stages p ! i = launch env i (setup_stage env options shared (length commands) i
      (if i = 0 then - 1 else fst (pipe_fds env (length commands) (i - 1))) (pipe_fds env (length commands) i) (commands ! i))"
    "i + 1 < length commands \<Longrightarrow> pe_pipe env i \<noteq> None"
    "pl_completed p = 0" "pl_running p = int (length (filter (\<lambda>i. pe_thread env i \<noteq> None) [0..<length commands]))"
proof -
  obtain sts where s: "setup_stages env options shared (length commands) 0 (- 1) commands = Some sts"
    and p: "p = \<lparr>pl_stages = map (\<lambda>i. launch env i (sts ! i)) [0..<length sts], pl_share_stderr = shared,
      pl_running = int (length (filter (\<lambda>i. pe_thread env i \<noteq> None) [0..<length sts])), pl_completed = 0, pl_all_started = True\<rparr>"
    and ne: "commands \<noteq> []" "length commands \<le> MAX_PIPELINE_STAGES"
    using assms by (auto simp: ios_pipeline_execute_def Let_def split: option.splits if_splits)
  from setup_stages_eq [OF s] p ne show "length (pl_stages p) = length commands" "commands \<noteq> []" "length commands \<le> MAX_PIPELINE_STAGES"
    "i < length commands \<Longrightarrow> pl_stages p ! i = launch env i (setup_stage env options shared (length commands) i
      (if i = 0 then - 1 else fst (pipe_fds env (length commands) (i - 1))) (pipe_fds env (length commands) i) (commands ! i))"
    "i + 1 < length commands \<Longrightarrow> pe_pipe env i \<noteq> None"
    "pl_completed p = 0" "pl_running p = int (length (filter (\<lambda>i. pe_thread env i \<noteq> None) [0..<length commands]))"
    by auto
qed

section \<open>Properties\<close>

text \<open>
  A command line is cut into stages at its bars. For pieces without bars and no ampersand next to a bar, 33 at most, the stages
  are the pieces in their order, without the spaces around them, those that are blank left out; the error streams are not
  shared.
\<close>

theorem pipeline_cut_at_bars:
  assumes "pipe_pieces ws" and "length ws \<le> 33"
  shows "parse_pipeline MAX_PIPELINE_STAGES (join_with [bar] ws) = (filter (\<lambda>w. w \<noteq> []) (map stage_text ws), False)"
  using parse_pieces [OF assms(1)] assms(2) by (simp add: MAX_PIPELINE_STAGES_def)

text \<open>
  C27: the stages are connected in a row. If the streams can be opened, the first stage reads the given input, each other stage reads the
  pipe its predecessor writes to, and the last one writes to the given output; and no thread of a stage closes a stream
  that the pipeline has not opened itself.
\<close>

theorem pipeline_stages_connected:
  assumes "ios_pipeline_execute self env (Some c) (Some options) t = Some (t', Some p)"
    and "parse_pipeline MAX_PIPELINE_STAGES c = (commands, shared)"
    and "\<forall>k. pe_fdopen_read env k \<and> pe_fdopen_write env k"
  shows "map ps_command (pl_stages p) = commands \<and>
    ps_stdin (hd (pl_stages p)) = given_or (po_input options) PStdin \<and>
    ps_stdout (last (pl_stages p)) = given_or (po_output options) PStdout \<and>
    (\<forall>i. i + 1 < length commands \<longrightarrow> (\<exists>r w. pe_pipe env i = Some (r, w) \<and>
      ps_stdout (pl_stages p ! i) = Some (WriteEnd w) \<and> ps_stdin (pl_stages p ! (i + 1)) = Some (ReadEnd r))) \<and>
    (\<forall>st \<in> set (pl_stages p). \<forall>f \<in> set (snd (pipeline_stage_thread run st)). internal f)"
proof -
  note e = execute_stages [OF assms(1,2)]
  let ?n = "length commands"
  have ne: "pl_stages p \<noteq> []" using e(1,2) by auto
  have "map ps_command (pl_stages p) = commands" using e(1,4) by (auto intro!: nth_equalityI simp: setup_stage_def Let_def)
  moreover have "ps_stdin (hd (pl_stages p)) = given_or (po_input options) PStdin"
    using e(1,2) e(4) [of 0] ne by (simp add: hd_conv_nth setup_stage_def Let_def)
  moreover have "ps_stdout (last (pl_stages p)) = given_or (po_output options) PStdout"
    using e(1,2) e(4) [of "?n - 1"] ne by (simp add: last_conv_nth setup_stage_def Let_def)
  moreover have "\<exists>r w. pe_pipe env i = Some (r, w) \<and> ps_stdout (pl_stages p ! i) = Some (WriteEnd w) \<and>
      ps_stdin (pl_stages p ! (i + 1)) = Some (ReadEnd r)" if "i + 1 < ?n" for i
    using e(4) [of i] e(4) [of "i + 1"] e(5) [OF that] that assms(3)
    by (auto simp: setup_stage_def Let_def pipe_fds_def)
  moreover have "internal f" if st: "st \<in> set (pl_stages p)" and f: "f \<in> set (snd (pipeline_stage_thread run st))" for st f
  proof -
    obtain i where i: "i < ?n" "st = pl_stages p ! i" using st e(1) by (metis in_set_conv_nth)
    from e(4) [OF i(1)] i(2) f show ?thesis
      by (auto simp: pipeline_stage_thread_def setup_stage_def Let_def given_or_def split: if_splits option.splits)
  qed
  ultimately show ?thesis by blast
qed


text \<open>
  Waiting for a pipeline waits for all its stages. When every thread could be made, the wait returns the exit code of the last stage, every stage has
  run its command and holds its exit code and status, none is counted as running any more, and the pipeline is
  complete.
\<close>

theorem pipeline_wait_joins_every_stage:
  assumes "ios_pipeline_execute self env (Some c) (Some options) t = Some (t', Some p)"
    and "parse_pipeline MAX_PIPELINE_STAGES c = (commands, shared)" and "\<forall>k. \<exists>i. pe_thread env k = Some i \<and> 0 < i"
  shows "\<exists>p'. ios_pipeline_wait run timeout_ms (Some p) = (run (last commands), Some p') \<and>
    map ps_exit_code (pl_stages p') = map run commands \<and>
    map ps_status (pl_stages p') = map (\<lambda>c. if run c = 0 then IOS_STAGE_COMPLETED else IOS_STAGE_FAILED) commands \<and>
    pl_running p' = 0 \<and> ios_pipeline_is_complete (Some p')"
proof -
  note e = execute_stages [OF assms(1,2)]
  let ?n = "length commands" let ?sts = "map (join_stage run) (pl_stages p)"
  have st: "ps_thread (pl_stages p ! i) \<noteq> 0" "ps_exit_code (?sts ! i) = run (commands ! i)"
    "ps_status (?sts ! i) = (if run (commands ! i) = 0 then IOS_STAGE_COMPLETED else IOS_STAGE_FAILED)" if "i < ?n" for i
  proof -
    obtain k where "pe_thread env i = Some k" "0 < k" using assms(3) by blast
    with e(1) e(4) [OF that] that show "ps_thread (pl_stages p ! i) \<noteq> 0" "ps_exit_code (?sts ! i) = run (commands ! i)"
      "ps_status (?sts ! i) = (if run (commands ! i) = 0 then IOS_STAGE_COMPLETED else IOS_STAGE_FAILED)"
      by (simp_all add: launch_def setup_stage_def Let_def join_stage_def has_run_def pipeline_stage_thread_def)
  qed
  have "\<forall>x \<in> set (pl_stages p). ps_thread x \<noteq> 0" using st(1) e(1) by (auto simp: in_set_conv_nth)
  then have j: "filter (\<lambda>x. ps_thread x \<noteq> 0) (pl_stages p) = pl_stages p" by (simp add: filter_id_conv)
  have r: "filter (\<lambda>i. pe_thread env i \<noteq> None) [0..<?n] = [0..<?n]" using assms(3) by (simp add: filter_id_conv) metis
  have codes: "map ps_exit_code ?sts = map run commands"
    using st(2) e(1) by (intro nth_equalityI) simp_all
  have stats: "map ps_status ?sts = map (\<lambda>c. if run c = 0 then IOS_STAGE_COMPLETED else IOS_STAGE_FAILED) commands"
    using st(3) e(1) by (intro nth_equalityI) simp_all
  have "ps_exit_code (last ?sts) = run (last commands)"
    using arg_cong [OF codes, of last] e(1,2) by (cases "pl_stages p = []") (simp_all add: last_map)
  moreover have "pl_stages p \<noteq> []" using e(1,2) by auto
  ultimately show ?thesis using e(1,2,6,7) j r codes stats
    by (simp add: ios_pipeline_wait_def Let_def ios_pipeline_is_complete_def)
qed

text \<open>A pipeline of 33 stages is written beyond the array of 32.\<close>

lemma too_many_stages_overflow:
  assumes "ios_storeThreadId self 0 t \<noteq> None"
  shows "ios_pipeline_execute self env (Some (join_with [bar] (replicate 33 ''a''))) (Some options) t = None"
proof -
  have "pipe_pieces (replicate 33 ''a'')" by (auto simp: pipe_pieces_def bar_def amp_def in_set_butlastD dest!: in_set_butlastD list.set_sel(2) [rotated])
  from parse_pieces [OF this, of MAX_PIPELINE_STAGES]
  have "parse_pipeline MAX_PIPELINE_STAGES (join_with [bar] (replicate 33 ''a'')) = (replicate 33 ''a'', False)"
    by (simp add: MAX_PIPELINE_STAGES_def stage_text_def skip_spaces_def cut_spaces_def blank_def)
  with assms show ?thesis by (auto simp: ios_pipeline_execute_def MAX_PIPELINE_STAGES_def)
qed

text \<open>A command line with \<^verbatim>\<open>||\<close>, which the dispatch takes for a pipeline, is run as one: both commands, at the same time.\<close>

lemma or_list_run_as_pipeline:
  "ios_system_dispatch ''a || b'' = SingleCommand \<and> parse_pipeline MAX_PIPELINE_STAGES ''a || b'' = ([''a'', ''b''], False)"
proof -
  have "pipe_pieces [''a '', [], '' b'']" by (simp add: pipe_pieces_def bar_def amp_def)
  from parse_pieces [OF this, of MAX_PIPELINE_STAGES] show ?thesis
    by (simp add: or_dispatch_example MAX_PIPELINE_STAGES_def stage_text_def skip_spaces_def cut_spaces_def blank_def bar_def)
qed

text \<open>Quotes are not looked at.\<close>

lemma quoted_bar_cut: "parse_pipeline MAX_PIPELINE_STAGES ''echo \"a|b\"'' = ([''echo \"a'', ''b\"''], False)"
proof -
  have "pipe_pieces [''echo \"a'', ''b\"'']" by (simp add: pipe_pieces_def bar_def amp_def)
  from parse_pieces [OF this, of MAX_PIPELINE_STAGES] show ?thesis
    by (simp add: MAX_PIPELINE_STAGES_def stage_text_def skip_spaces_def cut_spaces_def blank_def bar_def)
qed

text \<open>
  With shared error streams a stage before the last closes its output stream twice: the comparison of the two streams comes
  after the first of them is set to \<^verbatim>\<open>NULL\<close>.
\<close>

lemma shared_stderr_closed_twice:
  assumes "st = setup_stage env options True n i prev (r, w) c" "i + 1 \<noteq> n" "pe_fdopen_write env i"
  shows "take 2 (snd (pipeline_stage_thread run st)) = [WriteEnd w, WriteEnd w]"
  using assms by (simp add: setup_stage_def pipeline_stage_thread_def Let_def)

text \<open>A stage that was killed while it ran ends as completed or failed like any other.\<close>

lemma killed_status_lost:
  "ps_status st = IOS_STAGE_KILLED \<Longrightarrow> ps_thread st \<noteq> 0 \<Longrightarrow>
   ps_status (join_stage run st) = (if run (ps_command st) = 0 then IOS_STAGE_COMPLETED else IOS_STAGE_FAILED)"
  by (simp add: join_stage_def has_run_def pipeline_stage_thread_def Let_def)

text \<open>A pipeline with a stage whose thread could not be made is never complete.\<close>

lemma failed_start_never_complete:
  assumes "ios_pipeline_wait run timeout_ms (Some p) = (r, Some p')" "pl_completed p = 0" "st \<in> set (pl_stages p)" "ps_thread st = 0"
  shows "\<not> ios_pipeline_is_complete (Some p')"
proof -
  have "length (filter (\<lambda>st. ps_thread st \<noteq> 0) (pl_stages p)) < length (pl_stages p)"
    using assms(3,4) by (intro length_filter_less) auto
  with assms(1,2) show ?thesis by (auto simp: ios_pipeline_wait_def ios_pipeline_is_complete_def Let_def)
qed

section \<open>A concrete pipeline\<close>

definition demo_pipes :: pipeline_env where
  "demo_pipes = \<lparr>pe_pipe = (\<lambda>i. Some (10 + 2 * int i, 11 + 2 * int i)), pe_fdopen_read = (\<lambda>_. True), pe_fdopen_write = (\<lambda>_. True),
     pe_thread = (\<lambda>i. Some (i + 1))\<rparr>"

definition demo_pipe_options :: pipeline_options where
  "demo_pipe_options = \<lparr>po_input = Some 1, po_output = None, po_error = None, po_session = 0\<rparr>"

lemma demo_pipe_pieces: "pipe_pieces [''ls '', '' wc'']"
  by (simp add: pipe_pieces_def bar_def amp_def)

lemma demo_pipe_parsed: "parse_pipeline MAX_PIPELINE_STAGES ''ls | wc'' = ([''ls'', ''wc''], False)"
  using parse_pieces [OF demo_pipe_pieces, of MAX_PIPELINE_STAGES]
  by (simp add: MAX_PIPELINE_STAGES_def stage_text_def skip_spaces_def cut_spaces_def blank_def bar_def)

lemma demo_pipe_executed:
  "\<exists>t p. ios_pipeline_execute 7 demo_pipes (Some ''ls | wc'') (Some demo_pipe_options) forked_table = Some (t, Some p)"
proof -
  obtain st where "release_outer_fork_sentinel (demo_shell (\<lambda>_ _. 0) (\<lambda>_ _. [])) demo_state = Returns () st"
    using release_sentinel_eq [OF demo_facts(1)] by metis
  then have "ios_storeThreadId 7 0 forked_table \<noteq> None"
    by (auto simp: release_outer_fork_sentinel_def demo_state_def split: option.splits)
  then show ?thesis
    by (auto simp: ios_pipeline_execute_def demo_pipe_parsed [unfolded MAX_PIPELINE_STAGES_def] demo_pipes_def MAX_PIPELINE_STAGES_def Let_def)
qed

theorem pipeline_cut_at_bars_witness: "parse_pipeline MAX_PIPELINE_STAGES ''ls | wc'' = ([''ls'', ''wc''], False)"
  using pipeline_cut_at_bars [OF demo_pipe_pieces]
  by (simp add: stage_text_def skip_spaces_def cut_spaces_def blank_def bar_def)

theorem pipeline_stages_connected_witness:
  "\<exists>t p. ios_pipeline_execute 7 demo_pipes (Some ''ls | wc'') (Some demo_pipe_options) forked_table = Some (t, Some p) \<and>
    ps_stdout (pl_stages p ! 0) = Some (WriteEnd 11) \<and> ps_stdin (pl_stages p ! 1) = Some (ReadEnd 10)"
proof -
  obtain t p where p: "ios_pipeline_execute 7 demo_pipes (Some ''ls | wc'') (Some demo_pipe_options) forked_table = Some (t, Some p)"
    using demo_pipe_executed by blast
  have "\<forall>k. pe_fdopen_read demo_pipes k \<and> pe_fdopen_write demo_pipes k" by (simp add: demo_pipes_def)
  from pipeline_stages_connected [OF p demo_pipe_parsed this, of "\<lambda>_. 0"] p show ?thesis by (fastforce simp: demo_pipes_def)
qed

theorem pipeline_wait_joins_every_stage_witness:
  "\<exists>t p p'. ios_pipeline_execute 7 demo_pipes (Some ''ls | wc'') (Some demo_pipe_options) forked_table = Some (t, Some p) \<and>
    ios_pipeline_wait (\<lambda>c. int (length c)) (- 1) (Some p) = (2, Some p') \<and> ios_pipeline_is_complete (Some p')"
proof -
  obtain t p where p: "ios_pipeline_execute 7 demo_pipes (Some ''ls | wc'') (Some demo_pipe_options) forked_table = Some (t, Some p)"
    using demo_pipe_executed by blast
  have "\<forall>k. \<exists>i. pe_thread demo_pipes k = Some i \<and> 0 < i" by (simp add: demo_pipes_def)
  from pipeline_wait_joins_every_stage [OF p demo_pipe_parsed this, of "\<lambda>c. int (length c)" "- 1"] p show ?thesis by auto
qed

end
