(* ===== verification/Paths.thy ===== *)
theory Paths
  imports Shell_Quoting "HOL-Library.Sublist"
begin

text \<open>
  The path functions of \<^verbatim>\<open>ios_system.m\<close> (\<^verbatim>\<open>pathNormalizeArray\<close>, \<^verbatim>\<open>pathNormalize\<close>, \<^verbatim>\<open>pathJoin\<close>). A path is a
  list of characters; a directory of the reference semantics is the list of names on the way to it from the root.
\<close>

definition slash :: char where "slash = CHR ''/''"

lemmas slash_simps = slash_def

definition dot :: string where "dot = ''.''"
definition dotdot :: string where "dotdot = ''..''"

section \<open>Strings\<close>

text \<open>\<^verbatim>\<open>hasPrefix:\<close> and \<^verbatim>\<open>hasSuffix:\<close>\<close>

definition hasPrefix :: "string \<Rightarrow> string \<Rightarrow> bool" where
  "hasPrefix s p \<longleftrightarrow> prefix p s"

definition hasSuffix :: "string \<Rightarrow> string \<Rightarrow> bool" where
  "hasSuffix s p \<longleftrightarrow> suffix p s"

text \<open>\<^verbatim>\<open>componentsSeparatedByString:\<close> for a separator of one character\<close>

fun components_at :: "char \<Rightarrow> string \<Rightarrow> string list" where
  "components_at c [] = [[]]"
| "components_at c (x # s) =
     (if x = c then [] # components_at c s
      else case components_at c s of [] \<Rightarrow> [[x]] | w # ws \<Rightarrow> (x # w) # ws)"

text \<open>
  \<^verbatim>\<open>pathComponents\<close>: the parts between slashes that are not empty, with a slash as first or last component where the path begins or ends with one.
\<close>

definition pathComponents :: "string \<Rightarrow> string list" where
  "pathComponents path =
     (if hasPrefix path [slash] then [[slash]] else []) @
     filter (\<lambda>w. w \<noteq> []) (components_at slash path) @
     (if hasSuffix path [slash] \<and> length path > 1 then [[slash]] else [])"

section \<open>Normalisation\<close>

text \<open>The loop, with \<open>res\<close> the array so far.\<close>

fun normalize_loop :: "bool \<Rightarrow> string list \<Rightarrow> string list \<Rightarrow> string list" where
  "normalize_loop allowAboveRoot res [] = res"
| "normalize_loop allowAboveRoot res (p # parts) =
     (if p = [] \<or> p = dot \<or> p = [slash] then normalize_loop allowAboveRoot res parts
      else if p = dotdot then
        if res \<noteq> [] \<and> last res \<noteq> dotdot then normalize_loop allowAboveRoot (butlast res) parts
        else if allowAboveRoot then normalize_loop allowAboveRoot (res @ [p]) parts
        else normalize_loop allowAboveRoot res parts
      else normalize_loop allowAboveRoot (res @ [p]) parts)"

definition pathNormalizeArray :: "string list \<Rightarrow> bool \<Rightarrow> string list" where
  "pathNormalizeArray parts allowAboveRoot = normalize_loop allowAboveRoot [] parts"

definition pathNormalize :: "string \<Rightarrow> string" where
  "pathNormalize path =
     (let isAbsolute = hasPrefix path [slash];
          trailingSlash = hasSuffix path [slash];
          result = join_with [slash] (pathNormalizeArray (pathComponents path) (\<not> isAbsolute));
          result1 = (if result = [] \<and> \<not> isAbsolute then dot else result);
          result2 = (if result1 \<noteq> [] \<and> trailingSlash then result1 @ [slash] else result1)
      in (if isAbsolute then [slash] else []) @ result2)"

definition pathJoin :: "string option \<Rightarrow> string option \<Rightarrow> string" where
  "pathJoin segmentA segmentB =
     (let a = (case segmentA of None \<Rightarrow> [] | Some a \<Rightarrow> a);
          b = (case segmentB of None \<Rightarrow> [] | Some b \<Rightarrow> b)
      in if hasPrefix b [slash] then pathNormalize b
         else pathNormalize (if a \<noteq> [] then a @ (if b \<noteq> [] then [slash] @ b else []) else b))"

section \<open>Where a path leads\<close>

text \<open>
  The reference semantics, in a tree without symbolic links: \<^verbatim>\<open>..\<close> leads to the parent, at the root
  to the root itself.
\<close>

fun walk :: "string list \<Rightarrow> string list \<Rightarrow> string list" where
  "walk dir [] = dir"
| "walk dir (p # ps) =
     (if p = [] \<or> p = dot \<or> p = [slash] then walk dir ps
      else if p = dotdot then walk (butlast dir) ps
      else walk (dir @ [p]) ps)"

definition leads_to :: "string list \<Rightarrow> string \<Rightarrow> string list" where
  "leads_to dir path = walk (if hasPrefix path [slash] then [] else dir) (components_at slash path)"

text \<open>A name is a component that is none of the special ones.\<close>

definition is_name :: "string \<Rightarrow> bool" where
  "is_name p \<longleftrightarrow> p \<noteq> [] \<and> p \<noteq> dot \<and> p \<noteq> dotdot \<and> slash \<notin> set p"

text \<open>Normal form: going up only at the start, and not at all in an absolute path.\<close>

definition normal_parts :: "bool \<Rightarrow> string list \<Rightarrow> bool" where
  "normal_parts allowAboveRoot ps \<longleftrightarrow>
     (\<exists>k ns. ps = replicate k dotdot @ ns \<and> (\<forall>n \<in> set ns. is_name n) \<and> (k = 0 \<or> allowAboveRoot))"

lemma walk_append: "walk dir (ps @ qs) = walk (walk dir ps) qs"
  by (induction dir ps rule: walk.induct) auto

lemma dotdot_not_special [simp]: "dotdot \<noteq> []" "dotdot \<noteq> dot" "dotdot \<noteq> [slash]" "dot \<noteq> []" "slash \<notin> set dotdot" "slash \<notin> set dot"
  by (simp_all add: dotdot_def dot_def slash_def)

lemmas [simp] = dotdot_not_special(1-4) [symmetric]

lemma walk_names: "\<forall>n \<in> set ns. is_name n \<Longrightarrow> walk dir ns = dir @ ns"
  by (induction ns arbitrary: dir) (auto simp: is_name_def)

lemma normal_parts_Nil [simp]: "normal_parts b []"
  by (auto simp: normal_parts_def intro: exI [of _ 0])

lemma is_name_not_dotdot [simp]: "is_name dotdot \<longleftrightarrow> False"
  by (simp add: is_name_def)

lemma normal_parts_snoc: "normal_parts b ps \<Longrightarrow> is_name p \<Longrightarrow> normal_parts b (ps @ [p])"
  unfolding normal_parts_def by (elim exE conjE) (rule_tac x = k in exI, rule_tac x = "ns @ [p]" in exI, auto)

lemma normal_parts_butlast: "normal_parts b ps \<Longrightarrow> ps \<noteq> [] \<Longrightarrow> last ps \<noteq> dotdot \<Longrightarrow> normal_parts b (butlast ps)"
  unfolding normal_parts_def
proof (elim exE conjE)
  fix k ns assume ps: "ps = replicate k dotdot @ ns" "\<forall>n \<in> set ns. is_name n" "k = 0 \<or> b" and l: "ps \<noteq> []" "last ps \<noteq> dotdot"
  have "ns \<noteq> []" using ps(1) l last_replicate [of k dotdot] by (cases "k = 0") auto
  then have "butlast ps = replicate k dotdot @ butlast ns" by (simp add: ps(1) butlast_append)
  then show "\<exists>k ns. butlast ps = replicate k dotdot @ ns \<and> (\<forall>n\<in>set ns. is_name n) \<and> (k = 0 \<or> b)"
    using ps(2,3) by (intro exI [of _ k] exI [of _ "butlast ns"]) (auto dest: in_set_butlastD)
qed

lemma normal_parts_up:
  assumes "normal_parts True ps" "ps = [] \<or> last ps = dotdot"
  shows "normal_parts True (ps @ [dotdot])"
proof -
  obtain k ns where ps: "ps = replicate k dotdot @ ns" "\<forall>n \<in> set ns. is_name n"
    using assms(1) by (auto simp: normal_parts_def)
  have "ns = []" using assms(2) ps by (cases ns rule: rev_cases) auto
  then have "ps @ [dotdot] = replicate (Suc k) dotdot @ []" using ps by (simp add: replicate_append_same)
  then show ?thesis unfolding normal_parts_def by (metis empty_iff list.set(1))
qed

text \<open>The loop keeps the normal form, and where the path leads.\<close>

lemma normalize_loop_normal:
  "normal_parts b res \<Longrightarrow> \<forall>p \<in> set parts. slash \<notin> set p \<or> p = [slash] \<Longrightarrow> normal_parts b (normalize_loop b res parts)"
proof (induction b res parts rule: normalize_loop.induct)
  case (2 b res p parts)
  show ?case
  proof (cases "p = [] \<or> p = dot \<or> p = [slash] \<or> p = dotdot")
    case True
    then show ?thesis using 2 normal_parts_butlast [of b res] normal_parts_up [of res] by (cases b) auto
  next
    case False
    then have "is_name p" using "2.prems" by (auto simp: is_name_def)
    then show ?thesis using 2 False normal_parts_snoc [of b res p] by auto
  qed
qed simp

lemma normal_parts_False: "normal_parts False ps \<longleftrightarrow> (\<forall>n \<in> set ps. is_name n)"
  by (auto simp: normal_parts_def)

lemma walk_normal_up: "normal_parts False ps \<Longrightarrow> walk [] ps = ps"
  by (auto simp: normal_parts_def walk_names)

lemma normalize_loop_walk:
  assumes "normal_parts b res" "b \<or> dir = []" "\<forall>p \<in> set parts. slash \<notin> set p \<or> p = [slash]"
  shows "walk dir (normalize_loop b res parts) = walk (walk dir res) parts"
  using assms
proof (induction b res parts rule: normalize_loop.induct)
  case (2 b res p parts)
  show ?case
  proof (cases "p = [] \<or> p = dot \<or> p = [slash]")
    case True
    then show ?thesis using 2 by auto
  next
    case special: False
    show ?thesis
    proof (cases "p = dotdot")
      case name: False
      then have "is_name p" using "2.prems" special by (auto simp: is_name_def)
      then show ?thesis using 2 special name normal_parts_snoc [of b res p] by (auto simp: walk_append)
    next
      case up: True
      show ?thesis
      proof (cases "res \<noteq> [] \<and> last res \<noteq> dotdot")
        case True
        then obtain rs n where res: "res = rs @ [n]" "n \<noteq> dotdot" by (cases res rule: rev_cases) auto
        have "is_name n"
        proof -
          obtain k ns where ps: "res = replicate k dotdot @ ns" "\<forall>n \<in> set ns. is_name n"
            using "2.prems"(1) by (auto simp: normal_parts_def)
          then have "ns \<noteq> []" using True last_replicate [of k dotdot] by (cases "k = 0") auto
          then show ?thesis using ps res by (metis last_appendR last_in_set last_snoc)
        qed
        then have "butlast (walk dir res) = walk dir rs" by (auto simp: res walk_append is_name_def)
        then show ?thesis using 2 up True res special normal_parts_butlast [of b res] by (auto simp: walk_append)
      next
        case False
        have "res = []" if "\<not> b"
          using False "2.prems"(1) that normal_parts_False [of res] by (metis is_name_not_dotdot last_in_set)
        then show ?thesis
          using 2 up special False normal_parts_up [of res] by (cases b) (auto simp: walk_append)
      qed
    qed
  qed
qed simp


section \<open>Components\<close>

lemma components_at_not_Nil [simp]: "components_at c s \<noteq> []"
  by (induction s) (auto split: list.split)

lemma components_at_Cons:
  "components_at c (x # s) = (if x = c then [] # components_at c s else (x # hd (components_at c s)) # tl (components_at c s))"
  by (cases "components_at c s") auto

lemmas [simp del] = components_at.simps(2)

lemma components_lack: "p \<in> set (components_at c s) \<Longrightarrow> c \<notin> set p"
proof (induction s arbitrary: p)
  case (Cons x s)
  then show ?case using list.set_sel [of "components_at c s"] by (auto simp: components_at_Cons split: if_splits)
qed simp

lemma components_at_append: "components_at c (a @ c # b) = components_at c a @ components_at c b"
  by (induction a) (auto simp: components_at_Cons)

lemma components_at_single: "c \<notin> set w \<Longrightarrow> components_at c w = [w]"
  by (induction w) (auto simp: components_at_Cons)

lemma components_at_join: "ws \<noteq> [] \<Longrightarrow> \<forall>w \<in> set ws. c \<notin> set w \<Longrightarrow> components_at c (join_with [c] ws) = ws"
  by (induction "[c]" ws rule: join_with.induct) (auto simp: components_at_single components_at_append)

lemma walk_filter: "walk dir (filter (\<lambda>w. w \<noteq> []) ps) = walk dir ps"
  by (induction dir ps rule: walk.induct) auto

lemma walk_pathComponents: "walk dir (pathComponents path) = walk dir (components_at slash path)"
  by (auto simp: pathComponents_def walk_append walk_filter)

lemma pathComponents_parts: "\<forall>p \<in> set (pathComponents path). slash \<notin> set p \<or> p = [slash]"
  using components_lack by (auto simp: pathComponents_def)

lemma normal_array: "normal_parts b (pathNormalizeArray (pathComponents path) b)"
  using normalize_loop_normal [OF normal_parts_Nil pathComponents_parts] by (simp add: pathNormalizeArray_def)

lemma walk_array:
  "b \<or> dir = [] \<Longrightarrow> walk dir (pathNormalizeArray (pathComponents path) b) = walk dir (components_at slash path)"
  using normalize_loop_walk [OF normal_parts_Nil _ pathComponents_parts]
  by (simp add: pathNormalizeArray_def walk_pathComponents)

lemma normal_parts_lack: "normal_parts b ps \<Longrightarrow> \<forall>p \<in> set ps. slash \<notin> set p \<and> p \<noteq> [] \<and> p \<noteq> dot"
proof -
  assume "normal_parts b ps"
  then obtain k ns where "ps = replicate k dotdot @ ns" "\<forall>n \<in> set ns. is_name n" by (auto simp: normal_parts_def)
  then have "\<forall>p \<in> set ps. p = dotdot \<or> is_name p" by auto
  then show ?thesis by (auto simp: is_name_def)
qed

lemma normal_parts_fixed: "normal_parts b (res @ ps) \<Longrightarrow> normalize_loop b res ps = res @ ps"
proof (induction b res ps rule: normalize_loop.induct)
  case (2 b res p ps)
  have p: "p \<noteq> []" "p \<noteq> dot" "p \<noteq> [slash]" using normal_parts_lack [OF "2.prems"] by auto
  show ?case
  proof (cases "p = dotdot")
    case True
    obtain k ns where k: "res @ p # ps = replicate k dotdot @ ns" "\<forall>n \<in> set ns. is_name n" "k = 0 \<or> b"
      using "2.prems" by (auto simp: normal_parts_def)
    have "length res < k"
    proof (rule ccontr)
      assume "\<not> length res < k"
      then have "p \<in> set ns"
        using arg_cong [OF k(1), of "\<lambda>l. l ! length res"] arg_cong [OF k(1), of length] by (auto simp: nth_append)
      then show False using k(2) True by auto
    qed
    then have "res = replicate (length res) dotdot"
      using arg_cong [OF k(1), of "take (length res)"] by (simp add: min_def)
    then have "res = [] \<or> last res = dotdot" by (metis last_replicate length_0_conv)
    then show ?thesis using 2 True k(3) \<open>length res < k\<close> by auto
  qed (use 2 p in auto)
qed simp

section \<open>The text of a normalised path\<close>

text \<open>A text made of parts in normal form, between an optional slash before and after.\<close>

definition path_text :: "bool \<Rightarrow> bool \<Rightarrow> string list \<Rightarrow> string" where
  "path_text absolute trailing ps =
     (if absolute then [slash] else []) @
     (if ps = [] then if absolute then [] else dot @ (if trailing then [slash] else [])
      else join_with [slash] ps @ (if trailing then [slash] else []))"

lemma join_not_Nil: "ps \<noteq> [] \<Longrightarrow> \<forall>p \<in> set ps. p \<noteq> [] \<Longrightarrow> join_with [slash] ps \<noteq> []"
  by (cases ps rule: list.exhaust; cases "tl ps") auto

lemma pathNormalize_text:
  "pathNormalize path =
     path_text (hasPrefix path [slash]) (hasSuffix path [slash]) (pathNormalizeArray (pathComponents path) (\<not> hasPrefix path [slash]))"
  using join_not_Nil normal_parts_lack [OF normal_array]
  by (auto simp: pathNormalize_def path_text_def Let_def)

lemma components_path_text:
  assumes "normal_parts b ps"
  shows "filter (\<lambda>w. w \<noteq> []) (components_at slash (path_text absolute trailing ps)) =
    (if ps = [] \<and> \<not> absolute then [dot] else ps)"
proof -
  note lack = normal_parts_lack [OF assms]
  have j: "components_at slash (join_with [slash] ps) = ps" "filter (\<lambda>w. w \<noteq> []) ps = ps" if "ps \<noteq> []"
    using lack that components_at_join [of ps slash] by auto
  have t: "components_at slash (w @ [slash]) = components_at slash w @ [[]]" for w
    using components_at_append [of slash w "[]"] by simp
  show ?thesis using j components_at_single [of slash dot]
    by (auto simp: path_text_def t components_at_Cons)
qed

lemma hasPrefix_slash: "hasPrefix s [slash] \<longleftrightarrow> s \<noteq> [] \<and> hd s = slash"
  by (cases s) (auto simp: hasPrefix_def)

lemma hasSuffix_slash: "hasSuffix s [slash] \<longleftrightarrow> s \<noteq> [] \<and> last s = slash"
  by (cases s rule: rev_cases) (auto simp: hasSuffix_def)

lemma hd_path_join: "ps \<noteq> [] \<Longrightarrow> \<forall>p \<in> set ps. p \<noteq> [] \<Longrightarrow> hd (join_with [slash] ps) = hd (hd ps)"
  by (cases ps rule: list.exhaust; cases "tl ps") auto

lemma last_path_join: "ps \<noteq> [] \<Longrightarrow> \<forall>p \<in> set ps. p \<noteq> [] \<Longrightarrow> last (join_with [slash] ps) = last (last ps)"
  by (induction "[slash]" ps rule: join_with.induct) (auto simp: join_not_Nil)

lemma path_text_ends:
  assumes "normal_parts b ps"
  shows "hasPrefix (path_text absolute trailing ps) [slash] = absolute"
    and "hasSuffix (path_text absolute trailing ps) [slash] = (if absolute \<and> ps = [] then True else trailing)"
proof -
  note lack = normal_parts_lack [OF assms]
  have "hd (hd ps) \<noteq> slash" "last (last ps) \<noteq> slash" if "ps \<noteq> []"
    using lack that by (metis hd_in_set, metis last_in_set)
  moreover have "dot \<noteq> []" "hd dot \<noteq> slash" "last dot \<noteq> slash" by (simp_all add: dot_def slash_def)
  ultimately show "hasPrefix (path_text absolute trailing ps) [slash] = absolute"
    "hasSuffix (path_text absolute trailing ps) [slash] = (if absolute \<and> ps = [] then True else trailing)"
    using lack join_not_Nil [of ps] hd_path_join [of ps] last_path_join [of ps]
    by (auto simp: hasPrefix_slash hasSuffix_slash path_text_def)
qed


lemma normalize_loop_snoc: "normalize_loop b res (parts @ [[slash]]) = normalize_loop b res parts"
  by (induction b res parts rule: normalize_loop.induct) auto

lemma normalize_array_filter:
  "pathNormalizeArray (pathComponents s) b = normalize_loop b [] (filter (\<lambda>w. w \<noteq> []) (components_at slash s))"
proof -
  have "normalize_loop b [] (a @ parts @ c) = normalize_loop b [] parts" if "a \<in> {[], [[slash]]}" "c \<in> {[], [[slash]]}" for a parts c
    using that by (auto simp: normalize_loop_snoc)
  then show ?thesis by (auto simp: pathNormalizeArray_def pathComponents_def)
qed

lemma leads_to_text:
  assumes "normal_parts b ps"
  shows "leads_to dir (path_text absolute trailing ps) = walk (if absolute then [] else dir) ps"
proof -
  have "walk d (components_at slash (path_text absolute trailing ps)) = walk d ps" for d
    using components_path_text [OF assms, of absolute trailing] walk_filter [of d "components_at slash (path_text absolute trailing ps)"]
    by (auto split: if_splits)
  then show ?thesis by (simp add: leads_to_def path_text_ends [OF assms])
qed

lemma pathNormalize_leads_to: "leads_to dir (pathNormalize path) = leads_to dir path"
  unfolding pathNormalize_text leads_to_text [OF normal_array]
  using walk_array [of "\<not> hasPrefix path [slash]" "if hasPrefix path [slash] then [] else dir" path]
  by (auto simp: leads_to_def)

lemma pathNormalize_idem: "pathNormalize (pathNormalize path) = pathNormalize path"
proof -
  define b where "b = (\<not> hasPrefix path [slash])"
  define ps where "ps = pathNormalizeArray (pathComponents path) b"
  have n: "normal_parts b ps" by (simp add: ps_def normal_array)
  have t: "pathNormalize path = path_text (\<not> b) (hasSuffix path [slash]) ps" by (simp add: b_def ps_def pathNormalize_text)
  have fix_ps: "normalize_loop b [] ps = ps" using normal_parts_fixed [of b "[]" ps] n by simp
  have "pathNormalizeArray (pathComponents (path_text (\<not> b) tr ps)) b = ps" for tr
    using fix_ps components_path_text [OF n] by (auto simp: normalize_array_filter)
  then show ?thesis
    unfolding t pathNormalize_text [of "path_text _ _ _"] path_text_ends [OF n]
    by (auto simp: path_text_def)
qed

lemma pathNormalize_absolute [simp]: "hasPrefix (pathNormalize path) [slash] = hasPrefix path [slash]"
  unfolding pathNormalize_text by (simp add: path_text_ends [OF normal_array])

lemma leads_to_Nil [simp]: "leads_to dir [] = dir"
  by (simp add: leads_to_def hasPrefix_def)

lemma leads_to_join: "\<not> hasPrefix b [slash] \<Longrightarrow> a \<noteq> [] \<Longrightarrow> leads_to dir (a @ slash # b) = leads_to (leads_to dir a) b"
  by (auto simp: leads_to_def components_at_append walk_append hasPrefix_slash)

section \<open>Properties\<close>

text \<open>
  C14: Normalising a path gives its normal form and does not change where it leads. From every directory of a tree without
  symbolic links, the normalised path leads to the same directory as the path, and normalising it again changes nothing. For
  every path, the normalised path consists of parts joined by single slashes, first \<^verbatim>\<open>..\<close>, which only a relative path has,
  then names, none of them empty, \<^verbatim>\<open>.\<close> or \<^verbatim>\<open>..\<close>; before them stands a slash exactly for an absolute path, behind
  them one exactly when the path ends with one. Without parts it is a slash, or a dot for a relative path.
\<close>

theorem path_normalisation_correct:
  "leads_to dir (pathNormalize path) = leads_to dir path \<and> pathNormalize (pathNormalize path) = pathNormalize path \<and>
   (\<exists>ps. normal_parts (\<not> hasPrefix path [slash]) ps \<and>
     pathNormalize path = path_text (hasPrefix path [slash]) (hasSuffix path [slash]) ps)"
  using pathNormalize_leads_to pathNormalize_idem pathNormalize_text normal_array by blast

text \<open>
  Joining two paths leads where the second leads from where the first leads.
\<close>

theorem path_join_composes: "leads_to dir (pathJoin (Some a) (Some b)) = leads_to (leads_to dir a) b"
proof (cases "hasPrefix b [slash]")
  case True
  then show ?thesis by (simp add: pathJoin_def pathNormalize_leads_to) (simp add: leads_to_def)
next
  case False
  then show ?thesis using leads_to_join [OF False] by (auto simp: pathJoin_def pathNormalize_leads_to Let_def)
qed

lemma pathJoin_absolute: "hasPrefix a [slash] \<Longrightarrow> hasPrefix (pathJoin (Some a) (Some b)) [slash]"
  by (auto simp: pathJoin_def Let_def) (simp_all add: hasPrefix_slash)

end
