(* ===== verification/Directories.thy ===== *)
theory Directories
  imports Paths Session_Manager Libc_Process
begin

text \<open>
  The current directory in \<^verbatim>\<open>ios_system.m\<close>: \<^verbatim>\<open>chdir\<close>, \<^verbatim>\<open>fchdir\<close> and the command \<^verbatim>\<open>cd\<close>, which keep the directory of the process, of the
  current session and of the running command, inside the directories the application allows.

  The file system is a parameter: a record of what the file manager and the kernel answer, over a type of directories.
  A result \<open>None\<close> is a fault: a string too long for the array it is copied to, a null string passed on. The busy wait for
  commands that are ending takes the successive values of \<^verbatim>\<open>cleanup_counter\<close>; the lock \<^verbatim>\<open>chdir_mtx\<close> makes the rest one step.
\<close>

section \<open>State\<close>

text \<open>
  \<^verbatim>\<open>fileExistsAtPath:isDirectory:\<close>, \<^verbatim>\<open>isReadableFileAtPath:\<close> and \<^verbatim>\<open>changeCurrentDirectoryPath:\<close> from a given directory,
  \<^verbatim>\<open>currentDirectoryPath\<close> in it, and \<^verbatim>\<open>fchdir\<close> of the kernel.
\<close>

record 'd file_system =
  fs_isdir :: "'d \<Rightarrow> string \<Rightarrow> bool option"
  fs_readable :: "'d \<Rightarrow> string \<Rightarrow> bool"
  fs_enter :: "'d \<Rightarrow> string \<Rightarrow> 'd option"
  fs_path :: "'d \<Rightarrow> string option"
  fs_fchdir :: "int \<Rightarrow> errno + 'd"

text \<open>\<^verbatim>\<open>miniRoot\<close>, \<^verbatim>\<open>allowedPaths\<close>, and the Documents directory of the application.\<close>

record dir_config =
  dc_miniRoot :: "string option"
  dc_allowedPaths :: "string list"
  dc_documents :: string

record 'd dir_state =
  dd_dir :: 'd
  dd_session :: "session_params option"
  dd_errno :: "errno option"
  dd_stderr :: "string list"

text \<open>\<^verbatim>\<open>strcpy\<close> into an array of \<^verbatim>\<open>MAXPATHLEN\<close> characters\<close>

definition strcpy_path :: "string \<Rightarrow> string option" where
  "strcpy_path s = (if length s < SESSION_MAXPATHLEN then Some s else None)"

section \<open>What is allowed\<close>

definition allowed_cd_to_path :: "dir_config \<Rightarrow> session_params option \<Rightarrow> string option \<Rightarrow> bool" where
  "allowed_cd_to_path cfg session path =
     (case dc_miniRoot cfg of
        None \<Rightarrow> True
      | Some root \<Rightarrow>
          (case path of
             None \<Rightarrow> False
           | Some p \<Rightarrow>
               hasPrefix p root \<or>
               (case session of None \<Rightarrow> False | Some sp \<Rightarrow> sp_localMiniRoot sp \<noteq> [] \<and> hasPrefix p (sp_localMiniRoot sp)) \<or>
               list_ex (\<lambda>dir. hasPrefix p dir) (dc_allowedPaths cfg)))"

definition enter_or_stay :: "'d file_system \<Rightarrow> 'd \<Rightarrow> string \<Rightarrow> 'd" where
  "enter_or_stay fs d path = (case fs_enter fs d path of None \<Rightarrow> d | Some d' \<Rightarrow> d')"

text \<open>
  After a change that was not allowed: to the mini root when the directory is above it, otherwise back to the directory of the
  session.
\<close>

definition go_back :: "'d file_system \<Rightarrow> dir_config \<Rightarrow> string option \<Rightarrow> session_params \<Rightarrow> 'd dir_state \<Rightarrow> 'd dir_state option" where
  "go_back fs cfg resultDir sp st =
     (let back = st\<lparr>dd_dir := enter_or_stay fs (dd_dir st) (sp_currentDir sp)\<rparr> in
      case dc_miniRoot cfg of
        None \<Rightarrow> Some back
      | Some root \<Rightarrow>
          (case resultDir of
             None \<Rightarrow> None
           | Some r \<Rightarrow>
               if hasPrefix root r then
                 map_option (\<lambda>c. st\<lparr>dd_dir := enter_or_stay fs (dd_dir st) root,
                                   dd_session := Some (sp\<lparr>sp_currentDir := c, sp_previousDirectory := c\<rparr>)\<rparr>) (strcpy_path root)
               else Some back))"

section \<open>Changing the directory\<close>

definition say :: "string \<Rightarrow> string \<Rightarrow> 'd dir_state \<Rightarrow> 'd dir_state" where
  "say what newDir st = st\<lparr>dd_stderr := dd_stderr st @ [''cd: '' @ newDir @ '': '' @ what]\<rparr>"

definition cd_to_dir :: "'d file_system \<Rightarrow> dir_config \<Rightarrow> string \<Rightarrow> 'd dir_state \<Rightarrow> 'd dir_state option" where
  "cd_to_dir fs cfg newDir st =
     (case fs_isdir fs (dd_dir st) newDir of
        None \<Rightarrow> Some (say ''no such file or directory'' newDir st)
      | Some False \<Rightarrow> Some (say ''not a directory'' newDir st)
      | Some True \<Rightarrow>
          (case (if fs_readable fs (dd_dir st) newDir then fs_enter fs (dd_dir st) newDir else None) of
             None \<Rightarrow> Some (say ''permission denied'' newDir st)
           | Some d \<Rightarrow>
               let st1 = st\<lparr>dd_dir := d\<rparr>; resultDir = fs_path fs d in
               if allowed_cd_to_path cfg (dd_session st) resultDir then
                 (case dd_session st of
                    None \<Rightarrow> Some st1
                  | Some sp \<Rightarrow>
                      map_option (\<lambda>c. st1\<lparr>dd_session := Some (sp\<lparr>sp_previousDirectory := sp_currentDir sp, sp_currentDir := c\<rparr>)\<rparr>)
                        (strcpy_path newDir))
               else
                 let st2 = say ''permission denied'' newDir st1 in
                 (case dd_session st of None \<Rightarrow> Some st2 | Some sp \<Rightarrow> go_back fs cfg resultDir sp st2)))"

text \<open>The part of \<^verbatim>\<open>ios_fchdir\<close> and \<^verbatim>\<open>ios_fchdir_nolock\<close> after the wait.\<close>

definition fchdir_body :: "'d file_system \<Rightarrow> dir_config \<Rightarrow> int \<Rightarrow> 'd dir_state \<Rightarrow> (int \<times> 'd dir_state) option" where
  "fchdir_body fs cfg fd st =
     (case fs_fchdir fs fd of
        Inl e \<Rightarrow> Some (- 1, st\<lparr>dd_errno := Some e\<rparr>)
      | Inr d \<Rightarrow>
          let st1 = st\<lparr>dd_dir := d\<rparr>; resultDir = fs_path fs d in
          if allowed_cd_to_path cfg (dd_session st) resultDir then
            (case dd_session st of
               None \<Rightarrow> Some (0, st1\<lparr>dd_errno := None\<rparr>)
             | Some sp \<Rightarrow>
                 map_option (\<lambda>c. (0, st1\<lparr>dd_session := Some (sp\<lparr>sp_previousDirectory := sp_currentDir sp, sp_currentDir := c\<rparr>),
                                        dd_errno := None\<rparr>))
                   (Option.bind resultDir strcpy_path))
          else
            let st2 = st1\<lparr>dd_errno := Some EACCES\<rparr> in
            (case dd_session st of
               None \<Rightarrow> Some (- 1, st2)
             | Some sp \<Rightarrow> map_option (\<lambda>s. (- 1, s)) (go_back fs cfg resultDir sp st2)))"

text \<open>
  The common part of \<^verbatim>\<open>chdir\<close> and \<^verbatim>\<open>chdir_nolock\<close>; with \<open>fallback\<close>, as in the second, a directory whose path is not reported is taken
  to be the one asked for.
\<close>

definition chdir_body :: "bool \<Rightarrow> 'd file_system \<Rightarrow> dir_config \<Rightarrow> string \<Rightarrow> 'd dir_state \<Rightarrow> (int \<times> 'd dir_state) option" where
  "chdir_body fallback fs cfg path st =
     (case fs_isdir fs (dd_dir st) path of
        None \<Rightarrow> Some (- 1, st\<lparr>dd_errno := Some ENOENT\<rparr>)
      | Some False \<Rightarrow> Some (- 1, st\<lparr>dd_errno := Some ENOTDIR\<rparr>)
      | Some True \<Rightarrow>
          (case (if fs_readable fs (dd_dir st) path then fs_enter fs (dd_dir st) path else None) of
             None \<Rightarrow> Some (- 1, st\<lparr>dd_errno := Some EACCES\<rparr>)
           | Some d \<Rightarrow>
               let st1 = st\<lparr>dd_dir := d\<rparr>;
                   resultDir = (if fallback \<and> fs_path fs d = None then Some path else fs_path fs d) in
               if allowed_cd_to_path cfg (dd_session st) resultDir then
                 (case dd_session st of
                    None \<Rightarrow> Some (0, st1\<lparr>dd_errno := None\<rparr>)
                  | Some sp \<Rightarrow>
                      map_option (\<lambda>c. (0, st1\<lparr>dd_session := Some (sp\<lparr>sp_currentDir := c\<rparr>), dd_errno := None\<rparr>))
                        (Option.bind resultDir strcpy_path))
               else
                 let st2 = st1\<lparr>dd_errno := Some EACCES\<rparr> in
                 (case dd_session st of
                    None \<Rightarrow> Some (- 1, st2)
                  | Some sp \<Rightarrow> map_option (\<lambda>s. (- 1, s)) (go_back fs cfg resultDir sp st2))))"

text \<open>The calls, with the wait while commands are ending.\<close>

definition after_cleanup :: "int list \<Rightarrow> (int \<times> 'd dir_state) option \<Rightarrow> 'd dir_state \<Rightarrow> (int, 'd dir_state) exec" where
  "after_cleanup counters r st =
     (if dropWhile (\<lambda>c. c > 0) counters = [] then Blocked st
      else case r of None \<Rightarrow> Crash | Some (n, st') \<Rightarrow> Returns n st')"

definition ios_fchdir :: "int list \<Rightarrow> 'd file_system \<Rightarrow> dir_config \<Rightarrow> int \<Rightarrow> 'd dir_state \<Rightarrow> (int, 'd dir_state) exec" where
  "ios_fchdir counters fs cfg fd st = after_cleanup counters (fchdir_body fs cfg fd st) st"

definition ios_fchdir_nolock :: "int list \<Rightarrow> 'd file_system \<Rightarrow> dir_config \<Rightarrow> int \<Rightarrow> 'd dir_state \<Rightarrow> (int, 'd dir_state) exec" where
  "ios_fchdir_nolock counters fs cfg fd st = after_cleanup counters (fchdir_body fs cfg fd st) st"

definition chdir_nolock :: "'d file_system \<Rightarrow> dir_config \<Rightarrow> string \<Rightarrow> 'd dir_state \<Rightarrow> (int \<times> 'd dir_state) option" where
  "chdir_nolock fs cfg path st = chdir_body True fs cfg path st"

definition chdir :: "int list \<Rightarrow> 'd file_system \<Rightarrow> dir_config \<Rightarrow> string \<Rightarrow> 'd dir_state \<Rightarrow> (int, 'd dir_state) exec" where
  "chdir counters fs cfg path st = after_cleanup counters (chdir_body False fs cfg path st) st"

section \<open>The command cd\<close>

text \<open>
  \<open>t\<close> is the process table, in which the directory to go back to is changed. The note to the application about the directory
  used (\<^verbatim>\<open>storeDirectoryUsed\<close>) is left out.
\<close>

definition cd_main ::
  "'d file_system \<Rightarrow> dir_config \<Rightarrow> tid \<Rightarrow> string list \<Rightarrow> 'd dir_state \<Rightarrow> process_table \<Rightarrow> (int \<times> 'd dir_state \<times> process_table) option" where
  "cd_main fs cfg self argv st t =
     (case dd_session st of
        None \<Rightarrow> Some (1, st, t)
      | Some sp \<Rightarrow>
          do { st1 \<leftarrow>
                 (if length argv > 1 then
                    let arg = argv ! 1;
                        dir = (if arg = ''-'' then sp_previousDirectory sp else arg)
                    in cd_to_dir fs cfg (pathJoin (Some (sp_currentDir sp)) (Some dir)) st
                  else
                    let home = (case dc_miniRoot cfg of None \<Rightarrow> dc_documents cfg | Some root \<Rightarrow> root);
                        d = enter_or_stay fs (dd_dir st) home
                    in do { p \<leftarrow> fs_path fs d;
                            c \<leftarrow> strcpy_path p;
                            Some (st\<lparr>dd_dir := d,
                                     dd_session := Some (sp\<lparr>sp_previousDirectory := sp_currentDir sp, sp_currentDir := c\<rparr>)\<rparr>) });
               t1 \<leftarrow> newPreviousDirectory self (case fs_path fs (dd_dir st1) of None \<Rightarrow> t | Some p \<Rightarrow> t\<lparr>pt_cwd := p\<rparr>);
               Some (0, st1, t1) })"

section \<open>Setting the roots\<close>

definition ios_setMiniRoot :: "'d file_system \<Rightarrow> string \<Rightarrow> dir_config \<Rightarrow> 'd dir_state \<Rightarrow> (int \<times> dir_config \<times> 'd dir_state) option" where
  "ios_setMiniRoot fs mRoot cfg st =
     (if fs_isdir fs (dd_dir st) mRoot \<noteq> Some True then Some (0, cfg, st)
      else case fs_enter fs (dd_dir st) mRoot of
        None \<Rightarrow> Some (0, cfg, st)
      | Some d \<Rightarrow>
          let root = fs_path fs d;
              d1 = (case fs_path fs (dd_dir st) of None \<Rightarrow> d | Some currentDir \<Rightarrow> enter_or_stay fs d currentDir);
              cfg1 = cfg\<lparr>dc_miniRoot := root\<rparr>
          in (case dd_session st of
                None \<Rightarrow> Some (1, cfg1, st\<lparr>dd_dir := d1\<rparr>)
              | Some sp \<Rightarrow>
                  map_option (\<lambda>c. (1, cfg1, st\<lparr>dd_dir := d1, dd_session := Some (sp\<lparr>sp_currentDir := c, sp_previousDirectory := c\<rparr>)\<rparr>))
                    (Option.bind root strcpy_path)))"

text \<open>\<open>new\<close> are the parameters of the default session, which is made when there is no session.\<close>

definition ios_setMiniRootURL :: "'d file_system \<Rightarrow> session_params \<Rightarrow> string \<Rightarrow> 'd dir_state \<Rightarrow> (int \<times> 'd dir_state) option" where
  "ios_setMiniRootURL fs new path st =
     (let sp = (case dd_session st of None \<Rightarrow> new | Some sp \<Rightarrow> sp) in
      do { c \<leftarrow> strcpy_path path;
           Some (1, st\<lparr>dd_session := Some (sp\<lparr>sp_localMiniRoot := c, sp_previousDirectory := sp_currentDir sp, sp_currentDir := c\<rparr>),
                      dd_dir := enter_or_stay fs (dd_dir st) path\<rparr>) })"

definition ios_setAllowedPaths :: "string list \<Rightarrow> dir_config \<Rightarrow> int \<times> dir_config" where
  "ios_setAllowedPaths paths cfg = (1, cfg\<lparr>dc_allowedPaths := paths\<rparr>)"

definition ios_setDirectoryURL :: "'d file_system \<Rightarrow> string \<Rightarrow> 'd dir_state \<Rightarrow> 'd dir_state option" where
  "ios_setDirectoryURL fs path st =
     (let st1 = st\<lparr>dd_dir := enter_or_stay fs (dd_dir st) path\<rparr> in
      case dd_session st of
        None \<Rightarrow> Some st1
      | Some sp \<Rightarrow>
          if fs_path fs (dd_dir st1) = Some (sp_currentDir sp) then Some st1
          else map_option (\<lambda>c. st1\<lparr>dd_session := Some (sp\<lparr>sp_previousDirectory := sp_currentDir sp, sp_currentDir := c\<rparr>)\<rparr>)
                 (strcpy_path path))"


section \<open>Staying inside\<close>

text \<open>
  What is relied on of the file system: absolute paths lead to the same directory from everywhere; the path reported for a directory is
  absolute and in normal form, leads to it and fits into the arrays; so does the path of an existing file.
\<close>

definition fs_ok :: "'d file_system \<Rightarrow> bool" where
  "fs_ok fs \<longleftrightarrow>
     (\<forall>d e p. hasPrefix p [slash] \<longrightarrow> fs_enter fs d p = fs_enter fs e p) \<and>
     (\<forall>d. \<exists>p. fs_path fs d = Some p \<and> (\<exists>ps. normal_parts False ps \<and> p = path_text True False ps) \<and> length p < SESSION_MAXPATHLEN \<and>
       (\<forall>e. fs_enter fs e p = Some d)) \<and>
     (\<forall>d p. fs_isdir fs d p \<noteq> None \<longrightarrow> length p < SESSION_MAXPATHLEN)"

text \<open>The directories a session may be in are those below a root, as places in the tree.\<close>

definition roots :: "dir_config \<Rightarrow> session_params \<Rightarrow> string set" where
  "roots cfg sp =
     set_option (dc_miniRoot cfg) \<union> (if sp_localMiniRoot sp = [] then {} else {sp_localMiniRoot sp}) \<union> set (dc_allowedPaths cfg)"

definition inside :: "'d file_system \<Rightarrow> dir_config \<Rightarrow> session_params \<Rightarrow> 'd \<Rightarrow> bool" where
  "inside fs cfg sp d \<longleftrightarrow>
     (\<exists>p root. fs_path fs d = Some p \<and> root \<in> roots cfg sp \<and> prefix (leads_to [] root) (leads_to [] p))"

text \<open>
  The process and the directories of the session, the current and the previous one, are inside; the paths of the session lead to the same
  place from everywhere.
\<close>

definition sandboxed :: "'d file_system \<Rightarrow> dir_config \<Rightarrow> session_params \<Rightarrow> 'd dir_state \<Rightarrow> bool" where
  "sandboxed fs cfg sp0 st \<longleftrightarrow>
     (\<exists>sp. dd_session st = Some sp \<and> roots cfg sp = roots cfg sp0 \<and> inside fs cfg sp (dd_dir st) \<and>
        (\<forall>path \<in> {sp_currentDir sp, sp_previousDirectory sp}. \<exists>d. inside fs cfg sp d \<and> (\<forall>e. fs_enter fs e path = Some d)))"

text \<open>
  The code compares texts. This is the same, if no directory next to a root has a name that continues the name of the root.
\<close>

definition no_siblings :: "'d file_system \<Rightarrow> dir_config \<Rightarrow> session_params \<Rightarrow> bool" where
  "no_siblings fs cfg sp \<longleftrightarrow>
     (\<forall>d. \<forall>root \<in> roots cfg sp. \<forall>w. fs_path fs d = Some (root @ w) \<longrightarrow> w = [] \<or> hd w = slash \<or> hasSuffix root [slash])"

text \<open>What the code has checked of a directory.\<close>

definition accepted :: "'d file_system \<Rightarrow> dir_config \<Rightarrow> session_params \<Rightarrow> 'd \<Rightarrow> bool" where
  "accepted fs cfg sp d \<longleftrightarrow> allowed_cd_to_path cfg (Some sp) (fs_path fs d)"

definition leads_accepted :: "'d file_system \<Rightarrow> dir_config \<Rightarrow> session_params \<Rightarrow> string \<Rightarrow> bool" where
  "leads_accepted fs cfg sp path \<longleftrightarrow> hasPrefix path [slash] \<and> (\<exists>d. accepted fs cfg sp d \<and> (\<forall>e. fs_enter fs e path = Some d))"

text \<open>
  The process is in a directory that passes the check, and the directories of the session lead to one from everywhere; the mini root is set to a path
  the file system reports, as \<^verbatim>\<open>ios_setMiniRoot\<close> does.
\<close>

definition checked :: "'d file_system \<Rightarrow> dir_config \<Rightarrow> string \<Rightarrow> 'd dir_state \<Rightarrow> bool" where
  "checked fs cfg lroot st \<longleftrightarrow>
     (\<exists>sp root r. dd_session st = Some sp \<and> sp_localMiniRoot sp = lroot \<and> dc_miniRoot cfg = Some root \<and> fs_path fs r = Some root \<and>
        accepted fs cfg sp (dd_dir st) \<and> leads_accepted fs cfg sp (sp_currentDir sp) \<and> leads_accepted fs cfg sp (sp_previousDirectory sp))"

lemma fs_ok_absolute: "fs_ok fs \<Longrightarrow> hasPrefix p [slash] \<Longrightarrow> fs_enter fs d p = fs_enter fs e p"
  unfolding fs_ok_def by blast

lemma fs_ok_path:
  assumes "fs_ok fs" "fs_path fs d = Some p"
  shows "\<exists>ps. normal_parts False ps \<and> p = path_text True False ps" "hasPrefix p [slash]" "strcpy_path p = Some p"
    "\<forall>e. fs_enter fs e p = Some d"
proof -
  have p: "(\<exists>ps. normal_parts False ps \<and> p = path_text True False ps) \<and> length p < SESSION_MAXPATHLEN \<and> (\<forall>e. fs_enter fs e p = Some d)"
    using assms unfolding fs_ok_def by (metis option.inject)
  then show "\<exists>ps. normal_parts False ps \<and> p = path_text True False ps" "\<forall>e. fs_enter fs e p = Some d" by blast+
  show "hasPrefix p [slash]" "strcpy_path p = Some p" using p path_text_ends(1) by (auto simp: strcpy_path_def)
qed

lemma fs_ok_known: "fs_ok fs \<Longrightarrow> \<exists>p. fs_path fs d = Some p"
  unfolding fs_ok_def by blast

lemma fs_ok_fits: "fs_ok fs \<Longrightarrow> fs_isdir fs d p \<noteq> None \<Longrightarrow> strcpy_path p = Some p"
  unfolding fs_ok_def strcpy_path_def by simp

lemma allowed_cong:
  "sp_localMiniRoot sp' = sp_localMiniRoot sp \<Longrightarrow> allowed_cd_to_path cfg (Some sp') p = allowed_cd_to_path cfg (Some sp) p"
  by (simp add: allowed_cd_to_path_def split: option.split)

lemma accepted_cong: "sp_localMiniRoot sp' = sp_localMiniRoot sp \<Longrightarrow> accepted fs cfg sp' d = accepted fs cfg sp d"
  unfolding accepted_def by (rule allowed_cong)

lemma root_accepted: "dc_miniRoot cfg = Some root \<Longrightarrow> fs_path fs r = Some root \<Longrightarrow> accepted fs cfg sp r"
  by (simp add: accepted_def allowed_cd_to_path_def hasPrefix_def)

lemma leads_accepted_cong:
  "sp_localMiniRoot sp' = sp_localMiniRoot sp \<Longrightarrow> leads_accepted fs cfg sp' path = leads_accepted fs cfg sp path"
  unfolding leads_accepted_def by (simp add: accepted_cong [of sp' sp])

lemma checkedE:
  assumes "checked fs cfg lroot st" "dd_session st = Some sp"
  obtains root r d where "dc_miniRoot cfg = Some root" "fs_path fs r = Some root" "accepted fs cfg sp (dd_dir st)"
    "leads_accepted fs cfg sp (sp_currentDir sp)" "leads_accepted fs cfg sp (sp_previousDirectory sp)"
    "hasPrefix (sp_currentDir sp) [slash]" "accepted fs cfg sp d" "\<And>e. fs_enter fs e (sp_currentDir sp) = Some d"
  using assms unfolding checked_def leads_accepted_def by fastforce

text \<open>A new directory of the process and of the session.\<close>

lemma checked_move:
  assumes inv: "checked fs cfg lroot st" and sp: "dd_session st = Some sp"
    and d: "accepted fs cfg sp d" "hasPrefix c [slash]" "\<forall>e. fs_enter fs e c = Some d"
    and st': "dd_dir st' = d" "dd_session st' = Some sp'" "sp_currentDir sp' = c" "sp_localMiniRoot sp' = sp_localMiniRoot sp"
      "sp_previousDirectory sp' \<in> {sp_previousDirectory sp, sp_currentDir sp, c}"
  shows "checked fs cfg lroot st'"
proof -
  note cong = accepted_cong [OF st'(4)] leads_accepted_cong [OF st'(4)]
  have c: "leads_accepted fs cfg sp c" using d by (auto simp: leads_accepted_def)
  from inv sp obtain root r where "dc_miniRoot cfg = Some root" "fs_path fs r = Some root"
    "leads_accepted fs cfg sp (sp_currentDir sp)" "leads_accepted fs cfg sp (sp_previousDirectory sp)" "sp_localMiniRoot sp = lroot"
    unfolding checked_def by auto
  then show ?thesis using c d(1) st' unfolding checked_def by (auto simp: cong)
qed

lemma checked_same:
  "checked fs cfg lroot st \<Longrightarrow> dd_session st' = dd_session st \<Longrightarrow> dd_dir st' = dd_dir st \<Longrightarrow> checked fs cfg lroot st'"
  by (simp add: checked_def)

text \<open>Where a change that was not allowed ends: \<open>p\<close> is the path of the directory that was entered, \<open>st\<close> the state in it.\<close>

definition taken_back :: "'d file_system \<Rightarrow> dir_config \<Rightarrow> session_params \<Rightarrow> string \<Rightarrow> 'd dir_state \<Rightarrow> 'd dir_state \<Rightarrow> bool" where
  "taken_back fs cfg sp p st st' \<longleftrightarrow>
     (\<exists>root. dc_miniRoot cfg = Some root \<and>
        (if hasPrefix root p
         then fs_path fs (dd_dir st') = Some root \<and> dd_session st' = Some (sp\<lparr>sp_currentDir := root, sp_previousDirectory := root\<rparr>)
         else fs_enter fs (dd_dir st) (sp_currentDir sp) = Some (dd_dir st') \<and> dd_session st' = Some sp))"

lemma taken_back_cong: "dd_dir st = dd_dir st1 \<Longrightarrow> taken_back fs cfg sp p st st' = taken_back fs cfg sp p st1 st'"
  by (simp only: taken_back_def)

lemma go_back_checked:
  assumes ok: "fs_ok fs" and inv: "checked fs cfg lroot st" and sp: "dd_session st = Some sp" and st1: "dd_session st1 = Some sp"
  shows "\<exists>st'. go_back fs cfg (Some p) sp st1 = Some st' \<and> checked fs cfg lroot st' \<and> dd_errno st' = dd_errno st1 \<and>
    taken_back fs cfg sp p st1 st'"
proof -
  obtain root d0 d where i: "dc_miniRoot cfg = Some root" "fs_path fs d0 = Some root" "accepted fs cfg sp d"
    "hasPrefix (sp_currentDir sp) [slash]" "\<And>e. fs_enter fs e (sp_currentDir sp) = Some d"
    using inv sp by (rule checkedE) metis
  note rt = fs_ok_path [OF ok i(2)]
  show ?thesis
  proof (cases "hasPrefix root p")
    case True
    let ?st = "st1\<lparr>dd_dir := d0, dd_session := Some (sp\<lparr>sp_currentDir := root, sp_previousDirectory := root\<rparr>)\<rparr>"
    have "go_back fs cfg (Some p) sp st1 = Some ?st"
      using i(1) True rt by (simp add: go_back_def enter_or_stay_def)
    moreover have "checked fs cfg lroot ?st"
      by (rule checked_move [OF inv sp root_accepted [OF i(1,2)] rt(2,4)], simp, simp, simp_all)
    moreover have "taken_back fs cfg sp p st1 ?st" using i(1,2) True by (simp add: taken_back_def)
    ultimately show ?thesis by auto
  next
    case False
    let ?st = "st1\<lparr>dd_dir := d\<rparr>"
    have "go_back fs cfg (Some p) sp st1 = Some ?st"
      using i False by (simp add: go_back_def enter_or_stay_def)
    moreover have "checked fs cfg lroot ?st"
      by (rule checked_move [OF inv sp i(3,4)]) (use i(5) st1 in auto)
    moreover have "taken_back fs cfg sp p st1 ?st" using i False st1 by (simp add: taken_back_def)
    ultimately show ?thesis by auto
  qed
qed

text \<open>A change that succeeded is accepted or taken back.\<close>

lemma report_exists:
  assumes "fs_ok fs"
  obtains p where "fs_path fs d = Some p" "hasPrefix p [slash]" "strcpy_path p = Some p" "\<forall>e. fs_enter fs e p = Some d"
  using fs_ok_known [OF assms] fs_ok_path [OF assms] by metis

lemma checked_session: "checked fs cfg lroot st \<Longrightarrow> \<exists>sp. dd_session st = Some sp"
  by (auto simp: checked_def)

text \<open>The outcomes of \<^verbatim>\<open>chdir\<close>.\<close>

definition chdir_error :: "'d file_system \<Rightarrow> 'd dir_state \<Rightarrow> string \<Rightarrow> errno" where
  "chdir_error fs st path =
     (case fs_isdir fs (dd_dir st) path of None \<Rightarrow> ENOENT | Some False \<Rightarrow> ENOTDIR | Some True \<Rightarrow> EACCES)"

text \<open>The directory \<^verbatim>\<open>chdir\<close> enters before it looks whether it may.\<close>

definition chdir_enters :: "'d file_system \<Rightarrow> 'd dir_state \<Rightarrow> string \<Rightarrow> 'd option" where
  "chdir_enters fs st path =
     (if fs_isdir fs (dd_dir st) path = Some True \<and> fs_readable fs (dd_dir st) path then fs_enter fs (dd_dir st) path else None)"

definition chdir_outcome :: "'d file_system \<Rightarrow> dir_config \<Rightarrow> session_params \<Rightarrow> string \<Rightarrow> 'd dir_state \<Rightarrow> int \<Rightarrow> 'd dir_state \<Rightarrow> bool" where
  "chdir_outcome fs cfg sp path st n st' \<longleftrightarrow>
     (case chdir_enters fs st path of
        None \<Rightarrow> n = - 1 \<and> dd_errno st' = Some (chdir_error fs st path) \<and> dd_dir st' = dd_dir st \<and> dd_session st' = Some sp
      | Some d \<Rightarrow>
          (\<exists>p. fs_path fs d = Some p \<and>
             (if allowed_cd_to_path cfg (Some sp) (Some p)
              then n = 0 \<and> dd_errno st' = None \<and> dd_dir st' = d \<and> dd_session st' = Some (sp\<lparr>sp_currentDir := p\<rparr>)
              else n = - 1 \<and> dd_errno st' = Some EACCES \<and> taken_back fs cfg sp p (st\<lparr>dd_dir := d\<rparr>) st')))"

lemma chdir_body_outcome:
  assumes ok: "fs_ok fs" and inv: "checked fs cfg lroot st" and sp: "dd_session st = Some sp"
  shows "\<exists>n st'. chdir_body fallback fs cfg path st = Some (n, st') \<and> checked fs cfg lroot st' \<and> chdir_outcome fs cfg sp path st n st'"
proof (cases "chdir_enters fs st path")
  case None
  have "\<exists>st'. chdir_body fallback fs cfg path st = Some (- 1, st') \<and> dd_errno st' = Some (chdir_error fs st path) \<and>
      dd_dir st' = dd_dir st \<and> dd_session st' = dd_session st"
    using None by (auto simp: chdir_body_def chdir_error_def chdir_enters_def split: option.splits bool.splits)
  then show ?thesis using None sp checked_same [OF inv] by (auto simp: chdir_outcome_def)
next
  case (Some d)
  then have d: "fs_isdir fs (dd_dir st) path = Some True" "fs_readable fs (dd_dir st) path" "fs_enter fs (dd_dir st) path = Some d"
    by (auto simp: chdir_enters_def split: if_splits)
  obtain p where p: "fs_path fs d = Some p" "hasPrefix p [slash]" "strcpy_path p = Some p" "\<forall>e. fs_enter fs e p = Some d"
    using report_exists [OF ok, of d] by metis
  show ?thesis
  proof (cases "allowed_cd_to_path cfg (Some sp) (Some p)")
    case True
    let ?st = "st\<lparr>dd_dir := d, dd_session := Some (sp\<lparr>sp_currentDir := p\<rparr>), dd_errno := None\<rparr>"
    have b: "chdir_body fallback fs cfg path st = Some (0, ?st)"
      using d p sp True by (simp add: chdir_body_def)
    have "accepted fs cfg sp d" using True p(1) by (simp add: accepted_def)
    then have "checked fs cfg lroot ?st" by (rule checked_move [OF inv sp _ p(2,4)], simp, simp, simp_all)
    then show ?thesis using b p(1) True Some by (auto simp: chdir_outcome_def)
  next
    case False
    let ?st = "st\<lparr>dd_dir := d, dd_errno := Some EACCES\<rparr>"
    obtain st' where g: "go_back fs cfg (Some p) sp ?st = Some st'" "checked fs cfg lroot st'" "dd_errno st' = Some EACCES"
      "taken_back fs cfg sp p ?st st'"
      using go_back_checked [OF ok inv sp, of ?st p] sp by auto
    have "chdir_body fallback fs cfg path st = Some (- 1, st')"
      using d p sp False g(1) by (simp add: chdir_body_def)
    moreover have "taken_back fs cfg sp p (st\<lparr>dd_dir := d\<rparr>) st'"
      using g(4) taken_back_cong [of "st\<lparr>dd_dir := d\<rparr>" ?st] by simp
    ultimately show ?thesis using g(2,3) p(1) False Some by (auto simp: chdir_outcome_def)
  qed
qed

lemma fchdir_body_checked:
  assumes ok: "fs_ok fs" and inv: "checked fs cfg lroot st"
  shows "\<exists>n st'. fchdir_body fs cfg fd st = Some (n, st') \<and> checked fs cfg lroot st'"
proof (cases "fs_fchdir fs fd")
  case (Inl e)
  then show ?thesis using checked_same [OF inv] by (simp add: fchdir_body_def)
next
  case (Inr d)
  obtain sp where sp: "dd_session st = Some sp" using checked_session [OF inv] by blast
  obtain p where p: "fs_path fs d = Some p" "hasPrefix p [slash]" "strcpy_path p = Some p" "\<forall>e. fs_enter fs e p = Some d"
    using report_exists [OF ok, of d] by metis
  show ?thesis
  proof (cases "allowed_cd_to_path cfg (Some sp) (Some p)")
    case True
    let ?st = "st\<lparr>dd_dir := d, dd_session := Some (sp\<lparr>sp_previousDirectory := sp_currentDir sp, sp_currentDir := p\<rparr>), dd_errno := None\<rparr>"
    have "fchdir_body fs cfg fd st = Some (0, ?st)" using Inr p sp True by (simp add: fchdir_body_def)
    moreover have "accepted fs cfg sp d" using True p(1) by (simp add: accepted_def)
    then have "checked fs cfg lroot ?st" by (rule checked_move [OF inv sp _ p(2,4)], simp, simp, simp_all)
    ultimately show ?thesis by auto
  next
    case False
    let ?st = "st\<lparr>dd_dir := d, dd_errno := Some EACCES\<rparr>"
    obtain st' where g: "go_back fs cfg (Some p) sp ?st = Some st'" "checked fs cfg lroot st'"
      using go_back_checked [OF ok inv sp, of ?st p] sp by auto
    then show ?thesis using Inr p sp False by (simp add: fchdir_body_def)
  qed
qed

lemma cd_to_dir_checked:
  assumes ok: "fs_ok fs" and inv: "checked fs cfg lroot st" and abs: "hasPrefix newDir [slash]"
  shows "\<exists>st'. cd_to_dir fs cfg newDir st = Some st' \<and> checked fs cfg lroot st'"
proof -
  obtain sp where sp: "dd_session st = Some sp" using checked_session [OF inv] by blast
  show ?thesis
  proof (cases "\<exists>d. fs_isdir fs (dd_dir st) newDir = Some True \<and> fs_readable fs (dd_dir st) newDir \<and> fs_enter fs (dd_dir st) newDir = Some d")
    case False
    then have "\<exists>what. cd_to_dir fs cfg newDir st = Some (say what newDir st)"
      by (auto simp: cd_to_dir_def split: option.splits bool.splits)
    then show ?thesis using checked_same [OF inv] by (auto simp: say_def)
  next
    case True
    then obtain d where d: "fs_isdir fs (dd_dir st) newDir = Some True" "fs_readable fs (dd_dir st) newDir" "fs_enter fs (dd_dir st) newDir = Some d"
      by blast
    obtain p where p: "fs_path fs d = Some p" using report_exists [OF ok, of d] by metis
    have fits: "strcpy_path newDir = Some newDir" using fs_ok_fits [OF ok, of "dd_dir st" newDir] d(1) by simp
    have go: "\<forall>e. fs_enter fs e newDir = Some d" using fs_ok_absolute [OF ok abs] d(3) by metis
    show ?thesis
    proof (cases "allowed_cd_to_path cfg (Some sp) (Some p)")
      case True
      let ?st = "st\<lparr>dd_dir := d, dd_session := Some (sp\<lparr>sp_previousDirectory := sp_currentDir sp, sp_currentDir := newDir\<rparr>)\<rparr>"
      have "cd_to_dir fs cfg newDir st = Some ?st" using d p sp True fits by (simp add: cd_to_dir_def)
      moreover have "accepted fs cfg sp d" using True p(1) by (simp add: accepted_def)
      then have "checked fs cfg lroot ?st" by (rule checked_move [OF inv sp _ abs go], simp, simp, simp_all)
      ultimately show ?thesis by auto
    next
      case False
      let ?st = "say ''permission denied'' newDir (st\<lparr>dd_dir := d\<rparr>)"
      obtain st' where g: "go_back fs cfg (Some p) sp ?st = Some st'" "checked fs cfg lroot st'"
        using go_back_checked [OF ok inv sp, of ?st p] sp by (auto simp: say_def)
      then show ?thesis using d p sp False by (simp add: cd_to_dir_def)
    qed
  qed
qed

lemma new_directory_inv: "pt_inv t \<Longrightarrow> \<exists>t'. newPreviousDirectory self t = Some t' \<and> pt_inv t'"
  using pt_invD(1) [of t] pt_invD(4) [of t self] by (auto simp: newPreviousDirectory_def pt_inv_def table_shape_def)

lemma cd_main_checked:
  assumes ok: "fs_ok fs" and inv: "checked fs cfg lroot st" and t: "pt_inv t"
  shows "\<exists>n st' t'. cd_main fs cfg self argv st t = Some (n, st', t') \<and> checked fs cfg lroot st' \<and> pt_inv t'"
proof -
  obtain sp root r where sp: "dd_session st = Some sp" "dc_miniRoot cfg = Some root" "fs_path fs r = Some root" "hasPrefix (sp_currentDir sp) [slash]"
    using inv by (auto simp: checked_def leads_accepted_def)
  have table: "\<exists>t1. newPreviousDirectory self (case fs_path fs d of None \<Rightarrow> t | Some p \<Rightarrow> t\<lparr>pt_cwd := p\<rparr>) = Some t1 \<and> pt_inv t1" for d
    using new_directory_inv [of t] new_directory_inv [of "t\<lparr>pt_cwd := p\<rparr>" for p] t
    by (auto simp: pt_inv_def table_shape_def split: option.split)
  show ?thesis
  proof (cases "length argv > 1")
    case True
    define dir where "dir = (if argv ! 1 = ''-'' then sp_previousDirectory sp else argv ! 1)"
    obtain st1 where "cd_to_dir fs cfg (pathJoin (Some (sp_currentDir sp)) (Some dir)) st = Some st1" "checked fs cfg lroot st1"
      using cd_to_dir_checked [OF ok inv pathJoin_absolute [OF sp(4)]] by blast
    then show ?thesis using True sp table [of "dd_dir st1"] by (auto simp: cd_main_def dir_def Let_def)
  next
    case False
    note rt = fs_ok_path [OF ok sp(3)]
    let ?st = "st\<lparr>dd_dir := r, dd_session := Some (sp\<lparr>sp_previousDirectory := sp_currentDir sp, sp_currentDir := root\<rparr>)\<rparr>"
    have "checked fs cfg lroot ?st"
      by (rule checked_move [OF inv sp(1) root_accepted [OF sp(2,3)] rt(2,4)], simp, simp, simp_all)
    then show ?thesis using False sp rt table [of r] by (auto simp: cd_main_def enter_or_stay_def)
  qed
qed


section \<open>Properties\<close>

text \<open>The calls, by whatever commands.\<close>

datatype dir_op = Chdir "int list" string | Chdir_nolock string | Fchdir "int list" int | Cd tid "string list"

definition still :: "(int, 'd dir_state) exec \<Rightarrow> process_table \<Rightarrow> ('d dir_state \<times> process_table) option" where
  "still r t = (case r of Returns _ st \<Rightarrow> Some (st, t) | Blocked st \<Rightarrow> Some (st, t) | Crash \<Rightarrow> None)"

fun dir_step :: "'d file_system \<Rightarrow> dir_config \<Rightarrow> dir_op \<Rightarrow> 'd dir_state \<times> process_table \<Rightarrow> ('d dir_state \<times> process_table) option" where
  "dir_step fs cfg (Chdir counters path) (st, t) = still (chdir counters fs cfg path st) t"
| "dir_step fs cfg (Chdir_nolock path) (st, t) = map_option (\<lambda>(_, st'). (st', t)) (chdir_nolock fs cfg path st)"
| "dir_step fs cfg (Fchdir counters fd) (st, t) = still (ios_fchdir counters fs cfg fd st) t"
| "dir_step fs cfg (Cd self argv) (st, t) = map_option snd (cd_main fs cfg self argv st t)"

fun dir_run :: "'d file_system \<Rightarrow> dir_config \<Rightarrow> dir_op list \<Rightarrow> 'd dir_state \<times> process_table \<Rightarrow> ('d dir_state \<times> process_table) option" where
  "dir_run fs cfg [] x = Some x"
| "dir_run fs cfg (op # ops) x = Option.bind (dir_step fs cfg op x) (dir_run fs cfg ops)"

lemma dir_step_checked:
  assumes ok: "fs_ok fs" and inv: "checked fs cfg lroot st" and t: "pt_inv t"
  shows "\<exists>st' t'. dir_step fs cfg op (st, t) = Some (st', t') \<and> checked fs cfg lroot st' \<and> pt_inv t'"
proof -
  obtain sp where sp: "dd_session st = Some sp" using checked_session [OF inv] by blast
  have chdir: "\<exists>n st'. chdir_body b fs cfg path st = Some (n, st') \<and> checked fs cfg lroot st'" for b path
    using chdir_body_outcome [OF ok inv sp, of b path] by blast
  show ?thesis
  proof (cases op)
    case (Chdir counters path)
    then show ?thesis using chdir [of False path] inv t by (auto simp: chdir_def after_cleanup_def still_def)
  next
    case (Chdir_nolock path)
    then show ?thesis using chdir [of True path] t by (auto simp: chdir_nolock_def)
  next
    case (Fchdir counters fd)
    then show ?thesis using fchdir_body_checked [OF ok inv, of fd] inv t by (auto simp: ios_fchdir_def after_cleanup_def still_def)
  next
    case (Cd self argv)
    then show ?thesis using cd_main_checked [OF ok inv t, of self argv] by auto
  qed
qed

lemma dir_run_checked:
  assumes ok: "fs_ok fs" and "checked fs cfg lroot st" and "pt_inv t"
  shows "\<exists>st' t'. dir_run fs cfg ops (st, t) = Some (st', t') \<and> checked fs cfg lroot st' \<and> pt_inv t'"
  using assms(2,3)
proof (induction ops arbitrary: st t)
  case (Cons op ops)
  obtain st1 t1 where "dir_step fs cfg op (st, t) = Some (st1, t1)" "checked fs cfg lroot st1" "pt_inv t1"
    using dir_step_checked [OF ok Cons.prems] by blast
  then show ?case using Cons.IH [of st1 t1] by simp
qed simp

text \<open>A directory that passed the check is below a root.\<close>

lemma below_slash:
  assumes "normal_parts False ps" "path_text True False ps = a @ slash # b"
  shows "prefix (leads_to [] a) ps"
proof -
  have c: "filter (\<lambda>w. w \<noteq> []) (components_at slash a) @ filter (\<lambda>w. w \<noteq> []) (components_at slash b) = ps"
    using components_path_text [OF assms(1), of True False] assms(2) by (simp add: components_at_append)
  then have "\<forall>n \<in> set (filter (\<lambda>w. w \<noteq> []) (components_at slash a)). is_name n"
    using assms(1) unfolding normal_parts_False by (metis Un_iff set_append)
  then have "leads_to [] a = filter (\<lambda>w. w \<noteq> []) (components_at slash a)"
    using walk_names [of _ "[]"] walk_filter [of "[]" "components_at slash a"] by (simp add: leads_to_def)
  then show ?thesis using c by (metis prefixI)
qed

lemma accepted_inside:
  assumes ok: "fs_ok fs" and sib: "no_siblings fs cfg sp" and acc: "accepted fs cfg sp d" and mini: "dc_miniRoot cfg \<noteq> None"
  shows "inside fs cfg sp d"
proof -
  obtain p where p: "fs_path fs d = Some p" using fs_ok_known [OF ok] by blast
  obtain ps where ps: "normal_parts False ps" "p = path_text True False ps" using fs_ok_path(1) [OF ok p] by blast
  obtain root where root: "root \<in> roots cfg sp" "hasPrefix p root"
  proof -
    have "\<exists>root \<in> roots cfg sp. hasPrefix p root"
      using acc p mini unfolding accepted_def allowed_cd_to_path_def roots_def list_ex_iff by auto
    with that show thesis by blast
  qed
  obtain w where w: "p = root @ w" using root(2) by (auto simp: hasPrefix_def prefix_def)
  have to: "leads_to [] p = ps"
    using leads_to_text [OF ps(1)] walk_names [of ps "[]"] ps normal_parts_False by auto
  have "w = [] \<or> hd w = slash \<or> (\<exists>r. root = r @ [slash])"
    using sib p root(1) w unfolding no_siblings_def hasSuffix_def suffix_def by blast
  then consider "w = []" | w' where "w = slash # w'" | r where "root = r @ [slash]"
    by (cases w) auto
  then have "prefix (leads_to [] root) (leads_to [] p)"
  proof cases
    case 2
    then show ?thesis using below_slash [OF ps(1), of root w'] ps(2) w to by simp
  next
    case 3
    have "leads_to [] root = leads_to [] r"
      using leads_to_join [of "[]" r "[]"] 3 by (cases "r = []") (auto simp: leads_to_def hasPrefix_def components_at_Cons)
    then show ?thesis using below_slash [OF ps(1), of r w] ps(2) w 3 to by simp
  qed (simp add: w)
  then show ?thesis using p root(1) by (auto simp: inside_def)
qed

lemma checked_sandboxed:
  assumes ok: "fs_ok fs" and sib: "no_siblings fs cfg sp0" and inv: "checked fs cfg (sp_localMiniRoot sp0) st"
  shows "sandboxed fs cfg sp0 st"
proof -
  obtain sp where sp: "dd_session st = Some sp" "sp_localMiniRoot sp = sp_localMiniRoot sp0" "dc_miniRoot cfg \<noteq> None"
    "accepted fs cfg sp (dd_dir st)" "leads_accepted fs cfg sp (sp_currentDir sp)" "leads_accepted fs cfg sp (sp_previousDirectory sp)"
    using inv by (auto simp: checked_def)
  have r: "roots cfg sp = roots cfg sp0" using sp(2) by (simp add: roots_def)
  then have "accepted fs cfg sp d \<Longrightarrow> inside fs cfg sp d" for d
    using accepted_inside [OF ok _ _ sp(3), of sp d] sib by (simp add: no_siblings_def)
  then show ?thesis using sp r unfolding sandboxed_def leads_accepted_def by fastforce
qed

text \<open>
  C9: Commands do not leave the allowed directories. Let a session start with its process and its directories, the current and the
  previous one, in places that pass the check of the code, with a mini root that the file system knows, and let no directory next to a root
  continue the name of that root. Then any sequence of \<^verbatim>\<open>chdir\<close>, \<^verbatim>\<open>fchdir\<close> and \<^verbatim>\<open>cd\<close>, successful or not, runs without a fault
  and ends with the process, and with both directories of the session, at or below one of the roots in the tree of directories: the mini root, the mini
  root of the session, or an allowed path. Without the condition on names it can end next to a root, see \<open>sibling_of_root_allowed\<close>.
\<close>

theorem commands_stay_in_allowed_directories:
  assumes "fs_ok fs" and "no_siblings fs cfg sp" and "checked fs cfg (sp_localMiniRoot sp) st" and "pt_inv t"
  shows "\<exists>st' t'. dir_run fs cfg ops (st, t) = Some (st', t') \<and> sandboxed fs cfg sp st'"
  using dir_run_checked [OF assms(1,3,4), of ops] checked_sandboxed [OF assms(1,2)] by blast

text \<open>
  C30: The outcome of \<^verbatim>\<open>chdir\<close>, on every path. When the path is missing, not a directory, or cannot be read or entered, it returns -1 with
  \<^verbatim>\<open>ENOENT\<close>, \<^verbatim>\<open>ENOTDIR\<close> or \<^verbatim>\<open>EACCES\<close>, and nothing has moved. When the directory can be entered and is allowed, it returns 0, the process is
  in it and the session has its path. When it can be entered but is not allowed, it returns -1 with \<^verbatim>\<open>EACCES\<close>: if its path is the beginning of that of
  the mini root, the process ends in the mini root and so do both directories of the session; otherwise the process ends in the current
  directory of the session, which is not changed. It returns as soon as no command is ending.
\<close>

theorem chdir_succeeds_iff_allowed:
  assumes "fs_ok fs" and "checked fs cfg lroot st" and "dd_session st = Some sp" and "\<exists>c \<in> set counters. c \<le> 0"
  shows "\<exists>n st'. chdir counters fs cfg path st = Returns n st' \<and> chdir_outcome fs cfg sp path st n st'"
proof -
  have "dropWhile (\<lambda>c. c > 0) counters \<noteq> []" using assms(4) by (auto simp: dropWhile_eq_Nil_conv not_less)
  moreover obtain n st' where b: "chdir_body False fs cfg path st = Some (n, st')" "chdir_outcome fs cfg sp path st n st'"
    using chdir_body_outcome [OF assms(1-3), of False path] by blast
  ultimately have "chdir counters fs cfg path st = Returns n st'" by (simp add: chdir_def after_cleanup_def)
  then show ?thesis using b(2) by blast
qed

section \<open>An example\<close>

text \<open>A file system with the directories \<^verbatim>\<open>/r\<close> and \<^verbatim>\<open>/r/a\<close>; \<open>params\<close> are the parameters of any session.\<close>

definition demo_fs :: "bool file_system" where
  "demo_fs = \<lparr>fs_isdir = (\<lambda>d p. if p = ''/r'' \<or> p = ''/r/a'' then Some True else None), fs_readable = (\<lambda>d p. True),
     fs_enter = (\<lambda>d p. if p = ''/r'' then Some False else if p = ''/r/a'' then Some True else None),
     fs_path = (\<lambda>d. Some (if d then ''/r/a'' else ''/r'')), fs_fchdir = (\<lambda>fd. Inl EBADF)\<rparr>"

definition demo_cfg :: dir_config where
  "demo_cfg = \<lparr>dc_miniRoot = Some ''/r'', dc_allowedPaths = [], dc_documents = ''/r''\<rparr>"

definition demo_dir :: "session_params \<Rightarrow> bool dir_state" where
  "demo_dir params = \<lparr>dd_dir = False, dd_session = Some (params\<lparr>sp_currentDir := ''/r'', sp_previousDirectory := ''/r'', sp_localMiniRoot := []\<rparr>), dd_errno = None, dd_stderr = []\<rparr>"

lemmas demo_defs = demo_fs_def demo_cfg_def demo_dir_def

lemma demo_path_text:
  "path_text True False [''r''] = ''/r''" "path_text True False [''r'', ''a''] = ''/r/a''"
  "normal_parts False [''r'']" "normal_parts False [''r'', ''a'']"
  by (simp_all add: path_text_def slash_def normal_parts_False is_name_def dot_def dotdot_def)

lemma demo_fs_ok: "fs_ok demo_fs"
proof -
  have "\<exists>ps. normal_parts False ps \<and> (if d then ''/r/a'' else ''/r'') = path_text True False ps" for d
    using demo_path_text by (cases d) (metis (full_types))+
  then show ?thesis by (auto simp: fs_ok_def demo_fs_def hasPrefix_def slash_def SESSION_MAXPATHLEN_def)
qed

lemma demo_checked: "checked demo_fs demo_cfg [] (demo_dir params)"
proof -
  let ?sp = "params\<lparr>sp_currentDir := ''/r'', sp_previousDirectory := ''/r'', sp_localMiniRoot := []\<rparr>"
  have "accepted demo_fs demo_cfg ?sp False" by (simp add: demo_defs accepted_def allowed_cd_to_path_def hasPrefix_def)
  moreover have "leads_accepted demo_fs demo_cfg ?sp ''/r''"
    using calculation by (auto simp: leads_accepted_def demo_fs_def hasPrefix_def slash_def)
  ultimately show ?thesis by (auto simp: checked_def demo_dir_def demo_cfg_def) (auto simp: demo_fs_def)
qed

lemma demo_no_siblings: "no_siblings demo_fs demo_cfg (ios_session_init_params demo_session_mem\<lparr>sp_localMiniRoot := []\<rparr>)"
  by (auto simp: no_siblings_def roots_def demo_fs_def demo_cfg_def slash_def split: if_splits)

theorem commands_stay_in_allowed_directories_witness:
  "\<exists>st' t'. dir_run demo_fs demo_cfg [Cd 7 [''cd'', ''a''], Cd 7 [''cd'', ''../..''], Chdir [0] ''/etc''] (demo_dir (ios_session_init_params demo_session_mem), start_table) =
      Some (st', t') \<and> sandboxed demo_fs demo_cfg (ios_session_init_params demo_session_mem\<lparr>sp_localMiniRoot := []\<rparr>) st'"
  by (rule commands_stay_in_allowed_directories [OF demo_fs_ok demo_no_siblings _ start_table_facts(1)]) (simp add: demo_checked)

theorem chdir_succeeds_iff_allowed_witness:
  "\<exists>n st'. chdir [1, 0] demo_fs demo_cfg ''/r/a'' (demo_dir (ios_session_init_params demo_session_mem)) = Returns n st' \<and> n = 0 \<and> dd_dir st'"
proof -
  let ?st = "demo_dir (ios_session_init_params demo_session_mem)"
  have "chdir_enters demo_fs ?st ''/r/a'' = Some True" by (simp add: chdir_enters_def demo_defs)
  moreover have "\<exists>n st'. chdir [1, 0] demo_fs demo_cfg ''/r/a'' ?st = Returns n st' \<and> chdir_outcome demo_fs demo_cfg (the (dd_session ?st)) ''/r/a'' ?st n st'"
    by (rule chdir_succeeds_iff_allowed [OF demo_fs_ok demo_checked]) (simp_all add: demo_dir_def)
  moreover have "fs_path demo_fs True = Some ''/r/a''" "allowed_cd_to_path demo_cfg (Some sp) (Some ''/r/a'')" for sp
    by (simp_all add: demo_defs allowed_cd_to_path_def hasPrefix_def)
  ultimately show ?thesis by (auto simp: chdir_outcome_def)
qed

section \<open>Boundary behaviour\<close>

text \<open>The test compares strings, not paths: a directory next to the mini root, whose name continues that of the mini root, is allowed.\<close>

lemma sibling_of_root_allowed:
  "allowed_cd_to_path \<lparr>dc_miniRoot = Some ''/data/app'', dc_allowedPaths = [], dc_documents = []\<rparr> None (Some ''/data/app-old'')"
  by (simp add: allowed_cd_to_path_def hasPrefix_def)

text \<open>\<^verbatim>\<open>cd\<close> returns 0 whatever happened, also for a directory that does not exist.\<close>

lemma cd_reports_success:
  "cd_main fs cfg self argv st t = Some (n, st', t') \<Longrightarrow> dd_session st = Some sp \<Longrightarrow> n = 0"
  by (auto simp: cd_main_def split: bind_splits)

lemma cd_to_missing_directory:
  "\<exists>st' t'. cd_main demo_fs demo_cfg 7 [''cd'', ''x''] (demo_dir (ios_session_init_params demo_session_mem)) start_table = Some (0, st', t') \<and>
    dd_stderr st' = [''cd: /r/x: no such file or directory'']"
proof -
  have "pathJoin (Some ''/r'') (Some ''x'') = ''/r/x''" by code_simp
  then show ?thesis
    using new_directory_inv [of "start_table\<lparr>pt_cwd := ''/r''\<rparr>" 7] start_table_facts(1)
    by (auto simp: cd_main_def demo_defs cd_to_dir_def say_def pt_inv_def table_shape_def)
qed

text \<open>Setting the mini root leaves the process where it is, also when that is outside the new root, while the session is said to be in it.\<close>

lemma set_mini_root_does_not_move:
  assumes "fs_ok fs" "ios_setMiniRoot fs mRoot cfg st = Some (1, cfg', st')" "dd_session st = Some sp"
  shows "dd_dir st' = dd_dir st" "map_option sp_currentDir (dd_session st') = dc_miniRoot cfg'"
  using assms fs_ok_known [OF assms(1), of "dd_dir st"] fs_ok_path(4) [OF assms(1), of "dd_dir st"]
  by (auto simp: ios_setMiniRoot_def enter_or_stay_def strcpy_path_def Let_def split: option.splits if_splits bind_splits)

end
