(* ===== verification/Current_Session.thy ===== *)
theory Current_Session
  imports Directories
begin

text \<open>
  The current session of a thread in \<^verbatim>\<open>ios_system.m\<close>: \<^verbatim>\<open>ios_switchSession\<close>, \<^verbatim>\<open>ios_closeSession\<close> and the calls that look up a session by
  its id, over the sessions of \<^verbatim>\<open>ios_session_manager.m\<close>.

  A thread has a counted reference (\<^verbatim>\<open>currentSessionRef\<close>) and a pointer to the parameters (\<^verbatim>\<open>currentSession\<close>). \<open>None\<close> is a fault: a
  freed session, or one of the faults of the session manager. Each call of the session manager is done in one piece; the functions here are compositions
  of such pieces, and in \<open>session_history\<close> the pieces of several threads interleave.
\<close>

section \<open>State\<close>

record thread_session =
  ts_ref :: "session_ref option"
  ts_session :: "addr option"

definition no_session :: thread_session where
  "no_session = \<lparr>ts_ref = None, ts_session = None\<rparr>"

text \<open>Reading and writing the parameters of a session through a pointer.\<close>

definition params_of :: "session_table \<Rightarrow> addr \<Rightarrow> session_params option" where
  "params_of s a = sm_store s a"

definition update_params :: "addr \<Rightarrow> (session_params \<Rightarrow> session_params) \<Rightarrow> session_table \<Rightarrow> session_table option" where
  "update_params a f s = map_option (\<lambda>sp. s\<lparr>sm_store := (sm_store s)(a \<mapsto> f sp)\<rparr>) (sm_store s a)"

section \<open>Switching\<close>

text \<open>Whether the thread is in a shell session started from the session asked for, or in that session already.\<close>

definition already_there :: "session_id \<Rightarrow> addr option \<Rightarrow> session_id \<Rightarrow> thread_session \<Rightarrow> session_table \<Rightarrow> bool option" where
  "already_there sh_session parentSession sessionId th s =
     (case ts_session th of
        None \<Rightarrow> Some False
      | Some c \<Rightarrow>
          do { sp \<leftarrow> params_of s c;
               inner \<leftarrow> (case parentSession of
                           None \<Rightarrow> Some False
                         | Some p \<Rightarrow> if sp_context sp = sh_session
                                     then map_option (\<lambda>pp. sp_context pp = sessionId) (params_of s p)
                                     else Some False);
               Some (inner \<or> sp_context sp \<noteq> 0 \<and> sp_context sp = sessionId) })"

text \<open>
  The new state of the thread, the sessions, and the directory of the process. The assignments to the streams at the end of the function
  store what is there already.
\<close>

definition set_context :: "session_id \<Rightarrow> session_params \<Rightarrow> session_params" where
  "set_context sessionId sp = (if sp_context sp = 0 then sp\<lparr>sp_context := sessionId\<rparr> else sp)"

text \<open>The pieces of a switch: the old reference is released, the new one is taken, the session is entered.\<close>

definition switch_release :: "thread_session \<Rightarrow> session_table \<Rightarrow> (thread_session \<times> session_table) option" where
  "switch_release th s =
     map_option (\<lambda>s1. (if ts_ref th \<noteq> None then no_session else th, s1)) (ios_session_release (\<lambda>s. s) (\<lambda>s. s) (ts_ref th) s)"

definition switch_acquire :: "session_mem \<Rightarrow> session_id \<Rightarrow> thread_session \<Rightarrow> session_table \<Rightarrow> (thread_session \<times> session_table) option" where
  "switch_acquire mem sessionId th s =
     map_option (\<lambda>(ref, s1).
        (case ref of None \<Rightarrow> th\<lparr>ts_ref := None\<rparr> | Some r \<Rightarrow> \<lparr>ts_ref = Some r, ts_session = ios_session_get_params (Some r)\<rparr>, s1))
       (ios_session_get_or_create mem (\<lambda>s. s) sessionId (ios_session_manager_init (me_key mem) s))"

definition switch_enter ::
  "'d file_system \<Rightarrow> session_id \<Rightarrow> thread_session \<Rightarrow> session_table \<Rightarrow> 'd \<Rightarrow> (session_table \<times> 'd) option" where
  "switch_enter fs sessionId th s d =
     do { a \<leftarrow> ts_session th;
          s1 \<leftarrow> update_params a (set_context sessionId) s;
          sp \<leftarrow> params_of s1 a;
          Some (s1, if fs_path fs d = Some (sp_currentDir sp) then d else enter_or_stay fs d (sp_currentDir sp)) }"

definition ios_switchSession ::
  "'d file_system \<Rightarrow> session_mem \<Rightarrow> session_id \<Rightarrow> addr option \<Rightarrow> session_id \<Rightarrow> thread_session \<Rightarrow> session_table \<Rightarrow> 'd \<Rightarrow>
   (thread_session \<times> session_table \<times> 'd) option" where
  "ios_switchSession fs mem sh_session parentSession sessionId th s d =
     do { there \<leftarrow> already_there sh_session parentSession sessionId th s;
          if there then Some (th, s, d)
          else
            do { (th1, s1) \<leftarrow> switch_release th s;
                 (th2, s2) \<leftarrow> switch_acquire mem sessionId th1 s1;
                 if ts_ref th2 = None then Some (th2, s2, d)
                 else do { (s3, d1) \<leftarrow> switch_enter fs sessionId th2 s2 d;
                           Some (th2, s3, d1) } } }"

text \<open>A session is closed by giving up the reference to it, if there is one, and then marking it for deletion.\<close>

definition close_release :: "int \<Rightarrow> session_id \<Rightarrow> thread_session \<Rightarrow> session_table \<Rightarrow> (thread_session \<times> session_table) option" where
  "close_release key sessionId th s0 =
     (let s = ios_session_manager_init key s0 in
      do { mine \<leftarrow> (case (ts_ref th, ts_session th) of
                      (Some r, Some c) \<Rightarrow> map_option (\<lambda>sp. sp_context sp = sessionId) (params_of s c)
                    | _ \<Rightarrow> Some False);
           if mine then map_option (\<lambda>s1. (no_session, s1)) (ios_session_release (\<lambda>s. s) (\<lambda>s. s) (ts_ref th) s)
           else Some (th, s) })"

definition ios_closeSession :: "int \<Rightarrow> session_id \<Rightarrow> thread_session \<Rightarrow> session_table \<Rightarrow> (thread_session \<times> session_table) option" where
  "ios_closeSession key sessionId th s =
     do { (th1, s1) \<leftarrow> close_release key sessionId th s;
          (_, s2) \<leftarrow> ios_session_delete key (\<lambda>s. s) sessionId s1;
          Some (th1, s2) }"

section \<open>Calls for a session by its id\<close>

definition with_session :: "int \<Rightarrow> session_id \<Rightarrow> 'r \<Rightarrow> (addr \<Rightarrow> session_table \<Rightarrow> ('r \<times> session_table) option) \<Rightarrow>
    session_table \<Rightarrow> ('r \<times> session_table) option" where
  "with_session key sessionId absent body s =
     do { (ref, s1) \<leftarrow> ios_session_get key sessionId s;
          (case ref of
             None \<Rightarrow> Some (absent, s1)
           | Some (a, sid) \<Rightarrow>
               do { (r, s2) \<leftarrow> body a s1;
                    s3 \<leftarrow> ios_session_release (\<lambda>s. s) (\<lambda>s. s) (Some (a, sid)) s2;
                    Some (r, s3) }) }"

definition pwd_body :: "addr \<Rightarrow> session_table \<Rightarrow> (string option \<times> session_table) option" where
  "pwd_body a s = map_option (\<lambda>sp. (Some (sp_currentDir sp), s)) (params_of s a)"

definition ios_getLogicalPWD :: "int \<Rightarrow> session_id \<Rightarrow> session_table \<Rightarrow> (string option \<times> session_table) option" where
  "ios_getLogicalPWD key sessionId s = with_session key sessionId None pwd_body s"

text \<open>
  \<^verbatim>\<open>sprintf(columns, "%d", MIN(width, 9999))\<close> into an array of five characters; \<open>decimal\<close> writes a number.
\<close>

fun digits :: "nat \<Rightarrow> string" where
  "digits n = (if n < 10 then [char_of (48 + n)] else digits (n div 10) @ [char_of (48 + n mod 10)])"

lemmas [simp del] = digits.simps

definition decimal :: "int \<Rightarrow> string" where
  "decimal i = (if i < 0 then CHR ''-'' # digits (nat (- i)) else digits (nat i))"

definition size_text :: "int \<Rightarrow> string option" where
  "size_text width = (let t = decimal (min width 9999) in if length t < 5 then Some t else None)"

text \<open>
  The size is stored under the write lock of the session, which the thread waits for until it is free; the signals to the threads of the session
  are left out.
\<close>

definition window_body :: "int \<Rightarrow> int \<Rightarrow> addr \<Rightarrow> session_table \<Rightarrow> (unit \<times> session_table) option" where
  "window_body width height a s =
     do { c \<leftarrow> size_text width; l \<leftarrow> size_text height;
          s1 \<leftarrow> update_params a (\<lambda>sp. sp\<lparr>sp_columns := c, sp_lines := l\<rparr>) s;
          Some ((), s1) }"

definition ios_setWindowSize :: "int \<Rightarrow> int \<Rightarrow> int \<Rightarrow> session_id \<Rightarrow> session_table \<Rightarrow> (unit \<times> session_table) option" where
  "ios_setWindowSize key width height sessionId s = with_session key sessionId () (window_body width height) s"

text \<open>
  \<open>handler\<close> tells whether a handler for the interrupt signal is installed, and \<open>killed\<close> what \<^verbatim>\<open>pthread_kill\<close> returns; \<^verbatim>\<open>ESRCH\<close> is 3.
\<close>

definition kill_body :: "errno list \<Rightarrow> bool \<Rightarrow> int \<Rightarrow> addr \<Rightarrow> session_table \<Rightarrow> (int \<times> session_table) option" where
  "kill_body es handler killed a s =
     do { sp \<leftarrow> params_of s a;
          if sp_current_command_root_thread sp > 0 then
            (case ios_session_request_cancel es (Some sp) of
               (n, sp') \<Rightarrow> do { s1 \<leftarrow> update_params a (\<lambda>_. the sp') s;
                               Some (if handler \<and> killed \<noteq> 0 then killed else n, s1) })
          else Some (3, s) }"

definition ios_kill_session :: "int \<Rightarrow> errno list \<Rightarrow> bool \<Rightarrow> int \<Rightarrow> session_id \<Rightarrow> session_table \<Rightarrow> (int \<times> session_table) option" where
  "ios_kill_session key es handler killed sessionId s = with_session key sessionId 3 (kill_body es handler killed) s"


text \<open>The same for the session of the calling thread.\<close>

definition ios_kill :: "errno list \<Rightarrow> bool \<Rightarrow> int \<Rightarrow> thread_session \<Rightarrow> session_table \<Rightarrow> (int \<times> session_table) option" where
  "ios_kill es handler killed th s =
     (case ts_session th of
        None \<Rightarrow> Some (3, s)
      | Some a \<Rightarrow>
          do { sp \<leftarrow> params_of s a;
               if sp_current_command_root_thread sp > 0 then
                 (case ios_session_request_cancel es (Some sp) of
                    (n, sp') \<Rightarrow> do { s1 \<leftarrow> update_params a (\<lambda>_. the sp') s;
                                    Some (if handler \<and> killed \<noteq> 0 then killed else if n = 0 then 0 else 3, s1) })
               else Some (3, s) })"

section \<open>The session of a shell\<close>

text \<open>
  What \<^verbatim>\<open>sh_main\<close> does with the sessions: the current session becomes the parent, without a reference, the shell
  gets a session of its own, and at the end the parent is the current session again, still without a reference. \<open>sh_enter\<close> stops where a shell already
  runs in the session.
\<close>

definition sh_enter ::
  "'d file_system \<Rightarrow> session_mem \<Rightarrow> session_id \<Rightarrow> stream option \<times> stream option \<times> stream option \<Rightarrow> addr option \<Rightarrow>
   thread_session \<Rightarrow> session_table \<Rightarrow> 'd \<Rightarrow> (bool \<times> addr option \<times> thread_session \<times> session_table \<times> 'd) option" where
  "sh_enter fs mem sh_session thread_streams parentSession th s d =
     do { c \<leftarrow> ts_session th;
          sp \<leftarrow> params_of s c;
          if sp_context sp = sh_session then Some (False, parentSession, th, s, d)
          else
            do { let parent = (if parentSession = None then Some c else parentSession);
                 (th1, s1, d1) \<leftarrow> ios_switchSession fs mem sh_session parent sh_session th s d;
                 n \<leftarrow> ts_session th1;
                 p \<leftarrow> parent;
                 pp \<leftarrow> params_of s1 p;
                 s2 \<leftarrow> update_params n (\<lambda>sp. sp\<lparr>sp_isMainThread := False, sp_context := sh_session,
                         sp_stdin := fst thread_streams, sp_stdout := fst (snd thread_streams), sp_stderr := snd (snd thread_streams),
                         sp_current_command_root_thread := 0, sp_lastThreadId := 0, sp_mainThreadId := sp_mainThreadId pp\<rparr>) s1;
                 Some (True, parent, th1, s2, d1) } }"

definition sh_leave :: "int \<Rightarrow> session_id \<Rightarrow> addr option \<Rightarrow> thread_session \<Rightarrow> session_table \<Rightarrow> (addr option \<times> thread_session \<times> session_table) option" where
  "sh_leave key sh_session parentSession th s =
     do { (th1, s1) \<leftarrow> ios_closeSession key sh_session th s;
          Some (None, th1\<lparr>ts_session := parentSession\<rparr>, s1) }"

section \<open>Several threads\<close>

text \<open>The calls, outside of a shell, and where in a call a thread is.\<close>

datatype lookup = Pwd | Window int int | Kill "errno list" bool int

datatype session_call =
    Switch session_id
  | Close int session_id
  | Look int session_id lookup
  | Kill_current "errno list" bool int

datatype call_stage =
    Between
  | Released session_id
  | Entering session_id
  | Closing int session_id
  | Looking lookup session_ref
  | Looked session_ref

fun lookup_body :: "lookup \<Rightarrow> addr \<Rightarrow> session_table \<Rightarrow> session_table option" where
  "lookup_body Pwd a s = map_option snd (pwd_body a s)"
| "lookup_body (Window w h) a s = map_option snd (window_body w h a s)"
| "lookup_body (Kill es handler killed) a s = map_option snd (kill_body es handler killed a s)"

type_synonym 'd session_world = "(tid \<Rightarrow> thread_session) \<times> (tid \<Rightarrow> call_stage) \<times> session_table \<times> 'd"

text \<open>The next piece of thread \<open>t\<close>: it begins the call \<open>c\<close>, or goes on with the one it is in.\<close>

definition begin_call :: "session_id \<Rightarrow> tid \<Rightarrow> session_call \<Rightarrow> 'd session_world \<Rightarrow> 'd session_world option" where
  "begin_call sh t c w = (case w of (ths, stg, s, d) \<Rightarrow>
     (case c of
        Switch sid \<Rightarrow>
          do { there \<leftarrow> already_there sh None sid (ths t) s;
               if there then Some (ths, stg, s, d)
               else map_option (\<lambda>(th, s1). (ths(t := th), stg(t := Released sid), s1, d)) (switch_release (ths t) s) }
      | Close key sid \<Rightarrow> map_option (\<lambda>(th, s1). (ths(t := th), stg(t := Closing key sid), s1, d)) (close_release key sid (ths t) s)
      | Look key sid b \<Rightarrow>
          map_option (\<lambda>(ref, s1). (ths, case ref of None \<Rightarrow> stg | Some r \<Rightarrow> stg(t := Looking b r), s1, d)) (ios_session_get key sid s)
      | Kill_current es hnd k \<Rightarrow> map_option (\<lambda>(r, s1). (ths, stg, s1, d)) (ios_kill es hnd k (ths t) s)))"

definition piece :: "'d file_system \<Rightarrow> session_id \<Rightarrow> tid \<Rightarrow> session_mem \<Rightarrow> session_call \<Rightarrow> 'd session_world \<Rightarrow> 'd session_world option" where
  "piece fs sh t mem c w = (case w of (ths, stg, s, d) \<Rightarrow>
     (case stg t of
        Between \<Rightarrow> begin_call sh t c (ths, stg, s, d)
      | Released sid \<Rightarrow>
          map_option (\<lambda>(th, s1). (ths(t := th), stg(t := if ts_ref th = None then Between else Entering sid), s1, d)) (switch_acquire mem sid (ths t) s)
      | Entering sid \<Rightarrow> map_option (\<lambda>(s1, d1). (ths, stg(t := Between), s1, d1)) (switch_enter fs sid (ths t) s d)
      | Closing key sid \<Rightarrow> map_option (\<lambda>(_, s1). (ths, stg(t := Between), s1, d)) (ios_session_delete key (\<lambda>s. s) sid s)
      | Looking b r \<Rightarrow> map_option (\<lambda>s1. (ths, stg(t := Looked r), s1, d)) (lookup_body b (fst r) s)
      | Looked r \<Rightarrow> map_option (\<lambda>s1. (ths, stg(t := Between), s1, d)) (ios_session_release (\<lambda>s. s) (\<lambda>s. s) (Some r) s)))"

text \<open>The memory of a new session is not in use when it is allocated; a window has a size.\<close>

fun sized :: "lookup \<Rightarrow> bool" where
  "sized (Window w h) \<longleftrightarrow> - 999 \<le> w \<and> - 999 \<le> h"
| "sized _ \<longleftrightarrow> True"

definition admissible :: "session_mem \<Rightarrow> session_call \<Rightarrow> 'd session_world \<Rightarrow> bool" where
  "admissible mem c w \<longleftrightarrow> fresh mem (fst (snd (snd w))) \<and> (case c of Look key sid b \<Rightarrow> sized b | _ \<Rightarrow> True)"

inductive session_history :: "'d file_system \<Rightarrow> session_id \<Rightarrow> 'd session_world \<Rightarrow> 'd session_world \<Rightarrow> bool" for fs sh w where
  history_start: "session_history fs sh w w"
| history_piece: "session_history fs sh w w1 \<Longrightarrow> admissible mem c w1 \<Longrightarrow> piece fs sh t mem c w1 = Some w2 \<Longrightarrow> session_history fs sh w w2"

text \<open>
  Every thread points to the session it has a reference to, and the count of a session is the number of threads that have it as their current one and of those
  that look something up in it.
\<close>

definition holders :: "(tid \<Rightarrow> thread_session) \<Rightarrow> session_ref \<Rightarrow> tid set" where
  "holders ths r = {t. ts_ref (ths t) = Some r}"

fun looks_at :: "call_stage \<Rightarrow> session_ref option" where
  "looks_at (Looking b r) = Some r"
| "looks_at (Looked r) = Some r"
| "looks_at _ = None"

definition lookers :: "(tid \<Rightarrow> call_stage) \<Rightarrow> session_ref \<Rightarrow> tid set" where
  "lookers stg r = {t. looks_at (stg t) = Some r}"

text \<open>What is known of a thread at its stage.\<close>

fun stage_ok :: "call_stage \<Rightarrow> thread_session \<Rightarrow> bool" where
  "stage_ok (Released sid) th \<longleftrightarrow> th = no_session"
| "stage_ok (Entering sid) th \<longleftrightarrow> ts_ref th \<noteq> None"
| "stage_ok (Looking b r) th \<longleftrightarrow> sized b"
| "stage_ok _ th \<longleftrightarrow> True"

definition cs_inv :: "'d session_world \<Rightarrow> bool" where
  "cs_inv w \<longleftrightarrow> (case w of (ths, stg, s, d) \<Rightarrow>
     sm_inv s \<and> (\<forall>t. ts_session (ths t) = ios_session_get_params (ts_ref (ths t)) \<and> stage_ok (stg t) (ths t)) \<and>
     (\<forall>r. finite (holders ths r) \<and> finite (lookers stg r) \<and> session_refs s r = card (holders ths r) + card (lookers stg r)))"

section \<open>What the session manager promises\<close>

lemma set_context_simps [simp]:
  "sp_ref_count (set_context sid sp) = sp_ref_count sp" "sp_is_destroying (set_context sid sp) = sp_is_destroying sp"
  by (simp_all add: set_context_def)

lemma release_held:
  assumes "sm_inv s" "0 < session_refs s r"
  obtains s' where "ios_session_release (\<lambda>s. s) (\<lambda>s. s) (Some r) s = Some s'" "sm_inv s'"
    "session_refs s' = (session_refs s)(r := session_refs s r - 1)"
proof -
  have "(snd r, fst r) \<in> set (entries s)" "0 < rc s (fst r)" using assms(2) by (auto simp: session_refs_def split: if_splits)
  then obtain s' where "ios_session_release (\<lambda>s. s) (\<lambda>s. s) (Some r) s = Some s'"
    by (cases rule: release_cases [OF assms(1)]) auto
  with sessions.release_counts [OF assms, of s'] that show thesis by (auto simp: Session_Manager.releases_def)
qed

lemma get_or_create_total:
  assumes "sm_inv s" "fresh mem s"
  obtains (Got) r s' where "ios_session_get_or_create mem (\<lambda>s. s) sid s = Some (Some r, s')" "sm_inv s'"
      "session_refs s' = (session_refs s)(r := session_refs s r + 1)"
  | (Not) "ios_session_get_or_create mem (\<lambda>s. s) sid s = Some (None, s)"
proof (cases rule: get_or_create_cases [OF assms, of sid])
  case (1 a sp)
  then show thesis using sessions.acquire_counts [OF assms(1), of "(a, sid)"] Got assms(2) by (auto simp: acquires_def)
next
  case (2 a)
  then show thesis using sessions.acquire_counts [OF assms(1), of "(a, sid)"] Got assms(2) by (auto simp: acquires_def)
next
  case 3
  then show thesis using Not by blast
qed

lemma get_total:
  assumes "sm_inv s"
  obtains (Got) r s' where "ios_session_get key sid s = Some (Some r, s')" "sm_inv s'"
      "session_refs s' = (session_refs s)(r := session_refs s r + 1)"
  | (Not) "ios_session_get key sid s = Some (None, s)"
proof (cases rule: try_acquire_cases [OF assms, of sid])
  case (1 a sp)
  then have "ios_session_get key sid s = Some (Some (a, sid), add_ref a sp s)" using assms by (simp add: ios_session_get_def sm_init_noop)
  moreover from this have "acquires s (a, sid) (add_ref a sp s)" unfolding acquires_def by blast
  ultimately show thesis using sessions.acquire_counts [OF assms] Got by blast
next
  case 2
  then show thesis using Not assms by (simp add: ios_session_get_def sm_init_noop)
qed

lemma delete_total:
  assumes "sm_inv s"
  obtains b s' where "ios_session_delete key (\<lambda>s. s) sid s = Some (b, s')" "sm_inv s'" "session_refs s' = session_refs s"
proof -
  obtain b s' where "ios_session_delete key (\<lambda>s. s) sid s = Some (b, s')" by (cases rule: delete_cases [OF assms, of sid key]) auto
  with sessions.other_counts [OF assms, of s'] that show thesis by (auto simp: deletes_def)
qed

lemma held_params:
  assumes "sm_inv s" "0 < session_refs s r"
  obtains sp where "params_of s (fst r) = Some sp"
  using entry_live [OF assms(1), of "snd r" "fst r"] assms(2) by (auto simp: session_refs_def params_of_def split: if_splits)

text \<open>A change of the parameters that leaves the count and the mark of a session alone.\<close>

lemma update_params_total:
  assumes "sm_inv s" "params_of s a = Some sp" "sp_ref_count (f sp) = sp_ref_count sp" "sp_is_destroying (f sp) = sp_is_destroying sp"
  shows "\<exists>s'. update_params a f s = Some s' \<and> sm_inv s' \<and> session_refs s' = session_refs s \<and> params_of s' a = Some (f sp)"
proof -
  let ?s = "s\<lparr>sm_store := (sm_store s)(a \<mapsto> f sp)\<rparr>"
  have sp: "sm_store s a = Some sp" using assms(2) by (simp add: params_of_def)
  have "0 \<le> sp_ref_count sp \<and> (sp_is_destroying sp \<longrightarrow> 0 < sp_ref_count sp)" "rc s a = sp_ref_count sp"
    using assms(1) sp by (auto simp: sm_inv_def rc_def)
  with sm_inv_upd [OF assms(1) sp, of "f sp" ?s] assms(3,4) have "sm_inv ?s" "rc ?s = rc s" by (auto simp: fun_upd_idem)
  then show ?thesis using sp by (simp add: update_params_def params_of_def session_refs_def entries_def fun_eq_iff)
qed

lemma holders_upd: "holders (ths(t := th)) r = (if ts_ref th = Some r then insert t (holders ths r) else holders ths r - {t})"
  by (auto simp: holders_def)

lemma lookers_upd: "lookers (stg(t := x)) r = (if looks_at x = Some r then insert t (lookers stg r) else lookers stg r - {t})"
  by (auto simp: lookers_def)

lemma cs_invD:
  assumes "cs_inv (ths, stg, s, d)"
  shows "sm_inv s" "ts_session (ths t) = ios_session_get_params (ts_ref (ths t))" "stage_ok (stg t) (ths t)"
    "finite (holders ths r)" "finite (lookers stg r)" "session_refs s r = card (holders ths r) + card (lookers stg r)"
  using assms unfolding cs_inv_def by blast+

lemma held_counted:
  assumes "cs_inv (ths, stg, s, d)" "ts_ref (ths t) = Some r \<or> looks_at (stg t) = Some r"
  shows "0 < session_refs s r"
proof -
  have "t \<in> holders ths r \<or> t \<in> lookers stg r" using assms(2) by (simp add: holders_def lookers_def)
  then show ?thesis using cs_invD(4-6) [OF assms(1), of r] by (auto simp: card_gt_0_iff)
qed

lemma held_params_of:
  assumes "cs_inv (ths, stg, s, d)" "ts_ref (ths t) = Some r \<or> looks_at (stg t) = Some r"
  obtains sp where "params_of s (fst r) = Some sp"
  by (rule held_params [OF cs_invD(1) [OF assms(1)] held_counted [OF assms]])

lemma current_params:
  assumes "cs_inv (ths, stg, s, d)" "ts_session (ths t) = Some a"
  obtains r sp where "ts_ref (ths t) = Some r" "a = fst r" "params_of s a = Some sp"
proof -
  obtain r where r: "ts_ref (ths t) = Some r" "a = fst r"
    using cs_invD(2) [OF assms(1), of t] assms(2) by (cases "ts_ref (ths t)") (auto simp: ios_session_get_params_def)
  then show thesis using held_params_of [OF assms(1), of t r] that by metis
qed

text \<open>A thread moves to a stage without a reference of its own, while the counts stay.\<close>

lemma cs_inv_frame:
  assumes "cs_inv (ths, stg, s, d)" "sm_inv s'" "session_refs s' = session_refs s" "looks_at x = looks_at (stg t)" "stage_ok x (ths t)"
  shows "cs_inv (ths, stg(t := x), s', d')"
proof -
  have "lookers (stg(t := x)) r = lookers stg r" for r using assms(4) by (auto simp: lookers_def)
  then show ?thesis using assms by (simp add: cs_inv_def)
qed

text \<open>A thread gives up its session.\<close>

lemma release_current:
  assumes "cs_inv (ths, stg, s, d)" "looks_at (stg t) = None" "looks_at x = None" "stage_ok x no_session"
  obtains s' where "ios_session_release (\<lambda>s. s) (\<lambda>s. s) (ts_ref (ths t)) s = Some s'"
    "(if ts_ref (ths t) \<noteq> None then no_session else ths t) = no_session" "cs_inv (ths(t := no_session), stg(t := x), s', d')"
proof (cases "ts_ref (ths t)")
  case None
  then have "ts_session (ths t) = None" using cs_invD(2) [OF assms(1), of t] by (simp add: ios_session_get_params_def)
  with None have n: "ths t = no_session" by (simp add: no_session_def)
  then have "ths(t := no_session) = ths" by (simp add: fun_upd_idem)
  moreover have "cs_inv (ths, stg(t := x), s, d')"
    using assms(2-4) n by (intro cs_inv_frame [OF assms(1) cs_invD(1) [OF assms(1)]]) simp_all
  ultimately show thesis using None n that [of s] by (simp add: ios_session_release_def)
next
  case (Some r)
  obtain s' where s': "ios_session_release (\<lambda>s. s) (\<lambda>s. s) (Some r) s = Some s'" "sm_inv s'"
    "session_refs s' = (session_refs s)(r := session_refs s r - 1)"
    using release_held [OF cs_invD(1) [OF assms(1)] held_counted [OF assms(1)], of t r] Some by metis
  have "y \<noteq> r \<Longrightarrow> t \<notin> holders ths y" "t \<in> holders ths r" for y using Some by (auto simp: holders_def)
  moreover have "0 < card (holders ths r)" using calculation(2) cs_invD(4) [OF assms(1), of r] by (auto simp: card_gt_0_iff)
  moreover have "lookers (stg(t := x)) y = lookers stg y" for y using assms(2,3) by (auto simp: lookers_def)
  ultimately have "cs_inv (ths(t := no_session), stg(t := x), s', d')"
    using assms(1,4) s'(2,3) by (auto simp: cs_inv_def holders_upd no_session_def ios_session_get_params_def)
  with s'(1) Some that show thesis by simp
qed

text \<open>A thread without a session takes one.\<close>

lemma acquire_current:
  assumes "cs_inv (ths, stg, s, d)" "ths t = no_session" "looks_at (stg t) = None" "sm_inv s'" "session_refs s' = (session_refs s)(r := session_refs s r + 1)"
  shows "cs_inv (ths(t := \<lparr>ts_ref = Some r, ts_session = ios_session_get_params (Some r)\<rparr>), stg(t := Entering sid), s', d')"
proof -
  have "t \<notin> holders ths x" for x using assms(2) by (simp add: holders_def no_session_def)
  moreover have "lookers (stg(t := Entering sid)) y = lookers stg y" for y using assms(3) by (auto simp: lookers_def)
  ultimately show ?thesis using assms by (auto simp: cs_inv_def holders_upd ios_session_get_params_def)
qed

text \<open>A reference for a lookup is taken and given back.\<close>

lemma acquire_look:
  assumes "cs_inv (ths, stg, s, d)" "looks_at (stg t) = None" "sm_inv s'" "session_refs s' = (session_refs s)(r := session_refs s r + 1)"
    and "looks_at x = Some r" "stage_ok x (ths t)"
  shows "cs_inv (ths, stg(t := x), s', d')"
proof -
  have "t \<notin> lookers stg y" for y using assms(2) by (simp add: lookers_def)
  then show ?thesis using assms by (auto simp: cs_inv_def lookers_upd)
qed

lemma release_look:
  assumes "cs_inv (ths, stg, s, d)" "looks_at (stg t) = Some r"
  obtains s' where "ios_session_release (\<lambda>s. s) (\<lambda>s. s) (Some r) s = Some s'" "cs_inv (ths, stg(t := Between), s', d')"
proof -
  obtain s' where s': "ios_session_release (\<lambda>s. s) (\<lambda>s. s) (Some r) s = Some s'" "sm_inv s'"
    "session_refs s' = (session_refs s)(r := session_refs s r - 1)"
    using release_held [OF cs_invD(1) [OF assms(1)] held_counted [OF assms(1)], of t r] assms(2) by metis
  have "y \<noteq> r \<Longrightarrow> t \<notin> lookers stg y" "t \<in> lookers stg r" for y using assms(2) by (auto simp: lookers_def)
  moreover have "0 < card (lookers stg r)" using calculation(2) cs_invD(5) [OF assms(1), of r] by (auto simp: card_gt_0_iff)
  ultimately have "cs_inv (ths, stg(t := Between), s', d')" using assms(1) s'(2,3) by (auto simp: cs_inv_def lookers_upd)
  with s'(1) that show thesis by blast
qed

text \<open>The numbers of \<^verbatim>\<open>ios_setWindowSize\<close> fit their arrays.\<close>

lemma length_digits: "n < 10 ^ k \<Longrightarrow> 0 < k \<Longrightarrow> length (digits n) \<le> k"
proof (induction n arbitrary: k rule: digits.induct)
  case (1 n)
  then obtain j where j: "k = Suc j" by (cases k) auto
  show ?case
  proof (cases "n < 10")
    case True
    then show ?thesis using 1 by (simp add: digits.simps)
  next
    case False
    then have "n div 10 < 10 ^ j" "0 < j" using 1 j by (auto simp: less_mult_imp_div_less intro: gr0I)
    with 1 False j show ?thesis by (subst digits.simps) simp
  qed
qed

lemma size_text_fits: "- 999 \<le> width \<Longrightarrow> size_text width = Some (decimal (min width 9999))"
proof -
  assume "- 999 \<le> width"
  then have "length (decimal (min width 9999)) \<le> 4"
    using length_digits [of "nat (- min width 9999)" 3] length_digits [of "nat (min width 9999)" 4]
    by (auto simp: decimal_def nat_less_iff)
  then show ?thesis by (simp add: size_text_def)
qed



section \<open>The pieces\<close>

lemma already_there_total:
  assumes "cs_inv (ths, stg, s, d)"
  shows "\<exists>b. already_there sh None sid (ths t) s = Some b"
proof (cases "ts_session (ths t)")
  case (Some a)
  then obtain sp where "params_of s a = Some sp" by (rule current_params [OF assms])
  then show ?thesis using Some by (simp add: already_there_def)
qed (auto simp: already_there_def)

lemma kill_total:
  assumes "sm_inv s" "params_of s a = Some sp"
  shows "\<exists>s'. update_params a (\<lambda>_. the (snd (ios_session_request_cancel es (Some sp)))) s = Some s' \<and> sm_inv s' \<and> session_refs s' = session_refs s"
  using update_params_total [OF assms, of "\<lambda>_. the (snd (ios_session_request_cancel es (Some sp)))"]
  by (auto simp: ios_session_request_cancel_def)

lemma lookup_body_total:
  assumes "sm_inv s" "params_of s a = Some sp" "sized b"
  shows "\<exists>s'. lookup_body b a s = Some s' \<and> sm_inv s' \<and> session_refs s' = session_refs s"
proof (cases b)
  case Pwd
  then show ?thesis using assms by (simp add: pwd_body_def)
next
  case (Window x y)
  with update_params_total [OF assms(1,2), of "\<lambda>sp. sp\<lparr>sp_columns := decimal (min x 9999), sp_lines := decimal (min y 9999)\<rparr>"] assms(3)
  show ?thesis by (auto simp: window_body_def size_text_fits)
next
  case (Kill es hnd k)
  with kill_total [OF assms(1,2), of es] assms show ?thesis
    by (auto simp: kill_body_def split: prod.splits)
qed

lemma kill_current_total:
  assumes "cs_inv (ths, stg, s, d)"
  shows "\<exists>r s'. ios_kill es hnd k (ths t) s = Some (r, s') \<and> sm_inv s' \<and> session_refs s' = session_refs s"
proof (cases "ts_session (ths t)")
  case None
  then show ?thesis using cs_invD(1) [OF assms] by (simp add: ios_kill_def)
next
  case (Some a)
  then obtain sp where sp: "params_of s a = Some sp" by (rule current_params [OF assms])
  with kill_total [OF cs_invD(1) [OF assms] sp, of es] Some cs_invD(1) [OF assms] show ?thesis
    by (auto simp: ios_kill_def split: prod.splits)
qed

lemma close_release_keeps:
  assumes "cs_inv (ths, stg, s, d)" "stg t = Between"
  shows "\<exists>th s'. close_release key sid (ths t) s = Some (th, s') \<and> cs_inv (ths(t := th), stg(t := Closing key sid), s', d)"
proof -
  have init: "ios_session_manager_init key s = s" using cs_invD(1) [OF assms(1)] by (simp add: sm_init_noop)
  define mine where "mine = (case ts_ref (ths t) of None \<Rightarrow> False | Some r \<Rightarrow> (case params_of s (fst r) of None \<Rightarrow> False | Some sp \<Rightarrow> sp_context sp = sid))"
  have m: "(case (ts_ref (ths t), ts_session (ths t)) of
              (Some r, Some c) \<Rightarrow> map_option (\<lambda>sp. sp_context sp = sid) (params_of s c) | _ \<Rightarrow> Some False) = Some mine"
  proof (cases "ts_ref (ths t)")
    case None
    then show ?thesis by (simp add: mine_def)
  next
    case (Some r)
    then obtain sp where "params_of s (fst r) = Some sp" using held_params_of [OF assms(1), of t r] by blast
    with Some cs_invD(2) [OF assms(1), of t] show ?thesis by (simp add: mine_def ios_session_get_params_def)
  qed
  show ?thesis
  proof (cases mine)
    case True
    obtain s' where "ios_session_release (\<lambda>s. s) (\<lambda>s. s) (ts_ref (ths t)) s = Some s'" "cs_inv (ths(t := no_session), stg(t := Closing key sid), s', d)"
      using release_current [OF assms(1), of t "Closing key sid" d] assms(2) by auto
    then show ?thesis using m True init by (simp add: close_release_def Let_def)
  next
    case False
    have "cs_inv (ths, stg(t := Closing key sid), s, d)"
      using assms(2) by (intro cs_inv_frame [OF assms(1) cs_invD(1) [OF assms(1)]]) simp_all
    then show ?thesis using m False init by (simp add: close_release_def Let_def)
  qed
qed

lemma begin_keeps:
  assumes inv: "cs_inv (ths, stg, s, d)" and adm: "admissible mem c (ths, stg, s, d)" and b: "stg t = Between"
  shows "\<exists>w. begin_call sh t c (ths, stg, s, d) = Some w \<and> cs_inv w"
proof (cases c)
  case (Switch sid)
  obtain there where there: "already_there sh None sid (ths t) s = Some there" using already_there_total [OF inv] by blast
  obtain s' where "ios_session_release (\<lambda>s. s) (\<lambda>s. s) (ts_ref (ths t)) s = Some s'"
    "(if ts_ref (ths t) \<noteq> None then no_session else ths t) = no_session" "cs_inv (ths(t := no_session), stg(t := Released sid), s', d)"
    using release_current [OF inv, of t "Released sid" d] b by auto
  then show ?thesis using Switch there inv by (cases there) (simp_all add: begin_call_def switch_release_def)
next
  case (Close key sid)
  then show ?thesis using close_release_keeps [OF inv b, of key sid] by (auto simp: begin_call_def)
next
  case (Look key sid l)
  show ?thesis
  proof (cases rule: get_total [OF cs_invD(1) [OF inv], of key sid])
    case (1 r s')
    have "cs_inv (ths, stg(t := Looking l r), s', d)"
      using adm Look b by (intro acquire_look [OF inv _ 1(2,3)]) (simp_all add: admissible_def)
    then show ?thesis using Look 1(1) by (simp add: begin_call_def)
  next
    case 2
    then show ?thesis using Look inv by (simp add: begin_call_def)
  qed
next
  case (Kill_current es hnd k)
  obtain r s' where r: "ios_kill es hnd k (ths t) s = Some (r, s')" "sm_inv s'" "session_refs s' = session_refs s"
    using kill_current_total [OF inv] by blast
  have "cs_inv (ths, stg(t := stg t), s', d)" using cs_invD(3) [OF inv, of t] by (intro cs_inv_frame [OF inv r(2,3)]) simp_all
  then show ?thesis using Kill_current r(1) by (simp add: begin_call_def)
qed

lemma acquire_keeps:
  assumes inv: "cs_inv (ths, stg, s, d)" and fresh: "fresh mem s" and st: "stg t = Released sid"
  shows "\<exists>th s'. switch_acquire mem sid (ths t) s = Some (th, s') \<and>
    cs_inv (ths(t := th), stg(t := if ts_ref th = None then Between else Entering sid), s', d)"
proof -
  have n: "ths t = no_session" using cs_invD(3) [OF inv, of t] st by simp
  have init: "ios_session_manager_init k s = s" for k using cs_invD(1) [OF inv] by (simp add: sm_init_noop)
  show ?thesis
  proof (cases rule: get_or_create_total [OF cs_invD(1) [OF inv] fresh, of sid])
    case (1 r s')
    then show ?thesis using acquire_current [OF inv n _ 1(2,3), of sid d] st init by (simp add: switch_acquire_def)
  next
    case 2
    have "(no_session :: thread_session)\<lparr>ts_ref := None\<rparr> = no_session" by (simp add: no_session_def)
    moreover have "ths(t := no_session) = ths" using n by (simp add: fun_upd_idem)
    moreover have "cs_inv (ths, stg(t := Between), s, d)"
      using st by (intro cs_inv_frame [OF inv cs_invD(1) [OF inv]]) simp_all
    ultimately show ?thesis using 2 n init by (simp add: switch_acquire_def) (simp add: no_session_def)
  qed
qed

lemma enter_keeps:
  assumes inv: "cs_inv (ths, stg, s, d)" and st: "stg t = Entering sid"
  shows "\<exists>s' d'. switch_enter fs sid (ths t) s d = Some (s', d') \<and> cs_inv (ths, stg(t := Between), s', d')"
proof -
  obtain r where "ts_ref (ths t) = Some r" using cs_invD(3) [OF inv, of t] st by auto
  then obtain a where a: "ts_session (ths t) = Some a" using cs_invD(2) [OF inv, of t] by (auto simp: ios_session_get_params_def)
  then obtain sp where sp: "params_of s a = Some sp" by (rule current_params [OF inv])
  obtain s' where s': "update_params a (set_context sid) s = Some s'" "sm_inv s'" "session_refs s' = session_refs s"
    "params_of s' a = Some (set_context sid sp)"
    using update_params_total [OF cs_invD(1) [OF inv] sp, of "set_context sid"] by auto
  have "cs_inv (ths, stg(t := Between), s', if fs_path fs d = Some x then d else enter_or_stay fs d x)" for x
    using st by (intro cs_inv_frame [OF inv s'(2,3)]) simp_all
  then show ?thesis using a s' by (simp add: switch_enter_def)
qed

lemma piece_keeps:
  assumes "cs_inv w" "admissible mem c w"
  shows "\<exists>w'. piece fs sh t mem c w = Some w' \<and> cs_inv w'"
proof -
  obtain ths stg s d where w: "w = (ths, stg, s, d)" by (cases w)
  note inv = assms(1) [unfolded w]
  show ?thesis
  proof (cases "stg t")
    case Between
    then show ?thesis using begin_keeps [OF inv, of mem c t sh] assms(2) by (simp add: w piece_def)
  next
    case (Released sid)
    obtain th s' where "switch_acquire mem sid (ths t) s = Some (th, s')"
      "cs_inv (ths(t := th), stg(t := if ts_ref th = None then Between else Entering sid), s', d)"
      using acquire_keeps [OF inv _ Released, of mem] assms(2) by (auto simp: w admissible_def)
    then show ?thesis using Released by (simp add: w piece_def)
  next
    case (Entering sid)
    then show ?thesis using enter_keeps [OF inv Entering, of fs] by (auto simp: w piece_def)
  next
    case (Closing key sid)
    obtain b s' where s': "ios_session_delete key (\<lambda>s. s) sid s = Some (b, s')" "sm_inv s'" "session_refs s' = session_refs s"
      by (rule delete_total [OF cs_invD(1) [OF inv]])
    have "cs_inv (ths, stg(t := Between), s', d)" using Closing by (intro cs_inv_frame [OF inv s'(2,3)]) simp_all
    then show ?thesis using Closing s'(1) by (simp add: w piece_def)
  next
    case (Looking b r)
    obtain sp where sp: "params_of s (fst r) = Some sp" using held_params_of [OF inv, of t r] Looking by auto
    have "sized b" using cs_invD(3) [OF inv, of t] Looking by simp
    then obtain s' where s': "lookup_body b (fst r) s = Some s'" "sm_inv s'" "session_refs s' = session_refs s"
      using lookup_body_total [OF cs_invD(1) [OF inv] sp] by blast
    have "cs_inv (ths, stg(t := Looked r), s', d)" using Looking by (intro cs_inv_frame [OF inv s'(2,3)]) simp_all
    then show ?thesis using Looking s'(1) by (simp add: w piece_def)
  next
    case (Looked r)
    then show ?thesis using release_look [OF inv, of t r d] by (auto simp: w piece_def)
  qed
qed

lemma history_inv: "session_history fs sh w w' \<Longrightarrow> cs_inv w \<Longrightarrow> cs_inv w'"
proof (induction rule: session_history.induct)
  case history_start
  then show ?case .
next
  case (history_piece w1 mem c t w2)
  then show ?case using piece_keeps [of w1 mem c fs sh t] by auto
qed

text \<open>A thread that is alone does with its pieces what the function does.\<close>

lemma switch_by_pieces:
  assumes "ios_switchSession fs mem sh None sid (ths t) s d = Some (th, s', d')" "stg t = Between"
  shows "\<exists>n. ((\<lambda>w. Option.bind w (piece fs sh t mem (Switch sid))) ^^ n) (Some (ths, stg, s, d)) = Some (ths(t := th), stg, s', d')"
proof -
  have idem: "stg(t := Between) = stg" using assms(2) by (simp add: fun_upd_idem)
  obtain there where there: "already_there sh None sid (ths t) s = Some there"
    using assms(1) by (auto simp: ios_switchSession_def bind_eq_Some_conv)
  show ?thesis
  proof (cases there)
    case True
    then have "th = ths t" "s' = s" "d' = d" using assms(1) there by (simp_all add: ios_switchSession_def)
    then show ?thesis by (intro exI [of _ 0]) (simp add: fun_upd_idem)
  next
    case False
    then obtain th1 s1 th2 s2 where p: "switch_release (ths t) s = Some (th1, s1)" "switch_acquire mem sid th1 s1 = Some (th2, s2)"
      and r: "(if ts_ref th2 = None then Some (th2, s2, d) else do { (s3, d1) \<leftarrow> switch_enter fs sid th2 s2 d; Some (th2, s3, d1) }) = Some (th, s', d')"
      using assms(1) there by (auto simp: ios_switchSession_def bind_eq_Some_conv split: prod.splits)
    have "piece fs sh t mem (Switch sid) (ths, stg, s, d) = Some (ths(t := th1), stg(t := Released sid), s1, d)"
      using there False p(1) assms(2) by (simp add: piece_def begin_call_def)
    moreover have "piece fs sh t mem (Switch sid) (ths(t := th1), stg(t := Released sid), s1, d) =
        Some (ths(t := th2), stg(t := if ts_ref th2 = None then Between else Entering sid), s2, d)"
      using p(2) by (simp add: piece_def)
    moreover have "ts_ref th2 \<noteq> None \<Longrightarrow> piece fs sh t mem (Switch sid) (ths(t := th2), stg(t := Entering sid), s2, d) = Some (ths(t := th), stg, s', d')"
      using r idem by (auto simp: piece_def bind_eq_Some_conv split: prod.splits)
    ultimately show ?thesis using r idem
      by (cases "ts_ref th2 = None") (auto intro: exI [of _ "Suc (Suc 0)"] exI [of _ "Suc (Suc (Suc 0))"])
  qed
qed

section \<open>Properties\<close>

text \<open>
  C10: Start with no sessions and no thread in one, and let any number of threads switch to sessions, close them, resize them, kill their
  commands and ask for their directories. Between the calls of the session manager in one of these functions any other thread may run: a switch is the release of the
  old reference, the taking of a new one and the entry, and so on. At every moment the session of a thread is the one its reference holds, and it exists; the
  reference count of a session is the number of threads that are in it and of those that are looking something up in it; and no next piece of any thread
  reads a freed session, fails an assertion of the session manager or overflows the text of a window size. Sessions are allocated from
  memory that is not in use, and window sizes are at least -999; shells are not among the calls.
\<close>

theorem current_sessions_alive:
  assumes "sm_inv s" "entries s = []" "\<And>t. ths t = no_session \<and> stg t = Between"
    and "session_history fs sh (ths, stg, s, d) (ths', stg', s', d')"
  shows "(\<forall>t. ts_session (ths' t) = map_option fst (ts_ref (ths' t))) \<and>
    (\<forall>t a. ts_session (ths' t) = Some a \<longrightarrow> sm_store s' a \<noteq> None) \<and>
    (\<forall>r. session_refs s' r = card {t. ts_ref (ths' t) = Some r} + card {t. looks_at (stg' t) = Some r}) \<and>
    (\<forall>t mem c. admissible mem c (ths', stg', s', d') \<longrightarrow> piece fs sh t mem c (ths', stg', s', d') \<noteq> None)"
proof -
  have "cs_inv (ths, stg, s, d)"
    using assms(1-3) by (simp add: cs_inv_def no_session_def ios_session_get_params_def holders_def lookers_def session_refs_def)
  with assms(4) have inv: "cs_inv (ths', stg', s', d')" by (rule history_inv)
  have "sm_store s' a \<noteq> None" if a: "ts_session (ths' t) = Some a" for t a
  proof -
    obtain sp where "params_of s' a = Some sp" using current_params [OF inv a] by metis
    then show ?thesis by (simp add: params_of_def)
  qed
  moreover have "ts_session (ths' t) = map_option fst (ts_ref (ths' t))" for t
    using cs_invD(2) [OF inv, of t] by (cases "ts_ref (ths' t)") (auto simp: ios_session_get_params_def)
  moreover have "\<forall>r. session_refs s' r = card {t. ts_ref (ths' t) = Some r} + card {t. looks_at (stg' t) = Some r}"
    using cs_invD(6) [OF inv] by (simp add: holders_def lookers_def)
  moreover have "piece fs sh t mem c (ths', stg', s', d') \<noteq> None" if "admissible mem c (ths', stg', s', d')" for t mem c
    using piece_keeps [OF inv that, of fs sh t] by auto
  ultimately show ?thesis by blast
qed


text \<open>
  A negative width of four digits does not fit the array of five characters.
\<close>

lemma negative_width_overflows: "size_text (- 1000) = None"
  by code_simp

text \<open>
  When a shell ends, the thread is in the parent session again without a reference; a session without references is freed by whoever closes it.
\<close>

lemma shell_leaves_no_reference:
  assumes "sh_leave key sh p th s = Some (x, th', s')" "ts_ref th = Some r" "ts_session th = Some c" "params_of s c = Some sp" "sp_context sp = sh"
    and "sm_inv s"
  shows "ts_ref th' = None" "ts_session th' = p"
proof -
  have "th' = no_session\<lparr>ts_session := p\<rparr>"
    using assms by (auto simp: sh_leave_def ios_closeSession_def close_release_def sm_init_noop Let_def bind_eq_Some_conv split: prod.splits)
  then show "ts_ref th' = None" "ts_session th' = p" by (simp_all add: no_session_def)
qed

lemma uncounted_session_freed:
  assumes "sm_inv s" "session_table_lookup_locked sid s = Some p" "rc s p = 0"
  shows "\<exists>s'. ios_closeSession key sid no_session s = Some (no_session, s') \<and> sm_store s' p = None"
  using assms by (cases rule: delete_cases [OF assms(1), of sid key]) (auto simp: ios_closeSession_def close_release_def sm_init_noop Let_def no_session_def)

section \<open>A concrete history\<close>

theorem current_sessions_alive_witness:
  "\<exists>ths stg s d. session_history demo_fs 1 (\<lambda>_. no_session, \<lambda>_. Between, demo_table, False) (ths, stg, s, d) \<and>
    ts_session (ths 7) = Some 1 \<and> sm_store s 1 \<noteq> None"
proof -
  let ?w = "(\<lambda>_. no_session, \<lambda>_. Between, demo_table, False) :: bool session_world"
  let ?w1 = "(\<lambda>_. no_session, (\<lambda>_. Between)(7 := Released 5), demo_table, False) :: bool session_world"
  have adm: "admissible demo_session_mem (Switch 5) ?w" "admissible demo_session_mem (Switch 5) ?w1"
    using demo_table_facts by (simp_all add: admissible_def)
  have "piece demo_fs 1 7 demo_session_mem (Switch 5) ?w = Some ?w1"
    by (simp add: piece_def begin_call_def already_there_def switch_release_def ios_session_release_def no_session_def fun_upd_idem)
  then have h1: "session_history demo_fs 1 ?w ?w1" by (rule history_piece [OF history_start adm(1)])
  obtain s1 where "ios_session_get_or_create demo_session_mem (\<lambda>s. s) 5 demo_table = Some (Some (1, 5), s1)" by (rule demo_acquired)
  then have "piece demo_fs 1 7 demo_session_mem (Switch 5) ?w1 =
      Some ((\<lambda>_. no_session)(7 := \<lparr>ts_ref = Some (1, 5), ts_session = Some 1\<rparr>), (\<lambda>_. Between)(7 := Entering 5), s1, False)"
    using demo_table_facts(1) by (simp add: piece_def switch_acquire_def sm_init_noop ios_session_get_params_def)
  then have h: "session_history demo_fs 1 ?w
      ((\<lambda>_. no_session)(7 := \<lparr>ts_ref = Some (1, 5), ts_session = Some 1\<rparr>), (\<lambda>_. Between)(7 := Entering 5), s1, False)"
    by (rule history_piece [OF h1 adm(2)])
  have "sm_store s1 1 \<noteq> None"
  proof -
    have "(\<lambda>_ :: tid. no_session) t = no_session \<and> (\<lambda>_ :: tid. Between) t = Between" for t :: tid by simp
    from current_sessions_alive [OF demo_table_facts(1,2) this h, THEN conjunct2, THEN conjunct1, rule_format, of 7 1] show ?thesis by simp
  qed
  moreover have "ts_session (((\<lambda>_ :: tid. no_session)(7 := \<lparr>ts_ref = Some (1, 5), ts_session = Some 1\<rparr>)) 7) = Some 1" by simp
  ultimately show ?thesis using h by blast
qed

end
