(* ===== verification/Arguments.thy ===== *)
theory Arguments
  imports Shell_Quoting
begin

text \<open>
  The arguments of a command in \<^verbatim>\<open>ios_system.m\<close>: \<^verbatim>\<open>execv\<close> writes an argument vector as one command line
  (\<^verbatim>\<open>concatenateArgv\<close>), and \<^verbatim>\<open>ios_system\<close> cuts the command line into arguments again.

  A buffer is the list of characters before its terminating zero; pointers into it are offsets. A result \<open>None\<close> of \<open>unquoteArgument\<close>, and
  of the loop over the arguments, is a pointer beyond the end of the string. The expansion of variables and of file
  names, which follows for the arguments without quotes, is in the theory \<open>Expansion\<close>.
\<close>

definition recordSeparator :: char where "recordSeparator = CHR 0x1E"
definition space :: char where "space = CHR '' ''"

lemmas arg_chars = char_defs recordSeparator_def space_def

section \<open>Writing a command line\<close>

definition enclose :: "string \<Rightarrow> string" where
  "enclose arg =
     (if dquote \<notin> set arg then dquote # arg @ [dquote]
      else if squote \<notin> set arg then squote # arg @ [squote]
      else if recordSeparator \<notin> set arg then recordSeparator # arg @ [recordSeparator]
      else arg)"

fun append_arguments :: "string \<Rightarrow> string list \<Rightarrow> string" where
  "append_arguments cmd [] = cmd"
| "append_arguments cmd (arg # args) = append_arguments (cmd @ [space] @ enclose arg) args"

text \<open>The command line, with the size of the block allocated for it.\<close>

definition concatenateArgv :: "string list \<Rightarrow> (string \<times> nat) option" where
  "concatenateArgv argv =
     (case argv of
        [] \<Rightarrow> None
      | name # args \<Rightarrow> Some (append_arguments name args, sum_list (map (\<lambda>a. length a + 1) argv) + 3 * length argv + 1))"

section \<open>Finding the end of an argument\<close>

text \<open>The first position of a character, at or after \<open>i\<close>.\<close>

definition strchr_from :: "string \<Rightarrow> char \<Rightarrow> nat \<Rightarrow> nat option" where
  "strchr_from s c i = find (\<lambda>j. s ! j = c) [i..<length s]"

text \<open>The number of backslashes in a row that ends at \<open>j\<close>; the first character is not counted.\<close>

fun count_back :: "string \<Rightarrow> nat \<Rightarrow> nat" where
  "count_back s 0 = 0"
| "count_back s (Suc j) = (if s ! Suc j = backslash then 1 + count_back s j else 0)"

function unescaped_loop :: "string \<Rightarrow> char \<Rightarrow> nat \<Rightarrow> nat option" where
  "unescaped_loop s c i =
     (case strchr_from s c i of
        None \<Rightarrow> None
      | Some j \<Rightarrow>
          if j > 1 \<and> s ! (j - 1) = backslash then
            if even (count_back s (j - 1)) then Some j else unescaped_loop s c (j + 1)
          else Some j)"
  by pat_completeness auto

lemma strchr_from_bound: "strchr_from s c i = Some j \<Longrightarrow> i \<le> j \<and> j < length s \<and> s ! j = c"
  by (auto simp: strchr_from_def find_Some_iff)

termination unescaped_loop
  by (relation "measure (\<lambda>(s, c, i). length s - i)") (auto dest: strchr_from_bound)

lemmas [simp del] = unescaped_loop.simps

definition nextUnescapedCharacter :: "string \<Rightarrow> char \<Rightarrow> nat option" where
  "nextUnescapedCharacter s c =
     unescaped_loop s c (if length s > 1 \<and> s ! 0 = backslash \<and> s ! 1 = c then 2 else 0)"

lemma unescaped_loop_bound: "unescaped_loop s c i = Some j \<Longrightarrow> j < length s \<and> s ! j = c"
  by (induction s c i rule: unescaped_loop.induct)
    (subst (asm) unescaped_loop.simps, auto split: option.splits if_splits dest: strchr_from_bound)

lemma next_unescaped_bound: "nextUnescapedCharacter s c = Some j \<Longrightarrow> j < length s \<and> s ! j = c"
  by (auto simp: nextUnescapedCharacter_def dest: unescaped_loop_bound)

text \<open>
  The end of an argument: the buffer, which may have become shorter, and the position after the argument. The two kinds of quotes differ in
  where the search goes on after the three characters of an escaped quote are cut out. When nothing follows them, the search after an escaped
  double quote starts behind the end of the shortened string, at the backslash left there, and finds nothing, as it does here on the empty list.
\<close>

function getLastCharacterOfArgument :: "string \<Rightarrow> string \<times> nat option" where
  "getLastCharacterOfArgument s =
     (if s = [] then (s, None)
      else if s ! 0 = dquote \<or> s ! 0 = squote then
        let q = s ! 0 in
        (case nextUnescapedCharacter (drop 1 s) q of
           None \<Rightarrow> (s, None)
         | Some j \<Rightarrow>
             let endquote = j + 1 in
             if length s - endquote \<le> 1 then (s, Some (endquote + 1))
             else if s ! (endquote + 1) = space then (s, Some (endquote + 1))
             else if take 3 (drop endquote s) = [q, backslash, q] then
               let s' = take endquote s @ drop (endquote + 3) s;
                   from = (if q = dquote then endquote + 1 else endquote)
               in (case getLastCharacterOfArgument (drop from s') of
                     (t, r) \<Rightarrow> (take from s' @ t, map_option (\<lambda>k. from + k) r))
             else (s, map_option (\<lambda>k. endquote + 1 + k) (nextUnescapedCharacter (drop (endquote + 1) s) space)))
      else if s ! 0 = recordSeparator then
        (s, map_option (\<lambda>j. j + 1) (strchr_from s recordSeparator 1))
      else (s, map_option (\<lambda>j. 1 + j) (nextUnescapedCharacter (drop 1 s) space)))"
  by pat_completeness auto

termination getLastCharacterOfArgument
  by (relation "measure length") (auto dest!: next_unescaped_bound arg_cong [of _ _ length] simp: Let_def)

lemmas [simp del] = getLastCharacterOfArgument.simps

section \<open>Removing quotes\<close>

fun unescape :: "string \<Rightarrow> string" where
  "unescape [] = []"
| "unescape [c] = (if c = backslash then [] else [c])"
| "unescape (c # d # r) = (if c = backslash then d # unescape r else c # unescape (d # r))"

definition unquoteArgument :: "string \<Rightarrow> string option" where
  "unquoteArgument argument =
     (if argument \<noteq> [] \<and> hd argument \<in> {dquote, squote, recordSeparator} \<and> last argument = hd argument then
        if length argument = 1 then None else Some (butlast (tl argument))
      else Some (unescape argument))"

section \<open>Cutting a command line\<close>

text \<open>The change of \<^verbatim>\<open>alias name=value\<close> to \<^verbatim>\<open>alias name value\<close>.\<close>

definition alias_equal_sign :: "string \<Rightarrow> string" where
  "alias_equal_sign s =
     (case (strchr_from s (CHR ''='') 0, strchr_from s space 0) of
        (Some e, Some b) \<Rightarrow> if b > e then s[e := space] else s
      | _ \<Rightarrow> s)"

text \<open>
  The loop: \<open>argv\<close> has the arguments so far, each with the flag that keeps it from being expanded.
\<close>

function argument_loop :: "(string \<times> bool) list \<Rightarrow> string \<Rightarrow> (string \<times> bool) list option" where
  "argument_loop argv s0 =
     (if s0 = [] then Some argv
      else if length argv = 1 \<and> fst (hd argv) = ''export'' then Some (argv @ [(s0, False)])
      else
        let s1 = (if length argv = 1 \<and> fst (hd argv) = ''alias'' then alias_equal_sign s0 else s0);
            (s, end) = getLastCharacterOfArgument s1;
            quoted = (hd s \<in> {dquote, squote, recordSeparator})
        in (case end of
              None \<Rightarrow> map_option (\<lambda>a. argv @ [(a, quoted)]) (unquoteArgument s)
            | Some e \<Rightarrow>
                if e \<ge> length s then map_option (\<lambda>a. argv @ [(a, quoted)]) (unquoteArgument s)
                else (case unquoteArgument (take e s) of
                        None \<Rightarrow> None
                      | Some a \<Rightarrow> argument_loop (argv @ [(a, quoted)]) (dropWhile (\<lambda>c. c = space) (drop (e + 1) s)))))"
  by pat_completeness auto

text \<open>
  The shape of the result: the buffer is unchanged, or an escaped quote was cut out of it and the search went on.
\<close>

lemma getLast_induct:
  assumes keep: "\<And>s r. \<forall>e. r = Some e \<longrightarrow> s ! 0 = recordSeparator \<and> recordSeparator \<in> set s \<or> e \<ge> length s \<or> s ! e = space \<Longrightarrow> P s (s, r)"
    and splice: "\<And>s e q pos t r. q \<noteq> space \<Longrightarrow> take 3 (drop e s) = [q, backslash, q] \<Longrightarrow> pos \<in> {e, e + 1} \<Longrightarrow>
      P (drop pos (take e s @ drop (e + 3) s)) (t, r) \<Longrightarrow>
      P s (take pos (take e s @ drop (e + 3) s) @ t, map_option (\<lambda>k. pos + k) r)"
  shows "P s (getLastCharacterOfArgument s)"
proof (induction s rule: getLastCharacterOfArgument.induct)
  case (1 s)
  show ?case
  proof (cases "s \<noteq> [] \<and> (s ! 0 = dquote \<or> s ! 0 = squote)")
    case False
    have rs: "recordSeparator \<in> set s" if "s ! 0 = recordSeparator" "s \<noteq> []"
      using that nth_mem [of 0 s] by simp
    have "\<exists>r. getLastCharacterOfArgument s = (s, r) \<and>
        (\<forall>e. r = Some e \<longrightarrow> s ! 0 = recordSeparator \<and> recordSeparator \<in> set s \<or> e \<ge> length s \<or> s ! e = space)"
      using False rs by (subst getLastCharacterOfArgument.simps) (auto dest!: next_unescaped_bound)
    then show ?thesis by (auto intro: keep)
  next
    case quoted: True
    define q where "q = s ! 0"
    have q: "q \<noteq> space" "q = dquote \<or> q = squote" using quoted by (auto simp: q_def arg_chars)
    show ?thesis
    proof (cases "nextUnescapedCharacter (drop 1 s) q")
      case None
      then show ?thesis using quoted
        by (subst getLastCharacterOfArgument.simps) (auto simp: q_def Let_def intro: keep)
    next
      case (Some j)
      define e where "e = j + 1"
      define s' where "s' = take e s @ drop (e + 3) s"
      define pos where "pos = (if q = dquote then e + 1 else e)"
      show ?thesis
      proof (cases "\<not> length s - e \<le> 1 \<and> s ! (e + 1) \<noteq> space \<and> take 3 (drop e s) = [q, backslash, q]")
        case True
        obtain t r where sub: "getLastCharacterOfArgument (drop pos s') = (t, r)" by fastforce
        have "P (drop pos s') (t, r)"
          using 1 [OF _ _ refl _ refl _ _ _ refl refl, of j] sub True quoted Some
          by (auto simp: q_def e_def s'_def pos_def add.commute)
        then have "P s (take pos s' @ t, map_option (\<lambda>k. pos + k) r)"
          unfolding s'_def using True q by (intro splice) (auto simp: pos_def)
        moreover have "getLastCharacterOfArgument s = (take pos s' @ t, map_option (\<lambda>k. pos + k) r)"
          using True Some sub quoted
          by (subst getLastCharacterOfArgument.simps) (auto simp: Let_def q_def e_def s'_def pos_def add.commute)
        ultimately show ?thesis by simp
      next
        case False
        have "\<exists>r. getLastCharacterOfArgument s = (s, r) \<and> (\<forall>e. r = Some e \<longrightarrow> e \<ge> length s \<or> s ! e = space)"
          using False Some quoted
          by (subst getLastCharacterOfArgument.simps) (auto simp: Let_def q_def e_def dest!: next_unescaped_bound)
        then obtain r where r: "getLastCharacterOfArgument s = (s, r)" "\<forall>e. r = Some e \<longrightarrow> e \<ge> length s \<or> s ! e = space"
          by blast
        have "P s (s, r)" by (rule keep) (use r(2) in blast)
        then show ?thesis by (simp add: r(1))
      qed
    qed
  qed
qed

lemma cut_out_quote:
  assumes "take 3 (drop e s) = [q, backslash, q]"
  shows "s = take e s @ [q, backslash, q] @ drop (e + 3) s"
  using assms append_take_drop_id [of e s] append_take_drop_id [of 3 "drop e s"] by (simp add: add.commute)

lemma getLast_result:
  "getLastCharacterOfArgument s = (t, r) \<Longrightarrow>
     length t \<le> length s \<and> set t \<subseteq> set s \<and> count_list t space \<le> count_list s space \<and>
     (recordSeparator \<notin> set s \<longrightarrow> (\<forall>e. r = Some e \<longrightarrow> e \<ge> length t \<or> t ! e = space))"
proof -
  define P where "P = (\<lambda>s (t, r). length t \<le> length s \<and> set t \<subseteq> set s \<and> count_list t space \<le> count_list s space \<and>
     (recordSeparator \<notin> set s \<longrightarrow> (\<forall>e. r = Some e \<longrightarrow> e \<ge> length t \<or> t ! e = space)))"
  have "P s (getLastCharacterOfArgument s)"
  proof (rule getLast_induct)
    fix s :: string and e q pos t and r :: "nat option"
    define s' where "s' = take e s @ drop (e + 3) s"
    assume q: "q \<noteq> space" and esc: "take 3 (drop e s) = [q, backslash, q]" and pos: "pos \<in> {e, e + 1}"
      and P: "P (drop pos (take e s @ drop (e + 3) s)) (t, r)"
    note P = P [folded s'_def]
    have s: "length s' \<le> length s" "set s' \<subseteq> set s" "count_list s' space \<le> count_list s space"
      using arg_cong [OF cut_out_quote [OF esc], of length] arg_cong [OF cut_out_quote [OF esc], of "\<lambda>x. count_list x space"]
        set_take_subset [of e s] set_drop_subset [of "e + 3" s]
      by (auto simp: s'_def)
    have split: "count_list s' space = count_list (take pos s') space + count_list (drop pos s') space"
      by (metis append_take_drop_id count_list_append)
    have parts: "set (take pos s') \<subseteq> set s" "set (drop pos s') \<subseteq> set s"
      using s(2) set_take_subset [of pos s'] set_drop_subset [of pos s'] by blast+
    have len: "length t \<le> length s' - pos" and sub: "set t \<subseteq> set (drop pos s')"
      and spaces: "count_list t space \<le> count_list (drop pos s') space"
      and stop: "recordSeparator \<notin> set (drop pos s') \<Longrightarrow> r = Some k \<Longrightarrow> k \<ge> length t \<or> t ! k = space" for k
      using P by (auto simp: P_def)
    have "pos + k \<ge> length (take pos s' @ t) \<or> (take pos s' @ t) ! (pos + k) = space"
      if "recordSeparator \<notin> set s" "r = Some k" for k
    proof (cases "pos \<le> length s'")
      case True
      then show ?thesis using stop [of k] that parts by (auto simp: nth_append min_def)
    qed (use len in auto)
    then show "P s (take pos (take e s @ drop (e + 3) s) @ t, map_option (\<lambda>k. pos + k) r)"
      unfolding s'_def [symmetric] P_def
      using len s split spaces sub parts by auto
  qed (auto simp: P_def)
  then show "getLastCharacterOfArgument s = (t, r) \<Longrightarrow> ?thesis" by (simp add: P_def)
qed

lemma alias_equal_sign_length [simp]: "length (alias_equal_sign s) = length s"
  by (auto simp: alias_equal_sign_def split: option.splits)

lemma alias_equal_sign_Nil [simp]: "alias_equal_sign s = [] \<longleftrightarrow> s = []"
  by (metis alias_equal_sign_length length_0_conv)

lemma after_argument_shorter:
  assumes "getLastCharacterOfArgument s1 = (s, r)" "s1 \<noteq> []"
  shows "length (dropWhile (\<lambda>c. c = space) (drop (e + 1) s)) < length s1"
proof -
  have "length (dropWhile (\<lambda>c. c = space) (drop (e + 1) s)) \<le> length s - (e + 1)"
    using length_dropWhile_le [of _ "drop (e + 1) s"] by simp
  moreover have "length s \<le> length s1" using getLast_result assms by blast
  ultimately show ?thesis using assms(2) by (cases s1) auto
qed

termination argument_loop
proof (relation "measure (\<lambda>(argv, s). length s)", goal_cases)
  case (2 argv s0 s1 p s r quoted e a)
  have "s1 \<noteq> []" using 2(1,3) alias_equal_sign_length [of s0] by (auto split: if_splits)
  then show ?case using after_argument_shorter [of s1 s r e] 2 alias_equal_sign_length [of s0]
    by (auto split: if_splits)
qed simp

lemmas [simp del] = argument_loop.simps

definition cut_arguments :: "string \<Rightarrow> (string \<times> bool) list option" where
  "cut_arguments command = argument_loop [] command"


section \<open>A command line gives back the arguments it was written from\<close>

text \<open>The name of a command that is read back as it is, and the arguments that are.\<close>

definition plain_name :: "string \<Rightarrow> bool" where
  "plain_name n \<longleftrightarrow> n \<noteq> [] \<and> hd n \<notin> {dquote, squote, recordSeparator} \<and> space \<notin> set n \<and> backslash \<notin> set n \<and>
     n \<noteq> ''export'' \<and> n \<noteq> ''alias''"

definition enclosable :: "string \<Rightarrow> bool" where
  "enclosable arg \<longleftrightarrow>
     (if dquote \<in> set arg \<and> squote \<in> set arg then recordSeparator \<notin> set arg
      else arg = [] \<or> last arg \<noteq> backslash)"

abbreviation continues :: "string \<Rightarrow> bool" where
  "continues r \<equiv> r = [] \<or> (\<exists>r'. r = space # r')"

lemma strchr_from_eqI:
  "i \<le> j \<Longrightarrow> j < length s \<Longrightarrow> s ! j = c \<Longrightarrow> (\<And>k. i \<le> k \<Longrightarrow> k < j \<Longrightarrow> s ! k \<noteq> c) \<Longrightarrow> strchr_from s c i = Some j"
  unfolding strchr_from_def find_Some_iff by (rule exI [of _ "j - i"]) auto

lemma strchr_first: "c \<notin> set a \<Longrightarrow> i \<le> length a \<Longrightarrow> strchr_from (a @ c # r) c i = Some (length a)"
  by (rule strchr_from_eqI) (auto simp: nth_append)

lemma strchr_none: "c \<notin> set a \<Longrightarrow> strchr_from a c i = None"
  by (auto simp: strchr_from_def find_None_iff)

lemma next_unescaped_first:
  assumes "c \<notin> set a" "a = [] \<or> last a \<noteq> backslash" "c \<noteq> backslash"
  shows "nextUnescapedCharacter (a @ c # r) c = Some (length a)"
proof -
  have "\<not> (length (a @ c # r) > 1 \<and> (a @ c # r) ! 0 = backslash \<and> (a @ c # r) ! 1 = c)"
    using assms by (cases a; cases "tl a") auto
  moreover have "(a @ c # r) ! (length a - 1) \<noteq> backslash" if "length a > 1"
    using that assms(2) by (cases a rule: rev_cases) (auto simp: nth_append)
  ultimately show ?thesis
    unfolding nextUnescapedCharacter_def using assms(1)
    by (subst unescaped_loop.simps) (auto simp: strchr_first)
qed

lemma next_unescaped_none: "c \<notin> set a \<Longrightarrow> nextUnescapedCharacter a c = None"
  by (simp add: nextUnescapedCharacter_def unescaped_loop.simps strchr_none)

lemma enclose_cases:
  assumes "enclosable arg"
  obtains q where "q \<in> {dquote, squote, recordSeparator}" "enclose arg = q # arg @ [q]" "q \<notin> set arg"
    "q = recordSeparator \<or> arg = [] \<or> last arg \<noteq> backslash"
proof -
  consider "dquote \<notin> set arg" | "dquote \<in> set arg" "squote \<notin> set arg" | "dquote \<in> set arg" "squote \<in> set arg" by blast
  then show thesis
  proof cases
    case 1
    then show ?thesis using assms by (intro that [of dquote]) (auto simp: enclosable_def enclose_def)
  next
    case 2
    then show ?thesis using assms by (intro that [of squote]) (auto simp: enclosable_def enclose_def)
  next
    case 3
    then show ?thesis using assms by (intro that [of recordSeparator]) (auto simp: enclosable_def enclose_def)
  qed
qed

lemma getLast_enclosed:
  assumes "enclosable arg" "continues r"
  shows "getLastCharacterOfArgument (enclose arg @ r) = (enclose arg @ r, Some (length arg + 2))"
proof -
  obtain q where q: "q \<in> {dquote, squote, recordSeparator}" "enclose arg = q # arg @ [q]" "q \<notin> set arg"
    "q = recordSeparator \<or> arg = [] \<or> last arg \<noteq> backslash"
    using enclose_cases [OF assms(1)] by metis
  have ne: "q \<noteq> backslash" using q(1) by (auto simp: arg_chars)
  show ?thesis
  proof (cases "q = recordSeparator")
    case True
    have "strchr_from (q # arg @ q # r) q 1 = Some (length arg + 1)"
      using q(3) by (intro strchr_from_eqI) (auto simp: nth_append nth_Cons')
    then show ?thesis using True q(2)
      by (subst getLastCharacterOfArgument.simps) (auto simp: arg_chars)
  next
    case False
    then have "nextUnescapedCharacter (arg @ q # r) q = Some (length arg)"
      using q ne by (intro next_unescaped_first) auto
    then show ?thesis using False q assms(2)
      by (subst getLastCharacterOfArgument.simps) (auto simp: Let_def nth_append)
  qed
qed

lemma unquote_enclosed: "enclosable arg \<Longrightarrow> unquoteArgument (enclose arg) = Some arg"
  by (erule enclose_cases) (auto simp: unquoteArgument_def)

lemma hd_enclosed: "enclosable arg \<Longrightarrow> hd (enclose arg @ r) \<in> {dquote, squote, recordSeparator} \<and> enclose arg \<noteq> []"
  by (erule enclose_cases) auto

lemma length_enclosed: "enclosable arg \<Longrightarrow> length (enclose arg) = length arg + 2"
  by (erule enclose_cases) auto

lemma unescape_plain: "backslash \<notin> set s \<Longrightarrow> unescape s = s"
  by (induction s rule: unescape.induct) auto

lemma getLast_plain:
  assumes "plain_name n" "continues r"
  shows "getLastCharacterOfArgument (n @ r) = (n @ r, if r = [] then None else Some (length n))"
proof -
  obtain c m where n: "n = c # m" using assms(1) by (cases n) (auto simp: plain_name_def)
  have m: "space \<notin> set m" "m = [] \<or> last m \<noteq> backslash" "c \<notin> {dquote, squote, recordSeparator}"
    using assms(1) last_in_set [of m] unfolding n plain_name_def by (simp_all, metis)
  have "nextUnescapedCharacter (m @ r) space = (if r = [] then None else Some (length m))"
    using assms(2) m(1,2) next_unescaped_first [of space m] next_unescaped_none [of space m] by (auto simp: arg_chars)
  then show ?thesis using m n by (subst getLastCharacterOfArgument.simps) auto
qed

lemma unquote_plain: "plain_name n \<Longrightarrow> unquoteArgument n = Some n"
  by (auto simp: unquoteArgument_def plain_name_def unescape_plain)


lemma append_arguments_concat: "append_arguments cmd args = cmd @ concat (map (\<lambda>a. space # enclose a) args)"
  by (induction args arbitrary: cmd) auto

text \<open>One round of the loop, for an argument whose end is found.\<close>

lemma loop_step:
  assumes "s \<noteq> []" "\<not> (length argv = 1 \<and> fst (hd argv) \<in> {''export'', ''alias''})"
    and "getLastCharacterOfArgument s = (s, Some e)" "e < length s" "unquoteArgument (take e s) = Some a"
  shows "argument_loop argv s =
    argument_loop (argv @ [(a, hd s \<in> {dquote, squote, recordSeparator})]) (dropWhile (\<lambda>c. c = space) (drop (e + 1) s))"
  using assms by (subst argument_loop.simps) (auto simp: Let_def)

lemma loop_last:
  assumes "s \<noteq> []" "\<not> (length argv = 1 \<and> fst (hd argv) \<in> {''export'', ''alias''})"
    and "getLastCharacterOfArgument s = (s, r)" "r = None \<or> (\<exists>e. r = Some e \<and> e \<ge> length s)" "unquoteArgument s = Some a"
  shows "argument_loop argv s = Some (argv @ [(a, hd s \<in> {dquote, squote, recordSeparator})])"
  using assms by (subst argument_loop.simps) (auto simp: Let_def)

lemma dropWhile_enclosed: "enclosable a \<Longrightarrow> dropWhile (\<lambda>c. c = space) (enclose a @ r) = enclose a @ r"
  by (erule enclose_cases) (auto simp: arg_chars)

lemma loop_reads_enclosed:
  assumes "argv \<noteq> []" "fst (hd argv) \<notin> {''export'', ''alias''}" "enclosable a" "\<forall>b\<in>set args. enclosable b"
  shows "argument_loop argv (enclose a @ concat (map (\<lambda>a. space # enclose a) args)) =
    Some (argv @ map (\<lambda>a. (a, True)) (a # args))"
  using assms
proof (induction args arbitrary: argv a)
  case Nil
  show ?case using Nil getLast_enclosed [of a "[]"] hd_enclosed [of a "[]"] length_enclosed [of a] unquote_enclosed [of a]
    by (subst loop_last [of _ _ "Some (length a + 2)" a]) auto
next
  case (Cons b args)
  define r where "r = concat (map (\<lambda>a. space # enclose a) args)"
  have a: "length (enclose a) = length a + 2" "unquoteArgument (enclose a) = Some a"
    "hd (enclose a) \<in> {dquote, squote, recordSeparator}" "enclose a \<noteq> []"
    using Cons.prems(3) hd_enclosed [of a "[]"] by (simp_all add: length_enclosed unquote_enclosed)
  have "argument_loop argv (enclose a @ space # enclose b @ r) =
      argument_loop (argv @ [(a, True)]) (dropWhile (\<lambda>c. c = space) (enclose b @ r))"
    using loop_step [of "enclose a @ space # enclose b @ r" argv "length a + 2" a] a Cons.prems
      getLast_enclosed [of a "space # enclose b @ r"] by auto
  also have "\<dots> = argument_loop (argv @ [(a, True)]) (enclose b @ r)"
    using Cons.prems(4) by (simp add: dropWhile_enclosed)
  also have "\<dots> = Some ((argv @ [(a, True)]) @ map (\<lambda>a. (a, True)) (b # args))"
    unfolding r_def using Cons.prems by (intro Cons.IH) auto
  finally show ?case by (simp add: r_def)
qed

lemma command_line_length:
  "\<forall>b\<in>set args. enclosable b \<Longrightarrow>
     length (append_arguments name args) + 1 \<le> sum_list (map (\<lambda>a. length a + 1) (name # args)) + 3 * length (name # args) + 1"
  unfolding append_arguments_concat by (induction args) (auto simp: length_enclosed)

text \<open>
  C12: An argument vector survives the way through a command line: \<^verbatim>\<open>concatenateArgv\<close>, which \<^verbatim>\<open>execv\<close> uses, writes a command line that fits
  into the block allocated for it, and cutting it into arguments gives the vector back, every argument but the name marked as
  not to be expanded. The name has to be plain (no blank, backslash or leading quote, and not \<^verbatim>\<open>export\<close> or
  \<^verbatim>\<open>alias\<close>); an argument has to lack one of the three enclosing characters, and must not end with a
  backslash when it is written between quotes.
\<close>

theorem arguments_round_trip:
  assumes "plain_name name" "\<forall>a\<in>set args. enclosable a"
  shows "\<exists>line n. concatenateArgv (name # args) = Some (line, n) \<and> length line < n \<and>
    cut_arguments line = Some ((name, False) # map (\<lambda>a. (a, True)) args)"
proof -
  define line where "line = append_arguments name args"
  define n where "n = sum_list (map (\<lambda>a. length a + 1) (name # args)) + 3 * length (name # args) + 1"
  have name: "name \<noteq> []" "hd name \<notin> {dquote, squote, recordSeparator}" "name \<noteq> ''export''" "name \<noteq> ''alias''"
    using assms(1) by (simp_all add: plain_name_def)
  have "cut_arguments line = Some ((name, False) # map (\<lambda>a. (a, True)) args)"
  proof (cases args)
    case Nil
    then show ?thesis using name getLast_plain [OF assms(1), of "[]"] unquote_plain [OF assms(1)]
      by (simp add: line_def cut_arguments_def loop_last [of name "[]" None name])
  next
    case (Cons b rest)
    define r where "r = enclose b @ concat (map (\<lambda>a. space # enclose a) rest)"
    have line: "line = name @ space # r" by (simp add: line_def append_arguments_concat Cons r_def)
    have hd: "hd line = hd name" "line \<noteq> []" using name(1) by (simp_all add: line)
    have "argument_loop [] line = argument_loop [(name, False)] (dropWhile (\<lambda>c. c = space) r)"
      using loop_step [of line "[]" "length name" name] hd name getLast_plain [OF assms(1), of "space # r"]
        unquote_plain [OF assms(1)] by (simp add: line)
    also have "dropWhile (\<lambda>c. c = space) r = r"
      unfolding r_def using assms(2) Cons by (simp add: dropWhile_enclosed)
    also have "argument_loop [(name, False)] r = Some ([(name, False)] @ map (\<lambda>a. (a, True)) args)"
      unfolding r_def Cons using name assms(2) Cons by (intro loop_reads_enclosed) auto
    finally show ?thesis by (simp add: cut_arguments_def)
  qed
  moreover have "length line < n"
    using command_line_length [OF assms(2), of name] by (simp add: line_def n_def)
  moreover have "concatenateArgv (name # args) = Some (line, n)"
    by (simp add: concatenateArgv_def line_def n_def)
  ultimately show ?thesis by blast
qed

theorem arguments_round_trip_witness:
  "\<exists>line n. concatenateArgv [''echo'', ''a b'', [dquote]] = Some (line, n) \<and> length line < n \<and>
    cut_arguments line = Some [(''echo'', False), (''a b'', True), ([dquote], True)]"
  using arguments_round_trip [of "''echo''" "[''a b'', [dquote]]"]
  by (simp add: plain_name_def enclosable_def arg_chars)


section \<open>The array of arguments is large enough\<close>

lemma loop_Some_cases:
  assumes "argument_loop acc s = Some argv"
  obtains "s = []" "argv = acc"
  | x where "s \<noteq> []" "argv = acc @ [x]"
  | x t e where "s \<noteq> []"
      "getLastCharacterOfArgument (if length acc = 1 \<and> fst (hd acc) = ''alias'' then alias_equal_sign s else s) = (t, Some e)"
      "e < length t" "argument_loop (acc @ [x]) (dropWhile (\<lambda>c. c = space) (drop (e + 1) t)) = Some argv"
  using assms by (subst (asm) argument_loop.simps) (auto simp: Let_def split: if_splits prod.splits option.splits)

lemma loop_extends: "argument_loop acc s = Some argv \<Longrightarrow> \<exists>t. argv = acc @ t"
proof (induction "length s" arbitrary: acc s rule: less_induct)
  case less
  show ?case
  proof (rule loop_Some_cases [OF less.prems])
    fix x t e
    assume ne: "s \<noteq> []" and last: "getLastCharacterOfArgument (if length acc = 1 \<and> fst (hd acc) = ''alias'' then alias_equal_sign s else s) = (t, Some e)"
      and go: "argument_loop (acc @ [x]) (dropWhile (\<lambda>c. c = space) (drop (e + 1) t)) = Some argv"
    have "length (dropWhile (\<lambda>c. c = space) (drop (e + 1) t)) < length s"
      using after_argument_shorter [OF last, of e] ne by (cases "length acc = 1 \<and> fst (hd acc) = ''alias''") auto
    from less.hyps [OF this go] show ?thesis by auto
  qed auto
qed

lemma space_after:
  assumes "e < length t" "t ! e = space"
  shows "count_list (dropWhile (\<lambda>c. c = space) (drop (e + 1) t)) space + 1 \<le> count_list t space"
proof -
  have "count_list (dropWhile P l) x \<le> count_list l x" for P and l :: string and x
    by (induction l) auto
  from this [of "\<lambda>c. c = space" "drop (e + 1) t" space]
  have "count_list (dropWhile (\<lambda>c. c = space) (drop (e + 1) t)) space \<le> count_list (drop (e + 1) t) space" .
  moreover have "count_list t space = count_list (take e t @ t ! e # drop (e + 1) t) space"
    by (subst id_take_nth_drop [OF assms(1)]) simp
  ultimately show ?thesis using assms(2) by (simp add: count_list_append)
qed

lemma loop_count:
  assumes "argument_loop acc s = Some argv" "recordSeparator \<notin> set s" "argv = [] \<or> fst (hd argv) \<noteq> ''alias''"
  shows "length argv \<le> length acc + (if s = [] then 0 else count_list s space + 1)"
  using assms
proof (induction "length s" arbitrary: acc s rule: less_induct)
  case less
  show ?case
  proof (rule loop_Some_cases [OF less.prems(1)])
    fix x t e
    define rest where "rest = dropWhile (\<lambda>c. c = space) (drop (e + 1) t)"
    assume ne: "s \<noteq> []" and last: "getLastCharacterOfArgument (if length acc = 1 \<and> fst (hd acc) = ''alias'' then alias_equal_sign s else s) = (t, Some e)"
      and e: "e < length t" and go: "argument_loop (acc @ [x]) (dropWhile (\<lambda>c. c = space) (drop (e + 1) t)) = Some argv"
    have "\<not> (length acc = 1 \<and> fst (hd acc) = ''alias'')"
      using loop_extends [OF less.prems(1)] less.prems(3) by (cases acc) auto
    then have last: "getLastCharacterOfArgument s = (t, Some e)" using last by (simp split: if_splits)
    note t = getLast_result [OF last]
    have "set rest \<subseteq> set t" using set_dropWhileD set_drop_subset by (fastforce simp: rest_def)
    moreover have "length rest < length s" using after_argument_shorter [OF last ne] by (simp add: rest_def)
    ultimately have "length argv \<le> length (acc @ [x]) + (if rest = [] then 0 else count_list rest space + 1)"
      using less.prems t by (intro less.hyps go [folded rest_def]) auto
    moreover have "count_list rest space + 1 \<le> count_list t space"
      unfolding rest_def using t less.prems(2) e by (intro space_after) auto
    ultimately show ?thesis using t ne by (auto split: if_splits)
  qed auto
qed

text \<open>
  C34: The loop of \<^verbatim>\<open>ios_system\<close> finds at most one argument more than the command line has blanks, so that the array
  of that size and two, which also holds the terminating null pointer, is large enough, unless the command is
  \<^verbatim>\<open>alias\<close> or the line has a record separator.
\<close>

theorem argument_array_large_enough:
  assumes "cut_arguments command = Some argv" "recordSeparator \<notin> set command" "argv = [] \<or> fst (hd argv) \<noteq> ''alias''"
  shows "length argv < count_list command space + 2"
  using loop_count [of "[]" command argv] assms by (auto simp: cut_arguments_def split: if_splits)


theorem argument_array_large_enough_witness:
  "\<exists>argv. cut_arguments ''ls  -l a'' = Some argv \<and> length argv < count_list ''ls  -l a'' space + 2"
proof -
  have "cut_arguments ''ls  -l a'' = Some [(''ls'', False), (''-l'', False), (''a'', False)]" by code_simp
  moreover have "recordSeparator \<notin> set ''ls  -l a''" by (simp add: arg_chars)
  ultimately show ?thesis
    using argument_array_large_enough [of "''ls  -l a''" "[(''ls'', False), (''-l'', False), (''a'', False)]"] by auto
qed

section \<open>Boundary behaviour\<close>

text \<open>
  An equal sign that \<^verbatim>\<open>alias\<close> turns into a blank is an argument more than the array was allocated for: its
  null pointer is written one place past the end.
\<close>

lemma alias_overflows_array:
  "cut_arguments ''alias a=b c'' = Some [(''alias'', False), (''a'', False), (''b'', False), (''c'', False)]"
  "count_list ''alias a=b c'' space + 2 = 4"
  by code_simp+

text \<open>
  An argument that ends with a backslash, and is written between quotes, escapes the closing quote and swallows the arguments
  after it.
\<close>

lemma trailing_backslash_joins_arguments:
  "map_option (\<lambda>(line, n). cut_arguments line) (concatenateArgv [''cp'', ''ab'' @ [backslash], ''c'']) =
     Some (Some [(''cp'', False), (''ab'' @ [backslash, dquote, space, dquote] @ ''c'', True)])"
  by code_simp

text \<open>An argument that is one quote becomes a pointer past the end of the command line.\<close>

lemma lone_quote_leaves_buffer: "cut_arguments (''echo '' @ [dquote]) = None"
  by code_simp

text \<open>
  After an escaped single quote the search goes on inside the quotes, after an escaped double quote outside of them: the
  same argument stays whole between single quotes and is cut at its blank between double quotes.
\<close>

lemma escaped_quotes_differ:
  "cut_arguments (''p '' @ squote # ''a'' @ [squote, backslash, squote, squote] @ ''b c'' @ [squote]) =
     Some [(''p'', False), (''a'' @ squote # ''b c'', True)]"
  "cut_arguments (''p '' @ dquote # ''a'' @ [dquote, backslash, dquote, dquote] @ ''b c'' @ [dquote]) =
     Some [(''p'', False), (dquote # ''a'' @ dquote # ''b'', True), (''c'' @ [dquote], False)]"
  by code_simp+

end
