(* ===== verification/Expansion.thy ===== *)
theory Expansion
  imports Current_Session Arguments
begin

text \<open>
  The expansion of variables, home directories and wildcards in the arguments of a command, in \<^verbatim>\<open>ios_system.m\<close>:
  \<^verbatim>\<open>ios_getenv\<close>, \<^verbatim>\<open>parseArgument\<close>, \<^verbatim>\<open>ios_expandFilename\<close> and the loop of \<^verbatim>\<open>ios_system\<close> that replaces an argument by the
  files it matches.

  Strings are lists of characters, of one byte each. The environment, the home directory, the bookmarks and \<^verbatim>\<open>glob\<close> are arguments of the functions;
  the environment does not change while an argument is expanded. A loop that does not end is \<open>None\<close>, and so is
  an argument that \<open>unquoteArgument\<close> fails on.
\<close>

section \<open>Variables of the session\<close>

text \<open>The random number is below \<open>2\<^sup>1\<^sup>5\<close>; its text is stored in an array of six characters, and \<open>None\<close> is a text that does not fit.\<close>

definition random_text :: "nat \<Rightarrow> string option" where
  "random_text r = (let t = decimal (int (r mod 2 ^ 15)) in if length t < 6 then Some t else None)"

definition ios_getenv :: "session_params \<Rightarrow> nat \<Rightarrow> (string \<Rightarrow> string option) \<Rightarrow> string \<Rightarrow> string option" where
  "ios_getenv session random libc name =
     (if name = ''COLUMNS'' then Some (sp_columns session)
      else if name = ''LINES'' then Some (sp_lines session)
      else if name = ''ROWS'' then Some (sp_lines session)
      else if name = ''PWD'' then Some (sp_currentDir session)
      else if name = ''RANDOM'' then random_text random
      else libc name)"

section \<open>Foundation strings\<close>

fun contains :: "string \<Rightarrow> string \<Rightarrow> bool" where
  "contains [] pat \<longleftrightarrow> pat = []"
| "contains (c # r) pat \<longleftrightarrow> hasPrefix (c # r) pat \<or> contains r pat"

text \<open>All occurrences of a text replaced, from the left, without overlap.\<close>

function replace_all :: "string \<Rightarrow> string \<Rightarrow> string \<Rightarrow> string" where
  "replace_all pat rep [] = []"
| "replace_all pat rep (c # r) =
     (if pat \<noteq> [] \<and> hasPrefix (c # r) pat then rep @ replace_all pat rep (drop (length pat) (c # r))
      else c # replace_all pat rep r)"
  by pat_completeness auto

termination replace_all
  by (relation "measure (\<lambda>(pat, rep, s). length s)") auto

function components_sep :: "string \<Rightarrow> string \<Rightarrow> string list" where
  "components_sep pat [] = [[]]"
| "components_sep pat (c # r) =
     (if pat \<noteq> [] \<and> hasPrefix (c # r) pat then [] # components_sep pat (drop (length pat) (c # r))
      else (case components_sep pat r of [] \<Rightarrow> [[c]] | w # ws \<Rightarrow> (c # w) # ws))"
  by pat_completeness auto

termination components_sep
  by (relation "measure (\<lambda>(pat, s). length s)") auto

section \<open>Variables\<close>

definition dollar :: char where "dollar = CHR ''$''"

text \<open>The name of the first variable of a text: what follows the first dollar sign, up to a separator.\<close>

definition first_variable :: "string \<Rightarrow> string \<Rightarrow> string" where
  "first_variable separators s = takeWhile (\<lambda>c. c \<notin> set separators) (tl (dropWhile (\<lambda>c. c \<noteq> dollar) s))"

text \<open>
  The loop of both functions. \<open>guarded\<close> is the test of \<^verbatim>\<open>parseArgument\<close> that the value does not contain the variable itself.
\<close>

partial_function (option) expand_variables :: "(string \<Rightarrow> string option) \<Rightarrow> string \<Rightarrow> bool \<Rightarrow> string \<Rightarrow> string option" where
  "expand_variables env separators guarded s =
     (if dollar \<notin> set s then Some s
      else
        let variable = first_variable separators s in
        (case env variable of
           None \<Rightarrow> Some s
         | Some v \<Rightarrow>
             let s' = replace_all (dollar # variable) v s in
             if guarded \<and> contains v (dollar # variable) then Some s'
             else expand_variables env separators guarded s'))"

section \<open>Home directories and bookmarks\<close>

text \<open>\<open>home\<close> is the mini-root, or the value of \<^verbatim>\<open>HOME\<close>; \<open>colon\<close> tells whether a colon ends the tilde.\<close>

definition expand_tilde :: "bool \<Rightarrow> string \<Rightarrow> (string \<rightharpoonup> string) option \<Rightarrow> string \<Rightarrow> string" where
  "expand_tilde colon home bookmarks s =
     (if \<not> hasPrefix s ''~'' then s
      else if hasPrefix s ''~/'' \<or> colon \<and> hasPrefix s ''~:'' \<or> length s = 1 then home @ tl s
      else
        (case bookmarks of
           None \<Rightarrow> s
         | Some dict \<Rightarrow>
             let component = takeWhile (\<lambda>c. c \<notin> set '':/'') s in
             (case dict (tl component) of None \<Rightarrow> s | Some path \<Rightarrow> path @ drop (length component) s)))"

definition colon_home :: "string \<Rightarrow> string \<Rightarrow> string" where
  "colon_home home s =
     (if home = [] then s
      else
        let rep = CHR '':'' # home; m = length s - 2 in
        if contains s '':~/'' then replace_all '':~/'' (rep @ ''/'') s
        else if hasSuffix s '':~'' then take m s @ rep
        else if hasSuffix s '':'' then take m s @ replace_all '':'' rep (drop m s)
        else s)"

definition colon_bookmark :: "(string \<rightharpoonup> string) \<Rightarrow> string \<Rightarrow> string" where
  "colon_bookmark dict component =
     (let name = takeWhile (\<lambda>c. c \<noteq> CHR ''/'') component in
      case dict name of
        Some path \<Rightarrow> CHR '':'' # replace_all name path component
      | None \<Rightarrow> '':~'' @ component)"

definition colon_bookmarks :: "(string \<rightharpoonup> string) option \<Rightarrow> string \<Rightarrow> string" where
  "colon_bookmarks bookmarks s =
     (case bookmarks of
        None \<Rightarrow> s
      | Some dict \<Rightarrow>
          (case components_sep '':~'' s of [] \<Rightarrow> [] | c # cs \<Rightarrow> c @ concat (map (colon_bookmark dict) cs)))"

section \<open>Arguments and file names\<close>

definition parent_path :: "string \<Rightarrow> bool" where
  "parent_path s \<longleftrightarrow> hasPrefix s ''../'' \<or> hasPrefix s ''./..'' \<or> s = ''..''"

definition parseArgument ::
  "(string \<Rightarrow> string option) \<Rightarrow> string \<Rightarrow> (string \<rightharpoonup> string) option \<Rightarrow> string \<Rightarrow> string \<Rightarrow> string \<Rightarrow> string option" where
  "parseArgument env home bookmarks currentDir command argument =
     (let export = (command = ''export'');
          eq = strchr_from argument (CHR ''='') 0 in
      if export \<and> eq = None then Some argument
      else
        do { value \<leftarrow> (if export then unquoteArgument (drop (the eq + 1) argument) else Some argument);
             s1 \<leftarrow> expand_variables env ''/:'' True value;
             let s2 = expand_tilde True home bookmarks s1;
             let s3 = (if (command = ''setenv'' \<or> export) \<and> contains s2 '':~''
                       then colon_bookmarks bookmarks (colon_home home s2) else s2);
             let s4 = (if parent_path s3 then pathJoin (Some currentDir) (Some s3) else s3);
             Some (if export then take (the eq) argument @ ''='' @ s4 else s4) })"

definition ios_expandFilename ::
  "(string \<Rightarrow> string option) \<Rightarrow> string \<Rightarrow> (string \<rightharpoonup> string) option \<Rightarrow> string \<Rightarrow> string option" where
  "ios_expandFilename env home bookmarks filename =
     (if filename = [] then Some filename
      else expand_variables env ''/'' False (expand_tilde False home bookmarks filename))"

section \<open>Wildcards\<close>

text \<open>
  The arguments are an array with a null pointer after the last; growing it leaves the new places undefined, here \<open>None\<close>. The loop that makes
  room for the matches goes down from the end.
\<close>

fun move_up :: "nat \<Rightarrow> nat \<Rightarrow> nat \<Rightarrow> 'a list \<Rightarrow> 'a list" where
  "move_up i n 0 xs = xs"
| "move_up i n (Suc j) xs =
     (if Suc j + 1 > i + n then move_up i n j (xs[Suc j := xs ! (Suc j + 1 - n)]) else xs)"

fun store_from :: "nat \<Rightarrow> 'a list \<Rightarrow> 'a list \<Rightarrow> 'a list" where
  "store_from i [] xs = xs"
| "store_from i (m # ms) xs = store_from (Suc i) ms (xs[i := m])"

definition has_wildcard :: "string \<Rightarrow> bool" where
  "has_wildcard a \<longleftrightarrow> strstrquoted (Some a) (Some ''*'') \<noteq> None \<or> strstrquoted (Some a) (Some ''?'') \<noteq> None \<or>
     strstrquoted (Some a) (Some ''['') \<noteq> None"

text \<open>\<open>glob a\<close> is the list of matches, \<open>None\<close> when there are none or the search fails.\<close>

function wildcard_loop ::
  "(string \<Rightarrow> string list option) \<Rightarrow> nat \<Rightarrow> nat \<Rightarrow> string option list \<Rightarrow> bool list \<Rightarrow> nat \<times> string option list" where
  "wildcard_loop glob i argc argv dontExpand =
     (if argc \<le> i then (argc, argv)
      else if dontExpand ! i \<or> \<not> has_wildcard (the (argv ! i)) then wildcard_loop glob (i + 1) argc argv dontExpand
      else
        (case glob (the (argv ! i)) of
           None \<Rightarrow> wildcard_loop glob (i + 1) argc argv dontExpand
         | Some ms \<Rightarrow>
             let n = length ms; argc' = argc + n - 1 in
             wildcard_loop glob (i + n - 1 + 1) argc'
               (store_from i (map Some ms) (move_up i n argc' (take (argc' + 1) (argv @ replicate n None))))
               (move_up i n argc' (take (argc' + 1) (dontExpand @ replicate n False)))))"
  by pat_completeness auto


termination wildcard_loop
  by (relation "measure (\<lambda>(glob, i, argc, argv, d). argc - i)") (auto simp: Let_def)

lemmas [simp del] = wildcard_loop.simps

section \<open>Termination of the expansion\<close>

lemma hasPrefix_Cons [simp]: "hasPrefix (c # r) (d # p) \<longleftrightarrow> c = d \<and> hasPrefix r p"
  by (auto simp: hasPrefix_def)

lemma hasPrefix_Nil [simp]: "hasPrefix r []"
  by (simp add: hasPrefix_def)

lemma hasPrefix_append [simp]: "hasPrefix (p @ r) p"
  by (simp add: hasPrefix_def)

lemma replace_skip: "dollar \<notin> set l \<Longrightarrow> replace_all (dollar # n) v (l @ r) = l @ replace_all (dollar # n) v r"
  by (induction l) auto

lemma replace_here: "replace_all (dollar # n) v (dollar # n @ r) = v @ replace_all (dollar # n) v r"
  by simp

lemma replace_count: "dollar \<notin> set v \<Longrightarrow> count_list (replace_all (dollar # n) v s) dollar \<le> count_list s dollar"
proof (induction "dollar # n" v s rule: replace_all.induct)
  case (2 rep c r)
  show ?case
  proof (cases "hasPrefix (c # r) (dollar # n)")
    case True
    have "count_list (drop (length n) r) dollar \<le> count_list r dollar"
      using append_take_drop_id [of "length n" r] count_list_append by (metis le_add2)
    moreover have "count_list rep dollar = 0" using 2(3) by (simp add: count_list_0_iff)
    ultimately show ?thesis using 2 True by simp
  qed (use 2 in auto)
qed simp

lemma first_dollar:
  assumes "dollar \<in> set s"
  obtains l r where "s = l @ dollar # r" "dollar \<notin> set l" "first_variable seps s = takeWhile (\<lambda>c. c \<notin> set seps) r"
proof -
  obtain l r where s: "s = l @ dollar # r" "dollar \<notin> set l" using split_list_first [OF assms] by blast
  then have "dropWhile (\<lambda>c. c \<noteq> dollar) s = dollar # r" by (auto simp: dropWhile_append3)
  with s that show thesis by (simp add: first_variable_def)
qed

lemma replace_first_count:
  assumes "dollar \<in> set s" "dollar \<notin> set v"
  shows "count_list (replace_all (dollar # first_variable seps s) v s) dollar < count_list s dollar"
proof -
  obtain l r where s: "s = l @ dollar # r" "dollar \<notin> set l" "first_variable seps s = takeWhile (\<lambda>c. c \<notin> set seps) r"
    by (rule first_dollar [OF assms(1)])
  let ?n = "first_variable seps s" let ?r = "dropWhile (\<lambda>c. c \<notin> set seps) r"
  have r: "r = ?n @ ?r" by (simp add: s(3))
  have "replace_all (dollar # ?n) v s = l @ v @ replace_all (dollar # ?n) v ?r"
    by (subst s(1), subst r) (simp add: replace_skip [OF s(2)])
  moreover have "count_list (replace_all (dollar # ?n) v ?r) dollar \<le> count_list ?r dollar" by (rule replace_count [OF assms(2)])
  moreover have "count_list s dollar = count_list l dollar + Suc (count_list ?n dollar + count_list ?r dollar)"
    by (subst s(1), subst r) simp
  moreover have "count_list v dollar = 0" using assms(2) by (simp add: count_list_0_iff)
  ultimately show ?thesis by simp
qed

lemma expand_variables_total:
  assumes "\<forall>n v. env n = Some v \<longrightarrow> dollar \<notin> set v"
  shows "\<exists>t. expand_variables env seps guarded s = Some t \<and> (dollar \<in> set t \<longrightarrow> env (first_variable seps t) = None)"
proof (induction "count_list s dollar" arbitrary: s rule: less_induct)
  case less
  show ?case
  proof (cases "dollar \<in> set s")
    case False
    then show ?thesis by (subst expand_variables.simps) simp
  next
    case True
    show ?thesis
    proof (cases "env (first_variable seps s)")
      case None
      with True show ?thesis by (subst expand_variables.simps) simp
    next
      case (Some v)
      have v: "dollar \<notin> set v" using assms Some by blast
      have "\<not> contains v (dollar # first_variable seps s)" using v
      proof (induction v)
        case (Cons c r)
        then show ?case by auto
      qed simp
      with True Some less [OF replace_first_count [OF True v]] show ?thesis by (subst expand_variables.simps) (simp add: Let_def)
    qed
  qed
qed


section \<open>A text with variables\<close>

text \<open>
  Literals, each followed by a variable, and a last literal; \<open>f\<close> says what stands for a variable. A literal that follows a variable
  begins with a separator.
\<close>

fun render :: "(string \<Rightarrow> string) \<Rightarrow> (string \<times> string) list \<Rightarrow> string \<Rightarrow> string" where
  "render f [] end_text = end_text"
| "render f ((l, n) # ps) end_text = l @ f n @ render f ps end_text"

definition starts_with :: "string \<Rightarrow> string \<Rightarrow> bool" where
  "starts_with seps l \<longleftrightarrow> l \<noteq> [] \<and> hd l \<in> set seps"

fun wf_text :: "string \<Rightarrow> (string \<times> string) list \<Rightarrow> string \<Rightarrow> bool" where
  "wf_text seps [] end_text \<longleftrightarrow> dollar \<notin> set end_text"
| "wf_text seps ((l, n) # ps) end_text \<longleftrightarrow>
     dollar \<notin> set l \<and> dollar \<notin> set n \<and> (\<forall>c \<in> set n. c \<notin> set seps) \<and>
     (if ps = [] then end_text = [] \<or> starts_with seps end_text else starts_with seps (fst (hd ps))) \<and>
     wf_text seps ps end_text"

text \<open>No name of the text is the beginning of another one.\<close>

definition prefix_free :: "string list \<Rightarrow> bool" where
  "prefix_free ns \<longleftrightarrow> (\<forall>m \<in> set ns. \<forall>n \<in> set ns. prefix m n \<longrightarrow> m = n)"

definition shown :: "(string \<Rightarrow> string option) \<Rightarrow> string set \<Rightarrow> string \<Rightarrow> string" where
  "shown env D n = (if n \<in> D then the (env n) else dollar # n)"

lemma shown_simps:
  "n \<in> D \<Longrightarrow> shown env D n = the (env n)" "n \<notin> D \<Longrightarrow> shown env D n = dollar # n"
  by (simp_all add: shown_def)

lemma rest_starts:
  "wf_text seps ((l, n) # ps) e \<Longrightarrow> render f ps e = [] \<or> hd (render f ps e) \<in> set seps"
  by (cases ps) (auto simp: starts_with_def)

lemma not_a_prefix:
  assumes "\<forall>c \<in> set n. c \<notin> set seps" "r = [] \<or> hd r \<in> set seps" "\<not> prefix n m"
  shows "\<not> prefix n (m @ r)"
proof
  assume "prefix n (m @ r)"
  then obtain k where "n = m @ k" "prefix k r" "k \<noteq> []" using assms(3) by (auto simp: prefix_append)
  then show False using assms(1,2) by (cases k; cases r) auto
qed

lemma replace_in_text:
  assumes "wf_text seps ps e" "n \<in> N" "snd ` set ps \<subseteq> N" "\<forall>c \<in> set n. c \<notin> set seps" "\<forall>m \<in> N. \<forall>n \<in> N. prefix m n \<longrightarrow> m = n"
    and v: "\<And>m. m \<in> D \<Longrightarrow> dollar \<notin> set (the (env m))" and n: "n \<notin> D"
  shows "replace_all (dollar # n) (the (env n)) (render (shown env D) ps e) = render (shown env (insert n D)) ps e"
  using assms(1,3)
proof (induction ps)
  case Nil
  then show ?case using replace_skip [of e n "the (env n)" "[]"] by simp
next
  case (Cons p ps)
  obtain l m where p: "p = (l, m)" by (cases p)
  note IH = Cons.IH
  have wf: "dollar \<notin> set l" "dollar \<notin> set m" "wf_text seps ps e" "m \<in> N" "snd ` set ps \<subseteq> N" using Cons.prems p by auto
  let ?r = "render (shown env D) ps e"
  have r: "?r = [] \<or> hd ?r \<in> set seps" using rest_starts Cons.prems(1) p by blast
  consider "m \<in> D" | "m = n" | "m \<notin> D" "m \<noteq> n" by blast
  then show ?case
  proof cases
    case 1
    then show ?thesis using p wf IH v [of m] by (auto simp: shown_simps replace_skip)
  next
    case 2
    then show ?thesis using p wf IH n by (simp add: shown_simps replace_skip replace_here del: replace_all.simps)
  next
    case 3
    then have "\<not> prefix n m" using assms(2,5) wf(4) by blast
    then have "\<not> hasPrefix (m @ ?r) n" using not_a_prefix [OF assms(4) r] by (simp add: hasPrefix_def)
    then show ?thesis using p wf IH 3 by (simp add: shown_simps replace_skip)
  qed
qed

lemma first_of_text:
  assumes "wf_text seps ps e" "\<And>m. m \<in> D \<Longrightarrow> dollar \<notin> set (the (env m))"
  shows "dollar \<notin> set (render (shown env D) ps e) \<and> snd ` set ps \<subseteq> D \<or>
    dollar \<in> set (render (shown env D) ps e) \<and> first_variable seps (render (shown env D) ps e) \<in> snd ` set ps - D"
  using assms(1)
proof (induction ps)
  case Nil
  then show ?case by simp
next
  case (Cons p ps)
  obtain l m where p: "p = (l, m)" by (cases p)
  let ?r = "render (shown env D) ps e"
  have wf: "dollar \<notin> set l" "wf_text seps ps e" "\<forall>c \<in> set m. c \<notin> set seps" using Cons.prems p by auto
  have r: "?r = [] \<or> hd ?r \<in> set seps" using rest_starts Cons.prems(1) p by blast
  show ?case
  proof (cases "m \<in> D")
    case True
    then have "\<forall>c \<in> set (l @ the (env m)). c \<noteq> dollar" using wf(1) assms(2) by auto
    then have "first_variable seps ((l @ the (env m)) @ ?r) = first_variable seps ?r"
      unfolding first_variable_def by (subst dropWhile_append2) auto
    then show ?thesis using Cons.IH [OF wf(2)] True wf(1) assms(2) [OF True] by (auto simp: p shown_simps)
  next
    case False
    have "dropWhile (\<lambda>c. c \<noteq> dollar) (l @ dollar # m @ ?r) = dollar # m @ ?r" using wf(1) by (subst dropWhile_append3) auto
    moreover have "takeWhile (\<lambda>c. c \<notin> set seps) (m @ ?r) = m"
      using wf(3) r by (subst takeWhile_append2) (auto, cases ?r, auto)
    ultimately show ?thesis using False p by (simp add: first_variable_def shown_simps)
  qed
qed


lemma contains_lacks: "c \<notin> set s \<Longrightarrow> \<not> contains s (c # p)"
  by (induction s) auto

lemma wf_names: "wf_text seps ps e \<Longrightarrow> n \<in> snd ` set ps \<Longrightarrow> \<forall>c \<in> set n. c \<notin> set seps"
  by (induction seps ps e rule: wf_text.induct) (auto split: if_splits)

lemma expand_text:
  assumes wf: "wf_text seps ps e" and pf: "prefix_free (map snd ps)"
    and vals: "\<And>n. n \<in> snd ` set ps \<Longrightarrow> \<exists>v. env n = Some v \<and> dollar \<notin> set v" and D: "D \<subseteq> snd ` set ps"
  shows "expand_variables env seps guarded (render (shown env D) ps e) = Some (render (shown env (snd ` set ps)) ps e)"
  using D
proof (induction "card (snd ` set ps - D)" arbitrary: D rule: less_induct)
  case less
  let ?N = "snd ` set ps" let ?s = "render (shown env D) ps e"
  have d: "\<And>m. m \<in> D \<Longrightarrow> dollar \<notin> set (the (env m))" using vals less.prems by force
  show ?case
  proof (cases "dollar \<in> set ?s")
    case False
    then have "D = ?N" using first_of_text [OF wf, of D env] d less.prems by auto
    then show ?thesis using False by (subst expand_variables.simps) simp
  next
    case True
    define n where "n = first_variable seps ?s"
    have n: "n \<in> ?N" "n \<notin> D" using first_of_text [OF wf, of D env] d True by (auto simp: n_def)
    then obtain v where v: "env n = Some v" "dollar \<notin> set v" using vals by blast
    have seps: "\<forall>c \<in> set n. c \<notin> set seps" by (rule wf_names [OF wf n(1)])
    have "replace_all (dollar # n) (the (env n)) ?s = render (shown env (insert n D)) ps e"
      using pf d n(2) by (intro replace_in_text [OF wf n(1) subset_refl seps]) (auto simp: prefix_free_def)
    moreover have "card (?N - insert n D) < card (?N - D)" using n by (intro psubset_card_mono) auto
    ultimately show ?thesis using less.hyps [of "insert n D"] less.prems n True v contains_lacks [OF v(2)]
      by (subst expand_variables.simps) (simp add: Let_def n_def [symmetric])
  qed
qed

lemma expand_missing: "env (first_variable seps s) = None \<Longrightarrow> expand_variables env seps guarded s = Some s"
  by (subst expand_variables.simps) simp

section \<open>Wildcards in place\<close>

text \<open>Moving the rest of the arguments up makes room for the matches.\<close>

lemma length_move_up [simp]: "length (move_up i n j xs) = length xs"
  by (induction j arbitrary: xs) auto

lemma move_up_nth:
  "j < length xs \<Longrightarrow> 0 < n \<Longrightarrow>
   move_up i n j xs ! k = (if i + n \<le> k \<and> k \<le> j then xs ! (k + 1 - n) else xs ! k)"
proof (induction j arbitrary: xs)
  case 0
  then show ?case by auto
next
  case (Suc j)
  show ?case
  proof (cases "Suc j + 1 > i + n")
    case True
    let ?ys = "xs[Suc j := xs ! (Suc j + 1 - n)]"
    have "move_up i n (Suc j) xs ! k = move_up i n j ?ys ! k" using True by simp
    also have "\<dots> = (if i + n \<le> k \<and> k \<le> j then ?ys ! (k + 1 - n) else ?ys ! k)" using Suc by simp
    also have "\<dots> = (if i + n \<le> k \<and> k \<le> Suc j then xs ! (k + 1 - n) else xs ! k)"
      using True Suc.prems by (auto simp: nth_list_update le_Suc_eq)
    finally show ?thesis .
  next
    case False
    then show ?thesis by auto
  qed
qed

lemma store_from_eq: "i + length ms \<le> length xs \<Longrightarrow> store_from i ms xs = take i xs @ ms @ drop (i + length ms) xs"
proof (induction ms arbitrary: i xs)
  case (Cons m ms)
  then have "store_from i (m # ms) xs = take (Suc i) (xs[i := m]) @ ms @ drop (Suc i + length ms) (xs[i := m])" by simp
  also have "take (Suc i) (xs[i := m]) = take i xs @ [m]" using Cons.prems by (simp add: take_Suc_conv_app_nth)
  finally show ?case using Cons.prems by simp
qed simp

lemma moved_rest:
  assumes "i < argc" "argc < length xs" "0 < n"
  shows "take i (move_up i n (argc + n - 1) (take (argc + n) (xs @ replicate n x))) = take i xs"
    "drop (i + n) (move_up i n (argc + n - 1) (take (argc + n) (xs @ replicate n x))) = take (argc - i) (drop (i + 1) xs)"
proof -
  let ?xs = "take (argc + n) (xs @ replicate n x)"
  have len: "length ?xs = argc + n" using assms by auto
  have at: "?xs ! k = xs ! k" if "k \<le> argc" for k
  proof -
    have "k < argc + n" "k < length xs" using assms that by linarith+
    then show ?thesis by (simp add: nth_append)
  qed
  have up: "move_up i n (argc + n - 1) ?xs ! k = (if i + n \<le> k \<and> k \<le> argc + n - 1 then ?xs ! (k + 1 - n) else ?xs ! k)" for k
    using len assms by (intro move_up_nth) auto
  let ?ys = "move_up i n (argc + n - 1) ?xs"
  have leny: "length ?ys = argc + n" using len by (simp only: length_move_up)
  show "take i ?ys = take i xs"
  proof (rule nth_equalityI)
    fix k assume "k < length (take i ?ys)"
    then have "k < i" by simp
    then show "take i ?ys ! k = take i xs ! k" using at [of k] up [of k] assms(1) by (simp only: nth_take)  simp
  qed (use leny assms in simp)
  show "drop (i + n) ?ys = take (argc - i) (drop (i + 1) xs)"
  proof (rule nth_equalityI)
    fix k assume "k < length (drop (i + n) ?ys)"
    then have k: "k < argc - i" using leny by simp
    then have "drop (i + n) ?ys ! k = ?ys ! (i + n + k)" using leny assms(1) by (intro nth_drop) simp
    also have "\<dots> = ?xs ! (i + n + k + 1 - n)" unfolding up using k assms(1) by auto
    also have "\<dots> = xs ! (i + k + 1)" using at [of "i + k + 1"] k by (simp add: add.commute add.left_commute)
    finally show "drop (i + n) ?ys ! k = take (argc - i) (drop (i + 1) xs) ! k" using k assms(2) by simp
  qed (use leny assms in simp)
qed

text \<open>The step on the arrays: the matches take the place of the argument.\<close>

lemma matches_in_place:
  assumes "i < argc" "length argv = argc + 1" "ms \<noteq> []"
  shows "store_from i ms (move_up i (length ms) (argc + length ms - 1) (take (argc + length ms) (argv @ replicate (length ms) x)))
    = take i argv @ ms @ drop (i + 1) argv"
  using moved_rest [of i argc argv "length ms" x] assms by (subst store_from_eq) auto

definition expand_arg :: "(string \<Rightarrow> string list option) \<Rightarrow> string \<Rightarrow> bool \<Rightarrow> string list" where
  "expand_arg glob a d = (if d \<or> \<not> has_wildcard a then [a] else case glob a of None \<Rightarrow> [a] | Some ms \<Rightarrow> ms)"

lemma wildcard_loop_eq:
  assumes "\<And>a ms. glob a = Some ms \<Longrightarrow> ms \<noteq> []"
  shows "length ds = length todo \<Longrightarrow> length before < length ds0 \<Longrightarrow> drop (length before) ds0 = ds @ rest \<Longrightarrow> rest \<noteq> [] \<Longrightarrow>
    wildcard_loop glob (length before) (length before + length todo) (map Some (before @ todo) @ [None]) ds0 =
      (let r = before @ concat (map2 (expand_arg glob) todo ds) in (length r, map Some r @ [None]))"
proof (induction todo arbitrary: before ds ds0 rest)
  case Nil
  then show ?case by (subst wildcard_loop.simps) simp
next
  case (Cons a todo)
  obtain d es where ds: "ds = d # es" "length es = length todo" using Cons.prems(1) by (cases ds) auto
  let ?i = "length before" let ?argc = "?i + length (a # todo)" let ?argv = "map Some (before @ a # todo) @ [None]"
  have at: "?argv ! ?i = Some a" "ds0 ! ?i = d" "?i < ?argc"
    using nth_via_drop [of ?i ds0 d "es @ rest"] Cons.prems(3) ds(1) by (simp_all add: nth_append)
  have tl: "drop (Suc ?i) ds0 = es @ rest" using Cons.prems(3) ds(1) by (metis append_Cons drop_Suc_Cons drop_drop drop0 plus_1_eq_Suc)
  have more: "Suc ?i < length ds0" using tl Cons.prems(4) by (metis append_is_Nil_conv drop_eq_Nil not_less)
  show ?case
  proof (cases "d \<or> \<not> has_wildcard a \<or> glob a = None")
    case True
    have "wildcard_loop glob ?i ?argc ?argv ds0 = wildcard_loop glob (?i + 1) ?argc ?argv ds0"
      using True at by (subst wildcard_loop.simps) (auto simp del: map_append)
    also have "\<dots> = (let r = (before @ [a]) @ concat (map2 (expand_arg glob) todo es) in (length r, map Some r @ [None]))"
      using Cons.IH [of es "before @ [a]" ds0] ds(2) more tl Cons.prems(4) by simp
    finally show ?thesis using True ds by (auto simp: expand_arg_def)
  next
    case False
    then obtain ms where ms: "glob a = Some ms" "\<not> d" "has_wildcard a" by auto
    then have ne: "ms \<noteq> []" using assms by blast
    let ?n = "length ms" let ?ds = "move_up ?i ?n (?argc + ?n - 1) (take (?argc + ?n) (ds0 @ replicate ?n False))"
    have "store_from ?i (map Some ms) (move_up ?i ?n (?argc + ?n - 1) (take (?argc + ?n) (?argv @ replicate ?n None)))
      = take ?i ?argv @ map Some ms @ drop (?i + 1) ?argv"
      using matches_in_place [of ?i ?argc ?argv "map Some ms" None] ne by simp
    then have "wildcard_loop glob ?i ?argc ?argv ds0 =
      wildcard_loop glob (length (before @ ms)) (length (before @ ms) + length todo) (map Some ((before @ ms) @ todo) @ [None]) ?ds"
      using False at ms ne by (subst wildcard_loop.simps) (simp add: Let_def ac_simps)
    also have "\<dots> = (let r = (before @ ms) @ concat (map2 (expand_arg glob) todo es) in (length r, map Some r @ [None]))"
    proof (rule Cons.IH [where rest = "take 1 rest"])
      have "length ds0 - Suc ?i = length (es @ rest)" using arg_cong [OF tl, of length] by (simp only: length_drop)
      then have "length ds0 = ?i + length (es @ rest) + 1" using more by linarith
      then have "?argc < length ds0" using ds(2) Cons.prems(4) by (cases rest) auto
      note m = moved_rest [OF at(3) this, of ?n False]
      show "drop (length (before @ ms)) ?ds = es @ take 1 rest" using m(2) ne tl ds(2) by simp
      show "length (before @ ms) < length ?ds" using \<open>?argc < length ds0\<close> by simp
      show "length es = length todo" "take 1 rest \<noteq> []" using ds(2) Cons.prems(4) by auto
    qed
    finally show ?thesis using ms ds by (simp add: expand_arg_def)
  qed
qed


section \<open>Properties\<close>



text \<open>
  C16: Every variable of a text is replaced by its value, all else stays: for a text of literals and variables where a variable ends at a separator or
  at the end of the text, all variables are defined with values without dollar signs, and no name is the beginning of another one.
\<close>

theorem variables_replaced_by_values:
  assumes "wf_text seps ps e" "prefix_free (map snd ps)" "\<forall>n \<in> snd ` set ps. \<exists>v. env n = Some v \<and> dollar \<notin> set v"
  shows "expand_variables env seps guarded (render (\<lambda>n. dollar # n) ps e) = Some (render (\<lambda>n. the (env n)) ps e)"
proof -
  have "shown env {} = (\<lambda>n. dollar # n)" by (auto simp: shown_def)
  moreover have "(\<forall>p \<in> set qs. f (snd p) = g (snd p)) \<Longrightarrow> render f qs e = render g qs e" for f g qs by (induction qs) auto
  then have "render (shown env (snd ` set ps)) ps e = render (\<lambda>n. the (env n)) ps e" by (simp add: shown_def)
  ultimately show ?thesis using expand_text [OF assms(1,2), of env "{}" guarded] assms(3) by simp
qed

theorem variables_replaced_by_values_witness:
  "expand_variables [''HOME'' \<mapsto> ''/h'', ''X'' \<mapsto> ''v''] ''/:'' True ''a$HOME/b:$X'' = Some ''a/h/b:v''"
proof -
  let ?env = "[''HOME'' \<mapsto> ''/h'', ''X'' \<mapsto> ''v'']" let ?ps = "[(''a'', ''HOME''), (''/b:'', ''X'')]"
  have "wf_text ''/:'' ?ps []" by (simp add: dollar_def starts_with_def)
  moreover have "prefix_free (map snd ?ps)" by (simp add: prefix_free_def)
  moreover have "\<forall>n \<in> snd ` set ?ps. \<exists>v. ?env n = Some v \<and> dollar \<notin> set v" by (simp add: dollar_def)
  ultimately have "expand_variables ?env ''/:'' True (render (\<lambda>n. dollar # n) ?ps []) = Some (render (\<lambda>n. the (?env n)) ?ps [])"
    by (rule variables_replaced_by_values)
  then show ?thesis by (simp add: dollar_def)
qed

text \<open>
  C17: The loop that replaces arguments with wildcards by the files they match, moving the other arguments up in their array, does what the definition
  argument by argument does: quoted arguments, arguments without wildcards and arguments without a match stay, the others become their matches, in
  order, and the array ends with the null pointer.
\<close>

theorem wildcards_replaced_in_place:
  assumes "\<forall>a ms. glob a = Some ms \<longrightarrow> ms \<noteq> []" "length ds = length args" "rest \<noteq> []"
  shows "wildcard_loop glob 1 (1 + length args) (map Some (name # args) @ [None]) (d # ds @ rest) =
    (let r = name # concat (map2 (expand_arg glob) args ds) in (length r, map Some r @ [None]))"
  using wildcard_loop_eq [of glob ds args "[name]" "d # ds @ rest" rest] assms by simp

theorem wildcards_replaced_in_place_witness:
  "wildcard_loop (\<lambda>a. if a = ''*.c'' then Some [''a.c'', ''b.c''] else None) 1 3 [Some ''cc'', Some ''*.c'', Some ''-g'', None] [False, False, False, False]
    = (4, [Some ''cc'', Some ''a.c'', Some ''b.c'', Some ''-g'', None])"
proof -
  let ?glob = "\<lambda>a. if a = ''*.c'' then Some [''a.c'', ''b.c''] else None"
  have "\<forall>a ms. ?glob a = Some ms \<longrightarrow> ms \<noteq> []" by auto
  from wildcards_replaced_in_place [OF this, of "[False, False]" "[''*.c'', ''-g'']" "[False]" "''cc''" False] show ?thesis
    by (simp add: expand_arg_def has_wildcard_def strstrquoted_def char_defs eval_nat_numeral)
qed

text \<open>A random number fits its array.\<close>

lemma random_text_fits: "random_text r = Some (decimal (int (r mod 2 ^ 15)))"
proof -
  have "r mod 2 ^ 15 < 10 ^ 5" using mod_less_divisor [of "2 ^ 15" r] by simp
  from length_digits [OF this] show ?thesis by (simp add: random_text_def decimal_def)
qed

section \<open>Where the expansion differs from a shell\<close>

text \<open>
  Two variables that refer to each other, and in a file name a variable that refers to itself, are expanded forever.
\<close>

lemma expand_variables_step:
  assumes "dollar \<in> set s" "env (first_variable seps s) = Some v" "\<not> contains v (dollar # first_variable seps s)"
  shows "expand_variables env seps guarded s = expand_variables env seps guarded (replace_all (dollar # first_variable seps s) v s)"
  using assms by (subst expand_variables.simps) (simp add: Let_def)

definition stuck_in :: "string set \<Rightarrow> (string \<Rightarrow> string option) \<Rightarrow> string \<Rightarrow> bool \<Rightarrow> bool" where
  "stuck_in S env seps guarded \<longleftrightarrow> (\<forall>s \<in> S. dollar \<in> set s \<and> (\<exists>v. env (first_variable seps s) = Some v \<and>
     \<not> (guarded \<and> contains v (dollar # first_variable seps s)) \<and> replace_all (dollar # first_variable seps s) v s \<in> S))"

lemma expand_variables_loops:
  assumes "stuck_in S env seps guarded" "s \<in> S"
  shows "expand_variables env seps guarded s = None"
proof (rule ccontr)
  assume "expand_variables env seps guarded s \<noteq> None"
  then obtain t where t: "expand_variables env seps guarded s = Some t" by blast
  have "stuck_in S env seps guarded \<longrightarrow> s \<notin> S"
  proof (rule expand_variables.raw_induct [where P = "\<lambda>env seps guarded s t. stuck_in S env seps guarded \<longrightarrow> s \<notin> S", OF _ t], intro impI notI)
    fix rec env seps guarded s t
    assume IH: "\<And>env seps guarded s t. rec env seps guarded s = Some t \<Longrightarrow> stuck_in S env seps guarded \<longrightarrow> s \<notin> S"
      and body: "(if dollar \<notin> set s then Some s
        else let variable = first_variable seps s in
          case env variable of None \<Rightarrow> Some s
          | Some v \<Rightarrow> let s' = replace_all (dollar # variable) v s in
              if guarded \<and> contains v (dollar # variable) then Some s' else rec env seps guarded s') = Some t"
      and stuck: "stuck_in S env seps guarded" "s \<in> S"
    from stuck obtain v where v: "dollar \<in> set s" "env (first_variable seps s) = Some v" "\<not> (guarded \<and> contains v (dollar # first_variable seps s))"
      "replace_all (dollar # first_variable seps s) v s \<in> S" by (auto simp: stuck_in_def)
    with body have "rec env seps guarded (replace_all (dollar # first_variable seps s) v s) = Some t" by (simp add: Let_def split: if_splits)
    with IH stuck(1) v(4) show False by blast
  qed
  with assms show False by simp
qed

lemma mutual_variables_loop:
  "parseArgument [''A'' \<mapsto> ''$B'', ''B'' \<mapsto> ''$A''] home bookmarks dir ''echo'' ''$A'' = None"
  "ios_expandFilename [''X'' \<mapsto> ''$X''] home bookmarks ''$X'' = None"
proof -
  have "expand_variables [''A'' \<mapsto> ''$B'', ''B'' \<mapsto> ''$A''] ''/:'' True ''$A'' = None"
    by (rule expand_variables_loops [of "{''$A'', ''$B''}"]) (auto simp: stuck_in_def dollar_def first_variable_def)
  then show "parseArgument [''A'' \<mapsto> ''$B'', ''B'' \<mapsto> ''$A''] home bookmarks dir ''echo'' ''$A'' = None"
    by (simp add: parseArgument_def Let_def)
  have "expand_variables [''X'' \<mapsto> ''$X''] ''/'' False ''$X'' = None"
    by (rule expand_variables_loops [of "{''$X''}"]) (auto simp: stuck_in_def dollar_def first_variable_def)
  then show "ios_expandFilename [''X'' \<mapsto> ''$X''] home bookmarks ''$X'' = None"
    by (simp add: ios_expandFilename_def expand_tilde_def)
qed

text \<open>
  A variable is also replaced inside a longer name that begins with it, and two variables side by side are read as one name.
\<close>

lemma longer_name_cut:
  "expand_variables [''A'' \<mapsto> ''1'', ''AB'' \<mapsto> ''2''] ''/:'' True ''$A:$AB'' = Some ''1:1B''"
  "expand_variables [''A'' \<mapsto> ''1'', ''B'' \<mapsto> ''2''] ''/:'' True ''$A$B'' = Some ''$A$B''"
proof -
  have "expand_variables [''A'' \<mapsto> ''1'', ''AB'' \<mapsto> ''2''] ''/:'' True ''$A:$AB'' =
    expand_variables [''A'' \<mapsto> ''1'', ''AB'' \<mapsto> ''2''] ''/:'' True ''1:1B''"
    by (subst expand_variables_step [where v = "''1''"]) (simp_all add: dollar_def first_variable_def)
  then show "expand_variables [''A'' \<mapsto> ''1'', ''AB'' \<mapsto> ''2''] ''/:'' True ''$A:$AB'' = Some ''1:1B''"
    by (subst (asm) (2) expand_variables.simps) (simp add: dollar_def)
  show "expand_variables [''A'' \<mapsto> ''1'', ''B'' \<mapsto> ''2''] ''/:'' True ''$A$B'' = Some ''$A$B''"
    by (rule expand_missing) (simp add: dollar_def first_variable_def)
qed

end
