(* ===== verification/Redirections.thy ===== *)
theory Redirections
  imports Expansion
begin

text \<open>
  Input, output and error redirections of a command in \<^verbatim>\<open>ios_system\<close>: finding \<^verbatim>\<open><\<close>, \<^verbatim>\<open>>\<close>, \<^verbatim>\<open>>>\<close>, \<^verbatim>\<open>2>\<close>,
  \<^verbatim>\<open>2>&1\<close> and \<^verbatim>\<open>&>\<close> in the text of the command, cutting out the names of the files, and opening them.

  The text is a buffer that is changed in place; pointers into it are offsets, and a string ends at a zero character or at the end of the list. A
  result \<open>None\<close> is a pointer beyond the end of the text (a file name that is one quote), or an expansion of a file name that does not end.
\<close>

section \<open>Strings in a buffer\<close>

definition nul :: char where "nul = CHR 0x00"

definition cstr :: "string \<Rightarrow> nat \<Rightarrow> string" where
  "cstr buf p = takeWhile (\<lambda>c. c \<noteq> nul) (drop p buf)"

text \<open>A string, not longer than the one at the offset, written with its zero character; the bytes behind it keep their values.\<close>

definition put_str :: "nat \<Rightarrow> string \<Rightarrow> string \<Rightarrow> string" where
  "put_str p t buf = take p buf @ t @ (if p + length t < length buf then nul # drop (p + length t + 1) buf else [])"

definition find_from :: "string \<Rightarrow> nat \<Rightarrow> string \<Rightarrow> nat option" where
  "find_from buf p pat = map_option (\<lambda>k. p + k) (strstrquoted (Some (drop p buf)) (Some pat))"

definition skip_blanks :: "string \<Rightarrow> nat \<Rightarrow> nat" where
  "skip_blanks buf p = p + length (takeWhile (\<lambda>c. c = space) (drop p buf))"

definition next_is :: "string \<Rightarrow> nat \<Rightarrow> char \<Rightarrow> bool" where
  "next_is buf m c \<longleftrightarrow> m + 1 < length buf \<and> buf ! (m + 1) = c"

section \<open>Finding the marks\<close>

text \<open>
  The mark and the name of each of the three files, as offsets; whether output is appended, and whether errors go where the output goes, by \<^verbatim>\<open>2>&1\<close> (\<open>mf_dup\<close>) or by \<^verbatim>\<open>&>\<close>.
\<close>

record marks_found =
  mf_input :: "nat option"
  mf_input_name :: "nat option"
  mf_output :: "nat option"
  mf_output_name :: "nat option"
  mf_error :: "nat option"
  mf_error_name :: "nat option"
  mf_append :: bool
  mf_shared :: bool
  mf_dup :: bool

text \<open>A version constraint \<^verbatim>\<open>name<=1\<close> or \<^verbatim>\<open>name>=1\<close> after a double dash is not a redirection.\<close>

definition unless_version :: "string \<Rightarrow> nat \<Rightarrow> nat option" where
  "unless_version buf m =
     (case find_from buf 0 '' -- '' of None \<Rightarrow> Some (m + 1) | Some d \<Rightarrow> if d > m then Some (m + 1) else None)"

definition find_input :: "string \<Rightarrow> nat option \<times> nat option" where
  "find_input buf =
     (case find_from buf 0 ''<'' of
        None \<Rightarrow> (None, None)
      | Some m \<Rightarrow>
          (Some m, map_option (skip_blanks buf) (if next_is buf m (CHR ''='') then unless_version buf m else Some (m + 1))))"

text \<open>The output file: its mark, its name, and whether the output is appended.\<close>

definition find_output :: "string \<Rightarrow> nat option \<times> nat option \<times> bool" where
  "find_output buf =
     (case find_from buf 0 ''>'' of
        None \<Rightarrow> (None, None, False)
      | Some m \<Rightarrow>
          if next_is buf m (CHR ''>'') then (Some m, Some (m + 2), True)
          else if next_is buf m (CHR ''='') then (Some m, unless_version buf m, False)
          else (Some m, Some (m + 1), False))"

text \<open>The output file behind the name of the error file, when the first \<^verbatim>\<open>>\<close> was the one of \<^verbatim>\<open>2>\<close>.\<close>

definition find_output_after :: "string \<Rightarrow> nat \<Rightarrow> bool \<Rightarrow> nat option \<times> nat option \<times> bool" where
  "find_output_after buf e app =
     (case find_from buf e ''>'' of
        None \<Rightarrow> (None, None, app)
      | Some m \<Rightarrow>
          if next_is buf m (CHR ''>'') then (Some m, Some (skip_blanks buf (m + 2)), True)
          else (Some m, Some (skip_blanks buf (m + 1)), app))"

definition find_redirections :: "string \<Rightarrow> marks_found" where
  "find_redirections buf =
     (let (i, i_name) = find_input buf;
          none = \<lparr>mf_input = i, mf_input_name = i_name, mf_output = None, mf_output_name = None, mf_error = None, mf_error_name = None,
                  mf_append = False, mf_shared = False, mf_dup = False\<rparr> in
      case find_from buf 0 ''&>'' of
        Some e \<Rightarrow> none\<lparr>mf_output := Some e, mf_output_name := Some (skip_blanks buf (e + 2)), mf_error := Some e, mf_shared := True\<rparr>
      | None \<Rightarrow>
          (case find_from buf 0 ''2>&1'' of
             Some e \<Rightarrow>
               let m1 = find_from buf 0 ''>'';
                   m = (if m1 = Some (e + 1) then find_from buf (e + 1 + 2) ''>'' else m1) in
               none\<lparr>mf_output := m, mf_output_name := map_option (\<lambda>m. skip_blanks buf (m + 1)) m, mf_error := Some e, mf_shared := True, mf_dup := True\<rparr>
           | None \<Rightarrow>
               let e = find_from buf 0 ''2>'';
                   e_name = map_option (\<lambda>e. skip_blanks buf (e + 2)) e;
                   (o1, o1_name, app1) = find_output buf;
                   o2_name = map_option (skip_blanks buf) o1_name;
                   (m, m_name, app) =
                     (if e_name \<noteq> None \<and> o2_name = e_name then find_output_after buf (the e_name) app1 else (o1, o2_name, app1)) in
               none\<lparr>mf_output := m, mf_output_name := m_name, mf_error := e, mf_error_name := e_name, mf_append := app\<rparr>))"

section \<open>Cutting the text\<close>

text \<open>A zero character at the end of a file name, at a mark; quotes taken off a name, whose start moves behind the opening quote.\<close>

definition end_name :: "nat option \<Rightarrow> string \<Rightarrow> string" where
  "end_name p buf =
     (case p of
        None \<Rightarrow> buf
      | Some p \<Rightarrow>
          (case getLastCharacterOfArgument (cstr buf p) of
             (t, None) \<Rightarrow> put_str p t buf
           | (t, Some k) \<Rightarrow> (put_str p t buf)[p + k := nul]))"

definition end_at :: "nat option \<Rightarrow> string \<Rightarrow> string" where
  "end_at p buf = (case p of None \<Rightarrow> buf | Some p \<Rightarrow> buf[p := nul])"

definition quoted_name :: "string \<Rightarrow> bool" where
  "quoted_name s \<longleftrightarrow> s \<noteq> [] \<and> hd s \<in> {dquote, squote, recordSeparator} \<and> last s = hd s"

definition unquote_name :: "nat option \<Rightarrow> string \<Rightarrow> (nat option \<times> string) option" where
  "unquote_name p buf =
     (case p of
        None \<Rightarrow> Some (None, buf)
      | Some p \<Rightarrow>
          do { u \<leftarrow> unquoteArgument (cstr buf p);
               let p' = (if quoted_name (cstr buf p) then p + 1 else p);
               Some (Some p', put_str p' u buf) })"

text \<open>The command without its redirections, and the names of the files.\<close>

record redirected =
  rd_command :: string
  rd_input :: "string option"
  rd_output :: "string option"
  rd_error :: "string option"
  rd_append :: bool
  rd_shared :: bool
  rd_dup :: bool

definition redirections :: "string \<Rightarrow> redirected option" where
  "redirections command =
     (if recordSeparator \<in> set command
      then Some \<lparr>rd_command = command, rd_input = None, rd_output = None, rd_error = None, rd_append = False, rd_shared = False,
                  rd_dup = False\<rparr>
      else
        let f = find_redirections command;
            b1 = end_name (mf_error_name f) (end_name (mf_input_name f) (end_name (mf_output_name f) command));
            b2 = end_at (mf_error f) (end_at (mf_output f) (end_at (mf_input f) b1)) in
        do { (po, b3) \<leftarrow> unquote_name (mf_output_name f) b2;
             (pi, b4) \<leftarrow> unquote_name (mf_input_name f) b3;
             (pe, b5) \<leftarrow> unquote_name (mf_error_name f) b4;
             Some \<lparr>rd_command = cstr b5 0, rd_input = map_option (cstr b5) pi, rd_output = map_option (cstr b5) po,
                   rd_error = map_option (cstr b5) pe, rd_append = mf_append f, rd_shared = mf_shared f,
                   rd_dup = mf_dup f\<rparr> })"

section \<open>Opening the files\<close>

text \<open>
  The streams of the command, of the thread and of the session. \<open>fopen\<close> opens a file for a mode, \<open>expand\<close> expands its name, \<open>fileno\<close>
  is the descriptor of a stream; the last component of the result has the streams given to \<^verbatim>\<open>fclose\<close>.
\<close>

record streams =
  st_in :: "stream option"
  st_out :: "stream option"
  st_err :: "stream option"

definition or_else :: "'a option \<Rightarrow> 'a option \<Rightarrow> 'a option" where
  "or_else x y = (if x = None then y else x)"

definition close_other :: "(stream \<Rightarrow> int) \<Rightarrow> stream option \<Rightarrow> stream option \<Rightarrow> stream list" where
  "close_other fileno old session =
     (case old of None \<Rightarrow> [] | Some s \<Rightarrow> if Some (fileno s) \<noteq> map_option fileno session then [s] else [])"

definition open_name :: "(string \<Rightarrow> string option) \<Rightarrow> (string \<Rightarrow> string \<Rightarrow> stream option) \<Rightarrow> string \<Rightarrow> string option \<Rightarrow> stream option option" where
  "open_name expand fopen mode name = (case name of None \<Rightarrow> Some None | Some n \<Rightarrow> map_option (\<lambda>n. fopen n mode) (expand n))"

definition open_files ::
  "(string \<Rightarrow> string option) \<Rightarrow> (string \<Rightarrow> string \<Rightarrow> stream option) \<Rightarrow> (stream \<Rightarrow> int) \<Rightarrow> streams \<Rightarrow> streams \<Rightarrow> redirected \<Rightarrow> streams \<Rightarrow>
   (streams \<times> stream list) option" where
  "open_files expand fopen fileno thread session r params0 =
     do { let params = (if rd_dup r \<and> st_out params0 \<noteq> None then params0\<lparr>st_err := st_out params0\<rparr> else params0);
           i \<leftarrow> open_name expand fopen ''r'' (rd_input r);
          let sin = or_else (or_else i (st_in params)) (st_in thread);
          w \<leftarrow> open_name expand fopen (if rd_append r then ''a'' else ''w'') (rd_output r);
          let (sout1, closed1) = (case w of None \<Rightarrow> (st_out params, []) | Some f \<Rightarrow> (Some f, close_other fileno (st_out params) (st_out session)));
          let sout = or_else sout1 (st_out thread);
          (serr, closed2) \<leftarrow>
            (if rd_shared r \<and> st_err params \<noteq> sout then Some (sout, close_other fileno (st_err params) (st_err session))
             else
               do { e \<leftarrow> open_name expand fopen ''w'' (rd_error r);
                    Some (case e of None \<Rightarrow> (st_err params, []) | Some f \<Rightarrow> (Some f, close_other fileno (st_err params) (st_err session))) });
          Some (\<lparr>st_in = sin, st_out = sout, st_err = or_else serr (st_err thread)\<rparr>, closed1 @ closed2) }"


section \<open>Searching a text without quotes\<close>

fun plain_scan :: "string \<Rightarrow> nat \<Rightarrow> nat \<Rightarrow> string \<Rightarrow> nat option" where
  "plain_scan pat m i [] = None"
| "plain_scan pat m i (c # r) =
     (if m < length pat \<and> pat ! m = c then
        if m + 1 = length pat then Some (i - m) else plain_scan pat (m + 1) (i + 1) r
      else plain_scan pat 0 (i + 1) r)"

definition unquoted :: "string \<Rightarrow> bool" where
  "unquoted s \<longleftrightarrow> dquote \<notin> set s \<and> squote \<notin> set s"

lemma unquoted_append [simp]: "unquoted (s @ t) \<longleftrightarrow> unquoted s \<and> unquoted t"
  by (auto simp: unquoted_def)

lemma scan_is_plain: "unquoted s \<Longrightarrow> scan_quoted pat None e m i s = plain_scan pat m i s"
  by (induction s arbitrary: e m i) (auto simp: unquoted_def Let_def)

lemma plain_scan_shift: "m \<le> i \<Longrightarrow> plain_scan pat m (d + i) s = map_option (\<lambda>k. d + k) (plain_scan pat m i s)"
proof (induction s arbitrary: m i)
  case (Cons c r)
  then show ?case using Cons.IH [of "m + 1" "i + 1"] Cons.IH [of 0 "i + 1"] by simp
qed simp

lemma plain_scan_length: "plain_scan pat m i s = Some p \<Longrightarrow> m < length pat \<Longrightarrow> length pat \<le> length s + m"
proof (induction s arbitrary: m i)
  case (Cons c r)
  then show ?case using Cons.IH [of "m + 1" "i + 1"] Cons.IH [of 0 "i + 1"] by (fastforce split: if_splits)
qed simp

lemma plain_scan_self: "m < length pat \<Longrightarrow> plain_scan pat m i (drop m pat) = Some (i - m)"
proof (induction "length pat - m" arbitrary: m i)
  case (Suc x)
  then have "drop m pat = pat ! m # drop (Suc m) pat" by (simp add: Cons_nth_drop_Suc)
  moreover have "m + 1 \<noteq> length pat \<Longrightarrow> plain_scan pat (Suc m) (Suc i) (drop (Suc m) pat) = Some (Suc i - Suc m)"
    using Suc by (intro Suc.hyps) auto
  ultimately show ?case using Suc.prems by auto
qed simp

lemma strstrquoted_plain_text:
  assumes "unquoted s" "pat \<noteq> []"
  shows "strstrquoted (Some s) (Some pat) = plain_scan pat 0 0 s"
proof -
  have "length s < length pat \<Longrightarrow> plain_scan pat 0 0 s = None"
    using plain_scan_length [of pat 0 0 s] assms(2) by (cases "plain_scan pat 0 0 s") auto
  moreover have "plain_scan pat 0 0 pat = Some 0" using plain_scan_self [of 0 pat 0] assms(2) by simp
  ultimately show ?thesis using assms by (auto simp: strstrquoted_def scan_is_plain)
qed

text \<open>A space ends every partial match.\<close>

lemma plain_scan_space:
  assumes "space \<notin> set pat"
  shows "plain_scan pat m i a = None \<Longrightarrow> plain_scan pat m i (a @ space # b) = plain_scan pat 0 (i + length a + 1) b"
proof (induction a arbitrary: m i)
  case Nil
  have "m < length pat \<Longrightarrow> pat ! m \<noteq> space" using assms by (metis nth_mem)
  then show ?case by auto
next
  case (Cons c a)
  then show ?case using Cons.IH [of "m + 1" "i + 1"] Cons.IH [of 0 "i + 1"] by (auto split: if_splits)
qed

lemma plain_scan_chars: "plain_scan pat m i s = Some p \<Longrightarrow> m < length pat \<Longrightarrow> set (drop m pat) \<subseteq> set s"
proof (induction s arbitrary: m i)
  case (Cons c r)
  have d: "drop m pat = pat ! m # drop (m + 1) pat" using Cons.prems(2) by (simp add: Cons_nth_drop_Suc)
  consider "pat ! m = c" "m + 1 = length pat" | "pat ! m = c" "m + 1 < length pat" "plain_scan pat (m + 1) (i + 1) r = Some p"
    | "plain_scan pat 0 (i + 1) r = Some p" using Cons.prems by (auto split: if_splits)
  then show ?case
  proof cases
    case 3
    then have "set pat \<subseteq> set r" using Cons.IH [of 0 "i + 1"] Cons.prems(2) by (cases "pat = []") auto
    then show ?thesis using set_drop_subset [of m pat] by auto
  qed (use d Cons.IH [of "m + 1" "i + 1"] in auto)
qed simp

lemma plain_scan_lacks: "x \<in> set pat \<Longrightarrow> x \<notin> set s \<Longrightarrow> plain_scan pat 0 i s = None"
  using plain_scan_chars [of pat 0 i s] by (cases "plain_scan pat 0 i s"; cases pat) auto

section \<open>A command with redirections\<close>

datatype redirection = In string | Out string | App string | Err string

fun sign :: "redirection \<Rightarrow> string" where
  "sign (In n) = ''<''"
| "sign (Out n) = ''>''"
| "sign (App n) = ''>>''"
| "sign (Err n) = ''2>''"

fun file_of :: "redirection \<Rightarrow> string" where
  "file_of (In n) = n"
| "file_of (Out n) = n"
| "file_of (App n) = n"
| "file_of (Err n) = n"

definition redirect_text :: "redirection \<Rightarrow> string" where
  "redirect_text r = space # sign r @ space # file_of r"

definition redirects_text :: "redirection list \<Rightarrow> string" where
  "redirects_text rs = concat (map redirect_text rs)"

definition special :: string where
  "special = [dquote, squote, recordSeparator, nul, CHR ''<'', CHR ''>'', CHR ''&'']"

definition plain_file :: "string \<Rightarrow> bool" where
  "plain_file n \<longleftrightarrow> n \<noteq> [] \<and> (\<forall>c \<in> set n. c \<noteq> space \<and> c \<noteq> backslash \<and> c \<notin> set special)"

definition bare_command :: "string \<Rightarrow> bool" where
  "bare_command c \<longleftrightarrow> (\<forall>x \<in> set c. x \<notin> set special)"

lemmas special_simps = special_def arg_chars nul_def

lemma redirects_text_simps [simp]:
  "redirects_text [] = []" "redirects_text (r # rs) = redirect_text r @ redirects_text rs"
  "redirects_text (rs @ rs') = redirects_text rs @ redirects_text rs'"
  by (simp_all add: redirects_text_def)

lemma plain_unquoted: "plain_file n \<Longrightarrow> unquoted n" "bare_command c \<Longrightarrow> unquoted c"
  by (auto simp: plain_file_def bare_command_def unquoted_def special_simps)

lemma redirect_unquoted: "plain_file (file_of r) \<Longrightarrow> unquoted (redirect_text r)"
  using plain_unquoted(1) [of "file_of r"] by (cases r) (auto simp: redirect_text_def unquoted_def special_simps)

lemma redirects_unquoted: "\<forall>r \<in> set rs. plain_file (file_of r) \<Longrightarrow> unquoted (redirects_text rs)"
  by (induction rs) (auto simp: redirect_unquoted, simp add: unquoted_def)


lemma plain_scan_append: "plain_scan pat m i s = Some k \<Longrightarrow> plain_scan pat m i (s @ t) = Some k"
  by (induction s arbitrary: m i) (auto split: if_splits)

text \<open>The marks that are searched for end with an angle bracket.\<close>

definition a_sign :: "string \<Rightarrow> bool" where
  "a_sign pat \<longleftrightarrow> pat \<in> {''<'', ''>'', ''2>''}"

lemma a_sign_props: "a_sign pat \<Longrightarrow> pat \<noteq> [] \<and> space \<notin> set pat \<and> last pat \<in> {CHR ''<'', CHR ''>''}"
  by (auto simp: a_sign_def space_def)

lemma scan_file: "a_sign pat \<Longrightarrow> plain_file n \<Longrightarrow> plain_scan pat 0 i n = None"
  using a_sign_props [of pat] plain_scan_lacks [of "last pat" pat n] by (auto simp: plain_file_def special_simps)

lemma scan_redirect:
  assumes "a_sign pat" "plain_scan pat 0 0 c = None"
  shows "plain_scan pat 0 0 (c @ redirect_text r @ t) =
    map_option (\<lambda>k. length c + 1 + k) (plain_scan pat 0 0 (sign r @ space # file_of r @ t))"
  using plain_scan_space [of pat 0 0 c "sign r @ space # file_of r @ t"] plain_scan_shift [of 0 0 pat "length c + 1"]
    a_sign_props [OF assms(1)] assms(2) by (simp add: redirect_text_def)

lemma scan_other:
  assumes "a_sign pat" "plain_scan pat 0 0 c = None" "plain_file (file_of r)" "plain_scan pat 0 0 (sign r) = None"
  shows "plain_scan pat 0 0 (c @ redirect_text r) = None"
  using scan_redirect [OF assms(1,2), of r "[]"] plain_scan_space [of pat 0 0 "sign r" "file_of r"]
    scan_file [OF assms(1,3)] a_sign_props [OF assms(1)] assms(4) by simp

lemma scan_others:
  assumes "a_sign pat"
  shows "plain_scan pat 0 0 c = None \<Longrightarrow> \<forall>r \<in> set rs. plain_file (file_of r) \<and> plain_scan pat 0 0 (sign r) = None \<Longrightarrow>
    plain_scan pat 0 0 (c @ redirects_text rs) = None"
proof (induction rs arbitrary: c)
  case (Cons r rs)
  then show ?case using scan_other [OF assms, of c r] by (simp add: append_assoc [symmetric] del: append_assoc)
qed simp

lemma find_sign:
  assumes "a_sign pat" "plain_scan pat 0 0 c = None" "\<forall>r \<in> set as. plain_file (file_of r) \<and> plain_scan pat 0 0 (sign r) = None"
    and "plain_scan pat 0 0 (sign r) = Some k" "unquoted (c @ redirects_text (as @ r # bs))"
  shows "strstrquoted (Some (c @ redirects_text (as @ r # bs))) (Some pat) = Some (length c + length (redirects_text as) + 1 + k)"
proof -
  have "plain_scan pat 0 0 (sign r @ space # file_of r @ redirects_text bs) = Some k" using plain_scan_append [OF assms(4)] by simp
  then show ?thesis
    using strstrquoted_plain_text [OF assms(5)] a_sign_props [OF assms(1)] scan_redirect [OF assms(1) scan_others [OF assms(1-3)], of r]
    by simp
qed

lemma find_no_sign:
  assumes "a_sign pat" "plain_scan pat 0 0 c = None" "\<forall>r \<in> set rs. plain_file (file_of r) \<and> plain_scan pat 0 0 (sign r) = None"
    and "unquoted (c @ redirects_text rs)"
  shows "strstrquoted (Some (c @ redirects_text rs)) (Some pat) = None"
  using strstrquoted_plain_text [OF assms(4)] a_sign_props [OF assms(1)] scan_others [OF assms(1-3)] by simp

section \<open>The marks of a plain command\<close>

fun first_mark :: "nat \<Rightarrow> (redirection \<Rightarrow> bool) \<Rightarrow> redirection list \<Rightarrow> (nat \<times> redirection) option" where
  "first_mark k P [] = None"
| "first_mark k P (r # rs) = (if P r then Some (k + 1, r) else first_mark (k + length (redirect_text r)) P rs)"

definition name_at :: "nat \<times> redirection \<Rightarrow> nat" where
  "name_at = (\<lambda>(m, r). m + length (sign r) + 1)"

definition is_in :: "redirection \<Rightarrow> bool" where "is_in r \<longleftrightarrow> (\<exists>n. r = In n)"
definition is_out :: "redirection \<Rightarrow> bool" where "is_out r \<longleftrightarrow> (\<exists>n. r = Out n \<or> r = App n)"
definition is_err :: "redirection \<Rightarrow> bool" where "is_err r \<longleftrightarrow> (\<exists>n. r = Err n)"
definition is_app :: "redirection \<Rightarrow> bool" where "is_app r \<longleftrightarrow> (\<exists>n. r = App n)"

lemma kind_simps [simp]:
  "is_in (In n)" "\<not> is_in (Out n)" "\<not> is_in (App n)" "\<not> is_in (Err n)"
  "\<not> is_out (In n)" "is_out (Out n)" "is_out (App n)" "\<not> is_out (Err n)"
  "\<not> is_err (In n)" "\<not> is_err (Out n)" "\<not> is_err (App n)" "is_err (Err n)"
  "\<not> is_app (In n)" "\<not> is_app (Out n)" "is_app (App n)" "\<not> is_app (Err n)"
  by (simp_all add: is_in_def is_out_def is_err_def is_app_def)

lemma first_mark_split:
  "first_mark k P rs = Some (m, r) \<Longrightarrow>
   \<exists>as bs. rs = as @ r # bs \<and> P r \<and> (\<forall>a \<in> set as. \<not> P a) \<and> m = k + length (redirects_text as) + 1"
proof (induction rs arbitrary: k)
  case (Cons x rs)
  show ?case
  proof (cases "P x")
    case True
    then show ?thesis using Cons.prems by (intro exI [of _ "[]"] exI [of _ rs]) simp
  next
    case False
    then obtain as bs where "rs = as @ r # bs \<and> P r \<and> (\<forall>a \<in> set as. \<not> P a) \<and> m = k + length (redirect_text x) + length (redirects_text as) + 1"
      using Cons by (metis first_mark.simps(2))
    then show ?thesis using False by (intro exI [of _ "x # as"] exI [of _ bs]) simp
  qed
qed simp

lemma first_mark_None: "first_mark k P rs = None \<longleftrightarrow> (\<forall>r \<in> set rs. \<not> P r)"
  by (induction rs arbitrary: k) auto

lemma first_mark_append: "\<forall>a \<in> set as. \<not> P a \<Longrightarrow> first_mark k P (as @ rs) = first_mark (k + length (redirects_text as)) P rs"
  by (induction as arbitrary: k) (auto simp: add.assoc)

lemma first_mark_shift: "first_mark (d + k) P rs = map_option (\<lambda>(m, r). (d + m, r)) (first_mark k P rs)"
  by (induction rs arbitrary: k) (auto simp: add.assoc)

lemma first_mark_cong: "(\<And>r. r \<in> set rs \<Longrightarrow> P r = Q r) \<Longrightarrow> first_mark k P rs = first_mark k Q rs"
  by (induction rs arbitrary: k) auto

text \<open>Where a mark is found: \<open>P\<close> are the redirections whose sign contains it.\<close>

lemma find_by:
  assumes "a_sign pat" "plain_scan pat 0 0 c = None" "\<forall>r \<in> set rs. plain_file (file_of r)" "unquoted c"
    and P: "\<And>r. P r \<longleftrightarrow> plain_scan pat 0 0 (sign r) \<noteq> None"
  shows "strstrquoted (Some (c @ redirects_text rs)) (Some pat) =
    map_option (\<lambda>(m, r). m + the (plain_scan pat 0 0 (sign r))) (first_mark (length c) P rs)"
proof (cases "first_mark (length c) P rs")
  case None
  then show ?thesis using find_no_sign [OF assms(1,2), of rs] assms(3,4) P redirects_unquoted by (auto simp: first_mark_None)
next
  case (Some x)
  obtain m r where x: "x = (m, r)" by (cases x)
  with first_mark_split Some obtain as bs where s: "rs = as @ r # bs" "P r" "\<forall>a \<in> set as. \<not> P a" "m = length c + length (redirects_text as) + 1"
    by blast
  obtain k where "plain_scan pat 0 0 (sign r) = Some k" using s(2) P by auto
  with find_sign [OF assms(1,2), of as r k bs] s assms(3,4) P redirects_unquoted [OF assms(3)] Some x show ?thesis by auto
qed

lemma scan_signs:
  "plain_scan ''<'' 0 0 (sign r) = (if is_in r then Some 0 else None)"
  "plain_scan ''>'' 0 0 (sign r) = (if is_in r then None else if is_err r then Some 1 else Some 0)"
  "plain_scan ''2>'' 0 0 (sign r) = (if is_err r then Some 0 else None)"
  by (cases r; simp)+

lemma bare_command_scans:
  assumes "bare_command c"
  shows "plain_scan ''<'' 0 0 c = None" "plain_scan ''>'' 0 0 c = None" "plain_scan ''2>'' 0 0 c = None"
proof -
  have lacks: "CHR ''<'' \<notin> set c" "CHR ''>'' \<notin> set c" using assms by (force simp: bare_command_def special_simps)+
  show "plain_scan ''<'' 0 0 c = None" by (rule plain_scan_lacks [OF _ lacks(1)]) simp
  show "plain_scan ''>'' 0 0 c = None" "plain_scan ''2>'' 0 0 c = None" by (rule plain_scan_lacks [OF _ lacks(2)], simp)+
qed

lemma bare_file_command: "plain_file n \<Longrightarrow> bare_command n"
  by (simp add: plain_file_def bare_command_def)

lemma find_signs:
  assumes "bare_command c" "\<forall>r \<in> set rs. plain_file (file_of r)"
  shows "strstrquoted (Some (c @ redirects_text rs)) (Some ''<'') = map_option fst (first_mark (length c) is_in rs)"
    "strstrquoted (Some (c @ redirects_text rs)) (Some ''>'') =
      map_option (\<lambda>(m, r). if is_err r then m + 1 else m) (first_mark (length c) (\<lambda>r. \<not> is_in r) rs)"
    "strstrquoted (Some (c @ redirects_text rs)) (Some ''2>'') = map_option fst (first_mark (length c) is_err rs)"
proof -
  note f = find_by [OF _ _ assms(2) plain_unquoted(2) [OF assms(1)]] and p = bare_command_scans [OF assms(1)]
  let ?s = "Some (c @ redirects_text rs)"
  have found: "P r" if "first_mark (length c) P rs = Some (m, r)" for P m r using first_mark_split [OF that] by blast
  have "strstrquoted ?s (Some ''<'') = map_option (\<lambda>(m, r). m + the (plain_scan ''<'' 0 0 (sign r))) (first_mark (length c) is_in rs)"
    by (rule f) (simp_all add: a_sign_def p scan_signs)
  then show "strstrquoted ?s (Some ''<'') = map_option fst (first_mark (length c) is_in rs)"
    using found [of is_in] by (cases "first_mark (length c) is_in rs") (auto simp: scan_signs)
  have "strstrquoted ?s (Some ''>'') =
      map_option (\<lambda>(m, r). m + the (plain_scan ''>'' 0 0 (sign r))) (first_mark (length c) (\<lambda>r. \<not> is_in r) rs)"
    by (rule f) (simp_all add: a_sign_def p scan_signs)
  then show "strstrquoted ?s (Some ''>'') =
      map_option (\<lambda>(m, r). if is_err r then m + 1 else m) (first_mark (length c) (\<lambda>r. \<not> is_in r) rs)"
    using found [of "\<lambda>r. \<not> is_in r"] by (cases "first_mark (length c) (\<lambda>r. \<not> is_in r) rs") (auto simp: scan_signs)
  have "strstrquoted ?s (Some ''2>'') = map_option (\<lambda>(m, r). m + the (plain_scan ''2>'' 0 0 (sign r))) (first_mark (length c) is_err rs)"
    by (rule f) (simp_all add: a_sign_def p scan_signs)
  then show "strstrquoted ?s (Some ''2>'') = map_option fst (first_mark (length c) is_err rs)"
    using found [of is_err] by (cases "first_mark (length c) is_err rs") (auto simp: scan_signs)
qed


lemma drop_further: "drop m buf = s @ t \<Longrightarrow> drop (m + length s) buf = t"
  using drop_drop [of "length s" m buf] by (simp add: add.commute)

text \<open>The text at a mark, and at the name behind it.\<close>

lemma drop_at_mark:
  assumes "first_mark (length c) P rs = Some (m, r)"
  obtains as bs where "rs = as @ r # bs" "P r" "\<forall>a \<in> set as. \<not> P a" "m = length c + length (redirects_text as) + 1"
    "drop m (c @ redirects_text rs) = sign r @ space # file_of r @ redirects_text bs"
    "drop (name_at (m, r)) (c @ redirects_text rs) = file_of r @ redirects_text bs"
proof -
  obtain as bs where s: "rs = as @ r # bs" "P r" "\<forall>a \<in> set as. \<not> P a" "m = length c + length (redirects_text as) + 1"
    using first_mark_split [OF assms] by blast
  have "c @ redirects_text rs = (c @ redirects_text as @ [space]) @ sign r @ space # file_of r @ redirects_text bs"
    by (simp add: s(1) redirect_text_def)
  moreover have "m = length (c @ redirects_text as @ [space])" using s(4) by simp
  ultimately have "drop m (c @ redirects_text rs) = sign r @ space # file_of r @ redirects_text bs"
    by (metis append_eq_conv_conj)
  moreover from this have "drop (name_at (m, r)) (c @ redirects_text rs) = file_of r @ redirects_text bs"
    using drop_further [of m "c @ redirects_text rs" "sign r @ [space]" "file_of r @ redirects_text bs"] by (simp add: name_at_def)
  ultimately show thesis using s that by blast
qed

lemma next_is_drop:
  assumes "drop m buf = x # y # t"
  shows "next_is buf m ch \<longleftrightarrow> y = ch"
proof -
  have len: "m + 1 < length buf" using arg_cong [OF assms, of length] by simp
  then have "buf ! (m + 1) = drop m buf ! 1" by simp
  then show ?thesis using len assms by (simp add: next_is_def)
qed

lemma skip_one: "drop p buf = space # n @ t \<Longrightarrow> plain_file n \<Longrightarrow> skip_blanks buf p = p + 1"
  by (cases n) (auto simp: skip_blanks_def plain_file_def)

lemma skip_to_name:
  assumes "first_mark (length c) P rs = Some (m, r)" "\<forall>r \<in> set rs. plain_file (file_of r)"
  shows "skip_blanks (c @ redirects_text rs) (m + length (sign r)) = name_at (m, r)"
proof -
  obtain as bs where s: "rs = as @ r # bs" "drop m (c @ redirects_text rs) = sign r @ space # file_of r @ redirects_text bs"
    by (rule drop_at_mark [OF assms(1)])
  from skip_one [OF drop_further [OF s(2)]] assms(2) s(1) show ?thesis by (simp add: name_at_def)
qed

lemma find_from_0: "find_from buf 0 pat = strstrquoted (Some buf) (Some pat)"
  by (simp add: find_from_def option.map_ident)

lemma find_input_eq:
  assumes "bare_command c" "\<forall>r \<in> set rs. plain_file (file_of r)"
  shows "find_input (c @ redirects_text rs) =
    (map_option fst (first_mark (length c) is_in rs), map_option name_at (first_mark (length c) is_in rs))"
proof (cases "first_mark (length c) is_in rs")
  case None
  then show ?thesis using find_signs(1) [OF assms] by (simp add: find_input_def find_from_0)
next
  case (Some x)
  obtain m r where x: "x = (m, r)" by (cases x)
  note fm = Some [unfolded x]
  obtain as bs where s: "is_in r" "drop m (c @ redirects_text rs) = sign r @ space # file_of r @ redirects_text bs"
    by (rule drop_at_mark [OF fm])
  then obtain n where r: "r = In n" by (auto simp: is_in_def)
  have "\<not> next_is (c @ redirects_text rs) m (CHR ''='')" using s(2) r next_is_drop by (simp add: space_def)
  then show ?thesis using find_signs(1) [OF assms] skip_to_name [OF fm assms(2)] fm r
    by (simp add: find_input_def find_from_0 x)
qed

lemma find_output_eq:
  assumes "bare_command c" "\<forall>r \<in> set rs. plain_file (file_of r)"
  shows "find_output (c @ redirects_text rs) =
    (case first_mark (length c) (\<lambda>r. \<not> is_in r) rs of
       None \<Rightarrow> (None, None, False)
     | Some (m, r) \<Rightarrow> (Some (if is_err r then m + 1 else m), Some (m + length (sign r)), is_app r))"
proof (cases "first_mark (length c) (\<lambda>r. \<not> is_in r) rs")
  case None
  then show ?thesis using find_signs(2) [OF assms] by (simp add: find_output_def find_from_0)
next
  case (Some x)
  obtain m r where x: "x = (m, r)" by (cases x)
  note fm = Some [unfolded x]
  obtain as bs where s: "\<not> is_in r" "drop m (c @ redirects_text rs) = sign r @ space # file_of r @ redirects_text bs"
    by (rule drop_at_mark [OF fm])
  have f: "find_from (c @ redirects_text rs) 0 ''>'' = Some (if is_err r then m + 1 else m)" using find_signs(2) [OF assms] fm by (simp add: find_from_0)
  show ?thesis
  proof (cases r)
    case (Err n)
    then have "drop (Suc m) (c @ redirects_text rs) = CHR ''>'' # space # n @ redirects_text bs"
      using drop_further [of m _ "''2''" "CHR ''>'' # space # n @ redirects_text bs"] s(2) by (simp del: drop_append)
    with f fm Err next_is_drop show ?thesis by (simp add: find_output_def space_def)
  qed (use s f fm next_is_drop in \<open>auto simp: find_output_def space_def\<close>)
qed


text \<open>At most one file for the input, one for the output and one for the errors.\<close>

definition one_each :: "redirection list \<Rightarrow> bool" where
  "one_each rs \<longleftrightarrow> length (filter is_in rs) \<le> 1 \<and> length (filter is_out rs) \<le> 1 \<and> length (filter is_err rs) \<le> 1"

lemma one_err: "one_each (as @ r # bs) \<Longrightarrow> is_err r \<Longrightarrow> \<forall>q \<in> set (as @ bs). \<not> is_err q"
  by (auto simp: one_each_def filter_empty_conv)

lemma kinds: "\<not> is_in r \<longleftrightarrow> is_out r \<or> is_err r" "is_out r \<Longrightarrow> \<not> is_err r"
  by (cases r; simp)+

text \<open>The output file that comes after the error file.\<close>

lemma find_output_after_eq:
  assumes "rs = as @ r # bs" "m = length c + length (redirects_text as) + 1" "\<forall>a \<in> set as. is_in a" "is_err r" "one_each rs"
    and plain: "\<forall>r \<in> set rs. plain_file (file_of r)"
  shows "find_output_after (c @ redirects_text rs) (name_at (m, r)) False =
    (let x = first_mark (length c) is_out rs in (map_option fst x, map_option name_at x, \<exists>m q. x = Some (m, q) \<and> is_app q))"
proof -
  define T where "T = c @ redirects_text rs"
  define p where "p = name_at (m, r)"
  have outs: "\<forall>a \<in> set as. \<not> is_out a" "\<not> is_out r" "\<And>q. q \<in> set bs \<Longrightarrow> (\<not> is_in q) = is_out q"
    using one_err [of as r bs] assms(1,3,4,5) kinds by auto
  have "T = (c @ redirects_text as @ space # sign r @ [space]) @ file_of r @ redirects_text bs"
    by (simp add: T_def assms(1) redirect_text_def)
  moreover have len: "p = length (c @ redirects_text as @ space # sign r @ [space])" by (simp add: p_def name_at_def assms(2))
  ultimately have "drop p T = file_of r @ redirects_text bs" by (metis append_eq_conv_conj)
  moreover have "bare_command (file_of r)" using plain assms(1) by (intro bare_file_command) simp
  ultimately have found: "find_from T p ''>'' =
      map_option (\<lambda>k. p + k) (map_option (\<lambda>(m, r). if is_err r then m + 1 else m) (first_mark (length (file_of r)) (\<lambda>r. \<not> is_in r) bs))"
    using find_signs(2) [of "file_of r" bs] plain assms(1) by (simp add: find_from_def)
  define Y where "Y = first_mark (length (file_of r)) is_out bs"
  have "first_mark (length (file_of r)) (\<lambda>r. \<not> is_in r) bs = Y" unfolding Y_def by (rule first_mark_cong) (rule outs(3))
  with found have f: "find_from T p ''>'' = map_option (\<lambda>k. p + k) (map_option (\<lambda>(m, r). if is_err r then m + 1 else m) Y)" by simp
  have "p + length (file_of r) = length c + length (redirects_text as) + length (redirect_text r)" by (simp add: len redirect_text_def)
  then have X: "first_mark (length c) is_out rs = map_option (\<lambda>(m, q). (p + m, q)) Y"
    using outs(1,2) first_mark_shift [of p "length (file_of r)" is_out bs] by (simp add: assms(1) first_mark_append Y_def)
  show ?thesis
  proof (cases Y)
    case None
    then show ?thesis using f X by (simp add: find_output_after_def T_def [symmetric] p_def [symmetric])
  next
    case (Some y)
    obtain k q where y: "y = (k, q)" by (cases y)
    then have x: "first_mark (length c) is_out rs = Some (p + k, q)" using X Some by simp
    obtain bs' where q: "is_out q" "drop (p + k) T = sign q @ space # file_of q @ redirects_text bs'"
      using drop_at_mark [OF x] unfolding T_def by metis
    note sk = skip_to_name [OF x plain, folded T_def]
    have "find_from T p ''>'' = Some (p + k)" using f Some y q(1) by (auto simp: is_out_def)
    then show ?thesis using q sk next_is_drop [of "p + k" T] x
      by (cases q) (auto simp: find_output_after_def T_def [symmetric] p_def [symmetric] space_def)
  qed
qed

lemma find_absent: "unquoted s \<Longrightarrow> plain_scan pat 0 0 s = None \<Longrightarrow> pat \<noteq> [] \<Longrightarrow> find_from s 0 pat = None"
  by (simp add: find_from_0 strstrquoted_plain_text)

lemma redirects_no_amp: "\<forall>r \<in> set rs. plain_file (file_of r) \<Longrightarrow> CHR ''&'' \<notin> set (redirects_text rs)"
proof (induction rs)
  case (Cons r rs)
  then have "CHR ''&'' \<notin> set (file_of r)" by (force simp: plain_file_def special_simps)
  then have "CHR ''&'' \<notin> set (redirect_text r)" by (cases r) (auto simp: redirect_text_def space_def)
  then show ?case using Cons by simp
qed simp

lemma find_redirections_eq:
  assumes c: "bare_command c" and plain: "\<forall>r \<in> set rs. plain_file (file_of r)" and one: "one_each rs"
  defines "fi \<equiv> first_mark (length c) is_in rs" and "fo \<equiv> first_mark (length c) is_out rs" and "fe \<equiv> first_mark (length c) is_err rs"
  shows "find_redirections (c @ redirects_text rs) =
    \<lparr>mf_input = map_option fst fi, mf_input_name = map_option name_at fi, mf_output = map_option fst fo, mf_output_name = map_option name_at fo,
     mf_error = map_option fst fe, mf_error_name = map_option name_at fe, mf_append = (\<exists>m q. fo = Some (m, q) \<and> is_app q),
     mf_shared = False, mf_dup = False\<rparr>"
proof -
  define T where "T = c @ redirects_text rs"
  define g where "g = first_mark (length c) (\<lambda>r. \<not> is_in r) rs"
  have amp: "find_from T 0 pat = None" if "CHR ''&'' \<in> set pat" for pat
  proof (rule find_absent)
    show "unquoted T" using plain_unquoted(2) [OF c] redirects_unquoted [OF plain] by (simp add: T_def)
    have "CHR ''&'' \<notin> set T" using c redirects_no_amp [OF plain] by (auto simp: T_def bare_command_def special_simps)
    then show "plain_scan pat 0 0 T = None" by (rule plain_scan_lacks [OF that])
  qed (use that in auto)
  have e: "find_from T 0 ''2>'' = map_option fst fe" using find_signs(3) [OF c plain] by (simp add: T_def find_from_0 fe_def)
  have en: "map_option (\<lambda>e. skip_blanks T (e + 2)) (map_option fst fe) = map_option name_at fe"
  proof (cases fe)
    case (Some x)
    obtain m r where x: "x = (m, r)" by (cases x)
    then have "is_err r" using Some first_mark_split unfolding fe_def by blast
    then show ?thesis using skip_to_name [of c is_err rs m r] plain Some x by (auto simp: T_def fe_def is_err_def)
  qed simp
  have i: "find_input T = (map_option fst fi, map_option name_at fi)" using find_input_eq [OF c plain] by (simp add: T_def fi_def)
  note o = find_output_eq [OF c plain, folded T_def g_def]
  note en' = en [unfolded add_2_eq_Suc']
  note unfold = find_redirections_def Let_def i amp e en en' o
  show ?thesis
  proof (cases g)
    case None
    then have "fo = None" "fe = None" using kinds by (auto simp: g_def fo_def fe_def first_mark_None)
    then show ?thesis using None by (simp add: T_def [symmetric] unfold)
  next
    case (Some x)
    obtain m r where x: "x = (m, r)" by (cases x)
    note gm = Some [unfolded x g_def]
    obtain as bs where s: "rs = as @ r # bs" "\<not> is_in r" "\<forall>a \<in> set as. is_in a" "m = length c + length (redirects_text as) + 1"
      using drop_at_mark [OF gm] by metis
    then have as: "\<forall>a \<in> set as. \<not> is_out a \<and> \<not> is_err a" using kinds by blast
    note sk = skip_to_name [OF gm plain, folded T_def]
    show ?thesis
    proof (cases "is_err r")
      case True
      then have "fe = Some (m, r)" using as s by (simp add: fe_def first_mark_append)
      moreover have "\<not> is_app r" "skip_blanks T (Suc (Suc m)) = name_at (m, r)" using True sk by (auto simp: is_err_def)
      moreover note find_output_after_eq [OF s(1,4,3) True one plain, folded T_def fo_def]
      ultimately show ?thesis using Some x sk by (simp add: T_def [symmetric] unfold)
    next
      case False
      then have "is_out r" using s(2) kinds by blast
      then have fo: "fo = Some (m, r)" using as s by (simp add: fo_def first_mark_append)
      have "map_option name_at fe \<noteq> Some (name_at (m, r))"
      proof (cases fe)
        case (Some y)
        obtain m' r' where y: "y = (m', r')" by (cases y)
        have "first_mark (length c + length (redirects_text as) + length (redirect_text r)) is_err bs = Some (m', r')"
          using Some y as s(1) False by (simp add: fe_def first_mark_append)
        then have "length c + length (redirects_text as) + length (redirect_text r) < m'" using first_mark_split by force
        then show ?thesis using Some y s(4) by (simp add: name_at_def redirect_text_def)
      qed simp
      then show ?thesis using Some x sk fo False by (auto simp: T_def [symmetric] unfold)
    qed
  qed
qed


section \<open>The names of a plain command\<close>

text \<open>A text with some positions set to zero.\<close>

definition zap :: "nat set \<Rightarrow> string \<Rightarrow> string" where
  "zap Z t = map (\<lambda>i. if i \<in> Z then nul else t ! i) [0..<length t]"

lemma length_zap [simp]: "length (zap Z t) = length t"
  by (simp add: zap_def)

lemma nth_zap: "i < length t \<Longrightarrow> zap Z t ! i = (if i \<in> Z then nul else t ! i)"
  by (simp add: zap_def)

lemma zap_empty [simp]: "zap {} t = t"
  by (simp add: zap_def map_nth)

lemma zap_update: "(zap Z t)[i := nul] = zap (insert i Z) t"
proof (rule nth_equalityI)
  fix j assume "j < length ((zap Z t)[i := nul])"
  then show "(zap Z t)[i := nul] ! j = zap (insert i Z) t ! j" by (cases "i = j") (auto simp: nth_zap)
qed simp

lemma end_at_zap: "end_at (map_option fst x) (zap Z t) = zap (fst ` set_option x \<union> Z) t"
  by (cases x) (auto simp: end_at_def zap_update)

text \<open>A name stands at \<open>p\<close>: a plain file name that ends at a space or with the text.\<close>

definition stands_at :: "string \<Rightarrow> nat \<Rightarrow> string \<Rightarrow> bool" where
  "stands_at t p n \<longleftrightarrow> plain_file n \<and> p + length n \<le> length t \<and> take (length n) (drop p t) = n \<and>
     (p + length n < length t \<longrightarrow> t ! (p + length n) = space)"

lemma stands_nth: "stands_at t p n \<Longrightarrow> j < length n \<Longrightarrow> t ! (p + j) = n ! j"
  by (metis add.commute le_add1 nth_drop nth_take order_trans stands_at_def)

lemma cstr_zap:
  assumes "stands_at t p n" "\<forall>j < length n. p + j \<notin> Z" "p + length n < length t \<longrightarrow> p + length n \<in> Z"
  shows "cstr (zap Z t) p = n"
proof -
  let ?d = "drop p (zap Z t)"
  have len: "p + length n \<le> length t" using assms(1) by (simp add: stands_at_def)
  have "take (length n) ?d = n"
    using assms(1,2) len stands_nth [OF assms(1)] by (intro nth_equalityI) (auto simp: nth_zap)
  then have d: "?d = n @ drop (length n) ?d" by (metis append_take_drop_id)
  have n: "\<forall>c \<in> set n. c \<noteq> nul" using assms(1) by (auto simp: stands_at_def plain_file_def special_def)
  have "drop (length n) ?d = [] \<or> hd (drop (length n) ?d) = nul"
    using assms(3) len by (cases "p + length n < length t") (auto simp: hd_drop_conv_nth nth_zap add.commute)
  then have "takeWhile (\<lambda>c. c \<noteq> nul) (drop (length n) ?d) = []" by (cases "drop (length n) ?d") auto
  then show ?thesis unfolding cstr_def by (subst d) (use n in \<open>simp add: takeWhile_append2\<close>)
qed


lemma put_same: "p \<le> length buf \<Longrightarrow> put_str p (cstr buf p) buf = buf"
proof -
  assume p: "p \<le> length buf"
  define n where "n = cstr buf p"
  have d: "drop p buf = n @ dropWhile (\<lambda>c. c \<noteq> nul) (drop p buf)" by (simp add: n_def cstr_def)
  show ?thesis
  proof (cases "dropWhile (\<lambda>c. c \<noteq> nul) (drop p buf)")
    case Nil
    then have "drop p buf = n" using d by (metis append.right_neutral)
    then show ?thesis using p by (auto simp: put_str_def n_def [symmetric] intro: append_take_drop_id [of p buf, symmetric])
  next
    case (Cons x xs)
    then have "x = nul" using hd_dropWhile [of "\<lambda>c. c \<noteq> nul" "drop p buf"] by simp
    then have e: "drop p buf = n @ nul # xs" using d Cons by simp
    then have "length buf - p = length (n @ nul # xs)" by (metis length_drop)
    then have "length buf = p + length n + 1 + length xs" using p by simp
    moreover have "drop (p + length n + 1) buf = xs" using drop_further [of p buf "n @ [nul]" xs] e by simp
    ultimately have "put_str p n buf = take p buf @ drop p buf" using e by (simp add: put_str_def)
    then show ?thesis by (simp add: n_def)
  qed
qed

lemma getLast_file:
  assumes "plain_file n" "continues r"
  shows "getLastCharacterOfArgument (n @ r) = (n @ r, if r = [] then None else Some (length n))"
proof -
  obtain c m where n: "n = c # m" using assms(1) by (cases n) (auto simp: plain_file_def)
  have ch: "\<forall>x \<in> set (c # m). x \<noteq> space \<and> x \<noteq> backslash \<and> x \<notin> set special" using assms(1) unfolding n plain_file_def by blast
  then have m: "space \<notin> set m" "c \<notin> {dquote, squote, recordSeparator}" by (auto simp: special_def)
  have m2: "m = [] \<or> last m \<noteq> backslash" using ch last_in_set [of m] by auto
  have "nextUnescapedCharacter (m @ r) space = (if r = [] then None else Some (length m))"
    using assms(2) m(1) m2 next_unescaped_first [of space m] next_unescaped_none [of space m] by (auto simp: arg_chars)
  then show ?thesis using m(2) n by (subst getLastCharacterOfArgument.simps) auto
qed

lemma cstr_starts:
  assumes "stands_at t p n" "\<forall>j < length n. p + j \<notin> Z"
  obtains r where "cstr (zap Z t) p = n @ r" "continues r" "r = [] \<Longrightarrow> p + length n < length t \<Longrightarrow> p + length n \<in> Z"
proof (cases "p + length n < length t \<and> p + length n \<notin> Z")
  case False
  then show thesis using cstr_zap [OF assms] that [of "[]"] by auto
next
  case True
  let ?d = "drop p (zap Z t)"
  have "take (length n) ?d = n"
    using assms True stands_nth [OF assms(1)] by (intro nth_equalityI) (auto simp: nth_zap)
  then have d: "?d = n @ drop (length n) ?d" by (metis append_take_drop_id)
  have "drop (length n) ?d = space # tl (drop (length n) ?d)"
    using True assms(1) by (cases "drop (length n) ?d") (auto simp: stands_at_def nth_zap add.commute [of "length n"] dest!: nth_via_drop)
  with d have e: "?d = n @ space # tl (drop (length n) ?d)" by metis
  have n: "\<forall>c \<in> set n. c \<noteq> nul" using assms(1) by (auto simp: stands_at_def plain_file_def special_def)
  have "space \<noteq> nul" by (simp add: space_def nul_def)
  then have "cstr (zap Z t) p = n @ space # takeWhile (\<lambda>c. c \<noteq> nul) (tl (drop (length n) ?d))"
    unfolding cstr_def by (subst e) (use n in \<open>simp add: takeWhile_append2\<close>)
  then show thesis using that by blast
qed

lemma end_name_zap:
  assumes "stands_at t p n" "\<forall>j < length n. p + j \<notin> Z"
  shows "end_name (Some p) (zap Z t) = zap (insert (p + length n) Z) t"
proof -
  obtain r where r: "cstr (zap Z t) p = n @ r" "continues r" "r = [] \<longrightarrow> p + length n < length t \<longrightarrow> p + length n \<in> Z"
    using cstr_starts [OF assms] by metis
  have p: "p \<le> length t" "plain_file n" using assms(1) by (auto simp: stands_at_def)
  have "put_str p (n @ r) (zap Z t) = zap Z t" using put_same [of p "zap Z t"] p r(1) by simp
  moreover have "zap Z t = zap (insert (p + length n) Z) t" if "r = []"
    using r(3) that by (intro nth_equalityI) (auto simp: nth_zap)
  ultimately show ?thesis using getLast_file [OF p(2) r(2)] r(1) by (auto simp: end_name_def zap_update)
qed

lemma unquote_name_zap:
  assumes "stands_at t p n" "cstr (zap Z t) p = n"
  shows "unquote_name (Some p) (zap Z t) = Some (Some p, zap Z t)"
proof -
  have n: "plain_file n" "p \<le> length t" using assms(1) by (auto simp: stands_at_def)
  then have h: "hd n \<notin> {dquote, squote, recordSeparator}" "backslash \<notin> set n" using hd_in_set [of n] by (auto simp: plain_file_def special_def)
  then have "unquoteArgument n = Some n" "\<not> quoted_name n" by (auto simp: unquoteArgument_def quoted_name_def unescape_plain)
  then show ?thesis using put_same [of p "zap Z t"] n assms(2) by (simp add: unquote_name_def)
qed

text \<open>A position that is not inside of a name.\<close>

definition between_names :: "string \<Rightarrow> nat \<Rightarrow> bool" where
  "between_names t z \<longleftrightarrow> length t \<le> z \<or> t ! z \<in> {space, CHR ''<'', CHR ''>''} \<or> z + 1 < length t \<and> t ! (z + 1) = CHR ''>''"

lemma not_in_name:
  assumes "stands_at t p n" "between_names t z"
  shows "j < length n \<Longrightarrow> p + j \<noteq> z"
proof
  assume j: "j < length n" and z: "p + j = z"
  have n: "c \<in> set n \<Longrightarrow> c \<notin> {space, CHR ''<'', CHR ''>''}" for c using assms(1) by (auto simp: stands_at_def plain_file_def special_def)
  have "t ! z = n ! j" using stands_nth [OF assms(1) j] z by simp
  then have "t ! z \<notin> {space, CHR ''<'', CHR ''>''}" using n [OF nth_mem [OF j]] by simp
  moreover have "z < length t" using assms(1) j z by (simp add: stands_at_def)
  moreover have "t ! (z + 1) \<noteq> CHR ''>''" if "z + 1 < length t"
  proof (cases "j + 1 < length n")
    case True
    then show ?thesis using stands_nth [OF assms(1) True] n [OF nth_mem [OF True]] z by (auto simp: add.assoc)
  next
    case False
    then have "z + 1 = p + length n" using j z by simp
    then show ?thesis using assms(1) that by (auto simp: stands_at_def space_def)
  qed
  ultimately show False using assms(2) by (auto simp: between_names_def)
qed


lemma name_stands:
  assumes "first_mark (length c) P rs = Some x" "\<forall>r \<in> set rs. plain_file (file_of r)"
  shows "stands_at (c @ redirects_text rs) (name_at x) (file_of (snd x))"
proof -
  obtain m r where x: "x = (m, r)" by (cases x)
  obtain as bs where s: "rs = as @ r # bs" "drop (name_at x) (c @ redirects_text rs) = file_of r @ redirects_text bs"
    using drop_at_mark [OF assms(1) [unfolded x]] x by metis
  define t where "t = c @ redirects_text rs"
  have n: "plain_file (file_of r)" using assms(2) s(1) by simp
  have d: "drop (name_at x) t = file_of r @ redirects_text bs" using s(2) by (simp only: t_def)
  have "file_of r \<noteq> []" using n by (simp add: plain_file_def)
  then have "name_at x < length t" using d by (metis append_is_Nil_conv drop_all not_less)
  moreover have "length t - name_at x = length (file_of r @ redirects_text bs)" by (metis d length_drop)
  moreover have "t ! (name_at x + length (file_of r)) = space" if "bs \<noteq> []"
  proof -
    have "drop (name_at x + length (file_of r)) t = redirects_text bs" by (rule drop_further [OF d])
    with that show ?thesis by (cases bs) (auto simp: redirect_text_def dest: nth_via_drop)
  qed
  ultimately have "stands_at t (name_at x) (file_of r)" using n d by (cases bs) (auto simp: stands_at_def)
  then show ?thesis by (simp add: t_def x)
qed

lemma mark_between:
  assumes "first_mark (length c) P rs = Some x"
  shows "between_names (c @ redirects_text rs) (fst x)"
proof -
  obtain m r where x: "x = (m, r)" by (cases x)
  define t where "t = c @ redirects_text rs"
  obtain bs where d: "drop m t = sign r @ space # file_of r @ redirects_text bs"
    using drop_at_mark [OF assms(1) [unfolded x]] unfolding t_def by metis
  have "between_names t m"
  proof (cases "is_err r")
    case True
    then have "drop m t = CHR ''2'' # CHR ''>'' # space # file_of r @ redirects_text bs" using d by (auto simp: is_err_def)
    with next_is_drop [OF this, of "CHR ''>''"] show ?thesis by (simp add: between_names_def next_is_def)
  next
    case False
    then have "t ! m \<in> {CHR ''<'', CHR ''>''}" using d by (cases r) (auto dest: nth_via_drop)
    then show ?thesis by (simp add: between_names_def)
  qed
  then show ?thesis by (simp add: t_def x)
qed

lemma end_between: "stands_at t p n \<Longrightarrow> between_names t (p + length n)"
  by (auto simp: stands_at_def between_names_def)

text \<open>The positions set to zero for a redirection: its mark, and the end of its name.\<close>

definition cuts :: "(nat \<times> redirection) option \<Rightarrow> nat set" where
  "cuts x = (\<lambda>x. name_at x + length (file_of (snd x))) ` set_option x"

lemma end_name_first:
  assumes "\<forall>r \<in> set rs. plain_file (file_of r)" "\<forall>z \<in> Z. between_names (c @ redirects_text rs) z"
  shows "end_name (map_option name_at (first_mark (length c) P rs)) (zap Z (c @ redirects_text rs)) =
      zap (cuts (first_mark (length c) P rs) \<union> Z) (c @ redirects_text rs)"
    "\<forall>z \<in> cuts (first_mark (length c) P rs). between_names (c @ redirects_text rs) z"
proof -
  show "end_name (map_option name_at (first_mark (length c) P rs)) (zap Z (c @ redirects_text rs)) =
      zap (cuts (first_mark (length c) P rs) \<union> Z) (c @ redirects_text rs)"
  proof (cases "first_mark (length c) P rs")
    case None
    then show ?thesis by (simp add: end_name_def cuts_def)
  next
    case (Some x)
    note st = name_stands [OF Some assms(1)]
    from end_name_zap [OF st, of Z] not_in_name [OF st] assms(2) Some show ?thesis by (auto simp: cuts_def)
  qed
  show "\<forall>z \<in> cuts (first_mark (length c) P rs). between_names (c @ redirects_text rs) z"
    using end_between [OF name_stands [OF _ assms(1)]] by (auto simp: cuts_def)
qed


lemma cstr_first:
  assumes "\<forall>r \<in> set rs. plain_file (file_of r)" "\<forall>z \<in> Z. between_names (c @ redirects_text rs) z" "first_mark (length c) P rs = Some x"
    and "cuts (Some x) \<subseteq> Z"
  shows "cstr (zap Z (c @ redirects_text rs)) (name_at x) = file_of (snd x)"
proof -
  note st = name_stands [OF assms(3,1)]
  show ?thesis using cstr_zap [OF st, of Z] not_in_name [OF st] assms(2,4) by (auto simp: cuts_def)
qed

lemma unquote_first:
  assumes "\<forall>r \<in> set rs. plain_file (file_of r)" "\<forall>z \<in> Z. between_names (c @ redirects_text rs) z" "cuts (first_mark (length c) P rs) \<subseteq> Z"
  shows "unquote_name (map_option name_at (first_mark (length c) P rs)) (zap Z (c @ redirects_text rs)) =
      Some (map_option name_at (first_mark (length c) P rs), zap Z (c @ redirects_text rs))"
    "map_option (\<lambda>p. cstr (zap Z (c @ redirects_text rs)) p) (map_option name_at (first_mark (length c) P rs)) = map_option file_of (find P rs)"
proof -
  let ?t = "c @ redirects_text rs" let ?f = "first_mark (length c) P rs"
  have f: "map_option snd (first_mark k P rs) = find P rs" for k by (induction rs arbitrary: k) auto
  have both: "unquote_name (map_option name_at ?f) (zap Z ?t) = Some (map_option name_at ?f, zap Z ?t) \<and>
    map_option (\<lambda>p. cstr (zap Z ?t) p) (map_option name_at ?f) = map_option file_of (find P rs)"
  proof (cases ?f)
    case None
    then show ?thesis using f [of "length c"] by (simp add: unquote_name_def)
  next
    case (Some x)
    have "cstr (zap Z ?t) (name_at x) = file_of (snd x)" using cstr_first [OF assms(1,2) Some] assms(3) Some by simp
    then show ?thesis using unquote_name_zap [OF name_stands [OF Some assms(1)]] f [of "length c", symmetric] Some by auto
  qed
  then show "unquote_name (map_option name_at ?f) (zap Z ?t) = Some (map_option name_at ?f, zap Z ?t)"
    "map_option (\<lambda>p. cstr (zap Z ?t) p) (map_option name_at ?f) = map_option file_of (find P rs)" by blast+
qed

lemma cstr_command:
  assumes "bare_command c" "\<forall>z \<in> Z. length c < z" "rs \<noteq> [] \<Longrightarrow> length c + 1 \<in> Z"
  shows "cstr (zap Z (c @ redirects_text rs)) 0 = (if rs = [] then c else c @ [space])"
proof -
  let ?t = "c @ redirects_text rs"
  have c: "\<forall>x \<in> set c. x \<noteq> nul" using assms(1) by (auto simp: bare_command_def special_def)
  have sp: "space \<noteq> nul" by (simp add: space_def nul_def)
  show ?thesis
  proof (cases rs)
    case Nil
    have "zap Z c = c" using assms(2) by (intro nth_equalityI) (auto simp: nth_zap)
    then show ?thesis using Nil c by (simp add: cstr_def takeWhile_eq_all_conv)
  next
    case (Cons r rs')
    then obtain y u where t: "?t = (c @ [space]) @ y # u" by (cases r) (auto simp: redirect_text_def)
    have len: "length c + 1 < length ?t" by (simp add: t)
    have "take (length c + 1) (zap Z ?t) = c @ [space]"
    proof (rule nth_equalityI)
      fix i assume "i < length (take (length c + 1) (zap Z ?t))"
      then have i: "i < length c + 1" by simp
      then have "i \<notin> Z" using assms(2) by auto
      moreover have "?t ! i = (c @ [space]) ! i" unfolding t using i by (subst nth_append) simp
      ultimately show "take (length c + 1) (zap Z ?t) ! i = (c @ [space]) ! i" using i len by (simp add: nth_zap)
    qed (use len in simp)
    moreover have "zap Z ?t ! (length c + 1) = nul" using assms(3) Cons len by (simp add: nth_zap)
    ultimately have "zap Z ?t = (c @ [space]) @ nul # drop (length c + 2) (zap Z ?t)"
      using len id_take_nth_drop [of "length c + 1" "zap Z ?t"] by simp
    then have "cstr (zap Z ?t) 0 = takeWhile (\<lambda>c. c \<noteq> nul) ((c @ [space]) @ nul # drop (length c + 2) (zap Z ?t))" by (simp add: cstr_def)
    then show ?thesis using c sp Cons by (simp add: takeWhile_append2)
  qed
qed

lemma no_separator: "bare_command c \<Longrightarrow> \<forall>r \<in> set rs. plain_file (file_of r) \<Longrightarrow> recordSeparator \<notin> set (c @ redirects_text rs)"
proof (induction rs)
  case (Cons r rs)
  then have "recordSeparator \<notin> set (file_of r)" by (auto simp: plain_file_def special_def)
  then have "recordSeparator \<notin> set (redirect_text r)" by (cases r) (auto simp: redirect_text_def arg_chars)
  then show ?case using Cons by simp
qed (auto simp: bare_command_def special_def)

lemma appends:
  assumes "one_each rs"
  shows "(\<exists>m q. first_mark k is_out rs = Some (m, q) \<and> is_app q) \<longleftrightarrow> (\<exists>n. App n \<in> set rs)"
proof
  assume "\<exists>m q. first_mark k is_out rs = Some (m, q) \<and> is_app q"
  then show "\<exists>n. App n \<in> set rs" using first_mark_split by (fastforce simp: is_app_def)
next
  assume "\<exists>n. App n \<in> set rs"
  then obtain n where n: "App n \<in> set rs" by blast
  then have "first_mark k is_out rs \<noteq> None" using kind_simps(7) by (metis first_mark_None)
  then obtain m q where q: "first_mark k is_out rs = Some (m, q)" by auto
  then obtain as bs where s: "rs = as @ q # bs" "is_out q" "\<forall>a \<in> set as. \<not> is_out a" using first_mark_split by blast
  have "length (filter is_out rs) = Suc (length (filter is_out bs))" using s by simp
  then have "\<forall>b \<in> set bs. \<not> is_out b" using assms by (auto simp: one_each_def filter_empty_conv)
  then have "q = App n" using n s by auto
  with q show "\<exists>m q. first_mark k is_out rs = Some (m, q) \<and> is_app q" by auto
qed

lemma first_mark_after: "first_mark k P rs = Some x \<Longrightarrow> k < fst x \<and> k < name_at x"
  using first_mark_split [of k P rs "fst x" "snd x"] by (cases x) (auto simp: name_at_def)

text \<open>The command and the names are read back.\<close>

lemma redirections_plain:
  assumes "bare_command c" "\<forall>r \<in> set rs. plain_file (file_of r)" "one_each rs"
  shows "redirections (c @ redirects_text rs) =
    Some \<lparr>rd_command = (if rs = [] then c else c @ [space]), rd_input = map_option file_of (find is_in rs),
          rd_output = map_option file_of (find is_out rs), rd_error = map_option file_of (find is_err rs),
          rd_append = (\<exists>n. App n \<in> set rs), rd_shared = False, rd_dup = False\<rparr>"
proof -
  let ?t = "c @ redirects_text rs"
  let ?i = "first_mark (length c) is_in rs" let ?o = "first_mark (length c) is_out rs" let ?e = "first_mark (length c) is_err rs"
  define Z1 where "Z1 = cuts ?e \<union> (cuts ?i \<union> (cuts ?o \<union> {}))"
  define Z where "Z = fst ` set_option ?e \<union> (fst ` set_option ?o \<union> (fst ` set_option ?i \<union> Z1))"
  note cut = end_name_first [OF assms(2)]
  have b1: "end_name (map_option name_at ?e) (end_name (map_option name_at ?i) (end_name (map_option name_at ?o) ?t)) = zap Z1 ?t"
    using cut(1) [of "{}" c is_out] cut(1) [of "cuts ?o" c is_in] cut(1) [of "cuts ?i \<union> cuts ?o" c is_err] cut(2) [of "{}" c]
    by (simp add: Z1_def ball_Un)
  have z: "\<forall>z \<in> Z. between_names ?t z" using cut(2) [of "{}" c] mark_between by (auto simp: Z_def Z1_def)
  have sub: "cuts ?i \<subseteq> Z" "cuts ?o \<subseteq> Z" "cuts ?e \<subseteq> Z" by (auto simp: Z_def Z1_def)
  note names = unquote_first [OF assms(2) z sub(1)] unquote_first [OF assms(2) z sub(2)] unquote_first [OF assms(2) z sub(3)]
  have "\<forall>z \<in> Z. length c < z" using first_mark_after [of "length c" _ rs] by (auto simp: Z_def Z1_def cuts_def dest!: first_mark_after)
  moreover have "length c + 1 \<in> Z" if ne: "rs \<noteq> []"
  proof -
    obtain r rs' where "rs = r # rs'" using ne by (cases rs) auto
    then have "?i = Some (length c + 1, r) \<or> ?o = Some (length c + 1, r) \<or> ?e = Some (length c + 1, r)" by (cases r) auto
    then show ?thesis by (auto simp: Z_def)
  qed
  ultimately have "cstr (zap Z ?t) 0 = (if rs = [] then c else c @ [space])" by (rule cstr_command [OF assms(1)])
  moreover have "end_at (map_option fst ?e) (end_at (map_option fst ?o) (end_at (map_option fst ?i) (zap Z1 ?t))) = zap Z ?t"
    by (simp only: end_at_zap Z_def)
  ultimately show ?thesis
    using no_separator [OF assms(1,2)] find_redirections_eq [OF assms] b1 names appends [OF assms(3), of "length c"]
    by (simp add: redirections_def Let_def)
qed


section \<open>Properties\<close>

definition no_streams :: streams where
  "no_streams = \<lparr>st_in = None, st_out = None, st_err = None\<rparr>"

text \<open>The stream of a redirection, when its file can be opened.\<close>

definition opened :: "(string \<Rightarrow> string option) \<Rightarrow> (string \<Rightarrow> string \<Rightarrow> stream option) \<Rightarrow> string \<Rightarrow> redirection option \<Rightarrow> stream option" where
  "opened expand fopen mode q = (case q of None \<Rightarrow> None | Some r \<Rightarrow> fopen (the (expand (file_of r))) mode)"

lemma or_else_simps [simp]: "or_else None y = y" "or_else (Some a) y = Some a" "or_else z None = z"
  by (simp_all add: or_else_def)

lemma open_files_alone:
  assumes "\<not> rd_shared r" "\<not> rd_dup r" "open_name expand fopen ''r'' (rd_input r) = Some i"
    and "open_name expand fopen (if rd_append r then ''a'' else ''w'') (rd_output r) = Some w" "open_name expand fopen ''w'' (rd_error r) = Some e"
  shows "open_files expand fopen fileno thread session r no_streams =
    Some (\<lparr>st_in = or_else i (st_in thread), st_out = or_else w (st_out thread), st_err = or_else e (st_err thread)\<rparr>, [])"
  using assms by (cases w; cases e) (simp_all add: open_files_def no_streams_def close_other_def)




section \<open>Where the redirections differ from a shell\<close>

text \<open>
  Appending the errors, or appending the output together with the errors, writes to a file named \<^verbatim>\<open>>\<close>; with \<^verbatim>\<open>2>>\<close> the
  output goes to the file for the errors.
\<close>

lemma append_not_recognised:
  "\<exists>r. redirections ''cmd 2>> e'' = Some r \<and> rd_error r = Some ''>'' \<and> rd_output r = Some ''e'' \<and> rd_append r"
  "\<exists>r. redirections ''cmd >> o 2>&1'' = Some r \<and> rd_output r = Some ''>'' \<and> \<not> rd_append r"
  "\<exists>r. redirections ''cmd &>> o'' = Some r \<and> rd_output r = Some ''>'' \<and> \<not> rd_append r"
proof -
  have "redirections ''cmd 2>> e'' = Some \<lparr>rd_command = ''cmd '', rd_input = None, rd_output = Some ''e'', rd_error = Some ''>'',
      rd_append = True, rd_shared = False, rd_dup = False\<rparr>" by code_simp
  then show "\<exists>r. redirections ''cmd 2>> e'' = Some r \<and> rd_error r = Some ''>'' \<and> rd_output r = Some ''e'' \<and> rd_append r" by simp
  have "redirections ''cmd >> o 2>&1'' = Some \<lparr>rd_command = ''cmd '', rd_input = None, rd_output = Some ''>'', rd_error = None,
      rd_append = False, rd_shared = True, rd_dup = True\<rparr>" by code_simp
  then show "\<exists>r. redirections ''cmd >> o 2>&1'' = Some r \<and> rd_output r = Some ''>'' \<and> \<not> rd_append r" by simp
  have "redirections ''cmd &>> o'' = Some \<lparr>rd_command = ''cmd '', rd_input = None, rd_output = Some ''>'', rd_error = None,
      rd_append = False, rd_shared = True, rd_dup = False\<rparr>" by code_simp
  then show "\<exists>r. redirections ''cmd &>> o'' = Some r \<and> rd_output r = Some ''>'' \<and> \<not> rd_append r" by simp
qed

text \<open>
  A digit 2 at the end of a word is taken for the descriptor, arguments behind a file name are lost, and a version constraint behind a
  double dash is cut off although it is not taken for a redirection.
\<close>

lemma words_lost:
  "map_option rd_command (redirections ''ls dir2> o'') = Some ''ls dir''"
  "map_option rd_command (redirections ''cat a > o b'') = Some ''cat a ''"
  "map_option rd_command (redirections ''pip -- a>=2'') = Some ''pip -- a''"
  by code_simp+

text \<open>
  A stream made for the command is closed twice when its output goes to a file and its errors go with the output.
\<close>

lemma shared_output_closed_twice:
  assumes "rd_dup r" "rd_shared r" "rd_input r = None" "rd_output r = Some n" "expand n = Some n'" "\<not> rd_append r" "fopen n' ''w'' = Some f"
    and "st_out params = Some s" "f \<noteq> s" "st_out session = Some u" "st_err session = Some v" "fileno s \<noteq> fileno u" "fileno s \<noteq> fileno v"
  shows "\<exists>p. open_files expand fopen fileno thread session r params = Some (p, [s, s])"
  using assms by (simp add: open_files_def open_name_def close_other_def Let_def)

text \<open>
  In a command that is not a pipeline the search for \<^verbatim>\<open>&|\<close> and \<^verbatim>\<open>|&\<close> finds nothing.
\<close>

lemma no_pipe_left:
  assumes "strstrquoted (Some s) (Some ''|'') = None"
  shows "strstrquoted (Some s) (Some ''&|'') = None" "strstrquoted (Some s) (Some ''|&'') = None"
proof -
  have none: "\<not> unquoted_at s ''|'' p" for p
    using strstrquoted_None_iff [of "CHR ''|''" "''|''" 0 s] assms by (simp add: char_defs)
  have "unquoted_at s [a, b] p \<Longrightarrow> unquoted_at s [a] p \<and> unquoted_at s [b] (p + 1)" for a b p
    by (auto simp: unquoted_at_pair unquoted_at_single)
  then show "strstrquoted (Some s) (Some ''&|'') = None" "strstrquoted (Some s) (Some ''|&'') = None"
    using none strstrquoted_sound [of "''&|''" s] strstrquoted_sound [of "''|&''" s]
    by (cases "strstrquoted (Some s) (Some ''&|'')"; cases "strstrquoted (Some s) (Some ''|&'')"; force simp: char_defs)+
qed

end
