(* ===== verification/Command_Line.thy ===== *)
theory Command_Line
  imports Redirections
begin

text \<open>
  The text of a command before its redirections are read, in \<^verbatim>\<open>ios_system.m\<close>: enclosing quotes and parentheses, assignments before the
  command, the dictionary of aliases (\<^verbatim>\<open>alias\<close>, \<^verbatim>\<open>unalias\<close>) and the expansion of an alias, and the tests for interactive and background commands.

  Strings are lists of bytes. The dictionary of aliases is a map, which is \<open>None\<close> before the first use; its order in a listing is an argument.
  A result \<open>None\<close> is an index out of range in a Foundation string, which ends the program.
\<close>

section \<open>Enclosing quotes and parentheses\<close>

definition strip_enclosing :: "string \<Rightarrow> string" where
  "strip_enclosing cmd0 =
     (let cmd = (if cmd0 \<noteq> [] \<and> hd cmd0 = dquote
                 then (case strchr_from (tl cmd0) dquote 0 of None \<Rightarrow> cmd0 | Some k \<Rightarrow> (tl cmd0)[k := space])
                 else cmd0) in
      if cmd \<noteq> [] \<and> hd cmd = CHR ''('' then
        (case strstrquoted (Some (tl cmd)) (Some '')'') of None \<Rightarrow> tl cmd | Some k \<Rightarrow> (tl cmd)[k := space])
      else cmd)"

section \<open>Assignments before the command\<close>

function leading_assignments :: "string \<Rightarrow> (string \<times> string) list \<times> string" where
  "leading_assignments s =
     (case strstrquoted (Some s) (Some '' '') of
        None \<Rightarrow> ([], s)
      | Some k \<Rightarrow>
          (case strchr_from (take k s) (CHR ''='') 0 of
             None \<Rightarrow> ([], s)
           | Some e \<Rightarrow>
               let (vs, r) = leading_assignments (drop (k + 1) s)
               in ((take e s, drop (e + 1) (take k s)) # vs, r)))"
  by pat_completeness auto

termination leading_assignments
  by (relation "measure length") (auto dest: strstrquoted_bound)

lemmas [simp del] = leading_assignments.simps

section \<open>Aliases\<close>

text \<open>The text before the arguments, the text after them, and where the second text goes.\<close>

record alias_entry =
  al_before :: string
  al_after :: string
  al_position :: string

type_synonym aliases = "(string \<rightharpoonup> alias_entry) option"

definition the_aliases :: "aliases \<Rightarrow> string \<rightharpoonup> alias_entry" where
  "the_aliases d = (case d of None \<Rightarrow> Map.empty | Some m \<Rightarrow> m)"

definition marked_text :: "alias_entry \<Rightarrow> string \<Rightarrow> string" where
  "marked_text a tail =
     al_before a @
     (if al_position a = ''afterFirst'' then '' !^ '' @ al_after a
      else if al_position a = ''afterLast'' then '' !* '' @ al_after a @ tail else [])"

text \<open>The result of a command: its value, the dictionary, and what it writes to its output and to its errors.\<close>

type_synonym alias_result = "int \<times> aliases \<times> string \<times> string"

definition nl_char :: char where "nl_char = CHR 0x0A"
definition tab :: char where "tab = CHR 0x09"

definition list_aliases :: "string list \<Rightarrow> (string \<rightharpoonup> alias_entry) \<Rightarrow> string" where
  "list_aliases order m =
     concat (map (\<lambda>k. case m k of None \<Rightarrow> [] | Some a \<Rightarrow> k @ [tab] @ marked_text a [] @ [nl_char]) order)"

definition alias_usage :: string where
  "alias_usage = ''usage: alias command new command'' @ [nl_char, tab] @ ''alias command=new command'' @ [nl_char, tab] @
     ''!^ = first argument'' @ [nl_char, tab] @ ''!* = all arguments''"

text \<open>Quotes around the whole text: the first word loses its first character, the last word its last.\<close>

definition strip_outer :: "char \<Rightarrow> string list \<Rightarrow> string list option" where
  "strip_outer q ws =
     (let ws1 = tl (hd ws) # tl ws in
      if last ws1 = [] then None else Some (butlast ws1 @ [butlast (last ws1)]))"

definition strip_alias_quotes :: "string list \<Rightarrow> string list option" where
  "strip_alias_quotes ws =
     (if hasPrefix (hd ws) [dquote] \<and> hasSuffix (last ws) [dquote] then strip_outer dquote ws
      else if hasPrefix (hd ws) [squote] \<and> hasSuffix (last ws) [squote] then strip_outer squote ws
      else Some ws)"

function split_alias :: "string \<Rightarrow> string list" where
  "split_alias s =
     (case strstrquoted (Some s) (Some '' '') of
        None \<Rightarrow> if s = [] then [] else [s]
      | Some k \<Rightarrow> take k s # (if drop (k + 1) s = [] then [] else split_alias (drop (k + 1) s)))"
  by pat_completeness auto

termination split_alias
  by (relation "measure length") (auto dest: strstrquoted_bound)

lemmas [simp del] = split_alias.simps

definition spaced :: "string list \<Rightarrow> string" where
  "spaced ws = trimmed (concat (map (\<lambda>w. w @ [space]) ws))"

definition alias_of_words :: "string list \<Rightarrow> alias_entry option" where
  "alias_of_words ws =
     (let split = (\<lambda>mark pos. Some \<lparr>al_before = spaced (takeWhile (\<lambda>w. w \<noteq> mark) ws),
                    al_after = spaced (filter (\<lambda>w. w \<noteq> mark) (dropWhile (\<lambda>w. w \<noteq> mark) ws)), al_position = pos\<rparr>) in
      if ''!^'' \<in> set ws \<and> ''!*'' \<in> set ws then None
      else if ''!^'' \<in> set ws then split ''!^'' ''afterFirst''
      else if ''!*'' \<in> set ws then split ''!*'' ''afterLast''
      else Some \<lparr>al_before = spaced ws, al_after = [], al_position = []\<rparr>)"

definition alias_main :: "string list \<Rightarrow> string list \<Rightarrow> aliases \<Rightarrow> alias_result option" where
  "alias_main order argv d0 =
     (let m = the_aliases d0; d = Some m in
      case tl argv of
        [] \<Rightarrow> Some (0, d, list_aliases order m, [])
      | arg # rest \<Rightarrow>
          if hasPrefix arg ''-'' then
            Some (0, d, [], (if hasPrefix arg ''-h'' \<or> hasPrefix arg ''--help'' then []
                             else ''alias: unrecognized option '' @ arg @ [nl_char]) @ alias_usage @ [nl_char])
          else
            let eq = strchr_from arg (CHR ''='') 0 in
            if eq = None \<and> rest = [] then
              Some (0, d, (case m arg of None \<Rightarrow> [] | Some a \<Rightarrow> marked_text a ''  '' @ [nl_char]), [])
            else
              let command = (case eq of None \<Rightarrow> arg | Some e \<Rightarrow> take e arg);
                  ws = (case eq of None \<Rightarrow> [] | Some e \<Rightarrow> [drop (e + 1) arg]) @ rest in
              do { ws1 \<leftarrow> (if eq \<noteq> None \<or> length ws = 1 then strip_alias_quotes ws else Some ws);
                   let ws2 = (if length ws1 = 1 then (let ps = split_alias (hd ws1) in if ps = [] then ws1 else ps) else ws1);
                   Some (case alias_of_words ws2 of
                           None \<Rightarrow> (1, d, [], ''alias: can'' @ [squote] @ ''t pecify both !^ and !*, sorry.'' @ [nl_char])
                         | Some a \<Rightarrow> (0, Some (m(command \<mapsto> a)), [], [])) })"

definition aliasedCommand :: "aliases \<Rightarrow> string \<Rightarrow> string" where
  "aliasedCommand d command =
     (if hasPrefix command [backslash] then tl command
      else case the_aliases d command of None \<Rightarrow> command | Some a \<Rightarrow> marked_text a [])"

definition unalias_main :: "string list \<Rightarrow> aliases \<Rightarrow> alias_result" where
  "unalias_main argv d0 =
     (let m = the_aliases d0; usage = ''usage: unalias [command|-a]'' @ [nl_char] in
      case tl argv of
        [] \<Rightarrow> (0, Some m, [], usage)
      | arg # rest \<Rightarrow>
          if hasPrefix arg ''-'' \<and> \<not> hasPrefix arg ''-a'' then (0, Some m, [], usage)
          else if hasPrefix arg ''-a'' then (0, Some Map.empty, [], [])
          else (0, Some (m |` (- set (arg # rest))), [], []))"

text \<open>
  The expansion of the alias of a command, with the size of the block allocated for it; \<open>len\<close> is the \<^verbatim>\<open>length\<close> of a Foundation
  string.
\<close>

definition expand_alias :: "(string \<Rightarrow> nat) \<Rightarrow> aliases \<Rightarrow> string \<Rightarrow> (string \<times> nat) option" where
  "expand_alias len d command =
     (if hasPrefix command [backslash] \<or> d = None then None
      else
        let firstSpace = strstrquoted (Some command) (Some '' '');
            name = (case firstSpace of None \<Rightarrow> command | Some k \<Rightarrow> take k command);
            arguments = map_option (\<lambda>k. drop (k + 1) command) firstSpace in
        (case the_aliases d name of
           None \<Rightarrow> None
         | Some a \<Rightarrow>
             let b = al_before a; c = al_after a; size = len b + 2 + len c in
             if al_position a = [] then
               (case arguments of
                  None \<Rightarrow> Some (b, length b + 1)
                | Some args \<Rightarrow> Some (b @ '' '' @ args, len b + 2 + length args))
             else if al_position a = ''afterLast'' then
               (case arguments of
                  None \<Rightarrow> Some (b @ '' '' @ c, size)
                | Some args \<Rightarrow> Some (b @ '' '' @ args @ '' '' @ c, size + length args + 1))
             else if al_position a = ''afterFirst'' then
               (case arguments of
                  None \<Rightarrow> Some (b @ '' '' @ c, size)
                | Some args \<Rightarrow>
                    (case strstrquoted (Some args) (Some '' '') of
                       None \<Rightarrow> Some (b @ '' '' @ args @ '' '' @ c, size + length args + 1)
                     | Some k \<Rightarrow>
                         Some (b @ '' '' @ take k args @ '' '' @ c @ '' '' @ drop (k + 1) args, size + k + length (drop (k + 1) args) + 2)))
             else None))"

section \<open>Interactive and background commands\<close>

definition interactive_prefixes :: "string list" where
  "interactive_prefixes = [''vim'', ''pico'', ''ipython'', ''isympy'', ''less'', ''more'', ''ssh'', ''scp'', ''man'', ''sftp'', ''jump'']"

definition isInteractive :: "string \<Rightarrow> bool" where
  "isInteractive command \<longleftrightarrow> (\<exists>p \<in> set interactive_prefixes. hasPrefix command p)"

text \<open>The text of an entry without its final star and the spaces before it; an empty text is the prefix of nothing in Foundation.\<close>

definition short_command :: "string \<Rightarrow> string" where
  "short_command entry = rev (dropWhile (\<lambda>c. c = space) (rev (butlast entry)))"

definition isBackgroundCommand :: "string list option \<Rightarrow> string option \<Rightarrow> bool" where
  "isBackgroundCommand backgroundCommandList command =
     (case (backgroundCommandList, command) of
        (Some items, Some c) \<Rightarrow>
          (\<exists>e \<in> set items. e = c \<or> hasSuffix e ''*'' \<and> short_command e \<noteq> [] \<and> hasPrefix c (short_command e))
      | _ \<Rightarrow> False)"


section \<open>Searching for a space\<close>

lemma space_found:
  assumes "unquoted w" "space \<notin> set w"
  shows "strstrquoted (Some (w @ space # r)) (Some '' '') = Some (length w)"
proof (rule is_first_unique [OF strstrquoted_run [of space _ 0]])
  have o: "outside w p" for p using plain_outside assms(1) by (auto simp: unquoted_def)
  have "outside (w @ space # r) p" if "p \<le> length w" for p using outside_append [OF that] o by blast
  then show "unquoted_at (w @ space # r) '' '' (length w)" by (simp add: unquoted_at_single space_def)
  show "\<forall>k < length w. \<not> unquoted_at (w @ space # r) '' '' k"
    using assms(2) nth_mem by (fastforce simp: unquoted_at_single nth_append space_def)
qed (simp_all add: arg_chars)

lemma space_absent: "space \<notin> set w \<Longrightarrow> strstrquoted (Some w) (Some '' '') = None"
  using strstrquoted_None_iff [of space "'' ''" 0 w] nth_mem by (fastforce simp: unquoted_at_single arg_chars)

section \<open>Assignments\<close>

fun assignments_text :: "(string \<times> string) list \<Rightarrow> string" where
  "assignments_text [] = []"
| "assignments_text ((n, v) # vs) = n @ CHR ''='' # v @ space # assignments_text vs"

definition plain_assignment :: "string \<times> string \<Rightarrow> bool" where
  "plain_assignment a \<longleftrightarrow> unquoted (fst a) \<and> unquoted (snd a) \<and> space \<notin> set (fst a) \<and> space \<notin> set (snd a) \<and> CHR ''='' \<notin> set (fst a)"

text \<open>
  Assignments before a command are read back: after variables with their values, which have no spaces and quotes, each followed by a
  space, the rest of the text is read as if it stood alone.
\<close>

theorem assignments_read_back:
  assumes "\<forall>a \<in> set vs. plain_assignment a"
  shows "leading_assignments (assignments_text vs @ r) = (vs @ fst (leading_assignments r), snd (leading_assignments r))"
  using assms
proof (induction vs)
  case (Cons a vs)
  obtain n v where a: "a = (n, v)" by (cases a)
  have p: "unquoted (n @ CHR ''='' # v)" "space \<notin> set (n @ CHR ''='' # v)" "CHR ''='' \<notin> set n"
    using Cons.prems by (auto simp: a plain_assignment_def unquoted_def space_def char_defs)
  have t: "assignments_text (a # vs) @ r = (n @ CHR ''='' # v) @ space # (assignments_text vs @ r)" by (simp add: a)
  have e: "strchr_from (n @ CHR ''='' # v) (CHR ''='') 0 = Some (length n)" using strchr_first [OF p(3)] by simp
  show ?case
    using space_found [OF p(1,2), of "assignments_text vs @ r"] e Cons a t
    by (subst leading_assignments.simps) (simp add: split_beta)
qed simp

theorem assignments_read_back_witness:
  "leading_assignments ''A=1 B=x make all'' = ([(''A'', ''1''), (''B'', ''x'')], ''make all'')"
proof -
  let ?vs = "[(''A'', ''1''), (''B'', ''x'')]"
  have "\<forall>a \<in> set ?vs. plain_assignment a" by (simp add: plain_assignment_def unquoted_def arg_chars)
  moreover have "leading_assignments ''make all'' = ([], ''make all'')" by code_simp
  ultimately show ?thesis using assignments_read_back [of ?vs "''make all''"] by (simp add: space_def)
qed

section \<open>The words of an alias\<close>

definition alias_word :: "string \<Rightarrow> bool" where
  "alias_word w \<longleftrightarrow> w \<noteq> [] \<and> (\<forall>c \<in> set w. \<not> is_blank c) \<and> w \<noteq> ''!^'' \<and> w \<noteq> ''!*''"

lemma spaced_words:
  assumes "\<forall>w \<in> set ws. w \<noteq> [] \<and> (\<forall>c \<in> set w. \<not> is_blank c)"
  shows "spaced ws = join_with [space] ws"
proof (cases "ws = []")
  case True
  then show ?thesis by (simp add: spaced_def trimmed_def)
next
  case False
  have "concat (map (\<lambda>w. w @ [space]) ws) = join_with [space] ws @ [space] \<and> join_with [space] ws \<noteq> [] \<and>
    \<not> is_blank (hd (join_with [space] ws)) \<and> \<not> is_blank (last (join_with [space] ws))"
    using False assms by (induction ws rule: list_nonempty_induct) (auto simp: join_with_Cons hd_append last_append)
  note j = this
  have "is_blank space" by (simp add: is_blank_def space_def)
  moreover have "dropWhile is_blank (join_with [space] ws @ [space]) = join_with [space] ws @ [space]"
    using j by (cases "join_with [space] ws") auto
  moreover have "dropWhile is_blank (rev (join_with [space] ws)) = rev (join_with [space] ws)"
    using j by (cases "rev (join_with [space] ws)") (auto simp: hd_rev [symmetric])
  ultimately show ?thesis using j by (simp add: spaced_def trimmed_def)
qed

lemma alias_of_plain:
  assumes "\<forall>w \<in> set ws. alias_word w"
  shows "alias_of_words ws = Some \<lparr>al_before = join_with [space] ws, al_after = [], al_position = []\<rparr>"
proof -
  have "''!^'' \<notin> set ws" "''!*'' \<notin> set ws" using assms by (auto simp: alias_word_def)
  then show ?thesis using spaced_words [of ws] assms by (simp add: alias_of_words_def alias_word_def)
qed

lemma alias_of_marked:
  assumes "\<forall>w \<in> set (pre @ post). alias_word w" "mark = ''!^'' \<and> pos = ''afterFirst'' \<or> mark = ''!*'' \<and> pos = ''afterLast''"
  shows "alias_of_words (pre @ mark # post) =
    Some \<lparr>al_before = join_with [space] pre, al_after = join_with [space] post, al_position = pos\<rparr>"
proof -
  have m: "''!^'' \<notin> set (pre @ post)" "''!*'' \<notin> set (pre @ post)" using assms(1) by (auto simp: alias_word_def)
  then have "mark \<notin> set pre" "mark \<notin> set post" using assms(2) by auto
  then have "takeWhile (\<lambda>w. w \<noteq> mark) (pre @ mark # post) = pre" "filter (\<lambda>w. w \<noteq> mark) (dropWhile (\<lambda>w. w \<noteq> mark) (pre @ mark # post)) = post"
    by (induction pre) (auto simp: filter_id_conv)
  moreover have "spaced pre = join_with [space] pre" "spaced post = join_with [space] post"
    using assms(1) by (auto simp: alias_word_def intro!: spaced_words)
  ultimately show ?thesis using m assms(2) by (auto simp: alias_of_words_def Let_def)
qed

text \<open>Defining an alias by a name and several words.\<close>

definition alias_name :: "string \<Rightarrow> bool" where
  "alias_name n \<longleftrightarrow> n \<noteq> [] \<and> hd n \<noteq> CHR ''-'' \<and> hd n \<noteq> backslash \<and> CHR ''='' \<notin> set n \<and> space \<notin> set n \<and> unquoted n"

lemma alias_main_words:
  assumes "alias_name n" "2 \<le> length ws" "alias_of_words ws = Some a"
  shows "alias_main order (cmd # n # ws) d = Some (0, Some ((the_aliases d)(n \<mapsto> a)), [], [])"
proof -
  have "strchr_from n (CHR ''='') 0 = None" using strchr_none assms(1) by (simp add: alias_name_def)
  moreover have "\<not> hasPrefix n ''-''" using assms(1) by (cases n) (auto simp: alias_name_def hasPrefix_def)
  moreover have "ws \<noteq> []" "length ws \<noteq> 1" using assms(2) by auto
  ultimately show ?thesis using assms(3) by (simp add: alias_main_def Let_def)
qed

lemma not_escaped: "alias_name n \<Longrightarrow> \<not> hasPrefix (n @ r) [backslash]"
  by (cases n) (auto simp: alias_name_def hasPrefix_def)

lemma expand_defined:
  assumes "alias_name n"
  shows "expand_alias len (Some (m(n \<mapsto> a))) (n @ space # args) =
    (let b = al_before a; c = al_after a; size = len b + 2 + len c in
     if al_position a = [] then Some (b @ '' '' @ args, len b + 2 + length args)
     else if al_position a = ''afterLast'' then Some (b @ '' '' @ args @ '' '' @ c, size + length args + 1)
     else if al_position a = ''afterFirst'' then
       (case strstrquoted (Some args) (Some '' '') of
          None \<Rightarrow> Some (b @ '' '' @ args @ '' '' @ c, size + length args + 1)
        | Some k \<Rightarrow> Some (b @ '' '' @ take k args @ '' '' @ c @ '' '' @ drop (k + 1) args, size + k + length (drop (k + 1) args) + 2))
     else None)"
  using space_found [of n args] not_escaped [OF assms] assms by (simp add: expand_alias_def the_aliases_def alias_name_def Let_def)

section \<open>Properties\<close>

text \<open>
  C31: An alias does what its definition says. Defined by plain words it stands for these words; with \<^verbatim>\<open>!*\<close> among the words all
  arguments of the command go there, with \<^verbatim>\<open>!^\<close> the first argument goes there and the others to the end. For texts of
  one-byte characters the block for the new command has exactly the size of its text and its zero character. After \<^verbatim>\<open>unalias\<close> the command is
  not replaced any more.
\<close>

theorem alias_stands_for_its_words:
  assumes "alias_name n" "\<forall>w \<in> set (pre @ post). alias_word w" "pre \<noteq> []"
  shows "(2 \<le> length pre \<longrightarrow> (\<exists>d1. alias_main order (''alias'' # n # pre) d = Some (0, d1, [], []) \<and>
      (let t = join_with [space] pre @ '' '' @ args in expand_alias length d1 (n @ space # args) = Some (t, length t + 1)))) \<and>
    (\<exists>d1. alias_main order (''alias'' # n # pre @ ''!*'' # post) d = Some (0, d1, [], []) \<and>
      (let t = join_with [space] pre @ '' '' @ args @ '' '' @ join_with [space] post in
       expand_alias length d1 (n @ space # args) = Some (t, length t + 1))) \<and>
    (unquoted first \<and> space \<notin> set first \<longrightarrow>
      (\<exists>d1. alias_main order (''alias'' # n # pre @ ''!^'' # post) d = Some (0, d1, [], []) \<and>
        (let t = join_with [space] pre @ '' '' @ first @ '' '' @ join_with [space] post @ '' '' @ args in
         expand_alias length d1 (n @ space # first @ space # args) = Some (t, length t + 1)))) \<and>
    expand_alias length (fst (snd (unalias_main [''unalias'', n] d))) (n @ space # args) = None"
proof (intro conjI impI)
  have words: "\<forall>w \<in> set pre. alias_word w" using assms(2) by simp
  have two: "2 \<le> length (pre @ mark # post)" for mark using assms(3) by (cases pre) auto
  note def = alias_main_words [OF assms(1), where cmd = "''alias''" and order = order and d = d]
  show "\<exists>d1. alias_main order (''alias'' # n # pre) d = Some (0, d1, [], []) \<and>
      (let t = join_with [space] pre @ '' '' @ args in expand_alias length d1 (n @ space # args) = Some (t, length t + 1))" if "2 \<le> length pre"
    using def [OF that alias_of_plain [OF words]] by (auto simp: expand_defined [OF assms(1)] Let_def)
  show "\<exists>d1. alias_main order (''alias'' # n # pre @ ''!*'' # post) d = Some (0, d1, [], []) \<and>
      (let t = join_with [space] pre @ '' '' @ args @ '' '' @ join_with [space] post in
       expand_alias length d1 (n @ space # args) = Some (t, length t + 1))"
    using def [OF two alias_of_marked [OF assms(2), of "''!*''" "''afterLast''"]] by (auto simp: expand_defined [OF assms(1)] Let_def)
  show "\<exists>d1. alias_main order (''alias'' # n # pre @ ''!^'' # post) d = Some (0, d1, [], []) \<and>
        (let t = join_with [space] pre @ '' '' @ first @ '' '' @ join_with [space] post @ '' '' @ args in
         expand_alias length d1 (n @ space # first @ space # args) = Some (t, length t + 1))" if "unquoted first \<and> space \<notin> set first"
    using def [OF two alias_of_marked [OF assms(2), of "''!^''" "''afterFirst''"]] space_found [of first args] that
    by (auto simp: expand_defined [OF assms(1)] Let_def)
  have "\<not> hasPrefix n ''-''" "\<not> hasPrefix n ''-a''" using assms(1) by (cases n; auto simp: alias_name_def hasPrefix_def)+
  then show "expand_alias length (fst (snd (unalias_main [''unalias'', n] d))) (n @ space # args) = None"
    using space_found [of n args] assms(1) by (simp add: unalias_main_def Let_def expand_alias_def the_aliases_def alias_name_def)
qed

theorem alias_stands_for_its_words_witness:
  "\<exists>d. alias_main [] [''alias'', ''ll'', ''ls'', ''-l'', ''!*'', ''/''] None = Some (0, d, [], []) \<and>
    expand_alias length d ''ll -a b'' = Some (''ls -l -a b /'', 13)"
proof -
  let ?pre = "[''ls'', ''-l'']" let ?post = "[''/'']"
  have "alias_name ''ll''" by (simp add: alias_name_def unquoted_def arg_chars)
  moreover have "\<forall>w \<in> set (?pre @ ?post). alias_word w" by (simp add: alias_word_def is_blank_def)
  ultimately show ?thesis
    using alias_stands_for_its_words [of "''ll''" ?pre ?post "[]" None "''-a b''" "[]"] by (auto simp: space_def eval_nat_numeral)
qed

section \<open>Where the text of a command goes wrong\<close>

text \<open>An alias that is one quote ends the program.\<close>

lemma alias_of_one_quote: "alias_main order [''alias'', ''a'', [dquote]] d = None"
  by (simp add: alias_main_def Let_def strchr_from_def hasPrefix_def hasSuffix_def strip_alias_quotes_def strip_outer_def)

text \<open>An alias with characters of several bytes is written into a block that is too short.\<close>

lemma alias_block_too_short:
  assumes "alias_name n" "len b < length b"
  shows "\<exists>t size. expand_alias len (Some [n \<mapsto> \<lparr>al_before = b, al_after = [], al_position = []\<rparr>]) (n @ space # args) = Some (t, size) \<and>
    size < length t + 1"
  using assms expand_defined [OF assms(1), of len Map.empty] by (simp add: Let_def)

text \<open>The quotes of a value stay in the variable; the quotes around a program name with a space are removed and the name falls apart.\<close>

lemma quotes_mishandled:
  "leading_assignments (''A='' @ [dquote] @ ''x y'' @ [dquote] @ '' cmd'') = ([(''A'', [dquote] @ ''x y'' @ [dquote])], ''cmd'')"
  "strip_enclosing ([dquote] @ ''my prog'' @ [dquote] @ '' x'') = ''my prog  x''"
  by code_simp+

end
