(* ===== verification/One_Command.thy ===== *)
theory One_Command
  imports Command_Line Shell_Parser
begin

text \<open>
  A command on its way through \<^verbatim>\<open>ios_system\<close>, from its text to its arguments and files: enclosing quotes and parentheses, assignments, a variable as the command,
  substitutions, the choice between lists of commands and one command, the alias, the test for a pipeline, the redirections, the
  arguments, the expansion of variables and of wildcards, composed from \<open>Command_Line\<close>, \<open>Shell_Parser\<close>, \<open>Redirections\<close>, \<open>Arguments\<close> and
  \<open>Expansion\<close>.
\<close>

datatype prepared =
    Sequence string
  | Conditions string
  | Pipe string
  | Single redirected nat "string option list"

text \<open>The arguments after the name that were not in quotes are expanded.\<close>

fun expand_arguments ::
  "(string \<Rightarrow> string option) \<Rightarrow> string \<Rightarrow> (string \<rightharpoonup> string) option \<Rightarrow> string \<Rightarrow> string \<Rightarrow> (string \<times> bool) list \<Rightarrow> string list option" where
  "expand_arguments env home bookmarks currentDir command [] = Some []"
| "expand_arguments env home bookmarks currentDir command ((a, dontExpand) # as) =
     do { x \<leftarrow> (if dontExpand then Some a else parseArgument env home bookmarks currentDir command a);
          xs \<leftarrow> expand_arguments env home bookmarks currentDir command as;
          Some (x # xs) }"

definition prepare_command ::
  "(string \<Rightarrow> nat) \<Rightarrow> aliases \<Rightarrow> (string \<Rightarrow> string option) \<Rightarrow> string \<Rightarrow> (string \<rightharpoonup> string) option \<Rightarrow> string \<Rightarrow>
   (string \<Rightarrow> string list option) \<Rightarrow> string \<Rightarrow> prepared option" where
  "prepare_command len aliases env home bookmarks currentDir glob command0 =
     (let command = (case expand_alias len aliases command0 of None \<Rightarrow> command0 | Some (t, _) \<Rightarrow> t) in
      if strstrquoted (Some command) (Some ''|'') \<noteq> None then Some (Pipe command)
      else
        do { r \<leftarrow> redirections command;
             argv \<leftarrow> cut_arguments (rd_command r);
             (case argv of
                [] \<Rightarrow> Some (Single r 0 [None])
              | (name, d) # rest \<Rightarrow>
                  do { args \<leftarrow> expand_arguments env home bookmarks currentDir name rest;
                       let (argc, argv1) = wildcard_loop glob 1 (1 + length args) (map Some (name # args) @ [None]) (d # map snd rest @ [False]);
                       Some (Single r argc argv1) }) })"

text \<open>What a line is read with: the session, the random number, the home directory, the bookmarks, the current directory, \<^verbatim>\<open>glob\<close> and the aliases.\<close>

record line_env =
  le_session :: session_params
  le_random :: nat
  le_home :: string
  le_bookmarks :: "(string \<rightharpoonup> string) option"
  le_currentDir :: string
  le_glob :: "string \<Rightarrow> string list option"
  le_len :: "string \<Rightarrow> nat"
  le_aliases :: aliases

text \<open>The assignments before the command, on the variables of the thread; a variable without a name is refused.\<close>

fun assign_all :: "(string \<times> string) list \<Rightarrow> (string \<rightharpoonup> string) \<Rightarrow> string \<rightharpoonup> string" where
  "assign_all [] vars = vars"
| "assign_all ((name, val) # vs) vars = assign_all vs (if name = [] then vars else vars(name \<mapsto> val))"

definition variable_command :: "(string \<Rightarrow> string option) \<Rightarrow> string \<Rightarrow> string" where
  "variable_command getenv command =
     (case command of
        [] \<Rightarrow> command
      | c # name \<Rightarrow> if c = dollar then (case getenv name of None \<Rightarrow> command | Some newName \<Rightarrow> newName) else command)"

text \<open>After substitution: lists of commands go back to \<^verbatim>\<open>ios_system\<close>, command by command.\<close>

definition prepare_substituted :: "line_env \<Rightarrow> (string \<rightharpoonup> string) \<Rightarrow> string \<Rightarrow> prepared option" where
  "prepare_substituted le vars command =
     (case ios_system_dispatch command of
        Sequential \<Rightarrow> Some (Sequence command)
      | Conditional \<Rightarrow> Some (Conditions command)
      | SingleCommand \<Rightarrow>
          prepare_command (le_len le) (le_aliases le) (ios_getenv (le_session le) (le_random le) vars)
            (le_home le) (le_bookmarks le) (le_currentDir le) (le_glob le) command)"

text \<open>
  The whole way: the variables after the assignments and what is to be run. The commands of substitutions run in the shell of \<open>Shell_Parser\<close>, in processes of their own.
\<close>

definition prepare_line ::
  "nat \<Rightarrow> 'w shell_env \<Rightarrow> line_env \<Rightarrow> (string \<rightharpoonup> string) \<Rightarrow> string \<Rightarrow> 'w shell \<Rightarrow>
   ((string \<rightharpoonup> string) \<times> prepared option, 'w shell) exec option" where
  "prepare_line n env le vars inputCmd st =
     (let (vs, command1) = leading_assignments (strip_enclosing inputCmd);
          vars1 = assign_all vs vars;
          command2 = variable_command (ios_getenv (le_session le) (le_random le) vars1) command1 in
      (case ios_expand_substitutions n env command2 st of
         None \<Rightarrow> None
       | Some Crash \<Rightarrow> Some Crash
       | Some (Blocked st1) \<Rightarrow> Some (Blocked st1)
       | Some (Returns command3 st1) \<Rightarrow> Some (Returns (vars1, prepare_substituted le vars1 command3) st1)))"

section \<open>Plain words\<close>

text \<open>A word without any character that the shell treats specially, and one that can be the name of a command.\<close>

definition inert_word :: "string \<Rightarrow> bool" where
  "inert_word w \<longleftrightarrow> plain_file w \<and> (\<forall>c \<in> set w. c \<notin> set ''$~*?[|;'' \<and> c \<noteq> backtick) \<and> \<not> parent_path w"

definition inert_name :: "string \<Rightarrow> bool" where
  "inert_name w \<longleftrightarrow> inert_word w \<and> CHR ''='' \<notin> set w \<and> hd w \<noteq> CHR ''('' \<and> w \<notin> {''export'', ''alias''}"

lemma char_absent:
  assumes "c \<notin> set w" "c \<noteq> dquote" "c \<noteq> squote"
  shows "strstrquoted (Some w) (Some [c]) = None"
  using strstrquoted_None_iff [OF assms(2,3), of "[c]" 0 w] assms(1) nth_mem by (fastforce simp: unquoted_at_single)

lemma pattern_absent:
  assumes "x \<in> set pat" "x \<notin> set s" "unquoted s"
  shows "strstrquoted (Some s) (Some pat) = None"
proof -
  have "pat \<noteq> []" using assms(1) by auto
  then show ?thesis using strstrquoted_plain_text [OF assms(3)] plain_scan_lacks [OF assms(1,2)] by simp
qed

lemma join_words: "ws \<noteq> [] \<Longrightarrow> join_with [space] ws = hd ws @ concat (map (\<lambda>w. space # w) (tl ws))"
proof (induction ws rule: list_nonempty_induct)
  case (cons w ws)
  then show ?case by (cases ws) (simp_all add: join_with_Cons)
qed simp

lemma file_facts:
  assumes "plain_file n"
  shows "unquoteArgument n = Some n" "hd n \<notin> {dquote, squote, recordSeparator}" "n \<noteq> []" "hd n \<noteq> space"
proof -
  have h: "hd n \<noteq> space" "hd n \<notin> set special" "backslash \<notin> set n" "n \<noteq> []" using assms hd_in_set [of n] by (auto simp: plain_file_def)
  then show "hd n \<notin> {dquote, squote, recordSeparator}" "n \<noteq> []" "hd n \<noteq> space" by (auto simp: special_def)
  then show "unquoteArgument n = Some n" using h by (auto simp: unquoteArgument_def unescape_plain)
qed

lemma cut_one:
  assumes "plain_file w" "\<not> (length argv = 1 \<and> fst (hd argv) \<in> {''export'', ''alias''})"
  shows "argument_loop argv w = Some (argv @ [(w, False)])"
    "argument_loop argv (w @ space # r) = argument_loop (argv @ [(w, False)]) (dropWhile (\<lambda>c. c = space) r)"
proof -
  note f = file_facts [OF assms(1)]
  show "argument_loop argv w = Some (argv @ [(w, False)])"
    using getLast_file [OF assms(1), of "[]"] f assms(2) by (subst loop_last [of _ _ None w]) auto
  show "argument_loop argv (w @ space # r) = argument_loop (argv @ [(w, False)]) (dropWhile (\<lambda>c. c = space) r)"
    using getLast_file [OF assms(1), of "space # r"] f assms(2) by (subst loop_step [of _ _ "length w" w]) auto
qed

lemma cut_words:
  assumes "\<forall>v \<in> set (w # ws). plain_file v" "t = [] \<or> t = [space]"
    and "\<not> (length argv = 1 \<and> fst (hd argv) \<in> {''export'', ''alias''})" "argv = [] \<longrightarrow> w \<notin> {''export'', ''alias''}"
  shows "argument_loop argv (w @ concat (map (\<lambda>w. space # w) ws) @ t) = Some (argv @ map (\<lambda>w. (w, False)) (w # ws))"
  using assms(1,3,4)
proof (induction ws arbitrary: argv w)
  case Nil
  then have w: "plain_file w" by simp
  have "argument_loop acc [] = Some acc" for acc by (subst argument_loop.simps) simp
  then show ?case using cut_one(1) [OF w Nil.prems(2)] cut_one(2) [OF w Nil.prems(2), of "[]"] assms(2) by auto
next
  case (Cons v ws)
  have "hd v \<noteq> space" "v \<noteq> []" using Cons.prems(1) file_facts [of v] by auto
  then have "dropWhile (\<lambda>c. c = space) (v @ concat (map (\<lambda>w. space # w) ws) @ t) = v @ concat (map (\<lambda>w. space # w) ws) @ t"
    by (cases v) auto
  then show ?case
    using cut_one(2) [of w argv "v @ concat (map (\<lambda>w. space # w) ws) @ t"] Cons.IH [of v "argv @ [(w, False)]"] Cons.prems
    by (cases argv) auto
qed

lemma inert_parse:
  assumes "inert_word w" "command \<noteq> ''export''"
  shows "parseArgument env home bookmarks dir command w = Some w"
proof -
  have c: "dollar \<notin> set w" "CHR ''~'' \<notin> set w" "\<not> parent_path w" using assms(1) by (auto simp: inert_word_def dollar_def)
  have "expand_variables env ''/:'' True w = Some w" using c(1) by (subst expand_variables.simps) simp
  moreover have "\<not> hasPrefix w ''~''" using c(2) by (cases w) (auto simp: hasPrefix_def)
  moreover have "\<not> contains w '':~''" using c(2) by (induction w) (auto simp: hasPrefix_def prefix_def)
  ultimately show ?thesis using c(3) assms(2) by (simp add: parseArgument_def Let_def expand_tilde_def)
qed

lemma inert_wildcard: "inert_word w \<Longrightarrow> \<not> has_wildcard w"
  using char_absent [of "CHR ''*''" w] char_absent [of "CHR ''?''" w] char_absent [of "CHR ''[''" w]
  by (auto simp: inert_word_def has_wildcard_def char_defs)

lemma expand_inert:
  "\<forall>w \<in> set ws. inert_word w \<Longrightarrow> command \<noteq> ''export'' \<Longrightarrow>
   expand_arguments env home bookmarks dir command (map (\<lambda>w. (w, False)) ws) = Some ws"
  by (induction ws) (auto simp: inert_parse)


text \<open>The text of plain words and redirections.\<close>

lemma inert_char: "inert_word w \<Longrightarrow> c \<in> set w \<Longrightarrow> c \<notin> set special \<and> c \<noteq> space \<and> c \<noteq> backslash \<and> c \<notin> set ''$~*?[|;'' \<and> c \<noteq> backtick"
  by (auto simp: inert_word_def plain_file_def)

lemma set_join: "set (join_with [space] ws) \<subseteq> insert space (\<Union> (set ` set ws))"
  by (cases "ws = []") (auto simp: join_words dest: hd_in_set list.set_sel(2))

lemma words_plain:
  assumes "\<forall>w \<in> set ws. inert_word w"
  shows "bare_command (join_with [space] ws)"
  unfolding bare_command_def
proof
  fix x assume "x \<in> set (join_with [space] ws)"
  then consider "x = space" | w where "w \<in> set ws" "x \<in> set w" using set_join by blast
  then show "x \<notin> set special"
  proof cases
    case 1
    then show ?thesis by (simp add: special_simps)
  next
    case 2
    then show ?thesis using inert_char assms by blast
  qed
qed

lemma line_lacks:
  assumes "\<forall>w \<in> set ws. inert_word w" "\<forall>r \<in> set rs. inert_word (file_of r)" "x \<in> {CHR ''|'', CHR '';'', CHR ''&'', CHR ''$'', backtick, dquote, squote}"
  shows "x \<notin> set (join_with [space] ws @ redirects_text rs)"
proof
  assume "x \<in> set (join_with [space] ws @ redirects_text rs)"
  moreover have "set (redirects_text rs) \<subseteq> set (space # ''<>2'') \<union> \<Union> (set ` file_of ` set rs)"
  proof (induction rs)
    case (Cons r rs)
    then show ?case by (cases r) (auto simp: redirect_text_def)
  qed simp
  ultimately consider "x \<in> set (space # ''<>2'')" | w where "w \<in> set ws" "x \<in> set w" | r where "r \<in> set rs" "x \<in> set (file_of r)"
    using set_join [of ws] by fastforce
  then show False
  proof cases
    case 1
    then show ?thesis using assms(3) by (auto simp: space_def char_defs)
  next
    case 2
    then show ?thesis using assms(1,3) inert_char [of w x] by (auto simp: special_simps)
  next
    case 3
    then show ?thesis using assms(2,3) inert_char [of "file_of r" x] by (auto simp: special_simps)
  qed
qed

lemma alias_absent:
  assumes "inert_word w" "the_aliases d w = None" "r = [] \<or> hd r = space"
  shows "expand_alias len d (w @ r) = None"
proof -
  have w: "unquoted w" "space \<notin> set w" using assms(1) plain_unquoted(1) by (auto simp: inert_word_def plain_file_def)
  show ?thesis
  proof (cases r)
    case Nil
    then show ?thesis using space_absent [OF w(2)] assms(2) by (simp add: expand_alias_def)
  next
    case (Cons c r')
    then show ?thesis using space_found [OF w, of r'] assms(2,3) by (simp add: expand_alias_def)
  qed
qed

text \<open>Assignments, enclosing characters and substitutions on such a line.\<close>

lemma no_assignments:
  assumes "inert_name w" "r = [] \<or> hd r = space"
  shows "leading_assignments (w @ r) = ([], w @ r)"
proof -
  have w: "unquoted w" "space \<notin> set w" "CHR ''='' \<notin> set w"
    using assms(1) plain_unquoted(1) by (auto simp: inert_name_def inert_word_def plain_file_def)
  have e: "strchr_from w (CHR ''='') 0 = None"
  proof (cases "strchr_from w (CHR ''='') 0")
    case (Some k)
    then show ?thesis using w(3) strchr_from_bound [of w "CHR ''=''" 0 k] nth_mem by fastforce
  qed
  show ?thesis
  proof (cases r)
    case Nil
    then show ?thesis using space_absent [OF w(2)] by (subst leading_assignments.simps) simp
  next
    case (Cons c r')
    then show ?thesis using space_found [OF w(1,2), of r'] assms(2) e by (subst leading_assignments.simps) simp
  qed
qed

lemma nothing_enclosing: "s \<noteq> [] \<Longrightarrow> hd s \<noteq> dquote \<Longrightarrow> hd s \<noteq> CHR ''('' \<Longrightarrow> strip_enclosing s = s"
  by (simp add: strip_enclosing_def)

text \<open>The part of the way after the substitutions.\<close>

lemma single_arrives:
  assumes "inert_name name" "\<forall>w \<in> set args. inert_word w" "\<forall>r \<in> set rs. inert_word (file_of r)" "one_each rs"
    and "the_aliases (le_aliases le) name = None" "\<forall>a ms. le_glob le a = Some ms \<longrightarrow> ms \<noteq> []"
  shows "\<exists>r. prepare_substituted le vars (join_with [space] (name # args) @ redirects_text rs) =
        Some (Single r (1 + length args) (map Some (name # args) @ [None])) \<and>
      rd_input r = map_option file_of (find is_in rs) \<and> rd_output r = map_option file_of (find is_out rs) \<and>
      rd_error r = map_option file_of (find is_err rs) \<and> rd_append r = (\<exists>n. App n \<in> set rs) \<and> \<not> rd_shared r"
proof -
  let ?c = "join_with [space] (name # args)"
  define line where "line = ?c @ redirects_text rs"
  have w: "\<forall>w \<in> set (name # args). inert_word w" "name \<notin> {''export'', ''alias''}" using assms(1,2) by (auto simp: inert_name_def)
  have plain: "bare_command ?c" "\<forall>r \<in> set rs. plain_file (file_of r)" "\<forall>w \<in> set (name # args). plain_file w"
    using words_plain [OF w(1)] w(1) assms(3) by (auto simp: inert_word_def)
  have unq: "unquoted line" using plain_unquoted(2) [OF plain(1)] redirects_unquoted [OF plain(2)] by (simp add: line_def)
  note lack = line_lacks [OF w(1) assms(3), folded line_def]
  have absent: "strstrquoted (Some line) (Some pat) = None" if "x \<in> set pat" "x \<in> {CHR ''|'', CHR '';'', CHR ''&''}" for x pat
    using pattern_absent [OF that(1) lack unq] that(2) by blast
  have words: "?c = name @ concat (map (\<lambda>w. space # w) args)" by (simp add: join_words)
  define rest where "rest = concat (map (\<lambda>w. space # w) args) @ redirects_text rs"
  have "rest = [] \<or> hd rest = space" by (cases args; cases rs) (auto simp: rest_def redirect_text_def)
  then have al: "expand_alias len (le_aliases le) line = None" for len
    using alias_absent [of name "le_aliases le" rest len] w(1) assms(5) by (simp add: line_def words rest_def)
  let ?t = "if rs = [] then [] else [space]"
  have "argument_loop [] (name @ concat (map (\<lambda>w. space # w) args) @ ?t) = Some ([] @ map (\<lambda>w. (w, False)) (name # args))"
    using plain(3) w(2) by (intro cut_words) auto
  then have cut: "cut_arguments (if rs = [] then ?c else ?c @ [space]) = Some (map (\<lambda>w. (w, False)) (name # args))"
    unfolding cut_arguments_def words by (cases "rs = []") auto
  have ex: "expand_arguments env home bookmarks dir name (map (\<lambda>w. (w, False)) args) = Some args" for env home bookmarks dir
    using assms(2) w(2) by (intro expand_inert) auto
  have "concat (map2 (expand_arg (le_glob le)) args (map (\<lambda>_. False) args)) = args"
    using assms(2) inert_wildcard by (induction args) (auto simp: expand_arg_def)
  then have wild: "wildcard_loop (le_glob le) 1 (1 + length args) (map Some (name # args) @ [None]) (False # map (\<lambda>_. False) args @ [False]) =
      (1 + length args, map Some (name # args) @ [None])"
    using wildcard_loop_eq [of "le_glob le" "map (\<lambda>_. False) args" args "[name]" "False # map (\<lambda>_. False) args @ [False]" "[False]"] assms(6) by simp
  have "ios_system_dispatch line = SingleCommand"
    using absent [of "CHR '';''" "'';''"] absent [of "CHR ''&''" "''&&''"] absent [of "CHR ''|''" "''||''"] by (simp add: ios_system_dispatch_def)
  moreover have "strstrquoted (Some line) (Some ''|'') = None" using absent [of "CHR ''|''" "''|''"] by simp
  ultimately show ?thesis
    using redirections_plain [OF plain(1,2) assms(4), folded line_def] al cut ex wild unfolding line_def [symmetric]
    by (simp add: prepare_substituted_def prepare_command_def comp_def)
qed

section \<open>Properties\<close>


definition demo_line_env :: "session_params \<Rightarrow> line_env" where
  "demo_line_env sp = \<lparr>le_session = sp, le_random = 0, le_home = ''/'', le_bookmarks = None, le_currentDir = ''/'', le_glob = (\<lambda>_. None),
     le_len = length, le_aliases = None\<rparr>"


end
