(* ===== verification/Thread_Streams.thy ===== *)
theory Thread_Streams
  imports Redirections
begin

text \<open>
  The streams of a thread in \<^verbatim>\<open>ios_system.m\<close>: \<^verbatim>\<open>ios_dup2\<close>, which prepares the streams of the next command, their activation, the
  tests for a terminal, and the size of the window that a command asks for with \<^verbatim>\<open>ioctl\<close>.

  A state has the streams of the thread (\<^verbatim>\<open>thread_stdin\<close> and so on), those of the next command (\<^verbatim>\<open>child_stdin\<close> and so on), and the open
  descriptors. \<^verbatim>\<open>fdopen\<close>, \<^verbatim>\<open>fileno\<close> and the system call \<^verbatim>\<open>ioctl\<close> are arguments; \<open>dup\<close> tells whether
  \<^verbatim>\<open>F_DUPFD\<close> succeeds.
\<close>

section \<open>Duplicating descriptors\<close>

record stream_state =
  ss_thread :: streams
  ss_child :: streams
  ss_fds :: "int set"

definition is_fileno :: "(stream \<Rightarrow> int) \<Rightarrow> stream option \<Rightarrow> int \<Rightarrow> bool" where
  "is_fileno fileno f fd \<longleftrightarrow> (case f of None \<Rightarrow> False | Some s \<Rightarrow> fileno s = fd)"

definition stream_of :: "int \<Rightarrow> streams \<Rightarrow> stream option" where
  "stream_of fd s = (if fd = 0 then st_in s else if fd = 1 then st_out s else if fd = 2 then st_err s else None)"

definition set_stream :: "int \<Rightarrow> stream option \<Rightarrow> stream_state \<Rightarrow> stream_state" where
  "set_stream fd f x =
     (let c = ss_child x in
      if fd = 0 then x\<lparr>ss_child := c\<lparr>st_in := f\<rparr>\<rparr>
      else if fd = 1 then x\<lparr>ss_child := c\<lparr>st_out := f\<rparr>\<rparr>
      else if fd = 2 then x\<lparr>ss_child := c\<lparr>st_err := f\<rparr>\<rparr>
      else x)"

definition ios_dup2 ::
  "(int \<Rightarrow> string \<Rightarrow> stream option) \<Rightarrow> (stream \<Rightarrow> int) \<Rightarrow> bool \<Rightarrow> int \<Rightarrow> int \<Rightarrow> stream_state \<Rightarrow> int \<times> stream_state" where
  "ios_dup2 fdopen fileno dup fd1 fd2 x =
     (let c = ss_child x; t = ss_thread x; stream1 = (if fd1 < 3 then stream_of fd1 c else None) in
      if stream1 \<noteq> None \<and> fd2 \<in> {0, 1, 2} then (fd2, set_stream fd2 stream1 x)
      else if fd2 = 0 then (fd2, set_stream 0 (fdopen fd1 ''rb'') x)
      else if fd2 = 1 then (fd2, set_stream 1 (fdopen fd1 ''wb'') x)
      else if fd2 = 2 then
        let x1 = (if is_fileno fileno (st_out c) fd1 then set_stream 2 (st_out c) x else x) in
        (fd2, if is_fileno fileno (st_out t) fd1 then set_stream 2 (st_out c) x1
              else if fd1 = 1 then set_stream 2 (st_out t) x1
              else set_stream 2 (fdopen fd1 ''wb'') x1)
      else if is_fileno fileno (st_in t) fd2 then (fd2, set_stream 0 (fdopen fd1 ''rb'') x)
      else if is_fileno fileno (st_out t) fd2 then (fd2, set_stream 1 (fdopen fd1 ''wb'') x)
      else if is_fileno fileno (st_err t) fd2 then
        (fd2, set_stream 2 (if is_fileno fileno (st_out c) fd1 then st_out c else fdopen fd1 ''wb'') x)
      else if fd1 \<noteq> fd2 then
        if fd1 \<notin> ss_fds x then (- 1, x)
        else if dup then (fd2, x\<lparr>ss_fds := insert fd2 (ss_fds x)\<rparr>)
        else (- 1, x\<lparr>ss_fds := ss_fds x - {fd2}\<rparr>)
      else (fd2, x))"

text \<open>The streams of the next command become those of the thread; \<open>old\<close> are the variables that keep the previous ones.\<close>

definition ios_activateChildStreams :: "streams \<Rightarrow> stream_state \<Rightarrow> streams \<times> stream_state" where
  "ios_activateChildStreams old x =
     (let c = ss_child x; t = ss_thread x in
      (\<lparr>st_in = (if st_in c \<noteq> None then st_in t else st_in old), st_out = (if st_out c \<noteq> None then st_out t else st_out old),
        st_err = (if st_err c \<noteq> None then st_err t else st_err old)\<rparr>,
       x\<lparr>ss_thread := \<lparr>st_in = or_else (st_in c) (st_in t), st_out = or_else (st_out c) (st_out t), st_err = or_else (st_err c) (st_err t)\<rparr>,
         ss_child := no_streams\<rparr>))"

definition ios_setStreams :: "stream option \<Rightarrow> stream option \<Rightarrow> stream option \<Rightarrow> session_params option \<Rightarrow> stream_state \<Rightarrow>
    session_params option \<times> stream_state" where
  "ios_setStreams i w e session x =
     (case session of
        None \<Rightarrow> (None, x)
      | Some sp \<Rightarrow> (Some (sp\<lparr>sp_stdin := i, sp_stdout := w, sp_stderr := e\<rparr>), x\<lparr>ss_thread := \<lparr>st_in = i, st_out = w, st_err = e\<rparr>\<rparr>))"

section \<open>Terminals\<close>

text \<open>\<open>None\<close> is \<^verbatim>\<open>fileno\<close> of a session stream that is not set.\<close>

definition tty_test :: "(stream \<Rightarrow> int) \<Rightarrow> int \<Rightarrow> int \<Rightarrow> stream option \<Rightarrow> stream option \<Rightarrow> bool option option" where
  "tty_test fileno std fd thread session =
     (case thread of
        None \<Rightarrow> Some None
      | Some t \<Rightarrow>
          if fd = std then map_option (\<lambda>s. Some (fileno t = fileno s)) session
          else map_option (\<lambda>s. if fd = fileno s \<or> fd = fileno t then Some (fileno t = fileno s) else None) session)"

definition ios_isatty :: "(stream \<Rightarrow> int) \<Rightarrow> session_params option \<Rightarrow> streams \<Rightarrow> int \<Rightarrow> bool option" where
  "ios_isatty fileno session t fd =
     (case session of
        None \<Rightarrow> Some False
      | Some sp \<Rightarrow>
          do { a \<leftarrow> tty_test fileno 0 fd (st_in t) (sp_stdin sp);
               if a \<noteq> None then a
               else
                 do { b \<leftarrow> tty_test fileno 1 fd (st_out t) (sp_stdout sp);
                      if b \<noteq> None then b
                      else
                        do { c \<leftarrow> tty_test fileno 2 fd (st_err t) (sp_stderr sp);
                             if c \<noteq> None then c else Some False } } })"

definition ios_is_terminal_fd :: "(stream \<Rightarrow> int) \<Rightarrow> session_params option \<Rightarrow> streams \<Rightarrow> int \<Rightarrow> bool" where
  "ios_is_terminal_fd fileno session t fd =
     (case session of
        None \<Rightarrow> False
      | Some sp \<Rightarrow> fd \<in> {0, 1, 2} \<or>
          (\<exists>f \<in> set [st_in t, st_out t, st_err t, sp_stdin sp, sp_stdout sp, sp_stderr sp, sp_tty sp]. is_fileno fileno f fd))"

section \<open>The size of the window\<close>

fun digits_value :: "int \<Rightarrow> string \<Rightarrow> int" where
  "digits_value v [] = v"
| "digits_value v (c # r) =
     (if 48 \<le> (of_char c :: nat) \<and> (of_char c :: nat) \<le> 57 then digits_value (10 * v + int (of_char c - 48)) r else v)"

text \<open>\<^verbatim>\<open>atoi\<close>, for a text without leading blanks whose value fits an \<^verbatim>\<open>int\<close>.\<close>

definition atoi :: "string \<Rightarrow> int" where
  "atoi s =
     (case s of
        CHR ''-'' # r \<Rightarrow> - digits_value 0 r
      | CHR ''+'' # r \<Rightarrow> digits_value 0 r
      | _ \<Rightarrow> digits_value 0 s)"

record winsize =
  ws_row :: "16 word"
  ws_col :: "16 word"
  ws_xpixel :: "16 word"
  ws_ypixel :: "16 word"

definition TIOCGWINSZ :: u64 where "TIOCGWINSZ = 0x40087468"

text \<open>\<open>ws\<close> is what the argument points to, and \<open>ioctl\<close> the system call.\<close>

definition ios_ioctl ::
  "(int \<Rightarrow> u64 \<Rightarrow> winsize option \<Rightarrow> int \<times> winsize option) \<Rightarrow> (stream \<Rightarrow> int) \<Rightarrow> session_params option \<Rightarrow> streams \<Rightarrow>
   int \<Rightarrow> u64 \<Rightarrow> winsize option \<Rightarrow> int \<times> winsize option" where
  "ios_ioctl ioctl fileno session t fd request ws =
     (case (session, ws) of
        (Some sp, Some w) \<Rightarrow>
          if request = TIOCGWINSZ \<and> ios_is_terminal_fd fileno session t fd
          then (0, Some (w\<lparr>ws_col := of_int (atoi (sp_columns sp)), ws_row := of_int (atoi (sp_lines sp)),
                        ws_xpixel := 0, ws_ypixel := 0\<rparr>))
          else ioctl fd request ws
      | _ \<Rightarrow> ioctl fd request ws)"

text \<open>The environment handed to a program, with the variables of the session at its end.\<close>

definition environmentAsArray :: "session_params \<Rightarrow> string list \<Rightarrow> string list" where
  "environmentAsArray session env_pid = env_pid @ [''ROWS='' @ sp_columns session, ''PWD='' @ sp_currentDir session]"

section \<open>Numbers and their texts\<close>

lemma digits_value_append:
  "(\<forall>c \<in> set a. 48 \<le> (of_char c :: nat) \<and> (of_char c :: nat) \<le> 57) \<Longrightarrow> digits_value v (a @ b) = digits_value (digits_value v a) b"
  by (induction a arbitrary: v) auto

lemma digits_are_digits: "c \<in> set (digits n) \<Longrightarrow> 48 \<le> (of_char c :: nat) \<and> (of_char c :: nat) \<le> 57"
  by (induction n rule: digits.induct) (subst (asm) digits.simps, auto split: if_splits)

lemma digits_value_digits: "digits_value 0 (digits n) = int n"
proof (induction n rule: digits.induct)
  case (1 n)
  show ?case
  proof (cases "n < 10")
    case True
    then show ?thesis by (subst digits.simps) simp
  next
    case False
    have "digits_value 0 (digits n) = digits_value (int (n div 10)) [char_of (48 + n mod 10)]"
      using 1 False digits_are_digits by (subst digits.simps) (simp add: digits_value_append)
    also have "\<dots> = 10 * int (n div 10) + int (n mod 10)" using mod_less_divisor [of 10 n] by simp
    also have "\<dots> = int (10 * (n div 10) + n mod 10)" by (simp only: of_nat_add of_nat_mult of_nat_numeral)
    finally show ?thesis by (simp only: mult_div_mod_eq)
  qed
qed

lemma digits_not_Nil: "digits n \<noteq> []"
  by (subst digits.simps) simp

lemma atoi_decimal: "atoi (decimal i) = i"
proof (cases "i < 0")
  case True
  then show ?thesis by (simp add: decimal_def atoi_def digits_value_digits)
next
  case False
  obtain c r where d: "digits (nat i) = c # r" using digits_not_Nil [of "nat i"] by (cases "digits (nat i)") auto
  then have "48 \<le> (of_char c :: nat)" using digits_are_digits [of c "nat i"] by simp
  then have "c \<noteq> CHR ''-''" "c \<noteq> CHR ''+''" by auto
  then have "atoi (c # r) = digits_value 0 (c # r)" by (simp add: atoi_def del: digits_value.simps split: char.splits bool.splits)
  then show ?thesis using digits_value_digits [of "nat i"] False d by (simp add: decimal_def del: digits_value.simps)
qed

section \<open>Properties\<close>

text \<open>
  C32: A new window size reaches the commands of the session: after \<^verbatim>\<open>ios_setWindowSize\<close> with a size that is not negative, the
  request for the size on a descriptor of the terminal gives this size, or 9999 for more, and so do the variables for the columns and the lines.
\<close>

theorem window_size_reaches_commands:
  assumes "sm_inv s" "session_table_lookup_locked sid s = Some a" "\<not> doomed s a" "0 \<le> w" "0 \<le> h"
  shows "\<exists>s' sp. ios_setWindowSize key w h sid s = Some ((), s') \<and> params_of s' a = Some sp \<and>
    (\<forall>ioctl fileno t fd ws. ios_is_terminal_fd fileno (Some sp) t fd \<longrightarrow>
      ios_ioctl ioctl fileno (Some sp) t fd TIOCGWINSZ (Some ws) =
        (0, Some (ws\<lparr>ws_col := of_int (min w 9999), ws_row := of_int (min h 9999), ws_xpixel := 0, ws_ypixel := 0\<rparr>))) \<and>
    ios_getenv sp r env ''COLUMNS'' = Some (decimal (min w 9999)) \<and> ios_getenv sp r env ''LINES'' = Some (decimal (min h 9999))"
proof -
  obtain sp where sp: "sm_store s a = Some sp" using lookup_entry [OF assms(1,2)] by blast
  then have rcs: "0 \<le> sp_ref_count sp" "\<not> sp_is_destroying sp" using assms(1,3) by (auto simp: sm_inv_def doomed_def)
  have get: "ios_session_get key sid s = Some (Some (a, sid), add_ref a sp s)"
    using assms(1-3) sp rcs by (simp add: ios_session_get_def sm_init_noop try_acquire_def sm_inv_def sm_ok_def)
  have "\<exists>s' sp'. ios_setWindowSize key w h sid s = Some ((), s') \<and> sm_store s' a = Some sp' \<and>
    sp_columns sp' = decimal (min w 9999) \<and> sp_lines sp' = decimal (min h 9999)"
    using get rcs sp assms(4,5)
    by (cases "sp_ref_count sp = 0")
      (auto simp: ios_setWindowSize_def window_body_def with_session_def size_text_fits update_params_def add_ref_def ios_session_release_def Let_def)
  then obtain s' sp' where "ios_setWindowSize key w h sid s = Some ((), s')" "sm_store s' a = Some sp'"
    "sp_columns sp' = decimal (min w 9999)" "sp_lines sp' = decimal (min h 9999)" by blast
  then show ?thesis by (auto simp: params_of_def ios_ioctl_def ios_getenv_def atoi_decimal intro!: exI [of _ s'])
qed

theorem window_size_reaches_commands_witness:
  "\<exists>s s' sp. ios_setWindowSize 0 120 40 5 s = Some ((), s') \<and> params_of s' 1 = Some sp \<and>
    ios_ioctl (\<lambda>_ _ ws. (- 1, ws)) (\<lambda>_. 0) (Some sp) no_streams 1 TIOCGWINSZ (Some \<lparr>ws_row = 0, ws_col = 0, ws_xpixel = 0, ws_ypixel = 0\<rparr>) =
      (0, Some \<lparr>ws_row = 40, ws_col = 120, ws_xpixel = 0, ws_ypixel = 0\<rparr>)"
proof -
  obtain s where s: "sm_inv s" "session_table_lookup_locked 5 s = Some 1" "acquires demo_table (1, 5) s"
    "ios_session_get_or_create demo_session_mem (\<lambda>s. s) 5 demo_table = Some (Some (1, 5), s)" by (rule demo_acquired)
  have "\<not> doomed s 1"
  proof (cases rule: get_or_create_cases [OF demo_table_facts(1,3), of 5])
    case (2 a)
    then have "s = add_ref 1 (ios_session_init_params demo_session_mem) (new_session 1 demo_session_mem 5 demo_table)" using s(4) by simp
    then show ?thesis by (simp add: doomed_def add_ref_def)
  qed (use s(4) in \<open>auto simp: demo_table_facts\<close>)
  from window_size_reaches_commands [OF s(1,2) this, of 120 40 0] obtain s' sp where
    r: "ios_setWindowSize 0 120 40 5 s = Some ((), s')" "params_of s' 1 = Some sp"
      "\<forall>ioctl fileno t fd ws. ios_is_terminal_fd fileno (Some sp) t fd \<longrightarrow> ios_ioctl ioctl fileno (Some sp) t fd TIOCGWINSZ (Some ws) =
        (0, Some (ws\<lparr>ws_col := of_int (min 120 9999), ws_row := of_int (min 40 9999), ws_xpixel := 0, ws_ypixel := 0\<rparr>))" by force
  have "ios_is_terminal_fd (\<lambda>_. 0) (Some sp) no_streams 1" by (simp add: ios_is_terminal_fd_def)
  with r(3) have "ios_ioctl (\<lambda>_ _ ws. (- 1, ws)) (\<lambda>_. 0) (Some sp) no_streams 1 TIOCGWINSZ (Some \<lparr>ws_row = 0, ws_col = 0, ws_xpixel = 0, ws_ypixel = 0\<rparr>) =
      (0, Some \<lparr>ws_row = 40, ws_col = 120, ws_xpixel = 0, ws_ypixel = 0\<rparr>)" by (simp only: ) simp
  with r(1,2) show ?thesis by blast
qed

text \<open>
  The usual sequence before a command is started, \<^verbatim>\<open>dup2(fd, 1)\<close> and then \<^verbatim>\<open>dup2(1, 2)\<close>, gives the command one
  stream on the descriptor for its output and its errors; a single \<^verbatim>\<open>dup2(fd, k)\<close> gives it a stream on the descriptor in place \<open>k\<close> and leaves the
  other two alone, unless the descriptor is that of the output of the thread. Activating the streams afterwards makes them those of the thread, and keeps the old ones.
\<close>

theorem dup2_prepares_streams:
  assumes "\<forall>mode. \<exists>f. fdopen fd mode = Some f \<and> fileno f = fd" "3 \<le> fd" "\<not> is_fileno fileno (st_out (ss_thread x)) fd"
  shows "(\<forall>k \<in> {0, 1, 2}. \<exists>x1 f. ios_dup2 fdopen fileno dup fd k x = (k, x1) \<and> stream_of k (ss_child x1) = Some f \<and> fileno f = fd \<and>
      (\<forall>j. j \<noteq> k \<longrightarrow> stream_of j (ss_child x1) = stream_of j (ss_child x)) \<and> ss_thread x1 = ss_thread x) \<and>
    (\<exists>x1 x2 f. ios_dup2 fdopen fileno dup fd 1 x = (1, x1) \<and> ios_dup2 fdopen fileno dup 1 2 x1 = (2, x2) \<and>
      fdopen fd ''wb'' = Some f \<and> ss_child x2 = (ss_child x)\<lparr>st_out := Some f, st_err := Some f\<rparr> \<and>
      (\<forall>old. \<exists>old' x3. ios_activateChildStreams old x2 = (old', x3) \<and> st_out (ss_thread x3) = Some f \<and> st_err (ss_thread x3) = Some f \<and>
        st_out old' = st_out (ss_thread x) \<and> st_err old' = st_err (ss_thread x) \<and> ss_child x3 = no_streams))"
proof -
  obtain f where f: "fdopen fd ''wb'' = Some f" "fileno f = fd" using assms(1) by blast
  obtain g where g: "fdopen fd ''rb'' = Some g" "fileno g = fd" using assms(1) by blast
  note defs = ios_dup2_def set_stream_def stream_of_def Let_def
  have "\<exists>x1 f. ios_dup2 fdopen fileno dup fd k x = (k, x1) \<and> stream_of k (ss_child x1) = Some f \<and> fileno f = fd \<and>
      (\<forall>j. j \<noteq> k \<longrightarrow> stream_of j (ss_child x1) = stream_of j (ss_child x)) \<and> ss_thread x1 = ss_thread x" if "k \<in> {0, 1, 2}" for k
    using that assms(2,3) f g by (auto simp: defs)
  moreover have "\<exists>x1 x2. ios_dup2 fdopen fileno dup fd 1 x = (1, x1) \<and> ios_dup2 fdopen fileno dup 1 2 x1 = (2, x2) \<and>
      ss_child x2 = (ss_child x)\<lparr>st_out := Some f, st_err := Some f\<rparr> \<and> ss_thread x2 = ss_thread x"
    using assms(2) f by (simp add: defs)
  ultimately show ?thesis using f(1) by (fastforce simp: ios_activateChildStreams_def Let_def)
qed


theorem dup2_prepares_streams_witness:
  "\<exists>x1 x2. ios_dup2 (\<lambda>fd m. Some (File (nat fd))) (\<lambda>s. case s of File n \<Rightarrow> int n | _ \<Rightarrow> 0) True 7 1
      \<lparr>ss_thread = no_streams, ss_child = no_streams, ss_fds = {7}\<rparr> = (1, x1) \<and>
    ios_dup2 (\<lambda>fd m. Some (File (nat fd))) (\<lambda>s. case s of File n \<Rightarrow> int n | _ \<Rightarrow> 0) True 1 2 x1 = (2, x2) \<and>
    ss_child x2 = \<lparr>st_in = None, st_out = Some (File 7), st_err = Some (File 7)\<rparr>"
proof -
  let ?fdopen = "\<lambda>fd (m :: string). Some (File (nat fd))" let ?fileno = "\<lambda>s. case s of File n \<Rightarrow> int n | _ \<Rightarrow> 0"
  let ?x = "\<lparr>ss_thread = no_streams, ss_child = no_streams, ss_fds = {7}\<rparr>"
  have "\<forall>mode. \<exists>f. ?fdopen 7 mode = Some f \<and> ?fileno f = 7" by simp
  moreover have "\<not> is_fileno ?fileno (st_out (ss_thread ?x)) 7" by (simp add: is_fileno_def no_streams_def)
  ultimately show ?thesis
    using dup2_prepares_streams [of ?fdopen 7 ?fileno ?x True] by (auto simp: no_streams_def)
qed

section \<open>Streams and variables that go wrong\<close>

text \<open>
  \<^verbatim>\<open>dup2(fd, 2)\<close> on the descriptor of the output of the thread loses the stream: the errors go to the output of the next command, which
  may not be set. The variable \<^verbatim>\<open>ROWS\<close> handed to a program has the number of columns.
\<close>

lemma dup2_loses_stream:
  "is_fileno fileno (st_out (ss_thread x)) fd \<Longrightarrow> 3 \<le> fd \<Longrightarrow> st_out (ss_child x) = None \<Longrightarrow>
   st_err (ss_child (snd (ios_dup2 fdopen fileno dup fd 2 x))) = None"
  by (simp add: ios_dup2_def set_stream_def Let_def is_fileno_def)

lemma rows_are_columns:
  "''ROWS='' @ sp_columns sp \<in> set (environmentAsArray sp env) \<and> ios_getenv sp r e ''ROWS'' = Some (sp_lines sp)"
  by (simp add: environmentAsArray_def ios_getenv_def)

end
