(* ===== verification/Spec2Isabelle.thy ===== *)
theory Spec2Isabelle
  imports Buffered_Pipe Pid_Allocator Interpreter_Threads Thread_Pool Process_Table Libc_IO Getopt_Order Session_Manager
    Async_Commands Pipeline Directories Current_Session One_Command Thread_Streams
begin

text \<open>
  A verification development for the runtime of ios_system (rootshell fork): the library that lets
  Unix commands, compiled into one iOS application, run as threads that believe they are
  processes.

  \<^bold>\<open>The program.\<close> A command runs in a thread with a small integer as its process id, an environment and
  standard streams of its own. \<^verbatim>\<open>libc_replacement.c\<close> replaces the libc entry points by functions
  that consult these; commands of a pipeline exchange bytes through \<^verbatim>\<open>ios_buffered_pipe.c\<close>; Python, Perl
  and other interpreters that exist a fixed number of times are shared through \<^verbatim>\<open>ios_interpreter_pool.c\<close>;
  background work goes to \<^verbatim>\<open>ios_thread_pool.c\<close>; \<^verbatim>\<open>ios_pid_allocator.c\<close> and \<^verbatim>\<open>ios_env_manager.c\<close> are the
  allocator of process contexts and the per-thread environments of the concurrency refactoring, the second
  of these called by \<^verbatim>\<open>getenv\<close>, \<^verbatim>\<open>setenv\<close> and \<^verbatim>\<open>unsetenv\<close>; \<^verbatim>\<open>getopt.c\<close> and \<^verbatim>\<open>getopt_long.c\<close> parse the command lines, with
  globals and statics that a command resets when it starts. \<^verbatim>\<open>ios_system.m\<close> takes a command line: \<^verbatim>\<open>ios_shell_parser.m\<close>
  expands command substitutions and runs lists of commands, \<^verbatim>\<open>ios_pipeline.m\<close> pipelines, \<^verbatim>\<open>ios_async.m\<close>
  commands in the background, and \<^verbatim>\<open>ios_session_manager.m\<close> keeps the sessions (windows) in which they run. For one command,
  \<^verbatim>\<open>ios_system.m\<close> replaces aliases, finds redirections, cuts and expands the arguments, keeps the command inside the directories the application allows,
  and starts it.

  \<^bold>\<open>The theories.\<close>

  \<^item> \<open>Prelude\<close>: the results of system calls, stores with allocated and freed addresses, linked chains, byte
    blits, static arrays, busy waiting against a schedule, and the lemmas on them.

  \<^item> \<open>Interfaces\<close>: the contracts, as locales. \<open>bounded_channel\<close> (a byte stream with room), \<open>bounded_queue\<close> (a
    first-in first-out queue), \<open>id_pool\<close> (identifiers that are never held twice), \<open>env_store\<close> (an environment) and
    \<open>ref_pool\<close> (objects that live while they are referenced).
    Each is interpreted on the model of the code: the ring of the pipe (\<open>ring\<close>), the work queues (\<open>wq\<close>),
    the process ids of the allocator (\<open>pids\<close>), the interpreter slots (\<open>slots\<close>), the process ids of
    \<^verbatim>\<open>ios_fork\<close> (\<open>forked\<close>), the lists of strings (\<open>env_list\<close>), the thread environments (\<open>thread_store\<close>), the
    process environments (\<open>proc_store\<close>) and the sessions (\<open>sessions\<close>).

  \<^item> \<open>Buffered_Pipe\<close>: \<^verbatim>\<open>struct _ios_buffered_pipe\<close> and every function of the file. Bytes arrive once, in
    order and are counted, in every interleaving of write passes, read passes and closes; a blocking write or read
    returns what it says; polling, deadlines and the one-byte pipe.

  \<^item> \<open>Pid_Allocator\<close>: contexts on a store, bucket chains, the lock-free free list with interference between load and
    compare-and-swap, reference counts, the cleanup counter. Ids are unique, lookups exact, the last release
    retires exactly one context; the ABA window of the pop and the dangling list after a shutdown.

  \<^item> \<open>Environ_List\<close>, \<open>Env_Manager\<close>: environments as lists of \<^verbatim>\<open>NAME=VALUE\<close> strings; the manager with its hash table
    and thread-specific key. The environment of a thread refines a finite map, threads do not see each
    other, no reachable operation faults, a new thread inherits. Where an operation gives back the lock of the table before it locks
    an environment, other threads interfere: no fault while the environment it found is not freed, and the two races when it is.

  \<^item> \<open>Interpreter_Pool\<close>, \<open>Interpreter_Threads\<close>: slot bitmaps as 32-bit words, compare-and-swap loops, the semaphore. Slots are never
    shared and the lowest free one is taken. The second theory has any number of threads that go through the stages of the operations,
    each load, swap, wait and signal a step: whoever passes the semaphore finds a slot.

  \<^item> \<open>Thread_Pool\<close>: work items with reference counts, four queues, the stages of the worker loop. The counts are
    exact in every reachable state, a worker takes the oldest item of the highest priority; what shutdown,
    drain, cancel and callbacks do and do not guarantee.

  \<^item> \<open>Libc_Process\<close>: the process table of \<^verbatim>\<open>libc_replacement.c\<close>: process ids, thread ids, waiting, directories and
    environments by process, WebAssembly ordering. A fork takes the next free id, ids are never shared, the life cycle of
    a command, \<^verbatim>\<open>waitpid\<close>, environment updates and their scopes.

  \<^item> \<open>Process_Table\<close>: the operations of \<open>Libc_Process\<close> together. Any sequence of calls that return keeps the table well formed and does not
    fault (\<^verbatim>\<open>makeLocal\<close> for a process without an environment of its own); environment updates fail exactly for bad names, with
    \<^verbatim>\<open>errno\<close> set by the session or by libc.

  \<^item> \<open>Libc_IO\<close>: the cancellable sleeps, \<^verbatim>\<open>select\<close>, \<^verbatim>\<open>poll\<close>, \<^verbatim>\<open>read\<close> and the stream functions. Sleeping long enough, the
    sets reported to the caller, interruption by a cancelled session only, the redirection of output.

  \<^item> \<open>Getopt\<close>, \<open>Getopt_Long\<close>, \<open>Getopt_Order\<close>: the two parsers. \<^verbatim>\<open>getopt\<close> implements the grammar of a command line and reads
    back what was written; the in-place rotation of \<^verbatim>\<open>getopt_long\<close> exchanges two blocks and its calls are safe. \<open>Getopt_Order\<close>
    holds a reader that sorts the words of a command line into options with their arguments, operands and the rest in one
    pass, and shows that the calls of \<^verbatim>\<open>getopt_long\<close> end with the vector in exactly this order.

  \<^item> \<open>Shell_Quoting\<close>: the text functions of \<^verbatim>\<open>ios_shell_parser.m\<close> and \<^verbatim>\<open>strstrquoted\<close> of \<^verbatim>\<open>ios_system.m\<close>. The search finds the first
    occurrence outside quotes; a line is cut at its unquoted semicolons, and at \<^verbatim>\<open>&&\<close> and \<^verbatim>\<open>||\<close>.

  \<^item> \<open>Shell_Parser\<close>: lists of commands and command substitution on the process table of \<open>Libc_Process\<close>, over a parameter that executes one
    command. Sequences run every segment, chains stop where they should, a chain with one operator is that of a POSIX
    shell; substitution puts the output in place of the command and ends when outputs hold no further substitution and fit into the pipe that
    nobody reads while the command runs; a larger output blocks it for ever.

  \<^item> \<open>Arguments\<close>: \<^verbatim>\<open>concatenateArgv\<close> and the cutting of a command line into arguments in \<^verbatim>\<open>ios_system.m\<close>. An argument vector
    survives the way through a command line; the array for the arguments is large enough, but for \<^verbatim>\<open>alias\<close>.

  \<^item> \<open>Pipeline\<close>: \<^verbatim>\<open>ios_pipeline.m\<close>. Lines are cut at their bars, the stages connected in a row, waiting joins them all.

  \<^item> \<open>Async_Commands\<close>: \<^verbatim>\<open>ios_async.m\<close>, with each access of the command thread to the shared handle as a step. The handle is freed once, after its last
    use, if the client does not release it too early; a command completes, in the session and on the streams asked for, and a client that sleeps on the condition
    variable is woken.

  \<^item> \<open>Session_Manager\<close>: \<^verbatim>\<open>ios_session_manager.m\<close>. Sessions are not freed while they are referenced, are found until they are deleted,
    and are freed with the last reference; cancellation; shutdown; the races of deletion and release.

  \<^item> \<open>Paths\<close>: normalising and joining paths. The normal form is unique of its kind and leads to the same place from every directory; joining composes.

  \<^item> \<open>Directories\<close>: \<^verbatim>\<open>chdir\<close>, \<^verbatim>\<open>fchdir\<close>, \<^verbatim>\<open>cd\<close> and the roots an application sets, over a file system that is a parameter. Commands stay in the
    allowed directories, which are subtrees of the file system (if no sibling of a root has a name that extends the name of the root: the test of the code compares text); when \<^verbatim>\<open>chdir\<close> succeeds and with which error it fails; the sibling of a root that passes the test.

  \<^item> \<open>Current_Session\<close>: the session a thread works in, on the sessions of \<open>Session_Manager\<close>: switching, closing, window sizes, killing. A call that
    releases, looks up and enters in turn is cut into these pieces. With any number of threads, interleaved between the pieces, the current session of a thread is
    alive, counted, and the one its reference holds; shells, which keep a session without a reference.

  \<^item> \<open>Expansion\<close>: variables, home directories, bookmarks and wildcards. The expansion ends when no value has a dollar sign, and puts values in place of
    variables; the loop that replaces arguments by matches in their array is the replacement argument by argument; the variables that loop.

  \<^item> \<open>Redirections\<close>: the marks, names and files of redirections, found and cut in place in the text of the command. What was written is read
    back, in any order; the streams of the command; the forms that are misread.

  \<^item> \<open>Command_Line\<close>: enclosing quotes, assignments before a command, the aliases. An alias stands for its words, in a block of the right
    size for one-byte characters.

  \<^item> \<open>Thread_Streams\<close>: \<^verbatim>\<open>dup2\<close>, the streams of the next command, terminals and window sizes. A window size set for a session is
    the one its commands read.

  \<^item> \<open>One_Command\<close>: the composition of assignments before the command, alias, redirections, arguments and expansion, from the text of the line. The
    assignments, words and redirections of a line of plain words arrive as they were written.

  \<^bold>\<open>Conventions.\<close> A value \<open>None\<close> where the C function returns a value is a fault of the program (a null or freed
  pointer, an index outside an array) or an endless loop, as said in each theory. \<^verbatim>\<open>errno\<close> and the
  result are one \<open>sysret\<close> value. Blocking calls take the list of what happens while they wait; a call that
  uses up the list is still waiting. Compare-and-swap loops take the list of interfering updates between the load and the
  swap. The scheduler, the kernel and the C library enter as such arguments. \<open>size_t\<close> is a natural number with the
  wrap-around shown not to occur (in the ring of the pipe) or written out (\<open>SIZE_MAX\<close>, \<open>int_cast\<close>); bitmaps are \<open>32 word\<close>.

  \<^bold>\<open>Bounds.\<close> There is fuel in specifications: \<open>getopt_all\<close> iterates \<^verbatim>\<open>getopt\<close>, and one call more than there are
  characters is shown to be enough; \<open>run_calls\<close> iterates
  \<^verbatim>\<open>getopt_long\<close>, and as many further calls as there are characters are shown to be enough. In the model itself,
  \<open>ios_expand_substitutions\<close> has fuel for its nested passes, because a command can write text that expands for ever; twice the number of
  dollars and backticks, and two more, is shown to be enough when no output has them. The scan for a process id and the walks
  along linked chains are \<open>partial_function\<close>s, with the value \<open>None\<close> where the C loop would not end; the scan is shown to end exactly when an id
  is free, and the walks to end on every chain that satisfies the invariant. So is the loop over the variables of an argument, \<open>expand_variables\<close>, shown to
  end when no value has a dollar sign, and not to end on two variables that refer to each other. Everything else is total.

  \<^bold>\<open>Not modelled.\<close> Of \<^verbatim>\<open>ios_system.m\<close>: the search of a command in the path and in the command dictionary, scripts and their interpreters, dynamic
  loading, the start and the cleanup of the thread of a command, the pasteboard, because they are calls of the loader, the file system, the
  application and the thread library with little between them; \<^verbatim>\<open>ios_popen\<close>. The commands and libraries
  imported from BSD, Apple, OpenSSH, curl and libarchive, which are other projects; the formatting of
  \<^verbatim>\<open>printf\<close> (an argument of the model); signal masks, thread names and priorities; log messages on stderr. Foundation strings are lists of
  one-byte characters, but for the length that sizes the block of an alias.
\<close>

section \<open>Two environments of one command\<close>

text \<open>
  \<^verbatim>\<open>libc_replacement.c\<close> keeps an environment for each process id, which \<^verbatim>\<open>ios_setenv_pid\<close>, \<^verbatim>\<open>ios_unsetenv_pid\<close>
  and \<^verbatim>\<open>ios_putenv\<close> update, and sends \<^verbatim>\<open>ios_setenv\<close>, \<^verbatim>\<open>ios_unsetenv\<close> and \<^verbatim>\<open>getenv\<close> to the environment of the calling
  thread in \<^verbatim>\<open>ios_env_manager.c\<close>. The two agree only as long as both get the same updates.
\<close>

text \<open>
  C38: The two environments are the same container: from equal variables, any sequence of assignments and
  removals, done on the process environment of \<^verbatim>\<open>libc_replacement.c\<close> and on the thread environment of
  \<^verbatim>\<open>ios_env_manager.c\<close>, leaves every variable with the same value in both.
\<close>

theorem environment_stores_agree:
  assumes "proc_inv pid t" and "thread_inv self m"
    and "\<forall>k. valid_name k \<longrightarrow> libc_getenv self (Some k) m = Some (lookup_var k (proc_vars t pid))"
    and "\<forall>u \<in> set ops. valid_name (op_name u)" and "valid_name n"
  shows "libc_getenv self (Some n) (env_run (thread_set self) (thread_unset self) ops m) =
    Some (lookup_var n (proc_vars (env_run (proc_set pid) (proc_unset pid) ops t) pid))"
proof -
  let ?m = "env_run (thread_set self) (thread_unset self) ops m"
  have "thread_get self m n = proc_get pid t n"
    using assms(3,5) by (simp add: thread_get_def proc_get_def libc_getenv_def)
  then have "map_run ops (thread_get self m) n = map_run ops (proc_get pid t) n" by (rule map_run_cong)
  with thread_store.run_refines_map [OF assms(2,4,5)] proc_store.run_refines_map [OF assms(1,4,5)]
  have m: "thread_inv self ?m" and "thread_get self ?m n = lookup_var n (proc_vars (env_run (proc_set pid) (proc_unset pid) ops t) pid)"
    by (simp_all add: proc_get_def)
  moreover have "ios_env_getenv self (Some n) ?m \<noteq> None" using m by (auto simp: thread_inv_def getenv_total)
  ultimately show ?thesis by (auto simp: thread_get_def libc_getenv_def)
qed

theorem environment_stores_agree_witness:
  "libc_getenv 7 (Some ''B'') (env_run (thread_set 7) (thread_unset 7) [Delete ''A'', Assign ''B'' ''2''] demo_env) =
   Some (lookup_var ''B'' (proc_vars (env_run (proc_set 1) (proc_unset 1) [Delete ''A'', Assign ''B'' ''2''] forked_table) 1))"
proof (rule environment_stores_agree)
  show "proc_inv 1 forked_table"
    using forked_table_facts one_in_table a1_distinct by (simp add: proc_inv_def)
  show inv: "thread_inv 7 demo_env"
    using demo_env_facts demo_distinct by (auto simp: thread_inv_def)
  show "\<forall>k. valid_name k \<longrightarrow> libc_getenv 7 (Some k) demo_env = Some (lookup_var k (proc_vars forked_table 1))"
    using demo_env_facts forked_table_facts by (auto simp: libc_getenv_def getenv_spec valid_name_def)
qed (simp_all add: valid_name_def eq_char_def)

end
